(* ===== verification/Prelude.thy ===== *)
theory Prelude
  imports Main "HOL-Library.Word" "HOL-Library.Signed_Division"
begin

text \<open>
  Shared vocabulary of the development: the error values of the modelled C++ code, the
  result type and its sequencing operator, indexed access to a \<open>std::vector\<close> and
  \<open>memcpy\<close> with the out-of-range cases written out, narrowing conversions, little-endian
  access to machine integers in a byte buffer, and the arithmetic of power-of-two masks.

  Conventions. A C++ \<open>long\<close> that counts bytes of a stream is an \<open>int\<close> of HOL; a narrowing
  cast \<open>(int) x\<close> is \<open>to_int32 x\<close>; C's truncating \<open>/\<close> and \<open>%\<close> are \<open>sdiv\<close> and
  \<open>smod\<close>. Bit patterns (bytes, packed timestamps, compressed blocks) are words.
\<close>

unbundle bit_operations_syntax

named_theorems res_simps "rewriting of sequenced fallible computations"
named_theorems mem_simps "rewriting of memory accesses"
named_theorems mask_simps "power-of-two masks as remainders"

section \<open>Errors and results\<close>

text \<open>
  The ways a call of the modelled code fails to return: the exception classes it throws, a
  call of \<open>exit\<close>, \<open>Blocked\<close> for a busy-waiting loop whose condition never comes true, and
  \<open>Undefined\<close> for an access outside an allocated object or a division by
  zero, where C++ gives no result.
\<close>

datatype cpp_error =
    InvalidArgument
  | RuntimeError
  | OutOfRange
  | LengthError
  | Exit
  | Blocked
  | Undefined

type_synonym 'a res = "cpp_error + 'a"

fun rbind :: "'a res \<Rightarrow> ('a \<Rightarrow> 'b res) \<Rightarrow> 'b res" where
  "rbind (Inl e) f = Inl e"
| "rbind (Inr x) f = f x"

definition guard_res :: "bool \<Rightarrow> cpp_error \<Rightarrow> unit res" where
  "guard_res b e = (if b then Inr () else Inl e)"

definition is_ok :: "'a res \<Rightarrow> bool" where
  "is_ok r = (case r of Inl _ \<Rightarrow> False | Inr _ \<Rightarrow> True)"

lemma is_ok_simps [simp]: "is_ok (Inr x)" "\<not> is_ok (Inl e)"
  by (simp_all add: is_ok_def)

lemma rbind_eq_Inr_iff [res_simps]:
  "rbind m f = Inr y \<longleftrightarrow> (\<exists>x. m = Inr x \<and> f x = Inr y)"
  by (cases m) auto

lemma rbind_eq_InrE [elim!]:
  assumes "rbind m f = Inr y"
  obtains x where "m = Inr x" and "f x = Inr y"
  using assms by (auto simp: rbind_eq_Inr_iff)

lemma rbind_pairE:
  assumes "rbind m (\<lambda>(x, y). f x y) = Inr z"
  obtains x y where "m = Inr (x, y)" and "f x y = Inr z"
  using assms by (cases m) auto

lemma guard_res_Inr [simp]: "guard_res b e = Inr u \<longleftrightarrow> b"
  by (simp add: guard_res_def)

lemma guard_res_simps [simp]: "guard_res True e = Inr ()" "guard_res False e = Inl e"
  by (simp_all add: guard_res_def)

section \<open>Loops over a fallible body\<close>

text \<open>
  A counted \<open>for\<close> loop whose body may fail is \<open>rfold\<close> over the list of its index values: it
  threads the state and stops at the first error.
\<close>

fun rfold :: "('a \<Rightarrow> 's \<Rightarrow> 's res) \<Rightarrow> 'a list \<Rightarrow> 's \<Rightarrow> 's res" where
  "rfold f [] s = Inr s"
| "rfold f (x # xs) s = rbind (f x s) (rfold f xs)"

lemma rfold_append: "rfold f (xs @ ys) s = rbind (rfold f xs s) (rfold f ys)"
proof (induction xs arbitrary: s)
  case (Cons x xs)
  then show ?case by (cases "f x s") auto
qed simp

lemma rfold_invariant:
  assumes "rfold f xs s = Inr t" and "P s"
    and "\<And>x s s'. x \<in> set xs \<Longrightarrow> P s \<Longrightarrow> f x s = Inr s' \<Longrightarrow> P s'"
  shows "P t"
  using assms
proof (induction xs arbitrary: s)
  case (Cons x xs)
  from Cons.prems(1) obtain s1 where s1: "f x s = Inr s1" "rfold f xs s1 = Inr t"
    by auto
  have "P s1" using Cons.prems(3) [of x s s1] Cons.prems(2) s1(1) by simp
  then show ?case
    by (rule Cons.IH [OF s1(2)]) (use Cons.prems(3) in auto)
qed simp

lemma rfold_cong_set:
  assumes "\<And>x s. x \<in> set xs \<Longrightarrow> f x s = g x s"
  shows "rfold f xs s = rfold g xs s"
  using assms by (induction xs arbitrary: s) (auto intro!: arg_cong2 [where f = rbind])

lemma upto_nat: "[0..int n - 1] = map int [0..<n]"
  by (induction n) (simp_all add: upto_rec2)

text \<open>A loop that rewrites every element of a vector in place is a \<open>map\<close> over the indices.\<close>

lemma rfold_update_all:
  assumes body: "\<And>v s. v < n \<Longrightarrow> length s = length xs \<Longrightarrow> s ! v = xs ! v \<Longrightarrow> f v s = Inr (s[v := h v])"
    and n: "n \<le> length xs"
  shows "rfold f [0..<n] xs = Inr (map h [0..<n] @ drop n xs)"
  using n body
proof (induction n)
  case (Suc n)
  have IH: "rfold f [0..<n] xs = Inr (map h [0..<n] @ drop n xs)"
    using Suc.prems by (intro Suc.IH) auto
  let ?s = "map h [0..<n] @ drop n xs"
  have "f n ?s = Inr (?s[n := h n])"
    using Suc.prems(1) by (intro Suc.prems(2)) (auto simp: nth_append)
  moreover have "?s[n := h n] = map h [0..<Suc n] @ drop (Suc n) xs"
    using Suc.prems(1) by (auto simp: list_update_append Cons_nth_drop_Suc [symmetric])
  ultimately show ?case using IH by (simp add: rfold_append)
qed simp

lemma find_SomeD: "List.find P xs = Some x \<Longrightarrow> x \<in> set xs \<and> P x"
  by (induction xs) (auto split: if_splits)

section \<open>Narrowing conversions\<close>

definition to_int32 :: "int \<Rightarrow> int" where
  "to_int32 x = signed_take_bit 31 x"

definition INT_MAX :: int where "INT_MAX = 2 ^ 31 - 1"

definition INT_MIN :: int where "INT_MIN = - (2 ^ 31)"

lemma sdiv_nonneg: "0 \<le> a \<Longrightarrow> 0 \<le> b \<Longrightarrow> (a::int) sdiv b = a div b"
  by (cases "a = 0"; cases "b = 0") (auto simp: signed_divide_int_def sgn_if)

lemma zdiv_less_iff:
  fixes a b c :: int
  assumes "0 < b"
  shows "a div b < c \<longleftrightarrow> a < c * b"
proof -
  have a: "a = a div b * b + a mod b" "0 \<le> a mod b" "a mod b < b" using assms by auto
  show ?thesis
  proof
    assume "a div b < c"
    then have "(a div b + 1) * b \<le> c * b" using assms by (intro mult_right_mono) auto
    then have "a div b * b + b \<le> c * b" by (simp only: distrib_right mult_1)
    then show "a < c * b" using a by linarith
  next
    assume less: "a < c * b"
    show "a div b < c"
    proof (rule ccontr)
      assume "\<not> a div b < c"
      then have "c * b \<le> a div b * b" using assms by (intro mult_right_mono) auto
      then show False using less a by linarith
    qed
  qed
qed

lemma zdiv_ge_iff: "0 < (b :: int) \<Longrightarrow> c \<le> a div b \<longleftrightarrow> c * b \<le> a"
  using zdiv_less_iff [of b a c] by linarith

lemma pred_div:
  fixes a b :: int
  assumes "0 < b" and "a mod b \<noteq> 0"
  shows "(a - 1) div b = a div b"
proof (rule antisym)
  show "(a - 1) div b \<le> a div b" using assms(1) by (intro zdiv_mono1) auto
  have "1 \<le> a mod b" using assms pos_mod_sign [of b a] by linarith
  moreover have "a = a div b * b + a mod b" by simp
  ultimately have "a div b * b \<le> a - 1" by linarith
  then show "a div b \<le> (a - 1) div b" using zdiv_ge_iff [OF assms(1)] by blast
qed

lemma to_int32_id: "INT_MIN \<le> x \<Longrightarrow> x \<le> INT_MAX \<Longrightarrow> to_int32 x = x"
  by (simp add: to_int32_def INT_MIN_def INT_MAX_def signed_take_bit_int_eq_self)

lemma to_int32_range: "INT_MIN \<le> to_int32 x \<and> to_int32 x \<le> INT_MAX"
  using signed_take_bit_int_greater_eq_minus_exp [of 31 x] signed_take_bit_int_less_exp [of 31 x]
  by (simp add: to_int32_def INT_MIN_def INT_MAX_def)

section \<open>Vectors and memory copies\<close>

text \<open>
  \<open>v[i]\<close> on a \<open>std::vector\<close> is not checked by the library; an index out of range is undefined
  behaviour, which the model reports as an error.
\<close>

definition vget :: "'a list \<Rightarrow> int \<Rightarrow> 'a res" where
  "vget v i = (if 0 \<le> i \<and> i < int (length v) then Inr (v ! nat i) else Inl Undefined)"

definition vset :: "'a list \<Rightarrow> int \<Rightarrow> 'a \<Rightarrow> 'a list res" where
  "vset v i x = (if 0 \<le> i \<and> i < int (length v) then Inr (v[nat i := x]) else Inl Undefined)"

definition write_at :: "nat \<Rightarrow> 'a list \<Rightarrow> 'a list \<Rightarrow> 'a list" where
  "write_at i vs b = take i b @ vs @ drop (i + length vs) b"

definition memcpy_to :: "'a list \<Rightarrow> int \<Rightarrow> 'a list \<Rightarrow> 'a list res" where
  "memcpy_to b i vs =
     (if 0 \<le> i \<and> i + int (length vs) \<le> int (length b)
      then Inr (write_at (nat i) vs b) else Inl Undefined)"

definition memread :: "'a list \<Rightarrow> int \<Rightarrow> int \<Rightarrow> 'a list res" where
  "memread b i n =
     (if 0 \<le> i \<and> 0 \<le> n \<and> i + n \<le> int (length b)
      then Inr (take (nat n) (drop (nat i) b)) else Inl Undefined)"

lemma vset_eq_Inr_iff [mem_simps]:
  "vset v i x = Inr v' \<longleftrightarrow> 0 \<le> i \<and> i < int (length v) \<and> v' = v[nat i := x]"
  by (auto simp: vset_def)

lemma vget_eq_Inr_iff [mem_simps]:
  "vget v i = Inr x \<longleftrightarrow> 0 \<le> i \<and> i < int (length v) \<and> x = v ! nat i"
  by (auto simp: vget_def)

lemma memcpy_to_eq_Inr_iff [mem_simps]:
  "memcpy_to b i vs = Inr b' \<longleftrightarrow>
     0 \<le> i \<and> i + int (length vs) \<le> int (length b) \<and> b' = write_at (nat i) vs b"
  by (auto simp: memcpy_to_def)

lemma memread_eq_Inr_iff [mem_simps]:
  "memread b i n = Inr vs \<longleftrightarrow>
     0 \<le> i \<and> 0 \<le> n \<and> i + n \<le> int (length b) \<and> vs = take (nat n) (drop (nat i) b)"
  by (auto simp: memread_def)

lemma length_write_at [simp]:
  "i + length vs \<le> length b \<Longrightarrow> length (write_at i vs b) = length b"
  by (simp add: write_at_def)

lemma nth_write_at:
  assumes "i + length vs \<le> length b" and "k < length b"
  shows "write_at i vs b ! k = (if i \<le> k \<and> k < i + length vs then vs ! (k - i) else b ! k)"
  using assms by (auto simp: write_at_def nth_append min_def)

lemma take_drop_write_at [simp]:
  "i + length vs \<le> length b \<Longrightarrow> take (length vs) (drop i (write_at i vs b)) = vs"
  by (simp add: write_at_def)

lemma write_at_adjacent:
  "i + length r + length l \<le> length b \<Longrightarrow>
   write_at (i + length r) l (write_at i r b) = write_at i (r @ l) b"
  by (simp add: write_at_def ac_simps)

section \<open>Machine integers in a byte buffer\<close>

type_synonym byte = "8 word"

text \<open>Little-endian layout of an integer over \<open>n\<close> bytes, and its value.\<close>

fun le_bytes :: "nat \<Rightarrow> int \<Rightarrow> byte list" where
  "le_bytes 0 x = []"
| "le_bytes (Suc n) x = word_of_int x # le_bytes n (x div 256)"

fun le_val :: "byte list \<Rightarrow> int" where
  "le_val [] = 0"
| "le_val (b # bs) = uint b + 256 * le_val bs"

lemma length_le_bytes [simp]: "length (le_bytes n x) = n"
  by (induction n x rule: le_bytes.induct) auto

lemma le_val_le_bytes: "le_val (le_bytes n x) = x mod 256 ^ n"
proof (induction n x rule: le_bytes.induct)
  case (1 x)
  then show ?case by simp
next
  case (2 n x)
  have "x mod (256 * 256 ^ n) = 256 * (x div 256 mod 256 ^ n) + x mod 256"
    by (rule zmod_zmult2_eq) simp
  then show ?case using 2 by (simp add: uint_word_of_int take_bit_eq_mod)
qed

text \<open>A \<open>long\<close> is eight bytes in two's complement.\<close>

definition long_bytes :: "int \<Rightarrow> byte list" where
  "long_bytes x = le_bytes 8 x"

definition long_val :: "byte list \<Rightarrow> int" where
  "long_val bs = signed_take_bit 63 (le_val bs)"

lemma length_long_bytes [simp]: "length (long_bytes x) = 8"
  by (simp add: long_bytes_def)

lemma long_val_long_bytes:
  assumes "- (2 ^ 63) \<le> x" and "x < 2 ^ 63"
  shows "long_val (long_bytes x) = x"
proof -
  have "long_val (long_bytes x) = signed_take_bit 63 (take_bit 64 x)"
    by (simp add: long_val_def long_bytes_def le_val_le_bytes take_bit_eq_mod)
  also have "\<dots> = signed_take_bit 63 x"
    by (simp add: signed_take_bit_take_bit)
  also have "\<dots> = x"
    using assms by (simp add: signed_take_bit_int_eq_self)
  finally show ?thesis .
qed

section \<open>Power-of-two masks\<close>

definition is_pow2 :: "int \<Rightarrow> bool" where
  "is_pow2 c \<longleftrightarrow> (\<exists>n. c = 2 ^ n)"

lemma is_pow2_pos: "is_pow2 c \<Longrightarrow> 0 < c"
  by (auto simp: is_pow2_def)

lemma and_mask_nat [mask_simps]: "and (x :: nat) (2 ^ m - 1) = x mod 2 ^ m"
  by (metis mask_eq_exp_minus_1 take_bit_eq_mask take_bit_eq_mod)

lemma and_mask_pow2 [mask_simps]: "is_pow2 c \<Longrightarrow> and x (c - 1) = x mod c"
  by (auto simp: is_pow2_def take_bit_eq_mod simp flip: mask_eq_exp_minus_1 take_bit_eq_mask)

end
