(* ===== verification/WindowDef.thy ===== *)
theory WindowDef
  imports Prelude
begin

text \<open>
  The window definition of a query (\<open>utils/WindowDefinition.h\<close>): its constructors, the pane
  decomposition of a sliding window by the greatest common divisor of size and slide, and
  the pane counts that the window slicing of a batch divides by.
\<close>

datatype WindowMeasure = ROW_BASED | RANGE_BASED

datatype WindowType = TUMBLING | SLIDING | SESSION

definition measureFromString :: "string \<Rightarrow> WindowMeasure res" where
  "measureFromString s =
     (if s = ''row'' then Inr ROW_BASED
      else if s = ''range'' then Inr RANGE_BASED
      else Inl InvalidArgument)"

record WindowDefinition =
  wd_size :: int
  wd_slide :: int
  wd_paneSize :: int
  wd_gap :: int
  wd_measure :: WindowMeasure
  wd_type :: WindowType

text \<open>The recursive \<open>gcd\<close> of the class, with C's truncating remainder.\<close>

function gcd_long :: "int \<Rightarrow> int \<Rightarrow> int" where
  "gcd_long a b = (if b = 0 then a else gcd_long b (a smod b))"
  by pat_completeness auto
termination
proof (relation "measure (\<lambda>(a, b). nat \<bar>b\<bar>)")
  fix a b :: int
  assume "b \<noteq> 0"
  then have "\<bar>a smod b\<bar> < \<bar>b\<bar>"
    using smod_int_range [of b a] by auto
  then show "((b, a smod b), (a, b)) \<in> measure (\<lambda>(a, b). nat \<bar>b\<bar>)"
    by simp
qed simp

declare gcd_long.simps [simp del]

definition newWindowDefinition :: "WindowMeasure \<Rightarrow> int \<Rightarrow> int \<Rightarrow> WindowDefinition res" where
  "newWindowDefinition wm sz slide =
     (let w = \<lparr>wd_size = sz, wd_slide = slide, wd_paneSize = gcd_long sz slide,
               wd_gap = 0, wd_measure = wm, wd_type = SLIDING\<rparr>
      in if slide < sz then Inr w
         else if slide = sz then Inr (w\<lparr>wd_type := TUMBLING\<rparr>)
         else Inl RuntimeError)"

definition newSessionWindow :: "WindowMeasure \<Rightarrow> int \<Rightarrow> WindowDefinition" where
  "newSessionWindow wm gap =
     \<lparr>wd_size = 0, wd_slide = 0, wd_paneSize = 0, wd_gap = gap,
      wd_measure = wm, wd_type = SESSION\<rparr>"

definition numberOfPanes :: "WindowDefinition \<Rightarrow> int res" where
  "numberOfPanes w =
     (if wd_paneSize w = 0 then Inl Undefined else Inr (wd_size w sdiv wd_paneSize w))"

definition panesPerSlide :: "WindowDefinition \<Rightarrow> int res" where
  "panesPerSlide w =
     (if wd_paneSize w = 0 then Inl Undefined else Inr (wd_slide w sdiv wd_paneSize w))"

definition isRowBased :: "WindowDefinition \<Rightarrow> bool" where
  "isRowBased w \<longleftrightarrow> wd_measure w = ROW_BASED"

definition isRangeBased :: "WindowDefinition \<Rightarrow> bool" where
  "isRangeBased w \<longleftrightarrow> wd_measure w = RANGE_BASED"

definition isTumbling :: "WindowDefinition \<Rightarrow> bool" where
  "isTumbling w \<longleftrightarrow> wd_size w = wd_slide w"

section \<open>The class's gcd is the greatest common divisor\<close>

lemma gcd_long_eq: "0 \<le> a \<Longrightarrow> 0 \<le> b \<Longrightarrow> gcd_long a b = gcd a b"
proof (induction a b rule: gcd_long.induct)
  case (1 a b)
  show ?case
  proof (cases "b = 0")
    case True
    with "1.prems" show ?thesis by (subst gcd_long.simps) simp
  next
    case False
    with "1.prems" have b: "0 < b" by simp
    with "1.prems" have m: "a smod b = a mod b" "0 \<le> a mod b"
      by (simp_all add: smod_mod_positive)
    have "gcd_long a b = gcd_long b (a mod b)"
      using False by (subst gcd_long.simps) (simp add: m)
    also have "\<dots> = gcd b (a mod b)"
      using "1.IH" [OF False] m b by simp
    also have "\<dots> = gcd a b"
      by (metis gcd.commute gcd_red_int)
    finally show ?thesis .
  qed
qed

text \<open>What a batch slicer relies on: a well-formed window has a positive pane size.\<close>

definition wd_wf :: "WindowDefinition \<Rightarrow> bool" where
  "wd_wf w \<longleftrightarrow> 0 < wd_slide w \<and> wd_slide w \<le> wd_size w
     \<and> wd_paneSize w = gcd (wd_size w) (wd_slide w)"

lemma wd_wf_paneSize_pos: "wd_wf w \<Longrightarrow> 0 < wd_paneSize w"
  by (auto simp: wd_wf_def gcd_pos_int)

lemma newWindowDefinition_wf:
  "newWindowDefinition m sz slide = Inr w \<Longrightarrow> 0 < slide \<Longrightarrow> wd_wf w"
  by (auto simp: newWindowDefinition_def wd_wf_def Let_def gcd_long_eq split: if_splits)

lemma wd_wf_panes:
  assumes "wd_wf w"
  obtains n p where "numberOfPanes w = Inr n" and "panesPerSlide w = Inr p"
    and "wd_size w = n * wd_paneSize w" and "wd_slide w = p * wd_paneSize w"
    and "0 < p" and "p \<le> n" and "coprime n p"
proof -
  let ?g = "wd_paneSize w"
  have g: "0 < ?g" using assms by (rule wd_wf_paneSize_pos)
  have d: "?g dvd wd_size w" "?g dvd wd_slide w"
    using assms by (auto simp: wd_wf_def)
  have s: "0 < wd_slide w" "wd_slide w \<le> wd_size w"
    using assms by (auto simp: wd_wf_def)
  let ?n = "wd_size w div ?g" and ?p = "wd_slide w div ?g"
  have "numberOfPanes w = Inr ?n" "panesPerSlide w = Inr ?p"
    using g s by (simp_all add: numberOfPanes_def panesPerSlide_def sdiv_nonneg)
  moreover have "wd_size w = ?n * ?g" "wd_slide w = ?p * ?g"
    using d by simp_all
  moreover have "0 < ?p"
    using d(2) s(1) g by (simp add: pos_imp_zdiv_pos_iff zdvd_imp_le)
  moreover have "?p \<le> ?n"
    using s(2) g by (simp add: zdiv_mono1)
  moreover have "coprime ?n ?p"
  proof -
    have "gcd (wd_size w) (wd_slide w) = ?g" using assms by (simp add: wd_wf_def)
    moreover have "wd_size w \<noteq> 0 \<or> wd_slide w \<noteq> 0" using s by simp
    ultimately show ?thesis by (metis div_gcd_coprime)
  qed
  ultimately show ?thesis using that by blast
qed

text \<open>
  A window definition with a positive slide that the constructor accepts is cut into panes
  of the largest common size: panes tile both the window and the slide, the two pane counts
  are positive and coprime, and neither count divides by zero.
\<close>

theorem pane_decomposition:
  assumes "newWindowDefinition wm sz slide = Inr w" and "0 < slide"
  shows "\<exists>n p. numberOfPanes w = Inr n \<and> panesPerSlide w = Inr p
    \<and> sz = n * wd_paneSize w \<and> slide = p * wd_paneSize w
    \<and> 0 < wd_paneSize w \<and> 0 < p \<and> p \<le> n \<and> coprime n p
    \<and> (wd_type w = TUMBLING \<longleftrightarrow> n = p) \<and> wd_type w \<noteq> SESSION"
proof -
  have wf: "wd_wf w" using assms by (rule newWindowDefinition_wf)
  have w: "wd_size w = sz" "wd_slide w = slide" "wd_type w = (if slide = sz then TUMBLING else SLIDING)"
    using assms(1) by (auto simp: newWindowDefinition_def Let_def split: if_splits)
  obtain n p where np: "numberOfPanes w = Inr n" "panesPerSlide w = Inr p"
    "wd_size w = n * wd_paneSize w" "wd_slide w = p * wd_paneSize w" "0 < p" "p \<le> n" "coprime n p"
    using wd_wf_panes [OF wf] by blast
  moreover have "0 < wd_paneSize w" by (rule wd_wf_paneSize_pos [OF wf])
  ultimately show ?thesis using w by (intro exI [of _ n] exI [of _ p]) auto
qed

theorem pane_decomposition_witness:
  "\<exists>w n p. newWindowDefinition RANGE_BASED 6 4 = Inr w \<and> numberOfPanes w = Inr n
    \<and> panesPerSlide w = Inr p \<and> 6 = n * wd_paneSize w \<and> 4 = p * wd_paneSize w \<and> coprime n p"
proof -
  let ?w = "\<lparr>wd_size = 6, wd_slide = 4, wd_paneSize = gcd_long 6 4,
               wd_gap = 0, wd_measure = RANGE_BASED, wd_type = SLIDING\<rparr>"
  have w: "newWindowDefinition RANGE_BASED 6 4 = Inr ?w" by (simp add: newWindowDefinition_def)
  from pane_decomposition [OF w] w show ?thesis by auto
qed

end
