(* ===== verification/PaneSlicing.thy ===== *)
theory PaneSlicing
  imports WindowDef
begin

text \<open>
  The slicing of a batch into window fragments (\<open>tasks/WindowBatch.cpp\<close>,
  \<open>initPartialRangeBasedWindowPointers\<close> and \<open>initPartialCountBasedWindowPointers\<close>). Both loops
  walk over the tuples of a batch, compute the pane of each tuple and, for every pane that is
  entered, close and open windows by storing the buffer position of the tuple in two arrays. They
  differ only in how the pane of a tuple is computed; the walk over the panes is modelled once.
\<close>

section \<open>The walk over the panes\<close>

text \<open>
  The variables of the loop: the two pointer arrays and the last used index (fields of the
  batch), the window id of array index 0, and the counters.
\<close>

record PaneState =
  ps_starts :: "int list"
  ps_ends :: "int list"
  ps_last :: int
  ps_pid :: int
  ps_offset :: int
  ps_opening :: int
  ps_closing :: int

text \<open>Moving the used part of an array up by \<open>delta\<close> and clearing the cells below.\<close>

definition shiftDown :: "int \<Rightarrow> int \<Rightarrow> int list \<Rightarrow> int list res" where
  "shiftDown delta last_index xs =
     rbind (rfold (\<lambda>i xs. rbind (vget xs i) (\<lambda>v. vset xs (i + delta) v)) (rev [0..last_index]) xs)
       (rfold (\<lambda>i xs. vset xs i (-1)) [0..delta - 1])"

text \<open>The correction of the offset at the first closing window.\<close>

definition adjustOffset :: "bool \<Rightarrow> int \<Rightarrow> PaneState \<Rightarrow> PaneState res" where
  "adjustOffset first wid s =
     (if ps_offset s < 0 then Inr (s\<lparr>ps_offset := wid\<rparr>)
      else if ps_closing s = 0 \<and> \<not> first then
        let delta = to_int32 (ps_offset s - wid) in
        rbind (shiftDown delta (ps_last s) (ps_starts s)) (\<lambda>starts.
        rbind (shiftDown delta (ps_last s) (ps_ends s)) (\<lambda>ends.
          Inr (s\<lparr>ps_starts := starts, ps_ends := ends, ps_last := ps_last s + delta,
                 ps_offset := wid\<rparr>)))
      else Inr s)"

text \<open>A window closes at pane \<open>nextPid\<close>: the offset is set or corrected and the end pointer stored.\<close>

definition closeWindow :: "bool \<Rightarrow> int \<Rightarrow> int \<Rightarrow> PaneState \<Rightarrow> PaneState res" where
  "closeWindow first wid bufferPtr s =
     rbind (adjustOffset first wid s) (\<lambda>s.
     let index = to_int32 (wid - ps_offset s) in
     if index < 0 then Inl Exit
     else
       rbind (vset (ps_ends s) index bufferPtr) (\<lambda>ends.
       rbind (vget (ps_starts s) index) (\<lambda>start.
       rbind (if start < 0 \<and> first then vset (ps_starts s) index 0 else Inr (ps_starts s)) (\<lambda>starts.
         Inr (s\<lparr>ps_ends := ends, ps_starts := starts, ps_closing := ps_closing s + 1,
                ps_last := (if ps_last s < index then index else ps_last s)\<rparr>)))))"

text \<open>A window opens at pane \<open>nextPid\<close>.\<close>

definition openWindow :: "int \<Rightarrow> int \<Rightarrow> PaneState \<Rightarrow> PaneState res" where
  "openWindow wid bufferPtr s =
     (let s = (if ps_offset s < 0 then s\<lparr>ps_offset := wid\<rparr> else s);
          index = to_int32 (wid - ps_offset s) in
      rbind (vset (ps_starts s) index bufferPtr) (\<lambda>starts.
        Inr (s\<lparr>ps_starts := starts, ps_opening := ps_opening s + 1,
               ps_last := (if ps_last s < index then index else ps_last s)\<rparr>)))"

definition paneStep :: "int \<Rightarrow> int \<Rightarrow> bool \<Rightarrow> int \<Rightarrow> int \<Rightarrow> PaneState \<Rightarrow> PaneState res" where
  "paneStep np pps first bufferPtr nextPid s =
     (if pps = 0 then Inl Undefined
      else let pane = nextPid - np in
        rbind (if pane \<ge> 0 \<and> pane smod pps = 0 \<and> pane sdiv pps \<ge> 0
               then closeWindow first (pane sdiv pps) bufferPtr s else Inr s) (\<lambda>s.
        rbind (if nextPid smod pps = 0 then openWindow (nextPid sdiv pps) bufferPtr s else Inr s) (\<lambda>s.
          Inr (s\<lparr>ps_pid := nextPid\<rparr>))))"

text \<open>One tuple, at \<open>bufferPtr\<close> and in pane \<open>pid\<close>: all panes entered since the last tuple.\<close>

definition tupleStep :: "int \<Rightarrow> int \<Rightarrow> bool \<Rightarrow> int \<times> int \<Rightarrow> PaneState \<Rightarrow> PaneState res" where
  "tupleStep np pps first tuple s =
     (case tuple of (bufferPtr, pid) \<Rightarrow>
        rfold (paneStep np pps first bufferPtr) [ps_pid s + 1..pid] s)"

text \<open>The end of the walk: windows that neither open nor close are pending in slot 0.\<close>

definition finishPanes :: "bool \<Rightarrow> PaneState \<Rightarrow> PaneState res" where
  "finishPanes first s =
     (if ps_opening s > 0 \<and> ps_closing s = 0 \<and> \<not> first then
        rbind (shiftDown 1 (ps_last s) (ps_starts s)) (\<lambda>starts.
        rbind (shiftDown 1 (ps_last s) (ps_ends s)) (\<lambda>ends.
          Inr (s\<lparr>ps_starts := starts, ps_ends := ends, ps_last := ps_last s + 1\<rparr>)))
      else if ps_opening s = 0 \<and> ps_closing s = 0 then Inr (s\<lparr>ps_last := 0\<rparr>)
      else Inr s)"

definition slicePanes ::
  "nat \<Rightarrow> int \<Rightarrow> int \<Rightarrow> bool \<Rightarrow> int \<Rightarrow> (int \<times> int) list \<Rightarrow> int \<Rightarrow> PaneState res" where
  "slicePanes n np pps first pid0 tuples last_index =
     rbind (rfold (tupleStep np pps first) tuples
              \<lparr>ps_starts = replicate n (-1), ps_ends = replicate n (-1), ps_last = last_index,
               ps_pid = pid0, ps_offset = (if first then 0 else -1), ps_opening = 0, ps_closing = 0\<rparr>)
       (finishPanes first)"

section \<open>Shifting an array\<close>

lemma move_up:
  assumes "0 \<le> d" and "int m + d < int (length xs)"
  shows "\<exists>ys. rfold (\<lambda>i xs. rbind (vget xs i) (\<lambda>v. vset xs (i + d) v)) (rev [0..int m]) xs = Inr ys
    \<and> length ys = length xs
    \<and> (\<forall>j < length xs. ys ! j = (if d \<le> int j \<and> int j \<le> int m + d then xs ! (j - nat d) else xs ! j))"
  using assms
proof (induction m arbitrary: xs)
  case 0
  then show ?case
    by (auto simp: vget_def vset_def nth_list_update split: if_splits
        intro!: exI [of _ "xs[nat d := xs ! 0]"])
next
  case (Suc m)
  have rev: "rev [0..int (Suc m)] = int (Suc m) # rev [0..int m]"
    by (subst upto_rec2) auto
  let ?xs = "xs[nat (int (Suc m) + d) := xs ! Suc m]"
  have len: "Suc m < length xs" "nat (int (Suc m) + d) < length xs" "Suc m \<le> nat (int (Suc m) + d)"
    using Suc.prems by auto
  obtain ys where ys: "rfold (\<lambda>i xs. rbind (vget xs i) (\<lambda>v. vset xs (i + d) v)) (rev [0..int m]) ?xs = Inr ys"
    "length ys = length xs"
    "\<forall>j < length xs. ys ! j = (if d \<le> int j \<and> int j \<le> int m + d then ?xs ! (j - nat d) else ?xs ! j)"
    using Suc.IH [of ?xs] Suc.prems by auto
  have "ys ! j = (if d \<le> int j \<and> int j \<le> int (Suc m) + d then xs ! (j - nat d) else xs ! j)"
    if j: "j < length xs" for j
  proof -
    consider "d \<le> int j" "int j \<le> int m + d" | "int j = int (Suc m) + d"
      | "\<not> (d \<le> int j \<and> int j \<le> int (Suc m) + d)" by linarith
    then show ?thesis
    proof cases
      case 1
      then have "j - nat d \<noteq> nat (int (Suc m) + d)" by linarith
      then show ?thesis using ys(3) j 1 by simp
    next
      case 2
      then have "j = nat (int (Suc m) + d)" "j - nat d = Suc m" using Suc.prems(1) by linarith+
      then show ?thesis using ys(3) j 2 len by auto
    next
      case 3
      then have "j \<noteq> nat (int (Suc m) + d)" using Suc.prems(1) by linarith
      then show ?thesis using ys(3) j 3 by auto
    qed
  qed
  moreover have "vget xs (int (Suc m)) = Inr (xs ! Suc m)"
    "vset xs (int (Suc m) + d) (xs ! Suc m) = Inr ?xs"
    using len Suc.prems by (auto simp: vget_def vset_def nat_add_distrib)
  ultimately show ?case using ys(1,2) unfolding rev by auto
qed

lemma clear_low:
  assumes "m \<le> length xs"
  shows "rfold (\<lambda>i xs. vset xs i (-1)) [0..int m - 1] xs = Inr (replicate m (-1) @ drop m xs)"
  using assms
proof (induction m)
  case (Suc m)
  have "[0..int (Suc m) - 1] = [0..int m - 1] @ [int m]" by (simp add: upto_rec2)
  moreover have "vset (replicate m (-1) @ drop m xs) (int m) (-1) = Inr (replicate (Suc m) (-1) @ drop (Suc m) xs)"
    using Suc.prems by (auto simp: vset_def list_update_append Cons_nth_drop_Suc [symmetric] replicate_append_same [symmetric])
  ultimately show ?case using Suc by (simp add: rfold_append)
qed simp

lemma shiftDown_nth:
  assumes "0 \<le> d" and "0 \<le> l" and "l + d < int (length xs)"
    and "\<forall>j < length xs. l < int j \<longrightarrow> xs ! j = -1"
  shows "\<exists>ys. shiftDown d l xs = Inr ys \<and> length ys = length xs
    \<and> (\<forall>j < length xs. ys ! j = (if int j < d then -1 else xs ! (j - nat d)))"
proof -
  obtain zs where zs: "rfold (\<lambda>i xs. rbind (vget xs i) (\<lambda>v. vset xs (i + d) v)) (rev [0..int (nat l)]) xs = Inr zs"
    "length zs = length xs"
    "\<forall>j < length xs. zs ! j = (if d \<le> int j \<and> int j \<le> int (nat l) + d then xs ! (j - nat d) else xs ! j)"
    using move_up [of d "nat l" xs] assms by auto
  let ?ys = "replicate (nat d) (-1) @ drop (nat d) zs"
  have d: "nat d \<le> length zs" using assms zs(2) by linarith
  have "rfold (\<lambda>i xs. vset xs i (-1)) [0..d - 1] zs = Inr ?ys"
    using clear_low [OF d] assms(1) by simp
  then have "shiftDown d l xs = Inr ?ys" using zs(1) assms(2) by (simp add: shiftDown_def)
  moreover have "length ?ys = length xs" using d zs(2) by simp
  moreover have "?ys ! j = (if int j < d then -1 else xs ! (j - nat d))" if "j < length xs" for j
  proof (cases "int j < d")
    case True
    then have "j < nat d" by simp
    then show ?thesis using True by (simp add: nth_append)
  next
    case False
    then have "\<not> j < nat d" "nat d + (j - nat d) = j" by auto
    then have "?ys ! j = zs ! j" using d by (simp add: nth_append)
    moreover have "zs ! j = xs ! (j - nat d)"
    proof (cases "int j \<le> l + d")
      case True
      then show ?thesis using zs(3) that False assms(2) by simp
    next
      case big: False
      then have "l < int (j - nat d)" "j - nat d < length xs" "l < int j"
        using assms(1) that by linarith+
      then show ?thesis using zs(3) that big assms(2,4) by simp
    qed
    ultimately show ?thesis using False by simp
  qed
  ultimately show ?thesis by blast
qed


section \<open>What the walk computes\<close>

text \<open>
  With \<open>p0\<close> the pane of the tuple before the batch: window \<open>w\<close> opens with pane \<open>w * pps\<close> and
  closes with pane \<open>w * pps + np\<close>. The first windows that open and close behind pane \<open>p0\<close>:
\<close>

definition firstOpen :: "int \<Rightarrow> int \<Rightarrow> int" where
  "firstOpen pps p0 = p0 div pps + 1"

definition firstClose :: "int \<Rightarrow> int \<Rightarrow> int \<Rightarrow> int" where
  "firstClose np pps p0 = (if p0 < np then 0 else (p0 - np) div pps + 1)"

text \<open>
  \<open>pos p\<close> is the buffer position of the first tuple in or behind pane \<open>p\<close>. The pointers of a
  window when all panes up to \<open>p\<close> were entered:
\<close>

definition startVal :: "int \<Rightarrow> int \<Rightarrow> (int \<Rightarrow> int) \<Rightarrow> int \<Rightarrow> int \<Rightarrow> int" where
  "startVal pps p0 pos p w = (if firstOpen pps p0 \<le> w \<and> w * pps \<le> p then pos (w * pps) else -1)"

definition endVal :: "int \<Rightarrow> int \<Rightarrow> int \<Rightarrow> (int \<Rightarrow> int) \<Rightarrow> int \<Rightarrow> int \<Rightarrow> int" where
  "endVal np pps p0 pos p w =
     (if firstClose np pps p0 \<le> w \<and> w * pps + np \<le> p then pos (w * pps + np) else -1)"

definition opens :: "int \<Rightarrow> int \<Rightarrow> int \<Rightarrow> bool" where
  "opens pps p0 p \<longleftrightarrow> firstOpen pps p0 * pps \<le> p"

definition closes :: "int \<Rightarrow> int \<Rightarrow> int \<Rightarrow> int \<Rightarrow> bool" where
  "closes np pps p0 p \<longleftrightarrow> firstClose np pps p0 * pps + np \<le> p"

lemma firstOpen_le: "0 < pps \<Longrightarrow> firstOpen pps p0 \<le> w \<longleftrightarrow> p0 < w * pps"
  unfolding firstOpen_def using zdiv_less_iff [of pps p0 w] by linarith

lemma firstClose_le:
  assumes "0 < pps" and "0 \<le> w"
  shows "firstClose np pps p0 \<le> w \<longleftrightarrow> p0 < w * pps + np"
proof -
  have "0 \<le> w * pps" using assms by simp
  moreover have "(p0 - np) div pps < w \<longleftrightarrow> p0 - np < w * pps" by (rule zdiv_less_iff [OF assms(1)])
  ultimately show ?thesis
    unfolding firstClose_def using assms(2) by (cases "p0 < np") auto
qed

lemma firstClose_nonneg: "0 < pps \<Longrightarrow> 0 \<le> firstClose np pps p0"
  by (auto simp: firstClose_def pos_imp_zdiv_nonneg_iff intro: add_nonneg_nonneg)

lemma firstClose_firstOpen:
  assumes "0 < pps" "0 < np" "-1 \<le> p0"
  shows "firstClose np pps p0 \<le> firstOpen pps p0" and "0 \<le> firstOpen pps p0"
proof -
  have "0 \<le> p0 div pps + 1"
    using zdiv_ge_iff [of pps "-1" p0] assms by simp
  then show o: "0 \<le> firstOpen pps p0" by (simp add: firstOpen_def)
  have "p0 < firstOpen pps p0 * pps" using firstOpen_le [of pps p0] assms(1) by blast
  then show "firstClose np pps p0 \<le> firstOpen pps p0"
    using firstClose_le [OF assms(1) o, of np p0] assms(2) by simp
qed

lemma firstOpen_start: "0 < pps \<Longrightarrow> firstOpen pps (-1) = 0"
  using firstOpen_le [of pps "-1" 0] firstClose_firstOpen(2) [of pps 1 "-1"] by simp

text \<open>The state when the openings up to pane \<open>pS\<close> and the closings up to pane \<open>pE\<close> are done.\<close>

definition walked ::
  "nat \<Rightarrow> int \<Rightarrow> int \<Rightarrow> bool \<Rightarrow> int \<Rightarrow> (int \<Rightarrow> int) \<Rightarrow> int \<Rightarrow> int \<Rightarrow> PaneState \<Rightarrow> bool" where
  "walked n np pps first p0 pos pE pS s \<longleftrightarrow>
     length (ps_starts s) = n \<and> length (ps_ends s) = n
     \<and> 0 \<le> ps_opening s \<and> (0 < ps_opening s \<longleftrightarrow> opens pps p0 pS)
     \<and> 0 \<le> ps_closing s \<and> (0 < ps_closing s \<longleftrightarrow> closes np pps p0 pE)
     \<and> ps_offset s = (if closes np pps p0 pE then firstClose np pps p0
                      else if opens pps p0 pS then firstOpen pps p0
                      else if first then 0 else -1)
     \<and> (\<forall>j < n. ps_starts s ! j = startVal pps p0 pos pS (ps_offset s + int j))
     \<and> (\<forall>j < n. ps_ends s ! j = endVal np pps p0 pos pE (ps_offset s + int j))
     \<and> ps_last s = (if opens pps p0 pS then pS div pps - ps_offset s
                    else if closes np pps p0 pE then (pE - np) div pps - ps_offset s else 0)"

lemma startVal_stable:
  assumes "0 < pps" and "q mod pps \<noteq> 0"
  shows "startVal pps p0 pos q w = startVal pps p0 pos (q - 1) w"
proof -
  have "w * pps \<noteq> q" using assms by auto
  then show ?thesis by (auto simp: startVal_def)
qed

lemma endVal_stable:
  assumes "w * pps + np \<noteq> q"
  shows "endVal np pps p0 pos q w = endVal np pps p0 pos (q - 1) w"
  using assms by (auto simp: endVal_def)


lemma startVal_none: "0 < pps \<Longrightarrow> \<not> opens pps p0 p \<Longrightarrow> startVal pps p0 pos p w = -1"
  unfolding startVal_def opens_def
  by (metis (no_types, lifting) dual_order.trans mult_right_mono less_imp_le)

lemma endVal_none: "0 < pps \<Longrightarrow> \<not> closes np pps p0 p \<Longrightarrow> endVal np pps p0 pos p w = -1"
  unfolding endVal_def closes_def
  by (metis (no_types, lifting) add_le_cancel_right dual_order.trans mult_right_mono less_imp_le)

lemma opens_step:
  assumes "0 < pps" and "-1 \<le> p0" and "p0 < q"
  shows "q mod pps = 0 \<Longrightarrow> opens pps p0 q \<and> (\<not> opens pps p0 (q - 1) \<longrightarrow> q div pps = firstOpen pps p0)"
    and "q mod pps \<noteq> 0 \<Longrightarrow> opens pps p0 q = opens pps p0 (q - 1)"
proof -
  show "opens pps p0 q \<and> (\<not> opens pps p0 (q - 1) \<longrightarrow> q div pps = firstOpen pps p0)" if m: "q mod pps = 0"
  proof -
    have q: "q div pps * pps = q" using m by auto
    then have le: "firstOpen pps p0 \<le> q div pps" using firstOpen_le [OF assms(1)] assms(3) by metis
    then have "firstOpen pps p0 * pps \<le> q" using zdiv_ge_iff [OF assms(1)] by blast
    moreover have "q div pps = firstOpen pps p0" if "\<not> firstOpen pps p0 * pps \<le> q - 1"
    proof -
      have "firstOpen pps p0 * pps = q" using that calculation by linarith
      then show ?thesis using assms(1) by (metis nonzero_mult_div_cancel_right less_irrefl)
    qed
    ultimately show ?thesis by (auto simp: opens_def)
  qed
  show "opens pps p0 q = opens pps p0 (q - 1)" if "q mod pps \<noteq> 0"
  proof -
    have "firstOpen pps p0 * pps \<noteq> q" using that by auto
    then show ?thesis by (auto simp: opens_def)
  qed
qed

lemma closes_step:
  assumes "0 < pps" and "p0 < q"
  shows "0 \<le> q - np \<Longrightarrow> (q - np) mod pps = 0 \<Longrightarrow>
      closes np pps p0 q \<and> firstClose np pps p0 \<le> (q - np) div pps
      \<and> (\<not> closes np pps p0 (q - 1) \<longrightarrow> (q - np) div pps = firstClose np pps p0)"
    and "\<not> (0 \<le> q - np \<and> (q - np) mod pps = 0) \<Longrightarrow> closes np pps p0 q = closes np pps p0 (q - 1)"
proof -
  let ?c = "firstClose np pps p0"
  show "closes np pps p0 q \<and> ?c \<le> (q - np) div pps \<and> (\<not> closes np pps p0 (q - 1) \<longrightarrow> (q - np) div pps = ?c)"
    if n: "0 \<le> q - np" and m: "(q - np) mod pps = 0"
  proof -
    have w: "(q - np) div pps * pps = q - np" "0 \<le> (q - np) div pps"
      using m n assms(1) by (auto simp: pos_imp_zdiv_nonneg_iff)
    then have le: "?c \<le> (q - np) div pps" using firstClose_le [OF assms(1) w(2)] assms(2) by simp
    then have "?c * pps \<le> q - np" using zdiv_ge_iff [OF assms(1)] by blast
    moreover have "(q - np) div pps = ?c" if "\<not> ?c * pps + np \<le> q - 1"
    proof -
      have "?c * pps = q - np" using that calculation by linarith
      then show ?thesis using assms(1) by (metis nonzero_mult_div_cancel_right less_irrefl)
    qed
    ultimately show ?thesis using le by (auto simp: closes_def)
  qed
  show "closes np pps p0 q = closes np pps p0 (q - 1)" if "\<not> (0 \<le> q - np \<and> (q - np) mod pps = 0)"
  proof -
    have "?c * pps + np \<noteq> q"
    proof
      assume "?c * pps + np = q"
      then have "q - np = ?c * pps" by simp
      then have "(q - np) mod pps = 0" "0 \<le> q - np" using firstClose_nonneg [OF assms(1)] assms(1) by auto
      with that show False by simp
    qed
    then show ?thesis by (auto simp: closes_def)
  qed
qed

text \<open>The array indices that are used stay inside the arrays.\<close>

definition roomy :: "nat \<Rightarrow> int \<Rightarrow> int \<Rightarrow> int \<Rightarrow> int \<Rightarrow> bool" where
  "roomy n np pps p0 p \<longleftrightarrow> int n \<le> 2 ^ 31 \<and> p div pps + 1 - firstClose np pps p0 < int n"

lemma to_int32_index: "0 \<le> i \<Longrightarrow> i < int n \<Longrightarrow> int n \<le> 2 ^ 31 \<Longrightarrow> to_int32 i = i"
  by (rule to_int32_id) (auto simp: INT_MAX_def INT_MIN_def)

lemma openWindow_walked:
  assumes ctx: "0 < pps" "0 < np" "-1 \<le> p0" "p0 < q" and room: "roomy n np pps p0 q"
    and inv: "walked n np pps first p0 pos q (q - 1) s" and m: "q mod pps = 0"
    and fst0: "first \<longrightarrow> p0 = -1"
  shows "\<exists>s'. openWindow (q div pps) (pos q) s = Inr s' \<and> walked n np pps first p0 pos q q s'"
proof -
  let ?w = "q div pps"
  have w: "?w * pps = q" using m by auto
  have op: "opens pps p0 q" "\<not> opens pps p0 (q - 1) \<longrightarrow> ?w = firstOpen pps p0"
    using opens_step(1) [OF ctx(1,3,4) m] by auto
  have ow: "firstOpen pps p0 \<le> ?w" using firstOpen_le [OF ctx(1)] w ctx(4) by metis
  note co = firstClose_firstOpen [OF ctx(1-3)]
  define off where "off = (if ps_offset s < 0 then ?w else ps_offset s)"
  have off: "off = (if closes np pps p0 q then firstClose np pps p0 else firstOpen pps p0)"
    using inv op co fst0 firstClose_nonneg [OF ctx(1), of np p0] firstOpen_start [OF ctx(1)]
    by (auto simp: off_def walked_def)
  have idx: "0 \<le> ?w - off" "?w - off < int n"
    using off ow co room by (auto simp: roomy_def split: if_splits)
  have i32: "to_int32 (?w - off) = ?w - off"
    using to_int32_index [OF idx] room by (simp add: roomy_def)
  have starts: "(ps_starts s)[nat (?w - off) := pos q] ! j = startVal pps p0 pos q (off + int j)" if j: "j < n" for j
  proof (cases "int j = ?w - off")
    case True
    then have "nat (?w - off) = j" "off + int j = ?w" "j < length (ps_starts s)"
      using j inv by (auto simp: walked_def)
    then show ?thesis using ow w by (simp add: startVal_def)
  next
    case False
    then have ne: "(off + int j) * pps \<noteq> q" using w ctx(1) by auto
    have "ps_starts s ! j = startVal pps p0 pos (q - 1) (off + int j)"
    proof (cases "ps_offset s < 0")
      case True
      then have "\<not> opens pps p0 (q - 1)" using inv co firstClose_nonneg [OF ctx(1), of np p0]
        by (auto simp: walked_def split: if_splits)
      then show ?thesis using inv j startVal_none [OF ctx(1)] by (simp add: walked_def)
    next
      case False
      then show ?thesis using inv j by (simp add: walked_def off_def)
    qed
    also have "\<dots> = startVal pps p0 pos q (off + int j)" using ne by (auto simp: startVal_def)
    finally show ?thesis using False idx(1) by (simp add: nth_list_update_neq)
  qed
  have ends: "ps_ends s ! j = endVal np pps p0 pos q (off + int j)" if j: "j < n" for j
  proof (cases "ps_offset s < 0")
    case True
    then have "\<not> closes np pps p0 q" using inv firstClose_nonneg [OF ctx(1), of np p0]
      by (auto simp: walked_def split: if_splits)
    then show ?thesis using inv j endVal_none [OF ctx(1)] by (simp add: walked_def)
  next
    case False
    then show ?thesis using inv j by (simp add: walked_def off_def)
  qed
  have lst: "ps_last s \<le> ?w - off"
  proof -
    have "(q - 1) div pps \<le> ?w" "(q - np) div pps \<le> ?w" using ctx(1,2) by (auto intro: zdiv_mono1)
    then show ?thesis using inv off idx(1) op co by (auto simp: walked_def split: if_splits)
  qed
  let ?s = "s\<lparr>ps_offset := off, ps_starts := (ps_starts s)[nat (?w - off) := pos q],
      ps_opening := ps_opening s + 1, ps_last := ?w - off\<rparr>"
  have "openWindow ?w (pos q) s = Inr ?s"
    using i32 idx inv lst unfolding openWindow_def Let_def off_def
    by (auto simp: vset_def walked_def)
  moreover have "walked n np pps first p0 pos q q ?s"
    using inv op(1) off starts ends by (simp add: walked_def)
  ultimately show ?thesis by blast
qed


definition adjusted :: "nat \<Rightarrow> int \<Rightarrow> int \<Rightarrow> int \<Rightarrow> (int \<Rightarrow> int) \<Rightarrow> int \<Rightarrow> PaneState \<Rightarrow> PaneState \<Rightarrow> bool" where
  "adjusted n np pps p0 pos p s s' \<longleftrightarrow> ps_offset s' = firstClose np pps p0
     \<and> length (ps_starts s') = n \<and> length (ps_ends s') = n
     \<and> (\<forall>j < n. ps_starts s' ! j = startVal pps p0 pos p (firstClose np pps p0 + int j))
     \<and> (\<forall>j < n. ps_ends s' ! j = endVal np pps p0 pos p (firstClose np pps p0 + int j))
     \<and> ps_last s' = (if opens pps p0 p then p div pps - firstClose np pps p0
                    else if closes np pps p0 p then (p - np) div pps - firstClose np pps p0 else 0)
     \<and> ps_opening s' = ps_opening s \<and> ps_closing s' = ps_closing s"

lemma shift_walked:
  assumes ctx: "0 < pps" "0 < np" "-1 \<le> p0" and inv: "walked n np pps False p0 pos p p s"
    and room: "roomy n np pps p0 p" and op: "opens pps p0 p" "\<not> closes np pps p0 p"
  shows "\<exists>s'. adjustOffset False (firstClose np pps p0) s = Inr s' \<and> adjusted n np pps p0 pos p s s'"
proof -
  let ?c = "firstClose np pps p0" and ?o = "firstOpen pps p0"
  note co = firstClose_firstOpen [OF ctx]
  have off: "ps_offset s = ?o" and last: "ps_last s = p div pps - ?o"
    and len: "length (ps_starts s) = n" "length (ps_ends s) = n"
    and st: "\<And>j. j < n \<Longrightarrow> ps_starts s ! j = startVal pps p0 pos p (?o + int j)"
    and en: "\<And>j. j < n \<Longrightarrow> ps_ends s ! j = -1"
    using inv op endVal_none [OF ctx(1) op(2)] by (auto simp: walked_def)
  have od: "?o \<le> p div pps" using op(1) zdiv_ge_iff [OF ctx(1)] by (simp add: opens_def)
  have d: "0 \<le> ?o - ?c" "0 \<le> ps_last s" "ps_last s + (?o - ?c) < int n"
    using co od last room by (auto simp: roomy_def)
  have i32: "to_int32 (?o - ?c) = ?o - ?c"
    using d room by (intro to_int32_index [of _ n]) (auto simp: roomy_def)
  have hi: "\<forall>j < length (ps_starts s). ps_last s < int j \<longrightarrow> ps_starts s ! j = -1"
  proof (intro allI impI)
    fix j assume j: "j < length (ps_starts s)" "ps_last s < int j"
    then have "p div pps < ?o + int j" using last by simp
    then have "\<not> (?o + int j) * pps \<le> p" using zdiv_less_iff [OF ctx(1)] by (simp add: not_le)
    then show "ps_starts s ! j = -1" using st j len by (simp add: startVal_def)
  qed
  obtain ys where ys: "shiftDown (?o - ?c) (ps_last s) (ps_starts s) = Inr ys" "length ys = n"
    "\<And>j. j < n \<Longrightarrow> ys ! j = (if int j < ?o - ?c then -1 else ps_starts s ! (j - nat (?o - ?c)))"
    using shiftDown_nth [OF d(1,2) _ hi] d(3) len by auto
  obtain zs where zs: "shiftDown (?o - ?c) (ps_last s) (ps_ends s) = Inr zs" "length zs = n"
    "\<And>j. j < n \<Longrightarrow> zs ! j = (if int j < ?o - ?c then -1 else ps_ends s ! (j - nat (?o - ?c)))"
    using shiftDown_nth [OF d(1,2), of "ps_ends s"] d(3) len en by auto
  have "ys ! j = startVal pps p0 pos p (?c + int j)" if j: "j < n" for j
  proof (cases "int j < ?o - ?c")
    case True
    then show ?thesis using ys(3) [OF j] by (simp add: startVal_def)
  next
    case False
    then have e: "?o + int (j - nat (?o - ?c)) = ?c + int j" and l: "j - nat (?o - ?c) < n"
      using d(1) j by linarith+
    have "ys ! j = ps_starts s ! (j - nat (?o - ?c))" using ys(3) [OF j] False by (simp only: if_False)
    then show ?thesis using st [OF l] unfolding e by simp
  qed
  moreover have "zs ! j = endVal np pps p0 pos p (?c + int j)" if j: "j < n" for j
    using zs(3) [OF j] en [of "j - nat (?o - ?c)"] endVal_none [OF ctx(1) op(2)] j by auto
  moreover have "\<not> ps_offset s < 0" "ps_closing s = 0"
    using off co inv op(2) by (auto simp: walked_def)
  ultimately show ?thesis
    using ys(1,2) zs(1,2) i32 off last op inv
    by (auto simp: adjustOffset_def adjusted_def Let_def)
qed

lemma adjustOffset_adjusted:
  assumes ctx: "0 < pps" "0 < np" "-1 \<le> p0" "p0 < q"
    and inv: "walked n np pps first p0 pos (q - 1) (q - 1) s"
    and room: "roomy n np pps p0 (q - 1)" and fst0: "first \<longrightarrow> p0 = -1"
    and w: "firstClose np pps p0 \<le> wid" "\<not> closes np pps p0 (q - 1) \<longrightarrow> wid = firstClose np pps p0"
  shows "\<exists>s'. adjustOffset first wid s = Inr s' \<and> adjusted n np pps p0 pos (q - 1) s s'"
proof -
  note co = firstClose_firstOpen [OF ctx(1-3)] firstClose_nonneg [OF ctx(1), of np p0]
  consider (none) "ps_offset s < 0" | (shift) "0 \<le> ps_offset s" "ps_closing s = 0" "\<not> first"
    | (set) "0 \<le> ps_offset s" "ps_closing s \<noteq> 0 \<or> first" by linarith
  then show ?thesis
  proof cases
    case none
    then have n: "\<not> closes np pps p0 (q - 1)" "\<not> opens pps p0 (q - 1)"
      using inv co by (auto simp: walked_def split: if_splits)
    then have "adjusted n np pps p0 pos (q - 1) s (s\<lparr>ps_offset := wid\<rparr>)"
      using inv w startVal_none [OF ctx(1) n(2)] endVal_none [OF ctx(1) n(1)]
      by (auto simp: walked_def adjusted_def)
    then show ?thesis using none by (auto simp: adjustOffset_def)
  next
    case shift
    then have n: "\<not> closes np pps p0 (q - 1)" "opens pps p0 (q - 1)"
      using inv by (auto simp: walked_def split: if_splits)
    then show ?thesis using shift_walked [OF ctx(1-3) _ room n(2,1)] inv w shift by simp
  next
    case set
    have "first \<Longrightarrow> firstClose np pps p0 = 0 \<and> firstOpen pps p0 = 0"
      using fst0 ctx(2) firstOpen_start [OF ctx(1)] by (simp add: firstClose_def)
    then have off: "ps_offset s = firstClose np pps p0"
      using set inv by (auto simp: walked_def split: if_splits)
    then have "adjusted n np pps p0 pos (q - 1) s s" using inv by (auto simp: walked_def adjusted_def)
    moreover have "adjustOffset first wid s = Inr s" using set by (auto simp: adjustOffset_def)
    ultimately show ?thesis by blast
  qed
qed


lemma closeWindow_walked:
  assumes ctx: "0 < pps" "0 < np" "-1 \<le> p0" "p0 < q" and room: "roomy n np pps p0 q"
    and inv: "walked n np pps first p0 pos (q - 1) (q - 1) s"
    and m: "0 \<le> q - np" "(q - np) mod pps = 0"
    and fst0: "first \<longrightarrow> p0 = -1" and pos: "\<And>p. 0 \<le> pos p"
  shows "\<exists>s'. closeWindow first ((q - np) div pps) (pos q) s = Inr s'
    \<and> walked n np pps first p0 pos q (q - 1) s'"
proof -
  let ?w = "(q - np) div pps" and ?c = "firstClose np pps p0"
  have w: "?w * pps + np = q" using m(2) by auto
  have cl: "closes np pps p0 q" "?c \<le> ?w" "\<not> closes np pps p0 (q - 1) \<longrightarrow> ?w = ?c"
    using closes_step(1) [OF ctx(1,4) m] by auto
  have wq: "?w \<le> (q - 1) div pps" using ctx(1,2) by (intro zdiv_mono1) auto
  have "(q - 1) div pps \<le> q div pps" using ctx(1) by (intro zdiv_mono1) auto
  then have room': "roomy n np pps p0 (q - 1)" using room by (simp add: roomy_def)
  obtain s1 where s1: "adjustOffset first ?w s = Inr s1" "adjusted n np pps p0 pos (q - 1) s s1"
    using adjustOffset_adjusted [OF ctx inv room' fst0 cl(2,3)] by blast
  have idx: "0 \<le> ?w - ?c" "?w - ?c < int n" using cl(2) wq room' by (auto simp: roomy_def)
  have i32: "to_int32 (?w - ?c) = ?w - ?c" using to_int32_index [OF idx] room by (simp add: roomy_def)
  define k where "k = nat (?w - ?c)"
  have k: "int k = ?w - ?c" "k < n" using idx by (auto simp: k_def)
  have len: "length (ps_starts s1) = n" "length (ps_ends s1) = n" "ps_offset s1 = ?c"
    using s1(2) by (auto simp: adjusted_def)
  have keep: "(ps_starts s1 ! k < 0 \<and> first) = False"
  proof (rule iffI)
    assume neg: "ps_starts s1 ! k < 0 \<and> first"
    have "ps_starts s1 ! k = startVal pps p0 pos (q - 1) ?w" using s1(2) k by (simp add: adjusted_def)
    moreover have "firstOpen pps p0 \<le> ?w"
      using fst0 neg firstOpen_start [OF ctx(1)] m(1) ctx(1) by (simp add: pos_imp_zdiv_nonneg_iff)
    moreover have "?w * pps \<le> q - 1" using w ctx(2) by linarith
    ultimately show False using neg pos [of "?w * pps"] by (simp add: startVal_def)
  qed simp
  let ?s = "s1\<lparr>ps_ends := (ps_ends s1)[k := pos q], ps_closing := ps_closing s1 + 1,
      ps_last := (if ps_last s1 < int k then int k else ps_last s1)\<rparr>"
  have "to_int32 (?w - ps_offset s1) = int k" using i32 len(3) k(1) by simp
  then have "closeWindow first ?w (pos q) s = Inr ?s"
    using len(1,2) k(2) by (simp add: closeWindow_def s1(1) Let_def vset_def vget_def keep)
  moreover have "walked n np pps first p0 pos q (q - 1) ?s"
  proof -
    have e: "(ps_ends s1)[k := pos q] ! j = endVal np pps p0 pos q (?c + int j)" if j: "j < n" for j
    proof (cases "j = k")
      case True
      then show ?thesis using k len cl(2) w by (simp add: endVal_def)
    next
      case False
      then have "(?c + int j) * pps + np \<noteq> q" using w k ctx(1) by auto
      then show ?thesis
        using False s1(2) j endVal_stable [of "?c + int j" pps np q] by (simp add: adjusted_def)
    qed
    have "(q - 1 - np) div pps \<le> ?w" using ctx(1) by (intro zdiv_mono1) auto
    then have "(if ps_last s1 < int k then int k else ps_last s1)
        = (if opens pps p0 (q - 1) then (q - 1) div pps - ?c else ?w - ?c)"
      using s1(2) wq idx(1) k(1) by (auto simp: adjusted_def)
    then show ?thesis using s1(2) inv cl(1) e len by (auto simp: walked_def adjusted_def)
  qed
  ultimately show ?thesis by blast
qed

lemma walked_skip_close:
  assumes "0 < pps" "p0 < q" and inv: "walked n np pps first p0 pos (q - 1) (q - 1) s"
    and no: "\<not> (0 \<le> q - np \<and> (q - np) mod pps = 0)"
  shows "walked n np pps first p0 pos q (q - 1) s"
proof -
  have c: "closes np pps p0 q = closes np pps p0 (q - 1)" by (rule closes_step(2) [OF assms(1,2) no])
  have "endVal np pps p0 pos q w = endVal np pps p0 pos (q - 1) w" for w
  proof (cases "firstClose np pps p0 \<le> w")
    case True
    have "w * pps + np \<noteq> q"
    proof
      assume "w * pps + np = q"
      then have "q - np = w * pps" by simp
      moreover have "0 \<le> w" using True firstClose_nonneg [OF assms(1), of np p0] by linarith
      ultimately show False using no assms(1) by simp
    qed
    then show ?thesis by (rule endVal_stable)
  qed (simp add: endVal_def)
  moreover have "(q - np) div pps = (q - 1 - np) div pps" if "closes np pps p0 (q - 1)"
  proof -
    have "firstClose np pps p0 * pps + np \<le> q - 1" using that by (simp add: closes_def)
    then have "0 \<le> q - np" using firstClose_nonneg [OF assms(1), of np p0] assms(1)
      by (metis add_le_cancel_right diff_ge_0_iff_ge dual_order.trans le_add_same_cancel2 less_imp_le mult_nonneg_nonneg diff_add_cancel zle_diff1_eq less_le)
    then have m: "(q - np) mod pps \<noteq> 0" using no by simp
    then show ?thesis using pred_div [OF assms(1) m] by (simp add: algebra_simps)
  qed
  ultimately show ?thesis using inv c by (auto simp: walked_def)
qed

lemma walked_skip_open:
  assumes "0 < pps" "-1 \<le> p0" "p0 < q" and inv: "walked n np pps first p0 pos q (q - 1) s"
    and m: "q mod pps \<noteq> 0"
  shows "walked n np pps first p0 pos q q s"
proof -
  have "(q - 1) div pps = q div pps" by (rule pred_div [OF assms(1) m])
  then show ?thesis
    using inv opens_step(2) [OF assms(1-3) m] startVal_stable [OF assms(1) m] by (simp add: walked_def)
qed


lemma smod_nonneg: "0 \<le> a \<Longrightarrow> 0 < b \<Longrightarrow> (a :: int) smod b = a mod b"
  by (simp add: smod_mod_positive)

lemma paneStep_walked:
  assumes ctx: "0 < pps" "0 < np" "-1 \<le> p0" "p0 < q" and room: "roomy n np pps p0 q"
    and inv: "walked n np pps first p0 pos (q - 1) (q - 1) s"
    and fst0: "first \<longrightarrow> p0 = -1" and pos: "\<And>p. 0 \<le> pos p"
  shows "\<exists>s'. paneStep np pps first (pos q) q s = Inr s' \<and> walked n np pps first p0 pos q q s' \<and> ps_pid s' = q"
proof -
  have q: "0 \<le> q" using ctx by simp
  have guard: "(q - np \<ge> 0 \<and> (q - np) smod pps = 0 \<and> (q - np) sdiv pps \<ge> 0)
      \<longleftrightarrow> 0 \<le> q - np \<and> (q - np) mod pps = 0"
    using ctx(1) by (auto simp: smod_nonneg sdiv_nonneg pos_imp_zdiv_nonneg_iff)
  have "\<exists>s1. (if 0 \<le> q - np \<and> (q - np) mod pps = 0
      then closeWindow first ((q - np) sdiv pps) (pos q) s else Inr s) = Inr s1
      \<and> walked n np pps first p0 pos q (q - 1) s1"
    using closeWindow_walked [OF ctx room inv _ _ fst0 pos] walked_skip_close [OF ctx(1,4) inv] ctx(1)
    by (auto simp: sdiv_nonneg)
  then obtain s1 where s1: "(if q - np \<ge> 0 \<and> (q - np) smod pps = 0 \<and> (q - np) sdiv pps \<ge> 0
      then closeWindow first ((q - np) sdiv pps) (pos q) s else Inr s) = Inr s1"
      "walked n np pps first p0 pos q (q - 1) s1"
    unfolding guard by blast
  have "\<exists>s2. (if q mod pps = 0 then openWindow (q sdiv pps) (pos q) s1 else Inr s1) = Inr s2
      \<and> walked n np pps first p0 pos q q s2"
    using openWindow_walked [OF ctx room s1(2) _ fst0] walked_skip_open [OF ctx(1,3,4) s1(2)] q ctx(1)
    by (auto simp: sdiv_nonneg)
  then obtain s2 where s2: "(if q smod pps = 0 then openWindow (q sdiv pps) (pos q) s1 else Inr s1) = Inr s2"
      "walked n np pps first p0 pos q q s2"
    using q ctx(1) by (auto simp: smod_nonneg)
  have "paneStep np pps first (pos q) q s = Inr (s2\<lparr>ps_pid := q\<rparr>)"
    using ctx(1) unfolding paneStep_def Let_def by (simp only: s1(1) s2(1) rbind.simps) simp
  moreover have "walked n np pps first p0 pos q q (s2\<lparr>ps_pid := q\<rparr>)"
    using s2(2) by (simp add: walked_def)
  ultimately show ?thesis by auto
qed

lemma roomy_mono: "0 < pps \<Longrightarrow> q \<le> p \<Longrightarrow> roomy n np pps p0 p \<Longrightarrow> roomy n np pps p0 q"
  using zdiv_mono1 [of q p pps] by (simp add: roomy_def)

lemma panes_walked:
  assumes ctx: "0 < pps" "0 < np" "-1 \<le> p0" and fst0: "first \<longrightarrow> p0 = -1" and pos: "\<And>p. 0 \<le> pos p"
    and "p0 \<le> p" and room: "roomy n np pps p0 (p + int k)"
    and inv: "walked n np pps first p0 pos p p s" "ps_pid s = p"
    and same: "\<And>q. p < q \<Longrightarrow> q \<le> p + int k \<Longrightarrow> pos q = b"
  shows "\<exists>s'. rfold (paneStep np pps first b) [p + 1..p + int k] s = Inr s'
    \<and> walked n np pps first p0 pos (p + int k) (p + int k) s' \<and> ps_pid s' = p + int k"
  using room same
proof (induction k)
  case 0
  then show ?case using inv by simp
next
  case (Suc k)
  let ?q = "p + int (Suc k)"
  have "roomy n np pps p0 (p + int k)" using Suc.prems(1) roomy_mono [OF ctx(1), of "p + int k" ?q] by simp
  then obtain s1 where s1: "rfold (paneStep np pps first b) [p + 1..p + int k] s = Inr s1"
    "walked n np pps first p0 pos (p + int k) (p + int k) s1"
    using Suc.IH Suc.prems(2) by auto
  have w: "walked n np pps first p0 pos (?q - 1) (?q - 1) s1" using s1(2) by simp
  have "p0 < ?q" using assms(6) by simp
  then obtain s2 where s2: "paneStep np pps first (pos ?q) ?q s1 = Inr s2"
    "walked n np pps first p0 pos ?q ?q s2" "ps_pid s2 = ?q"
    using paneStep_walked [OF ctx _ Suc.prems(1) w fst0 pos] by blast
  have split: "[p + 1..?q] = [p + 1..p + int k] @ [?q]" by (subst upto_rec2) auto
  have "pos ?q = b" using Suc.prems(2) by simp
  then show ?case using s1(1) s2 unfolding split rfold_append by simp
qed

section \<open>The walk over a batch\<close>

definition reach :: "int \<Rightarrow> (int \<times> int) list \<Rightarrow> int" where
  "reach p0 tuples = foldl (\<lambda>m t. max m (snd t)) p0 tuples"

text \<open>The buffer position of the first tuple in or behind a pane.\<close>

definition firstIn :: "(int \<times> int) list \<Rightarrow> int \<Rightarrow> int" where
  "firstIn tuples p = (case List.find (\<lambda>t. p \<le> snd t) tuples of Some t \<Rightarrow> fst t | None \<Rightarrow> 0)"

lemma firstIn_nonneg: "\<forall>t \<in> set ts. 0 \<le> fst t \<Longrightarrow> 0 \<le> firstIn ts p"
  by (auto simp: firstIn_def split: option.splits dest!: find_SomeD)

lemma reach_ge: "p0 \<le> reach p0 ts" "t \<in> set ts \<Longrightarrow> snd t \<le> reach p0 ts"
proof -
  have m: "m \<le> foldl (\<lambda>m t. max m (snd t)) m ts" for m :: int and ts :: "(int \<times> int) list"
  proof (induction ts arbitrary: m)
    case (Cons a ts)
    have "m \<le> max m (snd a)" by simp
    also have "\<dots> \<le> foldl (\<lambda>m t. max m (snd t)) (max m (snd a)) ts" by (rule Cons.IH)
    finally show ?case by simp
  qed simp
  then show "p0 \<le> reach p0 ts" by (simp add: reach_def)
  have "t \<in> set ts \<Longrightarrow> snd t \<le> foldl (\<lambda>m t. max m (snd t)) q ts" for q
  proof (induction ts arbitrary: q)
    case (Cons a ts)
    then show ?case using m [of "max q (snd a)" ts] by auto
  qed simp
  then show "t \<in> set ts \<Longrightarrow> snd t \<le> reach p0 ts" by (simp add: reach_def)
qed

lemma firstIn_at:
  assumes "reach p0 pre < q" and "q \<le> pid"
  shows "firstIn (pre @ (b, pid) # rest) q = b"
proof -
  have "List.find (\<lambda>t. q \<le> snd t) pre = None"
    using reach_ge(2) [of _ pre p0] assms(1) by (force simp: find_None_iff)
  then have "List.find (\<lambda>t. q \<le> snd t) (pre @ (b, pid) # rest) = Some (b, pid)"
    using assms(2) by (induction pre) (auto split: if_splits)
  then show ?thesis by (simp add: firstIn_def)
qed

lemma tuples_walked:
  assumes ctx: "0 < pps" "0 < np" "-1 \<le> p0" and fst0: "first \<longrightarrow> p0 = -1"
    and pos: "\<forall>t \<in> set (pre @ ts). 0 \<le> fst t" and room: "roomy n np pps p0 (reach p0 (pre @ ts))"
    and inv: "walked n np pps first p0 (firstIn (pre @ ts)) (reach p0 pre) (reach p0 pre) s"
      "ps_pid s = reach p0 pre"
  shows "\<exists>s'. rfold (tupleStep np pps first) ts s = Inr s'
    \<and> walked n np pps first p0 (firstIn (pre @ ts)) (reach p0 (pre @ ts)) (reach p0 (pre @ ts)) s'"
  using pos room inv
proof (induction ts arbitrary: pre s)
  case (Cons t ts)
  obtain b pid where t: "t = (b, pid)" by (cases t)
  let ?p = "reach p0 pre" and ?all = "pre @ t # ts"
  have r: "reach p0 (pre @ [t]) = max ?p pid" by (simp add: reach_def t)
  have posn: "0 \<le> firstIn ?all p" for p
    by (rule firstIn_nonneg [OF Cons.prems(1)])
  have "max ?p pid \<le> reach p0 ?all"
    using reach_ge(2) [of t ?all p0] reach_ge(1) [of ?p "t # ts"] t by (auto simp: reach_def)
  then have room': "roomy n np pps p0 (?p + int (nat (pid - ?p)))"
    using roomy_mono [OF ctx(1) _ Cons.prems(2)] by (cases "?p \<le> pid") auto
  have "\<exists>s1. rfold (paneStep np pps first b) [?p + 1..pid] s = Inr s1
      \<and> walked n np pps first p0 (firstIn ?all) (max ?p pid) (max ?p pid) s1 \<and> ps_pid s1 = max ?p pid"
  proof (cases "?p \<le> pid")
    case True
    then have e: "?p + int (nat (pid - ?p)) = pid" by simp
    have "firstIn ?all q = b" if "?p < q" "q \<le> ?p + int (nat (pid - ?p))" for q
      using firstIn_at that True t e by simp
    from panes_walked [OF ctx fst0 posn reach_ge(1) room' Cons.prems(3,4) this] show ?thesis
      unfolding e max_absorb2 [OF True] .
  next
    case False
    then show ?thesis using Cons.prems(3,4) by (simp add: max_def)
  qed
  then obtain s1 where s1: "tupleStep np pps first t s = Inr s1"
      "walked n np pps first p0 (firstIn ?all) (max ?p pid) (max ?p pid) s1" "ps_pid s1 = max ?p pid"
    using t Cons.prems(4) by (auto simp: tupleStep_def)
  have "\<exists>s'. rfold (tupleStep np pps first) ts s1 = Inr s'
      \<and> walked n np pps first p0 (firstIn ?all) (reach p0 ?all) (reach p0 ?all) s'"
    using Cons.IH [of "pre @ [t]" s1] Cons.prems(1,2) s1(2,3) r by simp
  then show ?case using s1(1) by simp
qed simp


text \<open>
  The window of array index 0 at the end of the walk. When no window closes, index 0 stands for
  the windows that stay open over the whole batch.
\<close>

definition baseWindow :: "int \<Rightarrow> int \<Rightarrow> bool \<Rightarrow> int \<Rightarrow> int \<Rightarrow> int" where
  "baseWindow np pps first p0 p =
     (if closes np pps p0 p then firstClose np pps p0
      else if opens pps p0 p \<and> \<not> first then firstOpen pps p0 - 1
      else if first then 0 else -1)"

lemma shift_pending:
  assumes ctx: "0 < pps" "0 < np" "-1 \<le> p0" and inv: "walked n np pps False p0 pos p p s"
    and room: "roomy n np pps p0 p" and op: "opens pps p0 p" "\<not> closes np pps p0 p"
  shows "\<exists>ys zs. shiftDown 1 (ps_last s) (ps_starts s) = Inr ys \<and> shiftDown 1 (ps_last s) (ps_ends s) = Inr zs
    \<and> length ys = n \<and> length zs = n
    \<and> (\<forall>j < n. ys ! j = startVal pps p0 pos p (firstOpen pps p0 - 1 + int j))
    \<and> (\<forall>j < n. zs ! j = endVal np pps p0 pos p (firstOpen pps p0 - 1 + int j))"
proof -
  let ?o = "firstOpen pps p0"
  note co = firstClose_firstOpen [OF ctx]
  have off: "ps_offset s = ?o" and last: "ps_last s = p div pps - ?o"
    and len: "length (ps_starts s) = n" "length (ps_ends s) = n"
    and st: "\<And>j. j < n \<Longrightarrow> ps_starts s ! j = startVal pps p0 pos p (?o + int j)"
    and en: "\<And>j. j < n \<Longrightarrow> ps_ends s ! j = -1"
    using inv op endVal_none [OF ctx(1) op(2)] by (auto simp: walked_def)
  have od: "?o \<le> p div pps" using op(1) zdiv_ge_iff [OF ctx(1)] by (simp add: opens_def)
  have d: "0 \<le> ps_last s" "ps_last s + 1 < int n" using co od last room by (auto simp: roomy_def)
  have hi: "\<forall>j < length (ps_starts s). ps_last s < int j \<longrightarrow> ps_starts s ! j = -1"
  proof (intro allI impI)
    fix j assume j: "j < length (ps_starts s)" "ps_last s < int j"
    then have "p div pps < ?o + int j" using last by simp
    then have "\<not> (?o + int j) * pps \<le> p" using zdiv_less_iff [OF ctx(1)] by (simp add: not_le)
    then show "ps_starts s ! j = -1" using st j len by (simp add: startVal_def)
  qed
  obtain ys where ys: "shiftDown 1 (ps_last s) (ps_starts s) = Inr ys" "length ys = n"
    "\<And>j. j < n \<Longrightarrow> ys ! j = (if int j < 1 then -1 else ps_starts s ! (j - nat 1))"
    using shiftDown_nth [OF _ d(1) _ hi, of 1] d(2) len by auto
  obtain zs where zs: "shiftDown 1 (ps_last s) (ps_ends s) = Inr zs" "length zs = n"
    "\<And>j. j < n \<Longrightarrow> zs ! j = (if int j < 1 then -1 else ps_ends s ! (j - nat 1))"
    using shiftDown_nth [OF _ d(1), of 1 "ps_ends s"] d(2) len en by auto
  have "ys ! j = startVal pps p0 pos p (?o - 1 + int j)" if j: "j < n" for j
  proof (cases j)
    case 0
    then show ?thesis using ys(3) [OF j] by (simp add: startVal_def)
  next
    case (Suc i)
    then show ?thesis using ys(3) [OF j] st [of i] j by (simp add: algebra_simps)
  qed
  moreover have "zs ! j = endVal np pps p0 pos p (?o - 1 + int j)" if j: "j < n" for j
    using zs(3) [OF j] en [of "j - 1"] endVal_none [OF ctx(1) op(2)] j by auto
  ultimately show ?thesis using ys(1,2) zs(1,2) by blast
qed

lemma slicePanes_correct:
  assumes ctx: "0 < pps" "0 < np" "-1 \<le> p0" and fst0: "first \<longrightarrow> p0 = -1"
    and pos: "\<forall>t \<in> set ts. 0 \<le> fst t" and room: "roomy n np pps p0 (reach p0 ts)"
  defines "p \<equiv> reach p0 ts"
  shows "\<exists>s. slicePanes n np pps first p0 ts 0 = Inr s
    \<and> length (ps_starts s) = n \<and> length (ps_ends s) = n
    \<and> (\<forall>j < n. ps_starts s ! j = startVal pps p0 (firstIn ts) p (baseWindow np pps first p0 p + int j)
             \<and> ps_ends s ! j = endVal np pps p0 (firstIn ts) p (baseWindow np pps first p0 p + int j))
    \<and> ps_last s = (if opens pps p0 p then p div pps - baseWindow np pps first p0 p
                   else if closes np pps p0 p then (p - np) div pps - baseWindow np pps first p0 p else 0)"
proof -
  let ?s0 = "\<lparr>ps_starts = replicate n (-1), ps_ends = replicate n (-1), ps_last = 0, ps_pid = p0,
      ps_offset = (if first then 0 else -1), ps_opening = 0, ps_closing = 0\<rparr>"
  have no: "\<not> opens pps p0 p0" "\<not> closes np pps p0 p0"
    using firstOpen_le [OF ctx(1), of p0 "firstOpen pps p0"]
      firstClose_le [OF ctx(1) firstClose_nonneg [OF ctx(1)], of np p0 np p0]
    by (auto simp: opens_def closes_def)
  have "walked n np pps first p0 (firstIn ts) p0 p0 ?s0"
    using no startVal_none [OF ctx(1) no(1)] endVal_none [OF ctx(1) no(2)] by (simp add: walked_def)
  then obtain s where s: "rfold (tupleStep np pps first) ts ?s0 = Inr s"
      "walked n np pps first p0 (firstIn ts) p p s"
    using tuples_walked [OF ctx fst0, of "[]" ts n ?s0] pos room by (auto simp: p_def reach_def)
  have cnt: "(0 < ps_opening s) = opens pps p0 p" "(0 < ps_closing s) = closes np pps p0 p"
    "0 \<le> ps_opening s" "0 \<le> ps_closing s"
    using s(2) by (auto simp: walked_def)
  consider (pending) "opens pps p0 p" "\<not> closes np pps p0 p" "\<not> first"
    | (idle) "\<not> opens pps p0 p" "\<not> closes np pps p0 p"
    | (both) "closes np pps p0 p \<or> opens pps p0 p \<and> first" by blast
  then show ?thesis
  proof cases
    case pending
    have w: "walked n np pps False p0 (firstIn ts) p p s" using s(2) pending(3) by simp
    obtain ys zs where sh: "shiftDown 1 (ps_last s) (ps_starts s) = Inr ys"
        "shiftDown 1 (ps_last s) (ps_ends s) = Inr zs" "length ys = n" "length zs = n"
        "\<forall>j < n. ys ! j = startVal pps p0 (firstIn ts) p (firstOpen pps p0 - 1 + int j)"
        "\<forall>j < n. zs ! j = endVal np pps p0 (firstIn ts) p (firstOpen pps p0 - 1 + int j)"
      using shift_pending [OF ctx w room [folded p_def] pending(1,2)] by blast
    have "ps_closing s = 0" "0 < ps_opening s" using cnt pending by auto
    then have "finishPanes first s = Inr (s\<lparr>ps_starts := ys, ps_ends := zs, ps_last := ps_last s + 1\<rparr>)"
      using sh(1,2) pending(3) by (simp add: finishPanes_def)
    then show ?thesis
      using s sh pending by (auto simp: slicePanes_def baseWindow_def walked_def)
  next
    case idle
    then have "finishPanes first s = Inr (s\<lparr>ps_last := 0\<rparr>)" using cnt by (simp add: finishPanes_def)
    then show ?thesis using s idle by (auto simp: slicePanes_def baseWindow_def walked_def)
  next
    case both
    then have "finishPanes first s = Inr s" using cnt by (auto simp: finishPanes_def)
    moreover have "ps_offset s = baseWindow np pps first p0 p"
      using both s(2) fst0 firstOpen_start [OF ctx(1)] by (auto simp: baseWindow_def walked_def)
    ultimately show ?thesis using s both by (auto simp: slicePanes_def walked_def)
  qed
qed


section \<open>The fragments of a batch\<close>

text \<open>
  The pointer arrays describe a batch whose tuples are in the panes \<open>ts\<close> and that follows a
  tuple in pane \<open>p0\<close>: every window that opens or closes in the batch has its cell, and a cell
  holds the position of the first tuple of the window and of the first tuple behind it, or -1
  when the window does not open or does not close in the batch.
\<close>

definition opensIn :: "int \<Rightarrow> int \<Rightarrow> (int \<times> int) list \<Rightarrow> int \<Rightarrow> bool" where
  "opensIn pps p0 ts w \<longleftrightarrow> p0 < w * pps \<and> w * pps \<le> reach p0 ts"

definition closesIn :: "int \<Rightarrow> int \<Rightarrow> int \<Rightarrow> (int \<times> int) list \<Rightarrow> int \<Rightarrow> bool" where
  "closesIn np pps p0 ts w \<longleftrightarrow> p0 < w * pps + np \<and> w * pps + np \<le> reach p0 ts"

definition fragments ::
  "int \<Rightarrow> int \<Rightarrow> int \<Rightarrow> (int \<times> int) list \<Rightarrow> int list \<Rightarrow> int list \<Rightarrow> int \<Rightarrow> int \<Rightarrow> bool" where
  "fragments np pps p0 ts starts ends last_index base \<longleftrightarrow>
     (\<forall>w \<ge> 0.
       (opensIn pps p0 ts w \<or> closesIn np pps p0 ts w \<longrightarrow>
          base \<le> w \<and> w - base \<le> last_index \<and> last_index < int (length starts)) \<and>
       (base \<le> w \<and> w - base < int (length starts) \<longrightarrow>
          starts ! nat (w - base) = (if opensIn pps p0 ts w then firstIn ts (w * pps) else -1) \<and>
          ends ! nat (w - base) = (if closesIn np pps p0 ts w then firstIn ts (w * pps + np) else -1)))"

lemma slicePanes_fragments:
  assumes ctx: "0 < pps" "0 < np" "-1 \<le> p0" and fst0: "first \<longrightarrow> p0 = -1"
    and pos: "\<forall>t \<in> set ts. 0 \<le> fst t" and room: "roomy n np pps p0 (reach p0 ts)"
  shows "\<exists>s base. slicePanes n np pps first p0 ts 0 = Inr s
    \<and> length (ps_starts s) = n \<and> length (ps_ends s) = n
    \<and> fragments np pps p0 ts (ps_starts s) (ps_ends s) (ps_last s) base"
proof -
  define p where "p = reach p0 ts"
  define base where "base = baseWindow np pps first p0 p"
  obtain s where s: "slicePanes n np pps first p0 ts 0 = Inr s" "length (ps_starts s) = n" "length (ps_ends s) = n"
    "\<forall>j < n. ps_starts s ! j = startVal pps p0 (firstIn ts) p (base + int j)
           \<and> ps_ends s ! j = endVal np pps p0 (firstIn ts) p (base + int j)"
    "ps_last s = (if opens pps p0 p then p div pps - base
                   else if closes np pps p0 p then (p - np) div pps - base else 0)"
    using slicePanes_correct [OF assms] unfolding p_def base_def by blast
  note co = firstClose_firstOpen [OF ctx] firstClose_nonneg [OF ctx(1), of np p0]
  have st: "startVal pps p0 (firstIn ts) p w = (if opensIn pps p0 ts w then firstIn ts (w * pps) else -1)" for w
    using firstOpen_le [OF ctx(1), of p0 w] by (simp add: startVal_def opensIn_def p_def)
  have en: "endVal np pps p0 (firstIn ts) p w = (if closesIn np pps p0 ts w then firstIn ts (w * pps + np) else -1)"
    if "0 \<le> w" for w
    using firstClose_le [OF ctx(1) that, of np p0] by (simp add: endVal_def closesIn_def p_def)
  have op: "firstOpen pps p0 \<le> w \<and> w \<le> p div pps \<and> opens pps p0 p" if "opensIn pps p0 ts w" for w
  proof -
    have w: "firstOpen pps p0 \<le> w" "w * pps \<le> p"
      using that firstOpen_le [OF ctx(1), of p0 w] by (auto simp: opensIn_def p_def)
    then have "firstOpen pps p0 * pps \<le> p" using mult_right_mono [OF w(1), of pps] ctx(1) by linarith
    then show ?thesis using w zdiv_ge_iff [OF ctx(1)] by (simp add: opens_def)
  qed
  have cl: "firstClose np pps p0 \<le> w \<and> w \<le> (p - np) div pps \<and> closes np pps p0 p"
    if "closesIn np pps p0 ts w" "0 \<le> w" for w
  proof -
    have w: "firstClose np pps p0 \<le> w" "w * pps \<le> p - np"
      using that firstClose_le [OF ctx(1) that(2), of np p0] by (auto simp: closesIn_def p_def)
    then have "firstClose np pps p0 * pps \<le> p - np" using mult_right_mono [OF w(1), of pps] ctx(1) by linarith
    then show ?thesis using w zdiv_ge_iff [OF ctx(1)] by (simp add: closes_def)
  qed
  have mono: "(p - np) div pps \<le> p div pps" using ctx(1,2) by (intro zdiv_mono1) auto
  have b: "closes np pps p0 p \<Longrightarrow> base = firstClose np pps p0"
    "opens pps p0 p \<Longrightarrow> base \<le> firstOpen pps p0 \<and> firstClose np pps p0 - 1 \<le> base"
    using co fst0 firstOpen_start [OF ctx(1)] ctx(2) by (auto simp: base_def baseWindow_def firstClose_def)
  have "base \<le> w \<and> w - base \<le> ps_last s \<and> ps_last s < int n"
    if "opensIn pps p0 ts w \<or> closesIn np pps p0 ts w" "0 \<le> w" for w
    using that op [of w] cl [of w] b mono co room unfolding s(5) roomy_def p_def [symmetric] by auto
  moreover have "ps_starts s ! nat (w - base) = (if opensIn pps p0 ts w then firstIn ts (w * pps) else -1)
      \<and> ps_ends s ! nat (w - base) = (if closesIn np pps p0 ts w then firstIn ts (w * pps + np) else -1)"
    if "base \<le> w" "w - base < int n" "0 \<le> w" for w
  proof -
    have "nat (w - base) < n" "base + int (nat (w - base)) = w" using that by linarith+
    then show ?thesis using s(4) st [of w] en [OF that(3)] by metis
  qed
  ultimately have "fragments np pps p0 ts (ps_starts s) (ps_ends s) (ps_last s) base"
    using s(2) by (simp add: fragments_def)
  then show ?thesis using s(1-3) by blast
qed

end
