(* ===== verification/LineageGraph.thy ===== *)
theory LineageGraph
  imports Prelude
begin

text \<open>
  The lineage graph that travels with every batch (\<open>checkpoint/LineageGraph.h\<close>,
  \<open>checkpoint/LineageGraph.cpp\<close>) and the pool it is allocated from
  (\<open>checkpoint/LineageGraphFactory.h\<close>). A node is a query of the pipeline with the pointers
  up to which its inputs may be freed; the children of a node are its upstream queries.

  A \<open>shared_ptr\<close> to a node is an entry of \<open>lg_graph\<close>: \<open>None\<close> is the null pointer, and a child
  pointer is the index of the entry it points to. The number of other owners of a graph, which
  the code reads with \<open>use_count\<close>, is an argument.
\<close>

section \<open>Nodes\<close>

record LineageNode =
  ln_children :: "nat list"
  ln_query :: int
  ln_freePtr1 :: int
  ln_freePtr2 :: int
  ln_freeOffset1 :: int
  ln_freeOffset2 :: int
  ln_outputPtr :: int

definition newLineageNode :: "int \<Rightarrow> int \<Rightarrow> int \<Rightarrow> int \<Rightarrow> LineageNode" where
  "newLineageNode query freePtr1 freePtr2 outputPtr =
     \<lparr>ln_children = [], ln_query = query, ln_freePtr1 = freePtr1, ln_freePtr2 = freePtr2,
      ln_freeOffset1 = INT_MIN, ln_freeOffset2 = INT_MIN, ln_outputPtr = outputPtr\<rparr>"

abbreviation freshNode :: "int \<Rightarrow> LineageNode" where
  "freshNode query \<equiv> newLineageNode query INT_MIN INT_MIN INT_MIN"

definition setNode :: "LineageNode \<Rightarrow> int \<Rightarrow> int \<Rightarrow> int \<Rightarrow> int \<Rightarrow> LineageNode" where
  "setNode n query freePtr1 freePtr2 outputPtr =
     n\<lparr>ln_query := query, ln_freePtr1 := freePtr1, ln_freePtr2 := freePtr2,
       ln_outputPtr := outputPtr\<rparr>"

definition addChild :: "LineageNode \<Rightarrow> nat \<Rightarrow> LineageNode" where
  "addChild n c = n\<lparr>ln_children := ln_children n @ [c]\<rparr>"

text \<open>
  The calls \<open>tryToFree\<close> makes on the query's file store, operator and buffer, in the order it
  makes them.
\<close>

datatype free_call =
    FreePersistent int int int  \<comment> \<open>query, buffer id, offset\<close>
  | UpdateInputPtr int int bool \<comment> \<open>query, pointer, first input\<close>
  | FreeBuffer int int          \<comment> \<open>query whose first buffer is freed, pointer\<close>
  | UpdateOutputPtr int int     \<comment> \<open>query, pointer\<close>

definition tryToFree :: "LineageNode \<Rightarrow> free_call list" where
  "tryToFree n =
     (if ln_freePtr1 n \<noteq> INT_MIN
      then (if ln_freeOffset1 n \<noteq> INT_MIN
            then [FreePersistent (ln_query n) 0 (ln_freeOffset1 n)] else [])
           @ [UpdateInputPtr (ln_query n) (ln_freePtr1 n) True,
              FreeBuffer (ln_query n) (ln_freePtr1 n)]
      else [])
     @ (if ln_freePtr2 n \<noteq> INT_MIN
        then (if ln_freeOffset2 n \<noteq> INT_MIN
              then [FreePersistent (ln_query n) 1 (ln_freeOffset2 n)] else [])
             @ [UpdateInputPtr (ln_query n) (ln_freePtr2 n) False,
                FreeBuffer (ln_query n) (ln_freePtr2 n)]
        else [])
     @ (if ln_outputPtr n \<noteq> INT_MIN
        then [UpdateOutputPtr (ln_query n) (ln_outputPtr n)] else [])"

section \<open>Graphs\<close>

record LineageGraph =
  lg_isValid :: bool
  lg_vertices :: nat
  lg_graph :: "LineageNode option list"
  lg_clockVector :: "int list"

text \<open>Indexing a vector of pointers and following the pointer.\<close>

definition deref :: "'a option list \<Rightarrow> nat \<Rightarrow> 'a res" where
  "deref v i =
     (if i < length v then (case v ! i of None \<Rightarrow> Inl Undefined | Some x \<Rightarrow> Inr x)
      else Inl Undefined)"

text \<open>The queries of an application, as far as the graph reads them.\<close>

record query_info =
  qi_id :: int
  qi_upstream :: "int list"

subsection \<open>Construction by breadth-first search\<close>

text \<open>
  Both searches of the class mark a vertex when it is first met and append it to the queue;
  that is why they end, and why no vertex is handled twice.
\<close>

definition mark :: "nat \<Rightarrow> bool list \<times> nat list \<Rightarrow> bool list \<times> nat list" where
  "mark i s = (case s of (visited, queue) \<Rightarrow>
     if \<not> visited ! i then (visited[i := True], queue @ [i]) else (visited, queue))"

lemma mark_pair:
  "mark i (v, q) = (if v ! i then (v, q) else (v[i := True], q @ [i]))"
  by (simp add: mark_def)

abbreviation unmarked :: "bool list \<Rightarrow> nat" where
  "unmarked visited \<equiv> length (filter Not visited)"

lemma unmarked_update:
  "i < length v \<Longrightarrow> \<not> v ! i \<Longrightarrow> unmarked v = Suc (unmarked (v[i := True]))"
proof (induction v arbitrary: i)
  case (Cons a v)
  then show ?case by (cases i) auto
qed simp

lemma mark_measure:
  assumes "mark i (visited, queue) = (visited', queue')" and "i < length visited"
  shows "length visited' = length visited"
    and "unmarked visited' + length queue' = unmarked visited + length queue"
  using assms unmarked_update [of i visited] by (auto simp: mark_pair split: if_splits)

lemma fold_mark:
  assumes "\<forall>c\<in>set cs. c < length v" and "fold mark cs (v, q) = (v', q')"
  shows "length v' = length v"
    and "\<exists>new. q' = q @ new \<and> distinct new \<and> set new = {c \<in> set cs. \<not> v ! c}"
    and "\<forall>i < length v. v' ! i \<longleftrightarrow> v ! i \<or> i \<in> set cs"
proof -
  have "length v' = length v
    \<and> (\<exists>new. q' = q @ new \<and> distinct new \<and> set new = {c \<in> set cs. \<not> v ! c})
    \<and> (\<forall>i < length v. v' ! i \<longleftrightarrow> v ! i \<or> i \<in> set cs)"
    using assms
  proof (induction cs arbitrary: v q)
    case (Cons c cs)
    show ?case
    proof (cases "v ! c")
      case True
      with Cons.prems have "fold mark cs (v, q) = (v', q')" by (simp add: mark_pair)
      with Cons.IH [of v q] Cons.prems True show ?thesis by auto
    next
      case False
      let ?v = "v[c := True]"
      from False Cons.prems have "fold mark cs (?v, q @ [c]) = (v', q')"
        by (simp add: mark_pair)
      with Cons.IH [of ?v "q @ [c]"] Cons.prems obtain new where
        IH: "length v' = length v" "q' = (q @ [c]) @ new" "distinct new"
          "set new = {d \<in> set cs. \<not> ?v ! d}"
          "\<forall>i < length v. v' ! i \<longleftrightarrow> ?v ! i \<or> i \<in> set cs"
        by auto
      have "q' = q @ (c # new)" "distinct (c # new)" "set (c # new) = {d \<in> set (c # cs). \<not> v ! d}"
        using IH False Cons.prems(1) by (auto simp: nth_list_update split: if_splits)
      moreover have "\<forall>i < length v. v' ! i \<longleftrightarrow> v ! i \<or> i \<in> set (c # cs)"
        using IH(5) Cons.prems(1) by (auto simp: nth_list_update)
      ultimately show ?thesis using IH(1) by blast
    qed
  qed simp
  then show "length v' = length v"
    and "\<exists>new. q' = q @ new \<and> distinct new \<and> set new = {c \<in> set cs. \<not> v ! c}"
    and "\<forall>i < length v. v' ! i \<longleftrightarrow> v ! i \<or> i \<in> set cs"
    by blast+
qed

text \<open>One upstream query of the vertex \<open>q\<close> (the inner loop of \<open>bfs\<close>).\<close>

definition bfs_visit ::
  "query_info list \<Rightarrow> nat \<Rightarrow> int \<Rightarrow>
   (bool list \<times> nat list) \<times> LineageNode option list \<Rightarrow>
   ((bool list \<times> nat list) \<times> LineageNode option list) res" where
  "bfs_visit queries q qId s =
     (case s of ((visited, queue), graph) \<Rightarrow>
        if int (length queries) \<le> qId then Inl RuntimeError
        else if qId < 0 \<or> length visited \<le> nat qId then Inl Undefined
        else
          let graph = (if \<not> visited ! nat qId
                       then graph[nat qId := Some (freshNode (qi_id (queries ! nat qId)))]
                       else graph)
          in rbind (deref graph q)
               (\<lambda>n. Inr (mark (nat qId) (visited, queue),
                         graph[q := Some (addChild n (nat qId))])))"

lemma bfs_visits_measure:
  assumes "rfold (bfs_visit queries q) us ((visited, queue), graph)
             = Inr ((visited', queue'), graph')"
  shows "unmarked visited' + length queue' = unmarked visited + length queue"
proof -
  let ?P = "\<lambda>((vs :: bool list, qu :: nat list), g :: LineageNode option list).
     unmarked vs + length qu = unmarked visited + length queue"
  have "?P ((visited', queue'), graph')"
    by (rule rfold_invariant [OF assms, where P = ?P])
      (auto simp: bfs_visit_def Let_def split: if_splits dest!: mark_measure)
  then show ?thesis by simp
qed

function bfs_loop ::
  "query_info list \<Rightarrow> bool list \<Rightarrow> nat list \<Rightarrow> LineageNode option list \<Rightarrow>
   LineageNode option list res" where
  "bfs_loop queries visited [] graph = Inr graph"
| "bfs_loop queries visited (q # queue) graph =
     (if length queries \<le> q then Inl Undefined
      else case rfold (bfs_visit queries q) (qi_upstream (queries ! q)) ((visited, queue), graph) of
             Inl e \<Rightarrow> Inl e
           | Inr ((visited', queue'), graph') \<Rightarrow> bfs_loop queries visited' queue' graph')"
  by pat_completeness auto
termination
  by (relation "measure (\<lambda>(queries, visited, queue, graph). unmarked visited + length queue)")
    (auto dest!: bfs_visits_measure)

definition bfs :: "query_info list \<Rightarrow> LineageNode option list \<Rightarrow> LineageNode option list res" where
  "bfs queries graph =
     (if queries = [] then Inr graph
      else let l = length queries - 1
           in bfs_loop queries ((replicate (length queries) False)[l := True]) [l]
                (graph[l := Some (freshNode (qi_id (queries ! l)))]))"

definition newLineageGraph :: "query_info list \<Rightarrow> LineageGraph res" where
  "newLineageGraph queries =
     rbind (bfs queries (replicate (length queries) None))
       (\<lambda>g. Inr \<lparr>lg_isValid = False, lg_vertices = length queries, lg_graph = g,
                 lg_clockVector = replicate (length queries * 3) 0\<rparr>)"

text \<open>
  The copy constructor re-creates the nodes in index order with all pointers unset, and links
  each to the copies of its children, which must have been created before it. It does not
  initialise \<open>m_clockVector\<close>.
\<close>

definition copyNode ::
  "LineageNode option list \<Rightarrow> LineageNode option \<Rightarrow> LineageNode option list \<Rightarrow>
   LineageNode option list res" where
  "copyNode orig v copy =
     (case v of None \<Rightarrow> Inl Undefined
      | Some n \<Rightarrow>
          rbind (rfold (\<lambda>c m. rbind (deref orig c) (\<lambda>cn.
                    if 0 \<le> ln_query cn \<and> ln_query cn \<le> int (length copy)
                    then Inr (addChild m (nat (ln_query cn))) else Inl Undefined))
                  (ln_children n) (freshNode (ln_query n)))
            (\<lambda>m. Inr (copy @ [Some m])))"

definition copyLineageGraph :: "LineageGraph \<Rightarrow> LineageGraph res" where
  "copyLineageGraph g =
     rbind (rfold (copyNode (lg_graph g)) (lg_graph g) [])
       (\<lambda>ns. if lg_vertices g = 0 \<or> length ns < lg_vertices g then Inl Undefined
             else Inr \<lparr>lg_isValid = False, lg_vertices = lg_vertices g, lg_graph = ns,
                       lg_clockVector = []\<rparr>)"

subsection \<open>Operations\<close>

text \<open>One vertex of \<open>mergeGraphs\<close>: \<open>a\<close> is this graph's node, \<open>b\<close> the other's.\<close>

definition mergeNode :: "LineageNode \<Rightarrow> LineageNode \<Rightarrow> LineageNode" where
  "mergeNode a b =
     a\<lparr>ln_freePtr1 := (if ln_freeOffset1 b > ln_freeOffset1 a then ln_freePtr1 b else ln_freePtr1 a),
       ln_freeOffset1 := max (ln_freeOffset1 b) (ln_freeOffset1 a),
       ln_freePtr2 := (if ln_freeOffset2 b > ln_freeOffset2 a then ln_freePtr2 b else ln_freePtr2 a),
       ln_freeOffset2 := max (ln_freeOffset2 b) (ln_freeOffset2 a),
       ln_outputPtr := max (ln_outputPtr b) (ln_outputPtr a)\<rparr>"

definition advanceNode :: "LineageNode \<Rightarrow> LineageNode \<Rightarrow> LineageNode" where
  "advanceNode a b =
     a\<lparr>ln_freeOffset1 := max (ln_freeOffset1 b) (ln_freeOffset1 a),
       ln_freeOffset2 := max (ln_freeOffset2 b) (ln_freeOffset2 a)\<rparr>"

definition nodewise ::
  "(LineageNode \<Rightarrow> LineageNode \<Rightarrow> LineageNode) \<Rightarrow> LineageNode option list \<Rightarrow> nat \<Rightarrow>
   LineageNode option list \<Rightarrow> LineageNode option list res" where
  "nodewise f other v g =
     rbind (deref g v) (\<lambda>a. rbind (deref other v) (\<lambda>b. Inr (g[v := Some (f a b)])))"

definition mergeGraphs :: "LineageGraph \<Rightarrow> LineageGraph option \<Rightarrow> LineageGraph res" where
  "mergeGraphs g other =
     (case other of None \<Rightarrow> Inr g
      | Some h \<Rightarrow>
          rbind (rfold (nodewise mergeNode (lg_graph h)) [0..<lg_vertices g] (lg_graph g))
            (\<lambda>ns. Inr (g\<lparr>lg_graph := ns, lg_isValid := lg_isValid g \<or> lg_isValid h\<rparr>)))"

definition advanceOffsets :: "LineageGraph \<Rightarrow> LineageGraph option \<Rightarrow> LineageGraph res" where
  "advanceOffsets g other =
     (case other of None \<Rightarrow> Inr g
      | Some h \<Rightarrow>
          rbind (rfold (nodewise advanceNode (lg_graph h)) [0..<lg_vertices g] (lg_graph g))
            (\<lambda>ns. Inr (g\<lparr>lg_graph := ns\<rparr>)))"

definition setOutputPtr :: "LineageGraph \<Rightarrow> nat \<Rightarrow> int \<Rightarrow> LineageGraph res" where
  "setOutputPtr g qId outputPtr =
     (if outputPtr \<le> 0 then Inr g
      else rbind (deref (lg_graph g) qId)
             (\<lambda>n. Inr (g\<lparr>lg_graph := (lg_graph g)[qId := Some (n\<lparr>ln_outputPtr := outputPtr\<rparr>)],
                         lg_isValid := True\<rparr>)))"

definition clearNode :: "LineageNode \<Rightarrow> LineageNode" where
  "clearNode n = n\<lparr>ln_freePtr1 := INT_MIN, ln_freeOffset1 := INT_MIN, ln_freePtr2 := INT_MIN,
                   ln_freeOffset2 := INT_MIN, ln_outputPtr := INT_MIN\<rparr>"

definition clearGraph :: "LineageGraph \<Rightarrow> LineageGraph res" where
  "clearGraph g =
     (if None \<in> set (lg_graph g) then Inl Undefined
      else Inr (g\<lparr>lg_graph := map (map_option clearNode) (lg_graph g), lg_isValid := False\<rparr>))"

definition write_clock :: "LineageNode option \<Rightarrow> int \<times> int list \<Rightarrow> (int \<times> int list) res" where
  "write_clock l s = (case l of None \<Rightarrow> Inl Undefined
     | Some n \<Rightarrow> case s of (idx, cv) \<Rightarrow>
         rbind (vset cv idx (ln_freeOffset1 n)) (\<lambda>cv.
         rbind (vset cv (idx + 1) (ln_freeOffset2 n)) (\<lambda>cv.
         rbind (vset cv (idx + 2) (ln_outputPtr n)) (\<lambda>cv. Inr (idx + 3, cv)))))"

definition serialize :: "LineageGraph \<Rightarrow> LineageGraph res" where
  "serialize g =
     rbind (rfold write_clock (lg_graph g) (0, lg_clockVector g))
       (\<lambda>(idx, cv). Inr (g\<lparr>lg_clockVector := cv\<rparr>))"

text \<open>
  \<open>freePersistentState\<close> walks the graph from a query towards its upstream queries and lets every
  node it meets free its inputs. The marks cover the query ids up to \<open>qId\<close> only.
\<close>

definition free_visit ::
  "LineageGraph \<Rightarrow> nat \<Rightarrow> bool list \<times> nat list \<Rightarrow> (bool list \<times> nat list) res" where
  "free_visit g c s =
     rbind (deref (lg_graph g) c) (\<lambda>n.
       let qid = ln_query n
       in if int (lg_vertices g) \<le> qid then Inl RuntimeError
          else if qid < 0 \<or> length (fst s) \<le> nat qid then Inl Undefined
          else Inr (mark (nat qid) s))"

lemma free_visits_measure:
  assumes "rfold (free_visit g) cs (visited, queue) = Inr (visited', queue')"
  shows "unmarked visited' + length queue' = unmarked visited + length queue"
proof -
  let ?P = "\<lambda>(vs :: bool list, qu :: nat list).
     unmarked vs + length qu = unmarked visited + length queue"
  have "?P (visited', queue')"
    by (rule rfold_invariant [OF assms, where P = ?P])
      (auto simp: free_visit_def Let_def split: if_splits dest!: mark_measure)
  then show ?thesis by simp
qed

function free_loop ::
  "LineageGraph \<Rightarrow> bool list \<Rightarrow> nat list \<Rightarrow> free_call list \<Rightarrow> free_call list res" where
  "free_loop g visited [] calls = Inr calls"
| "free_loop g visited (q # queue) calls =
     (case deref (lg_graph g) q of
        Inl e \<Rightarrow> Inl e
      | Inr n \<Rightarrow>
          (case rfold (free_visit g) (ln_children n) (visited, queue) of
             Inl e \<Rightarrow> Inl e
           | Inr (visited', queue') \<Rightarrow> free_loop g visited' queue' (calls @ tryToFree n)))"
  by pat_completeness auto
termination
  by (relation "measure (\<lambda>(g, visited, queue, calls). unmarked visited + length queue)")
    (auto dest!: free_visits_measure)

definition freePersistentState :: "LineageGraph \<Rightarrow> nat \<Rightarrow> free_call list res" where
  "freePersistentState g qId =
     (if lg_vertices g \<le> qId then Inl RuntimeError
      else if \<not> lg_isValid g then Inr []
      else free_loop g ((replicate (qId + 1) False)[qId := True]) [qId] [])"

section \<open>The factory\<close>

text \<open>
  The pool holds recycled graphs, each with the number of its other owners when it is popped.
\<close>

record LineageGraphFactory =
  lf_isReady :: bool
  lf_count :: int
  lf_graph :: "LineageGraph option"
  lf_pool :: "(LineageGraph \<times> nat) list"

definition emptyFactory :: LineageGraphFactory where
  "emptyFactory = \<lparr>lf_isReady = False, lf_count = 0, lf_graph = None, lf_pool = []\<rparr>"

definition setGraph :: "LineageGraphFactory \<Rightarrow> query_info list \<Rightarrow> LineageGraphFactory res" where
  "setGraph f queries =
     (if lf_isReady f then Inr f
      else rbind (newLineageGraph queries)
             (\<lambda>g. Inr (f\<lparr>lf_graph := Some g, lf_isReady := True\<rparr>)))"

definition allocGraph :: "LineageGraphFactory \<Rightarrow> (LineageGraph \<times> LineageGraphFactory) res" where
  "allocGraph f =
     (case lf_graph f of None \<Rightarrow> Inl Undefined
      | Some t \<Rightarrow> rbind (copyLineageGraph t) (\<lambda>g. Inr (g, f\<lparr>lf_count := lf_count f + 1\<rparr>)))"

text \<open>Popping graphs until one is found that nobody else holds.\<close>

fun popGraph ::
  "(LineageGraph \<times> nat) list \<Rightarrow> LineageGraphFactory \<Rightarrow> (LineageGraph \<times> LineageGraphFactory) res" where
  "popGraph [] f = allocGraph (f\<lparr>lf_pool := []\<rparr>)"
| "popGraph ((g, others) # pool) f =
     (if others = 0 then Inr (g, f\<lparr>lf_pool := pool\<rparr>) else popGraph pool f)"

definition newInstance :: "LineageGraphFactory \<Rightarrow> (LineageGraph \<times> LineageGraphFactory) res" where
  "newInstance f = (if \<not> lf_isReady f then Inl RuntimeError else popGraph (lf_pool f) f)"

definition freeGraph :: "LineageGraph \<Rightarrow> nat \<Rightarrow> LineageGraphFactory \<Rightarrow> LineageGraphFactory res" where
  "freeGraph g others f =
     rbind (clearGraph g) (\<lambda>g'. Inr (f\<lparr>lf_pool := lf_pool f @ [(g', others)]\<rparr>))"

text \<open>
  The end of \<open>mergeGraphs\<close>: the merged graph is recycled when the caller was its only owner.
\<close>

definition mergeGraphsRelease ::
  "LineageGraph \<Rightarrow> LineageGraph \<times> nat \<Rightarrow> LineageGraphFactory \<Rightarrow>
   (LineageGraph \<times> LineageGraphFactory) res" where
  "mergeGraphsRelease g other f =
     (case other of (h, others) \<Rightarrow>
        rbind (mergeGraphs g (Some h)) (\<lambda>g'.
          if others = 0 then rbind (freeGraph h 0 f) (\<lambda>f'. Inr (g', f')) else Inr (g', f)))"

section \<open>Well-formed graphs\<close>

abbreviation node :: "LineageGraph \<Rightarrow> nat \<Rightarrow> LineageNode" where
  "node g v \<equiv> the (lg_graph g ! v)"

definition lg_wf :: "LineageGraph \<Rightarrow> bool" where
  "lg_wf g \<longleftrightarrow> length (lg_graph g) = lg_vertices g \<and> None \<notin> set (lg_graph g)"

text \<open>
  The graph of a pipeline: the query of vertex \<open>i\<close> has the id \<open>i\<close>, and upstream queries come
  before downstream ones.
\<close>

definition lg_ordered :: "LineageGraph \<Rightarrow> bool" where
  "lg_ordered g \<longleftrightarrow> lg_wf g \<and> 0 < lg_vertices g \<and>
     (\<forall>i < lg_vertices g. ln_query (node g i) = int i \<and> (\<forall>c \<in> set (ln_children (node g i)). c < i))"

lemma lg_wf_deref: "lg_wf g \<Longrightarrow> v < lg_vertices g \<Longrightarrow> deref (lg_graph g) v = Inr (node g v)"
  by (cases "lg_graph g ! v") (auto simp: lg_wf_def deref_def in_set_conv_nth)

lemma nodewise_loop:
  assumes "lg_wf g" and "lg_wf h" and "lg_vertices h = lg_vertices g"
  shows "rfold (nodewise f (lg_graph h)) [0..<lg_vertices g] (lg_graph g)
    = Inr (map (\<lambda>v. Some (f (node g v) (node h v))) [0..<lg_vertices g])"
proof -
  have "rfold (nodewise f (lg_graph h)) [0..<lg_vertices g] (lg_graph g)
    = Inr (map (\<lambda>v. Some (f (node g v) (node h v))) [0..<lg_vertices g]
           @ drop (lg_vertices g) (lg_graph g))"
  proof (rule rfold_update_all)
    fix v s
    assume v: "v < lg_vertices g" and s: "length s = length (lg_graph g)" "s ! v = lg_graph g ! v"
    have "deref s v = Inr (node g v)"
      using lg_wf_deref [OF assms(1) v] v s assms(1) by (simp add: deref_def lg_wf_def)
    then show "nodewise f (lg_graph h) v s = Inr (s[v := Some (f (node g v) (node h v))])"
      using lg_wf_deref [OF assms(2)] v assms(3) by (simp add: nodewise_def)
  qed (use assms in \<open>simp add: lg_wf_def\<close>)
  then show ?thesis using assms(1) by (simp add: lg_wf_def)
qed

lemma mergeGraphs_eq:
  assumes "lg_wf g" and "lg_wf h" and "lg_vertices h = lg_vertices g"
  shows "mergeGraphs g (Some h) = Inr (g\<lparr>
     lg_graph := map (\<lambda>v. Some (mergeNode (node g v) (node h v))) [0..<lg_vertices g],
     lg_isValid := lg_isValid g \<or> lg_isValid h\<rparr>)"
  by (simp add: mergeGraphs_def nodewise_loop [OF assms])

lemma lg_wf_map_Some: "lg_wf (g\<lparr>lg_graph := map (\<lambda>v. Some (f v)) [0..<lg_vertices g], lg_isValid := b\<rparr>)"
  by (auto simp: lg_wf_def)

lemma mergeNode_sel [simp]:
  "ln_freePtr1 (mergeNode a b) =
     (if ln_freeOffset1 a < ln_freeOffset1 b then ln_freePtr1 b else ln_freePtr1 a)"
  "ln_freePtr2 (mergeNode a b) =
     (if ln_freeOffset2 a < ln_freeOffset2 b then ln_freePtr2 b else ln_freePtr2 a)"
  "ln_children (mergeNode a b) = ln_children a"
  "ln_query (mergeNode a b) = ln_query a"
  by (simp_all add: mergeNode_def)

lemma mergeNode_idem: "mergeNode a a = a"
  by (simp add: mergeNode_def)

lemma mergeNode_assoc: "mergeNode (mergeNode a b) c = mergeNode a (mergeNode b c)"
  by (simp add: mergeNode_def max_def)

text \<open>
  The position of a node in the vector clock of the pipeline, which \<open>serialize\<close> writes out.
\<close>

definition node_clock :: "LineageNode \<Rightarrow> int list" where
  "node_clock n = [ln_freeOffset1 n, ln_freeOffset2 n, ln_outputPtr n]"

definition graph_clock :: "LineageGraph \<Rightarrow> int list" where
  "graph_clock g = concat (map (\<lambda>v. node_clock (node g v)) [0..<lg_vertices g])"

lemma node_clock_mergeNode:
  "node_clock (mergeNode a b) = map2 max (node_clock a) (node_clock b)"
  by (simp add: node_clock_def mergeNode_def max.commute)

lemma map2_concat_same_length:
  assumes "\<And>v. v \<in> set vs \<Longrightarrow> length (f v) = length (g v)"
  shows "concat (map (\<lambda>v. map2 h (f v) (g v)) vs) = map2 h (concat (map f vs)) (concat (map g vs))"
  using assms by (induction vs) auto

text \<open>
  C39. Merging two lineage graphs of a pipeline joins their vector clocks: every free offset and
  every output position of the result is the maximum of the two, the free pointer of each
  input is the one recorded together with the larger offset, and the result is valid when
  either argument is.
\<close>

theorem mergeGraphs_joins_clocks:
  assumes "lg_wf g" and "lg_wf h" and "lg_vertices h = lg_vertices g"
  shows "\<exists>m. mergeGraphs g (Some h) = Inr m \<and> lg_wf m \<and> lg_vertices m = lg_vertices g
    \<and> graph_clock m = map2 max (graph_clock g) (graph_clock h)
    \<and> (lg_isValid m \<longleftrightarrow> lg_isValid g \<or> lg_isValid h)
    \<and> (\<forall>v < lg_vertices g.
         ln_freePtr1 (node m v) = (if ln_freeOffset1 (node g v) < ln_freeOffset1 (node h v)
           then ln_freePtr1 (node h v) else ln_freePtr1 (node g v))
       \<and> ln_freePtr2 (node m v) = (if ln_freeOffset2 (node g v) < ln_freeOffset2 (node h v)
           then ln_freePtr2 (node h v) else ln_freePtr2 (node g v))
       \<and> ln_children (node m v) = ln_children (node g v))"
proof -
  let ?m = "g\<lparr>lg_graph := map (\<lambda>v. Some (mergeNode (node g v) (node h v))) [0..<lg_vertices g],
     lg_isValid := lg_isValid g \<or> lg_isValid h\<rparr>"
  have clock: "graph_clock ?m = map2 max (graph_clock g) (graph_clock h)"
  proof -
    have "graph_clock ?m = concat (map (\<lambda>v. map2 max (node_clock (node g v)) (node_clock (node h v)))
        [0..<lg_vertices g])"
      by (auto simp: graph_clock_def node_clock_mergeNode intro!: arg_cong [where f = concat])
    also have "\<dots> = map2 max (graph_clock g) (graph_clock h)"
      unfolding graph_clock_def assms(3)
      by (rule map2_concat_same_length) (simp add: node_clock_def)
    finally show ?thesis .
  qed
  show ?thesis
    by (rule exI [of _ ?m]) (simp add: mergeGraphs_eq [OF assms] lg_wf_map_Some clock)
qed

section \<open>Freeing visits exactly the upstream queries\<close>

definition upstream :: "LineageGraph \<Rightarrow> (nat \<times> nat) set" where
  "upstream g = {(i, c). i < lg_vertices g \<and> c \<in> set (ln_children (node g i))}"

lemma free_visits_marks:
  assumes "lg_ordered g" and "\<forall>c\<in>set cs. c < lg_vertices g \<and> c < length visited"
  shows "rfold (free_visit g) cs (visited, queue) = Inr (fold mark cs (visited, queue))"
  using assms(2)
proof (induction cs arbitrary: visited queue)
  case (Cons c cs)
  have wf: "lg_wf g" and q: "ln_query (node g c) = int c"
    using assms(1) Cons.prems by (auto simp: lg_ordered_def)
  have "free_visit g c (visited, queue) = Inr (mark c (visited, queue))"
    using Cons.prems by (simp add: free_visit_def lg_wf_deref [OF wf] q)
  moreover obtain v' q' where m: "mark c (visited, queue) = (v', q')" by fastforce
  moreover have "length v' = length visited" using mark_measure [OF m] Cons.prems by simp
  ultimately show ?case using Cons.IH [of v' q'] Cons.prems by simp
qed simp

lemma free_loop_visits:
  assumes g: "lg_ordered g" and q: "qId < lg_vertices g"
    and len: "length visited = Suc qId"
    and vis: "\<forall>i \<le> qId. visited ! i \<longleftrightarrow> i \<in> set done \<union> set queue"
    and bound: "set done \<union> set queue \<subseteq> {..qId}"
    and dist: "distinct (done @ queue)"
    and closed: "\<forall>i \<in> set done. set (ln_children (node g i)) \<subseteq> set done \<union> set queue"
    and reach: "set done \<union> set queue \<subseteq> (upstream g)\<^sup>* `` {qId}"
  shows "\<exists>rest. free_loop g visited queue calls
           = Inr (calls @ concat (map (\<lambda>i. tryToFree (node g i)) rest))
    \<and> distinct (done @ rest) \<and> set queue \<subseteq> set (done @ rest)
    \<and> set (done @ rest) \<subseteq> (upstream g)\<^sup>* `` {qId}
    \<and> (\<forall>i \<in> set (done @ rest). set (ln_children (node g i)) \<subseteq> set (done @ rest))"
  using assms
proof (induction g visited queue calls arbitrary: "done" rule: free_loop.induct)
  case (1 g visited calls)
  then show ?case by (intro exI [of _ "[]"]) auto
next
  case (2 g visited q queue calls)
  let ?cs = "ln_children (node g q)"
  have q: "q \<le> qId" "q < lg_vertices g" using "2.prems" by auto
  have wf: "lg_wf g" and cs: "\<forall>c\<in>set ?cs. c < q"
    using "2.prems"(1) q by (auto simp: lg_ordered_def)
  have cs': "\<forall>c\<in>set ?cs. c < lg_vertices g \<and> c < length visited"
    using cs q "2.prems"(3) by auto
  obtain v' q' where m: "fold mark ?cs (visited, queue) = (v', q')" by fastforce
  obtain new where new: "q' = queue @ new" "distinct new" "set new = {c \<in> set ?cs. \<not> visited ! c}"
    using fold_mark(2) [OF _ m] cs' by blast
  have v': "length v' = length visited" "\<forall>i < length visited. v' ! i \<longleftrightarrow> visited ! i \<or> i \<in> set ?cs"
    using fold_mark(1,3) [OF _ m] cs' by blast+
  have inner: "rfold (free_visit g) ?cs (visited, queue) = Inr (v', q')"
    using free_visits_marks [OF "2.prems"(1) cs', of queue] m by simp
  have fresh: "set new \<inter> (set done \<union> set (q # queue)) = {}"
    using new(3) "2.prems"(3,4,5) cs by fastforce
  have cover: "set ?cs \<subseteq> set (done @ [q]) \<union> set q'"
    using new "2.prems"(3,4) cs q(1) by fastforce
  have "\<exists>rest. free_loop g v' q' (calls @ tryToFree (node g q))
           = Inr ((calls @ tryToFree (node g q)) @ concat (map (\<lambda>i. tryToFree (node g i)) rest))
    \<and> distinct ((done @ [q]) @ rest) \<and> set q' \<subseteq> set ((done @ [q]) @ rest)
    \<and> set ((done @ [q]) @ rest) \<subseteq> (upstream g)\<^sup>* `` {qId}
    \<and> (\<forall>i \<in> set ((done @ [q]) @ rest). set (ln_children (node g i)) \<subseteq> set ((done @ [q]) @ rest))"
  proof (rule "2.IH" [OF lg_wf_deref [OF wf q(2)] inner refl "2.prems"(1,2)])
    show "length v' = Suc qId" using v'(1) "2.prems"(3) by simp
    show "\<forall>i\<le>qId. v' ! i \<longleftrightarrow> i \<in> set (done @ [q]) \<union> set q'"
      using v' new "2.prems"(3,4) cover by auto
    show "set (done @ [q]) \<union> set q' \<subseteq> {..qId}"
      using new "2.prems"(5) cs q(1) by fastforce
    show "distinct ((done @ [q]) @ q')" using new fresh "2.prems"(6) by auto
    show "\<forall>i\<in>set (done @ [q]). set (ln_children (node g i)) \<subseteq> set (done @ [q]) \<union> set q'"
      using "2.prems"(7) cover new(1) by auto
    have "(q, c) \<in> upstream g" if "c \<in> set ?cs" for c
      using that q(2) by (simp add: upstream_def)
    then show "set (done @ [q]) \<union> set q' \<subseteq> (upstream g)\<^sup>* `` {qId}"
      using "2.prems"(8) new by (auto intro: rtrancl_into_rtrancl)
  qed
  then obtain rest where rest: "free_loop g v' q' (calls @ tryToFree (node g q))
           = Inr ((calls @ tryToFree (node g q)) @ concat (map (\<lambda>i. tryToFree (node g i)) rest))"
    "distinct ((done @ [q]) @ rest)" "set q' \<subseteq> set ((done @ [q]) @ rest)"
    "set ((done @ [q]) @ rest) \<subseteq> (upstream g)\<^sup>* `` {qId}"
    "\<forall>i \<in> set ((done @ [q]) @ rest). set (ln_children (node g i)) \<subseteq> set ((done @ [q]) @ rest)"
    by blast
  show ?case
    using rest new(1) lg_wf_deref [OF wf q(2)] inner by (intro exI [of _ "q # rest"]) auto
qed

primrec call_query :: "free_call \<Rightarrow> int" where
  "call_query (FreePersistent q b off) = q"
| "call_query (UpdateInputPtr q p first) = q"
| "call_query (FreeBuffer q p) = q"
| "call_query (UpdateOutputPtr q p) = q"

lemma tryToFree_query: "c \<in> set (tryToFree n) \<Longrightarrow> call_query c = ln_query n"
  by (auto simp: tryToFree_def split: if_splits)

lemma freePersistentState_order:
  assumes "lg_ordered g" and "qId < lg_vertices g" and "lg_isValid g"
  shows "\<exists>order. freePersistentState g qId
           = Inr (concat (map (\<lambda>i. tryToFree (node g i)) order))
    \<and> distinct order \<and> set order = (upstream g)\<^sup>* `` {qId}"
proof -
  let ?v = "(replicate (qId + 1) False)[qId := True]"
  have marks: "length ?v = Suc qId" "\<forall>i \<le> qId. ?v ! i \<longleftrightarrow> i \<in> set [] \<union> set [qId]"
    by (auto simp: nth_list_update simp del: replicate_Suc)
  obtain order where order: "free_loop g ?v [qId] []
      = Inr ([] @ concat (map (\<lambda>i. tryToFree (node g i)) order))"
    "distinct ([] @ order)" "set [qId] \<subseteq> set ([] @ order)"
    "set ([] @ order) \<subseteq> (upstream g)\<^sup>* `` {qId}"
    "\<forall>i \<in> set ([] @ order). set (ln_children (node g i)) \<subseteq> set ([] @ order)"
    using free_loop_visits [OF assms(1,2), of ?v "[]" "[qId]" "[]"] marks by fastforce
  have "i \<in> set order" if "(qId, i) \<in> (upstream g)\<^sup>*" for i
    using that order(3,5) by (induction rule: rtrancl_induct) (auto simp: upstream_def)
  then have "set order = (upstream g)\<^sup>* `` {qId}" using order(4) by auto
  then show ?thesis using order assms(2,3) by (intro exI [of _ order]) (simp add: freePersistentState_def)
qed

lemma upstream_bound:
  assumes "lg_ordered g" "qId < lg_vertices g" "(qId, i) \<in> (upstream g)\<^sup>*"
  shows "i < lg_vertices g"
  using assms(3,2)
proof (induction rule: rtrancl_induct)
  case (step y z)
  then have "y < lg_vertices g" "z \<in> set (ln_children (node g y))" by (auto simp: upstream_def)
  then have "z < y" using assms(1) unfolding lg_ordered_def by blast
  with \<open>y < lg_vertices g\<close> show ?case by simp
qed

lemma calls_of_query:
  assumes "\<And>i. i \<in> set order \<Longrightarrow> ln_query (f i) = int i" and "distinct order"
  shows "filter (\<lambda>c. call_query c = int i) (concat (map (\<lambda>i. tryToFree (f i)) order)) = (if i \<in> set order then tryToFree (f i) else [])"
  using assms
proof (induction order)
  case (Cons j order)
  have "filter (\<lambda>c. call_query c = int i) (tryToFree (f j)) = (if i = j then tryToFree (f j) else [])"
    using Cons.prems(1) [of j] tryToFree_query [of _ "f j"] by (auto simp: filter_empty_conv filter_id_conv)
  then show ?case using Cons by auto
qed simp

text \<open>
  C40. On a valid graph of a pipeline, whose queries have ids in the order of the graph, freeing the
  persistent state up to query \<open>qId\<close> returns. It makes calls for \<open>qId\<close> and its direct and indirect
  upstream queries only, and for each of them exactly these, in this order: for the first and then
  for the second input, when its pointer is set, the release in the file store, when the offset is
  set too, the new input pointer of the operator, and the release of the query's first buffer up to
  this pointer (of the first one for the second input too); then the new output pointer, when it
  is set.
\<close>

theorem freePersistentState_visits_upstream:
  assumes "lg_ordered g" and "qId < lg_vertices g" and "lg_isValid g"
  shows "\<exists>calls. freePersistentState g qId = Inr calls
    \<and> (\<forall>c \<in> set calls. \<exists>i. (qId, i) \<in> (upstream g)\<^sup>* \<and> call_query c = int i)
    \<and> (\<forall>i. (qId, i) \<in> (upstream g)\<^sup>* \<longrightarrow> filter (\<lambda>c. call_query c = int i) calls
        = (case node g i of n \<Rightarrow>
             (if ln_freePtr1 n = INT_MIN then []
              else (if ln_freeOffset1 n = INT_MIN then [] else [FreePersistent (int i) 0 (ln_freeOffset1 n)])
                @ [UpdateInputPtr (int i) (ln_freePtr1 n) True, FreeBuffer (int i) (ln_freePtr1 n)])
           @ (if ln_freePtr2 n = INT_MIN then []
              else (if ln_freeOffset2 n = INT_MIN then [] else [FreePersistent (int i) 1 (ln_freeOffset2 n)])
                @ [UpdateInputPtr (int i) (ln_freePtr2 n) False, FreeBuffer (int i) (ln_freePtr2 n)])
           @ (if ln_outputPtr n = INT_MIN then [] else [UpdateOutputPtr (int i) (ln_outputPtr n)])))"
proof -
  obtain order where order: "freePersistentState g qId = Inr (concat (map (\<lambda>i. tryToFree (node g i)) order))"
    "distinct order" "set order = (upstream g)\<^sup>* `` {qId}" using freePersistentState_order [OF assms] by blast
  have q: "ln_query (node g i) = int i" if "(qId, i) \<in> (upstream g)\<^sup>*" for i
    using upstream_bound [OF assms(1,2) that] assms(1) by (simp add: lg_ordered_def)
  have calls: "filter (\<lambda>c. call_query c = int i) (concat (map (\<lambda>i. tryToFree (node g i)) order)) = tryToFree (node g i)"
    if "(qId, i) \<in> (upstream g)\<^sup>*" for i
    using calls_of_query [of order "node g" i] q order(2,3) that by auto
  have "\<exists>i. (qId, i) \<in> (upstream g)\<^sup>* \<and> call_query c = int i"
    if "c \<in> set (concat (map (\<lambda>i. tryToFree (node g i)) order))" for c
    using that order(3) q by (auto dest!: tryToFree_query)
  then show ?thesis
  proof (intro exI [of _ "concat (map (\<lambda>i. tryToFree (node g i)) order)"] conjI ballI allI impI order(1), goal_cases)
    case (2 i)
    show ?case unfolding calls [OF 2(2)] by (simp add: tryToFree_def q [OF 2(2)])
  qed
qed

section \<open>Recycled graphs are clean\<close>

definition same_shape :: "LineageGraph \<Rightarrow> LineageGraph \<Rightarrow> bool" where
  "same_shape t g \<longleftrightarrow> lg_vertices g = lg_vertices t \<and> lg_wf g \<and>
     map (map_option clearNode) (lg_graph g) = map (map_option clearNode) (lg_graph t)"

text \<open>A clean copy of a template: its shape, with no pointer set and not valid.\<close>

definition is_clean :: "LineageGraph \<Rightarrow> LineageGraph \<Rightarrow> bool" where
  "is_clean t g \<longleftrightarrow> lg_vertices g = lg_vertices t \<and> \<not> lg_isValid g
     \<and> lg_graph g = map (map_option clearNode) (lg_graph t)"

definition pool_clean :: "LineageGraphFactory \<Rightarrow> bool" where
  "pool_clean f \<longleftrightarrow> lf_isReady f \<and>
     (\<exists>t. lf_graph f = Some t \<and> lg_ordered t \<and> (\<forall>(g, others) \<in> set (lf_pool f). is_clean t g))"

lemma clearNode_idem [simp]: "clearNode (clearNode n) = clearNode n"
  by (simp add: clearNode_def)

lemma copyNode_clears:
  assumes "\<forall>c \<in> set (ln_children n). c \<le> length copy \<and> deref orig c = Inr (f c) \<and> ln_query (f c) = int c"
  shows "copyNode orig (Some n) copy = Inr (copy @ [Some (clearNode n)])"
proof -
  have "rfold (\<lambda>c m. rbind (deref orig c) (\<lambda>cn.
           if 0 \<le> ln_query cn \<and> ln_query cn \<le> int (length copy)
           then Inr (addChild m (nat (ln_query cn))) else Inl Undefined)) cs m
        = Inr (m\<lparr>ln_children := ln_children m @ cs\<rparr>)"
    if "set cs \<subseteq> set (ln_children n)" for cs m
    using that
  proof (induction cs arbitrary: m)
    case (Cons c cs)
    with assms show ?case by (auto simp: addChild_def)
  qed simp
  from this [of "ln_children n" "freshNode (ln_query n)"]
  show ?thesis by (simp add: copyNode_def newLineageNode_def clearNode_def)
qed

lemma copyNodes_clears:
  assumes "lg_ordered g" and "lg_graph g = pre @ suf"
  shows "rfold (copyNode (lg_graph g)) suf (map (map_option clearNode) pre)
    = Inr (map (map_option clearNode) (lg_graph g))"
  using assms(2)
proof (induction suf arbitrary: pre)
  case (Cons v suf)
  let ?i = "length pre"
  have wf: "lg_wf g" and i: "?i < lg_vertices g"
    using assms(1) Cons.prems by (auto simp: lg_ordered_def lg_wf_def)
  obtain n where n: "v = Some n"
    using wf Cons.prems by (cases v) (auto simp: lg_wf_def)
  then have node: "node g ?i = n" using Cons.prems by (simp add: nth_append)
  have ch: "\<forall>c \<in> set (ln_children n). c < ?i"
    using assms(1) i node by (auto simp: lg_ordered_def)
  then have "\<forall>c \<in> set (ln_children n). c \<le> length (map (map_option clearNode) pre)
      \<and> deref (lg_graph g) c = Inr (node g c) \<and> ln_query (node g c) = int c"
    using assms(1) i lg_wf_deref [OF wf] by (fastforce simp: lg_ordered_def)
  then have "copyNode (lg_graph g) v (map (map_option clearNode) pre)
      = Inr (map (map_option clearNode) (pre @ [v]))"
    unfolding n by (subst copyNode_clears) auto
  then show ?case using Cons.IH [of "pre @ [v]"] Cons.prems by simp
qed simp

lemma copyLineageGraph_clean:
  assumes "lg_ordered t"
  obtains g where "copyLineageGraph t = Inr g" and "is_clean t g" and "lg_clockVector g = []"
proof
  let ?g = "\<lparr>lg_isValid = False, lg_vertices = lg_vertices t,
    lg_graph = map (map_option clearNode) (lg_graph t), lg_clockVector = []\<rparr>"
  show "copyLineageGraph t = Inr ?g"
    using copyNodes_clears [OF assms, of "[]" "lg_graph t"] assms
    by (simp add: copyLineageGraph_def lg_ordered_def lg_wf_def)
  show "is_clean t ?g" "lg_clockVector ?g = []" by (simp_all add: is_clean_def)
qed

lemma clearGraph_clean:
  assumes "same_shape t g"
  obtains g' where "clearGraph g = Inr g'" and "is_clean t g'"
  using assms that by (auto simp: clearGraph_def same_shape_def is_clean_def lg_wf_def)

lemma popGraph_clean:
  assumes "lf_graph f = Some t" and "lg_ordered t" and "\<forall>(g, others) \<in> set pool. is_clean t g"
  shows "\<exists>g f'. popGraph pool f = Inr (g, f') \<and> is_clean t g \<and> lf_graph f' = Some t
    \<and> lf_isReady f' = lf_isReady f \<and> set (lf_pool f') \<subseteq> set pool"
  using assms(3)
proof (induction pool)
  case Nil
  obtain g where "copyLineageGraph t = Inr g" and "is_clean t g"
    using copyLineageGraph_clean [OF assms(2)] by blast
  then show ?case using assms(1) by (simp add: allocGraph_def)
next
  case (Cons a pool)
  then show ?case using assms(1) by (cases a) auto
qed

text \<open>
  The graph pool never leaks state between batches: from a pool of clean graphs a new
  instance is always obtained, it is a clean copy of the pipeline's graph, the pool stays
  clean, and returning any graph of the pipeline's shape keeps it clean.
\<close>

theorem newInstance_clean:
  assumes "pool_clean f"
  shows "\<exists>g f'. newInstance f = Inr (g, f') \<and> is_clean (the (lf_graph f)) g \<and> pool_clean f'
    \<and> lf_graph f' = lf_graph f
    \<and> (\<forall>h others. same_shape (the (lf_graph f)) h \<longrightarrow>
         (\<exists>f''. freeGraph h others f' = Inr f'' \<and> pool_clean f''
            \<and> length (lf_pool f'') = Suc (length (lf_pool f'))))"
proof -
  obtain t where t: "lf_isReady f" "lf_graph f = Some t" "lg_ordered t"
    "\<forall>(g, others) \<in> set (lf_pool f). is_clean t g"
    using assms by (auto simp: pool_clean_def)
  obtain g f' where g: "popGraph (lf_pool f) f = Inr (g, f')" "is_clean t g" "lf_graph f' = Some t"
    "lf_isReady f'" "set (lf_pool f') \<subseteq> set (lf_pool f)"
    using popGraph_clean [OF t(2,3,4)] t(1) by auto
  have pc: "pool_clean f'" using g t(3,4) by (auto simp: pool_clean_def)
  have "\<exists>f''. freeGraph h others f' = Inr f'' \<and> pool_clean f''
      \<and> length (lf_pool f'') = Suc (length (lf_pool f'))" if shape: "same_shape t h" for h others
  proof -
    obtain h' where "clearGraph h = Inr h'" "is_clean t h'" using clearGraph_clean [OF shape] .
    then show ?thesis using g pc by (auto simp: freeGraph_def pool_clean_def)
  qed
  then show ?thesis using g t pc by (intro exI [of _ g] exI [of _ f']) (simp add: newInstance_def)
qed

section \<open>Serialisation\<close>


lemma write_clock_writes:
  "write_clock (Some n) (int (length pre), pre @ a # b # c # suf)
    = Inr (int (length pre) + 3, pre @ node_clock n @ suf)"
  by (simp add: write_clock_def vset_def nat_add_distrib list_update_append node_clock_def)

lemma write_clocks:
  assumes "None \<notin> set ns" and "length cv = 3 * length ns"
  shows "rfold write_clock ns (int (length pre), pre @ cv)
    = Inr (int (length pre + 3 * length ns), pre @ concat (map (\<lambda>n. node_clock (the n)) ns))"
  using assms
proof (induction ns arbitrary: pre cv)
  case (Cons l ns)
  obtain n where n: "l = Some n" using Cons.prems(1) by (cases l) auto
  obtain a b c cv' where cv: "cv = a # b # c # cv'" "length cv' = 3 * length ns"
    using Cons.prems(2) by (auto simp: length_Suc_conv numeral_3_eq_3)
  let ?pre = "pre @ node_clock n"
  have len: "int (length pre) + 3 = int (length ?pre)" by (simp add: node_clock_def)
  have "rfold write_clock (l # ns) (int (length pre), pre @ cv)
      = rfold write_clock ns (int (length ?pre), ?pre @ cv')"
    using write_clock_writes [of n pre a b c cv'] len by (simp add: cv(1) n)
  also have "\<dots> = Inr (int (length ?pre + 3 * length ns), ?pre @ concat (map (\<lambda>n. node_clock (the n)) ns))"
    using Cons.prems cv(2) by (intro Cons.IH) auto
  finally show ?case using n by (simp add: node_clock_def algebra_simps)
qed simp

lemma graph_clock_alt:
  "lg_wf g \<Longrightarrow> graph_clock g = concat (map (\<lambda>n. node_clock (the n)) (lg_graph g))"
  by (auto simp: graph_clock_def lg_wf_def intro!: arg_cong [where f = concat] nth_equalityI)

text \<open>
  Serialising a graph whose clock vector has three entries per query, as the constructor
  allocates it, stores the vector clock of the pipeline and changes nothing else.
\<close>

theorem serialize_stores_clock:
  assumes "lg_wf g" and "length (lg_clockVector g) = lg_vertices g * 3"
  shows "serialize g = Inr (g\<lparr>lg_clockVector := graph_clock g\<rparr>)"
  using write_clocks [of "lg_graph g" "lg_clockVector g" "[]"] assms
  by (simp add: serialize_def graph_clock_alt lg_wf_def)

text \<open>
  A graph obtained from the pool by copying the pipeline's graph cannot be serialised: the
  copy constructor leaves the clock vector empty, so \<open>serialize\<close> writes outside it.
\<close>

theorem serialize_copy_undefined:
  assumes "lg_ordered t"
  shows "\<exists>g. copyLineageGraph t = Inr g \<and> serialize g = Inl Undefined"
proof -
  obtain g where g: "copyLineageGraph t = Inr g" "is_clean t g" "lg_clockVector g = []"
    using copyLineageGraph_clean [OF assms] .
  obtain n ns where "lg_graph t = Some n # ns"
    using assms by (cases "lg_graph t"; cases "hd (lg_graph t)") (auto simp: lg_ordered_def lg_wf_def)
  then have "serialize g = Inl Undefined"
    using g(2,3) by (simp add: serialize_def is_clean_def write_clock_def vset_def)
  then show ?thesis using g(1) by blast
qed

section \<open>A pipeline of three queries\<close>

text \<open>Two sources, the queries 0 and 1, joined by the query 2.\<close>

definition demoQueries :: "query_info list" where
  "demoQueries = [\<lparr>qi_id = 0, qi_upstream = []\<rparr>, \<lparr>qi_id = 1, qi_upstream = []\<rparr>,
                  \<lparr>qi_id = 2, qi_upstream = [0, 1]\<rparr>]"

definition demoGraph :: LineageGraph where
  "demoGraph = \<lparr>lg_isValid = True, lg_vertices = 3,
     lg_graph = [Some ((freshNode 0)\<lparr>ln_freePtr1 := 31, ln_freeOffset1 := 32\<rparr>), Some (freshNode 1),
       Some ((freshNode 2)\<lparr>ln_children := [0, 1], ln_freePtr1 := 15, ln_freePtr2 := 23, ln_outputPtr := 64\<rparr>)],
     lg_clockVector = replicate 9 0\<rparr>"

lemma less3_cases: "i < 3 \<longleftrightarrow> i = 0 \<or> i = 1 \<or> i = (2::nat)"
  by auto

lemma demoGraph_ordered: "lg_ordered demoGraph" and demoGraph_wf: "lg_wf demoGraph"
  by (auto simp: lg_ordered_def lg_wf_def demoGraph_def newLineageNode_def less3_cases)

lemma demoGraph_sel [simp]: "lg_vertices demoGraph = 3" "lg_isValid demoGraph"
  by (simp_all add: demoGraph_def)

text \<open>The same pipeline with a later offset of query 0.\<close>

definition laterGraph :: LineageGraph where
  "laterGraph = demoGraph\<lparr>lg_graph := (lg_graph demoGraph)[0 := Some ((freshNode 0)\<lparr>ln_freePtr1 := 47, ln_freeOffset1 := 48\<rparr>)]\<rparr>"

lemma laterGraph_wf: "lg_wf laterGraph" "lg_vertices laterGraph = lg_vertices demoGraph"
  by (simp_all add: lg_wf_def laterGraph_def demoGraph_def)

theorem mergeGraphs_joins_clocks_witness:
  "\<exists>m. mergeGraphs demoGraph (Some laterGraph) = Inr m \<and> lg_wf m \<and> lg_vertices m = 3
    \<and> take 3 (graph_clock m) = [48, INT_MIN, INT_MIN] \<and> ln_freePtr1 (node m 0) = 47 \<and> ln_freePtr1 (node m 2) = 15"
proof -
  obtain m where m: "mergeGraphs demoGraph (Some laterGraph) = Inr m" "lg_wf m" "lg_vertices m = 3"
    "graph_clock m = map2 max (graph_clock demoGraph) (graph_clock laterGraph)"
    and p: "\<forall>v < 3. ln_freePtr1 (node m v) = (if ln_freeOffset1 (node demoGraph v) < ln_freeOffset1 (node laterGraph v)
           then ln_freePtr1 (node laterGraph v) else ln_freePtr1 (node demoGraph v))"
    using mergeGraphs_joins_clocks [OF demoGraph_wf laterGraph_wf] by auto
  have "take 3 (graph_clock m) = [48, INT_MIN, INT_MIN]"
    unfolding m(4) by (simp add: INT_MIN_def graph_clock_def node_clock_def laterGraph_def demoGraph_def newLineageNode_def numeral_3_eq_3)
  moreover have "ln_freePtr1 (node m 0) = 47" "ln_freePtr1 (node m 2) = 15"
    using p [rule_format, of 0] p [rule_format, of 2] by (simp_all add: laterGraph_def demoGraph_def newLineageNode_def)
  ultimately show ?thesis using m(1-3) by blast
qed

theorem freePersistentState_visits_upstream_witness:
  "\<exists>calls. freePersistentState demoGraph 2 = Inr calls
    \<and> filter (\<lambda>c. call_query c = int 2) calls = [UpdateInputPtr 2 15 True, FreeBuffer 2 15, UpdateInputPtr 2 23 False, FreeBuffer 2 23,
        UpdateOutputPtr 2 64]
    \<and> filter (\<lambda>c. call_query c = int 0) calls = [FreePersistent 0 0 32, UpdateInputPtr 0 31 True, FreeBuffer 0 31]"
proof -
  have "(2, 0) \<in> (upstream demoGraph)\<^sup>*" by (rule r_into_rtrancl) (simp add: upstream_def demoGraph_def)
  moreover have "INT_MIN < 0" by (simp add: INT_MIN_def)
  moreover obtain calls where c: "freePersistentState demoGraph 2 = Inr calls"
    and f: "\<And>i. (2, i) \<in> (upstream demoGraph)\<^sup>* \<Longrightarrow> filter (\<lambda>c. call_query c = int i) calls
        = (case node demoGraph i of n \<Rightarrow>
             (if ln_freePtr1 n = INT_MIN then []
              else (if ln_freeOffset1 n = INT_MIN then [] else [FreePersistent (int i) 0 (ln_freeOffset1 n)])
                @ [UpdateInputPtr (int i) (ln_freePtr1 n) True, FreeBuffer (int i) (ln_freePtr1 n)])
           @ (if ln_freePtr2 n = INT_MIN then []
              else (if ln_freeOffset2 n = INT_MIN then [] else [FreePersistent (int i) 1 (ln_freeOffset2 n)])
                @ [UpdateInputPtr (int i) (ln_freePtr2 n) False, FreeBuffer (int i) (ln_freePtr2 n)])
           @ (if ln_outputPtr n = INT_MIN then [] else [UpdateOutputPtr (int i) (ln_outputPtr n)]))"
    using freePersistentState_visits_upstream [OF demoGraph_ordered, of 2] by auto
  moreover have "filter (\<lambda>c. call_query c = int 2) calls = [UpdateInputPtr 2 15 True, FreeBuffer 2 15, UpdateInputPtr 2 23 False,
      FreeBuffer 2 23, UpdateOutputPtr 2 64]"
    by (subst f [OF rtrancl.rtrancl_refl]) (use calculation(2) in \<open>simp add: demoGraph_def newLineageNode_def\<close>)
  moreover have "filter (\<lambda>c. call_query c = int 0) calls = [FreePersistent 0 0 32, UpdateInputPtr 0 31 True, FreeBuffer 0 31]"
    by (subst f [OF calculation(1)]) (use calculation(2) in \<open>simp add: demoGraph_def newLineageNode_def\<close>)
  ultimately show ?thesis by blast
qed

theorem newInstance_clean_witness:
  "\<exists>g f'. newInstance \<lparr>lf_isReady = True, lf_count = 0, lf_graph = Some demoGraph, lf_pool = []\<rparr>
     = Inr (g, f') \<and> is_clean demoGraph g"
  using newInstance_clean [of "\<lparr>lf_isReady = True, lf_count = 0, lf_graph = Some demoGraph, lf_pool = []\<rparr>"]
    demoGraph_ordered
  by (fastforce simp: pool_clean_def)

theorem serialize_stores_clock_witness:
  "serialize demoGraph = Inr (demoGraph\<lparr>lg_clockVector := graph_clock demoGraph\<rparr>)
    \<and> length (lg_clockVector demoGraph) = lg_vertices demoGraph * 3"
  using serialize_stores_clock [OF demoGraph_wf] by (simp add: demoGraph_def)

theorem serialize_copy_undefined_witness:
  "\<exists>g. copyLineageGraph demoGraph = Inr g \<and> serialize g = Inl Undefined"
  by (rule serialize_copy_undefined [OF demoGraph_ordered])

lemma demoQueries_graph:
  "\<exists>g. newLineageGraph demoQueries = Inr g \<and> map (map_option clearNode) (lg_graph g)
     = map (map_option clearNode) (lg_graph demoGraph)"
  by (simp add: newLineageGraph_def bfs_def demoQueries_def demoGraph_def bfs_visit_def deref_def
      mark_pair clearNode_def newLineageNode_def addChild_def Let_def numeral_2_eq_2)

end
