(* ===== verification/SystemUtils.thy ===== *)
theory SystemUtils
  imports Prelude
begin

text \<open>
  The configuration constants that steer the modelled components (\<open>utils/SystemConf.cpp\<close>)
  and the timestamp and alignment helpers of \<open>utils/Utils.cpp\<close>.
\<close>

section \<open>Configuration\<close>

record SystemConf =
  BATCH_SIZE :: int
  BUNDLE_SIZE :: int
  INPUT_SIZE :: int
  PARTIAL_WINDOWS :: int
  HASH_TABLE_SIZE :: int
  BLOCK_SIZE :: int
  CIRCULAR_BUFFER_SIZE :: int
  UNBOUNDED_BUFFER_SIZE :: int
  OUTPUT_BUFFER_SIZE :: int
  WORKER_THREADS :: int
  SLOTS :: int
  LATENCY_ON :: bool
  CREATE_MERGE_WITH_CHECKPOINTS :: bool
  LINEAGE_ON :: bool
  RECOVER :: bool

definition defaultConf :: SystemConf where
  "defaultConf =
     \<lparr>BATCH_SIZE = 2 * 64 * 1024, BUNDLE_SIZE = 2 * 64 * 1024, INPUT_SIZE = 2 * 64 * 1024, PARTIAL_WINDOWS = 1024,
      HASH_TABLE_SIZE = 512, BLOCK_SIZE = 16 * 1024, CIRCULAR_BUFFER_SIZE = 4 * 1048576,
      UNBOUNDED_BUFFER_SIZE = 2 * 4 * 64 * 1024, OUTPUT_BUFFER_SIZE = 1048576, WORKER_THREADS = 1, SLOTS = 256,
      LATENCY_ON = False, CREATE_MERGE_WITH_CHECKPOINTS = False, LINEAGE_ON = False,
      RECOVER = False\<rparr>"

section \<open>Packed timestamps\<close>

text \<open>
  With latency measurements on, the timestamp of a tuple carries the system time in its upper
  half. The shifts and casts work on 64-bit words; a narrowing cast to \<open>int\<close> and back to
  \<open>long\<close> keeps the low 32 bits and sign-extends them.
\<close>

definition pack :: "64 word \<Rightarrow> 64 word \<Rightarrow> 64 word" where
  "pack systemTimestamp tupleTimestamp = push_bit 32 systemTimestamp OR tupleTimestamp"

definition getSystemTimestamp :: "64 word \<Rightarrow> 32 word" where
  "getSystemTimestamp value = ucast (signed_drop_bit 32 value)"

definition getTupleTimestamp :: "64 word \<Rightarrow> 32 word" where
  "getTupleTimestamp value = ucast value"

text \<open>The same on the \<open>long\<close> values the buffers hold.\<close>

definition packLong :: "int \<Rightarrow> int \<Rightarrow> int" where
  "packLong s t = sint (pack (word_of_int s) (word_of_int t))"

definition tupleTimestampLong :: "int \<Rightarrow> int" where
  "tupleTimestampLong v = sint (getTupleTimestamp (word_of_int v))"

definition systemTimestampLong :: "int \<Rightarrow> int" where
  "systemTimestampLong v = sint (getSystemTimestamp (word_of_int v))"

lemma bit_pack_low:
  "n < 32 \<Longrightarrow> bit (pack s t) n \<longleftrightarrow> bit t n"
  by (auto simp: pack_def bit_or_iff bit_push_bit_iff)

text \<open>
  Packing loses nothing when the tuple timestamp is a non-negative \<open>int\<close>: the low half
  reads back as the tuple timestamp and the high half as the low 32 bits of the system time.
\<close>

theorem pack_roundtrip:
  fixes s t :: "64 word"
  assumes "unat t < 2 ^ 31"
  shows "getTupleTimestamp (pack s t) = ucast t \<and> getSystemTimestamp (pack s t) = ucast s"
proof
  show "getTupleTimestamp (pack s t) = ucast t"
    by (rule bit_eqI) (simp add: getTupleTimestamp_def bit_unsigned_iff bit_pack_low)
next
  have t: "\<not> bit t n" if "31 \<le> n" for n
  proof -
    have "t = take_bit 31 t"
      using assms by (simp add: word_unat_eq_iff unsigned_take_bit_eq take_bit_nat_eq_self)
    then show ?thesis using that by (metis bit_take_bit_iff leD)
  qed
  show "getSystemTimestamp (pack s t) = ucast s"
    by (rule bit_eqI)
      (auto simp: getSystemTimestamp_def bit_unsigned_iff bit_signed_drop_bit_iff pack_def
        bit_or_iff bit_push_bit_iff t)
qed

theorem pack_roundtrip_witness:
  "unat (77 :: 64 word) < 2 ^ 31 \<and> getTupleTimestamp (pack 5 77) = 77 \<and> getSystemTimestamp (pack 5 77) = 5"
  using pack_roundtrip [of 77 5] by simp

text \<open>
  A negative tuple timestamp, sign-extended to 64 bits as the callers pass it, overwrites the
  system time: whatever was packed, the high half reads back as \<open>-1\<close>.
\<close>

theorem pack_negative_clobbers:
  fixes s :: "64 word" and i :: "32 word"
  assumes "sint i < 0"
  shows "getSystemTimestamp (pack s (scast i)) = -1"
proof -
  have "bit (scast i :: 64 word) n" if "32 \<le> n" "n < 64" for n
    using assms that bit_last_iff [of i] by (simp add: bit_signed_iff min_def)
  then show ?thesis
    by (intro bit_eqI)
      (simp add: getSystemTimestamp_def bit_unsigned_iff bit_signed_drop_bit_iff pack_def
        bit_or_iff bit_minus_1_iff)
qed

theorem pack_negative_clobbers_witness:
  "sint (-3 :: 32 word) < 0 \<and> getSystemTimestamp (pack 5 (scast (-3 :: 32 word))) = -1"
  using pack_negative_clobbers [of "-3" 5] by simp

section \<open>Alignment\<close>

definition isLengthAligned :: "int \<Rightarrow> int \<Rightarrow> bool" where
  "isLengthAligned len alignment \<longleftrightarrow> and len (alignment - 1) = 0"

definition isPointerAligned :: "int \<Rightarrow> int \<Rightarrow> bool" where
  "isPointerAligned p alignment \<longleftrightarrow> and p (alignment - 1) = 0"

lemma isLengthAligned_dvd: "is_pow2 a \<Longrightarrow> isLengthAligned n a \<longleftrightarrow> a dvd n"
  by (simp add: isLengthAligned_def mask_simps dvd_eq_mod_eq_0)

end
