(* ===== verification/QuerySlot.thy ===== *)
theory QuerySlot
  imports LineageGraph SystemUtils
begin

text \<open>
  The slot of a query buffer (the struct \<open>Slot\<close> of \<open>buffers/QueryBuffer.h\<close>): one batch-sized
  part of the buffer with its checkpoint state and the lineage graph of the batch in it. The
  graph is stored with the number of its other owners; \<open>m_bufferPtr\<close> is an offset into the
  buffer.
\<close>

record Slot =
  sl_id :: int
  sl_size :: int
  sl_slot :: int
  sl_memcpyFinished :: bool
  sl_numberOfResults :: int
  sl_taskId :: int
  sl_previousSlot :: int
  sl_bufferPtr :: "int option"
  sl_graph :: "(LineageGraph \<times> nat) option"
  sl_ready :: bool

definition newSlot :: Slot where
  "newSlot = \<lparr>sl_id = -1, sl_size = 0, sl_slot = -1, sl_memcpyFinished = False,
     sl_numberOfResults = 0, sl_taskId = -1, sl_previousSlot = -1, sl_bufferPtr = None,
     sl_graph = None, sl_ready = False\<rparr>"

definition sl_setId :: "int \<Rightarrow> int \<Rightarrow> int option \<Rightarrow> Slot \<Rightarrow> Slot" where
  "sl_setId i batchSize bufferPtr s =
     s\<lparr>sl_id := i, sl_size := batchSize, sl_bufferPtr := bufferPtr\<rparr>"

definition sl_setLineageGraph ::
  "(LineageGraph \<times> nat) option \<Rightarrow> LineageGraphFactory \<Rightarrow> Slot \<Rightarrow> (Slot \<times> LineageGraphFactory) res" where
  "sl_setLineageGraph graph f s =
     rbind (case sl_graph s of
              Some (g, others) \<Rightarrow> if others = 0 then freeGraph g 0 f else Inr f
            | None \<Rightarrow> Inr f)
       (\<lambda>f'. Inr (s\<lparr>sl_graph := graph\<rparr>, f'))"

definition sl_getLineageGraph :: "Slot \<Rightarrow> (LineageGraph \<times> nat) option \<times> Slot" where
  "sl_getLineageGraph s = (sl_graph s, s\<lparr>sl_graph := None\<rparr>)"

definition sl_setNumberOfResults :: "Slot \<Rightarrow> Slot" where
  "sl_setNumberOfResults s = s\<lparr>sl_numberOfResults := 1\<rparr>"

definition sl_getNumberOfResults :: "Slot \<Rightarrow> int \<times> Slot" where
  "sl_getNumberOfResults s = (1, s\<lparr>sl_numberOfResults := 1\<rparr>)"

definition sl_setPreviousSlot :: "int \<Rightarrow> Slot \<Rightarrow> Slot res" where
  "sl_setPreviousSlot prev s =
     (if prev \<noteq> 1 \<and> prev \<noteq> 3 then Inl RuntimeError else Inr (s\<lparr>sl_previousSlot := prev\<rparr>))"

definition sl_getPreviousSlot :: "Slot \<Rightarrow> int res" where
  "sl_getPreviousSlot s =
     (if sl_previousSlot s \<noteq> 1 \<and> sl_previousSlot s \<noteq> 3 then Inl RuntimeError
      else Inr (sl_previousSlot s))"

definition sl_setReady :: "Slot \<Rightarrow> Slot" where
  "sl_setReady s = s\<lparr>sl_ready := True\<rparr>"

definition sl_reset :: "Slot \<Rightarrow> Slot" where
  "sl_reset s = s\<lparr>sl_slot := -1, sl_ready := False\<rparr>"

text \<open>The sequence every checkpoint preparation applies to a slot: the slot becomes ready to store.\<close>

definition sl_toCheckpoint :: "Slot \<Rightarrow> Slot res" where
  "sl_toCheckpoint s =
     rbind (sl_setPreviousSlot 3 (sl_reset s)) (\<lambda>s.
       Inr (sl_setNumberOfResults (s\<lparr>sl_slot := 5\<rparr>)))"

lemma sl_toCheckpoint_eq:
  "sl_toCheckpoint s = Inr (s\<lparr>sl_slot := 5, sl_ready := False, sl_previousSlot := 3, sl_numberOfResults := 1\<rparr>)"
  by (simp add: sl_toCheckpoint_def sl_setPreviousSlot_def sl_reset_def sl_setNumberOfResults_def)

end
