(* ===== verification/UnboundedBuffer.thy ===== *)
theory UnboundedBuffer
  imports SystemUtils
begin

text \<open>
  Growable staging buffers and their pools (\<open>buffers/UnboundedQueryBuffer.h\<close>,
  \<open>buffers/UnboundedQueryBufferFactory.h\<close>). A pool of the concurrent queue type is a list,
  popped at the head and extended at the tail.
\<close>

section \<open>The buffer\<close>

record UnboundedQueryBuffer =
  ub_id :: int
  ub_capacity :: int
  ub_position :: int
  ub_buffer :: "byte list"

definition newUnboundedBuffer :: "int \<Rightarrow> int \<Rightarrow> UnboundedQueryBuffer" where
  "newUnboundedBuffer i cap =
     \<lparr>ub_id = i, ub_capacity = cap, ub_position = 0, ub_buffer = replicate (nat cap) 0\<rparr>"

definition ub_setPosition :: "int \<Rightarrow> UnboundedQueryBuffer \<Rightarrow> UnboundedQueryBuffer" where
  "ub_setPosition pos b = b\<lparr>ub_position := pos\<rparr>"

definition ub_clear :: "UnboundedQueryBuffer \<Rightarrow> UnboundedQueryBuffer" where
  "ub_clear b = b\<lparr>ub_buffer := replicate (length (ub_buffer b)) 0\<rparr>"

definition ub_getLong :: "UnboundedQueryBuffer \<Rightarrow> int \<Rightarrow> int res" where
  "ub_getLong b index = rbind (memread (ub_buffer b) (8 * index) 8) (\<lambda>bs. Inr (long_val bs))"

definition ub_putLong :: "UnboundedQueryBuffer \<Rightarrow> int \<Rightarrow> int \<Rightarrow> UnboundedQueryBuffer res" where
  "ub_putLong b index v =
     rbind (memcpy_to (ub_buffer b) (8 * index) (long_bytes v)) (\<lambda>m. Inr (b\<lparr>ub_buffer := m\<rparr>))"

definition ub_putBytes :: "UnboundedQueryBuffer \<Rightarrow> byte list \<Rightarrow> UnboundedQueryBuffer res" where
  "ub_putBytes b vs =
     (if ub_capacity b < ub_position b + int (length vs) then Inl RuntimeError
      else rbind (memcpy_to (ub_buffer b) (ub_position b) vs)
             (\<lambda>m. Inr (b\<lparr>ub_buffer := m, ub_position := ub_position b + int (length vs)\<rparr>)))"

definition ub_wf :: "UnboundedQueryBuffer \<Rightarrow> bool" where
  "ub_wf b \<longleftrightarrow> int (length (ub_buffer b)) = ub_capacity b
     \<and> 0 \<le> ub_position b \<and> ub_position b \<le> ub_capacity b"

definition ub_written :: "UnboundedQueryBuffer \<Rightarrow> byte list" where
  "ub_written b = take (nat (ub_position b)) (ub_buffer b)"

lemma newUnboundedBuffer_wf: "0 \<le> cap \<Longrightarrow> ub_wf (newUnboundedBuffer i cap)"
  by (simp add: ub_wf_def newUnboundedBuffer_def)

section \<open>The pools\<close>

record UnboundedFactory =
  uf_numberOfThreads :: int
  uf_count :: int
  uf_pool :: "UnboundedQueryBuffer list"
  uf_poolCB :: "UnboundedQueryBuffer list list"
  uf_poolNB :: "UnboundedQueryBuffer list list"

definition newUnboundedFactory :: "SystemConf \<Rightarrow> UnboundedFactory" where
  "newUnboundedFactory conf =
     \<lparr>uf_numberOfThreads = WORKER_THREADS conf, uf_count = 0, uf_pool = [],
      uf_poolCB = replicate (nat (WORKER_THREADS conf)) [],
      uf_poolNB = replicate (nat (WORKER_THREADS conf + 1)) []\<rparr>"

definition uf_newInstance ::
  "SystemConf \<Rightarrow> UnboundedFactory \<Rightarrow> UnboundedQueryBuffer \<times> UnboundedFactory" where
  "uf_newInstance conf f =
     (case uf_pool f of
        b # bs \<Rightarrow> (b, f\<lparr>uf_pool := bs\<rparr>)
      | [] \<Rightarrow> (newUnboundedBuffer (to_int32 (uf_count f)) (UNBOUNDED_BUFFER_SIZE conf),
               f\<lparr>uf_count := uf_count f + 1\<rparr>))"

definition uf_free :: "UnboundedQueryBuffer \<Rightarrow> UnboundedFactory \<Rightarrow> UnboundedFactory" where
  "uf_free b f = f\<lparr>uf_pool := uf_pool f @ [ub_setPosition 0 b]\<rparr>"

definition uf_newInstancePid ::
  "SystemConf \<Rightarrow> int \<Rightarrow> UnboundedFactory \<Rightarrow> (UnboundedQueryBuffer \<times> UnboundedFactory) res" where
  "uf_newInstancePid conf pid f =
     (if uf_numberOfThreads f \<le> pid then Inl RuntimeError
      else rbind (vget (uf_poolCB f) pid) (\<lambda>pool.
        case pool of
          b # bs \<Rightarrow> Inr (b, f\<lparr>uf_poolCB := (uf_poolCB f)[nat pid := bs]\<rparr>)
        | [] \<Rightarrow> Inr (newUnboundedBuffer pid (BLOCK_SIZE conf), f\<lparr>uf_count := uf_count f + 1\<rparr>)))"

definition uf_freePid :: "int \<Rightarrow> UnboundedQueryBuffer \<Rightarrow> UnboundedFactory \<Rightarrow> UnboundedFactory res" where
  "uf_freePid pid b f =
     rbind (vget (uf_poolCB f) pid) (\<lambda>pool.
       Inr (f\<lparr>uf_poolCB := (uf_poolCB f)[nat pid := pool @ [ub_setPosition 0 b]]\<rparr>))"

definition uf_newNBInstance ::
  "SystemConf \<Rightarrow> int \<Rightarrow> UnboundedFactory \<Rightarrow> (UnboundedQueryBuffer \<times> UnboundedFactory) res" where
  "uf_newNBInstance conf pid f =
     (if uf_numberOfThreads f + 1 \<le> pid then Inl RuntimeError
      else rbind (vget (uf_poolNB f) pid) (\<lambda>pool.
        case pool of
          b # bs \<Rightarrow> Inr (b, f\<lparr>uf_poolNB := (uf_poolNB f)[nat pid := bs]\<rparr>)
        | [] \<Rightarrow> Inr (newUnboundedBuffer pid (BATCH_SIZE conf), f)))"

definition uf_freeNB :: "int \<Rightarrow> UnboundedQueryBuffer \<Rightarrow> UnboundedFactory \<Rightarrow> UnboundedFactory res" where
  "uf_freeNB pid b f =
     rbind (vget (uf_poolNB f) pid) (\<lambda>pool.
       Inr (f\<lparr>uf_poolNB := (uf_poolNB f)[nat pid := pool @ [ub_setPosition 0 b]]\<rparr>))"

section \<open>Properties\<close>

text \<open>
  Appending to a staging buffer succeeds exactly when the bytes fit into its capacity; then
  the bytes written so far are followed by the new ones and nothing else changes, and
  otherwise the call reports an error.
\<close>

theorem ub_putBytes_appends:
  assumes "ub_wf b"
  shows "if ub_position b + int (length vs) \<le> ub_capacity b
         then \<exists>b'. ub_putBytes b vs = Inr b' \<and> ub_wf b' \<and> ub_written b' = ub_written b @ vs
                \<and> ub_id b' = ub_id b \<and> ub_capacity b' = ub_capacity b
         else ub_putBytes b vs = Inl RuntimeError"
  using assms
  by (auto simp: ub_putBytes_def ub_wf_def ub_written_def memcpy_to_def write_at_def nat_add_distrib)

theorem ub_putBytes_appends_witness:
  "ub_wf (newUnboundedBuffer 3 4) \<and>
   (\<exists>b'. ub_putBytes (newUnboundedBuffer 3 4) [7, 8] = Inr b' \<and> ub_wf b'
      \<and> ub_written b' = ub_written (newUnboundedBuffer 3 4) @ [7, 8])"
proof -
  have wf: "ub_wf (newUnboundedBuffer 3 4)" by (simp add: newUnboundedBuffer_wf)
  show ?thesis
    using wf ub_putBytes_appends [OF wf, of "[7, 8]"] by (auto simp: newUnboundedBuffer_def)
qed

lemma ub_getLong_putLong:
  assumes "ub_putLong b i v = Inr b'" and "- (2 ^ 63) \<le> v" and "v < 2 ^ 63"
  shows "ub_getLong b' i = Inr v"
proof -
  from assms(1) have b: "0 \<le> 8 * i" "8 * i + 8 \<le> int (length (ub_buffer b))"
    "b' = b\<lparr>ub_buffer := write_at (nat (8 * i)) (long_bytes v) (ub_buffer b)\<rparr>"
    by (auto simp: ub_putLong_def mem_simps)
  moreover from b have "take 8 (drop (nat (8 * i)) (write_at (nat (8 * i)) (long_bytes v) (ub_buffer b)))
      = long_bytes v"
    using take_drop_write_at [of "nat (8 * i)" "long_bytes v" "ub_buffer b"] by simp
  ultimately show ?thesis
    using assms(2,3) by (simp add: ub_getLong_def memread_def long_val_long_bytes)
qed

end
