(* ===== verification/ByteQueue.thy ===== *)
theory ByteQueue
  imports Prelude
begin

text \<open>
  What a query relies on when it uses an input buffer: a bounded FIFO queue of bytes whose ends
  are positions of the input stream. The dispatcher appends data with \<open>put\<close>, the result
  handler releases a prefix with \<open>free\<close>, whose argument is the array index of the last byte
  to release.
\<close>

text \<open>
  One operation on a queue, with the sequence of all bytes accepted so far. A \<open>put\<close> that
  returns a negative index was refused; a \<open>free\<close> releases the bytes up to any position \<open>t\<close> that holds a
  byte. The last component of a state says whether some release was of a single byte, for which the
  argument of \<open>free\<close> is the index of the start of the queue.
\<close>

inductive queue_step ::
  "(byte list \<Rightarrow> 'b \<Rightarrow> (int \<times> 'b) res) \<Rightarrow> (int \<Rightarrow> 'b \<Rightarrow> 'b res) \<Rightarrow>
   ('b \<Rightarrow> int) \<Rightarrow> ('b \<Rightarrow> int) \<Rightarrow> ('b \<Rightarrow> int) \<Rightarrow> 'b \<times> byte list \<times> bool \<Rightarrow> 'b \<times> byte list \<times> bool \<Rightarrow> bool"
  for put free startp endp cap where
    step_put: "vs \<noteq> [] \<Longrightarrow> put vs b = Inr (i, b') \<Longrightarrow>
      queue_step put free startp endp cap (b, h, single) (b', if i < 0 then h else h @ vs, single)"
  | step_free: "startp b \<le> t \<Longrightarrow> t < endp b \<Longrightarrow> free (t mod cap b) b = Inr b' \<Longrightarrow>
      queue_step put free startp endp cap (b, h, single) (b', h, single \<or> t = startp b)"

text \<open>
  A list of positions at which prefixes can be released one after the other from start position
  \<open>s\<close>, and the start position after releasing them.
\<close>

primrec spaced :: "int \<Rightarrow> int list \<Rightarrow> bool" where
  "spaced s [] = True"
| "spaced s (t # ts) = (s < t \<and> spaced (t + 1) ts)"

primrec released :: "int \<Rightarrow> int list \<Rightarrow> int" where
  "released s [] = s"
| "released s (t # ts) = released (t + 1) ts"

lemma released_mono: "spaced s ts \<Longrightarrow> s \<le> released s ts"
  by (induction ts arbitrary: s) force+

locale byte_queue =
  fixes put :: "byte list \<Rightarrow> 'b \<Rightarrow> (int \<times> 'b) res"
    and free :: "int \<Rightarrow> 'b \<Rightarrow> 'b res"
    and contents :: "'b \<Rightarrow> byte list"
    and startp :: "'b \<Rightarrow> int"
    and endp :: "'b \<Rightarrow> int"
    and cap :: "'b \<Rightarrow> int"
    and invar :: "'b \<Rightarrow> bool"
  assumes put_room: "invar b \<Longrightarrow> vs \<noteq> [] \<Longrightarrow> endp b + int (length vs) \<le> startp b + cap b \<Longrightarrow>
      \<exists>b'. put vs b = Inr (endp b mod cap b, b') \<and> invar b' \<and> contents b' = contents b @ vs
        \<and> startp b' = startp b \<and> endp b' = endp b + int (length vs) \<and> cap b' = cap b"
    and put_full: "invar b \<Longrightarrow> vs \<noteq> [] \<Longrightarrow> startp b + cap b < endp b + int (length vs) \<Longrightarrow>
      \<exists>b'. put vs b = Inr (-1, b') \<and> invar b' \<and> contents b' = contents b
        \<and> startp b' = startp b \<and> endp b' = endp b \<and> cap b' = cap b"
    and free_prefix: "invar b \<Longrightarrow> startp b < t \<Longrightarrow> t < endp b \<Longrightarrow>
      \<exists>b'. free (t mod cap b) b = Inr b' \<and> invar b'
        \<and> contents b' = drop (nat (t + 1 - startp b)) (contents b)
        \<and> startp b' = t + 1 \<and> endp b' = endp b \<and> cap b' = cap b"
    and contents_length: "invar b \<Longrightarrow> int (length (contents b)) = endp b - startp b"
    and bounds: "invar b \<Longrightarrow> 0 \<le> startp b \<and> startp b \<le> endp b \<and> endp b \<le> startp b + cap b \<and> 0 < cap b"
begin

abbreviation qstep :: "'b \<times> byte list \<times> bool \<Rightarrow> 'b \<times> byte list \<times> bool \<Rightarrow> bool" where
  "qstep \<equiv> queue_step put free startp endp cap"

definition fifo :: "'b \<times> byte list \<Rightarrow> bool" where
  "fifo s = (case s of (b, h) \<Rightarrow>
     invar b \<and> endp b = int (length h) \<and> contents b = drop (nat (startp b)) h)"

lemma fifo_put:
  assumes "fifo (b, h)" and "vs \<noteq> []" and "put vs b = Inr (i, b')"
  shows "fifo (b', if i < 0 then h else h @ vs) \<and> cap b' = cap b"
proof (cases "endp b + int (length vs) \<le> startp b + cap b")
  case True
  have b: "invar b" "endp b = int (length h)" "contents b = drop (nat (startp b)) h"
    using assms(1) by (auto simp: fifo_def)
  have "0 \<le> endp b mod cap b" "nat (startp b) \<le> length h" using bounds [OF b(1)] b(2) by auto
  with put_room [OF b(1) assms(2) True] assms(3) b show ?thesis
    by (auto simp: fifo_def)
next
  case False
  then show ?thesis
    using put_full [of b vs] assms by (auto simp: fifo_def)
qed

lemma fifo_free:
  assumes "fifo (b, h)" and "startp b < t" and "t < endp b" and "free (t mod cap b) b = Inr b'"
  shows "fifo (b', h) \<and> cap b' = cap b"
proof -
  have b: "invar b" "endp b = int (length h)" "contents b = drop (nat (startp b)) h"
    using assms(1) by (auto simp: fifo_def)
  have "nat (t + 1 - startp b) + nat (startp b) = nat (t + 1)"
    using assms(2) bounds [OF b(1)] by linarith
  then show ?thesis
    using free_prefix [OF b(1) assms(2,3)] assms(4) b by (auto simp: fifo_def drop_drop)
qed

text \<open>The queue is right in a run without releases of a single byte.\<close>

definition fifo_or_single :: "int \<Rightarrow> 'b \<times> byte list \<times> bool \<Rightarrow> bool" where
  "fifo_or_single c s = (case s of (b, h, single) \<Rightarrow> single \<or> fifo (b, h) \<and> cap b = c)"

lemma fifo_step: "qstep s s' \<Longrightarrow> fifo_or_single c s \<Longrightarrow> fifo_or_single c s'"
proof (induction rule: queue_step.induct)
  case (step_put vs b i b' h single)
  then show ?case using fifo_put [of b h vs i b'] by (auto simp: fifo_or_single_def)
next
  case (step_free b t b' h single)
  then show ?case using fifo_free [of b h t b'] by (auto simp: fifo_or_single_def)
qed

lemma fifo_run:
  assumes "qstep\<^sup>*\<^sup>* (b, h, False) (b', h', False)" and "fifo (b, h)"
  shows "fifo (b', h') \<and> cap b' = cap b"
proof -
  have "fifo_or_single (cap b) s'" if "qstep\<^sup>*\<^sup>* (b, h, False) s'" for s'
    using that
  proof (induction rule: rtranclp_induct)
    case base
    then show ?case using assms(2) by (simp add: fifo_or_single_def)
  next
    case (step y z)
    then show ?case by (blast intro: fifo_step)
  qed
  from this [OF assms(1)] show ?thesis by (simp add: fifo_or_single_def)
qed

text \<open>No operation of a run is an error: a put and a legal free are always defined.\<close>

lemma fifo_progress:
  assumes "fifo s"
  shows "vs \<noteq> [] \<Longrightarrow> \<exists>i b'. put vs (fst s) = Inr (i, b')"
    and "startp (fst s) < t \<Longrightarrow> t < endp (fst s) \<Longrightarrow> \<exists>b'. free (t mod cap (fst s)) (fst s) = Inr b'"
proof -
  have b: "invar (fst s)" using assms by (cases s) (auto simp: fifo_def)
  show "\<exists>i b'. put vs (fst s) = Inr (i, b')" if "vs \<noteq> []"
  proof (cases "endp (fst s) + int (length vs) \<le> startp (fst s) + cap (fst s)")
    case True
    then show ?thesis using put_room [OF b that] by blast
  next
    case False
    then show ?thesis using put_full [OF b that] by force
  qed
  show "\<exists>b'. free (t mod cap (fst s)) (fst s) = Inr b'" if "startp (fst s) < t" "t < endp (fst s)"
    using free_prefix [OF b that] by blast
qed

text \<open>Releasing several prefixes in a row releases up to the last position.\<close>

lemma free_sequence:
  assumes "invar b" and "spaced (startp b) ts" and "\<forall>t\<in>set ts. t < endp b" and "c = cap b"
  shows "\<exists>b'. rfold (\<lambda>t. free (t mod c)) ts b = Inr b' \<and> invar b' \<and> endp b' = endp b \<and> cap b' = cap b
    \<and> startp b' = released (startp b) ts
    \<and> contents b' = drop (nat (released (startp b) ts - startp b)) (contents b)"
  using assms
proof (induction ts arbitrary: b)
  case (Cons t ts)
  obtain b1 where b1: "free (t mod cap b) b = Inr b1" "invar b1" "startp b1 = t + 1" "endp b1 = endp b" "cap b1 = cap b"
      "contents b1 = drop (nat (t + 1 - startp b)) (contents b)"
    using free_prefix [of b t] Cons.prems by auto
  obtain b' where "rfold (\<lambda>t. free (t mod c)) ts b1 = Inr b'" "invar b'" "endp b' = endp b1" "cap b' = cap b1"
      "startp b' = released (t + 1) ts" "contents b' = drop (nat (released (t + 1) ts - (t + 1))) (contents b1)"
    using Cons.IH [of b1] b1 Cons.prems by auto
  moreover have "t + 1 \<le> released (t + 1) ts" using Cons.prems(2) by (auto intro: released_mono)
  moreover have "startp b < t" using Cons.prems(2) by simp
  ultimately show ?case
    using b1 Cons.prems(4) by (auto simp: drop_drop nat_add_distrib [symmetric])
qed simp

lemma fifo_contents:
  assumes "fifo (b, h)"
  shows "contents b = drop (nat (startp b)) h"
    and "int (length h) = endp b"
    and "int (length (contents b)) \<le> cap b"
  using assms bounds [of b] contents_length [of b] by (auto simp: fifo_def)

end

end
