(* ===== verification/CircularBuffer.thy ===== *)
theory CircularBuffer
  imports QuerySlot UnboundedBuffer ByteQueue
begin

text \<open>
  The circular input buffer of a query (\<open>buffers/QueryBuffer.h\<close>,
  \<open>buffers/CircularQueryBuffer.h\<close>). \<open>qb_startP\<close> and \<open>qb_endP\<close> are positions in the unbounded
  input stream; \<open>normalise\<close> maps a position to an index of the byte array. \<open>qb_temp\<close> is the
  producer's cached copy of the start position.
\<close>

section \<open>State and construction\<close>

record QueryBuffer =
  qb_startP :: int
  qb_endP :: int
  qb_capacity :: int
  qb_mask :: int
  qb_wraps :: nat
  qb_bytesProcessed :: int
  qb_tuplesProcessed :: int
  qb_tasksProcessed :: int
  qb_temp :: int
  qb_id :: int
  qb_isNuma :: bool
  qb_tupleSize :: int
  qb_copyDataOnInsert :: bool
  qb_filesystem :: bool
  qb_batchSize :: int
  qb_numberOfSlots :: int
  qb_emptySlots :: int
  qb_slots :: "Slot list"
  qb_nextSlotToWrite :: int
  qb_numberOfSlotsToRecover :: int
  qb_numberOfSlotsToFree :: int
  qb_buffer :: "byte list"

text \<open>
  The doubling loop on an unsigned 64-bit \<open>size_t\<close>. It does not end for arguments above
  \<open>2 ^ 63\<close>, where the doubled power wraps around to zero.
\<close>

partial_function (option) pow2_loop :: "nat \<Rightarrow> nat \<Rightarrow> nat option" where
  "pow2_loop p v = (if p < v then pow2_loop (p * 2 mod 2 ^ 64) v else Some p)"

definition upper_power_of_two :: "nat \<Rightarrow> nat option" where
  "upper_power_of_two v = pow2_loop 1 v"

definition setupSlots :: "int \<Rightarrow> int \<Rightarrow> Slot list \<Rightarrow> Slot list res" where
  "setupSlots numberOfSlots batchSize slots =
     rfold (\<lambda>slotId ss. rbind (vget ss slotId) (\<lambda>s.
              vset ss slotId (sl_setId slotId batchSize (Some (slotId * batchSize)) s)))
       [0..numberOfSlots - 1] slots"

definition setupForCheckpoints :: "bool \<Rightarrow> QueryBuffer \<Rightarrow> QueryBuffer res" where
  "setupForCheckpoints filesystem b =
     rbind (setupSlots (qb_numberOfSlots b) (qb_batchSize b) (qb_slots b))
       (\<lambda>ss. Inr (b\<lparr>qb_filesystem := filesystem, qb_slots := ss\<rparr>))"

definition newQueryBuffer :: "int \<Rightarrow> nat \<Rightarrow> bool \<Rightarrow> int \<Rightarrow> bool \<Rightarrow> nat \<Rightarrow> QueryBuffer res" where
  "newQueryBuffer i capacity isNuma tupleSize copyDataOnInsert batchSize =
     (case upper_power_of_two capacity of
        None \<Rightarrow> Inl Undefined
      | Some cap \<Rightarrow>
          if batchSize = 0 then Inl Undefined
          else let n = capacity div batchSize in
            Inr \<lparr>qb_startP = 0, qb_endP = 0, qb_capacity = int cap, qb_mask = int cap - 1,
              qb_wraps = 0, qb_bytesProcessed = 0, qb_tuplesProcessed = 0, qb_tasksProcessed = 0,
              qb_temp = 0, qb_id = i, qb_isNuma = isNuma, qb_tupleSize = tupleSize,
              qb_copyDataOnInsert = copyDataOnInsert, qb_filesystem = False,
              qb_batchSize = int batchSize, qb_numberOfSlots = int n, qb_emptySlots = int n,
              qb_slots = replicate (2 * n) newSlot, qb_nextSlotToWrite = 0,
              qb_numberOfSlotsToRecover = 0, qb_numberOfSlotsToFree = 0, qb_buffer = []\<rparr>)"

definition newCircularQueryBuffer ::
  "SystemConf \<Rightarrow> int \<Rightarrow> nat \<Rightarrow> int \<Rightarrow> bool \<Rightarrow> nat \<Rightarrow> QueryBuffer res" where
  "newCircularQueryBuffer conf i capacity tupleSize copyDataOnInsert batchSize =
     rbind (newQueryBuffer i capacity False tupleSize copyDataOnInsert batchSize) (\<lambda>b.
       let b = b\<lparr>qb_buffer := replicate (nat (qb_capacity b)) 0\<rparr>
       in if LINEAGE_ON conf then setupForCheckpoints False b else Inr b)"

section \<open>Accessors\<close>

definition normalise :: "QueryBuffer \<Rightarrow> int \<Rightarrow> int" where
  "normalise b index = and index (qb_mask b)"

definition normaliseNotPowerOfTwo :: "QueryBuffer \<Rightarrow> int \<Rightarrow> int res" where
  "normaliseNotPowerOfTwo b index =
     (if qb_mask b = 0 then Inl Undefined else Inr (index mod 2 ^ 64 mod qb_mask b))"

definition getUnsafeRemainingBytes :: "QueryBuffer \<Rightarrow> int" where
  "getUnsafeRemainingBytes b = (qb_endP b - qb_startP b) mod 2 ^ 64"

definition incrementUnsafeStartPointer :: "int \<Rightarrow> QueryBuffer \<Rightarrow> QueryBuffer" where
  "incrementUnsafeStartPointer offset b = b\<lparr>qb_startP := qb_startP b + offset\<rparr>"

definition setNumberOfSlotsToRecover :: "int \<Rightarrow> QueryBuffer \<Rightarrow> QueryBuffer" where
  "setNumberOfSlotsToRecover n b = b\<lparr>qb_numberOfSlotsToRecover := n, qb_numberOfSlotsToFree := n\<rparr>"

definition getNextSlotToWrite :: "QueryBuffer \<Rightarrow> int \<times> QueryBuffer" where
  "getNextSlotToWrite b = (qb_nextSlotToWrite b, b\<lparr>qb_nextSlotToWrite := qb_nextSlotToWrite b + 1\<rparr>)"

text \<open>The sector alignment of a file offset, for a file system with the given sector size.\<close>

definition roundOffset :: "QueryBuffer \<Rightarrow> int \<Rightarrow> int \<Rightarrow> int res" where
  "roundOffset b sectorSize offset =
     (if \<not> qb_filesystem b then Inl RuntimeError
      else if offset < 8 * 1024 \<and> offset \<noteq> 0 then Inr (8 * 1024)
      else if sectorSize = 0 then Inl Undefined
      else if offset smod sectorSize \<noteq> 0 then Inr ((offset sdiv sectorSize + 1) * sectorSize)
      else Inr offset)"

definition getLong :: "QueryBuffer \<Rightarrow> int \<Rightarrow> int res" where
  "getLong b index =
     rbind (memread (qb_buffer b) (8 * (normalise b index div 8)) 8) (\<lambda>bs. Inr (long_val bs))"

definition setLong :: "int \<Rightarrow> int \<Rightarrow> QueryBuffer \<Rightarrow> QueryBuffer res" where
  "setLong index v b =
     rbind (memcpy_to (qb_buffer b) (8 * (normalise b index div 8)) (long_bytes v))
       (\<lambda>m. Inr (b\<lparr>qb_buffer := m\<rparr>))"

definition appendBytesTo :: "QueryBuffer \<Rightarrow> int \<Rightarrow> int \<Rightarrow> byte list \<Rightarrow> byte list res" where
  "appendBytesTo b startPos endPos output =
     (if endPos > startPos then
        rbind (memread (qb_buffer b) startPos (endPos - startPos)) (memcpy_to output 0)
      else
        rbind (memread (qb_buffer b) startPos (qb_capacity b - startPos)) (\<lambda>right.
        rbind (memcpy_to output 0 right) (\<lambda>output.
        rbind (memread (qb_buffer b) 0 endPos) (\<lambda>left.
          memcpy_to output (qb_capacity b - startPos) left))))"

section \<open>Insertion\<close>

text \<open>
  The space check of every \<open>put\<close>: the cached start position is refreshed only when the cached
  value says that the buffer is full. Returns whether there is room.
\<close>

definition reserve :: "int \<Rightarrow> QueryBuffer \<Rightarrow> bool \<times> QueryBuffer" where
  "reserve bytes b =
     (let wrapPoint = (qb_endP b + bytes - 1) - qb_capacity b
      in if qb_temp b \<le> wrapPoint
         then let b = b\<lparr>qb_temp := qb_startP b\<rparr> in (\<not> qb_temp b \<le> wrapPoint, b)
         else (True, b))"

text \<open>The copy into the array, in two parts when it crosses the end.\<close>

definition copyIn :: "QueryBuffer \<Rightarrow> int \<Rightarrow> byte list \<Rightarrow> int \<Rightarrow> byte list res" where
  "copyIn b index values bytes =
     (if bytes > qb_capacity b - index then
        let right = qb_capacity b - index; left = bytes - (qb_capacity b - index) in
        rbind (memread values 0 right) (\<lambda>r.
        rbind (memcpy_to (qb_buffer b) index r) (\<lambda>m.
        rbind (memread values (qb_capacity b - index) left) (\<lambda>l.
          memcpy_to m 0 l)))
      else rbind (memread values 0 bytes) (memcpy_to (qb_buffer b) index))"

text \<open>With latency measurements on, a buffer that is replayed in place is stamped.\<close>

definition stampLatency :: "SystemConf \<Rightarrow> int \<Rightarrow> int \<Rightarrow> QueryBuffer \<Rightarrow> QueryBuffer res" where
  "stampLatency conf index latencyMark b =
     (if LATENCY_ON conf \<and> \<not> qb_copyDataOnInsert b then
        rbind (memread (qb_buffer b) index 8) (\<lambda>bs.
        rbind (memcpy_to (qb_buffer b) index
                 (long_bytes (packLong latencyMark (to_int32 (long_val bs))))) (\<lambda>m.
          Inr (b\<lparr>qb_buffer := m\<rparr>)))
      else Inr b)"

definition publish :: "int \<Rightarrow> int \<Rightarrow> QueryBuffer \<Rightarrow> QueryBuffer" where
  "publish index bytes b =
     (let p = normalise b (qb_endP b + bytes) in
      b\<lparr>qb_wraps := (if p \<le> index then qb_wraps b + 1 else qb_wraps b),
        qb_endP := qb_endP b + bytes\<rparr>)"

text \<open>
  The lineage bookkeeping of an insertion. The loop over the slots starts at the last slot, so
  its body runs once, for the slot in which the inserted bytes end.
\<close>

definition insertLineage ::
  "int \<Rightarrow> int \<Rightarrow> (LineageGraph \<times> nat) option \<Rightarrow> LineageGraphFactory \<Rightarrow> QueryBuffer \<Rightarrow>
   (QueryBuffer \<times> LineageGraphFactory) res" where
  "insertLineage index bytes graph f b =
     (if qb_batchSize b = 0 \<or> qb_numberOfSlots b = 0 then Inl Undefined
      else
        let endSlotId = (index + bytes) div qb_batchSize b;
            normSlot = endSlotId mod qb_numberOfSlots b in
        rbind (vget (qb_slots b) normSlot) (\<lambda>s.
        rbind (if graph = None \<and> sl_graph s = None
               then rbind (newInstance f) (\<lambda>(g, f). Inr (Some (g, 0 :: nat), f))
               else Inr (graph, f)) (\<lambda>(graph, f).
        rbind (case (sl_graph s, graph) of
                 (Some (g, others), Some h) \<Rightarrow>
                   rbind (mergeGraphsRelease g h f) (\<lambda>(g', f').
                     Inr (s\<lparr>sl_graph := Some (g', others)\<rparr>, f'))
               | (_, Some h) \<Rightarrow> sl_setLineageGraph (Some h) f s
               | (_, None) \<Rightarrow> Inr (s, f)) (\<lambda>(s', f').
        rbind (vset (qb_slots b) normSlot s') (\<lambda>ss.
          Inr (b\<lparr>qb_slots := ss\<rparr>, f'))))))"

text \<open>
  \<open>put\<close> of a raw byte region. \<open>None\<close> is the null pointer; the result is the index at which the
  data starts, or \<open>-1\<close> when the buffer is full.
\<close>

definition put ::
  "SystemConf \<Rightarrow> byte list option \<Rightarrow> int \<Rightarrow> int \<Rightarrow> (LineageGraph \<times> nat) option \<Rightarrow>
   LineageGraphFactory \<Rightarrow> QueryBuffer \<Rightarrow> (int \<times> QueryBuffer \<times> LineageGraphFactory) res" where
  "put conf values bytes latencyMark graph f b =
     (case values of
        None \<Rightarrow> Inl InvalidArgument
      | Some vs \<Rightarrow>
          if bytes \<le> 0 then Inl InvalidArgument
          else case reserve bytes b of
            (False, b) \<Rightarrow> Inr (-1, b, f)
          | (True, b) \<Rightarrow>
              let index = normalise b (qb_endP b) in
              rbind (if LINEAGE_ON conf then insertLineage index bytes graph f b else Inr (b, f))
                (\<lambda>(b, f).
              rbind (if qb_copyDataOnInsert b \<or> qb_wraps b = 0
                     then copyIn b index vs bytes else Inr (qb_buffer b)) (\<lambda>m.
              rbind (stampLatency conf index latencyMark (b\<lparr>qb_buffer := m\<rparr>)) (\<lambda>b.
                Inr (index, publish index bytes b, f)))))"

text \<open>\<open>put\<close> of a staging buffer, which is returned to its pool.\<close>

definition putUnbounded ::
  "SystemConf \<Rightarrow> UnboundedQueryBuffer \<Rightarrow> int \<Rightarrow> UnboundedFactory \<Rightarrow> QueryBuffer \<Rightarrow>
   (int \<times> QueryBuffer \<times> UnboundedFactory) res" where
  "putUnbounded conf input latencyMark uf b =
     (let vs = ub_buffer input; bytes = int (length vs) in
      if bytes \<le> 0 then Inl InvalidArgument
      else case reserve bytes b of
        (False, b) \<Rightarrow> Inr (-1, b, uf)
      | (True, b) \<Rightarrow>
          let index = normalise b (qb_endP b) in
          if LINEAGE_ON conf then Inl RuntimeError
          else
            rbind (copyIn b index vs bytes) (\<lambda>m.
            rbind (stampLatency conf index latencyMark (b\<lparr>qb_buffer := m\<rparr>)) (\<lambda>b.
            rbind (uf_freeNB (ub_id input) input uf) (\<lambda>uf.
              Inr (index, publish index bytes b, uf)))))"

text \<open>
  \<open>put\<close> of a buffer received over RDMA. The filter installed with \<open>setFilterFP\<close> is an argument:
  a function from the received bytes to the bytes it writes at the insertion index. The received
  buffer is posted again to the receive queue \<open>posted\<close>, if a context was set.
\<close>

definition putRDMA ::
  "SystemConf \<Rightarrow> (byte list \<Rightarrow> byte list) option \<Rightarrow> byte list option \<Rightarrow> int \<Rightarrow>
   byte list list option \<Rightarrow> QueryBuffer \<Rightarrow> (int \<times> QueryBuffer \<times> byte list list option) res" where
  "putRDMA conf filterFP values latencyMark posted b =
     (case values of
        None \<Rightarrow> Inl RuntimeError
      | Some vs \<Rightarrow>
          let bytes = int (length vs) in
          if bytes \<le> 0 then Inl InvalidArgument
          else case reserve bytes b of
            (False, b) \<Rightarrow> Inr (-1, b, posted)
          | (True, b) \<Rightarrow>
              let index = normalise b (qb_endP b) in
              if LINEAGE_ON conf then Inl RuntimeError
              else
                rbind (if bytes > qb_capacity b - index then copyIn b index vs bytes
                       else case filterFP of
                              Some fp \<Rightarrow> memcpy_to (qb_buffer b) index (fp vs)
                            | None \<Rightarrow> copyIn b index vs bytes) (\<lambda>m.
                rbind (stampLatency conf index latencyMark (b\<lparr>qb_buffer := m\<rparr>)) (\<lambda>b.
                  case posted of
                    None \<Rightarrow> Inl RuntimeError
                  | Some q \<Rightarrow> Inr (index, publish index bytes b, Some (q @ [vs])))))"

section \<open>Removal\<close>

text \<open>The bytes from the start position up to and including the index \<open>offset\<close>.\<close>

definition freeBytes :: "QueryBuffer \<Rightarrow> int \<Rightarrow> int" where
  "freeBytes b offset =
     (let index = normalise b (qb_startP b) in
      if offset \<le> index then qb_capacity b - index + offset + 1 else offset - index + 1)"

definition account :: "int \<Rightarrow> QueryBuffer \<Rightarrow> QueryBuffer res" where
  "account bytes b =
     (if qb_tupleSize b = 0 then Inl Undefined
      else Inr (b\<lparr>qb_bytesProcessed := qb_bytesProcessed b + bytes,
                  qb_tuplesProcessed := qb_tuplesProcessed b + bytes div qb_tupleSize b,
                  qb_tasksProcessed := qb_tasksProcessed b + 1,
                  qb_startP := qb_startP b + bytes\<rparr>))"

definition freeOffset :: "int \<Rightarrow> QueryBuffer \<Rightarrow> QueryBuffer res" where
  "freeOffset offset b = account (freeBytes b offset) b"

definition freeBatch :: "SystemConf \<Rightarrow> QueryBuffer \<Rightarrow> QueryBuffer res" where
  "freeBatch conf b =
     (let offset = normalise b (BATCH_SIZE conf + qb_startP b)
      in account (freeBytes b offset) b)"

section \<open>Checkpoint preparation\<close>

definition checkpointSlot ::
  "QueryBuffer \<Rightarrow> int \<Rightarrow> Slot list \<times> int list \<Rightarrow> (int \<times> Slot list \<times> int list) res" where
  "checkpointSlot b freePtr s =
     (case s of (slots, ready) \<Rightarrow>
        let slotId = normalise b freePtr div qb_batchSize b in
        rbind (vget slots slotId) (\<lambda>sl.
        rbind (sl_toCheckpoint sl) (\<lambda>sl.
        rbind (vset slots slotId sl) (\<lambda>slots. Inr (slotId, slots, ready @ [slotId])))))"

text \<open>The loop over the full batches between the free pointer and the end pointer.\<close>

function checkpointLoop ::
  "QueryBuffer \<Rightarrow> int \<Rightarrow> int \<Rightarrow> int \<times> int \<times> int \<Rightarrow> Slot list \<times> int list \<Rightarrow>
   (int \<times> (int \<times> int \<times> int) \<times> Slot list \<times> int list) res" where
  "checkpointLoop b endPtr freePtr (num, fst_slot, lst_slot) s =
     (if qb_batchSize b \<le> 0 then Inl Undefined
      else if freePtr < endPtr - qb_batchSize b then
        (case checkpointSlot b (freePtr + qb_batchSize b) s of
           Inl e \<Rightarrow> Inl e
         | Inr (slotId, s') \<Rightarrow>
             checkpointLoop b endPtr (freePtr + qb_batchSize b)
               (num + 1, if num = 0 then slotId else fst_slot, slotId) s')
      else Inr (freePtr, (num, fst_slot, lst_slot), s))"
  by pat_completeness auto
termination
  by (relation "measure (\<lambda>(b, endPtr, freePtr, c, s). nat (endPtr - freePtr))") auto

definition prepareCheckpoint ::
  "int \<Rightarrow> QueryBuffer \<Rightarrow> ((int \<times> int \<times> int) \<times> int list \<times> QueryBuffer) res" where
  "prepareCheckpoint freePtr b =
     (let endPtr = normalise b (qb_endP b);
          endPtr = (if freePtr > endPtr then endPtr + qb_capacity b else endPtr) in
      rbind (checkpointLoop b endPtr freePtr (0, -1, -1) (qb_slots b, []))
        (\<lambda>(freePtr, (num, fst_slot, lst_slot), slots, ready).
          if num = 0 \<and> freePtr < endPtr then
            rbind (checkpointSlot b (freePtr + qb_batchSize b) (slots, ready))
              (\<lambda>(slotId, slots, ready).
                 Inr ((num + 1, slotId, slotId), ready, b\<lparr>qb_slots := slots\<rparr>))
          else Inr ((num, fst_slot, lst_slot), ready, b\<lparr>qb_slots := slots\<rparr>)))"

section \<open>Well-formed buffers\<close>

definition qb_inv :: "QueryBuffer \<Rightarrow> bool" where
  "qb_inv b \<longleftrightarrow> is_pow2 (qb_capacity b) \<and> qb_mask b = qb_capacity b - 1
     \<and> int (length (qb_buffer b)) = qb_capacity b
     \<and> 0 \<le> qb_temp b \<and> qb_temp b \<le> qb_startP b
     \<and> qb_startP b \<le> qb_endP b \<and> qb_endP b \<le> qb_startP b + qb_capacity b
     \<and> 0 < qb_tupleSize b"

text \<open>The bytes between the two stream positions, in stream order.\<close>

definition cell :: "QueryBuffer \<Rightarrow> int \<Rightarrow> byte" where
  "cell b p = qb_buffer b ! nat (p mod qb_capacity b)"

definition contents :: "QueryBuffer \<Rightarrow> byte list" where
  "contents b = map (cell b) [qb_startP b..qb_endP b - 1]"

lemma qb_inv_cap: "qb_inv b \<Longrightarrow> 0 < qb_capacity b"
  by (auto simp: qb_inv_def is_pow2_pos)

lemma normalise_eq: "qb_inv b \<Longrightarrow> normalise b i = i mod qb_capacity b"
  by (simp add: normalise_def qb_inv_def mask_simps)

lemma length_contents: "qb_inv b \<Longrightarrow> int (length (contents b)) = qb_endP b - qb_startP b"
  by (simp add: contents_def qb_inv_def)

subsection \<open>The power-of-two capacity\<close>

lemma pow2_loop_result:
  assumes "k \<le> 63" and "v \<le> 2 ^ 63" and "k = 0 \<or> 2 ^ (k - 1) < v"
  shows "\<exists>n. pow2_loop (2 ^ k) v = Some (2 ^ n) \<and> v \<le> 2 ^ n \<and> (n = 0 \<or> 2 ^ (n - 1) < v) \<and> n \<le> 63"
  using assms
proof (induction "63 - k" arbitrary: k)
  case 0
  then have "k = 63" by simp
  with 0 show ?case by (subst pow2_loop.simps) (auto intro: exI [of _ 63])
next
  case (Suc d)
  show ?case
  proof (cases "2 ^ k < v")
    case True
    have k: "k < 63" using Suc.hyps(2) by simp
    then have "(2 :: nat) ^ Suc k < 2 ^ 64" by (intro power_strict_increasing) auto
    then have "(2 :: nat) ^ k * 2 mod 2 ^ 64 = 2 ^ Suc k"
      by (simp only: power_Suc2 [symmetric] mod_less)
    moreover have "\<exists>n. pow2_loop (2 ^ Suc k) v = Some (2 ^ n) \<and> v \<le> 2 ^ n
        \<and> (n = 0 \<or> 2 ^ (n - 1) < v) \<and> n \<le> 63"
      using Suc.hyps k True Suc.prems by (intro Suc.hyps(1)) auto
    ultimately show ?thesis using True by (subst pow2_loop.simps) simp
  next
    case False
    then show ?thesis using Suc.prems by (subst pow2_loop.simps) (auto intro: exI [of _ k])
  qed
qed

lemma upper_power_of_two_result:
  assumes "v \<le> 2 ^ 63"
  obtains n where "upper_power_of_two v = Some (2 ^ n)" and "v \<le> 2 ^ n"
    and "\<And>m. v \<le> 2 ^ m \<Longrightarrow> n \<le> m"
proof -
  obtain n where n: "pow2_loop (2 ^ 0) v = Some (2 ^ n)" "v \<le> 2 ^ n" "n = 0 \<or> 2 ^ (n - 1) < v"
    using pow2_loop_result [of 0 v] assms by auto
  have "n \<le> m" if "v \<le> 2 ^ m" for m
  proof (rule ccontr)
    assume "\<not> n \<le> m"
    then have "n \<noteq> 0" and le: "m \<le> n - 1" by auto
    have "(2 :: nat) ^ m \<le> 2 ^ (n - 1)" by (rule power_increasing [OF le]) simp
    with n(3) \<open>n \<noteq> 0\<close> that show False by linarith
  qed
  with n that show ?thesis by (simp add: upper_power_of_two_def)
qed

text \<open>
  C37. For every requested size up to \<open>2 ^ 63\<close> the rounding loop of the constructor ends, and
  returns the least power of two that is not below the request.
\<close>

theorem upper_power_of_two_least:
  assumes "v \<le> 2 ^ 63"
  shows "\<exists>n. upper_power_of_two v = Some (2 ^ n) \<and> v \<le> 2 ^ n
    \<and> (\<forall>m. v \<le> 2 ^ m \<longrightarrow> (2 :: nat) ^ n \<le> 2 ^ m)"
  using upper_power_of_two_result [OF assms] by (metis one_le_numeral power_increasing)

theorem upper_power_of_two_least_witness:
  "(100000 :: nat) \<le> 2 ^ 63 \<and>
   (\<exists>n. upper_power_of_two 100000 = Some (2 ^ n) \<and> 100000 \<le> (2 :: nat) ^ n)"
  using upper_power_of_two_least [of 100000] by auto

lemma setupSlots_length:
  "setupSlots n bs slots = Inr ss \<Longrightarrow> length ss = length slots"
  unfolding setupSlots_def
  by (rule rfold_invariant [where P = "\<lambda>ss. length ss = length slots"]) (auto simp: mem_simps)

text \<open>
  A constructed buffer is well formed, empty, starts at stream position 0 and has room for at
  least the requested number of bytes.
\<close>

lemma newCircularQueryBuffer_wf:
  assumes "newCircularQueryBuffer conf i capacity tupleSize copy batchSize = Inr b"
    and "capacity \<le> 2 ^ 63" and "0 < tupleSize"
  shows "qb_inv b \<and> contents b = [] \<and> qb_startP b = 0 \<and> qb_endP b = 0 \<and> int capacity \<le> qb_capacity b
    \<and> qb_copyDataOnInsert b = copy \<and> qb_batchSize b = int batchSize"
proof -
  obtain n where n: "upper_power_of_two capacity = Some (2 ^ n)" "capacity \<le> 2 ^ n"
    using upper_power_of_two_result [OF assms(2)] by blast
  have p: "is_pow2 (2 ^ n)" by (auto simp: is_pow2_def)
  show ?thesis
    using assms(1,3) n p
    by (auto simp: newCircularQueryBuffer_def newQueryBuffer_def setupForCheckpoints_def Let_def
        qb_inv_def contents_def split: if_splits)
qed

subsection \<open>Copying into the array\<close>

text \<open>The array after a copy: the cells at distance below \<open>bytes\<close> behind the index are new.\<close>

definition copied :: "QueryBuffer \<Rightarrow> int \<Rightarrow> byte list \<Rightarrow> int \<Rightarrow> byte list \<Rightarrow> bool" where
  "copied b index vs bytes m \<longleftrightarrow> length m = length (qb_buffer b) \<and>
     (\<forall>k. 0 \<le> k \<longrightarrow> k < qb_capacity b \<longrightarrow>
        m ! nat k = (if (k - index) mod qb_capacity b < bytes
                     then vs ! nat ((k - index) mod qb_capacity b) else qb_buffer b ! nat k))"

lemma mod_diff_index:
  fixes k :: int
  assumes "0 \<le> k" "k < c" "0 \<le> i" "i < c"
  shows "(k - i) mod c = (if i \<le> k then k - i else k - i + c)"
proof (cases "i \<le> k")
  case False
  then have "(k - i) mod c = (k - i + c) mod c" by simp
  also have "\<dots> = k - i + c" using assms False by (intro mod_pos_pos_trivial) auto
  finally show ?thesis using False by simp
qed (use assms in auto)

lemma nth_write_wrap:
  assumes "length buf = c" "i < c" "c - i < n" "n \<le> c" "n \<le> length vs" "k < c"
  shows "write_at 0 (take (n - (c - i)) (drop (c - i) vs)) (write_at i (take (c - i) vs) buf) ! k
    = (if i \<le> k then vs ! (k - i) else if k + c - i < n then vs ! (k + c - i) else buf ! k)"
proof -
  have "length (write_at i (take (c - i) vs) buf) = c"
    using assms by (intro trans [OF length_write_at]) auto
  moreover have "write_at i (take (c - i) vs) buf ! k = (if i \<le> k then vs ! (k - i) else buf ! k)"
    using assms by (subst nth_write_at) auto
  moreover have "c - i + k = k + c - i" using assms by simp
  ultimately show ?thesis
    using assms by (subst nth_write_at) auto
qed

lemma nth_write_flat:
  assumes "length buf = c" "i + n \<le> c" "n \<le> length vs" "k < c"
  shows "write_at i (take n vs) buf ! k = (if i \<le> k \<and> k < i + n then vs ! (k - i) else buf ! k)"
  using assms by (subst nth_write_at) auto

lemma copyIn_nat:
  assumes "qb_capacity b = int c" and "length (qb_buffer b) = c"
    and "i < c" and "0 < n" and "n \<le> c" and "n \<le> length vs"
  shows "copyIn b (int i) vs (int n) = Inr
    (if c - i < n
     then write_at 0 (take (n - (c - i)) (drop (c - i) vs)) (write_at i (take (c - i) vs) (qb_buffer b))
     else write_at i (take n vs) (qb_buffer b))"
proof -
  have "nat (int c - int i) = c - i" "nat (int n - (int c - int i)) = n - (c - i)"
    using assms by linarith+
  then show ?thesis
    using assms by (cases "c - i < n") (auto simp: copyIn_def memread_def memcpy_to_def Let_def)
qed

lemma copyIn_copied:
  assumes b: "0 < qb_capacity b" "int (length (qb_buffer b)) = qb_capacity b"
    and i: "0 \<le> index" "index < qb_capacity b"
    and n: "0 < bytes" "bytes \<le> qb_capacity b" "bytes \<le> int (length vs)"
  shows "\<exists>m. copyIn b index vs bytes = Inr m \<and> copied b index vs bytes m"
proof -
  obtain c j l where c: "qb_capacity b = int c" and j: "index = int j" and l: "bytes = int l"
    using b(1) i(1) n(1) by (metis less_imp_le nonneg_int_cases)
  have nat: "length (qb_buffer b) = c" "j < c" "0 < l" "l \<le> c" "l \<le> length vs"
    using b i n c j l by auto
  let ?m = "if c - j < l
     then write_at 0 (take (l - (c - j)) (drop (c - j) vs)) (write_at j (take (c - j) vs) (qb_buffer b))
     else write_at j (take l vs) (qb_buffer b)"
  have "copied b index vs bytes ?m"
    unfolding copied_def c j l
  proof (intro conjI allI impI)
    fix k :: int assume k: "0 \<le> k" "k < int c"
    then obtain q where q: "k = int q" by (metis nonneg_int_cases)
    have "(k - int j) mod int c = int (if j \<le> q then q - j else q + c - j)"
      using mod_diff_index [of k "int c" "int j"] k nat q by auto
    moreover have "?m ! q = (if (if j \<le> q then q - j else q + c - j) < l
        then vs ! (if j \<le> q then q - j else q + c - j) else qb_buffer b ! q)"
      using nat k q nth_write_wrap [of "qb_buffer b" c j l vs q] nth_write_flat [of "qb_buffer b" c j l vs q]
      by auto
    ultimately show "?m ! nat k = (if (k - int j) mod int c < int l
        then vs ! nat ((k - int j) mod int c) else qb_buffer b ! nat k)"
      using q by simp
  next
    show "length ?m = length (qb_buffer b)"
      using nat by (auto simp: write_at_def)
  qed
  then show ?thesis using copyIn_nat [OF c nat] j l by simp
qed

text \<open>In stream positions: the new bytes follow the old ones, and no unreleased byte changes.\<close>

lemma mod_add_capacity: "0 < (c :: int) \<Longrightarrow> - c \<le> d \<Longrightarrow> d < 0 \<Longrightarrow> d mod c = d + c"
  using mod_pos_pos_trivial [of "d + c" c] by simp

lemma copied_cell:
  assumes "copied b (e mod qb_capacity b) vs bytes m" and "0 < qb_capacity b"
  shows "m ! nat (p mod qb_capacity b) =
    (if (p - e) mod qb_capacity b < bytes then vs ! nat ((p - e) mod qb_capacity b) else cell b p)"
  using assms by (simp add: copied_def cell_def mod_diff_eq)

lemma copied_contents:
  assumes "copied b (qb_endP b mod qb_capacity b) vs bytes m" and "0 < qb_capacity b"
    and "qb_startP b \<le> qb_endP b" and "0 < bytes" and "bytes \<le> int (length vs)"
    and "qb_endP b + bytes \<le> qb_startP b + qb_capacity b"
  shows "map (\<lambda>p. m ! nat (p mod qb_capacity b)) [qb_startP b..qb_endP b + bytes - 1]
    = contents b @ take (nat bytes) vs"
proof (rule nth_equalityI)
  fix k assume "k < length (map (\<lambda>p. m ! nat (p mod qb_capacity b)) [qb_startP b..qb_endP b + bytes - 1])"
  then have k: "int k < qb_endP b + bytes - qb_startP b" by simp
  let ?p = "qb_startP b + int k"
  have "m ! nat (?p mod qb_capacity b) = (contents b @ take (nat bytes) vs) ! k"
  proof (cases "?p < qb_endP b")
    case True
    then have "(?p - qb_endP b) mod qb_capacity b = ?p - qb_endP b + qb_capacity b"
      using assms by (intro mod_add_capacity) auto
    then have "m ! nat (?p mod qb_capacity b) = cell b ?p"
      using assms copied_cell [OF assms(1,2), of ?p] by simp
    moreover have "k < nat (qb_endP b - qb_startP b)" using True by linarith
    ultimately show ?thesis by (simp add: contents_def nth_append)
  next
    case False
    then have "(?p - qb_endP b) mod qb_capacity b = ?p - qb_endP b"
      using assms k by (intro mod_pos_pos_trivial) auto
    then have "m ! nat (?p mod qb_capacity b) = vs ! nat (?p - qb_endP b)"
      using k copied_cell [OF assms(1,2), of ?p] by simp
    moreover have "nat (?p - qb_endP b) = k - nat (qb_endP b - qb_startP b)"
      "nat (qb_endP b - qb_startP b) \<le> k" "k - nat (qb_endP b - qb_startP b) < nat bytes"
      using False assms k by linarith+
    ultimately show ?thesis by (simp add: contents_def nth_append)
  qed
  then show "map (\<lambda>p. m ! nat (p mod qb_capacity b)) [qb_startP b..qb_endP b + bytes - 1] ! k
      = (contents b @ take (nat bytes) vs) ! k"
    using k by (subst nth_map) (auto simp: nth_upto)
qed (use assms in \<open>simp add: contents_def nat_add_distrib [symmetric]\<close>)

subsection \<open>Insertion and removal on stream positions\<close>

lemma reserve_correct:
  assumes "qb_inv b"
  obtains t where "reserve bytes b = (qb_endP b + bytes \<le> qb_startP b + qb_capacity b, b\<lparr>qb_temp := t\<rparr>)"
    and "0 \<le> t" and "t \<le> qb_startP b"
proof (cases "qb_temp b \<le> qb_endP b + bytes - 1 - qb_capacity b")
  case True
  then have "reserve bytes b = (qb_endP b + bytes \<le> qb_startP b + qb_capacity b, b\<lparr>qb_temp := qb_startP b\<rparr>)"
    by (auto simp: reserve_def)
  then show ?thesis using assms that by (force simp: qb_inv_def)
next
  case False
  then have "reserve bytes b = (qb_endP b + bytes \<le> qb_startP b + qb_capacity b, b\<lparr>qb_temp := qb_temp b\<rparr>)"
    using assms by (auto simp: reserve_def qb_inv_def)
  then show ?thesis using assms that by (force simp: qb_inv_def)
qed

lemma insertLineage_slots_only:
  "insertLineage index bytes graph f b = Inr (b', f') \<Longrightarrow> \<exists>ss. b' = b\<lparr>qb_slots := ss\<rparr>"
  by (auto simp: insertLineage_def Let_def split: if_splits prod.splits)

lemma qb_inv_temp_slots [simp]:
  "contents (b\<lparr>qb_temp := t\<rparr>) = contents b" "contents (b\<lparr>qb_slots := ss\<rparr>) = contents b"
  "qb_inv (b\<lparr>qb_slots := ss\<rparr>) = qb_inv b" "normalise (b\<lparr>qb_temp := t\<rparr>) p = normalise b p"
  "normalise (b\<lparr>qb_slots := ss\<rparr>) p = normalise b p" "normalise (b\<lparr>qb_buffer := m\<rparr>) p = normalise b p"
  by (simp_all add: contents_def cell_def [abs_def] qb_inv_def normalise_def)

text \<open>What an accepted insertion does once the space is reserved.\<close>

definition appended :: "QueryBuffer \<Rightarrow> byte list \<Rightarrow> int \<Rightarrow> QueryBuffer \<Rightarrow> bool" where
  "appended b vs i b' \<longleftrightarrow> i = qb_endP b mod qb_capacity b \<and> qb_inv b'
     \<and> contents b' = contents b @ vs \<and> qb_startP b' = qb_startP b
     \<and> qb_endP b' = qb_endP b + int (length vs) \<and> qb_capacity b' = qb_capacity b
     \<and> qb_copyDataOnInsert b' = qb_copyDataOnInsert b"

lemma publish_appended:
  assumes inv: "qb_inv b" and room: "qb_endP b + bytes \<le> qb_startP b + qb_capacity b"
    and n: "0 < bytes" "bytes \<le> int (length vs)"
    and m: "copied b (qb_endP b mod qb_capacity b) vs bytes m"
    and t: "0 \<le> t" "t \<le> qb_startP b"
  shows "appended b (take (nat bytes) vs) (qb_endP b mod qb_capacity b)
    (publish (qb_endP b mod qb_capacity b) bytes (b\<lparr>qb_temp := t, qb_slots := ss, qb_buffer := m\<rparr>))"
proof -
  let ?b = "publish (qb_endP b mod qb_capacity b) bytes (b\<lparr>qb_temp := t, qb_slots := ss, qb_buffer := m\<rparr>)"
  have "contents ?b = map (\<lambda>p. m ! nat (p mod qb_capacity b)) [qb_startP b..qb_endP b + bytes - 1]"
    by (simp add: contents_def cell_def [abs_def] publish_def Let_def)
  also have "\<dots> = contents b @ take (nat bytes) vs"
    using inv room n m by (intro copied_contents) (auto simp: qb_inv_def is_pow2_pos)
  finally show ?thesis
    using inv room n m t by (auto simp: appended_def publish_def Let_def qb_inv_def copied_def)
qed

lemma copyIn_copied_inv:
  assumes "qb_inv b" and "0 < bytes" and "bytes \<le> int (length vs)"
    and "qb_endP b + bytes \<le> qb_startP b + qb_capacity b"
  obtains m where "copyIn (b\<lparr>qb_temp := t, qb_slots := ss\<rparr>) (qb_endP b mod qb_capacity b) vs bytes = Inr m"
    and "copied b (qb_endP b mod qb_capacity b) vs bytes m"
proof -
  let ?b = "b\<lparr>qb_temp := t, qb_slots := ss\<rparr>"
  have cap: "0 < qb_capacity b" using assms(1) by (rule qb_inv_cap)
  then have "\<exists>m. copyIn ?b (qb_endP b mod qb_capacity b) vs bytes = Inr m
      \<and> copied ?b (qb_endP b mod qb_capacity b) vs bytes m"
    using assms by (intro copyIn_copied) (auto simp: qb_inv_def)
  then show ?thesis using that by (auto simp: copied_def)
qed

lemma put_full:
  assumes "qb_inv b" and "0 < bytes" and "\<not> qb_endP b + bytes \<le> qb_startP b + qb_capacity b"
  shows "\<exists>t. put conf (Some vs) bytes lat graph f b = Inr (-1, b\<lparr>qb_temp := t\<rparr>, f)
    \<and> 0 \<le> t \<and> t \<le> qb_startP b"
proof -
  obtain t where "reserve bytes b = (False, b\<lparr>qb_temp := t\<rparr>)" "0 \<le> t" "t \<le> qb_startP b"
    using reserve_correct [OF assms(1)] assms(3) by metis
  then show ?thesis using assms(2) by (auto simp: put_def)
qed

lemma put_room:
  assumes inv: "qb_inv b" and n: "0 < bytes" "bytes \<le> int (length vs)"
    and room: "qb_endP b + bytes \<le> qb_startP b + qb_capacity b"
    and copy: "qb_copyDataOnInsert b"
  shows "put conf (Some vs) bytes lat graph f b = Inr (i, b', f') \<Longrightarrow>
      appended b (take (nat bytes) vs) i b'"
    and "\<not> LINEAGE_ON conf \<Longrightarrow> \<exists>i b'. put conf (Some vs) bytes lat graph f b = Inr (i, b', f)"
proof -
  obtain t where res: "reserve bytes b = (True, b\<lparr>qb_temp := t\<rparr>)" and t: "0 \<le> t" "t \<le> qb_startP b"
    using reserve_correct [OF inv] room by metis
  have idx: "normalise b (qb_endP b) = qb_endP b mod qb_capacity b" by (rule normalise_eq [OF inv])
  have same: "b\<lparr>qb_temp := t\<rparr> = b\<lparr>qb_temp := t, qb_slots := qb_slots b\<rparr>" by simp
  let ?e = "qb_endP b mod qb_capacity b"
  have eq: "put conf (Some vs) bytes lat graph f b =
      rbind (if LINEAGE_ON conf then insertLineage ?e bytes graph f (b\<lparr>qb_temp := t\<rparr>)
             else Inr (b\<lparr>qb_temp := t\<rparr>, f)) (\<lambda>(b1, f1).
      rbind (if qb_copyDataOnInsert b1 \<or> qb_wraps b1 = 0 then copyIn b1 ?e vs bytes
             else Inr (qb_buffer b1)) (\<lambda>m.
      rbind (stampLatency conf ?e lat (b1\<lparr>qb_buffer := m\<rparr>)) (\<lambda>b2.
        Inr (?e, publish ?e bytes b2, f1))))"
    using res n(1) by (simp add: put_def idx Let_def cong: if_cong)
  show "appended b (take (nat bytes) vs) i b'"
    if put: "put conf (Some vs) bytes lat graph f b = Inr (i, b', f')"
  proof -
    obtain b1 f1 m where b1: "(if LINEAGE_ON conf then insertLineage ?e bytes graph f (b\<lparr>qb_temp := t\<rparr>)
             else Inr (b\<lparr>qb_temp := t\<rparr>, f)) = Inr (b1, f1)"
      and m: "(if qb_copyDataOnInsert b1 \<or> qb_wraps b1 = 0 then copyIn b1 ?e vs bytes
             else Inr (qb_buffer b1)) = Inr m"
      and fin: "rbind (stampLatency conf ?e lat (b1\<lparr>qb_buffer := m\<rparr>)) (\<lambda>b2.
        Inr (?e, publish ?e bytes b2, f1)) = Inr (i, b', f')"
      using put unfolding eq by (elim rbind_pairE, elim rbind_eq_InrE [of _ _ "(i, b', f')"]) (rule, assumption+, simp)
    obtain ss where ss: "b1 = b\<lparr>qb_temp := t, qb_slots := ss\<rparr>"
    proof (cases "LINEAGE_ON conf")
      case True
      then show ?thesis using b1 that insertLineage_slots_only by fastforce
    next
      case False
      then have "b1 = b\<lparr>qb_temp := t\<rparr>" using b1 by simp
      then show ?thesis using that same by metis
    qed
    obtain m' where m': "copyIn b1 ?e vs bytes = Inr m'" "copied b ?e vs bytes m'"
      using copyIn_copied_inv [OF inv n room] ss by metis
    have "m = m'" using m m'(1) ss copy by simp
    moreover have "stampLatency conf ?e lat (b1\<lparr>qb_buffer := m\<rparr>) = Inr (b1\<lparr>qb_buffer := m\<rparr>)"
      using ss copy by (simp add: stampLatency_def)
    ultimately show ?thesis using fin ss publish_appended [OF inv room n m'(2) t, of ss] by auto
  qed
  show "\<exists>i b'. put conf (Some vs) bytes lat graph f b = Inr (i, b', f)" if "\<not> LINEAGE_ON conf"
  proof -
    obtain m where "copyIn (b\<lparr>qb_temp := t\<rparr>) ?e vs bytes = Inr m"
      using copyIn_copied_inv [OF inv n room] same by metis
    then show ?thesis using that copy unfolding eq by (simp add: stampLatency_def)
  qed
qed

lemma freeBytes_stream:
  assumes inv: "qb_inv b" and t: "qb_startP b < t" "t < qb_startP b + qb_capacity b"
  shows "freeBytes b (t mod qb_capacity b) = t + 1 - qb_startP b"
proof -
  let ?c = "qb_capacity b" and ?s = "qb_startP b"
  have c: "0 < ?c" using inv by (rule qb_inv_cap)
  have d: "(t mod ?c - ?s mod ?c) mod ?c = t - ?s"
    using t by (simp add: mod_diff_eq)
  have "(if ?s mod ?c \<le> t mod ?c then t mod ?c - ?s mod ?c else t mod ?c - ?s mod ?c + ?c) = t - ?s"
    using d mod_diff_index [of "t mod ?c" ?c "?s mod ?c"] c by simp
  then show ?thesis
    using t by (auto simp: freeBytes_def Let_def normalise_eq [OF inv] split: if_splits)
qed

lemma account_contents:
  assumes inv: "qb_inv b" and n: "0 \<le> n" "qb_startP b + n \<le> qb_endP b"
  shows "\<exists>b'. account n b = Inr b' \<and> qb_inv b' \<and> contents b' = drop (nat n) (contents b)
    \<and> qb_startP b' = qb_startP b + n \<and> qb_endP b' = qb_endP b \<and> qb_capacity b' = qb_capacity b
    \<and> qb_copyDataOnInsert b' = qb_copyDataOnInsert b
    \<and> qb_bytesProcessed b' = qb_bytesProcessed b + n \<and> qb_tasksProcessed b' = qb_tasksProcessed b + 1"
proof -
  have "[qb_startP b + n..qb_endP b - 1] = drop (nat n) [qb_startP b..qb_endP b - 1]"
    using n by (intro nth_equalityI) (auto simp: nth_upto)
  moreover have "cell (b\<lparr>qb_startP := s, qb_bytesProcessed := x, qb_tuplesProcessed := y, qb_tasksProcessed := z\<rparr>)
      = cell b" for s x y z
    by (simp add: cell_def fun_eq_iff)
  ultimately show ?thesis
    using inv n by (auto simp: account_def qb_inv_def contents_def cell_def [abs_def] drop_map)
qed

lemma freeOffset_contents:
  assumes inv: "qb_inv b" and t: "qb_startP b < t" "t < qb_endP b"
  shows "\<exists>b'. freeOffset (t mod qb_capacity b) b = Inr b' \<and> qb_inv b'
    \<and> contents b' = drop (nat (t + 1 - qb_startP b)) (contents b)
    \<and> qb_startP b' = t + 1 \<and> qb_endP b' = qb_endP b \<and> qb_capacity b' = qb_capacity b
    \<and> qb_copyDataOnInsert b' = qb_copyDataOnInsert b"
proof -
  have "freeBytes b (t mod qb_capacity b) = t + 1 - qb_startP b"
    using inv t by (intro freeBytes_stream) (auto simp: qb_inv_def)
  then show ?thesis
    using account_contents [OF inv, of "t + 1 - qb_startP b"] t by (auto simp: freeOffset_def)
qed

subsection \<open>The buffer as a byte queue\<close>

text \<open>A whole region put without lineage tracking, as the dispatchers do it.\<close>

definition putRegion :: "SystemConf \<Rightarrow> LineageGraphFactory \<Rightarrow> byte list \<Rightarrow> QueryBuffer \<Rightarrow> (int \<times> QueryBuffer) res" where
  "putRegion conf f vs b =
     rbind (put (conf\<lparr>LINEAGE_ON := False\<rparr>) (Some vs) (int (length vs)) (-1) None f b) (\<lambda>(i, b', _). Inr (i, b'))"

definition qb_copying :: "QueryBuffer \<Rightarrow> bool" where
  "qb_copying b \<longleftrightarrow> qb_inv b \<and> qb_copyDataOnInsert b"

interpretation cb: byte_queue "putRegion conf f" freeOffset contents qb_startP qb_endP qb_capacity qb_copying
proof
  fix b and vs :: "byte list"
  assume inv: "qb_copying b" and vs: "vs \<noteq> []"
  then have b: "qb_inv b" "qb_copyDataOnInsert b" and n: "0 < int (length vs)"
    by (auto simp: qb_copying_def)
  let ?put = "put (conf\<lparr>LINEAGE_ON := False\<rparr>) (Some vs) (int (length vs)) (-1) None f b"
  show "\<exists>b'. putRegion conf f vs b = Inr (qb_endP b mod qb_capacity b, b') \<and> qb_copying b'
      \<and> contents b' = contents b @ vs \<and> qb_startP b' = qb_startP b
      \<and> qb_endP b' = qb_endP b + int (length vs) \<and> qb_capacity b' = qb_capacity b"
    if room: "qb_endP b + int (length vs) \<le> qb_startP b + qb_capacity b"
  proof -
    obtain i b' where put: "?put = Inr (i, b', f)"
      using put_room(2) [OF b(1) n _ room b(2)] by fastforce
    then have "appended b vs i b'"
      using put_room(1) [OF b(1) n _ room b(2) put] by simp
    then show ?thesis using put b(2) by (auto simp: putRegion_def appended_def qb_copying_def)
  qed
  show "\<exists>b'. putRegion conf f vs b = Inr (- 1, b') \<and> qb_copying b' \<and> contents b' = contents b
      \<and> qb_startP b' = qb_startP b \<and> qb_endP b' = qb_endP b \<and> qb_capacity b' = qb_capacity b"
    if "qb_startP b + qb_capacity b < qb_endP b + int (length vs)"
    using put_full [OF b(1) n, of "conf\<lparr>LINEAGE_ON := False\<rparr>" vs "-1" None f] that b
    by (auto simp: putRegion_def qb_copying_def qb_inv_def)
next
  fix b t
  assume "qb_copying b" "qb_startP b < t" "t < qb_endP b"
  then show "\<exists>b'. freeOffset (t mod qb_capacity b) b = Inr b' \<and> qb_copying b'
      \<and> contents b' = drop (nat (t + 1 - qb_startP b)) (contents b)
      \<and> qb_startP b' = t + 1 \<and> qb_endP b' = qb_endP b \<and> qb_capacity b' = qb_capacity b"
    using freeOffset_contents [of b t] by (auto simp: qb_copying_def)
next
  show "int (length (contents b)) = qb_endP b - qb_startP b" if "qb_copying b" for b
    using that by (simp add: qb_copying_def length_contents)
  show "0 \<le> qb_startP b \<and> qb_startP b \<le> qb_endP b \<and> qb_endP b \<le> qb_startP b + qb_capacity b
      \<and> 0 < qb_capacity b" if "qb_copying b" for b
    using that by (auto simp: qb_copying_def qb_inv_def is_pow2_pos)
qed

subsection \<open>Reading a window of the stream\<close>

text \<open>The array cells from index \<open>x\<close> up to index \<open>y\<close>, in two parts when the range wraps.\<close>

definition span :: "byte list \<Rightarrow> int \<Rightarrow> int \<Rightarrow> byte list" where
  "span buf x y = (if x < y then take (nat (y - x)) (drop (nat x) buf)
                   else drop (nat x) buf @ take (nat y) buf)"

lemma length_span:
  assumes "0 \<le> x" "x < c" "0 \<le> y" "y < c" "length buf = nat c"
  shows "length (span buf x y) = nat (if x < y then y - x else y - x + c)"
  using assms by (auto simp: span_def)

lemma nth_span:
  assumes "0 \<le> x" "x < c" "0 \<le> y" "y < c" "length buf = nat c"
    and "int k < (if x < y then y - x else y - x + c)"
  shows "span buf x y ! k = buf ! nat (if x + int k < c then x + int k else x + int k - c)"
proof (cases "x + int k < c")
  case True
  then have "nat (x + int k) = nat x + k" "k < nat c - nat x" using assms by linarith+
  then show ?thesis using True assms by (auto simp: span_def nth_append)
next
  case False
  then have w: "\<not> x < y" using assms by (auto split: if_splits)
  moreover have "nat (x + int k - c) = k - (nat c - nat x)" "\<not> k < nat c - nat x"
    "k - (nat c - nat x) < nat y"
    using False assms w by auto
  ultimately show ?thesis using False assms(5) by (simp add: span_def nth_append)
qed

lemma appendBytesTo_span:
  assumes "0 \<le> x" "x < qb_capacity b" "0 \<le> y" "y < qb_capacity b"
    and buf: "length (qb_buffer b) = nat (qb_capacity b)"
    and out: "length (span (qb_buffer b) x y) \<le> length out"
  shows "appendBytesTo b x y out = Inr (write_at 0 (span (qb_buffer b) x y) out)"
proof (cases "x < y")
  case True
  then show ?thesis
    using assms by (auto simp: appendBytesTo_def memread_def memcpy_to_def span_def)
next
  case False
  let ?r = "drop (nat x) (qb_buffer b)" and ?l = "take (nat y) (qb_buffer b)"
  have lr: "length ?r = nat (qb_capacity b - x)" "length ?l = nat y"
    using assms by auto
  have fit: "length ?r + length ?l \<le> length out" using out False by (simp add: span_def)
  then have "length (write_at 0 ?r out) = length out" by (intro length_write_at) simp
  then have "memread (qb_buffer b) x (qb_capacity b - x) = Inr ?r"
    "memcpy_to out 0 ?r = Inr (write_at 0 ?r out)" "memread (qb_buffer b) 0 y = Inr ?l"
    "memcpy_to (write_at 0 ?r out) (qb_capacity b - x) ?l = Inr (write_at 0 (?r @ ?l) out)"
    using assms lr fit write_at_adjacent [of 0 ?r ?l out] by (auto simp: memread_def memcpy_to_def)
  then show ?thesis using False by (simp add: appendBytesTo_def span_def)
qed

lemma stream_span:
  assumes c: "0 < c" and buf: "length buf = nat c" and se: "s < e" "e \<le> s + c"
  shows "map (\<lambda>p. buf ! nat (p mod c)) [s..e - 1] = span buf (s mod c) (e mod c)"
proof -
  define x y where "x = s mod c" and "y = e mod c"
  have r: "0 \<le> x" "x < c" "0 \<le> y" "y < c" using c by (auto simp: x_def y_def)
  have e: "e - s = (if x < y then y - x else y - x + c)"
  proof (cases "e = s + c")
    case False
    then have "(y - x) mod c = e - s" using se by (simp add: x_def y_def mod_diff_eq)
    then show ?thesis using mod_diff_index [OF r(3,4,1,2)] se by (auto split: if_splits)
  qed (use c in \<open>simp add: x_def y_def\<close>)
  have p: "(s + int k) mod c = (if x + int k < c then x + int k else x + int k - c)"
    if k: "int k < e - s" for k
  proof -
    have s: "(s + int k) mod c = (x + int k) mod c" by (simp add: x_def mod_add_left_eq)
    show ?thesis
    proof (cases "x + int k < c")
      case False
      have "(x + int k) mod c = (x + int k - c) mod c" by simp
      also have "\<dots> = x + int k - c"
        using r k se False by (intro mod_pos_pos_trivial) auto
      finally show ?thesis using s False by simp
    qed (use s r in simp)
  qed
  show ?thesis
    unfolding x_def [symmetric] y_def [symmetric]
  proof (rule nth_equalityI)
    show "length (map (\<lambda>p. buf ! nat (p mod c)) [s..e - 1]) = length (span buf x y)"
      using length_span [OF r buf] e by simp
    fix k assume "k < length (map (\<lambda>p. buf ! nat (p mod c)) [s..e - 1])"
    then have k: "int k < e - s" by simp
    then show "map (\<lambda>p. buf ! nat (p mod c)) [s..e - 1] ! k = span buf x y ! k"
      using nth_span [OF r buf, of k] p [OF k] e by (subst nth_map) (auto simp: nth_upto)
  qed
qed

lemma appendBytesTo_segment:
  assumes inv: "qb_inv b" and se: "s < e" "e \<le> s + qb_capacity b" and out: "e - s \<le> int (length out)"
  shows "appendBytesTo b (normalise b s) (normalise b e) out
    = Inr (write_at 0 (map (cell b) [s..e - 1]) out)"
proof -
  have c: "0 < qb_capacity b" using inv by (rule qb_inv_cap)
  have buf: "length (qb_buffer b) = nat (qb_capacity b)" using inv by (auto simp: qb_inv_def)
  have seg: "map (cell b) [s..e - 1] = span (qb_buffer b) (s mod qb_capacity b) (e mod qb_capacity b)"
    using stream_span [OF c buf se] by (simp add: cell_def [abs_def])
  have "length (map (cell b) [s..e - 1]) \<le> length out" using out by simp
  then show ?thesis
    using c buf unfolding seg normalise_eq [OF inv] by (intro appendBytesTo_span) auto
qed

section \<open>Properties\<close>


text \<open>A buffer of four bytes that holds three bytes of which the first two were released.\<close>

definition demoBuffer :: QueryBuffer where
  "demoBuffer = \<lparr>qb_startP = 2, qb_endP = 3, qb_capacity = 4, qb_mask = 3, qb_wraps = 0,
     qb_bytesProcessed = 2, qb_tuplesProcessed = 2, qb_tasksProcessed = 1, qb_temp = 0, qb_id = 0,
     qb_isNuma = False, qb_tupleSize = 1, qb_copyDataOnInsert = True, qb_filesystem = False,
     qb_batchSize = 2, qb_numberOfSlots = 2, qb_emptySlots = 2, qb_slots = replicate 4 newSlot,
     qb_nextSlotToWrite = 0, qb_numberOfSlotsToRecover = 0, qb_numberOfSlotsToFree = 0,
     qb_buffer = [10, 11, 12, 13]\<rparr>"

lemma demoBuffer_inv: "qb_inv demoBuffer" "qb_copyDataOnInsert demoBuffer"
  by (auto simp: demoBuffer_def qb_inv_def is_pow2_def intro: exI [of _ 2])


lemma freeOffset_single:
  assumes "qb_inv b" and "freeOffset (qb_startP b mod qb_capacity b) b = Inr b'"
  shows "qb_startP b' = qb_startP b + qb_capacity b + 1"
  using assms(2) by (auto simp: freeOffset_def account_def freeBytes_def Let_def normalise_eq [OF assms(1)] split: if_splits)

text \<open>
  C35. The buffer is a FIFO queue of bytes as long as every release is of at least two bytes. Start from
  a constructed buffer that copies on insert and run any sequence of insertions (accepted or refused)
  and releases of non-empty prefixes none of which is a single byte (the last component of the state
  is False): the start and end positions count the released and the accepted bytes, and the
  unreleased bytes are exactly the accepted bytes from the start position on, never more than the
  capacity. A release of a single byte instead moves the start by the capacity and one, past every
  byte that was accepted.
\<close>

theorem circular_fifo:
  assumes "newCircularQueryBuffer conf i capacity tupleSize True batchSize = Inr b0"
    and "capacity \<le> 2 ^ 63" and "0 < tupleSize"
    and "(queue_step (putRegion conf f) freeOffset qb_startP qb_endP qb_capacity)\<^sup>*\<^sup>* (b0, [], False) (b, h, False)"
  shows "contents b = drop (nat (qb_startP b)) h \<and> qb_endP b = int (length h)
    \<and> 0 \<le> qb_startP b \<and> qb_startP b \<le> qb_endP b
    \<and> qb_endP b - qb_startP b \<le> qb_capacity b0
    \<and> (\<forall>b'. freeOffset (qb_startP b mod qb_capacity b) b = Inr b' \<longrightarrow> qb_startP b' = qb_startP b + qb_capacity b0 + 1)"
proof -
  have b0: "qb_inv b0" "contents b0 = []" "qb_startP b0 = 0" "qb_endP b0 = 0" "qb_copyDataOnInsert b0"
    using newCircularQueryBuffer_wf [OF assms(1-3)] by auto
  then have "cb.fifo (b0, [])" by (simp add: cb.fifo_def qb_copying_def)
  then have "cb.fifo (b, h)" and cap: "qb_capacity b = qb_capacity b0"
    using cb.fifo_run [OF assms(4)] by auto
  then have b: "qb_copying b" "qb_endP b = int (length h)" "contents b = drop (nat (qb_startP b)) h"
    by (auto simp: cb.fifo_def)
  then have "qb_inv b" by (simp add: qb_copying_def)
  then have single: "\<forall>b'. freeOffset (qb_startP b mod qb_capacity b) b = Inr b' \<longrightarrow> qb_startP b' = qb_startP b + qb_capacity b0 + 1"
    unfolding cap [symmetric] by (blast intro: freeOffset_single)
  have "0 \<le> qb_startP b" "qb_startP b \<le> qb_endP b" "qb_endP b - qb_startP b \<le> qb_capacity b0"
    using cb.bounds [OF b(1)] cap by auto
  with b(2,3) single show ?thesis by (intro conjI)
qed

lemma demo_new: "\<exists>b0. newCircularQueryBuffer (defaultConf\<lparr>LINEAGE_ON := False\<rparr>) 0 4 1 True 2 = Inr b0"
proof -
  have "upper_power_of_two 4 = Some 4"
    by (simp add: upper_power_of_two_def pow2_loop.simps)
  then show ?thesis by (simp add: newCircularQueryBuffer_def newQueryBuffer_def)
qed

theorem circular_fifo_witness:
  "\<exists>b0 b. newCircularQueryBuffer (defaultConf\<lparr>LINEAGE_ON := False\<rparr>) 0 4 1 True 2 = Inr b0
    \<and> (queue_step (putRegion defaultConf emptyFactory) freeOffset qb_startP qb_endP qb_capacity)\<^sup>*\<^sup>*
        (b0, [], False) (b, [7, 8, 9], False) \<and> contents b = [9]"
proof -
  let ?conf = "defaultConf\<lparr>LINEAGE_ON := False\<rparr>"
  let ?step = "queue_step (putRegion defaultConf emptyFactory) freeOffset qb_startP qb_endP qb_capacity"
  obtain b0 where new: "newCircularQueryBuffer ?conf 0 4 1 True 2 = Inr b0" using demo_new by blast
  have b0: "qb_inv b0" "qb_startP b0 = 0" "qb_endP b0 = 0" "4 \<le> qb_capacity b0" "qb_copyDataOnInsert b0"
    using newCircularQueryBuffer_wf [OF new] by auto
  obtain b1 where b1: "putRegion defaultConf emptyFactory [7, 8, 9] b0 = Inr (0, b1)" "qb_startP b1 = 0" "qb_endP b1 = 3"
      "qb_copying b1"
    using cb.put_room [of b0 "[7, 8, 9]" defaultConf emptyFactory] b0 by (auto simp: qb_copying_def)
  obtain b where b: "freeOffset (1 mod qb_capacity b1) b1 = Inr b" "qb_startP b = 2"
    using cb.free_prefix [OF b1(4), of 1] b1(2,3) by auto
  have "?step (b0, [], False) (b1, if (0 :: int) < 0 then [] else [] @ [7, 8, 9], False)"
    by (rule step_put) (use b1(1) in simp_all)
  moreover have "?step (b1, [7, 8, 9], False) (b, [7, 8, 9], False \<or> 1 = qb_startP b1)"
    by (rule step_free) (use b1 b in simp_all)
  ultimately have run: "?step\<^sup>*\<^sup>* (b0, [], False) (b, [7, 8, 9], False)"
    using b1(2) by (auto intro: converse_rtranclp_into_rtranclp)
  have conf: "putRegion ?conf emptyFactory = putRegion defaultConf emptyFactory"
    by (simp add: putRegion_def fun_eq_iff)
  have "contents b = drop (nat (qb_startP b)) [7, 8, 9]"
    by (rule circular_fifo [OF new _ _ run [folded conf], THEN conjunct1]) simp_all
  then have "contents b = [9]" using b(2) by simp
  then show ?thesis using new run by auto
qed

text \<open>
  Reading a window of the stream: \<open>appendBytesTo\<close> with the array indices of two stream
  positions at most one capacity apart copies exactly the bytes at the positions between them, in
  stream order, also when the window crosses the end of the array, and touches nothing behind
  them in the output.
\<close>

theorem appendBytesTo_window:
  assumes "qb_inv b" and "s < e" and "e \<le> s + qb_capacity b" and "e - s \<le> int (length out)"
  shows "appendBytesTo b (normalise b s) (normalise b e) out
    = Inr (map (cell b) [s..e - 1] @ drop (nat (e - s)) out)"
  using appendBytesTo_segment [OF assms] by (simp add: write_at_def)

theorem appendBytesTo_window_witness:
  "appendBytesTo demoBuffer (normalise demoBuffer 3) (normalise demoBuffer 6) [0, 0, 0, 99]
    = Inr [13, 10, 11, 99]"
proof -
  have "[3..5] = [3, 4, 5 :: int]" by (simp add: upto.simps)
  then show ?thesis
    using appendBytesTo_window [of demoBuffer 3 6 "[0, 0, 0, 99]"] demoBuffer_inv
    by (simp add: demoBuffer_def cell_def)
qed

text \<open>
  \<open>free()\<close> without argument is meant to release one batch. Its last index is the first byte
  of the next batch and \<open>free\<close> releases up to and including the last index, so one byte more than
  a batch is released.
\<close>

theorem freeBatch_releases_one_more:
  assumes "qb_inv b" and "0 < BATCH_SIZE conf" and "BATCH_SIZE conf < qb_capacity b"
    and "freeBatch conf b = Inr b'"
  shows "qb_startP b' = qb_startP b + BATCH_SIZE conf + 1"
proof -
  have "freeBytes b ((qb_startP b + BATCH_SIZE conf) mod qb_capacity b) = BATCH_SIZE conf + 1"
    using freeBytes_stream [of b "qb_startP b + BATCH_SIZE conf"] assms by simp
  then show ?thesis
    using assms(1,4) by (auto simp: freeBatch_def Let_def account_def normalise_eq add.commute split: if_splits)
qed

theorem freeBatch_releases_one_more_witness:
  "\<exists>b'. freeBatch (defaultConf\<lparr>BATCH_SIZE := 2\<rparr>) demoBuffer = Inr b' \<and> qb_startP b' = 5"
proof -
  obtain b' where b': "freeBatch (defaultConf\<lparr>BATCH_SIZE := 2\<rparr>) demoBuffer = Inr b'"
    by (simp add: freeBatch_def account_def Let_def demoBuffer_def)
  then show ?thesis
    using freeBatch_releases_one_more [OF demoBuffer_inv(1) _ _ b'] by (simp add: demoBuffer_def)
qed

end
