(* ===== verification/WindowBatch.thy ===== *)
theory WindowBatch
  imports PaneSlicing CircularBuffer
begin

text \<open>
  The unit of work of a task (\<open>tasks/WindowBatch.cpp\<close>): a range of the input buffer with its
  stream positions, timestamps and free pointers, and the pointers of the window fragments in
  it. The query, the buffer and the partial results a batch points to are referred to by number.
  The members that the constructor leaves uninitialised are options, \<open>None\<close> before the first
  store.
\<close>

datatype TaskType = PROCESS | ONLY_PROCESS | MERGE | FORWARD | MERGE_FORWARD | CHECKPOINT | RECOVER | INSERT

record WindowBatch =
  wb_batchSize :: int
  wb_taskId :: int
  wb_pid :: int
  wb_numaNodeId :: int
  wb_freePointer1 :: int
  wb_freePointer2 :: int
  wb_prevFreePointer1 :: int
  wb_prevFreePointer2 :: int
  wb_query :: "int option"
  wb_inputBuffer :: "int option"
  wb_outputBuffer :: "nat option"
  wb_openingWindows :: "nat option"
  wb_closingWindows :: "nat option"
  wb_pendingWindows :: "nat option"
  wb_completeWindows :: "nat option"
  wb_windowDefinition :: "WindowDefinition option"
  wb_tupleSize :: "int option"
  wb_latencyMark :: int
  wb_startPointer :: int
  wb_endPointer :: int
  wb_streamStartPointer :: int
  wb_streamEndPointer :: int
  wb_startTimestamp :: int
  wb_endTimestamp :: int
  wb_windowStartPointers :: "int list"
  wb_windowEndPointers :: "int list"
  wb_lastWindowIndex :: int
  wb_fragmentedWindows :: bool
  wb_hasPendingWindows :: bool
  wb_initialised :: bool
  wb_replayTimestamps :: bool
  wb_offset :: int
  wb_type :: TaskType
  wb_graph :: "(LineageGraph \<times> nat) option"
  wb_prevStartTimestamp :: "int option"
  wb_prevEndTimestamp :: "int option"
  wb_emptyStartWindowId :: "int option"
  wb_emptyEndWindowId :: "int option"
  wb_watermark :: int

definition newWindowBatch ::
  "SystemConf \<Rightarrow> int \<Rightarrow> int \<Rightarrow> int \<Rightarrow> int \<Rightarrow> int option \<Rightarrow> int option \<Rightarrow> WindowDefinition option \<Rightarrow>
   int option \<Rightarrow> int \<Rightarrow> int \<Rightarrow> int \<Rightarrow> WindowBatch" where
  "newWindowBatch conf batchSize taskId freePointer1 freePointer2 query buffer windowDefinition tupleSize latency
     prevFreePointer1 prevFreePointer2 =
     \<lparr>wb_batchSize = batchSize, wb_taskId = taskId, wb_pid = 0, wb_numaNodeId = 0,
      wb_freePointer1 = freePointer1, wb_freePointer2 = freePointer2,
      wb_prevFreePointer1 = prevFreePointer1, wb_prevFreePointer2 = prevFreePointer2,
      wb_query = query, wb_inputBuffer = buffer, wb_outputBuffer = None,
      wb_openingWindows = None, wb_closingWindows = None, wb_pendingWindows = None,
      wb_completeWindows = None, wb_windowDefinition = windowDefinition, wb_tupleSize = tupleSize,
      wb_latencyMark = latency, wb_startPointer = -1, wb_endPointer = -1,
      wb_streamStartPointer = -1, wb_streamEndPointer = -1, wb_startTimestamp = -1, wb_endTimestamp = -1,
      wb_windowStartPointers = replicate (nat (PARTIAL_WINDOWS conf)) 0,
      wb_windowEndPointers = replicate (nat (PARTIAL_WINDOWS conf)) 0, wb_lastWindowIndex = 0,
      wb_fragmentedWindows = False, wb_hasPendingWindows = False, wb_initialised = False,
      wb_replayTimestamps = False, wb_offset = 0, wb_type = PROCESS, wb_graph = None,
      wb_prevStartTimestamp = None, wb_prevEndTimestamp = None, wb_emptyStartWindowId = None,
      wb_emptyEndWindowId = None, wb_watermark = - (2 ^ 63)\<rparr>"

definition wb_set ::
  "int \<Rightarrow> int \<Rightarrow> int \<Rightarrow> int \<Rightarrow> int option \<Rightarrow> int option \<Rightarrow> WindowDefinition option \<Rightarrow>
   int option \<Rightarrow> int \<Rightarrow> int \<Rightarrow> int \<Rightarrow> WindowBatch \<Rightarrow> WindowBatch" where
  "wb_set batchSize taskId freePointer1 freePointer2 query buffer windowDefinition tupleSize latency
     prevFreePointer1 prevFreePointer2 wb =
     wb\<lparr>wb_batchSize := batchSize, wb_taskId := taskId, wb_freePointer1 := freePointer1,
        wb_freePointer2 := freePointer2, wb_prevFreePointer1 := prevFreePointer1,
        wb_prevFreePointer2 := prevFreePointer2, wb_query := query, wb_inputBuffer := buffer,
        wb_windowDefinition := windowDefinition, wb_tupleSize := tupleSize, wb_latencyMark := latency,
        wb_startPointer := -1, wb_endPointer := -1, wb_streamStartPointer := -1,
        wb_streamEndPointer := -1, wb_startTimestamp := -1, wb_endTimestamp := -1,
        wb_lastWindowIndex := 0, wb_fragmentedWindows := False, wb_hasPendingWindows := False,
        wb_openingWindows := None, wb_closingWindows := None, wb_pendingWindows := None,
        wb_completeWindows := None, wb_initialised := False, wb_replayTimestamps := False,
        wb_offset := 0, wb_type := PROCESS, wb_numaNodeId := 0\<rparr>"

section \<open>Setters\<close>

definition setLineageGraph :: "(LineageGraph \<times> nat) option \<Rightarrow> WindowBatch \<Rightarrow> WindowBatch" where
  "setLineageGraph g wb = wb\<lparr>wb_graph := g\<rparr>"

definition setBufferPointers :: "int \<Rightarrow> int \<Rightarrow> WindowBatch \<Rightarrow> WindowBatch" where
  "setBufferPointers startP endP wb = wb\<lparr>wb_startPointer := startP, wb_endPointer := endP\<rparr>"

definition setStreamPointers :: "int \<Rightarrow> int \<Rightarrow> WindowBatch \<Rightarrow> WindowBatch" where
  "setStreamPointers startP endP wb = wb\<lparr>wb_streamStartPointer := startP, wb_streamEndPointer := endP\<rparr>"

definition setBatchTimestamps :: "int \<Rightarrow> int \<Rightarrow> WindowBatch \<Rightarrow> WindowBatch" where
  "setBatchTimestamps startP endP wb = wb\<lparr>wb_startTimestamp := startP, wb_endTimestamp := endP\<rparr>"

definition setPrevTimestamps :: "int \<Rightarrow> int \<Rightarrow> WindowBatch \<Rightarrow> WindowBatch" where
  "setPrevTimestamps startTime endTime wb =
     wb\<lparr>wb_prevStartTimestamp := Some startTime, wb_prevEndTimestamp := Some endTime\<rparr>"

definition setEmptyWindowIds :: "int \<Rightarrow> int \<Rightarrow> WindowBatch \<Rightarrow> WindowBatch" where
  "setEmptyWindowIds emptyStartWindow emptyEndWindow wb =
     wb\<lparr>wb_emptyStartWindowId := Some emptyStartWindow, wb_emptyEndWindowId := Some emptyEndWindow\<rparr>"

definition setWatermark :: "int \<Rightarrow> WindowBatch \<Rightarrow> WindowBatch" where
  "setWatermark watermark wb = wb\<lparr>wb_watermark := watermark\<rparr>"

definition setLatencyMark :: "int \<Rightarrow> WindowBatch \<Rightarrow> WindowBatch" where
  "setLatencyMark latency wb = wb\<lparr>wb_latencyMark := latency\<rparr>"

definition setPid :: "int \<Rightarrow> WindowBatch \<Rightarrow> WindowBatch" where
  "setPid p wb = wb\<lparr>wb_pid := p\<rparr>"

definition setTaskId :: "int \<Rightarrow> WindowBatch \<Rightarrow> WindowBatch" where
  "setTaskId taskId wb = wb\<lparr>wb_taskId := taskId\<rparr>"

definition setOutputBuffer :: "nat option \<Rightarrow> WindowBatch \<Rightarrow> WindowBatch" where
  "setOutputBuffer r wb = wb\<lparr>wb_outputBuffer := r\<rparr>"

definition setTimestampOffset :: "int \<Rightarrow> WindowBatch \<Rightarrow> WindowBatch" where
  "setTimestampOffset v wb = wb\<lparr>wb_offset := v, wb_replayTimestamps := True\<rparr>"

definition setTaskType :: "TaskType \<Rightarrow> WindowBatch \<Rightarrow> WindowBatch" where
  "setTaskType t wb = wb\<lparr>wb_type := t\<rparr>"

definition setOpeningWindows :: "nat option \<Rightarrow> WindowBatch \<Rightarrow> WindowBatch" where
  "setOpeningWindows r wb = wb\<lparr>wb_fragmentedWindows := True, wb_openingWindows := r\<rparr>"

definition setClosingWindows :: "nat option \<Rightarrow> WindowBatch \<Rightarrow> WindowBatch" where
  "setClosingWindows r wb = wb\<lparr>wb_fragmentedWindows := True, wb_closingWindows := r\<rparr>"

definition setPendingWindows :: "nat option \<Rightarrow> WindowBatch \<Rightarrow> WindowBatch" where
  "setPendingWindows r wb = wb\<lparr>wb_fragmentedWindows := True, wb_pendingWindows := r\<rparr>"

definition setCompleteWindows :: "nat option \<Rightarrow> WindowBatch \<Rightarrow> WindowBatch" where
  "setCompleteWindows r wb = wb\<lparr>wb_fragmentedWindows := True, wb_completeWindows := r\<rparr>"

definition wb_clear :: "WindowBatch \<Rightarrow> WindowBatch" where
  "wb_clear wb = wb\<lparr>wb_graph := None, wb_initialised := False, wb_openingWindows := None,
     wb_closingWindows := None, wb_pendingWindows := None, wb_completeWindows := None,
     wb_outputBuffer := None\<rparr>"

definition resetWindowPointers :: "WindowBatch \<Rightarrow> WindowBatch" where
  "resetWindowPointers wb =
     wb\<lparr>wb_windowStartPointers := map (\<lambda>_. -1) (wb_windowStartPointers wb),
        wb_windowEndPointers := map (\<lambda>_. -1) (wb_windowEndPointers wb)\<rparr>"

section \<open>Timestamps\<close>

definition wb_getTimestamp :: "SystemConf \<Rightarrow> QueryBuffer \<Rightarrow> int \<Rightarrow> int res" where
  "wb_getTimestamp conf b index =
     rbind (getLong b index) (\<lambda>v. Inr (if LATENCY_ON conf then tupleTimestampLong v else v))"

text \<open>
  The loop indices \<open>i, i + step, ...\<close> below \<open>limit\<close>, in \<open>unsigned long\<close> arithmetic; a step of
  zero makes the loop endless.
\<close>

function strideBelow :: "nat \<Rightarrow> nat \<Rightarrow> nat \<Rightarrow> nat list" where
  "strideBelow i limit step = (if i < limit \<and> 0 < step then i # strideBelow (i + step) limit step else [])"
  by pat_completeness auto
termination
  by (relation "measure (\<lambda>(i, limit, step). limit - i)") auto

declare strideBelow.simps [simp del]

definition updateTimestamps :: "WindowBatch \<Rightarrow> QueryBuffer \<Rightarrow> QueryBuffer res" where
  "updateTimestamps wb b =
     (case wb_tupleSize wb of
        None \<Rightarrow> Inl Undefined
      | Some tupleSize \<Rightarrow>
          let startPos = nat (wb_startPointer wb mod 2 ^ 64) div 8;
              endPos = nat (wb_endPointer wb mod 2 ^ 64) div 8;
              step = nat (tupleSize mod 2 ^ 64) div 8;
              limit = nat ((int endPos - int step) mod 2 ^ 64) in
          if startPos + step < limit \<and> step = 0 then Inl Undefined
          else rfold (\<lambda>i b.
                 rbind (memread (qb_buffer b) (8 * int i) 8) (\<lambda>bs.
                 rbind (memcpy_to (qb_buffer b) (8 * int i) (long_bytes (long_val bs + wb_offset wb))) (\<lambda>m.
                   Inr (b\<lparr>qb_buffer := m\<rparr>))))
               (strideBelow (startPos + step) limit step) b)"

section \<open>Window fragments\<close>

text \<open>The stream and buffer positions of the tuples of a batch.\<close>

function tupleWalk :: "int \<Rightarrow> int \<Rightarrow> int \<Rightarrow> int \<Rightarrow> int \<Rightarrow> (int \<times> int) list" where
  "tupleWalk tupleSize streamEnd endP streamPtr bufferPtr =
     (if 0 < tupleSize \<and> streamPtr < streamEnd \<and> bufferPtr < endP
      then (streamPtr, bufferPtr) # tupleWalk tupleSize streamEnd endP (streamPtr + tupleSize) (bufferPtr + tupleSize)
      else [])"
  by pat_completeness auto
termination
  by (relation "measure (\<lambda>(t, e, f, s, b). nat (e - s))") auto

declare tupleWalk.simps [simp del]

fun rmap :: "('a \<Rightarrow> 'b res) \<Rightarrow> 'a list \<Rightarrow> 'b list res" where
  "rmap f [] = Inr []"
| "rmap f (x # xs) = rbind (f x) (\<lambda>y. rbind (rmap f xs) (\<lambda>ys. Inr (y # ys)))"

definition batchTuples :: "int \<Rightarrow> WindowBatch \<Rightarrow> (int \<times> int) list" where
  "batchTuples tupleSize wb =
     tupleWalk tupleSize (wb_streamEndPointer wb) (wb_endPointer wb)
       (wb_streamStartPointer wb) (to_int32 (wb_startPointer wb))"

definition storePointers :: "WindowBatch \<Rightarrow> PaneState \<Rightarrow> WindowBatch" where
  "storePointers wb s = wb\<lparr>wb_windowStartPointers := ps_starts s, wb_windowEndPointers := ps_ends s,
     wb_lastWindowIndex := ps_last s\<rparr>"

text \<open>The pane of the tuple before the batch, and the position and pane of each tuple of it.\<close>

definition rangePrevPane :: "SystemConf \<Rightarrow> QueryBuffer \<Rightarrow> int \<Rightarrow> int \<Rightarrow> WindowBatch \<Rightarrow> int res" where
  "rangePrevPane conf b tupleSize paneSize wb =
     (if wb_streamStartPointer wb = 0 then Inr (-1)
      else rbind (wb_getTimestamp conf b (wb_startPointer wb - tupleSize)) (\<lambda>t. Inr (t sdiv paneSize)))"

definition rangePanes :: "SystemConf \<Rightarrow> QueryBuffer \<Rightarrow> int \<Rightarrow> int \<Rightarrow> WindowBatch \<Rightarrow> (int \<times> int) list res" where
  "rangePanes conf b tupleSize paneSize wb =
     rmap (\<lambda>(_, bufferPtr). rbind (wb_getTimestamp conf b bufferPtr) (\<lambda>t. Inr (bufferPtr, t sdiv paneSize)))
       (batchTuples tupleSize wb)"

text \<open>The constructor gives both arrays of window pointers the same length, \<open>PARTIAL_WINDOWS\<close>, and nothing changes it.\<close>

definition initPartialRangeBasedWindowPointers :: "SystemConf \<Rightarrow> QueryBuffer \<Rightarrow> WindowBatch \<Rightarrow> WindowBatch res" where
  "initPartialRangeBasedWindowPointers conf b wb =
     (case (wb_windowDefinition wb, wb_tupleSize wb) of
        (Some wd, Some tupleSize) \<Rightarrow>
          if tupleSize \<le> 0 \<or> wd_paneSize wd = 0 then Inl Undefined
          else
            rbind (rangePrevPane conf b tupleSize (wd_paneSize wd) wb) (\<lambda>pid0.
            rbind (rangePanes conf b tupleSize (wd_paneSize wd) wb) (\<lambda>tuples.
            rbind (numberOfPanes wd) (\<lambda>np.
            rbind (panesPerSlide wd) (\<lambda>pps.
            rbind (slicePanes (length (wb_windowStartPointers wb)) np pps (wb_streamStartPointer wb = 0)
                     pid0 tuples (wb_lastWindowIndex wb)) (\<lambda>s.
              Inr (storePointers wb s))))))
      | _ \<Rightarrow> Inl Undefined)"

definition countPrevPane :: "int \<Rightarrow> int \<Rightarrow> WindowBatch \<Rightarrow> int" where
  "countPrevPane tupleSize paneSize wb =
     (if wb_streamStartPointer wb = 0 then -1
      else (wb_streamStartPointer wb sdiv tupleSize) sdiv paneSize - 1)"

definition countPanes :: "int \<Rightarrow> int \<Rightarrow> WindowBatch \<Rightarrow> (int \<times> int) list" where
  "countPanes tupleSize paneSize wb =
     map (\<lambda>(streamPtr, bufferPtr). (bufferPtr, (streamPtr sdiv tupleSize) sdiv paneSize))
       (batchTuples tupleSize wb)"

definition initPartialCountBasedWindowPointers :: "WindowBatch \<Rightarrow> WindowBatch res" where
  "initPartialCountBasedWindowPointers wb =
     (case (wb_windowDefinition wb, wb_tupleSize wb) of
        (Some wd, Some tupleSize) \<Rightarrow>
          if tupleSize \<le> 0 \<or> wd_paneSize wd = 0 then Inl Undefined
          else
            rbind (numberOfPanes wd) (\<lambda>np.
            rbind (panesPerSlide wd) (\<lambda>pps.
            rbind (slicePanes (length (wb_windowStartPointers wb)) np pps (wb_streamStartPointer wb = 0)
                     (countPrevPane tupleSize (wd_paneSize wd) wb)
                     (countPanes tupleSize (wd_paneSize wd) wb) (wb_lastWindowIndex wb)) (\<lambda>s.
              Inr (storePointers wb s))))
      | _ \<Rightarrow> Inl Undefined)"

definition initPartialWindowPointers :: "SystemConf \<Rightarrow> QueryBuffer \<Rightarrow> WindowBatch \<Rightarrow> WindowBatch res" where
  "initPartialWindowPointers conf b wb =
     (if wb_initialised wb then Inl RuntimeError
      else case wb_windowDefinition wb of
        None \<Rightarrow> Inl Undefined
      | Some wd \<Rightarrow>
          rbind (if isRangeBased wd then initPartialRangeBasedWindowPointers conf b wb
                 else initPartialCountBasedWindowPointers wb) (\<lambda>wb.
            Inr (wb\<lparr>wb_initialised := True\<rparr>)))"


section \<open>Properties\<close>

lemma tupleWalk_positions: "t \<in> set (tupleWalk ts e f s b) \<Longrightarrow> b \<le> snd t"
proof (induction ts e f s b rule: tupleWalk.induct)
  case (1 ts e f s b)
  show ?case
  proof (cases "0 < ts \<and> s < e \<and> b < f")
    case True
    then have "tupleWalk ts e f s b = (s, b) # tupleWalk ts e f (s + ts) (b + ts)"
      by (subst tupleWalk.simps) simp
    then have "t = (s, b) \<or> b + ts \<le> snd t" using 1 True by auto
    then show ?thesis using True by auto
  next
    case False
    have "tupleWalk ts e f s b = []" using False by (subst tupleWalk.simps) auto
    then show ?thesis using 1(2) by simp
  qed
qed

lemma batchTuples_positions:
  assumes "t \<in> set (batchTuples ts wb)" and "0 \<le> wb_startPointer wb" and "wb_startPointer wb \<le> INT_MAX"
  shows "0 \<le> snd t"
proof -
  have "to_int32 (wb_startPointer wb) = wb_startPointer wb"
    using assms(2,3) by (intro to_int32_id) (auto simp: INT_MIN_def)
  then show ?thesis using tupleWalk_positions assms(1,2) unfolding batchTuples_def by fastforce
qed

lemma rmap_set: "rmap f xs = Inr ys \<Longrightarrow> y \<in> set ys \<Longrightarrow> \<exists>x \<in> set xs. f x = Inr y"
  by (induction xs arbitrary: ys) auto

text \<open>
  C25. Slicing a batch by time: take a batch with initialised buffer pointers whose tuples lie in
  the panes \<open>ts\<close>, after a tuple in pane \<open>p0\<close>. If the windows fit into the pointer arrays, the
  initialisation returns, and the pointer arrays hold for every window of the query that opens
  or closes in the batch where its first tuple is and where the first tuple behind it is, with -1
  where the window does not open or close in the batch.
\<close>

theorem init_range_fragments:
  assumes "wb_windowDefinition wb = Some wd" and "wb_tupleSize wb = Some tupleSize"
    and "wd_wf wd" and "isRangeBased wd" and "0 < tupleSize"
    and "\<not> wb_initialised wb" and "wb_lastWindowIndex wb = 0"
    and "0 \<le> wb_startPointer wb" and "wb_startPointer wb \<le> INT_MAX"
    and "rangePrevPane conf b tupleSize (wd_paneSize wd) wb = Inr p0" and "-1 \<le> p0"
    and "rangePanes conf b tupleSize (wd_paneSize wd) wb = Inr ts"
    and "numberOfPanes wd = Inr np" and "panesPerSlide wd = Inr pps"
    and "roomy (length (wb_windowStartPointers wb)) np pps p0 (reach p0 ts)"
  shows "\<exists>wb' base. initPartialWindowPointers conf b wb = Inr wb' \<and> wb_initialised wb'
    \<and> fragments np pps p0 ts (wb_windowStartPointers wb') (wb_windowEndPointers wb')
        (wb_lastWindowIndex wb') base"
proof -
  have np: "0 < pps" "0 < np" using wd_wf_panes [OF assms(3)] assms(13,14) by force+
  have fst0: "wb_streamStartPointer wb = 0 \<longrightarrow> p0 = -1"
    using assms(10) by (auto simp: rangePrevPane_def)
  have pos: "\<forall>t \<in> set ts. 0 \<le> fst t"
    using rmap_set [OF assms(12) [unfolded rangePanes_def]] batchTuples_positions [OF _ assms(8,9)]
    by fastforce
  obtain s base where s: "slicePanes (length (wb_windowStartPointers wb)) np pps (wb_streamStartPointer wb = 0) p0 ts 0 = Inr s"
    "fragments np pps p0 ts (ps_starts s) (ps_ends s) (ps_last s) base"
    using slicePanes_fragments [OF np assms(11) fst0 pos assms(15)] by blast
  have "initPartialWindowPointers conf b wb = Inr ((storePointers wb s)\<lparr>wb_initialised := True\<rparr>)"
    using assms s(1) wd_wf_paneSize_pos [OF assms(3)]
    by (simp add: initPartialWindowPointers_def initPartialRangeBasedWindowPointers_def)
  then show ?thesis using s(2) by (auto simp: storePointers_def)
qed

text \<open>Batches of a window of size 4 and slide 2, over eight pointer cells.\<close>

definition demoWindow :: "WindowMeasure \<Rightarrow> WindowDefinition" where
  "demoWindow m = \<lparr>wd_size = 4, wd_slide = 2, wd_paneSize = 2, wd_gap = 0, wd_measure = m, wd_type = SLIDING\<rparr>"

definition demoBatch :: "WindowMeasure \<Rightarrow> int \<Rightarrow> int \<Rightarrow> int \<Rightarrow> WindowBatch" where
  "demoBatch m tupleSize startP endP =
     setStreamPointers startP endP (setBufferPointers startP endP
       (newWindowBatch (defaultConf\<lparr>PARTIAL_WINDOWS := 8\<rparr>) (endP - startP) 1 (-1) (-1) (Some 0) (Some 0)
          (Some (demoWindow m)) (Some tupleSize) (-1) (-1) (-1)))"

definition demoInput :: QueryBuffer where
  "demoInput = demoBuffer\<lparr>qb_capacity := 16, qb_mask := 15, qb_startP := 0, qb_endP := 16,
     qb_buffer := long_bytes 0 @ long_bytes 5\<rparr>"

lemma demoWindow_wf: "wd_wf (demoWindow m)" "numberOfPanes (demoWindow m) = Inr 2"
  "panesPerSlide (demoWindow m) = Inr 1"
  by (simp_all add: wd_wf_def demoWindow_def numberOfPanes_def panesPerSlide_def)

lemmas demo_defs = demoBatch_def demoWindow_def setStreamPointers_def setBufferPointers_def newWindowBatch_def

lemma demoInput_panes:
  "rangePanes (defaultConf\<lparr>LATENCY_ON := False\<rparr>) demoInput 8 2 (demoBatch RANGE_BASED 8 0 16) = Inr [(0, 0), (8, 2)]"
proof -
  have t: "wb_getTimestamp (defaultConf\<lparr>LATENCY_ON := False\<rparr>) demoInput 0 = Inr 0"
    "wb_getTimestamp (defaultConf\<lparr>LATENCY_ON := False\<rparr>) demoInput 8 = Inr 5"
    by (simp_all add: wb_getTimestamp_def getLong_def normalise_def demoInput_def memread_def long_val_long_bytes)
  have "batchTuples 8 (demoBatch RANGE_BASED 8 0 16) = [(0, 0), (8, 8)]"
    by (simp add: batchTuples_def demo_defs tupleWalk.simps to_int32_def)
  then show ?thesis using t by (simp add: rangePanes_def sdiv_nonneg)
qed

theorem init_range_fragments_witness:
  "\<exists>wb' base. initPartialWindowPointers (defaultConf\<lparr>LATENCY_ON := False\<rparr>) demoInput (demoBatch RANGE_BASED 8 0 16)
      = Inr wb' \<and> fragments 2 1 (-1) [(0, 0), (8, 2)] (wb_windowStartPointers wb') (wb_windowEndPointers wb')
        (wb_lastWindowIndex wb') base"
proof -
  let ?wb = "demoBatch RANGE_BASED 8 0 16"
  have "rangePanes (defaultConf\<lparr>LATENCY_ON := False\<rparr>) demoInput 8 (wd_paneSize (demoWindow RANGE_BASED)) ?wb
      = Inr [(0, 0), (8, 2)]"
    using demoInput_panes by (simp add: demoWindow_def)
  moreover have "rangePrevPane (defaultConf\<lparr>LATENCY_ON := False\<rparr>) demoInput 8 (wd_paneSize (demoWindow RANGE_BASED)) ?wb
      = Inr (-1)"
    by (simp add: rangePrevPane_def demo_defs)
  moreover have "roomy (length (wb_windowStartPointers ?wb)) 2 1 (-1) (reach (-1) [(0, 0), (8, 2)])"
    by (simp add: roomy_def reach_def demo_defs firstClose_def)
  ultimately show ?thesis
    using init_range_fragments [of ?wb "demoWindow RANGE_BASED" 8 "defaultConf\<lparr>LATENCY_ON := False\<rparr>" demoInput "-1"]
      demoWindow_wf [of RANGE_BASED]
    by (simp add: isRangeBased_def demo_defs INT_MAX_def) blast
qed

text \<open>
  Slicing a batch by count: the same for a window over tuple counts, if the batch starts at
  a pane boundary of the stream. The panes are those of the tuple numbers, and the pane before
  the batch is that of the last tuple before it.
\<close>

theorem init_count_fragments:
  assumes "wb_windowDefinition wb = Some wd" and "wb_tupleSize wb = Some tupleSize"
    and "wd_wf wd" and "isRowBased wd" and "0 < tupleSize"
    and "\<not> wb_initialised wb" and "wb_lastWindowIndex wb = 0"
    and "0 \<le> wb_startPointer wb" and "wb_startPointer wb \<le> INT_MAX"
    and "0 \<le> wb_streamStartPointer wb" and "(tupleSize * wd_paneSize wd) dvd wb_streamStartPointer wb"
    and "p0 = (wb_streamStartPointer wb div tupleSize - 1) div wd_paneSize wd"
    and "ts = countPanes tupleSize (wd_paneSize wd) wb"
    and "numberOfPanes wd = Inr np" and "panesPerSlide wd = Inr pps"
    and "roomy (length (wb_windowStartPointers wb)) np pps p0 (reach p0 ts)"
  shows "\<exists>wb' base. initPartialWindowPointers conf b wb = Inr wb' \<and> wb_initialised wb'
    \<and> fragments np pps p0 ts (wb_windowStartPointers wb') (wb_windowEndPointers wb')
        (wb_lastWindowIndex wb') base"
proof -
  have np: "0 < pps" "0 < np" using wd_wf_panes [OF assms(3)] assms(14,15) by force+
  have g: "0 < wd_paneSize wd" by (rule wd_wf_paneSize_pos [OF assms(3)])
  obtain k where k: "wb_streamStartPointer wb = tupleSize * wd_paneSize wd * k" using assms(11) by blast
  have "0 < tupleSize * wd_paneSize wd" using assms(5) g by simp
  then have k0: "0 \<le> k" using assms(10) k by (simp add: zero_le_mult_iff)
  have kd: "wb_streamStartPointer wb div tupleSize = wd_paneSize wd * k" using k assms(5) by simp
  have "p0 = k - 1"
    using zdiv_less_iff [OF g, of "wd_paneSize wd * k - 1" k] zdiv_ge_iff [OF g, of "k - 1" "wd_paneSize wd * k - 1"] g
    unfolding assms(12) kd by (simp add: algebra_simps)
  moreover have "countPrevPane tupleSize (wd_paneSize wd) wb = k - 1"
    using kd k0 g assms(5,10) k by (auto simp: countPrevPane_def sdiv_nonneg)
  ultimately have p0: "countPrevPane tupleSize (wd_paneSize wd) wb = p0" "-1 \<le> p0"
      "wb_streamStartPointer wb = 0 \<longrightarrow> p0 = -1"
    using k0 k assms(5) g by auto
  have pos: "\<forall>t \<in> set ts. 0 \<le> fst t"
    using batchTuples_positions [OF _ assms(8,9)] unfolding assms(13) countPanes_def by fastforce
  obtain s base where s: "slicePanes (length (wb_windowStartPointers wb)) np pps (wb_streamStartPointer wb = 0) p0 ts 0 = Inr s"
    "fragments np pps p0 ts (ps_starts s) (ps_ends s) (ps_last s) base"
    using slicePanes_fragments [OF np p0(2,3) pos assms(16)] by blast
  have "\<not> isRangeBased wd" using assms(4) by (simp add: isRangeBased_def isRowBased_def)
  then have "initPartialWindowPointers conf b wb = Inr ((storePointers wb s)\<lparr>wb_initialised := True\<rparr>)"
    using assms(1-7,13-15) s(1) g p0(1)
    by (simp add: initPartialWindowPointers_def initPartialCountBasedWindowPointers_def)
  then show ?thesis using s(2) by (auto simp: storePointers_def)
qed


theorem init_count_fragments_witness:
  "\<exists>wb' base. initPartialWindowPointers defaultConf demoInput (demoBatch ROW_BASED 1 4 8) = Inr wb'
    \<and> fragments 2 1 1 [(4, 2), (5, 2), (6, 3), (7, 3)] (wb_windowStartPointers wb') (wb_windowEndPointers wb')
        (wb_lastWindowIndex wb') base"
proof -
  let ?wb = "demoBatch ROW_BASED 1 4 8"
  have "countPanes 1 (wd_paneSize (demoWindow ROW_BASED)) ?wb = [(4, 2), (5, 2), (6, 3), (7, 3)]"
    by (simp add: countPanes_def batchTuples_def demo_defs tupleWalk.simps to_int32_def sdiv_nonneg)
  moreover have "roomy (length (wb_windowStartPointers ?wb)) 2 1 1 (reach 1 [(4, 2), (5, 2), (6, 3), (7, 3)])"
    by (simp add: roomy_def reach_def demo_defs firstClose_def)
  ultimately show ?thesis
    using init_count_fragments [of ?wb "demoWindow ROW_BASED" 1 1 "[(4, 2), (5, 2), (6, 3), (7, 3)]" 2 1 defaultConf demoInput]
      demoWindow_wf [of ROW_BASED]
    by (simp add: isRowBased_def demo_defs INT_MAX_def) blast
qed

text \<open>
  A batch of a count-based query that starts inside a pane opens the window of that pane
  again: with panes of two tuples and a batch that starts at tuple 3, window 1, which tuple 2
  of the previous batch has opened, gets a start pointer in this batch as well.
\<close>

theorem init_count_reopens:
  "case initPartialWindowPointers defaultConf demoInput (demoBatch ROW_BASED 1 3 6) of
     Inl e \<Rightarrow> False
   | Inr wb' \<Rightarrow> take 3 (wb_windowStartPointers wb') = [-1, 3, 4] \<and> take 3 (wb_windowEndPointers wb') = [4, -1, -1]"
  by code_simp

end
