(* ===== verification/Tasks.thy ===== *)
theory Tasks
  imports WindowBatch
begin

text \<open>
  Tasks (\<open>tasks/Task.h\<close>, \<open>tasks/Task.cpp\<close>) and the pools of batches and tasks
  (\<open>tasks/WindowBatchFactory.h\<close>, \<open>tasks/TaskFactory.h\<close>). A pooled batch is stored with the number
  of its other owners, which \<open>use_count\<close> reads. The execution of a task is not modelled.
\<close>

section \<open>The pool of batches\<close>

record WindowBatchFactory =
  wf_count :: int
  wf_pool :: "(WindowBatch \<times> nat) list"

text \<open>
  Popping until a batch is found that nobody else holds; \<open>None\<close> when the pool runs empty, where
  the code allocates.
\<close>

fun popBatch :: "bool \<Rightarrow> (WindowBatch \<times> nat) list \<Rightarrow> WindowBatch option \<times> (WindowBatch \<times> nat) list" where
  "popBatch lineage [] = (None, [])"
| "popBatch lineage ((wb, others) # pool) =
     (if lineage \<and> others \<noteq> 0 then popBatch lineage pool else (Some wb, pool))"

definition wf_newInstance ::
  "SystemConf \<Rightarrow> int \<Rightarrow> int \<Rightarrow> int \<Rightarrow> int \<Rightarrow> int option \<Rightarrow> int option \<Rightarrow> WindowDefinition option \<Rightarrow>
   int option \<Rightarrow> int \<Rightarrow> int \<Rightarrow> int \<Rightarrow> WindowBatchFactory \<Rightarrow> WindowBatch \<times> WindowBatchFactory" where
  "wf_newInstance conf batchSize taskId freePointer1 freePointer2 query buffer window tupleSize latency
     prevFreePointer1 prevFreePointer2 f =
     (let (found, pool) = popBatch (LINEAGE_ON conf) (wf_pool f);
          (wb, count) = (case found of
             None \<Rightarrow> (newWindowBatch conf batchSize taskId freePointer1 freePointer2 query buffer window
                       tupleSize latency prevFreePointer1 prevFreePointer2, wf_count f + 1)
           | Some wb \<Rightarrow> (wb, wf_count f))
      in (wb_set batchSize taskId freePointer1 freePointer2 query buffer window tupleSize latency
            prevFreePointer1 prevFreePointer2 wb, f\<lparr>wf_count := count, wf_pool := pool\<rparr>))"

definition wf_free :: "WindowBatch \<Rightarrow> nat \<Rightarrow> WindowBatchFactory \<Rightarrow> WindowBatchFactory res" where
  "wf_free wb others f =
     (if wb_graph wb \<noteq> None then Inl RuntimeError
      else Inr (f\<lparr>wf_pool := wf_pool f @ [(wb_clear wb, others)]\<rparr>))"

section \<open>Tasks\<close>

text \<open>Members that the constructors leave uninitialised are options.\<close>

record Task =
  tk_leftBatch :: "WindowBatch option"
  tk_rightBatch :: "WindowBatch option"
  tk_taskId :: int
  tk_queryId :: "int option"
  tk_numaNodeId :: "int option"
  tk_type :: "TaskType option"
  tk_buffer :: "byte list option"
  tk_bytes :: "int option"
  tk_slot :: "int option"
  tk_latencyMark :: "int option"
  tk_retainMark :: "int option"
  tk_wraps :: "int option"
  tk_graph :: "(LineageGraph \<times> nat) option"

definition emptyTask :: Task where
  "emptyTask = \<lparr>tk_leftBatch = None, tk_rightBatch = None, tk_taskId = -1, tk_queryId = None,
     tk_numaNodeId = None, tk_type = None, tk_buffer = None, tk_bytes = None, tk_slot = None,
     tk_latencyMark = None, tk_retainMark = None, tk_wraps = None, tk_graph = None\<rparr>"

definition batchQueryId :: "WindowBatch option \<Rightarrow> int res" where
  "batchQueryId batch =
     (case batch of None \<Rightarrow> Inl Undefined
      | Some wb \<Rightarrow> (case wb_query wb of None \<Rightarrow> Inl Undefined | Some q \<Rightarrow> Inr q))"

definition newTask :: "int \<Rightarrow> WindowBatch option \<Rightarrow> WindowBatch option \<Rightarrow> TaskType \<Rightarrow> Task res" where
  "newTask taskId lBatch rBatch type =
     rbind (batchQueryId lBatch) (\<lambda>q.
       Inr (emptyTask\<lparr>tk_leftBatch := lBatch, tk_rightBatch := rBatch, tk_taskId := taskId,
              tk_queryId := Some q, tk_type := Some type\<rparr>))"

definition setTask :: "int \<Rightarrow> WindowBatch option \<Rightarrow> WindowBatch option \<Rightarrow> TaskType \<Rightarrow> Task \<Rightarrow> Task res" where
  "setTask taskId lBatch rBatch type t =
     (case lBatch of
        None \<Rightarrow> Inl RuntimeError
      | Some wb \<Rightarrow> rbind (batchQueryId lBatch) (\<lambda>q.
          Inr (t\<lparr>tk_taskId := taskId, tk_leftBatch := lBatch, tk_rightBatch := rBatch,
                 tk_queryId := Some q, tk_numaNodeId := Some (wb_numaNodeId wb), tk_type := Some type\<rparr>)))"

definition outputWindowBatchResult :: "WindowBatch option \<Rightarrow> Task \<Rightarrow> Task" where
  "outputWindowBatchResult result t = t\<lparr>tk_leftBatch := result\<rparr>"

definition setInsertion ::
  "byte list option \<Rightarrow> int \<Rightarrow> int \<Rightarrow> int \<Rightarrow> int \<Rightarrow> int \<Rightarrow> Task \<Rightarrow> Task" where
  "setInsertion buffer bytes slot latency retain wraps t =
     t\<lparr>tk_buffer := buffer, tk_bytes := Some bytes, tk_slot := Some slot,
       tk_latencyMark := Some latency, tk_retainMark := Some retain, tk_wraps := Some wraps\<rparr>"

definition tk_setLineageGraph :: "(LineageGraph \<times> nat) option \<Rightarrow> Task \<Rightarrow> Task" where
  "tk_setLineageGraph g t = t\<lparr>tk_graph := g\<rparr>"

section \<open>The pool of tasks\<close>

record TaskFactory =
  tf_count :: int
  tf_pool :: "Task list"

definition tf_newInstance ::
  "int \<Rightarrow> WindowBatch option \<Rightarrow> WindowBatch option \<Rightarrow> TaskType \<Rightarrow> TaskFactory \<Rightarrow> (Task \<times> TaskFactory) res" where
  "tf_newInstance taskId lBatch rBatch type f =
     rbind (case tf_pool f of
              [] \<Rightarrow> rbind (newTask taskId lBatch rBatch type) (\<lambda>t. Inr (t, f\<lparr>tf_count := tf_count f + 1\<rparr>))
            | t # pool \<Rightarrow> Inr (t, f\<lparr>tf_pool := pool\<rparr>))
       (\<lambda>(t, f). rbind (setTask taskId lBatch rBatch type t) (\<lambda>t. Inr (t, f)))"

definition tf_free :: "Task option \<Rightarrow> TaskFactory \<Rightarrow> TaskFactory res" where
  "tf_free task f =
     (case task of
        None \<Rightarrow> Inl Undefined
      | Some t \<Rightarrow> if tk_graph t \<noteq> None then Inl RuntimeError else Inr (f\<lparr>tf_pool := tf_pool f @ [t]\<rparr>))"

section \<open>Recycled objects behave like new ones\<close>

text \<open>
  The members of a batch that \<open>set\<close> does not assign are the thread id, the window pointer arrays,
  the output buffer, the graph, the previous timestamps, the empty window ids and the watermark.
\<close>

lemma wb_set_overwrites:
  "wb_pid wb' = wb_pid wb \<Longrightarrow> wb_windowStartPointers wb' = wb_windowStartPointers wb \<Longrightarrow>
   wb_windowEndPointers wb' = wb_windowEndPointers wb \<Longrightarrow> wb_outputBuffer wb' = wb_outputBuffer wb \<Longrightarrow>
   wb_graph wb' = wb_graph wb \<Longrightarrow> wb_prevStartTimestamp wb' = wb_prevStartTimestamp wb \<Longrightarrow>
   wb_prevEndTimestamp wb' = wb_prevEndTimestamp wb \<Longrightarrow> wb_emptyStartWindowId wb' = wb_emptyStartWindowId wb \<Longrightarrow>
   wb_emptyEndWindowId wb' = wb_emptyEndWindowId wb \<Longrightarrow> wb_watermark wb' = wb_watermark wb \<Longrightarrow>
   wb_set bs i f1 f2 q b w ts m p1 p2 wb' = wb_set bs i f1 f2 q b w ts m p1 p2 wb"
  by (simp add: wb_set_def)

lemma popBatch_lineage:
  "popBatch True pool = (Some wb, rest) \<Longrightarrow> \<exists>skipped. pool = skipped @ (wb, 0) # rest \<and> (\<forall>(_, n) \<in> set skipped. n \<noteq> 0)"
proof (induction pool)
  case (Cons x pool)
  obtain w n where x: "x = (w, n)" by (cases x)
  show ?case
  proof (cases "n = 0")
    case True
    then show ?thesis using Cons.prems x by (auto intro: exI [of _ "[]"])
  next
    case False
    then obtain skipped where "pool = skipped @ (wb, 0) # rest" "\<forall>(_, n) \<in> set skipped. n \<noteq> 0"
      using Cons x by auto
    then show ?thesis using False x by (intro exI [of _ "x # skipped"]) auto
  qed
qed simp

lemma wf_newInstance_sel [simp]:
  assumes "wf_newInstance conf bs i f1 f2 q b w ts m p1 p2 f = (wb, f')"
  shows "wb_batchSize wb = bs" "wb_taskId wb = i" "wb_freePointer1 wb = f1" "wb_freePointer2 wb = f2"
    "wb_query wb = q" "wb_inputBuffer wb = b" "wb_windowDefinition wb = w" "wb_tupleSize wb = ts"
    "wb_latencyMark wb = m" "wb_initialised wb = False" "wb_replayTimestamps wb = False" "wb_offset wb = 0"
    "wb_numaNodeId wb = 0"
  using assms by (auto simp: wf_newInstance_def wb_set_def Let_def split: prod.splits option.splits)

text \<open>
  A task that comes from the pool differs from a newly allocated one only in the members of an
  earlier insertion and in its graph.
\<close>

lemma tf_newInstance_sel:
  assumes "tf_newInstance i l r ty f = Inr (t, f')"
  shows "tk_taskId t = i" "tk_leftBatch t = l" "tk_rightBatch t = r" "tk_type t = Some ty"
    "\<exists>wb. l = Some wb \<and> tk_queryId t = wb_query wb \<and> tk_numaNodeId t = Some (wb_numaNodeId wb)"
  using assms
  by (auto simp: tf_newInstance_def setTask_def batchQueryId_def newTask_def split: list.splits option.splits)

lemma tf_newInstance_ok:
  "wb_query wb = Some q \<Longrightarrow> \<exists>t f'. tf_newInstance i (Some wb) r ty f = Inr (t, f')"
  by (auto simp: tf_newInstance_def setTask_def batchQueryId_def newTask_def split: list.splits)

end
