(* ===== verification/TaskDispatcher.thy ===== *)
theory TaskDispatcher
  imports Tasks
begin

text \<open>
  The dispatcher of a query with one input stream (\<open>dispatcher/TaskDispatcher.cpp\<close>), for an input
  buffer that does not persist its data: \<open>dispatch\<close> inserts data into the circular buffer, waiting
  while it is full, and \<open>assemble\<close> cuts the stream into batches of fixed size and enqueues one
  task per batch.

  The queue of tasks is a third-party class. It is an argument of the operations: a state of type
  \<open>'q\<close> with the results of its two calls. The state also stands for what the worker threads do to
  the queue, so two calls of \<open>try_enqueue\<close> in a row may differ in their result. The two object
  pools and the lineage graph pool, which are singletons of the program, are part of the state.
\<close>

section \<open>State and construction\<close>

record 'q queue_ops =
  try_enqueue :: "Task option \<Rightarrow> 'q \<Rightarrow> bool \<times> 'q"
  size_approx :: "'q \<Rightarrow> int"

record 'q TaskDispatcher =
  td_queryId :: int
  td_taskQueueCapacity :: int
  td_workerQueue :: 'q
  td_createMergeTasks :: bool
  td_lastTaskId :: int
  td_triggerCheckpoints :: bool
  td_hasCoordinator :: bool
  td_checkpointCounter :: int
  td_buffer :: QueryBuffer
  td_window :: WindowDefinition
  td_schemaTupleSize :: int
  td_batchSize :: int
  td_tupleSize :: int
  td_nextTask :: int
  td_f :: int
  td_mask :: int
  td_latencyMark :: int
  td_accumulated :: int
  td_thisBatchStartPointer :: int
  td_nextBatchEndPointer :: int
  td_replayTimestamps :: bool
  td_offset :: int
  td_step :: int
  td_replayBarrier :: int
  td_recoveryOffset :: int
  td_batches :: WindowBatchFactory
  td_tasks :: TaskFactory
  td_graphs :: LineageGraphFactory
  td_unbounded :: UnboundedFactory

text \<open>
  The query's own configuration, if it has one, is a pair of batch and bundle size.
\<close>

definition newTaskDispatcher ::
  "SystemConf \<Rightarrow> int \<Rightarrow> int \<Rightarrow> 'q \<Rightarrow> (int \<times> int) option \<Rightarrow> WindowDefinition \<Rightarrow> int \<Rightarrow> QueryBuffer \<Rightarrow> bool \<Rightarrow> bool \<Rightarrow>
   WindowBatchFactory \<Rightarrow> TaskFactory \<Rightarrow> LineageGraphFactory \<Rightarrow> UnboundedFactory \<Rightarrow> 'q TaskDispatcher res" where
  "newTaskDispatcher conf queryId queueCapacity queue config window schemaTupleSize buffer replayTimestamps
     triggerCheckpoints batches tasks graphs unbounded =
     (let (batchSize, bundleSize) = (case config of Some c \<Rightarrow> c | None \<Rightarrow> (BATCH_SIZE conf, BUNDLE_SIZE conf));
          d = \<lparr>td_queryId = queryId, td_taskQueueCapacity = queueCapacity, td_workerQueue = queue,
               td_createMergeTasks = True, td_lastTaskId = 0, td_triggerCheckpoints = triggerCheckpoints,
               td_hasCoordinator = False, td_checkpointCounter = 0, td_buffer = buffer, td_window = window,
               td_schemaTupleSize = schemaTupleSize, td_batchSize = batchSize, td_tupleSize = schemaTupleSize,
               td_nextTask = 1, td_f = 0, td_mask = qb_mask buffer, td_latencyMark = -1, td_accumulated = 0,
               td_thisBatchStartPointer = 0, td_nextBatchEndPointer = batchSize,
               td_replayTimestamps = replayTimestamps, td_offset = 0, td_step = -1, td_replayBarrier = 0,
               td_recoveryOffset = 0, td_batches = batches, td_tasks = tasks, td_graphs = graphs,
               td_unbounded = unbounded\<rparr>
      in if \<not> replayTimestamps then Inr d
         else if batchSize = 0 then Inl Undefined
         else if bundleSize div batchSize = 0 then Inl RuntimeError
         else Inr (d\<lparr>td_replayBarrier := bundleSize div batchSize\<rparr>))"

definition setTaskQueue :: "'q \<Rightarrow> 'q TaskDispatcher \<Rightarrow> 'q TaskDispatcher" where
  "setTaskQueue queue d = d\<lparr>td_workerQueue := queue\<rparr>"

definition setLastTaskId :: "int \<Rightarrow> 'q TaskDispatcher \<Rightarrow> 'q TaskDispatcher" where
  "setLastTaskId taskId d = d\<lparr>td_lastTaskId := taskId\<rparr>"

definition setStepAndOffset :: "int \<Rightarrow> int \<Rightarrow> 'q TaskDispatcher \<Rightarrow> 'q TaskDispatcher" where
  "setStepAndOffset step offset d = d\<lparr>td_step := step, td_recoveryOffset := offset\<rparr>"

definition createMergeTasks :: "bool \<Rightarrow> 'q TaskDispatcher \<Rightarrow> 'q TaskDispatcher" where
  "createMergeTasks flag d = d\<lparr>td_createMergeTasks := flag\<rparr>"

section \<open>Timestamps in the buffer\<close>

definition wrapIndex :: "QueryBuffer \<Rightarrow> int \<Rightarrow> int" where
  "wrapIndex b index = (if index < 0 then to_int32 (qb_capacity b + index) else index)"

definition td_getTimestamp :: "SystemConf \<Rightarrow> QueryBuffer \<Rightarrow> int \<Rightarrow> int res" where
  "td_getTimestamp conf b index =
     rbind (getLong b (wrapIndex b index)) (\<lambda>v. Inr (if LATENCY_ON conf then tupleTimestampLong v else v))"

definition td_getSystemTimestamp :: "SystemConf \<Rightarrow> QueryBuffer \<Rightarrow> int \<Rightarrow> int res" where
  "td_getSystemTimestamp conf b index =
     rbind (getLong b (wrapIndex b index)) (\<lambda>v. Inr (if LATENCY_ON conf then systemTimestampLong v else v))"

definition td_setTimestamp :: "int \<Rightarrow> int \<Rightarrow> QueryBuffer \<Rightarrow> QueryBuffer res" where
  "td_setTimestamp index timestamp b = setLong (wrapIndex b index) timestamp b"

section \<open>Creating a task\<close>

definition getTaskNumber :: "'q TaskDispatcher \<Rightarrow> int \<times> 'q TaskDispatcher" where
  "getTaskNumber d =
     (let next = to_int32 (td_nextTask d + 1)
      in (td_nextTask d, d\<lparr>td_nextTask := (if next = INT_MAX then 1 else next)\<rparr>))"

text \<open>The latency mark goes to the first task created after it was read.\<close>

definition takeLatencyMark :: "SystemConf \<Rightarrow> 'q TaskDispatcher \<Rightarrow> int \<times> 'q TaskDispatcher" where
  "takeLatencyMark conf d =
     (if LATENCY_ON conf \<and> td_latencyMark d \<ge> 0
      then (td_latencyMark d, d\<lparr>td_latencyMark := -1\<rparr>) else (-1, d))"

text \<open>The first and last timestamp of the batch before the one that starts at \<open>p\<close>.\<close>

definition prevTimestamps :: "SystemConf \<Rightarrow> int \<Rightarrow> 'q TaskDispatcher \<Rightarrow> (int \<times> int) res" where
  "prevTimestamps conf p d =
     (let b = td_buffer d; from = (if p \<noteq> 0 then p else qb_capacity b) in
      rbind (td_getTimestamp conf b (to_int32 (from - td_batchSize d - td_tupleSize d))) (\<lambda>s.
      rbind (td_getTimestamp conf b (to_int32 (from - td_tupleSize d))) (\<lambda>e. Inr (s, e))))"

text \<open>
  In replay mode the buffer holds the same data in every round, and the timestamps of a round are
  shifted by \<open>td_offset\<close>, which grows by \<open>td_step\<close> after every bundle of the first round.
\<close>

definition replayStart ::
  "SystemConf \<Rightarrow> int \<Rightarrow> int \<Rightarrow> 'q TaskDispatcher \<Rightarrow> (int \<times> int \<times> 'q TaskDispatcher) res" where
  "replayStart conf p startTime d =
     (if td_step d \<noteq> -1 then
        rbind (prevTimestamps conf p d) (\<lambda>(s, e).
          Inr (s, e, if startTime + td_offset d - e \<ge> td_step d \<and> td_offset d > 0 \<and> \<not> SystemConf.RECOVER conf
                     then d\<lparr>td_offset := td_offset d - td_step d\<rparr> else d))
      else Inr (0, 0, d))"

definition replayAdvance :: "int \<Rightarrow> int \<Rightarrow> int \<Rightarrow> 'q TaskDispatcher \<Rightarrow> 'q TaskDispatcher res" where
  "replayAdvance taskId streamEnd endTime d =
     (if td_replayBarrier d = 0 then Inl Undefined
      else if taskId smod td_replayBarrier d = 0 then
        let d = (if td_step d = -1 then d\<lparr>td_step := endTime + 1\<rparr> else d)
        in Inr (if streamEnd \<le> qb_capacity (td_buffer d) then d\<lparr>td_offset := td_offset d + td_step d\<rparr> else d)
      else Inr d)"

definition replayBatch ::
  "SystemConf \<Rightarrow> int \<Rightarrow> int \<Rightarrow> int \<Rightarrow> int \<Rightarrow> int \<Rightarrow> int \<Rightarrow> WindowBatch \<Rightarrow> 'q TaskDispatcher \<Rightarrow>
   (WindowBatch \<times> 'q TaskDispatcher) res" where
  "replayBatch conf taskId p q streamEnd startTime endTime wb d =
     rbind (replayStart conf p startTime d) (\<lambda>(prevStart, prevEnd, d).
     rbind (td_setTimestamp (to_int32 p) (startTime + td_offset d) (td_buffer d)) (\<lambda>b.
     rbind (td_setTimestamp (to_int32 (q - td_tupleSize d)) (endTime + td_offset d) b) (\<lambda>b.
       let wb = setTimestampOffset (td_offset d) (setPrevTimestamps prevStart prevEnd
                  (setBatchTimestamps (startTime + td_offset d) (endTime + td_offset d) wb)) in
       rbind (replayAdvance taskId streamEnd endTime (d\<lparr>td_buffer := b\<rparr>)) (\<lambda>d. Inr (wb, d)))))"

definition plainBatch ::
  "SystemConf \<Rightarrow> int \<Rightarrow> WindowBatch \<Rightarrow> 'q TaskDispatcher \<Rightarrow> (WindowBatch \<times> 'q TaskDispatcher) res" where
  "plainBatch conf p wb d =
     (if td_step d \<noteq> -1
      then rbind (prevTimestamps conf p d) (\<lambda>(s, e). Inr (setPrevTimestamps s e wb, d))
      else Inr (setPrevTimestamps 0 0 wb, d\<lparr>td_step := 0\<rparr>))"

definition timeBatch ::
  "SystemConf \<Rightarrow> int \<Rightarrow> int \<Rightarrow> int \<Rightarrow> int \<Rightarrow> WindowBatch \<Rightarrow> 'q TaskDispatcher \<Rightarrow>
   (WindowBatch \<times> 'q TaskDispatcher) res" where
  "timeBatch conf taskId p q streamEnd wb d =
     (if isRangeBased (td_window d) then
        rbind (td_getTimestamp conf (td_buffer d) (to_int32 p)) (\<lambda>startTime.
        rbind (td_getTimestamp conf (td_buffer d) (to_int32 (q - td_tupleSize d))) (\<lambda>endTime.
          let wb = setBatchTimestamps startTime endTime wb in
          if td_replayTimestamps d then replayBatch conf taskId p q streamEnd startTime endTime wb d
          else plainBatch conf p wb d))
      else Inr (setBatchTimestamps (-1) (-1) wb, d))"

text \<open>The graph of the slot the batch starts in moves to the batch.\<close>

definition attachLineage ::
  "SystemConf \<Rightarrow> int \<Rightarrow> WindowBatch \<Rightarrow> 'q TaskDispatcher \<Rightarrow> (WindowBatch \<times> 'q TaskDispatcher) res" where
  "attachLineage conf p wb d =
     (if \<not> LINEAGE_ON conf then Inr (wb, d)
      else if to_int32 (wb_batchSize wb) = 0 then Inl Undefined
      else
        let slotId = p sdiv to_int32 (wb_batchSize wb) in
        rbind (vget (qb_slots (td_buffer d)) slotId) (\<lambda>s.
          let (graph, s') = sl_getLineageGraph s in
          rbind (vset (qb_slots (td_buffer d)) slotId s') (\<lambda>ss.
          rbind (case graph of
                   Some g \<Rightarrow> Inr (g, td_graphs d)
                 | None \<Rightarrow> rbind (newInstance (td_graphs d)) (\<lambda>(g, f). Inr ((g, 0), f))) (\<lambda>(g, f).
            Inr (setLineageGraph (Some g) wb,
                 d\<lparr>td_buffer := (td_buffer d)\<lparr>qb_slots := ss\<rparr>, td_graphs := f\<rparr>)))))"

text \<open>
  The busy-waiting insertion into the queue: \<open>None\<close> when the queue never accepts the task.
\<close>

partial_function (option) enqueue_spin :: "'q queue_ops \<Rightarrow> Task option \<Rightarrow> 'q \<Rightarrow> 'q option" where
  "enqueue_spin ops t q = (case try_enqueue ops t q of (ok, q') \<Rightarrow> if ok then Some q' else enqueue_spin ops t q')"

definition enqueue :: "'q queue_ops \<Rightarrow> Task option \<Rightarrow> 'q \<Rightarrow> 'q res" where
  "enqueue ops t q = (case enqueue_spin ops t q of None \<Rightarrow> Inl Blocked | Some q' \<Rightarrow> Inr q')"

text \<open>The end of the creation of a task: its pointers, its type, its lineage and its submission.\<close>

definition submitTask ::
  "SystemConf \<Rightarrow> 'q queue_ops \<Rightarrow> int \<Rightarrow> int \<Rightarrow> int \<Rightarrow> int \<Rightarrow> int \<Rightarrow> WindowBatch \<Rightarrow> 'q TaskDispatcher \<Rightarrow>
   'q TaskDispatcher res" where
  "submitTask conf ops taskId p q streamStart streamEnd wb d =
     (let type = (if td_createMergeTasks d then PROCESS else ONLY_PROCESS);
          wb = setTaskType type (setStreamPointers streamStart streamEnd
                 (setBufferPointers (to_int32 p) (to_int32 q) wb)) in
      rbind (attachLineage conf p wb d) (\<lambda>(wb, d).
      rbind (tf_newInstance taskId (Some wb) None type (td_tasks d)) (\<lambda>(t, tasks).
      rbind (enqueue ops (Some t) (td_workerQueue d)) (\<lambda>queue.
        Inr (d\<lparr>td_tasks := tasks, td_workerQueue := queue,
               td_checkpointCounter := (if td_checkpointCounter d > 0 then td_checkpointCounter d - 1
                                        else td_checkpointCounter d)\<rparr>)))))"

definition newTaskFor ::
  "SystemConf \<Rightarrow> 'q queue_ops \<Rightarrow> int \<Rightarrow> int \<Rightarrow> int \<Rightarrow> int \<Rightarrow> int \<Rightarrow> 'q TaskDispatcher \<Rightarrow> 'q TaskDispatcher res" where
  "newTaskFor conf ops p q free streamStart streamEnd d =
     (let (taskId, d) = getTaskNumber d;
          q = (if q \<le> p then q + qb_capacity (td_buffer d) else q);
          (latency, d) = takeLatencyMark conf d;
          free = free - td_schemaTupleSize d in
      if free < 0 then Inl Exit
      else
        let (wb, batches) = wf_newInstance conf (td_batchSize d) taskId free (-1) (Some (td_queryId d))
              (Some (qb_id (td_buffer d))) (Some (td_window d)) (Some (td_schemaTupleSize d)) latency (-1) (-1)
              (td_batches d) in
        rbind (timeBatch conf taskId p q streamEnd wb (d\<lparr>td_batches := batches\<rparr>)) (\<lambda>(wb, d).
          submitTask conf ops taskId p q streamStart streamEnd wb d))"

text \<open>What a task creation leaves alone: the assembly state and the shape of the buffer.\<close>

definition same_shape_buffer :: "QueryBuffer \<Rightarrow> QueryBuffer \<Rightarrow> bool" where
  "same_shape_buffer b b' \<longleftrightarrow>
     b' = b\<lparr>qb_buffer := qb_buffer b', qb_slots := qb_slots b'\<rparr> \<and> length (qb_buffer b') = length (qb_buffer b)"

text \<open>Setting the timestamps of a batch changes the replay variables and bytes of the buffer only.\<close>

definition timed :: "'q TaskDispatcher \<Rightarrow> 'q TaskDispatcher \<Rightarrow> bool" where
  "timed d d' \<longleftrightarrow> d' = d\<lparr>td_step := td_step d', td_offset := td_offset d', td_buffer := td_buffer d'\<rparr>
     \<and> same_shape_buffer (td_buffer d) (td_buffer d')"

lemma same_shapeE:
  assumes "same_shape_buffer b b'"
  obtains m ss where "b' = b\<lparr>qb_buffer := m, qb_slots := ss\<rparr>" and "length m = length (qb_buffer b)"
  using assms unfolding same_shape_buffer_def by blast

lemma same_shape_simps [simp]:
  "same_shape_buffer b b"
  "same_shape_buffer b (b\<lparr>qb_slots := ss\<rparr>)"
  "same_shape_buffer b (b\<lparr>qb_buffer := m\<rparr>) \<longleftrightarrow> length m = length (qb_buffer b)"
  by (simp_all add: same_shape_buffer_def)

lemma same_shape_trans:
  assumes "same_shape_buffer a b" and "same_shape_buffer b c"
  shows "same_shape_buffer a c"
proof -
  obtain m ss where b: "b = a\<lparr>qb_buffer := m, qb_slots := ss\<rparr>" "length m = length (qb_buffer a)"
    using assms(1) by (rule same_shapeE)
  obtain m' ss' where "c = b\<lparr>qb_buffer := m', qb_slots := ss'\<rparr>" "length m' = length (qb_buffer b)"
    using assms(2) by (rule same_shapeE)
  with b show ?thesis by (simp add: same_shape_buffer_def)
qed

lemma same_shape_sel:
  assumes "same_shape_buffer b b'"
  shows "qb_capacity b' = qb_capacity b" "qb_startP b' = qb_startP b" "qb_endP b' = qb_endP b"
    "qb_mask b' = qb_mask b" "qb_temp b' = qb_temp b" "qb_tupleSize b' = qb_tupleSize b"
    "qb_id b' = qb_id b" "length (qb_buffer b') = length (qb_buffer b)"
    "qb_wraps b' = qb_wraps b" "qb_copyDataOnInsert b' = qb_copyDataOnInsert b"
  using assms by (auto elim!: same_shapeE)

lemma same_shape_inv: "same_shape_buffer b b' \<Longrightarrow> qb_inv b' = qb_inv b"
  by (simp add: qb_inv_def same_shape_sel)

lemma timed_refl [simp]: "timed d d"
  by (simp add: timed_def)

lemma timedI: "same_shape_buffer (td_buffer d) b \<Longrightarrow> timed d (d\<lparr>td_step := x, td_offset := y, td_buffer := b\<rparr>)"
  by (simp add: timed_def)

lemma timedE:
  assumes "timed d d'"
  obtains x y b where "d' = d\<lparr>td_step := x, td_offset := y, td_buffer := b\<rparr>"
    and "same_shape_buffer (td_buffer d) b"
  using assms by (auto simp: timed_def)

lemma timed_trans:
  assumes "timed a b" and "timed b c"
  shows "timed a c"
proof -
  obtain x y u where b: "b = a\<lparr>td_step := x, td_offset := y, td_buffer := u\<rparr>" "same_shape_buffer (td_buffer a) u"
    using assms(1) by (rule timedE)
  obtain x' y' v where c: "c = b\<lparr>td_step := x', td_offset := y', td_buffer := v\<rparr>" "same_shape_buffer (td_buffer b) v"
    using assms(2) by (rule timedE)
  show ?thesis
    using b c by (auto simp: timed_def intro: same_shape_trans)
qed

lemma setLong_shape: "setLong i v b = Inr b' \<Longrightarrow> same_shape_buffer b b'"
  by (auto simp: setLong_def memcpy_to_def write_at_def split: if_splits)

lemma td_setTimestamp_shape: "td_setTimestamp i v b = Inr b' \<Longrightarrow> same_shape_buffer b b'"
  by (auto simp: td_setTimestamp_def intro: setLong_shape)

lemma replayStart_timed:
  assumes "replayStart conf p s d = Inr (ps, pe, d')"
  shows "timed d d'"
  using assms by (auto simp: replayStart_def timed_def split: if_splits elim!: rbind_pairE)

lemma replayAdvance_timed: "replayAdvance i e t d = Inr d' \<Longrightarrow> timed d d'"
  by (auto simp: replayAdvance_def timed_def Let_def split: if_splits)

lemma timed_setTimestamp: "td_setTimestamp i v (td_buffer d) = Inr b \<Longrightarrow> timed d (d\<lparr>td_buffer := b\<rparr>)"
  by (auto simp: timed_def intro: td_setTimestamp_shape)

lemma replayBatch_timed:
  assumes "replayBatch conf i p q e s t wb d = Inr (wb', d')"
  shows "timed d d'" and "\<exists>a b c x y. wb' = setTimestampOffset c (setPrevTimestamps x y (setBatchTimestamps a b wb))"
proof -
  obtain ps pe d1 where d1: "replayStart conf p s d = Inr (ps, pe, d1)"
    using assms by (auto simp: replayBatch_def)
  obtain b1 b2 where b: "td_setTimestamp (to_int32 p) (s + td_offset d1) (td_buffer d1) = Inr b1"
      "td_setTimestamp (to_int32 (q - td_tupleSize d1)) (t + td_offset d1) b1 = Inr b2"
      "replayAdvance i e t (d1\<lparr>td_buffer := b2\<rparr>) = Inr d'"
      "wb' = setTimestampOffset (td_offset d1) (setPrevTimestamps ps pe
         (setBatchTimestamps (s + td_offset d1) (t + td_offset d1) wb))"
    using assms by (auto simp: replayBatch_def d1 Let_def)
  have "same_shape_buffer (td_buffer d1) b2"
    using td_setTimestamp_shape [OF b(1)] td_setTimestamp_shape [OF b(2)] by (rule same_shape_trans)
  then have "timed d1 (d1\<lparr>td_buffer := b2\<rparr>)" by (simp add: timed_def)
  then show "timed d d'"
    using replayStart_timed [OF d1] replayAdvance_timed [OF b(3)] by (blast intro: timed_trans)
  show "\<exists>a b c x y. wb' = setTimestampOffset c (setPrevTimestamps x y (setBatchTimestamps a b wb))"
    using b(4) by blast
qed

lemma plainBatch_timed:
  assumes "plainBatch conf p wb d = Inr (wb', d')"
  shows "timed d d'" and "\<exists>x y. wb' = setPrevTimestamps x y wb" and "td_buffer d' = td_buffer d"
  using assms by (auto simp: plainBatch_def timed_def split: if_splits elim!: rbind_pairE)

text \<open>What all the ways to time a batch keep of it.\<close>

definition untimed :: "WindowBatch \<Rightarrow> WindowBatch" where
  "untimed wb = wb\<lparr>wb_startTimestamp := 0, wb_endTimestamp := 0, wb_prevStartTimestamp := None,
     wb_prevEndTimestamp := None, wb_offset := 0, wb_replayTimestamps := False\<rparr>"

lemma untimed_simps [simp]:
  "untimed (setBatchTimestamps a b wb) = untimed wb"
  "untimed (setPrevTimestamps a b wb) = untimed wb"
  "untimed (setTimestampOffset c wb) = untimed wb"
  by (simp_all add: untimed_def setBatchTimestamps_def setPrevTimestamps_def setTimestampOffset_def)

lemma timeBatch_timed:
  assumes "timeBatch conf i p q e wb d = Inr (wb', d')"
  shows "timed d d' \<and> untimed wb' = untimed wb \<and> (td_replayTimestamps d \<or> td_buffer d' = td_buffer d)"
proof (cases "isRangeBased (td_window d)")
  case True
  then obtain s t where s: "td_getTimestamp conf (td_buffer d) (to_int32 p) = Inr s"
      "td_getTimestamp conf (td_buffer d) (to_int32 (q - td_tupleSize d)) = Inr t"
    using assms by (auto simp: timeBatch_def)
  show ?thesis
  proof (cases "td_replayTimestamps d")
    case rep: True
    then have "replayBatch conf i p q e s t (setBatchTimestamps s t wb) d = Inr (wb', d')"
      using assms s True by (simp add: timeBatch_def Let_def)
    from replayBatch_timed [OF this] rep show ?thesis by auto
  next
    case rep: False
    then have "plainBatch conf p (setBatchTimestamps s t wb) d = Inr (wb', d')"
      using assms s True by (simp add: timeBatch_def Let_def)
    from plainBatch_timed [OF this] show ?thesis by auto
  qed
next
  case False
  then show ?thesis using assms by (auto simp: timeBatch_def)
qed

lemma attachLineage_effect:
  assumes "attachLineage conf p wb d = Inr (wb', d')"
  shows "d' = d\<lparr>td_buffer := (td_buffer d)\<lparr>qb_slots := qb_slots (td_buffer d')\<rparr>, td_graphs := td_graphs d'\<rparr>
    \<and> wb' = wb\<lparr>wb_graph := wb_graph wb'\<rparr>"
proof (cases "LINEAGE_ON conf")
  case True
  let ?slotId = "p sdiv to_int32 (wb_batchSize wb)"
  obtain s where s: "vget (qb_slots (td_buffer d)) ?slotId = Inr s"
    using assms True by (auto simp: attachLineage_def Let_def split: if_splits)
  obtain ss g f where "vset (qb_slots (td_buffer d)) ?slotId (snd (sl_getLineageGraph s)) = Inr ss"
      "d' = d\<lparr>td_buffer := (td_buffer d)\<lparr>qb_slots := ss\<rparr>, td_graphs := f\<rparr>"
      "wb' = setLineageGraph (Some g) wb"
    using assms True s
    by (auto simp: attachLineage_def sl_getLineageGraph_def Let_def split: if_splits)
  then show ?thesis by (simp add: setLineageGraph_def)
qed (use assms in \<open>simp add: attachLineage_def\<close>)

text \<open>What creating a task does: the task carries the given pointers, and only the queue, the pools,
  the task counter, the latency mark, the replay variables and the buffer contents change.\<close>

definition td_frame :: "'q TaskDispatcher \<Rightarrow> 'q TaskDispatcher \<Rightarrow> bool" where
  "td_frame d d' \<longleftrightarrow> td_accumulated d' = td_accumulated d
     \<and> td_thisBatchStartPointer d' = td_thisBatchStartPointer d
     \<and> td_nextBatchEndPointer d' = td_nextBatchEndPointer d
     \<and> td_batchSize d' = td_batchSize d \<and> td_tupleSize d' = td_tupleSize d
     \<and> td_schemaTupleSize d' = td_schemaTupleSize d
     \<and> td_window d' = td_window d \<and> td_mask d' = td_mask d \<and> td_queryId d' = td_queryId d
     \<and> td_replayTimestamps d' = td_replayTimestamps d \<and> td_replayBarrier d' = td_replayBarrier d
     \<and> td_createMergeTasks d' = td_createMergeTasks d
     \<and> same_shape_buffer (td_buffer d) (td_buffer d')
     \<and> (td_replayTimestamps d \<or> qb_buffer (td_buffer d') = qb_buffer (td_buffer d))"

lemma td_frame_refl [simp]: "td_frame d d"
  by (simp add: td_frame_def)

lemma td_frame_trans: "td_frame a b \<Longrightarrow> td_frame b c \<Longrightarrow> td_frame a c"
  unfolding td_frame_def by (auto intro: same_shape_trans)

definition task_spec :: "'q TaskDispatcher \<Rightarrow> int \<Rightarrow> int \<Rightarrow> int \<Rightarrow> int \<Rightarrow> int \<Rightarrow> Task \<Rightarrow> bool" where
  "task_spec d p q free streamStart streamEnd t \<longleftrightarrow> tk_taskId t = td_nextTask d
     \<and> tk_type t = Some (if td_createMergeTasks d then PROCESS else ONLY_PROCESS)
     \<and> tk_queryId t = Some (td_queryId d) \<and> tk_rightBatch t = None
     \<and> (\<exists>wb. tk_leftBatch t = Some wb \<and> wb_taskId wb = td_nextTask d
          \<and> wb_batchSize wb = td_batchSize d \<and> wb_tupleSize wb = Some (td_schemaTupleSize d)
          \<and> wb_windowDefinition wb = Some (td_window d)
          \<and> wb_startPointer wb = p \<and> wb_endPointer wb = q
          \<and> wb_streamStartPointer wb = streamStart \<and> wb_streamEndPointer wb = streamEnd
          \<and> wb_freePointer1 wb = free)"

lemma untimed_sel:
  assumes "untimed wb' = untimed wb"
  shows "wb_taskId wb' = wb_taskId wb" "wb_batchSize wb' = wb_batchSize wb" "wb_tupleSize wb' = wb_tupleSize wb"
    "wb_windowDefinition wb' = wb_windowDefinition wb" "wb_freePointer1 wb' = wb_freePointer1 wb"
    "wb_query wb' = wb_query wb"
proof -
  have "wb_taskId (untimed wb') = wb_taskId (untimed wb)" "wb_batchSize (untimed wb') = wb_batchSize (untimed wb)"
    "wb_tupleSize (untimed wb') = wb_tupleSize (untimed wb)"
    "wb_windowDefinition (untimed wb') = wb_windowDefinition (untimed wb)"
    "wb_freePointer1 (untimed wb') = wb_freePointer1 (untimed wb)"
    "wb_query (untimed wb') = wb_query (untimed wb)"
    using assms by simp_all
  then show "wb_taskId wb' = wb_taskId wb" "wb_batchSize wb' = wb_batchSize wb" "wb_tupleSize wb' = wb_tupleSize wb"
    "wb_windowDefinition wb' = wb_windowDefinition wb" "wb_freePointer1 wb' = wb_freePointer1 wb"
    "wb_query wb' = wb_query wb"
    by (simp_all add: untimed_def)
qed

lemma enqueue_Inr: "enqueue ops t q = Inr q' \<longleftrightarrow> enqueue_spin ops t q = Some q'"
  by (simp add: enqueue_def split: option.splits)

lemma submitTask_effect:
  assumes "submitTask conf ops i p q a e wb d = Inr d'"
  shows "td_frame d d' \<and> td_nextTask d' = td_nextTask d"
    and "wb_query wb = Some (td_queryId d) \<Longrightarrow> wb_taskId wb = td_nextTask c \<Longrightarrow> wb_batchSize wb = td_batchSize c \<Longrightarrow>
      wb_tupleSize wb = Some (td_schemaTupleSize c) \<Longrightarrow> wb_windowDefinition wb = Some (td_window c) \<Longrightarrow>
      i = td_nextTask c \<Longrightarrow> td_createMergeTasks d = td_createMergeTasks c \<Longrightarrow> td_queryId d = td_queryId c \<Longrightarrow>
      \<exists>t. enqueue ops (Some t) (td_workerQueue d) = Inr (td_workerQueue d')
        \<and> task_spec c (to_int32 p) (to_int32 q) (wb_freePointer1 wb) a e t"
proof -
  let ?ty = "if td_createMergeTasks d then PROCESS else ONLY_PROCESS"
  let ?wb = "setTaskType ?ty (setStreamPointers a e (setBufferPointers (to_int32 p) (to_int32 q) wb))"
  obtain wb1 d1 where l: "attachLineage conf p ?wb d = Inr (wb1, d1)"
    using assms unfolding submitTask_def Let_def by (elim rbind_pairE)
  obtain t tasks where t: "tf_newInstance i (Some wb1) None ?ty (td_tasks d1) = Inr (t, tasks)"
    using assms unfolding submitTask_def Let_def l by (auto elim: rbind_pairE)
  obtain queue where queue: "enqueue ops (Some t) (td_workerQueue d1) = Inr queue"
      "d' = d1\<lparr>td_tasks := tasks, td_workerQueue := queue, td_checkpointCounter := td_checkpointCounter d'\<rparr>"
    using assms by (auto simp: submitTask_def Let_def l t)
  note e = attachLineage_effect [OF l]
  obtain ss f where d1: "d1 = d\<lparr>td_buffer := (td_buffer d)\<lparr>qb_slots := ss\<rparr>, td_graphs := f\<rparr>" using e by metis
  obtain g where wb1: "wb1 = ?wb\<lparr>wb_graph := g\<rparr>" using e by metis
  show "td_frame d d' \<and> td_nextTask d' = td_nextTask d"
    by (subst (1 2) queue(2)) (simp add: d1 td_frame_def)
  assume "wb_query wb = Some (td_queryId d)" "wb_taskId wb = td_nextTask c" "wb_batchSize wb = td_batchSize c"
    "wb_tupleSize wb = Some (td_schemaTupleSize c)" "wb_windowDefinition wb = Some (td_window c)"
    "i = td_nextTask c" "td_createMergeTasks d = td_createMergeTasks c" "td_queryId d = td_queryId c"
  then have "task_spec c (to_int32 p) (to_int32 q) (wb_freePointer1 wb) a e t"
    using tf_newInstance_sel [OF t]
    by (auto simp: task_spec_def wb1 setTaskType_def setStreamPointers_def setBufferPointers_def)
  moreover have "enqueue ops (Some t) (td_workerQueue d) = Inr (td_workerQueue d')"
    using queue(1) by (subst queue(2)) (simp add: d1)
  ultimately show "\<exists>t. enqueue ops (Some t) (td_workerQueue d) = Inr (td_workerQueue d')
        \<and> task_spec c (to_int32 p) (to_int32 q) (wb_freePointer1 wb) a e t" by blast
qed

lemma getTaskNumberE: obtains n where "getTaskNumber d = (td_nextTask d, d\<lparr>td_nextTask := n\<rparr>)"
    and "n = (if to_int32 (td_nextTask d + 1) = INT_MAX then 1 else to_int32 (td_nextTask d + 1))"
  by (simp add: getTaskNumber_def Let_def)

lemma takeLatencyMarkE: obtains lat m where "takeLatencyMark conf d = (lat, d\<lparr>td_latencyMark := m\<rparr>)"
proof (cases "LATENCY_ON conf \<and> td_latencyMark d \<ge> 0")
  case True
  then have "takeLatencyMark conf d = (td_latencyMark d, d\<lparr>td_latencyMark := -1\<rparr>)"
    by (simp add: takeLatencyMark_def)
  then show ?thesis by (rule that)
next
  case False
  then have "takeLatencyMark conf d = (-1, d\<lparr>td_latencyMark := td_latencyMark d\<rparr>)"
    by (auto simp: takeLatencyMark_def)
  then show ?thesis by (rule that)
qed

lemma newTaskFor_effect:
  assumes "newTaskFor conf ops p q free a e d = Inr d'"
  shows "td_frame d d' \<and> td_nextTask d' = td_nextTask (snd (getTaskNumber d)) \<and> 0 \<le> free - td_schemaTupleSize d
    \<and> (\<exists>t. enqueue ops (Some t) (td_workerQueue d) = Inr (td_workerQueue d')
         \<and> task_spec d (to_int32 p) (to_int32 (if q \<le> p then q + qb_capacity (td_buffer d) else q))
              (free - td_schemaTupleSize d) a e t)"
proof -
  obtain n where n: "getTaskNumber d = (td_nextTask d, d\<lparr>td_nextTask := n\<rparr>)" by (rule getTaskNumberE)
  obtain lat m where m: "takeLatencyMark conf (d\<lparr>td_nextTask := n\<rparr>) = (lat, d\<lparr>td_nextTask := n, td_latencyMark := m\<rparr>)"
    by (rule takeLatencyMarkE [where d = "d\<lparr>td_nextTask := n\<rparr>"])
  let ?q = "if q \<le> p then q + qb_capacity (td_buffer d) else q"
  let ?free = "free - td_schemaTupleSize d"
  obtain wb0 pool where wb0: "wf_newInstance conf (td_batchSize d) (td_nextTask d) ?free (-1) (Some (td_queryId d))
      (Some (qb_id (td_buffer d))) (Some (td_window d)) (Some (td_schemaTupleSize d)) lat (-1) (-1)
      (td_batches d) = (wb0, pool)" by (rule prod.exhaust)
  let ?d1 = "d\<lparr>td_nextTask := n, td_latencyMark := m, td_batches := pool\<rparr>"
  have free: "0 \<le> ?free"
    using assms by (auto simp: newTaskFor_def n m Let_def split: if_splits)
  have "rbind (timeBatch conf (td_nextTask d) p ?q e wb0 ?d1)
      (\<lambda>(w, d2). submitTask conf ops (td_nextTask d) p ?q a e w d2) = Inr d'"
    using assms free by (simp add: newTaskFor_def n m wb0 Let_def cong: if_cong)
  then obtain wb1 d2 where t: "timeBatch conf (td_nextTask d) p ?q e wb0 ?d1 = Inr (wb1, d2)"
    and sub: "submitTask conf ops (td_nextTask d) p ?q a e wb1 d2 = Inr d'"
    by (rule rbind_pairE)
  obtain x y b where d2: "d2 = ?d1\<lparr>td_step := x, td_offset := y, td_buffer := b\<rparr>"
    and b: "same_shape_buffer (td_buffer d) b"
    using conjunct1 [OF timeBatch_timed [OF t]] by (auto elim!: timedE)
  have same: "td_replayTimestamps d \<or> b = td_buffer d" using timeBatch_timed [OF t] by (simp add: d2)
  note wb1 = untimed_sel [OF conjunct1 [OF conjunct2 [OF timeBatch_timed [OF t]]]] wf_newInstance_sel [OF wb0]
  have "td_frame d d2" using b same by (auto simp: d2 td_frame_def)
  then have "td_frame d d'" using submitTask_effect(1) [OF sub] td_frame_trans by blast
  moreover have "td_nextTask d' = n" using submitTask_effect(1) [OF sub] by (simp add: d2)
  moreover have "\<exists>t. enqueue ops (Some t) (td_workerQueue d2) = Inr (td_workerQueue d')
      \<and> task_spec d (to_int32 p) (to_int32 ?q) (wb_freePointer1 wb1) a e t"
    by (rule submitTask_effect(2) [OF sub]) (simp_all add: wb1 d2)
  ultimately show ?thesis using free by (simp add: n d2 wb1)
qed

section \<open>Cutting the stream into batches\<close>

text \<open>With latency measurements on, the packed timestamp of the first tuple is unpacked again.\<close>

definition readLatencyMark :: "SystemConf \<Rightarrow> int \<Rightarrow> 'q TaskDispatcher \<Rightarrow> 'q TaskDispatcher res" where
  "readLatencyMark conf index d =
     (if LATENCY_ON conf \<and> td_latencyMark d < 0 then
        rbind (td_getSystemTimestamp conf (td_buffer d) (to_int32 index)) (\<lambda>systemTimestamp.
        rbind (td_getTimestamp conf (td_buffer d) (to_int32 index)) (\<lambda>tupleTimestamp.
        rbind (td_setTimestamp (to_int32 index) tupleTimestamp (td_buffer d)) (\<lambda>b.
          Inr (d\<lparr>td_latencyMark := systemTimestamp, td_buffer := b\<rparr>))))
      else Inr d)"

definition freeIndex :: "'q TaskDispatcher \<Rightarrow> int" where
  "freeIndex d =
     (let f = and (td_nextBatchEndPointer d) (td_mask d)
      in (if f = 0 then qb_capacity (td_buffer d) else f) - 1)"

text \<open>The body of the loop of \<open>assemble\<close>.\<close>

definition assembleStep :: "SystemConf \<Rightarrow> 'q queue_ops \<Rightarrow> 'q TaskDispatcher \<Rightarrow> 'q TaskDispatcher res" where
  "assembleStep conf ops d =
     rbind (newTaskFor conf ops (and (td_thisBatchStartPointer d) (td_mask d))
              (and (td_nextBatchEndPointer d) (td_mask d)) (freeIndex d)
              (td_thisBatchStartPointer d) (td_nextBatchEndPointer d) (d\<lparr>td_f := freeIndex d\<rparr>)) (\<lambda>d.
       Inr (d\<lparr>td_thisBatchStartPointer := td_thisBatchStartPointer d + td_batchSize d,
              td_nextBatchEndPointer := td_nextBatchEndPointer d + td_batchSize d\<rparr>))"

lemma assembleStep_pointers:
  assumes "assembleStep conf ops d = Inr d'"
  shows "td_accumulated d' = td_accumulated d" and "td_batchSize d' = td_batchSize d"
    and "td_thisBatchStartPointer d' = td_thisBatchStartPointer d + td_batchSize d"
    and "td_nextBatchEndPointer d' = td_nextBatchEndPointer d + td_batchSize d"
proof -
  obtain d1 where d1: "newTaskFor conf ops (and (td_thisBatchStartPointer d) (td_mask d))
      (and (td_nextBatchEndPointer d) (td_mask d)) (freeIndex d)
      (td_thisBatchStartPointer d) (td_nextBatchEndPointer d) (d\<lparr>td_f := freeIndex d\<rparr>) = Inr d1"
    "d' = d1\<lparr>td_thisBatchStartPointer := td_thisBatchStartPointer d1 + td_batchSize d1,
             td_nextBatchEndPointer := td_nextBatchEndPointer d1 + td_batchSize d1\<rparr>"
    using assms by (auto simp: assembleStep_def)
  have "td_frame (d\<lparr>td_f := freeIndex d\<rparr>) d1" using newTaskFor_effect [OF d1(1)] by blast
  then show "td_accumulated d' = td_accumulated d" "td_batchSize d' = td_batchSize d"
    "td_thisBatchStartPointer d' = td_thisBatchStartPointer d + td_batchSize d"
    "td_nextBatchEndPointer d' = td_nextBatchEndPointer d + td_batchSize d"
    by (simp_all add: d1(2) td_frame_def)
qed

text \<open>A batch size that is not positive makes the loop endless.\<close>

function assembleLoop :: "SystemConf \<Rightarrow> 'q queue_ops \<Rightarrow> 'q TaskDispatcher \<Rightarrow> 'q TaskDispatcher res" where
  "assembleLoop conf ops d =
     (if td_accumulated d < td_nextBatchEndPointer d then Inr d
      else if td_batchSize d \<le> 0 then Inl Blocked
      else case assembleStep conf ops d of Inl e \<Rightarrow> Inl e | Inr d' \<Rightarrow> assembleLoop conf ops d')"
  by pat_completeness auto
termination
proof (relation "measure (\<lambda>(conf, ops, d). nat (td_accumulated d + 1 - td_nextBatchEndPointer d))")
  fix conf ops and d d' :: "'q TaskDispatcher"
  assume "\<not> td_accumulated d < td_nextBatchEndPointer d" and "\<not> td_batchSize d \<le> 0"
    and "assembleStep conf ops d = Inr d'"
  then show "((conf, ops, d'), conf, ops, d)
      \<in> measure (\<lambda>(conf, ops, d). nat (td_accumulated d + 1 - td_nextBatchEndPointer d))"
    using assembleStep_pointers [of conf ops d d'] by simp
qed simp

declare assembleLoop.simps [simp del]

definition assemble :: "SystemConf \<Rightarrow> 'q queue_ops \<Rightarrow> int \<Rightarrow> int \<Rightarrow> 'q TaskDispatcher \<Rightarrow> 'q TaskDispatcher res" where
  "assemble conf ops index len d =
     rbind (readLatencyMark conf index d) (\<lambda>d.
       let d = d\<lparr>td_accumulated := td_accumulated d + len\<rparr> in
       if \<not> isRangeBased (td_window d) \<and> \<not> isRowBased (td_window d) then Inl RuntimeError
       else assembleLoop conf ops d)"

section \<open>Merge and checkpoint tasks\<close>

text \<open>
  The loop that enqueues a merge task. When the queue refuses it and is three quarters full, the
  loop recycles the batch and the task, and \<open>TaskFactory::free\<close> clears the task pointer; the loop
  goes on with the null pointer \<open>None\<close>.
\<close>

partial_function (option) mergeSpin ::
  "'q queue_ops \<Rightarrow> int \<Rightarrow> WindowBatch \<Rightarrow> Task option \<Rightarrow> WindowBatchFactory \<Rightarrow> TaskFactory \<Rightarrow> 'q \<Rightarrow>
   (WindowBatchFactory \<times> TaskFactory \<times> 'q) res option" where
  "mergeSpin ops capacity wb task batches tasks q =
     (case try_enqueue ops task q of (ok, q') \<Rightarrow>
        if ok then Some (Inr (batches, tasks, q'))
        else if 4 * size_approx ops q' \<ge> 3 * capacity then
          (case rbind (wf_free wb 1 batches) (\<lambda>batches. rbind (tf_free task tasks) (\<lambda>tasks. Inr (batches, tasks))) of
             Inl e \<Rightarrow> Some (Inl e)
           | Inr (batches', tasks') \<Rightarrow> mergeSpin ops capacity wb None batches' tasks' q')
        else mergeSpin ops capacity wb task batches tasks q')"

definition createMergeTask ::
  "SystemConf \<Rightarrow> 'q queue_ops \<Rightarrow> 'q TaskDispatcher \<Rightarrow> 'q TaskDispatcher res" where
  "createMergeTask conf ops d =
     (let (wb, batches) = wf_newInstance conf 0 0 (-1) (-1) (Some (td_queryId d)) None (Some (td_window d))
            (Some (td_schemaTupleSize d)) (-1) (-1) (-1) (td_batches d);
          wb = setTaskType MERGE_FORWARD wb in
      rbind (tf_newInstance 0 (Some wb) None MERGE_FORWARD (td_tasks d)) (\<lambda>(t, tasks).
        case mergeSpin ops (td_taskQueueCapacity d) wb (Some t) batches tasks (td_workerQueue d) of
          None \<Rightarrow> Inl Blocked
        | Some (Inl e) \<Rightarrow> Inl e
        | Some (Inr (batches, tasks, q)) \<Rightarrow>
            Inr (d\<lparr>td_batches := batches, td_tasks := tasks, td_workerQueue := q\<rparr>)))"

definition createCheckpointTask ::
  "SystemConf \<Rightarrow> 'q queue_ops \<Rightarrow> 'q TaskDispatcher \<Rightarrow> 'q TaskDispatcher res" where
  "createCheckpointTask conf ops d =
     (let (wb, batches) = wf_newInstance conf 0 0 (-1) (-1) (Some (td_queryId d)) None (Some (td_window d))
            (Some (td_schemaTupleSize d)) (-1) (-1) (-1) (td_batches d);
          wb = setTaskType CHECKPOINT wb in
      rbind (tf_newInstance 0 (Some wb) None CHECKPOINT (td_tasks d)) (\<lambda>(t, tasks).
        case try_enqueue ops (Some t) (td_workerQueue d) of
          (True, q) \<Rightarrow> Inr (d\<lparr>td_batches := batches, td_tasks := tasks, td_workerQueue := q,
                              td_checkpointCounter := td_checkpointCounter d + 1\<rparr>)
        | (False, q) \<Rightarrow> rbind (wf_free wb 1 batches) (\<lambda>batches. rbind (tf_free (Some t) tasks) (\<lambda>tasks.
            Inr (d\<lparr>td_batches := batches, td_tasks := tasks, td_workerQueue := q\<rparr>)))))"

text \<open>
  \<open>hasWork\<close> is the answer of the checkpoint coordinator's \<open>hasWorkUnsafe\<close> for this query.
\<close>

definition tryCreateNonProcessingTasks ::
  "SystemConf \<Rightarrow> 'q queue_ops \<Rightarrow> bool \<Rightarrow> 'q TaskDispatcher \<Rightarrow> 'q TaskDispatcher res" where
  "tryCreateNonProcessingTasks conf ops hasWork d =
     (if size_approx ops (td_workerQueue d) \<ge> td_taskQueueCapacity d then Inr d
      else
        let flag = (CREATE_MERGE_WITH_CHECKPOINTS conf \<and> td_createMergeTasks d)
                     \<or> \<not> CREATE_MERGE_WITH_CHECKPOINTS conf in
        rbind (if to_int32 (size_approx ops (td_workerQueue d)) < WORKER_THREADS conf \<and> flag
               then createMergeTask conf ops d else Inr d) (\<lambda>d.
          if td_triggerCheckpoints d \<and> td_hasCoordinator d \<and> hasWork
             \<and> td_checkpointCounter d < WORKER_THREADS conf
          then createCheckpointTask conf ops d else Inr d))"

section \<open>Dispatching\<close>

text \<open>
  The waiting loop of the three \<open>dispatch\<close> functions, over the \<open>put\<close> it repeats. Between two
  attempts the other threads act: \<open>others n\<close> is what they do to the shared buffer and queue after
  the \<open>n\<close>-th failed attempt, and whether the checkpoint coordinator has work. \<open>None\<close>: the buffer
  stays full for ever.
\<close>

partial_function (option) dispatch_spin ::
  "SystemConf \<Rightarrow> 'q queue_ops \<Rightarrow> (nat \<Rightarrow> bool \<times> (QueryBuffer \<Rightarrow> QueryBuffer) \<times> ('q \<Rightarrow> 'q)) \<Rightarrow>
   ('q TaskDispatcher \<Rightarrow> (int \<times> 'q TaskDispatcher) res) \<Rightarrow> int \<Rightarrow> nat \<Rightarrow> 'q TaskDispatcher \<Rightarrow>
   'q TaskDispatcher res option" where
  "dispatch_spin conf ops others putData len n d =
     (case putData d of
        Inl e \<Rightarrow> Some (Inl e)
      | Inr (idx, d') \<Rightarrow>
          if idx < 0 then
            (case others n of (hasWork, onBuffer, onQueue) \<Rightarrow>
               case tryCreateNonProcessingTasks conf ops hasWork d' of
                 Inl e \<Rightarrow> Some (Inl e)
               | Inr d1 \<Rightarrow> dispatch_spin conf ops others putData len (Suc n)
                   (d1\<lparr>td_buffer := onBuffer (td_buffer d1), td_workerQueue := onQueue (td_workerQueue d1)\<rparr>))
          else Some (assemble conf ops idx len d'))"

definition td_put ::
  "SystemConf \<Rightarrow> byte list option \<Rightarrow> int \<Rightarrow> int \<Rightarrow> (LineageGraph \<times> nat) option \<Rightarrow> 'q TaskDispatcher \<Rightarrow>
   (int \<times> 'q TaskDispatcher) res" where
  "td_put conf data len latencyMark graph d =
     rbind (put conf data len latencyMark graph (td_graphs d) (td_buffer d)) (\<lambda>(idx, b, f).
       Inr (idx, d\<lparr>td_buffer := b, td_graphs := f\<rparr>))"

definition dispatch ::
  "SystemConf \<Rightarrow> 'q queue_ops \<Rightarrow> (nat \<Rightarrow> bool \<times> (QueryBuffer \<Rightarrow> QueryBuffer) \<times> ('q \<Rightarrow> 'q)) \<Rightarrow>
   byte list option \<Rightarrow> int \<Rightarrow> int \<Rightarrow> 'q TaskDispatcher \<Rightarrow> 'q TaskDispatcher res option" where
  "dispatch conf ops others data len latencyMark d =
     dispatch_spin conf ops others (td_put conf data len latencyMark None) len 0 d"

definition dispatchUnbounded ::
  "SystemConf \<Rightarrow> 'q queue_ops \<Rightarrow> (nat \<Rightarrow> bool \<times> (QueryBuffer \<Rightarrow> QueryBuffer) \<times> ('q \<Rightarrow> 'q)) \<Rightarrow>
   UnboundedQueryBuffer \<Rightarrow> int \<Rightarrow> 'q TaskDispatcher \<Rightarrow> 'q TaskDispatcher res option" where
  "dispatchUnbounded conf ops others data latencyMark d =
     dispatch_spin conf ops others
       (\<lambda>d. rbind (putUnbounded conf data latencyMark (td_unbounded d) (td_buffer d)) (\<lambda>(idx, b, uf).
              Inr (idx, d\<lparr>td_buffer := b, td_unbounded := uf\<rparr>)))
       (int (length (ub_buffer data))) 0 d"

definition dispatchToFirstStream ::
  "SystemConf \<Rightarrow> 'q queue_ops \<Rightarrow> (nat \<Rightarrow> bool \<times> (QueryBuffer \<Rightarrow> QueryBuffer) \<times> ('q \<Rightarrow> 'q)) \<Rightarrow>
   byte list option \<Rightarrow> int \<Rightarrow> int \<Rightarrow> 'q TaskDispatcher \<Rightarrow> 'q TaskDispatcher res option" where
  "dispatchToFirstStream conf ops others data len latencyMark d = dispatch conf ops others data len latencyMark d"

definition dispatchToSecondStream :: "'q TaskDispatcher \<Rightarrow> 'q TaskDispatcher res" where
  "dispatchToSecondStream d = Inl RuntimeError"

text \<open>The attempts that do not wait.\<close>

definition tryDispatchOrCreateTask ::
  "SystemConf \<Rightarrow> 'q queue_ops \<Rightarrow> bool \<Rightarrow> byte list option \<Rightarrow> int \<Rightarrow> int \<Rightarrow> (LineageGraph \<times> nat) option \<Rightarrow>
   'q TaskDispatcher \<Rightarrow> (bool \<times> 'q TaskDispatcher) res" where
  "tryDispatchOrCreateTask conf ops hasWork data len latencyMark graph d =
     rbind (td_put conf data len latencyMark graph d) (\<lambda>(idx, d).
       if idx < 0 then rbind (tryCreateNonProcessingTasks conf ops hasWork d) (\<lambda>d. Inr (False, d))
       else rbind (assemble conf ops idx len d) (\<lambda>d. Inr (True, d)))"

definition tryDispatch ::
  "SystemConf \<Rightarrow> 'q queue_ops \<Rightarrow> byte list option \<Rightarrow> int \<Rightarrow> int \<Rightarrow> (LineageGraph \<times> nat) option \<Rightarrow>
   'q TaskDispatcher \<Rightarrow> (bool \<times> 'q TaskDispatcher) res" where
  "tryDispatch conf ops data len latencyMark graph d =
     rbind (td_put conf data len latencyMark graph d) (\<lambda>(idx, d).
       if idx < 0 then Inr (False, d)
       else rbind (assemble conf ops idx len d) (\<lambda>d. Inr (True, d)))"

definition tryDispatchToFirstStream ::
  "SystemConf \<Rightarrow> 'q queue_ops \<Rightarrow> byte list option \<Rightarrow> int \<Rightarrow> int \<Rightarrow> (LineageGraph \<times> nat) option \<Rightarrow>
   'q TaskDispatcher \<Rightarrow> (bool \<times> 'q TaskDispatcher) res" where
  "tryDispatchToFirstStream conf ops data len latencyMark graph d =
     tryDispatch conf ops data len latencyMark graph d"

definition tryDispatchToSecondStream :: "'q TaskDispatcher \<Rightarrow> (bool \<times> 'q TaskDispatcher) res" where
  "tryDispatchToSecondStream d = Inl RuntimeError"

definition tryDispatchSerialToFirstStream :: "'q TaskDispatcher \<Rightarrow> (bool \<times> 'q TaskDispatcher) res" where
  "tryDispatchSerialToFirstStream d = Inl RuntimeError"

definition tryDispatchSerialToSecondStream :: "'q TaskDispatcher \<Rightarrow> (bool \<times> 'q TaskDispatcher) res" where
  "tryDispatchSerialToSecondStream d = Inl RuntimeError"

end
