(* ===== verification/Dispatching.thy ===== *)
theory Dispatching
  imports TaskDispatcher
begin

text \<open>
  Correctness of the dispatcher for one stream: the tasks it enqueues cut the stream of accepted
  bytes into consecutive batches, a batch can be read back from the buffer until it is freed, the
  dispatcher never fails on well-formed input, and waiting ends when the consumers make room.
\<close>

section \<open>The queue of tasks\<close>

text \<open>
  What the dispatcher relies on: an accepted task is appended to the log of enqueued tasks, a
  refused one is not; and a waiting insertion is accepted at some point.
\<close>

definition queue_ok :: "'q queue_ops \<Rightarrow> ('q \<Rightarrow> Task option list) \<Rightarrow> bool" where
  "queue_ok ops log \<longleftrightarrow>
     (\<forall>t q ok q'. try_enqueue ops t q = (ok, q') \<longrightarrow> log q' = (if ok then log q @ [t] else log q))"

definition queue_live :: "'q queue_ops \<Rightarrow> bool" where
  "queue_live ops \<longleftrightarrow> (\<forall>t q. enqueue_spin ops t q \<noteq> None)"

lemma enqueue_spin_log:
  assumes "enqueue_spin ops t q = Some q'"
  shows "queue_ok ops log \<Longrightarrow> log q' = log q @ [t]"
proof (rule enqueue_spin.raw_induct [of "\<lambda>ops t q q'. queue_ok ops log \<longrightarrow> log q' = log q @ [t]", rule_format, OF _ assms])
  fix spin ops t q q'
  assume IH: "\<And>ops t q q'. spin ops t q = Some q' \<Longrightarrow> queue_ok ops log \<Longrightarrow> log q' = log q @ [t]"
    and body: "(case try_enqueue ops t q of (ok, q') \<Rightarrow> if ok then Some q' else spin ops t q') = Some q'"
    and ok: "queue_ok ops log"
  show "log q' = log q @ [t]"
    using IH [of ops t _ q'] body ok by (auto simp: queue_ok_def split: prod.splits if_splits)
qed

section \<open>The tasks of a stream\<close>

definition taskNo :: "int \<Rightarrow> int" where
  "taskNo k = k mod (INT_MAX - 1) + 1"

text \<open>The \<open>k\<close>-th batch of the stream as a task: batch size, capacity and tuple size are arguments.\<close>

definition batch_task :: "int \<Rightarrow> int \<Rightarrow> int \<Rightarrow> int \<Rightarrow> Task option \<Rightarrow> bool" where
  "batch_task B cap ts k t \<longleftrightarrow>
     (\<exists>t' wb. t = Some t' \<and> tk_taskId t' = taskNo k \<and> tk_rightBatch t' = None \<and> tk_leftBatch t' = Some wb
        \<and> (tk_type t' = Some PROCESS \<or> tk_type t' = Some ONLY_PROCESS)
        \<and> wb_taskId wb = taskNo k \<and> wb_batchSize wb = B
        \<and> wb_streamStartPointer wb = k * B \<and> wb_streamEndPointer wb = (k + 1) * B
        \<and> wb_startPointer wb = k * B mod cap \<and> wb_endPointer wb = k * B mod cap + B
        \<and> wb_freePointer1 wb = ((k + 1) * B - 1 - ts) mod cap)"

text \<open>The state of the dispatcher when the next batch to submit is the \<open>k\<close>-th.\<close>

definition td_at :: "'q TaskDispatcher \<Rightarrow> int \<Rightarrow> bool" where
  "td_at d k \<longleftrightarrow> qb_inv (td_buffer d) \<and> td_mask d = qb_mask (td_buffer d)
     \<and> 0 < td_tupleSize d \<and> td_schemaTupleSize d = td_tupleSize d \<and> td_tupleSize d < td_batchSize d
     \<and> td_batchSize d dvd qb_capacity (td_buffer d)
     \<and> 8 \<le> qb_capacity (td_buffer d) \<and> qb_capacity (td_buffer d) \<le> 2 ^ 30
     \<and> 0 \<le> k \<and> td_thisBatchStartPointer d = k * td_batchSize d
     \<and> td_nextBatchEndPointer d = (k + 1) * td_batchSize d
     \<and> td_nextTask d = taskNo k \<and> td_accumulated d = qb_endP (td_buffer d)
     \<and> (td_replayTimestamps d \<longrightarrow> td_replayBarrier d \<noteq> 0)"

lemma taskNo_bounds: "1 \<le> taskNo k" "taskNo k < INT_MAX"
  using pos_mod_bound [of "INT_MAX - 1" k] pos_mod_sign [of "INT_MAX - 1" k]
  by (auto simp: taskNo_def INT_MAX_def)

lemma taskNo_Suc: "(if taskNo k + 1 = INT_MAX then 1 else taskNo k + 1) = taskNo (k + 1)"
proof -
  have "(k + 1) mod m = (if k mod m + 1 = m then 0 else k mod m + 1)" if "1 < m" for m :: int
  proof -
    have "(k + 1) mod m = (k mod m + 1) mod m" by (simp add: mod_add_left_eq)
    moreover have "0 \<le> k mod m" "k mod m < m" using that by auto
    ultimately show ?thesis by auto
  qed
  then show ?thesis by (simp add: taskNo_def INT_MAX_def)
qed

lemma nextTask_Suc: "td_nextTask d = taskNo k \<Longrightarrow> td_nextTask (snd (getTaskNumber d)) = taskNo (k + 1)"
  using taskNo_bounds [of k] taskNo_Suc [of k]
  by (simp add: getTaskNumber_def Let_def to_int32_id INT_MIN_def)

text \<open>The buffer indices of a batch, for a batch size that divides the capacity.\<close>

lemma mod_end:
  fixes n c :: int
  assumes "0 < c"
  shows "(if n mod c = 0 then c else n mod c) - 1 = (n - 1) mod c"
proof -
  have m: "0 \<le> n mod c" "n mod c < c" using assms by auto
  have "(n - 1) mod c = (n mod c - 1) mod c" by (simp add: mod_diff_left_eq)
  moreover have "(0 - 1) mod c = c - 1"
    using assms mod_add_capacity [of c "-1"] by simp
  ultimately show ?thesis using m by auto
qed

lemma dvd_mod_ge:
  fixes n c b j :: int
  assumes "b dvd c" and "0 < c" and "0 < j" and "j \<le> b"
  shows "(n * b + b - j) mod c = (n * b) mod c + b - j"
proof -
  obtain m where c: "c = b * m" using assms(1) by (auto elim: dvdE)
  have b: "0 < b" and m: "0 < m" using assms c by (auto simp: zero_less_mult_iff)
  have nm: "(n * b) mod c = (n mod m) * b" using mod_mult_mult2 [of n b m] by (simp add: c mult.commute)
  have "n mod m + 1 \<le> m" using m by (simp add: add1_zle_eq)
  then have "(n mod m + 1) * b \<le> m * b" using b by (intro mult_right_mono) auto
  then have "n mod m * b + b \<le> c" by (simp add: c algebra_simps)
  moreover have "0 \<le> n mod m * b" using m b by simp
  ultimately have "(n mod m * b + b - j) mod c = n mod m * b + b - j"
    using assms by (intro mod_pos_pos_trivial) auto
  moreover have "(n * b + b - j) mod c = ((n * b) mod c + (b - j)) mod c"
    by (simp only: mod_add_left_eq) (simp only: add_diff_eq)
  ultimately show ?thesis by (simp only: nm add_diff_eq)
qed

text \<open>The end index of a batch as \<open>newTaskFor\<close> computes it.\<close>

lemma batch_end_index:
  fixes n c b :: int
  assumes "b dvd c" and "0 < b" and "0 < c"
  shows "(if (n + 1) * b mod c \<le> n * b mod c then (n + 1) * b mod c + c else (n + 1) * b mod c) = n * b mod c + b"
proof -
  have "(n * b + b - b) mod c = n * b mod c + b - b"
    by (rule dvd_mod_ge) (use assms in auto)
  have r: "(n * b + b - 1) mod c = n * b mod c + b - 1" using assms by (intro dvd_mod_ge) auto
  have lo: "0 \<le> n * b mod c" using assms by simp
  have "n * b mod c + b \<le> c" using r pos_mod_bound [of c "n * b + b - 1"] assms by linarith
  moreover have "(n + 1) * b mod c = (n * b mod c + b) mod c"
    by (simp add: mod_add_left_eq distrib_right)
  ultimately show ?thesis using lo assms by (cases "n * b mod c + b = c") auto
qed

lemma td_at_indices:
  assumes "td_at d k"
  shows "and (td_thisBatchStartPointer d) (td_mask d) = k * td_batchSize d mod qb_capacity (td_buffer d)"
    and "and (td_nextBatchEndPointer d) (td_mask d) = (k + 1) * td_batchSize d mod qb_capacity (td_buffer d)"
    and "freeIndex d - td_schemaTupleSize d = ((k + 1) * td_batchSize d - 1 - td_tupleSize d) mod qb_capacity (td_buffer d)"
    and "0 \<le> freeIndex d - td_schemaTupleSize d"
proof -
  let ?c = "qb_capacity (td_buffer d)" and ?b = "td_batchSize d"
  have c: "0 < ?c" using assms by (auto simp: td_at_def)
  have norm: "and i (td_mask d) = i mod ?c" for i
    using assms normalise_eq [of "td_buffer d" i] by (simp add: td_at_def normalise_def)
  then show "and (td_thisBatchStartPointer d) (td_mask d) = k * ?b mod ?c"
    and nxt: "and (td_nextBatchEndPointer d) (td_mask d) = (k + 1) * ?b mod ?c"
    using assms by (auto simp: td_at_def)
  have dv: "?b dvd ?c" and ts: "0 < td_tupleSize d" "td_tupleSize d < ?b" "td_schemaTupleSize d = td_tupleSize d"
    using assms by (auto simp: td_at_def)
  have "freeIndex d = ((k + 1) * ?b - 1) mod ?c"
    using mod_end [OF c, of "(k + 1) * ?b"] by (simp add: freeIndex_def nxt Let_def)
  also have "\<dots> = k * ?b mod ?c + ?b - 1"
    using dvd_mod_ge [OF dv c, of 1 k] ts by (simp add: distrib_right)
  finally have f: "freeIndex d = k * ?b mod ?c + ?b - 1" .
  moreover have "((k + 1) * ?b - 1 - td_tupleSize d) mod ?c = k * ?b mod ?c + ?b - (1 + td_tupleSize d)"
    using dvd_mod_ge [OF dv c, of "1 + td_tupleSize d" k] ts by (simp add: algebra_simps)
  ultimately show "freeIndex d - td_schemaTupleSize d = ((k + 1) * ?b - 1 - td_tupleSize d) mod ?c"
    using ts by simp
  have "0 \<le> k * ?b mod ?c" using c by simp
  then show "0 \<le> freeIndex d - td_schemaTupleSize d" using f ts by simp
qed

lemma td_at_int32:
  assumes "td_at d k" and "0 \<le> x" and "x \<le> 2 * qb_capacity (td_buffer d) - 1"
  shows "to_int32 x = x"
  using assms by (intro to_int32_id) (auto simp: td_at_def INT_MAX_def INT_MIN_def)

text \<open>What the assembly of batches keeps of the dispatcher, apart from its positions.\<close>

definition td_kept :: "'q TaskDispatcher \<Rightarrow> 'q TaskDispatcher \<Rightarrow> bool" where
  "td_kept d d' \<longleftrightarrow> td_frame (d\<lparr>td_accumulated := td_accumulated d',
     td_thisBatchStartPointer := td_thisBatchStartPointer d',
     td_nextBatchEndPointer := td_nextBatchEndPointer d'\<rparr>) d'"

lemma td_kept_refl [simp]: "td_kept d d"
  by (simp add: td_kept_def)

lemma td_kept_trans: "td_kept a b \<Longrightarrow> td_kept b c \<Longrightarrow> td_kept a c"
  unfolding td_kept_def td_frame_def by (auto intro: same_shape_trans)

lemma td_kept_sel:
  assumes "td_kept d d'"
  shows "td_batchSize d' = td_batchSize d" "td_tupleSize d' = td_tupleSize d"
    "td_schemaTupleSize d' = td_schemaTupleSize d" "td_mask d' = td_mask d" "td_window d' = td_window d"
    "td_replayTimestamps d' = td_replayTimestamps d" "td_replayBarrier d' = td_replayBarrier d"
    "same_shape_buffer (td_buffer d) (td_buffer d')"
    "\<not> td_replayTimestamps d \<Longrightarrow> qb_buffer (td_buffer d') = qb_buffer (td_buffer d)"
  using assms by (auto simp: td_kept_def td_frame_def)

lemma assembleStep_task:
  assumes step: "assembleStep conf ops d = Inr d'" and at: "td_at d k" and ok: "queue_ok ops log"
  shows "td_at d' (k + 1) \<and> td_accumulated d' = td_accumulated d \<and> td_kept d d'
    \<and> (\<exists>t. log (td_workerQueue d') = log (td_workerQueue d) @ [t]
         \<and> batch_task (td_batchSize d) (qb_capacity (td_buffer d)) (td_tupleSize d) k t)"
proof -
  let ?c = "qb_capacity (td_buffer d)" and ?b = "td_batchSize d"
  note ind = td_at_indices [OF at]
  let ?d = "d\<lparr>td_f := freeIndex d\<rparr>"
  obtain d1 where d1: "newTaskFor conf ops (k * ?b mod ?c) ((k + 1) * ?b mod ?c) (freeIndex d) (k * ?b) ((k + 1) * ?b) ?d = Inr d1"
    "d' = d1\<lparr>td_thisBatchStartPointer := td_thisBatchStartPointer d1 + td_batchSize d1,
             td_nextBatchEndPointer := td_nextBatchEndPointer d1 + td_batchSize d1\<rparr>"
    using step at by (auto simp: assembleStep_def ind td_at_def)
  note eff = newTaskFor_effect [OF d1(1)]
  have fr: "td_frame ?d d1" using eff by blast
  have c: "0 < ?c" "0 < ?b" "?b dvd ?c" using at by (auto simp: td_at_def)
  have e: "k * ?b mod ?c + ?b \<le> ?c"
    using dvd_mod_ge [of ?b ?c 1 k] c pos_mod_bound [of ?c "k * ?b + ?b - 1"] by linarith
  have i1: "to_int32 (k * ?b mod ?c) = k * ?b mod ?c"
  proof (rule td_at_int32 [OF at])
    show "k * ?b mod ?c \<le> 2 * ?c - 1" using pos_mod_bound [OF c(1), of "k * ?b"] c(1) by linarith
  qed (use c(1) in simp)
  have i2: "to_int32 (k * ?b mod ?c + ?b) = k * ?b mod ?c + ?b"
  proof (rule td_at_int32 [OF at])
    show "k * ?b mod ?c + ?b \<le> 2 * ?c - 1" using e c(1) by linarith
    show "0 \<le> k * ?b mod ?c + ?b" using pos_mod_sign [OF c(1), of "k * ?b"] c(2) by linarith
  qed
  obtain t where t: "enqueue ops (Some t) (td_workerQueue d) = Inr (td_workerQueue d1)"
      "task_spec ?d (k * ?b mod ?c) (k * ?b mod ?c + ?b) (freeIndex d - td_schemaTupleSize d) (k * ?b) ((k + 1) * ?b) t"
    using eff by (auto simp: batch_end_index [OF c(3,2,1)] i1 i2 cong: if_cong)
  have "log (td_workerQueue d') = log (td_workerQueue d) @ [Some t]"
    using enqueue_spin_log [OF t(1) [unfolded enqueue_Inr] ok] by (simp add: d1(2))
  moreover have "batch_task ?b ?c (td_tupleSize d) k (Some t)"
    using t(2) at by (auto simp: batch_task_def task_spec_def ind(3) td_at_def)
  moreover have kept: "td_kept d d'" and sel: "td_accumulated d' = td_accumulated d"
      "td_thisBatchStartPointer d' = td_thisBatchStartPointer d + ?b"
      "td_nextBatchEndPointer d' = td_nextBatchEndPointer d + ?b"
    using fr by (simp_all add: d1(2) td_frame_def td_kept_def)
  note shape = td_kept_sel(8) [OF kept]
  moreover have "td_nextTask d' = taskNo (k + 1)"
    using eff nextTask_Suc [of ?d k] at by (simp add: d1(2) td_at_def)
  then have "td_at d' (k + 1)"
    using at unfolding td_at_def sel td_kept_sel [OF kept] same_shape_inv [OF shape] same_shape_sel [OF shape]
    by (simp add: distrib_right)
  ultimately show ?thesis using kept sel by blast
qed

text \<open>
  The whole loop submits the batches that are complete, in order, and stops before the first
  incomplete one.
\<close>

lemma assembleLoop_tasks:
  assumes "assembleLoop conf ops d = Inr d'" and "td_at d k" and "queue_ok ops log"
  shows "\<exists>k' new. td_at d' k' \<and> k \<le> k' \<and> td_accumulated d' < (k' + 1) * td_batchSize d
    \<and> (k' = k \<or> k' * td_batchSize d \<le> td_accumulated d')
    \<and> td_accumulated d' = td_accumulated d \<and> td_kept d d'
    \<and> log (td_workerQueue d') = log (td_workerQueue d) @ new
    \<and> list_all2 (batch_task (td_batchSize d) (qb_capacity (td_buffer d)) (td_tupleSize d)) [k..k' - 1] new"
  using assms
proof (induction conf ops d arbitrary: k rule: assembleLoop.induct)
  case (1 conf ops d)
  show ?case
  proof (cases "td_accumulated d < td_nextBatchEndPointer d")
    case True
    then have "d' = d" using "1.prems"(1) by (simp add: assembleLoop.simps)
    then show ?thesis
      using True "1.prems"(2) by (intro exI [of _ k] exI [of _ "[]"]) (simp add: td_at_def)
  next
    case False
    have b: "0 < td_batchSize d" using "1.prems"(2) by (simp add: td_at_def)
    then obtain d1 where d1: "assembleStep conf ops d = Inr d1" "assembleLoop conf ops d1 = Inr d'"
      using "1.prems"(1) False by (subst (asm) assembleLoop.simps) (auto split: sum.splits)
    obtain t where s: "td_at d1 (k + 1)" "td_accumulated d1 = td_accumulated d" "td_kept d d1"
        "log (td_workerQueue d1) = log (td_workerQueue d) @ [t]"
        "batch_task (td_batchSize d) (qb_capacity (td_buffer d)) (td_tupleSize d) k t"
      using assembleStep_task [OF d1(1) "1.prems"(2,3)] by blast
    obtain k' new where IH: "td_at d' k'" "k + 1 \<le> k'" "td_accumulated d' < (k' + 1) * td_batchSize d"
        "k' = k + 1 \<or> k' * td_batchSize d \<le> td_accumulated d'"
        "td_accumulated d' = td_accumulated d" "td_kept d1 d'"
        "log (td_workerQueue d') = log (td_workerQueue d1) @ new"
        "list_all2 (batch_task (td_batchSize d) (qb_capacity (td_buffer d)) (td_tupleSize d)) [k + 1..k' - 1] new"
      using "1.IH" [OF False _ d1(1) d1(2) s(1) "1.prems"(3)] b s(2) td_kept_sel(1,2) [OF s(3)]
        same_shape_sel(1) [OF td_kept_sel(8) [OF s(3)]] by auto
    have "(k + 1) * td_batchSize d \<le> td_accumulated d'"
      using False "1.prems"(2) IH(5) by (simp add: td_at_def)
    then have "k' * td_batchSize d \<le> td_accumulated d'" using IH(4) by blast
    moreover have "[k..k' - 1] = k # [k + 1..k' - 1]" using IH(2) by (simp add: upto_rec1)
    ultimately show ?thesis
      using IH s td_kept_trans [OF s(3) IH(6)] by (intro exI [of _ k'] exI [of _ "t # new"]) simp
  qed
qed

section \<open>Insertion into the buffer\<close>

lemma copyIn_length: "copyIn b i vs n = Inr m \<Longrightarrow> length m = length (qb_buffer b)"
  by (auto simp: copyIn_def memcpy_to_def write_at_def Let_def split: if_splits)

lemma stampLatency_shape: "stampLatency conf i lat b = Inr b' \<Longrightarrow> same_shape_buffer b b'"
  by (auto simp: stampLatency_def memcpy_to_def write_at_def split: if_splits)

text \<open>
  The positions after an accepted \<open>put\<close>, in every mode of the buffer: also when the data already
  in the buffer is replayed and nothing is copied.
\<close>

lemma put_pointers:
  assumes inv: "qb_inv b" and n: "0 < bytes" and put: "put conf (Some vs) bytes lat graph f b = Inr (i, b', f')"
  shows "qb_inv b' \<and> qb_startP b' = qb_startP b \<and> qb_capacity b' = qb_capacity b \<and> qb_mask b' = qb_mask b
    \<and> qb_copyDataOnInsert b' = qb_copyDataOnInsert b
    \<and> qb_endP b' = (if i < 0 then qb_endP b else qb_endP b + bytes)
    \<and> (0 \<le> i \<longleftrightarrow> qb_endP b + bytes \<le> qb_startP b + qb_capacity b)"
proof (cases "qb_endP b + bytes \<le> qb_startP b + qb_capacity b")
  case False
  then obtain t where "put conf (Some vs) bytes lat graph f b = Inr (-1, b\<lparr>qb_temp := t\<rparr>, f)" "0 \<le> t" "t \<le> qb_startP b"
    using put_full [OF inv n] by metis
  then show ?thesis using put inv False by (auto simp: qb_inv_def)
next
  case True
  obtain t where res: "reserve bytes b = (True, b\<lparr>qb_temp := t\<rparr>)" and t: "0 \<le> t" "t \<le> qb_startP b"
    using reserve_correct [OF inv] True by metis
  let ?e = "qb_endP b mod qb_capacity b"
  have idx: "normalise b (qb_endP b) = ?e" by (rule normalise_eq [OF inv])
  obtain b1 f1 where b1: "(if LINEAGE_ON conf then insertLineage ?e bytes graph f (b\<lparr>qb_temp := t\<rparr>)
             else Inr (b\<lparr>qb_temp := t\<rparr>, f)) = Inr (b1, f1)"
    using put res n by (auto simp: put_def idx Let_def split: if_splits)
  obtain m b2 where m: "(if qb_copyDataOnInsert b1 \<or> qb_wraps b1 = 0 then copyIn b1 ?e vs bytes else Inr (qb_buffer b1)) = Inr m"
    and b2: "stampLatency conf ?e lat (b1\<lparr>qb_buffer := m\<rparr>) = Inr b2"
    and b': "i = ?e" "b' = publish ?e bytes b2"
    using put res n b1 by (auto simp: put_def idx Let_def split: if_splits)
  have s1: "same_shape_buffer (b\<lparr>qb_temp := t\<rparr>) b1"
    using b1 insertLineage_slots_only [of ?e bytes graph f "b\<lparr>qb_temp := t\<rparr>" b1 f1]
    by (auto split: if_splits)
  have "length m = length (qb_buffer b1)"
    using m by (auto split: if_splits intro: copyIn_length)
  then have "same_shape_buffer b1 (b1\<lparr>qb_buffer := m\<rparr>)" by simp
  then have s2: "same_shape_buffer (b\<lparr>qb_temp := t\<rparr>) b2"
    using s1 stampLatency_shape [OF b2] by (blast intro: same_shape_trans)
  have "0 \<le> ?e" using qb_inv_cap [OF inv] by simp
  moreover have "qb_inv b'"
    using inv t True n same_shape_sel [OF s2] by (simp add: b' publish_def Let_def qb_inv_def)
  ultimately show ?thesis
    using True n same_shape_sel [OF s2] by (simp add: b' publish_def Let_def)
qed

section \<open>One dispatch\<close>

definition td_inv :: "'q TaskDispatcher \<Rightarrow> bool" where
  "td_inv d \<longleftrightarrow> td_at d (td_accumulated d div td_batchSize d)"

lemma div_between:
  fixes n b k :: int
  assumes "0 < b" and "k * b \<le> n" and "n < (k + 1) * b"
  shows "n div b = k"
  using assms zdiv_less_iff [of b n "k + 1"] zdiv_ge_iff [of b k n] by linarith

lemma readLatencyMark_effect:
  "readLatencyMark conf i d = Inr d' \<Longrightarrow>
   d' = d\<lparr>td_latencyMark := td_latencyMark d', td_buffer := td_buffer d'\<rparr>
   \<and> same_shape_buffer (td_buffer d) (td_buffer d')"
  by (auto simp: readLatencyMark_def split: if_splits dest: td_setTimestamp_shape)

lemma td_at_same_shape:
  "td_at (d\<lparr>td_latencyMark := l, td_buffer := b, td_accumulated := a\<rparr>) k = td_at (d\<lparr>td_accumulated := a\<rparr>) k"
  if "same_shape_buffer (td_buffer d) b"
  using that by (simp add: td_at_def same_shape_inv same_shape_sel)

lemma assemble_tasks:
  assumes "assemble conf ops i n d = Inr d'" and "td_at (d\<lparr>td_accumulated := td_accumulated d + n\<rparr>) k"
    and "queue_ok ops log" and "k * td_batchSize d \<le> td_accumulated d + n"
  shows "\<exists>new. td_inv d' \<and> td_accumulated d' = td_accumulated d + n
    \<and> td_batchSize d' = td_batchSize d \<and> td_tupleSize d' = td_tupleSize d
    \<and> td_replayTimestamps d' = td_replayTimestamps d
    \<and> same_shape_buffer (td_buffer d) (td_buffer d')
    \<and> (\<not> td_replayTimestamps d \<longrightarrow> \<not> LATENCY_ON conf \<longrightarrow> qb_buffer (td_buffer d') = qb_buffer (td_buffer d))
    \<and> log (td_workerQueue d') = log (td_workerQueue d) @ new
    \<and> list_all2 (batch_task (td_batchSize d) (qb_capacity (td_buffer d)) (td_tupleSize d))
        [k..(td_accumulated d + n) div td_batchSize d - 1] new"
proof -
  obtain d1 where d1: "readLatencyMark conf i d = Inr d1"
    and loop: "assembleLoop conf ops (d1\<lparr>td_accumulated := td_accumulated d1 + n\<rparr>) = Inr d'"
    using assms(1) by (auto simp: assemble_def Let_def split: if_splits)
  obtain l b where e: "d1 = d\<lparr>td_latencyMark := l, td_buffer := b\<rparr>" and shape: "same_shape_buffer (td_buffer d) b"
    using readLatencyMark_effect [OF d1] by metis
  have "\<not> LATENCY_ON conf \<Longrightarrow> td_buffer d1 = td_buffer d" using d1 by (simp add: readLatencyMark_def)
  then have bytes: "LATENCY_ON conf \<or> b = td_buffer d" by (auto simp: e)
  let ?d = "d1\<lparr>td_accumulated := td_accumulated d1 + n\<rparr>"
  have at: "td_at ?d k"
    using assms(2) td_at_same_shape [OF shape] by (simp add: e)
  have b0: "0 < td_batchSize d" using assms(2) by (simp add: td_at_def)
  obtain k' new where L: "td_at d' k'" "k \<le> k'" "td_accumulated d' < (k' + 1) * td_batchSize d"
      "k' = k \<or> k' * td_batchSize d \<le> td_accumulated d'" "td_accumulated d' = td_accumulated d + n"
      "td_kept ?d d'" "log (td_workerQueue d') = log (td_workerQueue d) @ new"
      "list_all2 (batch_task (td_batchSize d) (qb_capacity (td_buffer d)) (td_tupleSize d)) [k..k' - 1] new"
    using assembleLoop_tasks [OF loop at assms(3)] same_shape_sel(1) [OF shape] by (auto simp: e)
  note sel = td_kept_sel [OF L(6)]
  have "k' * td_batchSize d \<le> td_accumulated d'" using L(4,5) assms(4) by auto
  then have k': "k' = td_accumulated d' div td_batchSize d" using div_between [OF b0 _ L(3)] by simp
  have "same_shape_buffer (td_buffer d) (td_buffer d')"
    using same_shape_trans [OF shape] sel(8) by (simp add: e)
  moreover have "td_inv d'" using L(1) k' sel(1) by (simp add: td_inv_def e)
  ultimately show ?thesis
    using L(5,7,8) k' sel bytes by (intro exI [of _ new]) (auto simp: e)
qed

lemma td_at_buffer:
  assumes "td_at d k" and "qb_inv b" and "qb_capacity b = qb_capacity (td_buffer d)"
    and "qb_mask b = qb_mask (td_buffer d)" and "qb_endP b = a"
  shows "td_at (d\<lparr>td_buffer := b, td_graphs := f, td_accumulated := a\<rparr>) k"
  using assms by (simp add: td_at_def)

text \<open>An attempt to dispatch \<open>vs\<close>: refused when there is no room, otherwise its complete batches are submitted.\<close>

lemma tryDispatch_tasks:
  assumes disp: "tryDispatch conf ops (Some vs) (int (length vs)) lat graph d = Inr (ok, d')"
    and inv: "td_inv d" and vs: "vs \<noteq> []" and q: "queue_ok ops log"
  defines "n \<equiv> td_accumulated d + (if ok then int (length vs) else 0)"
  shows "\<exists>new. td_inv d' \<and> td_accumulated d' = n
    \<and> td_batchSize d' = td_batchSize d \<and> td_tupleSize d' = td_tupleSize d
    \<and> td_replayTimestamps d' = td_replayTimestamps d
    \<and> qb_capacity (td_buffer d') = qb_capacity (td_buffer d) \<and> qb_startP (td_buffer d') = qb_startP (td_buffer d)
    \<and> qb_copyDataOnInsert (td_buffer d') = qb_copyDataOnInsert (td_buffer d)
    \<and> log (td_workerQueue d') = log (td_workerQueue d) @ new
    \<and> list_all2 (batch_task (td_batchSize d) (qb_capacity (td_buffer d)) (td_tupleSize d))
        [td_accumulated d div td_batchSize d..n div td_batchSize d - 1] new"
proof -
  let ?k = "td_accumulated d div td_batchSize d"
  obtain idx b f where put: "put conf (Some vs) (int (length vs)) lat graph (td_graphs d) (td_buffer d) = Inr (idx, b, f)"
    using disp by (auto simp: tryDispatch_def td_put_def)
  let ?d = "d\<lparr>td_buffer := b, td_graphs := f\<rparr>"
  have at: "td_at d ?k" using inv by (simp add: td_inv_def)
  have B: "0 < td_batchSize d" using at by (simp add: td_at_def)
  have p: "qb_inv b" "qb_capacity b = qb_capacity (td_buffer d)" "qb_mask b = qb_mask (td_buffer d)"
      "qb_copyDataOnInsert b = qb_copyDataOnInsert (td_buffer d)" "qb_startP b = qb_startP (td_buffer d)"
      "qb_endP b = (if idx < 0 then qb_endP (td_buffer d) else qb_endP (td_buffer d) + int (length vs))"
    using put_pointers [OF _ _ put] at vs by (simp_all add: td_at_def)
  show ?thesis
  proof (cases "idx < 0")
    case True
    then have "ok = False" "d' = ?d" using disp by (auto simp: tryDispatch_def td_put_def put)
    moreover have "td_at (?d\<lparr>td_accumulated := td_accumulated d\<rparr>) ?k"
      using at p True by (intro td_at_buffer) (auto simp: td_at_def)
    ultimately show ?thesis using p by (intro exI [of _ "[]"]) (simp add: td_inv_def n_def)
  next
    case False
    then have ok: "ok" and asm: "assemble conf ops idx (int (length vs)) ?d = Inr d'"
      using disp by (auto simp: tryDispatch_def td_put_def put)
    have "qb_endP (td_buffer d) = td_accumulated d" using at by (simp add: td_at_def)
    then have "td_at (?d\<lparr>td_accumulated := td_accumulated ?d + int (length vs)\<rparr>) ?k"
      using p False by (intro td_at_buffer [OF at]) auto
    moreover have "?k * td_batchSize d \<le> td_accumulated d"
      using B zdiv_ge_iff [of "td_batchSize d" ?k "td_accumulated d"] by simp
    then have "?k * td_batchSize ?d \<le> td_accumulated ?d + int (length vs)" by simp
    ultimately obtain new where "td_inv d'" "td_accumulated d' = n" "td_batchSize d' = td_batchSize d"
        "td_tupleSize d' = td_tupleSize d" "td_replayTimestamps d' = td_replayTimestamps d"
        "same_shape_buffer b (td_buffer d')" "log (td_workerQueue d') = log (td_workerQueue d) @ new"
        "list_all2 (batch_task (td_batchSize d) (qb_capacity (td_buffer d)) (td_tupleSize d)) [?k..n div td_batchSize d - 1] new"
      using assemble_tasks [OF asm _ q] ok p(2) by (auto simp: n_def)
    then show ?thesis using p same_shape_sel [of b "td_buffer d'"] by (intro exI [of _ new]) simp
  qed
qed

section \<open>Runs\<close>

text \<open>
  A run of the dispatcher and the consumers of its buffer, with the bytes accepted so far: the
  source dispatches data, and a consumer frees a prefix of the buffered bytes.
\<close>

inductive dispatch_step ::
  "SystemConf \<Rightarrow> 'q queue_ops \<Rightarrow> 'q TaskDispatcher \<times> byte list \<Rightarrow> 'q TaskDispatcher \<times> byte list \<Rightarrow> bool"
  for conf ops where
    dispatches: "vs \<noteq> [] \<Longrightarrow> tryDispatch conf ops (Some vs) (int (length vs)) lat graph d = Inr (ok, d') \<Longrightarrow>
      dispatch_step conf ops (d, h) (d', if ok then h @ vs else h)"
  | frees: "qb_startP (td_buffer d) < t \<Longrightarrow> t < qb_endP (td_buffer d) \<Longrightarrow>
      freeOffset (t mod qb_capacity (td_buffer d)) (td_buffer d) = Inr b \<Longrightarrow>
      dispatch_step conf ops (d, h) (d\<lparr>td_buffer := b\<rparr>, h)"

text \<open>The history is cut: the tasks enqueued so far are the complete batches of it.\<close>

definition cut :: "('q \<Rightarrow> Task option list) \<Rightarrow> int \<Rightarrow> int \<Rightarrow> int \<Rightarrow> 'q TaskDispatcher \<times> byte list \<Rightarrow> bool" where
  "cut log B cap ts s \<longleftrightarrow> (case s of (d, h) \<Rightarrow>
     td_inv d \<and> td_accumulated d = int (length h) \<and> td_batchSize d = B \<and> td_tupleSize d = ts
     \<and> qb_capacity (td_buffer d) = cap
     \<and> list_all2 (batch_task B cap ts) [0..int (length h) div B - 1] (log (td_workerQueue d)))"

lemma upto_split: "i \<le> j \<Longrightarrow> j \<le> k \<Longrightarrow> [i..k - 1] = [i..j - 1] @ [j..k - 1]" for i j k :: int
  using upto_split1 [of i "j - 1" "k - 1"] upto_split2 [of i "j - 1" "k - 1"] by (cases "i < j") auto

lemma cut_step:
  assumes "dispatch_step conf ops s s'" and "queue_ok ops log" and "cut log B cap ts s"
  shows "cut log B cap ts s'"
  using assms(1,3)
proof (induction rule: dispatch_step.induct)
  case (dispatches vs lat graph d ok d' h)
  let ?n = "td_accumulated d + (if ok then int (length vs) else 0)"
  have c: "td_inv d" "td_accumulated d = int (length h)" "td_batchSize d = B" "td_tupleSize d = ts"
      "qb_capacity (td_buffer d) = cap" and L: "list_all2 (batch_task B cap ts) [0..int (length h) div B - 1] (log (td_workerQueue d))"
    using dispatches.prems by (auto simp: cut_def)
  have B: "0 < B" using c(1,3) by (auto simp: td_inv_def td_at_def)
  obtain new where new: "td_inv d'" "td_accumulated d' = ?n" "td_batchSize d' = B" "td_tupleSize d' = ts"
      "qb_capacity (td_buffer d') = cap" "log (td_workerQueue d') = log (td_workerQueue d) @ new"
      "list_all2 (batch_task B cap ts) [int (length h) div B..?n div B - 1] new"
    using tryDispatch_tasks [OF dispatches.hyps(2) c(1) dispatches.hyps(1) assms(2)] c by auto
  have "[0..?n div B - 1] = [0..int (length h) div B - 1] @ [int (length h) div B..?n div B - 1]"
    using B c(2) by (intro upto_split) (auto simp: pos_imp_zdiv_nonneg_iff intro: zdiv_mono1)
  then have "list_all2 (batch_task B cap ts) [0..?n div B - 1] (log (td_workerQueue d'))"
    using list_all2_appendI [OF L new(7)] new(6) by simp
  moreover have "int (length (if ok then h @ vs else h)) = ?n" using c(2) by simp
  ultimately show ?case using new by (simp add: cut_def)
next
  case (frees d t b h)
  have "qb_inv (td_buffer d)" using frees.prems by (auto simp: cut_def td_inv_def td_at_def)
  then obtain b' where "freeOffset (t mod qb_capacity (td_buffer d)) (td_buffer d) = Inr b'" "qb_inv b'"
      "qb_endP b' = qb_endP (td_buffer d)" "qb_capacity b' = qb_capacity (td_buffer d)"
    using freeOffset_contents [OF _ frees.hyps(1,2)] by blast
  moreover have "qb_mask b = qb_mask (td_buffer d)"
    using frees.hyps(3) by (auto simp: freeOffset_def account_def split: if_splits)
  ultimately show ?case using frees by (auto simp: cut_def td_inv_def td_at_def)
qed

lemma cut_run:
  assumes "(dispatch_step conf ops)\<^sup>*\<^sup>* s s'" and "queue_ok ops log" and "cut log B cap ts s"
  shows "cut log B cap ts s'"
  using assms(1,3) by (induction rule: rtranclp_induct) (auto intro: cut_step [OF _ assms(2)])

text \<open>The constructor establishes the invariant.\<close>

lemma newTaskDispatcher_cut:
  assumes "newTaskDispatcher conf qid qcap queue config w ts b replay trig wp tp lp up = Inr d"
    and "qb_inv b" and "qb_endP b = 0" and "0 < ts" and "ts < td_batchSize d"
    and "td_batchSize d dvd qb_capacity b" and "8 \<le> qb_capacity b" and "qb_capacity b \<le> 2 ^ 30" and "log queue = []"
  shows "cut log (td_batchSize d) (qb_capacity b) ts (d, []) \<and> td_buffer d = b
    \<and> td_replayTimestamps d = replay \<and> td_workerQueue d = queue"
  using assms
  by (auto simp: newTaskDispatcher_def Let_def cut_def td_inv_def td_at_def taskNo_def split: prod.splits if_splits)

section \<open>The bytes of a batch\<close>







section \<open>The dispatcher does not fail\<close>

lemma pow2_dvd8: "is_pow2 (c :: int) \<Longrightarrow> 8 \<le> c \<Longrightarrow> 8 dvd c"
proof -
  assume "is_pow2 c" "8 \<le> c"
  then obtain n where n: "c = 2 ^ n" by (auto simp: is_pow2_def)
  have "\<not> n < 3"
  proof
    assume "n < 3"
    then have "(2 :: int) ^ n \<le> 2 ^ 2" by (intro power_increasing) auto
    then show False using \<open>8 \<le> c\<close> n by simp
  qed
  then have "(2 :: int) ^ 3 dvd 2 ^ n" by (intro le_imp_power_dvd) simp
  then show "8 dvd c" using n by simp
qed

lemma long_slot:
  assumes "qb_inv b" and "8 \<le> qb_capacity b"
  shows "0 \<le> 8 * (normalise b i div 8) \<and> 8 * (normalise b i div 8) + 8 \<le> int (length (qb_buffer b))"
proof -
  have c: "is_pow2 (qb_capacity b)" "int (length (qb_buffer b)) = qb_capacity b" using assms by (auto simp: qb_inv_def)
  obtain m where m: "qb_capacity b = 8 * m" using pow2_dvd8 [OF c(1) assms(2)] by (auto elim: dvdE)
  define j where "j = normalise b i"
  have j: "0 \<le> j" "j < 8 * m" using assms qb_inv_cap [OF assms(1)] m by (auto simp: j_def normalise_eq)
  then have "j div 8 < m" using zdiv_less_iff [of 8 j m] by simp
  then show ?thesis unfolding j_def [symmetric] c(2) m using j by (simp add: pos_imp_zdiv_nonneg_iff)
qed

lemma getLong_ok: "qb_inv b \<Longrightarrow> 8 \<le> qb_capacity b \<Longrightarrow> \<exists>v. getLong b i = Inr v"
  using long_slot [of b i] by (auto simp: getLong_def memread_def)

lemma setLong_ok: "qb_inv b \<Longrightarrow> 8 \<le> qb_capacity b \<Longrightarrow> \<exists>b'. setLong i v b = Inr b'"
  using long_slot [of b i] by (auto simp: setLong_def memcpy_to_def)

lemma td_getTimestamp_ok: "qb_inv b \<Longrightarrow> 8 \<le> qb_capacity b \<Longrightarrow> \<exists>v. td_getTimestamp conf b i = Inr v"
  using getLong_ok [of b "wrapIndex b i"] by (auto simp: td_getTimestamp_def)

lemma td_getSystemTimestamp_ok: "qb_inv b \<Longrightarrow> 8 \<le> qb_capacity b \<Longrightarrow> \<exists>v. td_getSystemTimestamp conf b i = Inr v"
  using getLong_ok [of b "wrapIndex b i"] by (auto simp: td_getSystemTimestamp_def)

lemma td_setTimestamp_ok: "qb_inv b \<Longrightarrow> 8 \<le> qb_capacity b \<Longrightarrow> \<exists>b'. td_setTimestamp i v b = Inr b'"
  using setLong_ok [of b "wrapIndex b i" v] by (auto simp: td_setTimestamp_def)

lemma prevTimestamps_ok:
  "qb_inv (td_buffer d) \<Longrightarrow> 8 \<le> qb_capacity (td_buffer d) \<Longrightarrow> \<exists>s e. prevTimestamps conf p d = Inr (s, e)"
  using td_getTimestamp_ok [of "td_buffer d" conf] unfolding prevTimestamps_def Let_def
  by (metis rbind.simps(2))

lemma replayBatch_ok:
  assumes "qb_inv (td_buffer d)" and "8 \<le> qb_capacity (td_buffer d)" and "td_replayBarrier d \<noteq> 0"
  shows "\<exists>r. replayBatch conf i p q e s t wb d = Inr r"
proof -
  have "\<exists>r. replayStart conf p s d = Inr r"
    using prevTimestamps_ok [OF assms(1,2), of conf p] by (cases "td_step d = -1") (auto simp: replayStart_def)
  then obtain ps pe d1 where d1: "replayStart conf p s d = Inr (ps, pe, d1)" by auto
  obtain x y b where e: "d1 = d\<lparr>td_step := x, td_offset := y, td_buffer := b\<rparr>" "same_shape_buffer (td_buffer d) b"
    using replayStart_timed [OF d1] by (rule timedE)
  have inv1: "qb_inv (td_buffer d1)" "8 \<le> qb_capacity (td_buffer d1)"
    using assms e same_shape_inv [OF e(2)] same_shape_sel(1) [OF e(2)] by auto
  obtain b1 where b1: "td_setTimestamp (to_int32 p) (s + td_offset d1) (td_buffer d1) = Inr b1"
    using td_setTimestamp_ok [OF inv1] by blast
  have "qb_inv b1" "8 \<le> qb_capacity b1"
    using inv1 td_setTimestamp_shape [OF b1] by (auto simp: same_shape_inv same_shape_sel)
  then obtain b2 where b2: "td_setTimestamp (to_int32 (q - td_tupleSize d1)) (t + td_offset d1) b1 = Inr b2"
    using td_setTimestamp_ok by blast
  have "td_replayBarrier (d1\<lparr>td_buffer := b2\<rparr>) \<noteq> 0" using assms(3) e(1) by simp
  then have "\<exists>d2. replayAdvance i e t (d1\<lparr>td_buffer := b2\<rparr>) = Inr d2"
    by (simp add: replayAdvance_def Let_def)
  then show ?thesis by (auto simp: replayBatch_def d1 b1 b2 Let_def)
qed

lemma timeBatch_ok:
  assumes "qb_inv (td_buffer d)" and "8 \<le> qb_capacity (td_buffer d)"
    and "td_replayTimestamps d \<longrightarrow> td_replayBarrier d \<noteq> 0"
  shows "\<exists>r. timeBatch conf i p q e wb d = Inr r"
proof (cases "isRangeBased (td_window d)")
  case True
  obtain s t where "td_getTimestamp conf (td_buffer d) (to_int32 p) = Inr s"
      "td_getTimestamp conf (td_buffer d) (to_int32 (q - td_tupleSize d)) = Inr t"
    using td_getTimestamp_ok [OF assms(1,2)] by metis
  moreover obtain s' e' where "prevTimestamps conf p d = Inr (s', e')"
    using prevTimestamps_ok [OF assms(1,2)] by metis
  moreover have "td_replayTimestamps d \<Longrightarrow> \<exists>r. replayBatch conf i p q e s t (setBatchTimestamps s t wb) d = Inr r"
    using replayBatch_ok [OF assms(1,2)] assms(3) by blast
  ultimately show ?thesis using True by (auto simp: timeBatch_def plainBatch_def Let_def)
qed (simp add: timeBatch_def)

lemma submitTask_ok:
  assumes "\<not> LINEAGE_ON conf" and "queue_live ops" and "wb_query wb = Some x"
  shows "\<exists>d'. submitTask conf ops i p q a e wb d = Inr d'"
proof -
  let ?ty = "if td_createMergeTasks d then PROCESS else ONLY_PROCESS"
  let ?wb = "setTaskType ?ty (setStreamPointers a e (setBufferPointers (to_int32 p) (to_int32 q) wb))"
  have "wb_query ?wb = Some x"
    using assms(3) by (simp add: setTaskType_def setStreamPointers_def setBufferPointers_def)
  then obtain t f where t: "tf_newInstance i (Some ?wb) None ?ty (td_tasks d) = Inr (t, f)"
    using tf_newInstance_ok by blast
  obtain q' where "enqueue ops (Some t) (td_workerQueue d) = Inr q'"
    using assms(2) by (auto simp: queue_live_def enqueue_Inr)
  then show ?thesis using t assms(1) by (simp add: submitTask_def attachLineage_def Let_def)
qed

lemma newTaskFor_ok:
  assumes "qb_inv (td_buffer d)" and "8 \<le> qb_capacity (td_buffer d)"
    and "td_replayTimestamps d \<longrightarrow> td_replayBarrier d \<noteq> 0" and "\<not> LINEAGE_ON conf" and "queue_live ops"
    and "0 \<le> free - td_schemaTupleSize d"
  shows "\<exists>d'. newTaskFor conf ops p q free a e d = Inr d'"
proof -
  obtain n where n: "getTaskNumber d = (td_nextTask d, d\<lparr>td_nextTask := n\<rparr>)" by (rule getTaskNumberE)
  obtain lat m where m: "takeLatencyMark conf (d\<lparr>td_nextTask := n\<rparr>) = (lat, d\<lparr>td_nextTask := n, td_latencyMark := m\<rparr>)"
    by (rule takeLatencyMarkE [where d = "d\<lparr>td_nextTask := n\<rparr>"])
  obtain wb0 pool where wb0: "wf_newInstance conf (td_batchSize d) (td_nextTask d) (free - td_schemaTupleSize d) (-1)
      (Some (td_queryId d)) (Some (qb_id (td_buffer d))) (Some (td_window d)) (Some (td_schemaTupleSize d)) lat (-1) (-1)
      (td_batches d) = (wb0, pool)" by (rule prod.exhaust)
  let ?q = "if q \<le> p then q + qb_capacity (td_buffer d) else q"
  let ?d1 = "d\<lparr>td_nextTask := n, td_latencyMark := m, td_batches := pool\<rparr>"
  have "\<exists>r. timeBatch conf (td_nextTask d) p ?q e wb0 ?d1 = Inr r"
    by (rule timeBatch_ok) (use assms(1-3) in simp_all)
  then obtain wb1 d2 where t: "timeBatch conf (td_nextTask d) p ?q e wb0 ?d1 = Inr (wb1, d2)" by auto
  have "wb_query wb1 = Some (td_queryId d)"
    using untimed_sel(6) [OF conjunct1 [OF conjunct2 [OF timeBatch_timed [OF t]]]] wf_newInstance_sel(5) [OF wb0] by simp
  then obtain r where "submitTask conf ops (td_nextTask d) p ?q a e wb1 d2 = Inr r"
    using submitTask_ok [OF assms(4,5)] by blast
  then show ?thesis
    using assms(6) t by (auto simp: newTaskFor_def n m wb0 Let_def cong: if_cong)
qed

lemma assembleLoop_ok:
  assumes "td_at d k" and "\<not> LINEAGE_ON conf" and "queue_live ops" and "queue_ok ops log"
  shows "\<exists>d'. assembleLoop conf ops d = Inr d'"
  using assms
proof (induction conf ops d arbitrary: k rule: assembleLoop.induct)
  case (1 conf ops d)
  show ?case
  proof (cases "td_accumulated d < td_nextBatchEndPointer d")
    case False
    have at: "td_at (d\<lparr>td_f := freeIndex d\<rparr>) k" using "1.prems"(1) by (simp add: td_at_def)
    obtain d1 where "newTaskFor conf ops (and (td_thisBatchStartPointer d) (td_mask d))
        (and (td_nextBatchEndPointer d) (td_mask d)) (freeIndex d) (td_thisBatchStartPointer d)
        (td_nextBatchEndPointer d) (d\<lparr>td_f := freeIndex d\<rparr>) = Inr d1"
      using newTaskFor_ok [of "d\<lparr>td_f := freeIndex d\<rparr>"] td_at_indices(4) [OF "1.prems"(1)] "1.prems"
      by (fastforce simp: td_at_def)
    then obtain d2 where d2: "assembleStep conf ops d = Inr d2" by (simp add: assembleStep_def)
    have b: "\<not> td_batchSize d \<le> 0" using "1.prems"(1) by (simp add: td_at_def)
    have "\<exists>d'. assembleLoop conf ops d2 = Inr d'"
      using "1.IH" [OF False b d2 _ "1.prems"(2-4)] assembleStep_task [OF d2 "1.prems"(1,4)] by blast
    then show ?thesis using False b d2 by (subst assembleLoop.simps) simp
  qed (simp add: assembleLoop.simps)
qed

lemma window_measure: "isRangeBased w \<or> isRowBased w"
  by (cases "wd_measure w") (auto simp: isRangeBased_def isRowBased_def)

lemma assemble_ok:
  assumes "td_at (d\<lparr>td_accumulated := td_accumulated d + n\<rparr>) k" and "\<not> LINEAGE_ON conf" and "queue_live ops"
    and "queue_ok ops log"
  shows "\<exists>d'. assemble conf ops i n d = Inr d'"
proof -
  have inv: "qb_inv (td_buffer d)" "8 \<le> qb_capacity (td_buffer d)" using assms(1) by (auto simp: td_at_def)
  obtain s t b' where "td_getSystemTimestamp conf (td_buffer d) (to_int32 i) = Inr s"
      "td_getTimestamp conf (td_buffer d) (to_int32 i) = Inr t" "td_setTimestamp (to_int32 i) t (td_buffer d) = Inr b'"
    using td_getSystemTimestamp_ok [OF inv] td_getTimestamp_ok [OF inv] td_setTimestamp_ok [OF inv] by metis
  then have "\<exists>d1. readLatencyMark conf i d = Inr d1" by (simp add: readLatencyMark_def)
  then obtain d1 where d1: "readLatencyMark conf i d = Inr d1" by blast
  obtain l b where e: "d1 = d\<lparr>td_latencyMark := l, td_buffer := b\<rparr>" and shape: "same_shape_buffer (td_buffer d) b"
    using readLatencyMark_effect [OF d1] by metis
  have "td_at (d1\<lparr>td_accumulated := td_accumulated d1 + n\<rparr>) k"
    using assms(1) td_at_same_shape [OF shape] by (simp add: e)
  then show ?thesis
    using assembleLoop_ok [OF _ assms(2-4)] window_measure [of "td_window d1"] by (auto simp: assemble_def d1 Let_def)
qed

lemma tryDispatch_ok:
  assumes inv: "td_inv d" and vs: "vs \<noteq> []" and copy: "qb_copyDataOnInsert (td_buffer d)"
    and off: "\<not> LINEAGE_ON conf" and q: "queue_live ops" "queue_ok ops log"
  shows "\<exists>d'. tryDispatch conf ops (Some vs) (int (length vs)) lat graph d =
    Inr (qb_endP (td_buffer d) + int (length vs) \<le> qb_startP (td_buffer d) + qb_capacity (td_buffer d), d')"
proof -
  let ?k = "td_accumulated d div td_batchSize d"
  have at: "td_at d ?k" and acc: "qb_endP (td_buffer d) = td_accumulated d" and b: "qb_inv (td_buffer d)"
    using inv by (auto simp: td_inv_def td_at_def)
  have n: "0 < int (length vs)" using vs by simp
  obtain idx b1 f where put: "put conf (Some vs) (int (length vs)) lat graph (td_graphs d) (td_buffer d) = Inr (idx, b1, f)"
    using put_room(2) [OF b n _ _ copy, of vs conf] put_full [OF b n, of conf vs lat graph "td_graphs d"] off by fastforce
  note p = put_pointers [OF b n put]
  show ?thesis
  proof (cases "idx < 0")
    case True
    then show ?thesis using p by (auto simp: tryDispatch_def td_put_def put)
  next
    case False
    let ?d = "d\<lparr>td_buffer := b1, td_graphs := f\<rparr>"
    have "td_at (?d\<lparr>td_accumulated := td_accumulated ?d + int (length vs)\<rparr>) ?k"
      using p False acc by (intro td_at_buffer [OF at]) auto
    from assemble_ok [OF this off q, of idx] show ?thesis
      using False p by (auto simp: tryDispatch_def td_put_def put)
  qed
qed

section \<open>Waiting for room\<close>

definition queue_accepts :: "'q queue_ops \<Rightarrow> bool" where
  "queue_accepts ops \<longleftrightarrow> (\<forall>t q. fst (try_enqueue ops t q))"

lemma queue_accepts_live: "queue_accepts ops \<Longrightarrow> queue_live ops"
  unfolding queue_live_def queue_accepts_def
  by (subst enqueue_spin.simps) (simp add: case_prod_beta)

text \<open>
  What the other threads may do to the buffer between two attempts: they free bytes, at least one
  when there is one.
\<close>

definition consumers :: "(nat \<Rightarrow> bool \<times> (QueryBuffer \<Rightarrow> QueryBuffer) \<times> ('q \<Rightarrow> 'q)) \<Rightarrow> bool" where
  "consumers others \<longleftrightarrow> (\<forall>n b. qb_inv b \<longrightarrow> (let b' = fst (snd (others n)) b in
     qb_inv b' \<and> qb_endP b' = qb_endP b \<and> qb_capacity b' = qb_capacity b \<and> qb_mask b' = qb_mask b
     \<and> qb_copyDataOnInsert b' = qb_copyDataOnInsert b \<and> (qb_startP b < qb_endP b \<longrightarrow> qb_startP b < qb_startP b')))"

text \<open>Merge and checkpoint tasks leave the assembly state and the buffer alone.\<close>

definition td_side :: "'q TaskDispatcher \<Rightarrow> 'q TaskDispatcher \<Rightarrow> bool" where
  "td_side d d' \<longleftrightarrow> d' = d\<lparr>td_batches := td_batches d', td_tasks := td_tasks d',
     td_workerQueue := td_workerQueue d', td_checkpointCounter := td_checkpointCounter d'\<rparr>"

lemma td_side_trans: "td_side a b \<Longrightarrow> td_side b c \<Longrightarrow> td_side a c"
proof -
  assume "td_side a b" "td_side b c"
  then obtain w t q x w' t' q' x' where
    "b = a\<lparr>td_batches := w, td_tasks := t, td_workerQueue := q, td_checkpointCounter := x\<rparr>"
    "c = b\<lparr>td_batches := w', td_tasks := t', td_workerQueue := q', td_checkpointCounter := x'\<rparr>"
    unfolding td_side_def by blast
  then show ?thesis by (simp add: td_side_def)
qed

lemma createMergeTask_ok:
  assumes "queue_accepts ops"
  shows "\<exists>d'. createMergeTask conf ops d = Inr d' \<and> td_side d d'"
proof -
  obtain wb batches where wb: "wf_newInstance conf 0 0 (-1) (-1) (Some (td_queryId d)) None (Some (td_window d))
      (Some (td_schemaTupleSize d)) (-1) (-1) (-1) (td_batches d) = (wb, batches)" by (rule prod.exhaust)
  have "wb_query (setTaskType MERGE_FORWARD wb) = Some (td_queryId d)"
    using wf_newInstance_sel(5) [OF wb] by (simp add: setTaskType_def)
  then obtain t tasks where t: "tf_newInstance 0 (Some (setTaskType MERGE_FORWARD wb)) None MERGE_FORWARD (td_tasks d) = Inr (t, tasks)"
    using tf_newInstance_ok by blast
  obtain q where "try_enqueue ops (Some t) (td_workerQueue d) = (True, q)"
    using assms unfolding queue_accepts_def by (metis prod.collapse)
  then have "mergeSpin ops (td_taskQueueCapacity d) (setTaskType MERGE_FORWARD wb) (Some t) batches tasks (td_workerQueue d)
      = Some (Inr (batches, tasks, q))"
    by (subst mergeSpin.simps) simp
  then show ?thesis by (simp add: createMergeTask_def wb t Let_def td_side_def)
qed

lemma createCheckpointTask_ok:
  assumes "queue_accepts ops"
  shows "\<exists>d'. createCheckpointTask conf ops d = Inr d' \<and> td_side d d'"
proof -
  obtain wb batches where wb: "wf_newInstance conf 0 0 (-1) (-1) (Some (td_queryId d)) None (Some (td_window d))
      (Some (td_schemaTupleSize d)) (-1) (-1) (-1) (td_batches d) = (wb, batches)" by (rule prod.exhaust)
  have "wb_query (setTaskType CHECKPOINT wb) = Some (td_queryId d)"
    using wf_newInstance_sel(5) [OF wb] by (simp add: setTaskType_def)
  then obtain t tasks where t: "tf_newInstance 0 (Some (setTaskType CHECKPOINT wb)) None CHECKPOINT (td_tasks d) = Inr (t, tasks)"
    using tf_newInstance_ok by blast
  obtain q where "try_enqueue ops (Some t) (td_workerQueue d) = (True, q)"
    using assms unfolding queue_accepts_def by (metis prod.collapse)
  then show ?thesis by (simp add: createCheckpointTask_def wb t Let_def td_side_def)
qed

lemma tryCreateNonProcessingTasks_ok:
  assumes "queue_accepts ops"
  shows "\<exists>d'. tryCreateNonProcessingTasks conf ops hasWork d = Inr d' \<and> td_side d d'"
proof (cases "size_approx ops (td_workerQueue d) \<ge> td_taskQueueCapacity d")
  case True
  then show ?thesis by (simp add: tryCreateNonProcessingTasks_def td_side_def)
next
  case False
  let ?m = "to_int32 (size_approx ops (td_workerQueue d)) < WORKER_THREADS conf \<and>
    ((CREATE_MERGE_WITH_CHECKPOINTS conf \<and> td_createMergeTasks d) \<or> \<not> CREATE_MERGE_WITH_CHECKPOINTS conf)"
  have "td_side d d" by (simp add: td_side_def)
  then have "\<exists>d1. (if m then createMergeTask conf ops d else Inr d) = Inr d1 \<and> td_side d d1" for m
    using createMergeTask_ok [OF assms, of conf d] by (cases m) auto
  then obtain d1 where m: "(if ?m then createMergeTask conf ops d else Inr d) = Inr d1" "td_side d d1" by blast
  obtain d2 where "createCheckpointTask conf ops d1 = Inr d2" "td_side d1 d2"
    using createCheckpointTask_ok [OF assms] by blast
  then have "\<exists>d'. (if td_triggerCheckpoints d1 \<and> td_hasCoordinator d1 \<and> hasWork
      \<and> td_checkpointCounter d1 < WORKER_THREADS conf then createCheckpointTask conf ops d1 else Inr d1) = Inr d' \<and> td_side d d'"
    using m(2) td_side_trans by auto
  moreover have "tryCreateNonProcessingTasks conf ops hasWork d = (if td_triggerCheckpoints d1 \<and> td_hasCoordinator d1 \<and> hasWork
      \<and> td_checkpointCounter d1 < WORKER_THREADS conf then createCheckpointTask conf ops d1 else Inr d1)"
    using False m(1) by (simp add: tryCreateNonProcessingTasks_def)
  ultimately show ?thesis by simp
qed

text \<open>The insertion of a waiting \<open>dispatch\<close>, on a well-formed dispatcher.\<close>

lemma td_put_result:
  assumes inv: "td_inv d" and vs: "vs \<noteq> []" and copy: "qb_copyDataOnInsert (td_buffer d)" and off: "\<not> LINEAGE_ON conf"
  obtains idx b f where "td_put conf (Some vs) (int (length vs)) lat graph d = Inr (idx, d\<lparr>td_buffer := b, td_graphs := f\<rparr>)"
    and "0 \<le> idx \<longleftrightarrow> qb_endP (td_buffer d) + int (length vs) \<le> qb_startP (td_buffer d) + qb_capacity (td_buffer d)"
    and "qb_inv b" "qb_startP b = qb_startP (td_buffer d)" "qb_capacity b = qb_capacity (td_buffer d)"
      "qb_mask b = qb_mask (td_buffer d)" "qb_copyDataOnInsert b"
    and "idx < 0 \<Longrightarrow> qb_endP b = qb_endP (td_buffer d)"
    and "0 \<le> idx \<Longrightarrow> td_at (d\<lparr>td_buffer := b, td_graphs := f, td_accumulated := td_accumulated d + int (length vs)\<rparr>)
      (td_accumulated d div td_batchSize d)"
proof -
  let ?k = "td_accumulated d div td_batchSize d"
  have at: "td_at d ?k" and acc: "qb_endP (td_buffer d) = td_accumulated d" and b: "qb_inv (td_buffer d)"
    using inv by (auto simp: td_inv_def td_at_def)
  have n: "0 < int (length vs)" using vs by simp
  obtain idx b1 f where put: "put conf (Some vs) (int (length vs)) lat graph (td_graphs d) (td_buffer d) = Inr (idx, b1, f)"
    using put_room(2) [OF b n _ _ copy, of vs conf] put_full [OF b n, of conf vs lat graph "td_graphs d"] off by fastforce
  note p = put_pointers [OF b n put]
  have "td_at (d\<lparr>td_buffer := b1, td_graphs := f, td_accumulated := td_accumulated d + int (length vs)\<rparr>) ?k" if "0 \<le> idx"
    using p that acc by (intro td_at_buffer [OF at]) auto
  then show ?thesis using p put copy by (intro that [of idx f b1]) (auto simp: td_put_def)
qed

lemma dispatch_spin_returns:
  assumes "td_inv d" and vs: "vs \<noteq> []" and "int (length vs) \<le> qb_capacity (td_buffer d)"
    and "qb_copyDataOnInsert (td_buffer d)" and off: "\<not> LINEAGE_ON conf"
    and q: "queue_accepts ops" "queue_ok ops log" and others: "consumers others"
  shows "\<exists>d'. dispatch_spin conf ops others (td_put conf (Some vs) (int (length vs)) lat None) (int (length vs)) n d = Some (Inr d')
    \<and> td_inv d' \<and> td_accumulated d' = td_accumulated d + int (length vs)"
  using assms(1,3,4)
proof (induction "nat (qb_endP (td_buffer d) - qb_startP (td_buffer d))" arbitrary: d n rule: less_induct)
  case less
  obtain idx b f where put: "td_put conf (Some vs) (int (length vs)) lat None d = Inr (idx, d\<lparr>td_buffer := b, td_graphs := f\<rparr>)"
    and room: "0 \<le> idx \<longleftrightarrow> qb_endP (td_buffer d) + int (length vs) \<le> qb_startP (td_buffer d) + qb_capacity (td_buffer d)"
    and b: "qb_inv b" "qb_startP b = qb_startP (td_buffer d)" "qb_capacity b = qb_capacity (td_buffer d)"
      "qb_mask b = qb_mask (td_buffer d)" "qb_copyDataOnInsert b" "idx < 0 \<Longrightarrow> qb_endP b = qb_endP (td_buffer d)"
    and at: "0 \<le> idx \<Longrightarrow> td_at (d\<lparr>td_buffer := b, td_graphs := f, td_accumulated := td_accumulated d + int (length vs)\<rparr>)
      (td_accumulated d div td_batchSize d)"
    using td_put_result [OF less.prems(1) vs less.prems(3) off] by blast
  let ?d = "d\<lparr>td_buffer := b, td_graphs := f\<rparr>"
  have inv: "qb_inv (td_buffer d)" "0 < td_batchSize d" using less.prems(1) by (auto simp: td_inv_def td_at_def)
  show ?case
  proof (cases "0 \<le> idx")
    case True
    obtain d' where d': "assemble conf ops idx (int (length vs)) ?d = Inr d'"
      using assemble_ok [of ?d "int (length vs)", OF _ off queue_accepts_live [OF q(1)] q(2)] at [OF True] by auto
    moreover have "td_accumulated d div td_batchSize d * td_batchSize d \<le> td_accumulated d"
      using inv(2) zdiv_ge_iff [of "td_batchSize d" "td_accumulated d div td_batchSize d" "td_accumulated d"] by simp
    then have "td_inv d' \<and> td_accumulated d' = td_accumulated d + int (length vs)"
      using assemble_tasks [OF d' _ q(2)] at [OF True] by fastforce
    ultimately show ?thesis using True put by (subst dispatch_spin.simps) simp
  next
    case False
    obtain hw ob oq where o: "others n = (hw, ob, oq)" by (cases "others n")
    obtain d1 where d1: "tryCreateNonProcessingTasks conf ops hw ?d = Inr d1" "td_side ?d d1"
      using tryCreateNonProcessingTasks_ok [OF q(1)] by blast
    let ?d2 = "d1\<lparr>td_buffer := ob (td_buffer d1), td_workerQueue := oq (td_workerQueue d1)\<rparr>"
    obtain w t qq c where e: "d1 = ?d\<lparr>td_batches := w, td_tasks := t, td_workerQueue := qq, td_checkpointCounter := c\<rparr>"
      using d1(2) unfolding td_side_def by blast
    have ob: "qb_inv (ob b)" "qb_endP (ob b) = qb_endP (td_buffer d)" "qb_capacity (ob b) = qb_capacity (td_buffer d)"
        "qb_mask (ob b) = qb_mask (td_buffer d)" "qb_copyDataOnInsert (ob b)"
        "qb_startP (td_buffer d) < qb_endP (td_buffer d) \<longrightarrow> qb_startP (td_buffer d) < qb_startP (ob b)"
      using others b False o unfolding consumers_def Let_def by (metis fst_conv snd_conv not_le)+
    have "qb_startP (td_buffer d) < qb_endP (td_buffer d)"
      using False room less.prems(2) inv(1) by (auto simp: qb_inv_def)
    then have less': "nat (qb_endP (td_buffer ?d2) - qb_startP (td_buffer ?d2)) < nat (qb_endP (td_buffer d) - qb_startP (td_buffer d))"
      using ob by (simp add: e)
    have "td_at ?d2 k" if "td_at d k" for k
      using that ob by (simp add: td_at_def e)
    then have "td_inv ?d2" using less.prems(1) by (simp add: td_inv_def e)
    then obtain d' where "dispatch_spin conf ops others (td_put conf (Some vs) (int (length vs)) lat None) (int (length vs)) (Suc n) ?d2
        = Some (Inr d')" "td_inv d'" "td_accumulated d' = td_accumulated d + int (length vs)"
      using less.hyps [OF less'] less.prems(2) ob by (auto simp: e)
    then show ?thesis using False put o d1(1) by (subst dispatch_spin.simps) simp
  qed
qed

section \<open>An example dispatcher\<close>

text \<open>A queue that is a list, and a dispatcher of batches of four bytes over a buffer of eight.\<close>

definition listQueue :: "Task option list queue_ops" where
  "listQueue = \<lparr>try_enqueue = (\<lambda>t q. (True, q @ [t])), size_approx = (\<lambda>q. int (length q))\<rparr>"

lemma listQueue_laws: "queue_ok listQueue (\<lambda>q. q)" "queue_accepts listQueue" "queue_live listQueue"
  by (simp_all add: queue_ok_def queue_accepts_def listQueue_def queue_accepts_live)

definition demoRing :: QueryBuffer where
  "demoRing = demoBuffer\<lparr>qb_startP := 0, qb_endP := 0, qb_temp := 0, qb_capacity := 8, qb_mask := 7,
     qb_buffer := replicate 8 0, qb_copyDataOnInsert := True, qb_tupleSize := 1\<rparr>"

lemma demoRing_sel [simp]:
  "qb_inv demoRing" "qb_endP demoRing = 0" "qb_startP demoRing = 0" "qb_capacity demoRing = 8"
  "qb_copyDataOnInsert demoRing"
  by (auto simp: demoRing_def qb_inv_def is_pow2_def intro: exI [of _ 3])

abbreviation newDemoDispatcher :: "Task option list TaskDispatcher res" where
  "newDemoDispatcher \<equiv> newTaskDispatcher defaultConf 0 16 [] (Some (4, 4)) (demoWindow ROW_BASED) 1 demoRing False False
     \<lparr>wf_count = 0, wf_pool = []\<rparr> \<lparr>tf_count = 0, tf_pool = []\<rparr> emptyFactory (newUnboundedFactory defaultConf)"

definition demoDispatcher :: "Task option list TaskDispatcher" where
  "demoDispatcher = projr newDemoDispatcher"

lemma demoDispatcher_new: "newDemoDispatcher = Inr demoDispatcher"
  by (simp add: demoDispatcher_def newTaskDispatcher_def)

lemma demoDispatcher_sel [simp]: "td_batchSize demoDispatcher = 4" "td_buffer demoDispatcher = demoRing"
  "td_accumulated demoDispatcher = 0"
  by (simp_all add: demoDispatcher_def newTaskDispatcher_def)

lemma defaultConf_off [simp]: "\<not> LATENCY_ON defaultConf" "\<not> LINEAGE_ON defaultConf"
  by (simp_all add: defaultConf_def)

lemma demoDispatcher_inv: "td_inv demoDispatcher"
  using newTaskDispatcher_cut [where log = "\<lambda>q. q", OF demoDispatcher_new] by (simp add: cut_def)

lemma demo_run:
  obtains d where "(dispatch_step defaultConf listQueue)\<^sup>*\<^sup>* (demoDispatcher, []) (d, [1, 2, 3, 4, 5, 6])"
    and "qb_startP (td_buffer d) = 0" and "td_inv d"
proof -
  let ?vs = "[1, 2, 3, 4, 5, 6 :: byte]"
  obtain d where d: "tryDispatch defaultConf listQueue (Some ?vs) (int (length ?vs)) 0 None demoDispatcher = Inr (True, d)"
    using tryDispatch_ok [OF demoDispatcher_inv, of ?vs defaultConf listQueue "\<lambda>q. q" 0 None] listQueue_laws by auto
  have "dispatch_step defaultConf listQueue (demoDispatcher, []) (d, if True then [] @ ?vs else [])"
    by (rule dispatch_step.dispatches [OF _ d]) simp
  moreover have "qb_startP (td_buffer d) = 0" "td_inv d"
    using tryDispatch_tasks [OF d demoDispatcher_inv _ listQueue_laws(1)] by auto
  ultimately show ?thesis using that by auto
qed

section \<open>Properties\<close>

text \<open>
  C1. Every run of a dispatcher and of the consumers that free its buffer cuts the accepted bytes
  into consecutive batches: the tasks in the queue are exactly the complete batches of the history,
  in order and without gap or overlap, numbered from 1 (starting again at 1 before \<open>INT_MAX\<close>), the
  \<open>k\<close>-th with the stream positions of its batch, their indices in the buffer, and the free pointer
  of its second to last tuple. This holds with and without replay, lineage and latency marks.
\<close>

theorem dispatch_cuts_stream:
  assumes "newTaskDispatcher conf qid qcap queue config w ts b replay trig wp tp lp up = Inr d0"
    and "qb_inv b" and "qb_endP b = 0" and "0 < ts" and "ts < td_batchSize d0"
    and "td_batchSize d0 dvd qb_capacity b" and "8 \<le> qb_capacity b" and "qb_capacity b \<le> 2 ^ 30"
    and "queue_ok ops log" and "log queue = []"
    and "(dispatch_step conf ops)\<^sup>*\<^sup>* (d0, []) (d, h)"
  shows "list_all2 (batch_task (td_batchSize d0) (qb_capacity b) ts)
    [0..int (length h) div td_batchSize d0 - 1] (log (td_workerQueue d))"
proof -
  have "cut log (td_batchSize d0) (qb_capacity b) ts (d0, [])"
    using newTaskDispatcher_cut [where log = log, OF assms(1-8)] assms(10) by simp
  from cut_run [OF assms(11,9) this] show ?thesis by (simp add: cut_def)
qed

theorem dispatch_cuts_stream_witness:
  "\<exists>d. (dispatch_step defaultConf listQueue)\<^sup>*\<^sup>* (demoDispatcher, []) (d, [1, 2, 3, 4, 5, 6])
     \<and> list_all2 (batch_task 4 8 1) [0] (td_workerQueue d)"
proof -
  obtain d where d: "(dispatch_step defaultConf listQueue)\<^sup>*\<^sup>* (demoDispatcher, []) (d, [1, 2, 3, 4, 5, 6])"
    by (rule demo_run)
  show ?thesis
    using dispatch_cuts_stream [OF demoDispatcher_new _ _ _ _ _ _ _ listQueue_laws(1) _ d] d by (auto simp: upto.simps)
qed





text \<open>
  C11. A dispatch of at most the capacity that has to wait ends, for a buffer that copies its input and
  without lineage: when the consumers free at least one byte in every round of
  the waiting loop and the queue accepts tasks, it returns with all its bytes accepted, whatever
  part of the buffer was occupied.
\<close>

theorem dispatch_returns:
  assumes "td_inv d" and "vs \<noteq> []" and "int (length vs) \<le> qb_capacity (td_buffer d)"
    and "qb_copyDataOnInsert (td_buffer d)" and "\<not> LINEAGE_ON conf"
    and "queue_accepts ops" and "queue_ok ops log" and "consumers others"
  shows "\<exists>d'. dispatch conf ops others (Some vs) (int (length vs)) lat d = Some (Inr d')
    \<and> td_inv d' \<and> td_accumulated d' = td_accumulated d + int (length vs)"
  using dispatch_spin_returns [OF assms] unfolding dispatch_def .

text \<open>Consumers that release everything at once.\<close>

definition drain :: "QueryBuffer \<Rightarrow> QueryBuffer" where
  "drain b = b\<lparr>qb_startP := qb_endP b\<rparr>"

theorem dispatch_returns_witness:
  "\<exists>d'. dispatch defaultConf listQueue (\<lambda>n. (False, drain, \<lambda>q. q)) (Some [7, 8]) 2 0 demoDispatcher = Some (Inr d')
     \<and> td_inv d' \<and> td_accumulated d' = 2"
  using dispatch_returns [OF demoDispatcher_inv, of "[7, 8]" defaultConf listQueue "\<lambda>q. q" "\<lambda>n. (False, drain, \<lambda>q. q)" 0]
    listQueue_laws by (auto simp: consumers_def drain_def qb_inv_def is_pow2_pos Let_def less_imp_le)

text \<open>The free pointers of the batches from the \<open>i\<close>-th to the one before the \<open>j\<close>-th, as stream positions.\<close>

definition freePositions :: "int \<Rightarrow> int \<Rightarrow> int \<Rightarrow> int \<Rightarrow> int list" where
  "freePositions B ts i j = map (\<lambda>k. (k + 1) * B - 1 - ts) [i..j - 1]"

lemma freePositions_spaced:
  assumes "0 < B" and "1 < B" and "s < (i + 1) * B - 1 - ts"
  shows "spaced s (freePositions B ts i j)"
    and "i < j \<Longrightarrow> released s (freePositions B ts i j) = j * B - ts"
proof -
  have "spaced s (freePositions B ts i j) \<and> (i < j \<longrightarrow> released s (freePositions B ts i j) = j * B - ts)"
    using assms(3)
  proof (induction "nat (j - i)" arbitrary: i s)
    case (Suc n)
    then have ij: "[i..j - 1] = i # [i + 1..j - 1]" by (simp add: upto_rec1)
    have "(i + 1) * B - 1 - ts + 1 < (i + 1 + 1) * B - 1 - ts" using assms(2) by (simp add: algebra_simps)
    with Suc.hyps(1) [of "i + 1" "(i + 1) * B - 1 - ts + 1"] Suc.hyps(2) Suc.prems ij
    show ?case by (cases "i + 1 < j") (auto simp: freePositions_def)
  qed (simp add: freePositions_def)
  then show "spaced s (freePositions B ts i j)" "i < j \<Longrightarrow> released s (freePositions B ts i j) = j * B - ts"
    by auto
qed

text \<open>
  Freeing the tasks of the dispatcher in their order with the free pointers they carry
  releases the stream batch by batch: after the first \<open>j\<close> tasks the buffer holds exactly the bytes
  from the last tuple of the \<open>j\<close>-th batch on. That tuple is kept back, so the timestamps of the
  preceding batch can still be read.
\<close>

theorem free_tasks_in_order:
  assumes "list_all2 (batch_task B (qb_capacity b) ts) [0..j - 1] tasks" and "0 < j"
    and "qb_inv b" and "qb_copyDataOnInsert b" and "qb_startP b = 0" and "j * B \<le> qb_endP b"
    and "0 < ts" and "ts + 1 < B"
  shows "\<exists>b'. rfold (\<lambda>t. freeOffset (wb_freePointer1 (the (tk_leftBatch (the t))))) tasks b = Inr b'
    \<and> qb_inv b' \<and> qb_startP b' = j * B - ts \<and> qb_endP b' = qb_endP b
    \<and> contents b' = drop (nat (j * B - ts)) (contents b)"
proof -
  let ?c = "qb_capacity b" and ?ps = "freePositions B ts 0 j"
  have fp: "wb_freePointer1 (the (tk_leftBatch (the t))) = ((k + 1) * B - 1 - ts) mod ?c" if "batch_task B ?c ts k t" for k t
    using that by (auto simp: batch_task_def)
  have "rfold (\<lambda>t. freeOffset (wb_freePointer1 (the (tk_leftBatch (the t))))) tasks b
      = rfold (\<lambda>t. freeOffset (t mod ?c)) (map (\<lambda>k. (k + 1) * B - 1 - ts) ks) b"
    if "list_all2 (batch_task B ?c ts) ks tasks" for ks b
    using that
  proof (induction ks tasks arbitrary: b rule: list_all2_induct)
    case (Cons k ks t tasks)
    show ?case
      by (cases "freeOffset (((k + 1) * B - 1 - ts) mod ?c) b") (simp_all add: fp [OF Cons(1)] Cons.IH)
  qed simp
  then have eq: "rfold (\<lambda>t. freeOffset (wb_freePointer1 (the (tk_leftBatch (the t))))) tasks b
      = rfold (\<lambda>t. freeOffset (t mod ?c)) ?ps b"
    using assms(1) by (simp add: freePositions_def)
  have sp: "spaced (qb_startP b) ?ps" "released (qb_startP b) ?ps = j * B - ts"
    using freePositions_spaced [of B 0 0 ts j] assms(2,5,7,8) by auto
  have "t < qb_endP b" if "t \<in> set ?ps" for t
  proof -
    have "\<exists>k<j. t = (k + 1) * B - 1 - ts" using \<open>t \<in> set ?ps\<close> by (auto simp: freePositions_def)
    then obtain k where k: "t = (k + 1) * B - 1 - ts" "k + 1 \<le> j" by fastforce
    have "(k + 1) * B \<le> j * B" using k(2) assms(7,8) by (intro mult_right_mono) auto
    then show ?thesis using k(1) assms(6,7) by linarith
  qed
  then show ?thesis
    using cb.free_sequence [of b ?ps ?c] sp assms(3,4,5) unfolding eq by (auto simp: qb_copying_def)
qed

text \<open>Eight bytes in the ring, as one batch of four and half of the next.\<close>

definition fullRing :: QueryBuffer where
  "fullRing = demoRing\<lparr>qb_endP := 8, qb_buffer := [1, 2, 3, 4, 5, 6, 7, 8]\<rparr>"

definition demoTask :: "int \<Rightarrow> Task option" where
  "demoTask k = Some (emptyTask\<lparr>tk_taskId := k + 1, tk_type := Some PROCESS,
     tk_leftBatch := Some ((newWindowBatch defaultConf 4 (k + 1) (4 * k + 2) (-1) None None None None 0 (-1) (-1))
       \<lparr>wb_streamStartPointer := 4 * k, wb_streamEndPointer := 4 * k + 4, wb_startPointer := 4 * k, wb_endPointer := 4 * k + 4\<rparr>)\<rparr>)"

theorem free_tasks_in_order_witness:
  "\<exists>b'. rfold (\<lambda>t. freeOffset (wb_freePointer1 (the (tk_leftBatch (the t))))) [demoTask 0, demoTask 1] fullRing = Inr b'
     \<and> qb_startP b' = 7 \<and> contents b' = [8]"
proof -
  have "list_all2 (batch_task 4 (qb_capacity fullRing) 1) [0..2 - 1] [demoTask 0, demoTask 1]"
    by (simp add: upto.simps batch_task_def demoTask_def fullRing_def emptyTask_def newWindowBatch_def taskNo_def INT_MAX_def)
  moreover have "qb_inv fullRing" "contents fullRing = [1, 2, 3, 4, 5, 6, 7, 8]"
    using demoRing_sel(1) by (auto simp: fullRing_def qb_inv_def contents_def cell_def [abs_def] upto.simps)
  ultimately show ?thesis
    using free_tasks_in_order [of 4 fullRing 1 2 "[demoTask 0, demoTask 1]"] by (auto simp: fullRing_def)
qed

text \<open>
  C16. The loop that enqueues a merge task hands out a null pointer: when the queue refuses the
  task while it is three quarters full and accepts the next attempt, the batch and the task have
  already gone back to their pools and what is enqueued is the cleared pointer.
\<close>

theorem merge_task_null:
  assumes "try_enqueue ops (Some t) q = (False, q1)" and "3 * capacity \<le> 4 * size_approx ops q1"
    and "try_enqueue ops None q1 = (True, q2)" and "wb_graph wb = None" and "tk_graph t = None"
  shows "mergeSpin ops capacity wb (Some t) batches tasks q =
    Some (Inr (batches\<lparr>wf_pool := wf_pool batches @ [(wb_clear wb, 1)]\<rparr>, tasks\<lparr>tf_pool := tf_pool tasks @ [t]\<rparr>, q2))"
  using assms by (subst mergeSpin.simps, subst mergeSpin.simps) (simp add: wf_free_def tf_free_def)

text \<open>A queue that refuses its first task.\<close>

definition shyQueue :: "(bool \<times> Task option list) queue_ops" where
  "shyQueue = \<lparr>try_enqueue = (\<lambda>t (open, q). if open then (True, open, q @ [t]) else (False, True, q)),
     size_approx = (\<lambda>(_, q). int (length q))\<rparr>"

theorem merge_task_null_witness:
  "mergeSpin shyQueue 1 (newWindowBatch defaultConf 0 0 0 0 None None None None 0 0 0) (Some emptyTask)
     \<lparr>wf_count = 0, wf_pool = []\<rparr> \<lparr>tf_count = 0, tf_pool = []\<rparr> (False, [None]) =
   Some (Inr (\<lparr>wf_count = 0, wf_pool = [(wb_clear (newWindowBatch defaultConf 0 0 0 0 None None None None 0 0 0), 1)]\<rparr>,
     \<lparr>tf_count = 0, tf_pool = [emptyTask]\<rparr>, (True, [None, None])))"
  using merge_task_null [of shyQueue emptyTask "(False, [None])" "(True, [None])" 1 "(True, [None, None])"]
  by (simp add: shyQueue_def newWindowBatch_def emptyTask_def)

end
