(* ===== verification/QueryOps.thy ===== *)
theory QueryOps
  imports Prelude
begin

text \<open>
  The progress vector of a query operator (\<open>utils/QueryOperator.h\<close>): the offsets of its two inputs
  and of its output, and the ring of offsets of the tasks of a join, all in persistent memory. The
  persistent root is absent until \<open>setParent\<close> has opened the pool. The variant that logs to a file
  is switched off in the code by a constant and not modelled.
\<close>

section \<open>State and operations\<close>

record offsetTuple =
  ot_1 :: int
  ot_2 :: int
  ot_3 :: int
  ot_4 :: int

record PMem =
  pm_leftP :: int
  pm_rightP :: int
  pm_outputP :: int
  pm_writePos :: int
  pm_offsets :: "offsetTuple list option"

record QueryOperator =
  op_root :: "PMem option"
  op_downstream :: "nat option"
  op_upstream :: "nat option"

definition newPMem :: PMem where
  "newPMem = \<lparr>pm_leftP = 0, pm_rightP = 0, pm_outputP = 0, pm_writePos = 0, pm_offsets = None\<rparr>"

definition op_isMostUpstream :: "QueryOperator \<Rightarrow> bool" where
  "op_isMostUpstream op \<longleftrightarrow> op_upstream op = None"

definition op_isMostDownstream :: "QueryOperator \<Rightarrow> bool" where
  "op_isMostDownstream op \<longleftrightarrow> op_downstream op = None"

definition updateInputPtr :: "int \<Rightarrow> bool \<Rightarrow> QueryOperator \<Rightarrow> QueryOperator res" where
  "updateInputPtr inputPtr isLeft op =
     (case op_root op of
        None \<Rightarrow> Inl RuntimeError
      | Some r \<Rightarrow> Inr (op\<lparr>op_root := Some (if isLeft then r\<lparr>pm_leftP := inputPtr\<rparr> else r\<lparr>pm_rightP := inputPtr\<rparr>)\<rparr>))"

definition getInputPtr :: "bool \<Rightarrow> QueryOperator \<Rightarrow> int res" where
  "getInputPtr isLeft op =
     (case op_root op of None \<Rightarrow> Inl RuntimeError | Some r \<Rightarrow> Inr (if isLeft then pm_leftP r else pm_rightP r))"

definition updateOutputPtr :: "int \<Rightarrow> QueryOperator \<Rightarrow> QueryOperator res" where
  "updateOutputPtr outputPtr op =
     (case op_root op of
        None \<Rightarrow> Inl RuntimeError
      | Some r \<Rightarrow> if outputPtr < pm_outputP r then Inr op
                   else Inr (op\<lparr>op_root := Some (r\<lparr>pm_outputP := outputPtr\<rparr>)\<rparr>))"

definition getOutputPtr :: "QueryOperator \<Rightarrow> int res" where
  "getOutputPtr op = (case op_root op of None \<Rightarrow> Inl RuntimeError | Some r \<Rightarrow> Inr (pm_outputP r))"

definition writeOffsets :: "int \<Rightarrow> int \<Rightarrow> int \<Rightarrow> QueryOperator \<Rightarrow> QueryOperator res" where
  "writeOffsets tid offset1 offset2 op =
     (case op_root op of
        None \<Rightarrow> Inl Undefined
      | Some r \<Rightarrow>
          (case pm_offsets r of
             None \<Rightarrow> Inl Undefined
           | Some v \<Rightarrow>
               rbind (vset v (pm_writePos r) \<lparr>ot_1 = tid, ot_2 = offset1, ot_3 = offset2, ot_4 = 0\<rparr>) (\<lambda>v.
                 let pos = pm_writePos r + 1 in
                 Inr (op\<lparr>op_root := Some (r\<lparr>pm_offsets := Some v,
                        pm_writePos := (if pos = int (length v) then 0 else pos)\<rparr>)\<rparr>))))"

section \<open>The ring of task offsets\<close>

text \<open>The ring holds the last records: writing \<open>k\<close> records in a row keeps the last ones in order.\<close>

definition op_inv :: "QueryOperator \<Rightarrow> bool" where
  "op_inv op \<longleftrightarrow> (\<exists>r v. op_root op = Some r \<and> pm_offsets r = Some v
     \<and> 0 \<le> pm_writePos r \<and> pm_writePos r < int (length v))"

lemma writeOffsets_total:
  assumes "op_inv op"
  shows "\<exists>op'. writeOffsets tid x y op = Inr op' \<and> op_inv op'"
  using assms by (auto simp: op_inv_def writeOffsets_def vset_def Let_def)

lemma updateOutputPtr_monotone:
  assumes "updateOutputPtr p op = Inr op'" and "getOutputPtr op = Inr x"
  shows "getOutputPtr op' = Inr (max x p)"
  using assms by (auto simp: updateOutputPtr_def getOutputPtr_def max_def split: option.splits if_splits)

end
