(* ===== verification/SerialTasks.thy ===== *)
theory SerialTasks
  imports Prelude
begin

text \<open>
  The list of insertions that wait to be assembled in order (the structs \<open>SerialTask\<close> and
  \<open>CircularTaskList\<close> of \<open>dispatcher/JoinTaskDispatcher.h\<close>): a growing circular array.
\<close>

section \<open>State and operations\<close>

record SerialTask =
  st_id :: nat
  st_idx :: int
  st_length :: int

definition newSerialTask :: SerialTask where
  "newSerialTask = \<lparr>st_id = 0, st_idx = 0, st_length = 0\<rparr>"

record CircularTaskList =
  ct_buffer :: "SerialTask list"
  ct_size :: int
  ct_readIdx :: int
  ct_writeIdx :: int
  ct_elements :: int

definition newCircularTaskList :: "nat \<Rightarrow> CircularTaskList" where
  "newCircularTaskList n = \<lparr>ct_buffer = replicate n newSerialTask, ct_size = int n,
     ct_readIdx = 0, ct_writeIdx = int n - 1, ct_elements = 0\<rparr>"

text \<open>\<open>std::vector::resize\<close> cuts the vector or extends it by copies of the value.\<close>

definition resize :: "nat \<Rightarrow> 'a \<Rightarrow> 'a list \<Rightarrow> 'a list" where
  "resize n x xs = take n xs @ replicate (n - length xs) x"

definition set_capacity :: "nat \<Rightarrow> CircularTaskList \<Rightarrow> CircularTaskList" where
  "set_capacity n l = l\<lparr>ct_buffer := resize n newSerialTask (ct_buffer l), ct_size := int n,
     ct_readIdx := 0, ct_writeIdx := int n - 1\<rparr>"

definition push_back :: "nat \<Rightarrow> int \<Rightarrow> int \<Rightarrow> CircularTaskList \<Rightarrow> CircularTaskList res" where
  "push_back i idx len l =
     (let l = (if ct_elements l = ct_size l
               then l\<lparr>ct_buffer := resize (nat (ct_size l * 2)) newSerialTask (ct_buffer l),
                      ct_size := 2 * ct_size l\<rparr> else l);
          w = ct_writeIdx l + 1;
          w = (if w = int (length (ct_buffer l)) then 0 else w)
      in rbind (vset (ct_buffer l) w \<lparr>st_id = i, st_idx = idx, st_length = len\<rparr>) (\<lambda>buf.
           Inr (l\<lparr>ct_buffer := buf, ct_writeIdx := w, ct_elements := ct_elements l + 1\<rparr>)))"

definition front :: "CircularTaskList \<Rightarrow> SerialTask option res" where
  "front l =
     (if ct_elements l > 0 then rbind (vget (ct_buffer l) (ct_readIdx l)) (\<lambda>t. Inr (Some t)) else Inr None)"

definition pop_front :: "CircularTaskList \<Rightarrow> CircularTaskList" where
  "pop_front l =
     (let r = ct_readIdx l + 1
      in l\<lparr>ct_elements := ct_elements l - 1, ct_readIdx := (if r = int (length (ct_buffer l)) then 0 else r)\<rparr>)"

section \<open>A queue, while it does not grow around the end of the array\<close>

definition ct_inv :: "CircularTaskList \<Rightarrow> bool" where
  "ct_inv l \<longleftrightarrow> 0 < ct_size l \<and> int (length (ct_buffer l)) = ct_size l
     \<and> 0 \<le> ct_readIdx l \<and> ct_readIdx l < ct_size l \<and> 0 \<le> ct_elements l \<and> ct_elements l \<le> ct_size l
     \<and> ct_writeIdx l = (ct_readIdx l + ct_elements l - 1) mod ct_size l"

definition ct_tasks :: "CircularTaskList \<Rightarrow> SerialTask list" where
  "ct_tasks l = map (\<lambda>k. ct_buffer l ! nat ((ct_readIdx l + k) mod ct_size l)) [0..ct_elements l - 1]"

text \<open>The growth keeps the order only when the oldest element stands at the start of the array.\<close>

definition ct_room :: "CircularTaskList \<Rightarrow> bool" where
  "ct_room l \<longleftrightarrow> ct_elements l < ct_size l \<or> ct_readIdx l = 0"

text \<open>The contract of a queue of waiting tasks, and what its clients derive from it.\<close>

locale task_queue =
  fixes inv :: "'l \<Rightarrow> bool" and room :: "'l \<Rightarrow> bool" and tasks :: "'l \<Rightarrow> 't list"
    and push :: "'t \<Rightarrow> 'l \<Rightarrow> 'l res" and first :: "'l \<Rightarrow> 't option res" and drop_first :: "'l \<Rightarrow> 'l"
  assumes push_law: "inv l \<Longrightarrow> room l \<Longrightarrow> \<exists>l'. push t l = Inr l' \<and> inv l' \<and> tasks l' = tasks l @ [t]"
    and first_law: "inv l \<Longrightarrow> first l = Inr (case tasks l of [] \<Rightarrow> None | t # _ \<Rightarrow> Some t)"
    and drop_law: "inv l \<Longrightarrow> tasks l = t # ts \<Longrightarrow> inv (drop_first l) \<and> tasks (drop_first l) = ts"
begin

lemma drop_many:
  assumes "inv l" and "n \<le> length (tasks l)"
  shows "inv ((drop_first ^^ n) l) \<and> tasks ((drop_first ^^ n) l) = drop n (tasks l)"
  using assms(2)
proof (induction n)
  case (Suc n)
  then have IH: "inv ((drop_first ^^ n) l)" "tasks ((drop_first ^^ n) l) = drop n (tasks l)" by auto
  have "drop n (tasks l) = tasks l ! n # drop (Suc n) (tasks l)"
    using Suc.prems by (simp add: Cons_nth_drop_Suc)
  with drop_law [OF IH(1)] IH(2) show ?case by simp
qed (use assms(1) in simp)

lemma push_then_take:
  assumes "inv l" and "room l"
  obtains l' where "push t l = Inr l'" and "inv l'"
    and "first ((drop_first ^^ length (tasks l)) l') = Inr (Some t)"
proof -
  obtain l' where l': "push t l = Inr l'" "inv l'" "tasks l' = tasks l @ [t]"
    using push_law [OF assms] by blast
  let ?m = "(drop_first ^^ length (tasks l)) l'"
  have "inv ?m \<and> tasks ?m = [t]" using drop_many [OF l'(2), of "length (tasks l)"] l'(3) by simp
  then have "first ?m = Inr (Some t)" using first_law [of ?m] by simp
  with l'(1,2) show thesis by (rule that)
qed

end

lemma mod_step:
  fixes a n :: int
  assumes "0 < n"
  shows "(if a mod n + 1 = n then 0 else a mod n + 1) = (a + 1) mod n"
  using assms mod_pos_pos_trivial [of "a mod n + 1" n] pos_mod_bound [of n a] pos_mod_sign [of n a]
    mod_add_left_eq [of a n 1]
  by (cases "a mod n + 1 = n") (simp_all add: less_le)

lemma mod_neq_near:
  fixes r j k n :: int
  assumes "j < k" and "k - j < n"
  shows "(r + j) mod n \<noteq> (r + k) mod n"
proof
  assume "(r + j) mod n = (r + k) mod n"
  then have "n dvd (r + k) - (r + j)" by (metis mod_eq_dvd_iff)
  then have "n \<le> k - j" using assms(1) by (intro zdvd_imp_le) (simp_all add: algebra_simps)
  with assms(2) show False by simp
qed

lemma map_shift_upto: "map (\<lambda>j. j + 1) [i..k] = [i + 1..k + 1]" for i k :: int
  by (rule nth_equalityI) auto

definition pushTask :: "SerialTask \<Rightarrow> CircularTaskList \<Rightarrow> CircularTaskList res" where
  "pushTask t = push_back (st_id t) (st_idx t) (st_length t)"

lemma serialTask_eta: "\<lparr>st_id = st_id t, st_idx = st_idx t, st_length = st_length t\<rparr> = t"
  by simp

lemma push_free:
  assumes "ct_inv l" and "ct_elements l < ct_size l"
  shows "\<exists>l'. pushTask t l = Inr l' \<and> ct_inv l' \<and> ct_tasks l' = ct_tasks l @ [t]"
proof -
  let ?n = "ct_size l" and ?r = "ct_readIdx l" and ?k = "ct_elements l"
  let ?w = "(?r + ?k) mod ?n"
  let ?l = "l\<lparr>ct_buffer := (ct_buffer l)[nat ?w := t], ct_writeIdx := ?w, ct_elements := ?k + 1\<rparr>"
  note inv = assms(1) [unfolded ct_inv_def]
  have w: "0 \<le> ?w" "?w < ?n" using inv by auto
  have "(if ct_writeIdx l + 1 = ?n then 0 else ct_writeIdx l + 1) = ?w"
    using mod_step [of ?n "?r + ?k - 1"] inv by (simp split: if_splits)
  then have "pushTask t l = Inr ?l"
    using assms(2) inv w by (simp add: pushTask_def push_back_def vset_def Let_def serialTask_eta cong: if_cong)
  moreover have "ct_inv ?l" using inv assms(2) by (simp add: ct_inv_def)
  moreover have "ct_tasks ?l = ct_tasks l @ [t]"
  proof -
    have "nat ((?r + j) mod ?n) \<noteq> nat ?w" if "0 \<le> j" "j < ?k" for j
      using mod_neq_near [of j ?k ?n ?r] that assms(2) inv pos_mod_sign [of ?n "?r + j"] w(1) by (simp add: nat_eq_iff)
    then have "ct_buffer ?l ! nat ((?r + j) mod ?n) = ct_buffer l ! nat ((?r + j) mod ?n)" if "j \<in> {0..?k - 1}" for j
      using that by (simp add: nth_list_update_neq eq_commute [of "nat ?w"])
    moreover have "nat ?w < length (ct_buffer l)" using w inv by linarith
    ultimately show ?thesis using inv upto_rec2 [of 0 ?k] by (simp add: ct_tasks_def)
  qed
  ultimately show ?thesis by blast
qed

lemma push_grow:
  assumes "ct_inv l" and "ct_elements l = ct_size l" and "ct_readIdx l = 0"
  shows "\<exists>l'. pushTask t l = Inr l' \<and> ct_inv l' \<and> ct_tasks l' = ct_tasks l @ [t]"
proof -
  let ?n = "ct_size l"
  let ?b = "ct_buffer l @ replicate (nat ?n) newSerialTask"
  let ?l = "l\<lparr>ct_buffer := ?b[nat ?n := t], ct_size := 2 * ?n, ct_writeIdx := ?n, ct_elements := ?n + 1\<rparr>"
  note inv = assms(1) [unfolded ct_inv_def]
  have len: "length (ct_buffer l) = nat ?n" "0 < ?n" using inv by auto
  have b: "resize (nat (?n * 2)) newSerialTask (ct_buffer l) = ?b"
    using len by (auto simp: resize_def)
  have wr: "ct_writeIdx l = ?n - 1" using inv assms(2,3) by (simp add: zmod_minus1)
  have "pushTask t l = Inr ?l"
    using assms(2) b len wr by (simp add: pushTask_def push_back_def vset_def Let_def serialTask_eta)
  moreover have "ct_inv ?l" using inv assms(2,3) by (simp add: ct_inv_def)
  moreover have "ct_tasks ?l = ct_tasks l @ [t]"
  proof -
    have "map (\<lambda>j. ?b[nat ?n := t] ! nat (j mod (2 * ?n))) [0..?n - 1]
        = map (\<lambda>j. ct_buffer l ! nat (j mod ?n)) [0..?n - 1]"
      using len by (intro map_cong) (auto simp: nth_append nat_eq_iff)
    moreover have "?b[nat ?n := t] ! nat (?n mod (2 * ?n)) = t" using len by simp
    ultimately show ?thesis
      using assms(2,3) len(2) upto_rec2 [of 0 ?n] by (simp add: ct_tasks_def del: map_eq_conv)
  qed
  ultimately show ?thesis by blast
qed

lemma ct_tasks_Cons:
  assumes "ct_inv l" and "0 < ct_elements l"
  shows "ct_tasks l = ct_buffer l ! nat (ct_readIdx l) # ct_tasks (pop_front l) \<and> ct_inv (pop_front l)"
proof -
  let ?n = "ct_size l" and ?r = "ct_readIdx l" and ?k = "ct_elements l"
  note inv = assms(1) [unfolded ct_inv_def]
  have r: "ct_readIdx (pop_front l) = (?r + 1) mod ?n"
    using mod_step [of ?n ?r] inv by (simp add: pop_front_def Let_def split: if_splits)
  have other: "ct_elements (pop_front l) = ?k - 1" "ct_size (pop_front l) = ?n"
      "ct_buffer (pop_front l) = ct_buffer l" "ct_writeIdx (pop_front l) = ct_writeIdx l"
    by (simp_all add: pop_front_def Let_def)
  have "[0..?k - 1] = 0 # map (\<lambda>j. j + 1) [0..?k - 2]"
    using assms(2) upto_rec1 [of 0 "?k - 1"] map_shift_upto [of 0 "?k - 2"] by simp
  then have "ct_tasks l = ct_buffer l ! nat ?r # ct_tasks (pop_front l)"
    using inv by (simp add: ct_tasks_def r other mod_add_left_eq add.assoc add.commute [of 1])
  moreover have "((?r + 1) mod ?n + (?k - 1) - 1) mod ?n = (?r + ?k - 1) mod ?n"
    using mod_add_left_eq [of "?r + 1" ?n "?k - 2"] by (simp add: algebra_simps)
  then have "ct_inv (pop_front l)" using inv assms(2) by (simp add: ct_inv_def r other)
  ultimately show ?thesis by blast
qed

lemma ct_tasks_Nil: "ct_inv l \<Longrightarrow> ct_tasks l = [] \<longleftrightarrow> ct_elements l = 0"
  by (auto simp: ct_tasks_def ct_inv_def)

interpretation ct: task_queue ct_inv ct_room ct_tasks pushTask front pop_front
proof
  fix l and t :: SerialTask
  assume inv: "ct_inv l"
  show "\<exists>l'. pushTask t l = Inr l' \<and> ct_inv l' \<and> ct_tasks l' = ct_tasks l @ [t]" if "ct_room l"
  proof (cases "ct_elements l < ct_size l")
    case True
    with inv show ?thesis by (rule push_free)
  next
    case False
    then show ?thesis using that inv by (intro push_grow) (auto simp: ct_room_def ct_inv_def)
  qed
  show "front l = Inr (case ct_tasks l of [] \<Rightarrow> None | t # _ \<Rightarrow> Some t)"
  proof (cases "0 < ct_elements l")
    case True
    then show ?thesis using ct_tasks_Cons [OF inv] inv by (auto simp: front_def vget_def ct_inv_def)
  next
    case False
    then have "ct_tasks l = []" using inv ct_tasks_Nil [OF inv] by (simp add: ct_inv_def)
    then show ?thesis using False by (simp add: front_def)
  qed
  show "ct_inv (pop_front l) \<and> ct_tasks (pop_front l) = ts" if "ct_tasks l = t # ts" for ts
  proof -
    have "0 < ct_elements l" using that inv ct_tasks_Nil [OF inv] by (auto simp: ct_inv_def)
    from ct_tasks_Cons [OF inv this] that show ?thesis by simp
  qed
qed

lemma newCircularTaskList_inv: "0 < n \<Longrightarrow> ct_inv (newCircularTaskList n) \<and> ct_tasks (newCircularTaskList n) = []"
  by (simp add: ct_inv_def ct_tasks_def newCircularTaskList_def zmod_minus1)

section \<open>Growing around the end of the array\<close>

text \<open>
  When the array is full and its oldest element does not stand at index 0, \<open>push_back\<close> grows the
  array without moving elements, and the new element is written over the oldest one: the oldest
  waiting insertion is lost and the new one is taken in its place.
\<close>

theorem push_back_overwrites_oldest:
  assumes "ct_inv l" and "ct_elements l = ct_size l" and "ct_readIdx l \<noteq> 0"
  shows "\<exists>l'. push_back i idx len l = Inr l' \<and> ct_elements l' = ct_elements l + 1
    \<and> front l' = Inr (Some \<lparr>st_id = i, st_idx = idx, st_length = len\<rparr>)"
proof -
  let ?n = "ct_size l" and ?r = "ct_readIdx l"
  note inv = assms(1) [unfolded ct_inv_def]
  have r: "0 < ?r" "?r < ?n" using inv assms(3) by auto
  have "(?r + ?n - 1) mod ?n = ?r - 1"
    using r mod_add_self2 [of "?r - 1" ?n] by (simp add: algebra_simps)
  then have "ct_writeIdx l + 1 = ?r" using inv assms(2) by simp
  moreover have "length (resize (nat (?n * 2)) newSerialTask (ct_buffer l)) = nat (2 * ?n)"
    using inv by (simp add: resize_def)
  ultimately show ?thesis
    using r assms(2) by (auto simp: push_back_def front_def vset_def vget_def Let_def)
qed

definition wrappedList :: CircularTaskList where
  "wrappedList = \<lparr>ct_buffer = [\<lparr>st_id = 3, st_idx = 16, st_length = 8\<rparr>, \<lparr>st_id = 2, st_idx = 8, st_length = 8\<rparr>],
     ct_size = 2, ct_readIdx = 1, ct_writeIdx = 0, ct_elements = 2\<rparr>"

lemma wrappedList_run:
  "rbind (push_back 1 0 8 (newCircularTaskList 2)) (\<lambda>l. rbind (push_back 2 8 8 l) (\<lambda>l.
     push_back 3 16 8 (pop_front l))) = Inr wrappedList"
  "front wrappedList = Inr (Some \<lparr>st_id = 2, st_idx = 8, st_length = 8\<rparr>)"
  by (simp_all add: wrappedList_def newCircularTaskList_def push_back_def pop_front_def front_def
      vset_def vget_def numeral_2_eq_2)

theorem push_back_overwrites_oldest_witness:
  "rbind (push_back 1 0 8 (newCircularTaskList 2)) (\<lambda>l. rbind (push_back 2 8 8 l) (\<lambda>l.
     push_back 3 16 8 (pop_front l))) = Inr wrappedList
   \<and> front wrappedList = Inr (Some \<lparr>st_id = 2, st_idx = 8, st_length = 8\<rparr>)
   \<and> (\<exists>l'. push_back 4 24 8 wrappedList = Inr l'
        \<and> front l' = Inr (Some \<lparr>st_id = 4, st_idx = 24, st_length = 8\<rparr>))"
proof -
  have "ct_inv wrappedList" "ct_elements wrappedList = ct_size wrappedList" "ct_readIdx wrappedList \<noteq> 0"
    by (simp_all add: ct_inv_def wrappedList_def)
  from push_back_overwrites_oldest [OF this, of 4 24 8] wrappedList_run show ?thesis by blast
qed

end
