(* ===== verification/JoinTaskDispatcher.thy ===== *)
theory JoinTaskDispatcher
  imports TaskDispatcher QueryOps SerialTasks
begin

text \<open>
  The dispatcher of a query with two input streams (\<open>dispatcher/JoinTaskDispatcher.cpp\<close>), for input
  buffers that do not persist their data. Each stream has its circular buffer; when the tuples that
  wait on both sides fill a batch, a task with one batch per stream is created. For each stream,
  \<open>Start\<close> is the oldest tuple of a window that is still open, \<open>Next\<close> the start of the oldest window
  that stays open after the next task, \<open>End\<close> the last tuple, and \<open>LastEnd\<close> the last tuple at the time
  of the previous task. The queue of tasks is an argument as in \<open>TaskDispatcher\<close>; debug output is
  left out.
\<close>

section \<open>State and construction\<close>

record 'q JoinTaskDispatcher =
  jd_queryId :: int
  jd_operators :: "QueryOperator list"
  jd_taskQueueCapacity :: int
  jd_workerQueue :: 'q
  jd_createMergeTasks :: bool
  jd_lastTaskId :: int
  jd_triggerCheckpoints :: bool
  jd_hasCoordinator :: bool
  jd_checkpointCounter :: int
  jd_firstBuffer :: QueryBuffer
  jd_secondBuffer :: QueryBuffer
  jd_firstWindow :: WindowDefinition
  jd_secondWindow :: WindowDefinition
  jd_batchSize :: int
  jd_firstTupleSize :: int
  jd_secondTupleSize :: int
  jd_nextTask :: int
  jd_firstStartIndex :: int
  jd_firstNextIndex :: int
  jd_firstEndIndex :: int
  jd_firstLastEndIndex :: int
  jd_firstToProcessCount :: int
  jd_firstNextTime :: int
  jd_firstEndTime :: int
  jd_prevFirstFreePointer :: int
  jd_secondStartIndex :: int
  jd_secondNextIndex :: int
  jd_secondLastEndIndex :: int
  jd_secondEndIndex :: int
  jd_secondToProcessCount :: int
  jd_secondNextTime :: int
  jd_secondEndTime :: int
  jd_prevSecondFreePointer :: int
  jd_mask :: int
  jd_latencyMark :: int
  jd_replayBarrier :: int
  jd_assembleId :: nat
  jd_symmetric :: bool
  jd_leftList :: CircularTaskList
  jd_rightList :: CircularTaskList
  jd_batches :: WindowBatchFactory
  jd_tasks :: TaskFactory
  jd_graphs :: LineageGraphFactory

definition pow2Size :: "int \<Rightarrow> bool" where
  "pow2Size n \<longleftrightarrow> n \<noteq> 0 \<and> and n (n - 1) = 0"

definition newJoinTaskDispatcher ::
  "SystemConf \<Rightarrow> int \<Rightarrow> QueryOperator list \<Rightarrow> int \<Rightarrow> 'q \<Rightarrow> (int \<times> int) option \<Rightarrow> WindowDefinition \<Rightarrow>
   WindowDefinition \<Rightarrow> int \<Rightarrow> int \<Rightarrow> QueryBuffer \<Rightarrow> QueryBuffer \<Rightarrow> bool \<Rightarrow> bool \<Rightarrow>
   WindowBatchFactory \<Rightarrow> TaskFactory \<Rightarrow> LineageGraphFactory \<Rightarrow> 'q JoinTaskDispatcher res" where
  "newJoinTaskDispatcher conf queryId operators queueCapacity queue config firstWindow secondWindow
     firstTupleSize secondTupleSize firstBuffer secondBuffer replayTimestamps triggerCheckpoints
     batches tasks graphs =
     (let (batchSize, bundleSize) = (case config of Some c \<Rightarrow> c | None \<Rightarrow> (BATCH_SIZE conf, BUNDLE_SIZE conf));
          d = \<lparr>jd_queryId = queryId, jd_operators = operators, jd_taskQueueCapacity = queueCapacity,
               jd_workerQueue = queue, jd_createMergeTasks = True, jd_lastTaskId = 0,
               jd_triggerCheckpoints = triggerCheckpoints, jd_hasCoordinator = False,
               jd_checkpointCounter = 0, jd_firstBuffer = firstBuffer, jd_secondBuffer = secondBuffer,
               jd_firstWindow = firstWindow, jd_secondWindow = secondWindow, jd_batchSize = batchSize,
               jd_firstTupleSize = firstTupleSize, jd_secondTupleSize = secondTupleSize, jd_nextTask = 1,
               jd_firstStartIndex = 0, jd_firstNextIndex = 0, jd_firstEndIndex = - firstTupleSize,
               jd_firstLastEndIndex = - firstTupleSize, jd_firstToProcessCount = 0, jd_firstNextTime = 0,
               jd_firstEndTime = 0, jd_prevFirstFreePointer = 0,
               jd_secondStartIndex = 0, jd_secondNextIndex = 0, jd_secondLastEndIndex = - secondTupleSize,
               jd_secondEndIndex = 0, jd_secondToProcessCount = 0, jd_secondNextTime = 0,
               jd_secondEndTime = 0, jd_prevSecondFreePointer = 0, jd_mask = qb_mask firstBuffer,
               jd_latencyMark = -1, jd_replayBarrier = 0, jd_assembleId = 0, jd_symmetric = False,
               jd_leftList = newCircularTaskList 128, jd_rightList = newCircularTaskList 128,
               jd_batches = batches, jd_tasks = tasks, jd_graphs = graphs\<rparr>
      in if qb_capacity firstBuffer \<noteq> qb_capacity secondBuffer then Inl RuntimeError
         else if \<not> pow2Size firstTupleSize \<or> \<not> pow2Size secondTupleSize then Inl RuntimeError
         else if \<not> replayTimestamps then Inr d
         else if batchSize = 0 then Inl Undefined
         else if bundleSize div batchSize = 0 then Inl RuntimeError
         else Inr (d\<lparr>jd_replayBarrier := bundleSize div batchSize\<rparr>))"

definition jd_setTaskQueue :: "'q \<Rightarrow> 'q JoinTaskDispatcher \<Rightarrow> 'q JoinTaskDispatcher" where
  "jd_setTaskQueue queue d = d\<lparr>jd_workerQueue := queue\<rparr>"

definition jd_setLastTaskId :: "int \<Rightarrow> 'q JoinTaskDispatcher \<Rightarrow> 'q JoinTaskDispatcher" where
  "jd_setLastTaskId taskId d = d\<lparr>jd_lastTaskId := taskId\<rparr>"

definition jd_createMergeTasksFlag :: "bool \<Rightarrow> 'q JoinTaskDispatcher \<Rightarrow> 'q JoinTaskDispatcher" where
  "jd_createMergeTasksFlag flag d = d\<lparr>jd_createMergeTasks := flag\<rparr>"

text \<open>Operations of the interface that a join does not support.\<close>

definition jd_unsupported :: "'q JoinTaskDispatcher \<Rightarrow> 'q JoinTaskDispatcher res" where
  "jd_unsupported d = Inl RuntimeError"

section \<open>Timestamps in the buffers\<close>

definition jd_getTimestamp :: "SystemConf \<Rightarrow> QueryBuffer \<Rightarrow> int \<Rightarrow> int res" where
  "jd_getTimestamp conf b index =
     rbind (getLong b (wrapIndex b index)) (\<lambda>v. Inr (if LATENCY_ON conf then tupleTimestampLong v else v))"

definition jd_getSystemTimestamp :: "SystemConf \<Rightarrow> QueryBuffer \<Rightarrow> int \<Rightarrow> int res" where
  "jd_getSystemTimestamp conf b index =
     rbind (getLong b (wrapIndex b index)) (\<lambda>v. Inr (if LATENCY_ON conf then systemTimestampLong v else v))"

definition jd_setTimestamp :: "int \<Rightarrow> int \<Rightarrow> QueryBuffer \<Rightarrow> QueryBuffer res" where
  "jd_setTimestamp index timestamp b = setLong (wrapIndex b index) timestamp b"

definition normaliseIndex :: "QueryBuffer \<Rightarrow> int \<Rightarrow> int \<Rightarrow> int" where
  "normaliseIndex b p q = (if q < p then q + qb_capacity b else q)"

section \<open>Creating a task\<close>

definition jd_getTaskNumber :: "'q JoinTaskDispatcher \<Rightarrow> int \<times> 'q JoinTaskDispatcher" where
  "jd_getTaskNumber d =
     (let next = to_int32 (jd_nextTask d + 1)
      in (jd_nextTask d, d\<lparr>jd_nextTask := (if next = INT_MAX then 1 else next)\<rparr>))"

definition jd_takeLatencyMark :: "SystemConf \<Rightarrow> 'q JoinTaskDispatcher \<Rightarrow> int \<times> 'q JoinTaskDispatcher" where
  "jd_takeLatencyMark conf d =
     (if LATENCY_ON conf \<and> jd_latencyMark d \<ge> 0
      then (to_int32 (jd_latencyMark d), d\<lparr>jd_latencyMark := -1\<rparr>) else (-1, d))"

text \<open>The free pointers of a task, which are also remembered for the next one.\<close>

definition jd_freePointers :: "'q JoinTaskDispatcher \<Rightarrow> int \<times> int \<times> 'q JoinTaskDispatcher" where
  "jd_freePointers d =
     (let first = (if jd_firstNextIndex d \<noteq> jd_firstStartIndex d
                   then and (jd_firstNextIndex d - jd_firstTupleSize d) (jd_mask d) else INT_MIN);
          d = (if jd_firstNextIndex d \<noteq> jd_firstStartIndex d then d\<lparr>jd_prevFirstFreePointer := first\<rparr> else d);
          second = (if jd_secondNextIndex d \<noteq> jd_secondStartIndex d
                    then and (jd_secondNextIndex d - jd_secondTupleSize d) (jd_mask d) else INT_MIN);
          d = (if jd_secondNextIndex d \<noteq> jd_secondStartIndex d then d\<lparr>jd_prevSecondFreePointer := second\<rparr> else d)
      in (first, second, d))"

text \<open>The new tuples of the stream that triggered the task meet the window of the other stream.\<close>

definition joinPointers ::
  "bool \<Rightarrow> 'q JoinTaskDispatcher \<Rightarrow> WindowBatch \<Rightarrow> WindowBatch \<Rightarrow> WindowBatch \<times> WindowBatch" where
  "joinPointers assembledFirst d batch1 batch2 =
     (if assembledFirst then
        (setBufferPointers (jd_firstLastEndIndex d + jd_firstTupleSize d)
           (normaliseIndex (jd_firstBuffer d) (jd_firstLastEndIndex d) (jd_firstEndIndex d)) batch1,
         setBufferPointers (jd_secondStartIndex d)
           (normaliseIndex (jd_secondBuffer d) (jd_secondStartIndex d) (jd_secondEndIndex d)) batch2)
      else
        (setBufferPointers (jd_firstStartIndex d)
           (normaliseIndex (jd_firstBuffer d) (jd_firstStartIndex d) (jd_firstEndIndex d)) batch1,
         setBufferPointers (jd_secondLastEndIndex d + jd_secondTupleSize d)
           (normaliseIndex (jd_secondBuffer d) (jd_secondLastEndIndex d) (jd_secondEndIndex d)) batch2))"

text \<open>
  The graph of a slot is merged into the graph of the task when it is valid. In the second slot's
  other case the code resets the pointer of the first slot, which is null already.
\<close>

definition takeSlotGraph ::
  "LineageGraph \<Rightarrow> LineageGraphFactory \<Rightarrow> Slot \<Rightarrow> (bool \<times> LineageGraph \<times> LineageGraphFactory) res" where
  "takeSlotGraph g f s =
     (case sl_graph s of
        Some (h, others) \<Rightarrow>
          if lg_isValid h then rbind (mergeGraphsRelease g (h, others) f) (\<lambda>(g, f). Inr (True, g, f))
          else Inr (False, g, f)
      | None \<Rightarrow> Inr (False, g, f))"

definition joinLineage ::
  "SystemConf \<Rightarrow> WindowBatch \<Rightarrow> WindowBatch \<Rightarrow> 'q JoinTaskDispatcher \<Rightarrow> (WindowBatch \<times> 'q JoinTaskDispatcher) res" where
  "joinLineage conf batch1 batch2 d =
     (if \<not> LINEAGE_ON conf then Inr (batch1, d)
      else if to_int32 (wb_batchSize batch1) = 0 \<or> to_int32 (wb_batchSize batch2) = 0 then Inl Undefined
      else
        let slots1 = qb_slots (jd_firstBuffer d); slots2 = qb_slots (jd_secondBuffer d);
            slotId1 = wb_startPointer batch1 sdiv to_int32 (wb_batchSize batch1);
            slotId2 = wb_startPointer batch2 sdiv to_int32 (wb_batchSize batch2) in
        rbind (newInstance (jd_graphs d)) (\<lambda>(g, f).
        rbind (vget slots1 slotId1) (\<lambda>slot1.
        rbind (takeSlotGraph g f slot1) (\<lambda>(_, g, f).
        rbind (vset slots1 slotId1 (slot1\<lparr>sl_graph := None\<rparr>)) (\<lambda>slots1.
        rbind (vget slots2 slotId2) (\<lambda>slot2.
        rbind (takeSlotGraph g f slot2) (\<lambda>(taken, g, f).
        rbind (if taken then vset slots2 slotId2 (slot2\<lparr>sl_graph := None\<rparr>) else Inr slots2) (\<lambda>slots2.
          Inr (setLineageGraph (Some (g, 0)) batch1,
               d\<lparr>jd_firstBuffer := (jd_firstBuffer d)\<lparr>qb_slots := slots1\<rparr>,
                 jd_secondBuffer := (jd_secondBuffer d)\<lparr>qb_slots := slots2\<rparr>, jd_graphs := f\<rparr>)))))))))"

definition getOperator :: "'a list \<Rightarrow> 'a res" where
  "getOperator operators = (case operators of [op] \<Rightarrow> Inr op | _ \<Rightarrow> Inl RuntimeError)"

definition logOffsets ::
  "SystemConf \<Rightarrow> int \<Rightarrow> WindowBatch \<Rightarrow> WindowBatch \<Rightarrow> 'q JoinTaskDispatcher \<Rightarrow> 'q JoinTaskDispatcher res" where
  "logOffsets conf taskId batch1 batch2 d =
     (if LINEAGE_ON conf then
        rbind (getOperator (jd_operators d)) (\<lambda>op.
        rbind (writeOffsets taskId (wb_freePointer1 batch1) (wb_freePointer1 batch2) op) (\<lambda>op.
          Inr (d\<lparr>jd_operators := [op]\<rparr>)))
      else Inr d)"

text \<open>The end of the creation of a task: the tuples of closed windows leave the counts.\<close>

definition moveStarts :: "'q JoinTaskDispatcher \<Rightarrow> 'q JoinTaskDispatcher" where
  "moveStarts d =
     (let count1 = (if jd_firstNextIndex d \<noteq> jd_firstStartIndex d
                    then jd_firstToProcessCount d - (jd_firstNextIndex d - jd_firstStartIndex d) sdiv jd_firstTupleSize d
                    else jd_firstToProcessCount d);
          count2 = (if jd_secondNextIndex d \<noteq> jd_secondStartIndex d
                    then jd_secondToProcessCount d - (jd_secondNextIndex d - jd_secondStartIndex d) sdiv jd_secondTupleSize d
                    else jd_secondToProcessCount d);
          next1 = (if jd_firstNextIndex d > jd_mask d then and (jd_firstNextIndex d) (jd_mask d) else jd_firstNextIndex d);
          next2 = (if jd_secondNextIndex d > jd_mask d then and (jd_secondNextIndex d) (jd_mask d) else jd_secondNextIndex d)
      in d\<lparr>jd_firstToProcessCount := count1, jd_secondToProcessCount := count2,
           jd_firstNextIndex := next1, jd_secondNextIndex := next2,
           jd_firstStartIndex := next1, jd_secondStartIndex := next2\<rparr>)"

definition jd_submit ::
  "int \<Rightarrow> WindowBatch \<Rightarrow> WindowBatch \<Rightarrow> 'q JoinTaskDispatcher \<Rightarrow> 
   (Task \<times> WindowBatch \<times> 'q JoinTaskDispatcher) res" where
  "jd_submit taskId batch1 batch2 d =
     (let type = (if jd_createMergeTasks d then PROCESS else ONLY_PROCESS);
          batch1 = setTaskType type batch1 in
      rbind (tf_newInstance taskId (Some batch1) (Some batch2) type (jd_tasks d)) (\<lambda>(t, tasks).
        Inr (t, batch1, d\<lparr>jd_tasks := tasks, jd_firstLastEndIndex := jd_firstEndIndex d,
                          jd_secondLastEndIndex := jd_secondEndIndex d\<rparr>)))"

definition createTask ::
  "SystemConf \<Rightarrow> 'q queue_ops \<Rightarrow> bool \<Rightarrow> 'q JoinTaskDispatcher \<Rightarrow> 'q JoinTaskDispatcher res" where
  "createTask conf ops assembledFirst d =
     (let (taskId, d) = jd_getTaskNumber d;
          (firstFree, secondFree, d) = jd_freePointers d;
          (latency, d) = jd_takeLatencyMark conf d;
          (batch1, batches) = wf_newInstance conf (jd_batchSize d) taskId firstFree secondFree (Some (jd_queryId d))
             (Some (qb_id (jd_firstBuffer d))) (Some (jd_firstWindow d)) (Some (jd_firstTupleSize d)) latency
             (jd_prevFirstFreePointer d) (jd_prevSecondFreePointer d) (jd_batches d);
          (batch2, batches) = wf_newInstance conf (jd_batchSize d) taskId INT_MIN INT_MIN (Some (jd_queryId d))
             (Some (qb_id (jd_secondBuffer d))) (Some (jd_secondWindow d)) (Some (jd_secondTupleSize d)) (-1)
             (-1) (-1) batches;
          (batch1, batch2) = joinPointers assembledFirst d batch1 batch2 in
      rbind (joinLineage conf batch1 batch2 (d\<lparr>jd_batches := batches\<rparr>)) (\<lambda>(batch1, d).
      rbind (jd_submit taskId batch1 batch2 d) (\<lambda>(t, batch1, d).
      rbind (logOffsets conf taskId batch1 batch2 d) (\<lambda>d.
      rbind (enqueue ops (Some t) (jd_workerQueue d)) (\<lambda>queue.
        Inr (moveStarts (d\<lparr>jd_workerQueue := queue\<rparr>)))))))"

section \<open>Symmetric tasks\<close>

text \<open>The number of pairs of tumbling windows that go into one symmetric task.\<close>

definition symmetricIterations :: "'q JoinTaskDispatcher \<Rightarrow> int res" where
  "symmetricIterations d =
     (let s1 = wd_slide (jd_firstWindow d); s2 = wd_slide (jd_secondWindow d);
          pair = s1 * jd_firstTupleSize d + s2 * jd_secondTupleSize d in
      if pair = 0 then Inl Undefined
      else
        let n = to_int32 (jd_batchSize d sdiv pair);
            n = (if n = 0 then 1 else n) in
        if jd_firstToProcessCount d < n * s1 \<and> s1 = 0 then Inl Undefined
        else
          let n = (if jd_firstToProcessCount d < n * s1 then to_int32 (jd_firstToProcessCount d sdiv s1) else n) in
          if jd_secondToProcessCount d < n * s2 \<and> s2 = 0 then Inl Undefined
          else Inr (if jd_secondToProcessCount d < n * s2 then to_int32 (jd_secondToProcessCount d sdiv s2) else n))"

definition symmetricFree :: "QueryBuffer \<Rightarrow> int \<Rightarrow> int \<Rightarrow> int" where
  "symmetricFree b m p = (let f = and p m in (if f = 0 then qb_capacity b else f) - 1)"

definition createSymmetricTask ::
  "SystemConf \<Rightarrow> 'q queue_ops \<Rightarrow> bool \<Rightarrow> 'q JoinTaskDispatcher \<Rightarrow> 'q JoinTaskDispatcher res" where
  "createSymmetricTask conf ops assembledFirst d =
     (let (taskId, d) = jd_getTaskNumber d in
      if \<not> isTumbling (jd_firstWindow d) \<or> \<not> isTumbling (jd_secondWindow d)
         \<or> \<not> isRowBased (jd_firstWindow d) \<or> \<not> isRowBased (jd_secondWindow d) then Inl RuntimeError
      else
        let (latency, d) = jd_takeLatencyMark conf d in
        rbind (symmetricIterations d) (\<lambda>n.
          let bytes1 = n * wd_slide (jd_firstWindow d) * jd_firstTupleSize d;
              bytes2 = n * wd_slide (jd_secondWindow d) * jd_secondTupleSize d;
              next1 = jd_firstStartIndex d + bytes1; next2 = jd_secondStartIndex d + bytes2;
              (batch1, batches) = wf_newInstance conf (jd_batchSize d) taskId
                 (symmetricFree (jd_firstBuffer d) (jd_mask d) next1) (symmetricFree (jd_secondBuffer d) (jd_mask d) next2)
                 (Some (jd_queryId d)) (Some (qb_id (jd_firstBuffer d))) (Some (jd_firstWindow d))
                 (Some (jd_firstTupleSize d)) latency (-1) (-1) (jd_batches d);
              (batch2, batches) = wf_newInstance conf (jd_batchSize d) taskId INT_MIN INT_MIN (Some (jd_queryId d))
                 (Some (qb_id (jd_secondBuffer d))) (Some (jd_secondWindow d)) (Some (jd_secondTupleSize d)) (-1)
                 (-1) (-1) batches;
              batch1 = setBufferPointers (jd_firstStartIndex d)
                 (normaliseIndex (jd_firstBuffer d) (jd_firstStartIndex d) (next1 - jd_firstTupleSize d)) batch1;
              batch2 = setBufferPointers (jd_secondStartIndex d)
                 (normaliseIndex (jd_secondBuffer d) (jd_secondStartIndex d) (next2 - jd_secondTupleSize d)) batch2 in
          if LINEAGE_ON conf then Inl RuntimeError
          else
            rbind (jd_submit taskId batch1 batch2 (d\<lparr>jd_batches := batches\<rparr>)) (\<lambda>(t, batch1, d).
            rbind (enqueue ops (Some t) (jd_workerQueue d)) (\<lambda>queue.
              Inr (d\<lparr>jd_workerQueue := queue,
                     jd_firstToProcessCount := jd_firstToProcessCount d - n * wd_slide (jd_firstWindow d),
                     jd_secondToProcessCount := jd_secondToProcessCount d - n * wd_slide (jd_secondWindow d),
                     jd_firstStartIndex := and next1 (jd_mask d),
                     jd_secondStartIndex := and next2 (jd_mask d)\<rparr>)))))"

section \<open>Closing windows\<close>

text \<open>
  The two loops that move the start of the oldest open window. A step that is not positive makes
  a loop that has started endless.
\<close>

function rowNext :: "int \<Rightarrow> int \<Rightarrow> int \<Rightarrow> int \<Rightarrow> int res" where
  "rowNext width step endIndex next =
     (if next + width < endIndex
      then (if step \<le> 0 then Inl Blocked else rowNext width step endIndex (next + step))
      else Inr next)"
  by pat_completeness auto
termination
  by (relation "measure (\<lambda>(width, step, endIndex, next). nat (endIndex - width - next))") auto

declare rowNext.simps [simp del]

function rangeNext ::
  "SystemConf \<Rightarrow> QueryBuffer \<Rightarrow> int \<Rightarrow> int \<Rightarrow> int \<Rightarrow> int \<Rightarrow> int \<Rightarrow> int \<Rightarrow> (int \<times> int) res" where
  "rangeNext conf b width tupleSize endIndex endTime next nextTime =
     (if nextTime + width < endTime \<and> next < endIndex then
        (if tupleSize \<le> 0 then Inl Blocked
         else case jd_getTimestamp conf b (to_int32 (next + tupleSize)) of
                Inl e \<Rightarrow> Inl e
              | Inr t \<Rightarrow> rangeNext conf b width tupleSize endIndex endTime (next + tupleSize) t)
      else Inr (next, nextTime))"
  by pat_completeness auto
termination
  by (relation "measure (\<lambda>(conf, b, width, tupleSize, endIndex, endTime, next, nextTime). nat (endIndex - next))") auto

declare rangeNext.simps [simp del]

text \<open>The next index, its time and the time of the last tuple, after the tuples up to \<open>endIndex\<close> arrived.\<close>

definition closeWindows ::
  "SystemConf \<Rightarrow> QueryBuffer \<Rightarrow> WindowDefinition \<Rightarrow> int \<Rightarrow> int \<Rightarrow> int \<times> int \<times> int \<Rightarrow> (int \<times> int \<times> int) res" where
  "closeWindows conf b w tupleSize endIndex s =
     (case s of (next, nextTime, endTime) \<Rightarrow>
        if isRowBased w then
          rbind (rowNext (wd_size w * tupleSize) (tupleSize * wd_slide w) endIndex next) (\<lambda>n.
            Inr (n, nextTime, endTime))
        else if isRangeBased w then
          rbind (jd_getTimestamp conf b (to_int32 next)) (\<lambda>nextTime.
          rbind (jd_getTimestamp conf b (to_int32 endIndex)) (\<lambda>endTime.
          rbind (rangeNext conf b (wd_size w) tupleSize endIndex endTime next nextTime) (\<lambda>(n, t).
            Inr (n, t, endTime))))
        else Inl RuntimeError)"

section \<open>Assembling\<close>

definition jd_readLatencyMark :: "SystemConf \<Rightarrow> int \<Rightarrow> 'q JoinTaskDispatcher \<Rightarrow> 'q JoinTaskDispatcher res" where
  "jd_readLatencyMark conf idx d =
     (if LATENCY_ON conf \<and> jd_latencyMark d < 0 then
        rbind (jd_getSystemTimestamp conf (jd_firstBuffer d) (to_int32 idx)) (\<lambda>systemTimestamp.
        rbind (jd_getTimestamp conf (jd_firstBuffer d) (to_int32 idx)) (\<lambda>tupleTimestamp.
        rbind (jd_setTimestamp (to_int32 idx) tupleTimestamp (jd_firstBuffer d)) (\<lambda>b.
          Inr (d\<lparr>jd_latencyMark := systemTimestamp, jd_firstBuffer := b\<rparr>))))
      else Inr d)"

definition jd_tryTask ::
  "SystemConf \<Rightarrow> 'q queue_ops \<Rightarrow> bool \<Rightarrow> 'q JoinTaskDispatcher \<Rightarrow> 'q JoinTaskDispatcher res" where
  "jd_tryTask conf ops assembledFirst d =
     (let size' = to_int32 (jd_firstToProcessCount d * jd_firstTupleSize d
                            + jd_secondToProcessCount d * jd_secondTupleSize d) in
      if \<not> jd_symmetric d then
        if size' \<ge> jd_batchSize d \<and> jd_firstToProcessCount d > 0 \<and> jd_secondToProcessCount d > 0
        then createTask conf ops assembledFirst d else Inr d
      else
        if size' \<ge> jd_batchSize d \<and> jd_firstToProcessCount d > wd_slide (jd_firstWindow d)
           \<and> jd_secondToProcessCount d > wd_slide (jd_secondWindow d)
        then createSymmetricTask conf ops assembledFirst d else Inr d)"

definition assembleFirst ::
  "SystemConf \<Rightarrow> 'q queue_ops \<Rightarrow> int \<Rightarrow> int \<Rightarrow> 'q JoinTaskDispatcher \<Rightarrow> 'q JoinTaskDispatcher res" where
  "assembleFirst conf ops idx len d =
     rbind (jd_readLatencyMark conf idx d) (\<lambda>d.
       let ts = jd_firstTupleSize d;
           e = idx + len - ts;
           e = (if e < jd_firstStartIndex d then e + qb_capacity (jd_firstBuffer d) else e) in
       if ts = 0 then Inl Undefined
       else
         let count = (e - jd_firstStartIndex d + ts) sdiv ts in
         rbind (closeWindows conf (jd_firstBuffer d) (jd_firstWindow d) ts e
                  (jd_firstNextIndex d, jd_firstNextTime d, jd_firstEndTime d)) (\<lambda>(next, nextTime, endTime).
           jd_tryTask conf ops True
             (d\<lparr>jd_firstEndIndex := e, jd_firstToProcessCount := count, jd_firstNextIndex := next,
                jd_firstNextTime := nextTime, jd_firstEndTime := endTime\<rparr>)))"

definition assembleSecond ::
  "SystemConf \<Rightarrow> 'q queue_ops \<Rightarrow> int \<Rightarrow> int \<Rightarrow> 'q JoinTaskDispatcher \<Rightarrow> 'q JoinTaskDispatcher res" where
  "assembleSecond conf ops idx len d =
     (let ts = jd_secondTupleSize d;
          e = idx + len - ts;
          e = (if e < jd_secondStartIndex d then e + qb_capacity (jd_secondBuffer d) else e) in
      if ts = 0 then Inl Undefined
      else
        let count = (e - jd_secondStartIndex d + ts) sdiv ts in
        rbind (closeWindows conf (jd_secondBuffer d) (jd_secondWindow d) ts e
                 (jd_secondNextIndex d, jd_secondNextTime d, jd_secondEndTime d)) (\<lambda>(next, nextTime, endTime).
          jd_tryTask conf ops False
            (d\<lparr>jd_secondEndIndex := e, jd_secondToProcessCount := count, jd_secondNextIndex := next,
               jd_secondNextTime := nextTime, jd_secondEndTime := endTime\<rparr>)))"

text \<open>
  The two loops of \<open>tryAssembleTask\<close> over the waiting insertions; assembling does not touch the
  lists, which the loops hold locked.
\<close>

function assembleLeft ::
  "SystemConf \<Rightarrow> 'q queue_ops \<Rightarrow> CircularTaskList \<Rightarrow> 'q JoinTaskDispatcher \<Rightarrow>
   (CircularTaskList \<times> 'q JoinTaskDispatcher) res" where
  "assembleLeft conf ops l d =
     (if ct_elements l > 0 then
        (case front l of
           Inl e \<Rightarrow> Inl e
         | Inr None \<Rightarrow> Inr (l, d)
         | Inr (Some t) \<Rightarrow>
             if st_id t \<le> jd_assembleId d then
               (case assembleFirst conf ops (st_idx t) (st_length t) d of
                  Inl e \<Rightarrow> Inl e
                | Inr d' \<Rightarrow> assembleLeft conf ops (pop_front l) d')
             else Inr (l, d))
      else Inr (l, d))"
  by pat_completeness auto
termination
  by (relation "measure (\<lambda>(conf, ops, l, d). nat (ct_elements l))") (auto simp: pop_front_def Let_def)

function assembleRight ::
  "SystemConf \<Rightarrow> 'q queue_ops \<Rightarrow> CircularTaskList \<Rightarrow> 'q JoinTaskDispatcher \<Rightarrow>
   (CircularTaskList \<times> 'q JoinTaskDispatcher) res" where
  "assembleRight conf ops l d =
     (if ct_elements l > 0 then
        (case front l of
           Inl e \<Rightarrow> Inl e
         | Inr None \<Rightarrow> Inr (l, d)
         | Inr (Some t) \<Rightarrow>
             if st_id t \<le> jd_assembleId d then
               (case assembleSecond conf ops (st_idx t) (st_length t) d of
                  Inl e \<Rightarrow> Inl e
                | Inr d' \<Rightarrow> assembleRight conf ops (pop_front l) d')
             else Inr (l, d\<lparr>jd_assembleId := (jd_assembleId d + 1) mod 2 ^ 64\<rparr>))
      else Inr (l, d))"
  by pat_completeness auto
termination
  by (relation "measure (\<lambda>(conf, ops, l, d). nat (ct_elements l))") (auto simp: pop_front_def Let_def)

declare assembleLeft.simps [simp del] assembleRight.simps [simp del]

definition tryAssembleTask ::
  "SystemConf \<Rightarrow> 'q queue_ops \<Rightarrow> 'q JoinTaskDispatcher \<Rightarrow> 'q JoinTaskDispatcher res" where
  "tryAssembleTask conf ops d =
     rbind (assembleLeft conf ops (jd_leftList d) d) (\<lambda>(l, d).
     rbind (assembleRight conf ops (jd_rightList d) (d\<lparr>jd_leftList := l\<rparr>)) (\<lambda>(l, d).
       Inr (d\<lparr>jd_rightList := l\<rparr>)))"

section \<open>Dispatching\<close>

definition putFirst ::
  "SystemConf \<Rightarrow> byte list option \<Rightarrow> int \<Rightarrow> int \<Rightarrow> (LineageGraph \<times> nat) option \<Rightarrow> 'q JoinTaskDispatcher \<Rightarrow>
   (int \<times> 'q JoinTaskDispatcher) res" where
  "putFirst conf data len latencyMark graph d =
     rbind (put conf data len latencyMark graph (jd_graphs d) (jd_firstBuffer d)) (\<lambda>(idx, b, f).
       Inr (idx, d\<lparr>jd_firstBuffer := b, jd_graphs := f\<rparr>))"

definition putSecond ::
  "SystemConf \<Rightarrow> byte list option \<Rightarrow> int \<Rightarrow> int \<Rightarrow> (LineageGraph \<times> nat) option \<Rightarrow> 'q JoinTaskDispatcher \<Rightarrow>
   (int \<times> 'q JoinTaskDispatcher) res" where
  "putSecond conf data len latencyMark graph d =
     rbind (put conf data len latencyMark graph (jd_graphs d) (jd_secondBuffer d)) (\<lambda>(idx, b, f).
       Inr (idx, d\<lparr>jd_secondBuffer := b, jd_graphs := f\<rparr>))"

text \<open>
  The waiting loop of a blocking insertion: \<open>others n\<close> is what the other threads do to the
  dispatcher's buffers and queue after the \<open>n\<close>-th failed attempt.
\<close>

partial_function (option) jd_spin ::
  "(nat \<Rightarrow> 'q JoinTaskDispatcher \<Rightarrow> 'q JoinTaskDispatcher) \<Rightarrow>
   ('q JoinTaskDispatcher \<Rightarrow> (int \<times> 'q JoinTaskDispatcher) res) \<Rightarrow> nat \<Rightarrow> 'q JoinTaskDispatcher \<Rightarrow>
   (int \<times> 'q JoinTaskDispatcher) res option" where
  "jd_spin others putData n d =
     (case putData d of
        Inl e \<Rightarrow> Some (Inl e)
      | Inr (idx, d') \<Rightarrow> if idx < 0 then jd_spin others putData (Suc n) (others n d') else Some (Inr (idx, d')))"

definition jd_dispatch ::
  "SystemConf \<Rightarrow> 'q queue_ops \<Rightarrow> (nat \<Rightarrow> 'q JoinTaskDispatcher \<Rightarrow> 'q JoinTaskDispatcher) \<Rightarrow>
   byte list option \<Rightarrow> int \<Rightarrow> int \<Rightarrow> 'q JoinTaskDispatcher \<Rightarrow> 'q JoinTaskDispatcher res option" where
  "jd_dispatch conf ops others data len latencyMark d =
     map_option (\<lambda>r. rbind r (\<lambda>(idx, d). assembleFirst conf ops idx len d))
       (jd_spin others (putFirst conf data len latencyMark None) 0 d)"

definition jd_dispatchToFirstStream ::
  "SystemConf \<Rightarrow> 'q queue_ops \<Rightarrow> (nat \<Rightarrow> 'q JoinTaskDispatcher \<Rightarrow> 'q JoinTaskDispatcher) \<Rightarrow>
   byte list option \<Rightarrow> int \<Rightarrow> int \<Rightarrow> 'q JoinTaskDispatcher \<Rightarrow> 'q JoinTaskDispatcher res option" where
  "jd_dispatchToFirstStream conf ops others data len latencyMark d =
     jd_dispatch conf ops others data len latencyMark d"

definition jd_dispatchToSecondStream ::
  "SystemConf \<Rightarrow> 'q queue_ops \<Rightarrow> (nat \<Rightarrow> 'q JoinTaskDispatcher \<Rightarrow> 'q JoinTaskDispatcher) \<Rightarrow>
   byte list option \<Rightarrow> int \<Rightarrow> int \<Rightarrow> 'q JoinTaskDispatcher \<Rightarrow> 'q JoinTaskDispatcher res option" where
  "jd_dispatchToSecondStream conf ops others data len latencyMark d =
     map_option (\<lambda>r. rbind r (\<lambda>(idx, d). assembleSecond conf ops idx len d))
       (jd_spin others (putSecond conf data len latencyMark None) 0 d)"

definition jd_tryDispatch ::
  "SystemConf \<Rightarrow> 'q queue_ops \<Rightarrow> byte list option \<Rightarrow> int \<Rightarrow> int \<Rightarrow> (LineageGraph \<times> nat) option \<Rightarrow>
   'q JoinTaskDispatcher \<Rightarrow> (bool \<times> 'q JoinTaskDispatcher) res" where
  "jd_tryDispatch conf ops data len latencyMark graph d =
     rbind (putFirst conf data len latencyMark graph d) (\<lambda>(idx, d).
       if idx < 0 then Inr (False, d)
       else rbind (assembleFirst conf ops idx len d) (\<lambda>d. Inr (True, d)))"

definition jd_tryDispatchOrCreateTask ::
  "SystemConf \<Rightarrow> 'q queue_ops \<Rightarrow> byte list option \<Rightarrow> int \<Rightarrow> int \<Rightarrow> (LineageGraph \<times> nat) option \<Rightarrow>
   'q JoinTaskDispatcher \<Rightarrow> (bool \<times> 'q JoinTaskDispatcher) res" where
  "jd_tryDispatchOrCreateTask conf ops data len latencyMark graph d =
     rbind (putFirst conf data len latencyMark graph d) (\<lambda>(idx, d).
       if idx < 0 then Inr (False, d)
       else rbind (assembleFirst conf ops idx len d) (\<lambda>d. Inr (True, d)))"

definition jd_tryDispatchToFirstStream ::
  "SystemConf \<Rightarrow> 'q queue_ops \<Rightarrow> byte list option \<Rightarrow> int \<Rightarrow> int \<Rightarrow> (LineageGraph \<times> nat) option \<Rightarrow>
   'q JoinTaskDispatcher \<Rightarrow> (bool \<times> 'q JoinTaskDispatcher) res" where
  "jd_tryDispatchToFirstStream conf ops data len latencyMark graph d =
     jd_tryDispatch conf ops data len latencyMark graph d"

definition jd_tryDispatchToSecondStream ::
  "SystemConf \<Rightarrow> 'q queue_ops \<Rightarrow> byte list option \<Rightarrow> int \<Rightarrow> int \<Rightarrow> (LineageGraph \<times> nat) option \<Rightarrow>
   'q JoinTaskDispatcher \<Rightarrow> (bool \<times> 'q JoinTaskDispatcher) res" where
  "jd_tryDispatchToSecondStream conf ops data len latencyMark graph d =
     rbind (putSecond conf data len latencyMark graph d) (\<lambda>(idx, d).
       if idx < 0 then Inr (False, d)
       else rbind (assembleSecond conf ops idx len d) (\<lambda>d. Inr (True, d)))"

definition jd_tryDispatchSerialToFirstStream ::
  "SystemConf \<Rightarrow> 'q queue_ops \<Rightarrow> byte list option \<Rightarrow> int \<Rightarrow> nat \<Rightarrow> int \<Rightarrow> (LineageGraph \<times> nat) option \<Rightarrow>
   'q JoinTaskDispatcher \<Rightarrow> (bool \<times> 'q JoinTaskDispatcher) res" where
  "jd_tryDispatchSerialToFirstStream conf ops data len i latencyMark graph d =
     rbind (putFirst conf data len latencyMark graph d) (\<lambda>(idx, d).
       if idx < 0 then Inr (False, d)
       else rbind (push_back i idx len (jd_leftList d)) (\<lambda>l.
            rbind (tryAssembleTask conf ops (d\<lparr>jd_leftList := l\<rparr>)) (\<lambda>d. Inr (True, d))))"

definition jd_tryDispatchSerialToSecondStream ::
  "SystemConf \<Rightarrow> 'q queue_ops \<Rightarrow> byte list option \<Rightarrow> int \<Rightarrow> nat \<Rightarrow> int \<Rightarrow> (LineageGraph \<times> nat) option \<Rightarrow>
   'q JoinTaskDispatcher \<Rightarrow> (bool \<times> 'q JoinTaskDispatcher) res" where
  "jd_tryDispatchSerialToSecondStream conf ops data len i latencyMark graph d =
     rbind (putSecond conf data len latencyMark graph d) (\<lambda>(idx, d).
       if idx < 0 then Inr (False, d)
       else rbind (push_back i idx len (jd_rightList d)) (\<lambda>l.
            rbind (tryAssembleTask conf ops (d\<lparr>jd_rightList := l\<rparr>)) (\<lambda>d. Inr (True, d))))"

section \<open>Merge and checkpoint tasks\<close>

definition jd_newControlTask ::
  "SystemConf \<Rightarrow> 'q queue_ops \<Rightarrow> TaskType \<Rightarrow> 'q JoinTaskDispatcher \<Rightarrow> (bool \<times> 'q JoinTaskDispatcher) res" where
  "jd_newControlTask conf ops type d =
     (let (wb, batches) = wf_newInstance conf 0 0 (-1) (-1) (Some (jd_queryId d)) None (Some (jd_firstWindow d))
            (Some (jd_firstTupleSize d)) (-1) (-1) (-1) (jd_batches d);
          wb = setTaskType type wb in
      rbind (tf_newInstance 0 (Some wb) None type (jd_tasks d)) (\<lambda>(t, tasks).
        case try_enqueue ops (Some t) (jd_workerQueue d) of
          (True, q) \<Rightarrow> Inr (True, d\<lparr>jd_batches := batches, jd_tasks := tasks, jd_workerQueue := q\<rparr>)
        | (False, q) \<Rightarrow> rbind (wf_free wb 1 batches) (\<lambda>batches. rbind (tf_free (Some t) tasks) (\<lambda>tasks.
            Inr (False, d\<lparr>jd_batches := batches, jd_tasks := tasks, jd_workerQueue := q\<rparr>)))))"

definition jd_tryCreateNonProcessingTasks ::
  "SystemConf \<Rightarrow> 'q queue_ops \<Rightarrow> bool \<Rightarrow> 'q JoinTaskDispatcher \<Rightarrow> 'q JoinTaskDispatcher res" where
  "jd_tryCreateNonProcessingTasks conf ops hasWork d =
     (if size_approx ops (jd_workerQueue d) \<ge> jd_taskQueueCapacity d then Inr d
      else
        let flag = (CREATE_MERGE_WITH_CHECKPOINTS conf \<and> jd_createMergeTasks d)
                     \<or> \<not> CREATE_MERGE_WITH_CHECKPOINTS conf in
        rbind (if to_int32 (size_approx ops (jd_workerQueue d)) < WORKER_THREADS conf \<and> flag
               then rbind (jd_newControlTask conf ops MERGE_FORWARD d) (\<lambda>(_, d). Inr d) else Inr d) (\<lambda>d.
          if jd_triggerCheckpoints d \<and> jd_hasCoordinator d \<and> hasWork
             \<and> jd_checkpointCounter d < WORKER_THREADS conf
          then rbind (jd_newControlTask conf ops CHECKPOINT d) (\<lambda>(ok, d).
                 Inr (if ok then d\<lparr>jd_checkpointCounter := jd_checkpointCounter d + 1\<rparr> else d))
          else Inr d))"

end
