(* ===== verification/Joining.thy ===== *)
theory Joining
  imports JoinTaskDispatcher Dispatching
begin

text \<open>
  Correctness of the dispatcher of joins: which pairs of tuples the batches of its tasks
  span, when windows are closed, and in which order serial insertions are assembled.
\<close>

section \<open>What the creation of a task does\<close>

lemma joinLineage_effect:
  assumes "joinLineage conf b1 b2 d = Inr (b1', d')"
  shows "d' = d\<lparr>jd_firstBuffer := (jd_firstBuffer d)\<lparr>qb_slots := qb_slots (jd_firstBuffer d')\<rparr>,
      jd_secondBuffer := (jd_secondBuffer d)\<lparr>qb_slots := qb_slots (jd_secondBuffer d')\<rparr>,
      jd_graphs := jd_graphs d'\<rparr>
    \<and> b1' = b1\<lparr>wb_graph := wb_graph b1'\<rparr>"
proof (cases "LINEAGE_ON conf")
  case False
  then show ?thesis using assms by (simp add: joinLineage_def)
next
  case True
  then have "to_int32 (wb_batchSize b1) \<noteq> 0 \<and> to_int32 (wb_batchSize b2) \<noteq> 0"
    using assms by (auto simp: joinLineage_def)
  with True assms obtain ss1 ss2 f g where
    "b1' = setLineageGraph (Some (g, 0)) b1"
    "d' = d\<lparr>jd_firstBuffer := (jd_firstBuffer d)\<lparr>qb_slots := ss1\<rparr>,
       jd_secondBuffer := (jd_secondBuffer d)\<lparr>qb_slots := ss2\<rparr>, jd_graphs := f\<rparr>"
    by (auto simp: joinLineage_def Let_def)
  then show ?thesis by (simp add: setLineageGraph_def)
qed

lemma logOffsets_effect:
  assumes "logOffsets conf i b1 b2 d = Inr d'"
  shows "d' = d\<lparr>jd_operators := jd_operators d'\<rparr>"
  using assms by (auto simp: logOffsets_def split: if_splits)

lemma jd_submit_effect:
  assumes "jd_submit i b1 b2 d = Inr (t, b1', d')"
  shows "d' = d\<lparr>jd_tasks := jd_tasks d', jd_firstLastEndIndex := jd_firstEndIndex d,
      jd_secondLastEndIndex := jd_secondEndIndex d\<rparr>"
    and "tk_leftBatch t = Some b1'" and "tk_rightBatch t = Some b2" and "tk_taskId t = i"
    and "b1' = setTaskType (if jd_createMergeTasks d then PROCESS else ONLY_PROCESS) b1"
  using assms by (auto simp: jd_submit_def Let_def dest: tf_newInstance_sel)

definition firstFree :: "'q JoinTaskDispatcher \<Rightarrow> int" where
  "firstFree d = (if jd_firstNextIndex d = jd_firstStartIndex d then INT_MIN
     else and (jd_firstNextIndex d - jd_firstTupleSize d) (jd_mask d))"

definition secondFree :: "'q JoinTaskDispatcher \<Rightarrow> int" where
  "secondFree d = (if jd_secondNextIndex d = jd_secondStartIndex d then INT_MIN
     else and (jd_secondNextIndex d - jd_secondTupleSize d) (jd_mask d))"

text \<open>The task a creation enqueues, for the state \<open>d\<close> it starts in.\<close>

definition join_task :: "bool \<Rightarrow> 'q JoinTaskDispatcher \<Rightarrow> Task \<Rightarrow> bool" where
  "join_task assembledFirst d t \<longleftrightarrow> tk_taskId t = jd_nextTask d \<and> (\<exists>b1 b2.
     tk_leftBatch t = Some b1 \<and> tk_rightBatch t = Some b2
     \<and> wb_startPointer b1 = (if assembledFirst then jd_firstLastEndIndex d + jd_firstTupleSize d
                              else jd_firstStartIndex d)
     \<and> wb_endPointer b1 = normaliseIndex (jd_firstBuffer d)
          (if assembledFirst then jd_firstLastEndIndex d else jd_firstStartIndex d) (jd_firstEndIndex d)
     \<and> wb_startPointer b2 = (if assembledFirst then jd_secondStartIndex d
                              else jd_secondLastEndIndex d + jd_secondTupleSize d)
     \<and> wb_endPointer b2 = normaliseIndex (jd_secondBuffer d)
          (if assembledFirst then jd_secondStartIndex d else jd_secondLastEndIndex d) (jd_secondEndIndex d)
     \<and> wb_freePointer1 b1 = firstFree d \<and> wb_freePointer2 b1 = secondFree d)"

text \<open>What stays of the state, and where the pointers go.\<close>

definition join_moved :: "'q JoinTaskDispatcher \<Rightarrow> 'q JoinTaskDispatcher \<Rightarrow> bool" where
  "join_moved d d' \<longleftrightarrow>
     jd_firstWindow d' = jd_firstWindow d \<and> jd_secondWindow d' = jd_secondWindow d
     \<and> jd_firstTupleSize d' = jd_firstTupleSize d \<and> jd_secondTupleSize d' = jd_secondTupleSize d
     \<and> jd_batchSize d' = jd_batchSize d \<and> jd_mask d' = jd_mask d \<and> jd_symmetric d' = jd_symmetric d
     \<and> jd_assembleId d' = jd_assembleId d \<and> jd_leftList d' = jd_leftList d \<and> jd_rightList d' = jd_rightList d
     \<and> same_shape_buffer (jd_firstBuffer d) (jd_firstBuffer d')
     \<and> same_shape_buffer (jd_secondBuffer d) (jd_secondBuffer d')
     \<and> jd_firstEndIndex d' = jd_firstEndIndex d \<and> jd_secondEndIndex d' = jd_secondEndIndex d
     \<and> jd_firstLastEndIndex d' = jd_firstEndIndex d \<and> jd_secondLastEndIndex d' = jd_secondEndIndex d
     \<and> jd_firstStartIndex d' = jd_firstNextIndex d' \<and> jd_secondStartIndex d' = jd_secondNextIndex d'
     \<and> jd_firstNextIndex d' = (if jd_firstNextIndex d > jd_mask d then and (jd_firstNextIndex d) (jd_mask d)
                                else jd_firstNextIndex d)
     \<and> jd_secondNextIndex d' = (if jd_secondNextIndex d > jd_mask d then and (jd_secondNextIndex d) (jd_mask d)
                                 else jd_secondNextIndex d)
     \<and> jd_firstToProcessCount d' = jd_firstToProcessCount d
          - (jd_firstNextIndex d - jd_firstStartIndex d) sdiv jd_firstTupleSize d
     \<and> jd_secondToProcessCount d' = jd_secondToProcessCount d
          - (jd_secondNextIndex d - jd_secondStartIndex d) sdiv jd_secondTupleSize d"

lemma jd_takeLatencyMarkE:
  obtains lat m where "jd_takeLatencyMark conf d = (lat, d\<lparr>jd_latencyMark := m\<rparr>)"
proof (cases "LATENCY_ON conf \<and> jd_latencyMark d \<ge> 0")
  case True
  then have "jd_takeLatencyMark conf d = (to_int32 (jd_latencyMark d), d\<lparr>jd_latencyMark := -1\<rparr>)"
    by (simp add: jd_takeLatencyMark_def)
  then show ?thesis by (rule that)
next
  case False
  then have "jd_takeLatencyMark conf d = (-1, d\<lparr>jd_latencyMark := jd_latencyMark d\<rparr>)"
    by (auto simp: jd_takeLatencyMark_def)
  then show ?thesis by (rule that)
qed

lemma jd_freePointers_eq:
  "jd_freePointers d = (firstFree d, secondFree d,
     d\<lparr>jd_prevFirstFreePointer := (if jd_firstNextIndex d = jd_firstStartIndex d then jd_prevFirstFreePointer d else firstFree d),
       jd_prevSecondFreePointer := (if jd_secondNextIndex d = jd_secondStartIndex d then jd_prevSecondFreePointer d else secondFree d)\<rparr>)"
  by (cases "jd_firstNextIndex d = jd_firstStartIndex d"; cases "jd_secondNextIndex d = jd_secondStartIndex d")
    (simp_all add: jd_freePointers_def firstFree_def secondFree_def Let_def)

lemma joinPointers_sel:
  assumes "joinPointers af d b1 b2 = (c1, c2)"
  shows "wb_startPointer c1 = (if af then jd_firstLastEndIndex d + jd_firstTupleSize d else jd_firstStartIndex d)"
    "wb_endPointer c1 = normaliseIndex (jd_firstBuffer d)
       (if af then jd_firstLastEndIndex d else jd_firstStartIndex d) (jd_firstEndIndex d)"
    "wb_startPointer c2 = (if af then jd_secondStartIndex d else jd_secondLastEndIndex d + jd_secondTupleSize d)"
    "wb_endPointer c2 = normaliseIndex (jd_secondBuffer d)
       (if af then jd_secondStartIndex d else jd_secondLastEndIndex d) (jd_secondEndIndex d)"
    "wb_freePointer1 c1 = wb_freePointer1 b1" "wb_freePointer2 c1 = wb_freePointer2 b1"
  using assms by (auto simp: joinPointers_def setBufferPointers_def split: if_splits)

lemma frees_nextTask [simp]:
  "firstFree (d\<lparr>jd_nextTask := n\<rparr>) = firstFree d" "secondFree (d\<lparr>jd_nextTask := n\<rparr>) = secondFree d"
  by (simp_all add: firstFree_def secondFree_def cong: if_cong)

lemma createTask_effect:
  assumes "createTask conf ops af d = Inr d'"
  shows "join_moved d d' \<and> (\<exists>t. enqueue ops (Some t) (jd_workerQueue d) = Inr (jd_workerQueue d') \<and> join_task af d t)"
proof -
  obtain n where n: "jd_getTaskNumber d = (jd_nextTask d, d\<lparr>jd_nextTask := n\<rparr>)"
    by (simp add: jd_getTaskNumber_def Let_def)
  let ?ff = "firstFree d" and ?sf = "secondFree d"
  obtain p1 p2 where fp: "jd_freePointers (d\<lparr>jd_nextTask := n\<rparr>) = (?ff, ?sf,
      d\<lparr>jd_nextTask := n, jd_prevFirstFreePointer := p1, jd_prevSecondFreePointer := p2\<rparr>)"
    by (rule that) (simp add: jd_freePointers_eq)
  let ?d1 = "d\<lparr>jd_nextTask := n, jd_prevFirstFreePointer := p1, jd_prevSecondFreePointer := p2\<rparr>"
  obtain lat m where m: "jd_takeLatencyMark conf ?d1 = (lat, ?d1\<lparr>jd_latencyMark := m\<rparr>)"
    by (rule jd_takeLatencyMarkE)
  obtain b1 pool1 where b1: "wf_newInstance conf (jd_batchSize d) (jd_nextTask d) ?ff ?sf (Some (jd_queryId d))
      (Some (qb_id (jd_firstBuffer d))) (Some (jd_firstWindow d)) (Some (jd_firstTupleSize d)) lat p1 p2
      (jd_batches d) = (b1, pool1)" by (rule prod.exhaust)
  obtain b2 pool2 where b2: "wf_newInstance conf (jd_batchSize d) (jd_nextTask d) INT_MIN INT_MIN (Some (jd_queryId d))
      (Some (qb_id (jd_secondBuffer d))) (Some (jd_secondWindow d)) (Some (jd_secondTupleSize d)) (-1) (-1) (-1)
      pool1 = (b2, pool2)" by (rule prod.exhaust)
  let ?d2 = "?d1\<lparr>jd_latencyMark := m, jd_batches := pool2\<rparr>"
  obtain c1 c2 where c: "joinPointers af (?d1\<lparr>jd_latencyMark := m\<rparr>) b1 b2 = (c1, c2)" by (rule prod.exhaust)
  have "rbind (joinLineage conf c1 c2 ?d2) (\<lambda>(w, e).
      rbind (jd_submit (jd_nextTask d) w c2 e) (\<lambda>(t, w, e).
      rbind (logOffsets conf (jd_nextTask d) w c2 e) (\<lambda>e.
      rbind (enqueue ops (Some t) (jd_workerQueue e)) (\<lambda>queue.
        Inr (moveStarts (e\<lparr>jd_workerQueue := queue\<rparr>)))))) = Inr d'"
    using assms by (simp add: createTask_def n fp m b1 b2 c Let_def)
  then obtain w e where w: "joinLineage conf c1 c2 ?d2 = Inr (w, e)"
    and rest: "rbind (jd_submit (jd_nextTask d) w c2 e) (\<lambda>(t, w, e).
      rbind (logOffsets conf (jd_nextTask d) w c2 e) (\<lambda>e.
      rbind (enqueue ops (Some t) (jd_workerQueue e)) (\<lambda>queue.
        Inr (moveStarts (e\<lparr>jd_workerQueue := queue\<rparr>))))) = Inr d'"
    by (rule rbind_pairE)
  then obtain t w' e1 where t: "jd_submit (jd_nextTask d) w c2 e = Inr (t, w', e1)"
    by (cases "jd_submit (jd_nextTask d) w c2 e") auto
  obtain e2 where e2: "logOffsets conf (jd_nextTask d) w' c2 e1 = Inr e2" using rest by (auto simp: t)
  obtain queue where queue: "enqueue ops (Some t) (jd_workerQueue e2) = Inr queue"
      "d' = moveStarts (e2\<lparr>jd_workerQueue := queue\<rparr>)" using rest by (auto simp: t e2)
  obtain g where w_eq: "w = c1\<lparr>wb_graph := g\<rparr>" using joinLineage_effect [OF w] by metis
  obtain s1 s2 f where e_eq: "e = ?d2\<lparr>jd_firstBuffer := (jd_firstBuffer ?d2)\<lparr>qb_slots := s1\<rparr>,
      jd_secondBuffer := (jd_secondBuffer ?d2)\<lparr>qb_slots := s2\<rparr>, jd_graphs := f\<rparr>"
    using joinLineage_effect [OF w] by blast
  obtain ts where e1_eq: "e1 = e\<lparr>jd_tasks := ts, jd_firstLastEndIndex := jd_firstEndIndex e,
      jd_secondLastEndIndex := jd_secondEndIndex e\<rparr>" using jd_submit_effect(1) [OF t] by metis
  obtain os where e2_eq: "e2 = e1\<lparr>jd_operators := os\<rparr>" using logOffsets_effect [OF e2] by metis
  have "join_moved d d'"
    by (simp add: join_moved_def queue(2) moveStarts_def Let_def e2_eq e1_eq e_eq)
  moreover have "jd_workerQueue e2 = jd_workerQueue d" "jd_workerQueue d' = queue"
    by (simp_all add: queue(2) moveStarts_def Let_def e2_eq e1_eq e_eq)
  moreover have "join_task af d t"
    using joinPointers_sel [OF c] wf_newInstance_sel [OF b1]
    by (simp add: join_task_def jd_submit_effect(2-5) [OF t] w_eq setTaskType_def)
  ultimately show ?thesis using queue(1) by auto
qed

section \<open>What assembling does\<close>

lemma jd_readLatencyMark_effect:
  assumes "jd_readLatencyMark conf idx d = Inr e"
  shows "e = d\<lparr>jd_latencyMark := jd_latencyMark e, jd_firstBuffer := jd_firstBuffer e\<rparr>"
    and "same_shape_buffer (jd_firstBuffer d) (jd_firstBuffer e)"
  using assms
  by (auto simp: jd_readLatencyMark_def jd_setTimestamp_def split: if_splits dest: setLong_shape)

text \<open>The insertion of tuples of the first stream before a task is tried: only that stream's side moves.\<close>

definition first_side :: "'q JoinTaskDispatcher \<Rightarrow> 'q JoinTaskDispatcher \<Rightarrow> bool" where
  "first_side d e \<longleftrightarrow> e = d\<lparr>jd_latencyMark := jd_latencyMark e, jd_firstBuffer := jd_firstBuffer e,
     jd_firstEndIndex := jd_firstEndIndex e, jd_firstToProcessCount := jd_firstToProcessCount e,
     jd_firstNextIndex := jd_firstNextIndex e, jd_firstNextTime := jd_firstNextTime e,
     jd_firstEndTime := jd_firstEndTime e\<rparr>"

definition second_side :: "'q JoinTaskDispatcher \<Rightarrow> 'q JoinTaskDispatcher \<Rightarrow> bool" where
  "second_side d e \<longleftrightarrow> e = d\<lparr>jd_secondEndIndex := jd_secondEndIndex e,
     jd_secondToProcessCount := jd_secondToProcessCount e, jd_secondNextIndex := jd_secondNextIndex e,
     jd_secondNextTime := jd_secondNextTime e, jd_secondEndTime := jd_secondEndTime e\<rparr>"

lemma assembleFirstE:
  assumes "assembleFirst conf ops idx len d = Inr d'"
  obtains e where "first_side d e" and "jd_tryTask conf ops True e = Inr d'"
proof -
  obtain d1 where d1: "jd_readLatencyMark conf idx d = Inr d1"
    using assms by (auto simp: assembleFirst_def)
  obtain m b where d1_eq: "d1 = d\<lparr>jd_latencyMark := m, jd_firstBuffer := b\<rparr>"
    using jd_readLatencyMark_effect(1) [OF d1] by blast
  obtain e c n t u where "jd_tryTask conf ops True (d1\<lparr>jd_firstEndIndex := e, jd_firstToProcessCount := c,
      jd_firstNextIndex := n, jd_firstNextTime := t, jd_firstEndTime := u\<rparr>) = Inr d'"
    using assms by (auto simp: assembleFirst_def d1 Let_def split: if_splits)
  then show thesis by (rule that [rotated]) (simp add: first_side_def d1_eq)
qed

lemma assembleSecondE:
  assumes "assembleSecond conf ops idx len d = Inr d'"
  obtains e where "second_side d e" and "jd_tryTask conf ops False e = Inr d'"
proof -
  obtain e c n t u where "jd_tryTask conf ops False (d\<lparr>jd_secondEndIndex := e, jd_secondToProcessCount := c,
      jd_secondNextIndex := n, jd_secondNextTime := t, jd_secondEndTime := u\<rparr>) = Inr d'"
    using assms by (auto simp: assembleSecond_def Let_def split: if_splits)
  then show thesis by (rule that [rotated]) (simp add: second_side_def)
qed

lemma createSymmetricTask_lists:
  assumes "createSymmetricTask conf ops af d = Inr d'"
  shows "jd_assembleId d' = jd_assembleId d \<and> jd_leftList d' = jd_leftList d \<and> jd_rightList d' = jd_rightList d"
proof -
  obtain n where n: "jd_getTaskNumber d = (jd_nextTask d, d\<lparr>jd_nextTask := n\<rparr>)"
    by (simp add: jd_getTaskNumber_def Let_def)
  obtain lat m where m: "jd_takeLatencyMark conf (d\<lparr>jd_nextTask := n\<rparr>) = (lat, d\<lparr>jd_nextTask := n, jd_latencyMark := m\<rparr>)"
    by (rule jd_takeLatencyMarkE [where d = "d\<lparr>jd_nextTask := n\<rparr>"])
  obtain i c1 c2 pool t w e queue where
      e: "jd_submit (jd_nextTask d) c1 c2 (d\<lparr>jd_nextTask := n, jd_latencyMark := m, jd_batches := pool\<rparr>) = Inr (t, w, e)"
    and d': "d' = e\<lparr>jd_workerQueue := queue, jd_firstToProcessCount := jd_firstToProcessCount d',
       jd_secondToProcessCount := jd_secondToProcessCount d', jd_firstStartIndex := jd_firstStartIndex d',
       jd_secondStartIndex := jd_secondStartIndex d'\<rparr>"
    using assms by (auto simp: createSymmetricTask_def n m Let_def split: if_splits prod.splits)
  have "jd_assembleId e = jd_assembleId d \<and> jd_leftList e = jd_leftList d \<and> jd_rightList e = jd_rightList d"
    by (subst (1 2 3) jd_submit_effect(1) [OF e]) simp
  then show ?thesis by (subst (1 2 3) d') simp
qed

lemma jd_tryTask_lists:
  assumes "jd_tryTask conf ops af d = Inr d'"
  shows "jd_assembleId d' = jd_assembleId d \<and> jd_leftList d' = jd_leftList d \<and> jd_rightList d' = jd_rightList d"
  using assms createTask_effect [of conf ops af d d'] createSymmetricTask_lists [of conf ops af d d']
  by (auto simp: jd_tryTask_def join_moved_def Let_def split: if_splits)

lemma assembleFirst_lists:
  assumes "assembleFirst conf ops idx len d = Inr d'"
  shows "jd_assembleId d' = jd_assembleId d \<and> jd_leftList d' = jd_leftList d \<and> jd_rightList d' = jd_rightList d"
proof -
  obtain e where e: "first_side d e" "jd_tryTask conf ops True e = Inr d'" using assms by (rule assembleFirstE)
  have "jd_assembleId e = jd_assembleId d \<and> jd_leftList e = jd_leftList d \<and> jd_rightList e = jd_rightList d"
    by (subst (1 2 3) e(1) [unfolded first_side_def]) simp
  with jd_tryTask_lists [OF e(2)] show ?thesis by simp
qed

lemma assembleSecond_lists:
  assumes "assembleSecond conf ops idx len d = Inr d'"
  shows "jd_assembleId d' = jd_assembleId d \<and> jd_leftList d' = jd_leftList d \<and> jd_rightList d' = jd_rightList d"
proof -
  obtain e where e: "second_side d e" "jd_tryTask conf ops False e = Inr d'" using assms by (rule assembleSecondE)
  have "jd_assembleId e = jd_assembleId d \<and> jd_leftList e = jd_leftList d \<and> jd_rightList e = jd_rightList d"
    by (subst (1 2 3) e(1) [unfolded second_side_def]) simp
  with jd_tryTask_lists [OF e(2)] show ?thesis by simp
qed

section \<open>Serial insertions\<close>

text \<open>The insertions that \<open>tryAssembleTask\<close> may assemble now: a prefix of the waiting ones.\<close>

definition admitted :: "nat \<Rightarrow> CircularTaskList \<Rightarrow> SerialTask list" where
  "admitted i l = takeWhile (\<lambda>t. st_id t \<le> i) (ct_tasks l)"

lemma front_pop:
  assumes "ct_inv l"
  shows "ct_tasks l = [] \<longleftrightarrow> \<not> 0 < ct_elements l"
    and "ct_tasks l = t # ts \<Longrightarrow> front l = Inr (Some t) \<and> ct_inv (pop_front l) \<and> ct_tasks (pop_front l) = ts"
  using assms ct_tasks_Nil [OF assms] ct.first_law [OF assms] ct.drop_law [OF assms]
  by (auto simp: ct_inv_def)

lemma assembleLeft_eq:
  assumes "ct_inv l"
  shows "assembleLeft conf ops l d =
    rbind (rfold (\<lambda>t. assembleFirst conf ops (st_idx t) (st_length t)) (admitted (jd_assembleId d) l) d)
      (\<lambda>d'. Inr ((pop_front ^^ length (admitted (jd_assembleId d) l)) l, d'))"
  using assms
proof (induction "length (ct_tasks l)" arbitrary: l d)
  case 0
  then have "ct_tasks l = []" "\<not> 0 < ct_elements l" using front_pop(1) [OF 0(2)] by auto
  then show ?case by (simp add: assembleLeft.simps admitted_def)
next
  case (Suc n)
  obtain t ts where t: "ct_tasks l = t # ts" using Suc(2) by (cases "ct_tasks l") auto
  have pos: "0 < ct_elements l" using front_pop(1) [OF Suc(3)] t by simp
  note pop = front_pop(2) [OF Suc(3) t]
  show ?case
  proof (cases "st_id t \<le> jd_assembleId d")
    case False
    then show ?thesis using pos pop t by (simp add: assembleLeft.simps admitted_def)
  next
    case True
    then have adm: "admitted (jd_assembleId d) l = t # admitted (jd_assembleId d) (pop_front l)"
      using t pop by (simp add: admitted_def)
    show ?thesis
    proof (cases "assembleFirst conf ops (st_idx t) (st_length t) d")
      case (Inl e)
      then show ?thesis using pos pop True adm by (simp add: assembleLeft.simps)
    next
      case (Inr d1)
      then have "jd_assembleId d1 = jd_assembleId d" using assembleFirst_lists by blast
      then show ?thesis
        using Suc(1) [of "pop_front l" d1] Suc(2) pos pop True adm t Inr
        by (simp add: assembleLeft.simps [of conf ops l d] funpow_swap1)
    qed
  qed
qed

text \<open>The loop over the right list moves on to the next id when it stops before the end.\<close>

definition bumpId :: "bool \<Rightarrow> 'q JoinTaskDispatcher \<Rightarrow> 'q JoinTaskDispatcher" where
  "bumpId left d = (if left then d\<lparr>jd_assembleId := (jd_assembleId d + 1) mod 2 ^ 64\<rparr> else d)"

lemma assembleRight_eq:
  assumes "ct_inv l"
  shows "assembleRight conf ops l d =
    rbind (rfold (\<lambda>t. assembleSecond conf ops (st_idx t) (st_length t)) (admitted (jd_assembleId d) l) d)
      (\<lambda>d'. Inr ((pop_front ^^ length (admitted (jd_assembleId d) l)) l,
                 bumpId (admitted (jd_assembleId d) l \<noteq> ct_tasks l) d'))"
  using assms
proof (induction "length (ct_tasks l)" arbitrary: l d)
  case 0
  then have "ct_tasks l = []" "\<not> 0 < ct_elements l" using front_pop(1) [OF 0(2)] by auto
  then show ?case by (simp add: assembleRight.simps admitted_def bumpId_def)
next
  case (Suc n)
  obtain t ts where t: "ct_tasks l = t # ts" using Suc(2) by (cases "ct_tasks l") auto
  have pos: "0 < ct_elements l" using front_pop(1) [OF Suc(3)] t by simp
  note pop = front_pop(2) [OF Suc(3) t]
  show ?case
  proof (cases "st_id t \<le> jd_assembleId d")
    case False
    then show ?thesis using pos pop t by (simp add: assembleRight.simps admitted_def bumpId_def)
  next
    case True
    then have adm: "admitted (jd_assembleId d) l = t # admitted (jd_assembleId d) (pop_front l)"
      using t pop by (simp add: admitted_def)
    show ?thesis
    proof (cases "assembleSecond conf ops (st_idx t) (st_length t) d")
      case (Inl e)
      then show ?thesis using pos pop True adm by (simp add: assembleRight.simps)
    next
      case (Inr d1)
      then have "jd_assembleId d1 = jd_assembleId d" using assembleSecond_lists by blast
      then show ?thesis
        using Suc(1) [of "pop_front l" d1] Suc(2) pos pop True adm t Inr
        by (simp add: assembleRight.simps [of conf ops l d] funpow_swap1)
    qed
  qed
qed

lemma admitted_rest:
  assumes "ct_inv l"
  shows "ct_inv ((pop_front ^^ length (admitted i l)) l)
    \<and> ct_tasks ((pop_front ^^ length (admitted i l)) l) = dropWhile (\<lambda>t. st_id t \<le> i) (ct_tasks l)"
proof -
  have "length (admitted i l) \<le> length (ct_tasks l)" by (simp add: admitted_def length_takeWhile_le)
  with ct.drop_many [OF assms] show ?thesis by (simp add: admitted_def dropWhile_eq_drop)
qed

lemma admitted_all: "admitted i l = ct_tasks l \<longleftrightarrow> dropWhile (\<lambda>t. st_id t \<le> i) (ct_tasks l) = []"
  by (metis admitted_def append_self_conv takeWhile_dropWhile_id takeWhile_eq_all_conv dropWhile_eq_Nil_conv)

lemma rfold_keeps:
  assumes "rfold f xs s = Inr s'" and "\<And>x s s'. f x s = Inr s' \<Longrightarrow> P s' = P s"
  shows "P s' = P s"
  using rfold_invariant [OF assms(1), of "\<lambda>u. P u = P s"] assms(2) by metis

lemma assembleAll_keeps:
  "rfold (\<lambda>t. assembleFirst conf ops (st_idx t) (st_length t)) ts d = Inr d' \<Longrightarrow>
     (jd_assembleId d', jd_leftList d', jd_rightList d') = (jd_assembleId d, jd_leftList d, jd_rightList d)"
  "rfold (\<lambda>t. assembleSecond conf ops (st_idx t) (st_length t)) ts d = Inr d' \<Longrightarrow>
     (jd_assembleId d', jd_leftList d', jd_rightList d') = (jd_assembleId d, jd_leftList d, jd_rightList d)"
  by (erule rfold_keeps, use assembleFirst_lists in blast)
    (erule rfold_keeps, use assembleSecond_lists in blast)

text \<open>
  C17. Serial insertions are assembled in the order in which they were queued: \<open>tryAssembleTask\<close>
  assembles, for each stream, the longest prefix of the waiting insertions whose ids are due, keeps
  the rest waiting in order, and lets the next id become due exactly when insertions of the second
  stream are left.
\<close>

theorem serial_in_order:
  assumes "ct_inv (jd_leftList d)" and "ct_inv (jd_rightList d)" and "tryAssembleTask conf ops d = Inr d'"
  defines "due \<equiv> \<lambda>t. st_id t \<le> jd_assembleId d"
  shows "\<exists>d1 d2 l. rfold (\<lambda>t. assembleFirst conf ops (st_idx t) (st_length t)) (takeWhile due (ct_tasks (jd_leftList d))) d = Inr d1
    \<and> rfold (\<lambda>t. assembleSecond conf ops (st_idx t) (st_length t)) (takeWhile due (ct_tasks (jd_rightList d)))
        (d1\<lparr>jd_leftList := l\<rparr>) = Inr d2
    \<and> jd_workerQueue d' = jd_workerQueue d2
    \<and> ct_inv (jd_leftList d') \<and> ct_tasks (jd_leftList d') = dropWhile due (ct_tasks (jd_leftList d))
    \<and> ct_inv (jd_rightList d') \<and> ct_tasks (jd_rightList d') = dropWhile due (ct_tasks (jd_rightList d))
    \<and> jd_assembleId d' = (if dropWhile due (ct_tasks (jd_rightList d)) = [] then jd_assembleId d
                           else (jd_assembleId d + 1) mod 2 ^ 64)"
proof -
  let ?i = "jd_assembleId d" and ?l = "jd_leftList d" and ?r = "jd_rightList d"
  let ?l' = "(pop_front ^^ length (admitted ?i ?l)) ?l" and ?r' = "(pop_front ^^ length (admitted ?i ?r)) ?r"
  obtain d1 where d1: "rfold (\<lambda>t. assembleFirst conf ops (st_idx t) (st_length t)) (admitted ?i ?l) d = Inr d1"
    and rest: "rbind (assembleRight conf ops (jd_rightList d1) (d1\<lparr>jd_leftList := ?l'\<rparr>)) (\<lambda>(l, d).
       Inr (d\<lparr>jd_rightList := l\<rparr>)) = Inr d'"
    using assms(3) by (auto simp: tryAssembleTask_def assembleLeft_eq [OF assms(1)])
  have keep1: "jd_assembleId d1 = ?i" "jd_rightList d1 = ?r" using assembleAll_keeps(1) [OF d1] by auto
  obtain d2 where d2: "rfold (\<lambda>t. assembleSecond conf ops (st_idx t) (st_length t)) (admitted ?i ?r)
      (d1\<lparr>jd_leftList := ?l'\<rparr>) = Inr d2"
    and d': "d' = (bumpId (admitted ?i ?r \<noteq> ct_tasks ?r) d2)\<lparr>jd_rightList := ?r'\<rparr>"
    using rest by (auto simp: keep1 assembleRight_eq [OF assms(2)])
  have keep2: "jd_assembleId d2 = ?i" "jd_leftList d2 = ?l'" using assembleAll_keeps(2) [OF d2] keep1 by auto
  have "jd_workerQueue d' = jd_workerQueue d2" "jd_leftList d' = ?l'" "jd_rightList d' = ?r'"
    by (simp_all add: d' bumpId_def keep2)
  moreover have "jd_assembleId d' = (if dropWhile due (ct_tasks ?r) = [] then ?i else (?i + 1) mod 2 ^ 64)"
    by (simp add: d' bumpId_def keep2 admitted_all due_def)
  ultimately show ?thesis
    using d1 d2 admitted_rest [OF assms(1), of ?i] admitted_rest [OF assms(2), of ?i]
    by (intro exI [of _ d1] exI [of _ d2] exI [of _ ?l']) (simp add: admitted_def due_def)
qed

section \<open>The pairs of tuples the batches of a task span\<close>

definition tuples :: "int \<Rightarrow> int \<Rightarrow> int \<Rightarrow> int set" where
  "tuples ts p q = {i. p \<le> i \<and> i \<le> q \<and> ts dvd i - p}"

definition batch_tuples :: "int \<Rightarrow> WindowBatch \<Rightarrow> int set" where
  "batch_tuples ts wb = tuples ts (wb_startPointer wb) (wb_endPointer wb)"

definition task_pairs :: "int \<Rightarrow> int \<Rightarrow> Task \<Rightarrow> (int \<times> int) set" where
  "task_pairs ts1 ts2 t =
     (case (tk_leftBatch t, tk_rightBatch t) of
        (Some b1, Some b2) \<Rightarrow> batch_tuples ts1 b1 \<times> batch_tuples ts2 b2
      | _ \<Rightarrow> {})"

definition side_ok :: "int \<Rightarrow> int \<Rightarrow> int \<Rightarrow> int \<Rightarrow> bool" where
  "side_ok ts start lastEnd end' \<longleftrightarrow> 0 < ts \<and> start \<le> lastEnd + ts \<and> lastEnd \<le> end' \<and> start \<le> end'
     \<and> ts dvd lastEnd - start \<and> ts dvd end' - start"

definition jd_ordered :: "'q JoinTaskDispatcher \<Rightarrow> bool" where
  "jd_ordered d \<longleftrightarrow>
     side_ok (jd_firstTupleSize d) (jd_firstStartIndex d) (jd_firstLastEndIndex d) (jd_firstEndIndex d)
     \<and> side_ok (jd_secondTupleSize d) (jd_secondStartIndex d) (jd_secondLastEndIndex d) (jd_secondEndIndex d)"


definition old_pairs :: "'q JoinTaskDispatcher \<Rightarrow> (int \<times> int) set" where
  "old_pairs d = tuples (jd_firstTupleSize d) (jd_firstStartIndex d) (jd_firstLastEndIndex d)
     \<times> tuples (jd_secondTupleSize d) (jd_secondStartIndex d) (jd_secondLastEndIndex d)"

lemma tuples_new:
  assumes "side_ok ts s l e"
  shows "tuples ts (l + ts) e = tuples ts s e - tuples ts s l" and "tuples ts s l \<subseteq> tuples ts s e"
proof -
  have a: "0 < ts" "s \<le> l + ts" "l \<le> e" "ts dvd l - s" using assms by (auto simp: side_ok_def)
  have dvd: "ts dvd i - (l + ts) \<longleftrightarrow> ts dvd i - s" for i
  proof -
    have "i - s = (i - (l + ts)) + ((l - s) + ts)" by simp
    moreover have "ts dvd (l - s) + ts" using a(4) by simp
    ultimately show ?thesis by (metis dvd_add_left_iff)
  qed
  have "i \<le> l" if "ts dvd i - s" "\<not> l + ts \<le> i" for i
  proof (rule ccontr)
    assume "\<not> i \<le> l"
    moreover have "ts dvd (i - s) - (l - s)" using that(1) a(4) by (rule dvd_diff)
    ultimately have "ts \<le> i - l" by (intro zdvd_imp_le) auto
    with that(2) show False by simp
  qed
  then show "tuples ts (l + ts) e = tuples ts s e - tuples ts s l"
    using a by (auto simp: tuples_def dvd)
  show "tuples ts s l \<subseteq> tuples ts s e" using a(3) by (auto simp: tuples_def)
qed

lemma join_task_pairs_eq:
  assumes "join_task af d t" and "jd_ordered d"
  shows "task_pairs (jd_firstTupleSize d) (jd_secondTupleSize d) t =
    (if af then tuples (jd_firstTupleSize d) (jd_firstLastEndIndex d + jd_firstTupleSize d) (jd_firstEndIndex d)
               \<times> tuples (jd_secondTupleSize d) (jd_secondStartIndex d) (jd_secondEndIndex d)
     else tuples (jd_firstTupleSize d) (jd_firstStartIndex d) (jd_firstEndIndex d)
          \<times> tuples (jd_secondTupleSize d) (jd_secondLastEndIndex d + jd_secondTupleSize d) (jd_secondEndIndex d))"
  using assms
  by (auto simp: join_task_def task_pairs_def batch_tuples_def jd_ordered_def side_ok_def normaliseIndex_def
      split: if_splits)

lemma enqueue_log: "queue_ok ops log \<Longrightarrow> enqueue ops t q = Inr q' \<Longrightarrow> log q' = log q @ [t]"
  using enqueue_spin_log by (simp add: enqueue_Inr)


section \<open>Closing windows\<close>

lemma rowNext_first:
  assumes "0 < step"
  shows "\<exists>k. rowNext width step e n = Inr (n + int k * step) \<and> e \<le> n + int k * step + width
    \<and> (\<forall>j < k. n + int j * step + width < e)"
  using assms
proof (induction width step e n rule: rowNext.induct)
  case (1 width step e n)
  show ?case
  proof (cases "n + width < e")
    case True
    then obtain k where k: "rowNext width step e (n + step) = Inr (n + step + int k * step)"
        "e \<le> n + step + int k * step + width" "\<forall>j < k. n + step + int j * step + width < e"
      using 1 by auto
    have "n + int j * step + width < e" if "j < Suc k" for j
      using that True k(3) by (cases j) (auto simp: algebra_simps)
    then show ?thesis
      using True k(1,2) 1(2) by (intro exI [of _ "Suc k"]) (simp add: rowNext.simps [of width step e n] algebra_simps)
  next
    case False
    then show ?thesis by (intro exI [of _ 0]) (simp add: rowNext.simps [of width step e n])
  qed
qed

lemma closeWindows_row:
  assumes "isRowBased w" and "wd_wf w" and "0 < ts"
  shows "\<exists>k. closeWindows conf b w ts e (n, t, u) = Inr (n + int k * (ts * wd_slide w), t, u)
    \<and> e \<le> n + int k * (ts * wd_slide w) + wd_size w * ts
    \<and> (\<forall>j < k. n + int j * (ts * wd_slide w) + wd_size w * ts < e)"
proof -
  have "0 < ts * wd_slide w" using assms(2,3) by (simp add: wd_wf_def)
  from rowNext_first [OF this, of "wd_size w * ts" e n] show ?thesis
    using assms(1) by (auto simp: closeWindows_def)
qed

text \<open>
  C18. With a row-based window, the start of the oldest open window moves by whole slides to the
  first window that ends at or after the last tuple: windows that ended before it are closed, and
  no other one is. The loop ends for every window definition the constructor accepts.
\<close>

theorem join_closes_row_windows:
  assumes "isRowBased w" and "wd_wf w" and "0 < ts"
  shows "\<exists>k. closeWindows conf b w ts e (n, t, u) = Inr (n + int k * (ts * wd_slide w), t, u)
    \<and> e \<le> n + int k * (ts * wd_slide w) + wd_size w * ts
    \<and> (\<forall>j < k. n + int j * (ts * wd_slide w) + wd_size w * ts < e)"
  using assms by (rule closeWindows_row)

text \<open>For a range-based window: the first tuple within a window of the last tuple, or the last one.\<close>

lemma rangeNext_first:
  assumes "0 < ts" and "\<And>i. \<exists>v. jd_getTimestamp conf b i = Inr v" and "ts dvd e - n" and "n \<le> e"
  shows "\<exists>k t'. rangeNext conf b width ts e et n t = Inr (n + int k * ts, t') \<and> n + int k * ts \<le> e
    \<and> (k = 0 \<longrightarrow> t' = t) \<and> (0 < k \<longrightarrow> jd_getTimestamp conf b (to_int32 (n + int k * ts)) = Inr t')
    \<and> (et \<le> t' + width \<or> n + int k * ts = e)"
  using assms
proof (induction conf b width ts e et n t rule: rangeNext.induct)
  case (1 conf b width ts e et n t)
  show ?case
  proof (cases "t + width < et \<and> n < e")
    case True
    obtain v where v: "jd_getTimestamp conf b (to_int32 (n + ts)) = Inr v" using 1(3) by blast
    have dvd: "ts dvd e - (n + ts)" using 1(4) by (metis diff_diff_add dvd_diff dvd_refl)
    have "ts \<le> e - n" using 1(4) True by (intro zdvd_imp_le) auto
    then obtain k t' where k: "rangeNext conf b width ts e et (n + ts) v = Inr (n + ts + int k * ts, t')"
        "n + ts + int k * ts \<le> e" "k = 0 \<longrightarrow> t' = v"
        "0 < k \<longrightarrow> jd_getTimestamp conf b (to_int32 (n + ts + int k * ts)) = Inr t'"
        "et \<le> t' + width \<or> n + ts + int k * ts = e"
      using 1(1) [OF True _ v 1(2,3) dvd] 1(2) by fastforce
    then have "rangeNext conf b width ts e et n t = Inr (n + int (Suc k) * ts, t')"
      using True v 1(2) by (subst rangeNext.simps) (simp add: algebra_simps)
    then show ?thesis
      using k v by (intro exI [of _ "Suc k"] exI [of _ t']) (cases "k = 0"; simp add: algebra_simps)
  next
    case False
    then show ?thesis
      using 1(5) by (intro exI [of _ 0] exI [of _ t]) (subst rangeNext.simps; auto)
  qed
qed

lemma jd_getTimestamp_ok: "qb_inv b \<Longrightarrow> 8 \<le> qb_capacity b \<Longrightarrow> \<exists>v. jd_getTimestamp conf b i = Inr v"
  using getLong_ok [of b "wrapIndex b i"] by (auto simp: jd_getTimestamp_def)

lemma rangeNext_moves:
  assumes "rangeNext conf b width ts e et n t = Inr (n', t')" and "0 < ts" and "n \<le> e" and "ts dvd e - n"
  shows "n \<le> n' \<and> n' \<le> e \<and> ts dvd n' - n"
  using assms
proof (induction conf b width ts e et n t rule: rangeNext.induct)
  case (1 conf b width ts e et n t)
  show ?case
  proof (cases "t + width < et \<and> n < e")
    case True
    then obtain v where v: "jd_getTimestamp conf b (to_int32 (n + ts)) = Inr v"
        "rangeNext conf b width ts e et (n + ts) v = Inr (n', t')"
      using 1(2,3) by (auto simp: rangeNext.simps [of conf b width ts e et n t] split: sum.splits)
    have "ts dvd e - (n + ts)" using 1(5) by (metis diff_diff_add dvd_diff dvd_refl)
    moreover have "ts \<le> e - n" using 1(5) True by (intro zdvd_imp_le) auto
    ultimately have IH: "n + ts \<le> n' \<and> n' \<le> e \<and> ts dvd n' - (n + ts)"
      using 1(1) [OF True _ v(1,2) 1(3)] 1(3) by simp
    then have "ts dvd n' - (n + ts) + ts" by (intro dvd_add) simp_all
    then show ?thesis using IH 1(3) by simp
  next
    case False
    then show ?thesis using 1(2,4) by (auto simp: rangeNext.simps [of conf b width ts e et n t] split: if_splits)
  qed
qed

section \<open>The pairs of all tasks of a run\<close>

text \<open>
  A run from the creation of the dispatcher: tuples of either stream are inserted one after the other,
  as long as the buffers are not full for the first time (\<open>join_stale_end\<close> is what happens after). Next
  to the dispatcher, a state has the number of bytes inserted into each buffer and the pairs that the
  tasks so far left out: a task combines the new tuples of the stream that triggers it with the open
  windows of the other stream, so that it leaves out the pairs of an old tuple of the stream that
  triggers it and a new tuple of the other one.
\<close>

definition missed :: "bool \<Rightarrow> 'q JoinTaskDispatcher \<Rightarrow> (int \<times> int) set" where
  "missed assembledFirst d =
     (if assembledFirst
      then tuples (jd_firstTupleSize d) (jd_firstStartIndex d) (jd_firstLastEndIndex d)
           \<times> tuples (jd_secondTupleSize d) (jd_secondLastEndIndex d + jd_secondTupleSize d) (jd_secondEndIndex d)
      else tuples (jd_firstTupleSize d) (jd_firstLastEndIndex d + jd_firstTupleSize d) (jd_firstEndIndex d)
           \<times> tuples (jd_secondTupleSize d) (jd_secondStartIndex d) (jd_secondLastEndIndex d))"

type_synonym 'q join_state = "'q JoinTaskDispatcher \<times> int \<times> int \<times> (int \<times> int) set"

inductive join_step ::
  "SystemConf \<Rightarrow> 'q queue_ops \<Rightarrow> ('q \<Rightarrow> Task option list) \<Rightarrow> 'q join_state \<Rightarrow> 'q join_state \<Rightarrow> bool"
  for conf :: SystemConf and ops :: "'q queue_ops" and log :: "'q \<Rightarrow> Task option list" where
  first_step: "assembleFirst conf ops n1 len d = Inr d' \<Longrightarrow> 0 < len \<Longrightarrow> jd_firstTupleSize d dvd len \<Longrightarrow>
     n1 + len \<le> jd_mask d + 1 \<Longrightarrow>
     join_step conf ops log (d, n1, n2, M) (d', n1 + len, n2,
       if log (jd_workerQueue d') = log (jd_workerQueue d) then M else M \<union> missed True d)"
| second_step: "assembleSecond conf ops n2 len d = Inr d' \<Longrightarrow> 0 < len \<Longrightarrow> jd_secondTupleSize d dvd len \<Longrightarrow>
     n2 + len \<le> jd_mask d + 1 \<Longrightarrow>
     join_step conf ops log (d, n1, n2, M) (d', n1, n2 + len,
       if log (jd_workerQueue d') = log (jd_workerQueue d) then M else M \<union> missed False d)"

text \<open>The number of tasks that span a pair.\<close>

definition spans :: "int \<Rightarrow> int \<Rightarrow> Task option list \<Rightarrow> int \<times> int \<Rightarrow> nat" where
  "spans ts1 ts2 q x = length (filter (\<lambda>t. case t of Some t \<Rightarrow> x \<in> task_pairs ts1 ts2 t | None \<Rightarrow> False) q)"

text \<open>The pointers of one stream after \<open>n\<close> bytes, and the whole state.\<close>

definition side_inv :: "int \<Rightarrow> int \<Rightarrow> int \<Rightarrow> int \<Rightarrow> int \<Rightarrow> int \<Rightarrow> int \<Rightarrow> bool" where
  "side_inv ts start next lastEnd end' count n \<longleftrightarrow> 0 < ts \<and> 0 \<le> start \<and> start \<le> next
     \<and> ts dvd start \<and> ts dvd next \<and> ts dvd lastEnd \<and> ts dvd n \<and> start \<le> lastEnd + ts \<and> lastEnd + ts \<le> n
     \<and> (n = 0 \<and> next = 0 \<and> count = 0 \<or> next + ts \<le> n \<and> end' + ts = n)"

definition join_inv :: "('q \<Rightarrow> Task option list) \<Rightarrow> int \<Rightarrow> int \<Rightarrow> 'q join_state \<Rightarrow> bool" where
  "join_inv log ts1 ts2 = (\<lambda>(d, n1, n2, M).
     jd_firstTupleSize d = ts1 \<and> jd_secondTupleSize d = ts2 \<and> \<not> jd_symmetric d
     \<and> wd_wf (jd_firstWindow d) \<and> wd_wf (jd_secondWindow d) \<and> n1 \<le> jd_mask d + 1 \<and> n2 \<le> jd_mask d + 1
     \<and> side_inv ts1 (jd_firstStartIndex d) (jd_firstNextIndex d) (jd_firstLastEndIndex d) (jd_firstEndIndex d)
          (jd_firstToProcessCount d) n1
     \<and> side_inv ts2 (jd_secondStartIndex d) (jd_secondNextIndex d) (jd_secondLastEndIndex d) (jd_secondEndIndex d)
          (jd_secondToProcessCount d) n2
     \<and> (\<forall>x. x \<in> M \<or> spans ts1 ts2 (log (jd_workerQueue d)) x \<noteq> 0 \<longrightarrow>
          fst x \<le> jd_firstLastEndIndex d \<and> snd x \<le> jd_secondLastEndIndex d)
     \<and> (\<forall>x \<in> old_pairs d. spans ts1 ts2 (log (jd_workerQueue d)) x = (if x \<in> M then 0 else 1)))"

lemma closeWindows_moves:
  assumes "closeWindows conf b w ts e (n, t, u) = Inr (n', t', u')" and "wd_wf w" and "0 < ts"
    and "n \<le> e" and "ts dvd e - n"
  shows "n \<le> n' \<and> n' \<le> e \<and> ts dvd n' - n"
proof (cases "isRowBased w")
  case True
  let ?step = "ts * wd_slide w"
  obtain k where k: "n' = n + int k * ?step" "\<forall>j < k. n + int j * ?step + wd_size w * ts < e"
    using closeWindows_row [OF True assms(2,3), of conf b e n t u] assms(1) by auto
  have step: "0 < ?step" "?step \<le> wd_size w * ts" using assms(2,3) by (auto simp: wd_wf_def mult.commute)
  have "n' \<le> e"
  proof (cases k)
    case (Suc j)
    then have "n + int j * ?step + wd_size w * ts < e" using k(2) by simp
    then show ?thesis using k(1) Suc step(2) by (simp add: algebra_simps)
  qed (use k(1) assms(4) in simp)
  then show ?thesis using k(1) step(1) by simp
next
  case False
  then obtain t1 t2 where "rangeNext conf b (wd_size w) ts e t2 n t1 = Inr (n', t')"
    using assms(1) by (auto simp: closeWindows_def split: if_splits elim!: rbind_pairE)
  then show ?thesis using rangeNext_moves [OF _ assms(3-5)] by blast
qed

text \<open>New tuples at the end of what has arrived.\<close>

lemma side_inv_insert:
  assumes inv: "side_inv ts start next lastEnd end' count n" and len: "0 < len" "ts dvd len"
    and "wd_wf w" and close: "closeWindows conf b w ts (n + len - ts) (next, t, u) = Inr (next', t', u')"
  shows "start \<le> n + len - ts" and "side_inv ts start next' lastEnd (n + len - ts) count' (n + len)"
proof -
  have i: "0 < ts" "0 \<le> start" "start \<le> next" "ts dvd start" "ts dvd next" "ts dvd lastEnd" "ts dvd n"
      "start \<le> lastEnd + ts" "lastEnd + ts \<le> n" "n = 0 \<and> next = 0 \<or> next + ts \<le> n"
    using inv by (auto simp: side_inv_def)
  have "ts \<le> len" using len by (intro zdvd_imp_le)
  then have le: "next \<le> n + len - ts" using i(1,10) by auto
  have "ts dvd n + len - ts - next" using i(5,7) len(2) by (intro dvd_diff dvd_add) simp_all
  from closeWindows_moves [OF close assms(4) i(1) le this]
  have m: "next \<le> next'" "next' \<le> n + len - ts" "ts dvd next' - next" by auto
  have "ts dvd next'" using m(3) i(5) by (metis diff_add_cancel dvd_add)
  then show "side_inv ts start next' lastEnd (n + len - ts) count' (n + len)"
    using i m(1,2) len by (simp add: side_inv_def)
  show "start \<le> n + len - ts" using i(3) le by simp
qed

lemma assembleFirst_insert:
  assumes "assembleFirst conf ops n1 len d = Inr d'" and "join_inv log ts1 ts2 (d, n1, n2, M)"
    and "0 < len" "ts1 dvd len"
  obtains e where "first_side d e" and "jd_tryTask conf ops True e = Inr d'"
    and "side_inv ts1 (jd_firstStartIndex d) (jd_firstNextIndex e) (jd_firstLastEndIndex d) (jd_firstEndIndex e)
           (jd_firstToProcessCount e) (n1 + len)"
proof -
  have ts: "jd_firstTupleSize d = ts1" and wf: "wd_wf (jd_firstWindow d)"
    and inv: "side_inv ts1 (jd_firstStartIndex d) (jd_firstNextIndex d) (jd_firstLastEndIndex d) (jd_firstEndIndex d)
          (jd_firstToProcessCount d) n1" using assms(2) by (auto simp: join_inv_def)
  obtain d1 where d1: "jd_readLatencyMark conf n1 d = Inr d1" using assms(1) by (auto simp: assembleFirst_def)
  obtain m b where d1_eq: "d1 = d\<lparr>jd_latencyMark := m, jd_firstBuffer := b\<rparr>"
    using jd_readLatencyMark_effect(1) [OF d1] by blast
  have "jd_firstStartIndex d \<le> n1 + len - ts1"
  proof -
    have "ts1 \<le> len" using assms(3,4) by (intro zdvd_imp_le)
    then show ?thesis using inv by (auto simp: side_inv_def)
  qed
  then obtain c next' t' u' where
      close: "closeWindows conf b (jd_firstWindow d) ts1 (n1 + len - ts1)
        (jd_firstNextIndex d, jd_firstNextTime d, jd_firstEndTime d) = Inr (next', t', u')"
    and task: "jd_tryTask conf ops True (d1\<lparr>jd_firstEndIndex := n1 + len - ts1, jd_firstToProcessCount := c,
      jd_firstNextIndex := next', jd_firstNextTime := t', jd_firstEndTime := u'\<rparr>) = Inr d'"
    using assms(1) ts by (auto simp: assembleFirst_def d1 d1_eq Let_def split: if_splits)
  from that [OF _ task] side_inv_insert(2) [OF inv assms(3,4) wf close] show thesis
    by (simp add: first_side_def d1_eq)
qed

lemma assembleSecond_insert:
  assumes "assembleSecond conf ops n2 len d = Inr d'" and "join_inv log ts1 ts2 (d, n1, n2, M)"
    and "0 < len" "ts2 dvd len"
  obtains e where "second_side d e" and "jd_tryTask conf ops False e = Inr d'"
    and "side_inv ts2 (jd_secondStartIndex d) (jd_secondNextIndex e) (jd_secondLastEndIndex d) (jd_secondEndIndex e)
           (jd_secondToProcessCount e) (n2 + len)"
proof -
  have ts: "jd_secondTupleSize d = ts2" and wf: "wd_wf (jd_secondWindow d)"
    and inv: "side_inv ts2 (jd_secondStartIndex d) (jd_secondNextIndex d) (jd_secondLastEndIndex d) (jd_secondEndIndex d)
          (jd_secondToProcessCount d) n2" using assms(2) by (auto simp: join_inv_def)
  have "jd_secondStartIndex d \<le> n2 + len - ts2"
  proof -
    have "ts2 \<le> len" using assms(3,4) by (intro zdvd_imp_le)
    then show ?thesis using inv by (auto simp: side_inv_def)
  qed
  then obtain c next' t' u' where
      close: "closeWindows conf (jd_secondBuffer d) (jd_secondWindow d) ts2 (n2 + len - ts2)
        (jd_secondNextIndex d, jd_secondNextTime d, jd_secondEndTime d) = Inr (next', t', u')"
    and task: "jd_tryTask conf ops False (d\<lparr>jd_secondEndIndex := n2 + len - ts2, jd_secondToProcessCount := c,
      jd_secondNextIndex := next', jd_secondNextTime := t', jd_secondEndTime := u'\<rparr>) = Inr d'"
    using assms(1) ts by (auto simp: assembleSecond_def Let_def split: if_splits)
  from that [OF _ task] side_inv_insert(2) [OF inv assms(3,4) wf close] show thesis
    by (simp add: second_side_def)
qed

lemma side_inv_task:
  assumes "side_inv ts start next lastEnd end' count n" and "0 < count"
  shows "side_ok ts start lastEnd end'" and "side_inv ts next next end' end' count' n" and "next < n" and "start \<le> next"
proof -
  have i: "0 < ts" "0 \<le> start" "start \<le> next" "ts dvd start" "ts dvd next" "ts dvd lastEnd" "ts dvd n"
      "start \<le> lastEnd + ts" "lastEnd + ts \<le> n" "next + ts \<le> n" "end' + ts = n"
    using assms by (auto simp: side_inv_def)
  have "ts dvd end'" using i(7,11) by (metis dvd_add_left_iff dvd_refl)
  then show "side_ok ts start lastEnd end'" "side_inv ts next next end' end' count' n" "next < n" "start \<le> next"
    using i by (auto simp: side_ok_def side_inv_def)
qed

lemma spans_snoc:
  "spans ts1 ts2 (q @ [Some t]) x = spans ts1 ts2 q x + (if x \<in> task_pairs ts1 ts2 t then 1 else 0)"
  by (simp add: spans_def)

lemma tuples_later: "0 < ts \<Longrightarrow> ts dvd p \<Longrightarrow> ts dvd p' \<Longrightarrow> p \<le> p' \<Longrightarrow> tuples ts p' q \<subseteq> tuples ts p q"
proof
  fix i
  assume *: "0 < ts" "ts dvd p" "ts dvd p'" "p \<le> p'" "i \<in> tuples ts p' q"
  then have "ts dvd i" by (auto simp: tuples_def) (metis diff_add_cancel dvd_add)
  with * show "i \<in> tuples ts p q" by (auto simp: tuples_def)
qed

text \<open>
  A pair of tuples that have arrived is in the new task, or it is left out by it, or both tuples had
  arrived at the previous task.
\<close>

lemma task_cases:
  assumes ok: "side_ok ts1 s1 l1 e1" "side_ok ts2 s2 l2 e2" and x: "i \<in> tuples ts1 s1 e1" "j \<in> tuples ts2 s2 e2"
  shows "i \<in> tuples ts1 (l1 + ts1) e1 \<or> i \<in> tuples ts1 s1 l1" and "j \<in> tuples ts2 (l2 + ts2) e2 \<or> j \<in> tuples ts2 s2 l2"
  using tuples_new(1) [OF ok(1)] tuples_new(1) [OF ok(2)] x by auto

lemma tuples_bounds: "i \<in> tuples ts p q \<Longrightarrow> p \<le> i \<and> i \<le> q"
  by (simp add: tuples_def)

lemma createTask_inv:
  assumes task: "createTask conf ops af e = Inr d'" and queue: "queue_ok ops log"
    and inv: "join_inv log ts1 ts2 (e, n1, n2, M)" and count: "0 < jd_firstToProcessCount e" "0 < jd_secondToProcessCount e"
  shows "join_inv log ts1 ts2 (d', n1, n2, M \<union> missed af e) \<and> log (jd_workerQueue d') \<noteq> log (jd_workerQueue e)"
proof -
  obtain t where m: "join_moved e d'" and enq: "enqueue ops (Some t) (jd_workerQueue e) = Inr (jd_workerQueue d')"
    and t: "join_task af e t" using createTask_effect [OF task] by blast
  let ?s1 = "jd_firstStartIndex e" and ?x1 = "jd_firstNextIndex e" and ?l1 = "jd_firstLastEndIndex e" and ?e1 = "jd_firstEndIndex e"
  let ?s2 = "jd_secondStartIndex e" and ?x2 = "jd_secondNextIndex e" and ?l2 = "jd_secondLastEndIndex e" and ?e2 = "jd_secondEndIndex e"
  let ?q = "log (jd_workerQueue e)"
  have e: "jd_firstTupleSize e = ts1" "jd_secondTupleSize e = ts2" "\<not> jd_symmetric e"
      "wd_wf (jd_firstWindow e)" "wd_wf (jd_secondWindow e)" "n1 \<le> jd_mask e + 1" "n2 \<le> jd_mask e + 1"
    and side1: "side_inv ts1 ?s1 ?x1 ?l1 ?e1 (jd_firstToProcessCount e) n1"
    and side2: "side_inv ts2 ?s2 ?x2 ?l2 ?e2 (jd_secondToProcessCount e) n2"
    and seen: "\<And>x. x \<in> M \<or> spans ts1 ts2 ?q x \<noteq> 0 \<Longrightarrow> fst x \<le> ?l1 \<and> snd x \<le> ?l2"
    and old: "\<And>x. x \<in> old_pairs e \<Longrightarrow> spans ts1 ts2 ?q x = (if x \<in> M then 0 else 1)"
    using inv by (auto simp: join_inv_def)
  note 1 = side_inv_task [OF side1 count(1)] and 2 = side_inv_task [OF side2 count(2)]
  have d': "jd_firstStartIndex d' = ?x1" "jd_firstNextIndex d' = ?x1" "jd_firstLastEndIndex d' = ?e1" "jd_firstEndIndex d' = ?e1"
      "jd_secondStartIndex d' = ?x2" "jd_secondNextIndex d' = ?x2" "jd_secondLastEndIndex d' = ?e2" "jd_secondEndIndex d' = ?e2"
      "jd_firstTupleSize d' = ts1" "jd_secondTupleSize d' = ts2" "\<not> jd_symmetric d'" "jd_mask d' = jd_mask e"
      "wd_wf (jd_firstWindow d')" "wd_wf (jd_secondWindow d')"
    using m e 1(3) 2(3) by (auto simp: join_moved_def)
  have q': "log (jd_workerQueue d') = ?q @ [Some t]" using enqueue_log [OF queue enq] .
  have ord: "jd_ordered e" using 1(1) 2(1) e by (simp add: jd_ordered_def)
  note pairs = join_task_pairs_eq [OF t ord, unfolded e(1,2)]
  have le: "?l1 \<le> ?e1" "?l2 \<le> ?e2" using 1(1) 2(1) by (auto simp: side_ok_def)
  have pos: "0 < ts1" "0 < ts2" using 1(1) 2(1) by (auto simp: side_ok_def)
  have new: "fst x \<le> ?e1 \<and> snd x \<le> ?e2 \<and> (?l1 < fst x \<or> ?l2 < snd x)"
    if "x \<in> task_pairs ts1 ts2 t \<or> x \<in> missed af e" for x
    using that le pos by (auto simp: pairs missed_def e split: if_splits dest!: tuples_bounds)
  have apart: "x \<notin> missed af e" if "x \<in> task_pairs ts1 ts2 t" for x
    using that pos by (auto simp: pairs missed_def e split: if_splits dest!: tuples_bounds)
  have "spans ts1 ts2 (?q @ [Some t]) x = (if x \<in> M \<union> missed af e then 0 else 1)" if "x \<in> old_pairs d'" for x
  proof -
    obtain i j where x: "x = (i, j)" by (rule prod.exhaust)
    have ij: "i \<in> tuples ts1 ?s1 ?e1" "j \<in> tuples ts2 ?s2 ?e2"
      using that x tuples_later [of ts1 ?s1 ?x1 ?e1] tuples_later [of ts2 ?s2 ?x2 ?e2] 1(4) 2(4) side1 side2
      by (auto simp: old_pairs_def d' side_inv_def)
    have "x \<in> task_pairs ts1 ts2 t \<or> x \<in> missed af e \<or> x \<in> old_pairs e"
      using task_cases [OF 1(1) 2(1) ij] ij by (auto simp: pairs missed_def old_pairs_def e x)
    then consider "x \<in> task_pairs ts1 ts2 t" | "x \<in> missed af e" | "x \<in> old_pairs e" by blast
    then show ?thesis
    proof cases
      case 1
      then have "spans ts1 ts2 ?q x = 0 \<and> x \<notin> M" using new [of x] seen [of x] by fastforce
      then show ?thesis using 1 apart by (simp add: spans_snoc)
    next
      case 2
      then have "spans ts1 ts2 ?q x = 0" using new [of x] seen [of x] by fastforce
      then show ?thesis using 2 apart [of x] by (auto simp: spans_snoc)
    next
      case 3
      then have "i \<le> ?l1 \<and> j \<le> ?l2" by (auto simp: old_pairs_def x dest!: tuples_bounds)
      then have "x \<notin> task_pairs ts1 ts2 t" "x \<notin> missed af e" using new [of x] by (auto simp: x)
      then show ?thesis using old [OF 3] by (simp add: spans_snoc)
    qed
  qed
  then have "\<forall>x \<in> old_pairs d'. spans ts1 ts2 (?q @ [Some t]) x = (if x \<in> M \<union> missed af e then 0 else 1)" by blast
  moreover have "\<forall>x. x \<in> M \<union> missed af e \<or> spans ts1 ts2 (?q @ [Some t]) x \<noteq> 0 \<longrightarrow> fst x \<le> ?e1 \<and> snd x \<le> ?e2"
  proof (intro allI impI)
    fix x
    assume "x \<in> M \<union> missed af e \<or> spans ts1 ts2 (?q @ [Some t]) x \<noteq> 0"
    then consider "x \<in> M \<or> spans ts1 ts2 ?q x \<noteq> 0" | "x \<in> task_pairs ts1 ts2 t \<or> x \<in> missed af e"
      by (auto simp: spans_snoc split: if_splits)
    then show "fst x \<le> ?e1 \<and> snd x \<le> ?e2" using new [of x] seen [of x] le by cases auto
  qed
  ultimately show ?thesis
    unfolding join_inv_def q' prod.case d' using e(6,7) 1(2) 2(2) d'(11,13,14) by (intro conjI) simp_all
qed

lemma join_step_inv:
  assumes "join_step conf ops log x y" and "queue_ok ops log" and "join_inv log ts1 ts2 x"
  shows "join_inv log ts1 ts2 y"
  using assms
proof (induction rule: join_step.induct)
  case (first_step n1 len d d' n2 M)
  have ts: "jd_firstTupleSize d = ts1" using first_step.prems(2) by (simp add: join_inv_def)
  obtain e where side: "first_side d e" and task: "jd_tryTask conf ops True e = Inr d'"
    and inv: "side_inv ts1 (jd_firstStartIndex d) (jd_firstNextIndex e) (jd_firstLastEndIndex d) (jd_firstEndIndex e)
           (jd_firstToProcessCount e) (n1 + len)"
    using first_step.hyps(1) first_step.prems(2) first_step.hyps(2) first_step.hyps(3) [unfolded ts]
    by (rule assembleFirst_insert)
  obtain m b p c n t u where e: "e = d\<lparr>jd_latencyMark := m, jd_firstBuffer := b, jd_firstEndIndex := p,
      jd_firstToProcessCount := c, jd_firstNextIndex := n, jd_firstNextTime := t, jd_firstEndTime := u\<rparr>"
    using side unfolding first_side_def by blast
  have ie: "join_inv log ts1 ts2 (e, n1 + len, n2, M)" and me: "missed True e = missed True d"
    using first_step.prems(2) first_step.hyps(4) inv by (auto simp: join_inv_def e missed_def old_pairs_def)
  show ?case
  proof (cases "d' = e")
    case True
    then show ?thesis using ie by (simp add: e)
  next
    case False
    have "\<not> jd_symmetric e" using ie by (simp add: join_inv_def)
    with False task have "createTask conf ops True e = Inr d'" "0 < jd_firstToProcessCount e" "0 < jd_secondToProcessCount e"
      by (auto simp: jd_tryTask_def Let_def split: if_splits)
    from createTask_inv [OF this(1) first_step.prems(1) ie this(2,3)] show ?thesis
      unfolding me by (simp add: e)
  qed
next
  case (second_step n2 len d d' n1 M)
  have ts: "jd_secondTupleSize d = ts2" using second_step.prems(2) by (simp add: join_inv_def)
  obtain e where side: "second_side d e" and task: "jd_tryTask conf ops False e = Inr d'"
    and inv: "side_inv ts2 (jd_secondStartIndex d) (jd_secondNextIndex e) (jd_secondLastEndIndex d) (jd_secondEndIndex e)
           (jd_secondToProcessCount e) (n2 + len)"
    using second_step.hyps(1) second_step.prems(2) second_step.hyps(2) second_step.hyps(3) [unfolded ts]
    by (rule assembleSecond_insert)
  obtain p c n t u where e: "e = d\<lparr>jd_secondEndIndex := p,
      jd_secondToProcessCount := c, jd_secondNextIndex := n, jd_secondNextTime := t, jd_secondEndTime := u\<rparr>"
    using side unfolding second_side_def by blast
  have ie: "join_inv log ts1 ts2 (e, n1, n2 + len, M)" and me: "missed False e = missed False d"
    using second_step.prems(2) second_step.hyps(4) inv by (auto simp: join_inv_def e missed_def old_pairs_def)
  show ?case
  proof (cases "d' = e")
    case True
    then show ?thesis using ie by (simp add: e)
  next
    case False
    have "\<not> jd_symmetric e" using ie by (simp add: join_inv_def)
    with False task have "createTask conf ops False e = Inr d'" "0 < jd_firstToProcessCount e" "0 < jd_secondToProcessCount e"
      by (auto simp: jd_tryTask_def Let_def split: if_splits)
    from createTask_inv [OF this(1) second_step.prems(1) ie this(2,3)] show ?thesis
      unfolding me by (simp add: e)
  qed
qed

lemma join_steps_inv:
  assumes "(join_step conf ops log)\<^sup>*\<^sup>* x y" and "queue_ok ops log" and "join_inv log ts1 ts2 x"
  shows "join_inv log ts1 ts2 y"
  using assms by (induction rule: rtranclp_induct) (auto dest: join_step_inv)

lemma join_inv_new:
  assumes new: "newJoinTaskDispatcher conf qid os cap q config w1 w2 ts1 ts2 b1 b2 replay trig batches tasks graphs = Inr d"
    and "wd_wf w1" "wd_wf w2" "0 < ts1" "0 < ts2" "0 \<le> qb_mask b1" and "log q = []"
  shows "join_inv log ts1 ts2 (d, 0, 0, {})"
proof -
  obtain bs bu where c: "(case config of Some c \<Rightarrow> c | None \<Rightarrow> (BATCH_SIZE conf, BUNDLE_SIZE conf)) = (bs, bu)"
    by (rule prod.exhaust)
  show ?thesis
    using assms unfolding newJoinTaskDispatcher_def c
    by (auto simp: join_inv_def side_inv_def old_pairs_def tuples_def spans_def Let_def split: if_splits)
qed

text \<open>
  C6. Tuples of the two streams are inserted in any order, from the creation of the dispatcher until a
  buffer is full for the first time. Take a tuple of each stream, both of windows that are still open
  and both arrived by the time of the last task. If no task left the pair out, it is in the batches of
  exactly one task. The pairs left out, \<open>M\<close>, are in the batches of no task: they are the pairs of a tuple
  that was old and one of the other stream that was new when the stream of the old one triggered a
  task (\<open>missed\<close>, \<open>join_task_misses\<close>).
\<close>

theorem join_task_pairs:
  assumes "newJoinTaskDispatcher conf qid os cap q config w1 w2 ts1 ts2 b1 b2 replay trig batches tasks graphs = Inr d0"
    and "wd_wf w1" "wd_wf w2" "0 < ts1" "0 < ts2" "0 \<le> qb_mask b1" and "queue_ok ops log" "log q = []"
    and "(join_step conf ops log)\<^sup>*\<^sup>* (d0, 0, 0, {}) (d, n1, n2, M)"
    and "i \<in> tuples ts1 (jd_firstStartIndex d) (jd_firstLastEndIndex d)"
    and "j \<in> tuples ts2 (jd_secondStartIndex d) (jd_secondLastEndIndex d)"
  shows "length (filter (\<lambda>t. case t of Some t \<Rightarrow> (i, j) \<in> task_pairs ts1 ts2 t | None \<Rightarrow> False) (log (jd_workerQueue d)))
    = (if (i, j) \<in> M then 0 else 1)"
proof -
  have inv: "join_inv log ts1 ts2 (d, n1, n2, M)"
    using join_steps_inv [OF assms(9,7) join_inv_new [where log = log, OF assms(1-6,8)]] .
  then have "(i, j) \<in> old_pairs d" using assms(10,11) by (simp add: join_inv_def old_pairs_def)
  with inv show ?thesis by (auto simp: join_inv_def simp flip: spans_def)
qed

section \<open>A stale end pointer\<close>

text \<open>
  C20. The creation of a task takes the start pointer of the second stream back into the buffer when
  the window start has passed its end, but not the end pointer. If tuples of the first stream
  trigger the next task before new tuples of the second stream arrive, the second batch of this
  task spans the whole buffer once more than the open window does.
\<close>

theorem join_stale_end:
  assumes "createTask conf ops af d = Inr d1" and "\<not> jd_symmetric d"
    and "is_pow2 c" and "qb_capacity (jd_secondBuffer d) = c" and "jd_mask d = c - 1"
    and "c \<le> jd_secondNextIndex d" and "jd_secondNextIndex d < 2 * c" and "jd_secondNextIndex d \<le> jd_secondEndIndex d"
    and "assembleFirst conf ops idx len d1 = Inr d2" and "queue_ok ops log"
    and "log (jd_workerQueue d2) \<noteq> log (jd_workerQueue d1)"
  shows "\<exists>t wb. log (jd_workerQueue d2) = log (jd_workerQueue d1) @ [Some t] \<and> tk_rightBatch t = Some wb
    \<and> wb_endPointer wb - wb_startPointer wb = c + (jd_secondEndIndex d - jd_secondNextIndex d)"
proof -
  have m: "join_moved d d1" using createTask_effect [OF assms(1)] by blast
  obtain e where e: "first_side d1 e" "jd_tryTask conf ops True e = Inr d2" using assms(9) by (rule assembleFirstE)
  note side = e(1) [unfolded first_side_def]
  have same: "jd_workerQueue e = jd_workerQueue d1" "jd_symmetric e = jd_symmetric d1"
      "jd_secondStartIndex e = jd_secondStartIndex d1" "jd_secondEndIndex e = jd_secondEndIndex d1"
      "jd_secondBuffer e = jd_secondBuffer d1"
    by (subst side, simp)+
  have "\<not> jd_symmetric e" "d2 \<noteq> e" using m assms(2,11) same by (auto simp: join_moved_def)
  then have "createTask conf ops True e = Inr d2"
    using e(2) by (auto simp: jd_tryTask_def Let_def split: if_splits)
  then obtain t where t: "enqueue ops (Some t) (jd_workerQueue e) = Inr (jd_workerQueue d2)" "join_task True e t"
    using createTask_effect by blast
  have "and (jd_secondNextIndex d) (c - 1) = jd_secondNextIndex d - c"
    using assms(3,6,7) mod_pos_pos_trivial [of "jd_secondNextIndex d - c" c] minus_mod_self2 [of "jd_secondNextIndex d" c]
    by (simp add: and_mask_pow2)
  then have start: "jd_secondStartIndex e = jd_secondNextIndex d - c"
    using m assms(5,6) by (simp add: same join_moved_def)
  have end': "jd_secondEndIndex e = jd_secondEndIndex d" using m by (simp add: same join_moved_def)
  obtain wb where wb: "tk_rightBatch t = Some wb" "wb_startPointer wb = jd_secondNextIndex d - c"
      "wb_endPointer wb = normaliseIndex (jd_secondBuffer e) (jd_secondNextIndex d - c) (jd_secondEndIndex d)"
    using t(2) by (auto simp: join_task_def start end')
  have "wb_endPointer wb = jd_secondEndIndex d"
    using wb(3) assms(8) is_pow2_pos [OF assms(3)] by (simp add: normaliseIndex_def)
  then show ?thesis using enqueue_log [OF assms(10) t(1)] wb(1,2) by (auto simp: same)
qed

section \<open>An example\<close>

lemma createTask_ok:
  assumes "\<not> LINEAGE_ON conf" and "queue_live ops"
  shows "\<exists>d'. createTask conf ops af d = Inr d'"
proof -
  obtain i d1 where 1: "jd_getTaskNumber d = (i, d1)" by (rule prod.exhaust)
  obtain ff sf d2 where 2: "jd_freePointers d1 = (ff, sf, d2)" by (rule prod_cases3)
  obtain lat d3 where 3: "jd_takeLatencyMark conf d2 = (lat, d3)" by (rule prod.exhaust)
  obtain b1 p1 where 4: "wf_newInstance conf (jd_batchSize d3) i ff sf (Some (jd_queryId d3))
      (Some (qb_id (jd_firstBuffer d3))) (Some (jd_firstWindow d3)) (Some (jd_firstTupleSize d3)) lat
      (jd_prevFirstFreePointer d3) (jd_prevSecondFreePointer d3) (jd_batches d3) = (b1, p1)" by (rule prod.exhaust)
  obtain b2 p2 where 5: "wf_newInstance conf (jd_batchSize d3) i INT_MIN INT_MIN (Some (jd_queryId d3))
      (Some (qb_id (jd_secondBuffer d3))) (Some (jd_secondWindow d3)) (Some (jd_secondTupleSize d3)) (-1) (-1) (-1)
      p1 = (b2, p2)" by (rule prod.exhaust)
  obtain c1 c2 where 6: "joinPointers af d3 b1 b2 = (c1, c2)" by (rule prod.exhaust)
  have "wb_query c1 = Some (jd_queryId d3)"
    using 6 wf_newInstance_sel(5) [OF 4] by (auto simp: joinPointers_def setBufferPointers_def split: if_splits)
  moreover define ty where "ty = (if jd_createMergeTasks d3 then PROCESS else ONLY_PROCESS)"
  ultimately obtain t f where t: "tf_newInstance i (Some (setTaskType ty c1)) (Some c2) ty (jd_tasks d3) = Inr (t, f)"
    using tf_newInstance_ok [of "setTaskType ty c1"] by (fastforce simp: setTaskType_def)
  obtain q where "enqueue_spin ops (Some t) (jd_workerQueue d3) = Some q"
    using assms(2) unfolding queue_live_def by blast
  then show ?thesis
    using assms(1) by (simp add: createTask_def 1 2 3 4 5 6 joinLineage_def jd_submit_def ty_def [symmetric] t logOffsets_def enqueue_def)
qed

lemma assembleFirst_row:
  assumes "\<not> LATENCY_ON conf" and "isRowBased (jd_firstWindow d)" and "wd_wf (jd_firstWindow d)"
    and "0 < jd_firstTupleSize d" and "jd_firstStartIndex d \<le> idx + len - jd_firstTupleSize d"
  shows "\<exists>n. assembleFirst conf ops idx len d = jd_tryTask conf ops True
    (d\<lparr>jd_firstEndIndex := idx + len - jd_firstTupleSize d,
       jd_firstToProcessCount := (idx + len - jd_firstStartIndex d) div jd_firstTupleSize d,
       jd_firstNextIndex := n\<rparr>)"
proof -
  let ?e = "idx + len - jd_firstTupleSize d"
  obtain k where "closeWindows conf (jd_firstBuffer d) (jd_firstWindow d) (jd_firstTupleSize d) ?e
      (jd_firstNextIndex d, jd_firstNextTime d, jd_firstEndTime d) = Inr (k, jd_firstNextTime d, jd_firstEndTime d)"
    using closeWindows_row [OF assms(2-4)] by blast
  then show ?thesis
    using assms by (intro exI [of _ k]) (simp add: assembleFirst_def jd_readLatencyMark_def Let_def sdiv_nonneg algebra_simps)
qed

abbreviation newDemoJoin :: "Task option list JoinTaskDispatcher res" where
  "newDemoJoin \<equiv> newJoinTaskDispatcher defaultConf 0 [] 16 [] (Some (4, 4)) (demoWindow ROW_BASED) (demoWindow ROW_BASED)
     1 1 demoRing demoRing False False \<lparr>wf_count = 0, wf_pool = []\<rparr> \<lparr>tf_count = 0, tf_pool = []\<rparr> emptyFactory"

definition demoJoin :: "Task option list JoinTaskDispatcher" where
  "demoJoin = projr newDemoJoin"

lemma demoJoin_new: "newDemoJoin = Inr demoJoin"
  by (simp add: demoJoin_def newJoinTaskDispatcher_def pow2Size_def)

lemma demoJoin_sel [simp]:
  "jd_firstTupleSize demoJoin = 1" "jd_secondTupleSize demoJoin = 1" "jd_batchSize demoJoin = 4"
  "jd_firstStartIndex demoJoin = 0" "jd_secondStartIndex demoJoin = 0" "jd_firstNextIndex demoJoin = 0"
  "jd_secondNextIndex demoJoin = 0" "jd_firstLastEndIndex demoJoin = -1" "jd_secondLastEndIndex demoJoin = -1"
  "jd_firstWindow demoJoin = demoWindow ROW_BASED" "jd_secondWindow demoJoin = demoWindow ROW_BASED"
  "jd_firstBuffer demoJoin = demoRing" "jd_secondBuffer demoJoin = demoRing" "jd_mask demoJoin = 7"
  "\<not> jd_symmetric demoJoin" "jd_workerQueue demoJoin = []" "jd_assembleId demoJoin = 0"
  "jd_secondToProcessCount demoJoin = 0"
  by (simp_all add: demoJoin_def newJoinTaskDispatcher_def pow2Size_def demoRing_def)

lemma demoWindow_row: "isRowBased (demoWindow ROW_BASED)" "wd_wf (demoWindow ROW_BASED)"
  by (simp_all add: isRowBased_def wd_wf_def demoWindow_def)


lemma demoJoin_run:
  "\<exists>d t. (join_step defaultConf listQueue (\<lambda>q. q))\<^sup>*\<^sup>* (demoJoin, 0, 0, {}) (d, 2, 2, {})
     \<and> jd_workerQueue d = [Some t] \<and> jd_firstStartIndex d = 0 \<and> jd_secondStartIndex d = 0
     \<and> jd_firstLastEndIndex d = 1 \<and> jd_secondLastEndIndex d = 1"
proof -
  let ?d1 = "demoJoin\<lparr>jd_firstEndIndex := 1, jd_firstToProcessCount := 2\<rparr>"
  let ?d2 = "?d1\<lparr>jd_secondEndIndex := 1, jd_secondToProcessCount := 2, jd_secondNextIndex := 0\<rparr>"
  note close = closeWindows_def isRowBased_def demoWindow_def rowNext.simps
  have "assembleFirst defaultConf listQueue 0 2 demoJoin = Inr ?d1"
    by (simp add: assembleFirst_def jd_readLatencyMark_def jd_tryTask_def close)
  from first_step [where log = "\<lambda>q. q" and ?n2.0 = 0 and M = "{}", OF this]
  have 1: "join_step defaultConf listQueue (\<lambda>q. q) (demoJoin, 0, 0, {}) (?d1, 2, 0, {})" by simp
  obtain d where d: "createTask defaultConf listQueue False ?d2 = Inr d"
    using createTask_ok [of defaultConf listQueue] listQueue_laws(3) by auto
  have "assembleSecond defaultConf listQueue 0 2 ?d1 = createTask defaultConf listQueue False ?d2"
    by (simp add: assembleSecond_def jd_tryTask_def close to_int32_id INT_MIN_def INT_MAX_def)
  with d have "assembleSecond defaultConf listQueue 0 2 ?d1 = Inr d" by simp
  moreover have none: "missed False ?d1 = {}" by (auto simp: missed_def tuples_def)
  moreover note second_step [where log = "\<lambda>q. q" and ?n1.0 = 2 and M = "{}", OF calculation(1)]
  ultimately have 2: "join_step defaultConf listQueue (\<lambda>q. q) (?d1, 2, 0, {}) (d, 2, 2, {})"
    unfolding none by (simp cong: if_cong)
  obtain t where "join_moved ?d2 d" "jd_workerQueue d = [Some t]"
    using createTask_effect [OF d] enqueue_log [OF listQueue_laws(1)] by fastforce
  then show ?thesis
    using 1 2 by (intro exI [of _ d] exI [of _ t]) (auto simp: join_moved_def intro: converse_rtranclp_into_rtranclp)
qed

theorem join_task_pairs_witness:
  "\<exists>d t. (join_step defaultConf listQueue (\<lambda>q. q))\<^sup>*\<^sup>* (demoJoin, 0, 0, {}) (d, 2, 2, {})
     \<and> jd_workerQueue d = [Some t] \<and> (1, 0) \<in> task_pairs 1 1 t"
proof -
  obtain d t where run: "(join_step defaultConf listQueue (\<lambda>q. q))\<^sup>*\<^sup>* (demoJoin, 0, 0, {}) (d, 2, 2, {})"
    and d: "jd_workerQueue d = [Some t]" "jd_firstStartIndex d = 0" "jd_secondStartIndex d = 0"
      "jd_firstLastEndIndex d = 1" "jd_secondLastEndIndex d = 1" using demoJoin_run by blast
  from join_task_pairs [OF demoJoin_new demoWindow_row(2) demoWindow_row(2) _ _ _ listQueue_laws(1) _ run, of 1 0]
  show ?thesis using run d by (auto simp: tuples_def demoRing_def split: if_splits)
qed


theorem join_closes_row_windows_witness:
  "\<exists>k. closeWindows defaultConf demoRing (demoWindow ROW_BASED) 1 20 (0, 0, 0)
     = Inr (int k * wd_slide (demoWindow ROW_BASED), 0, 0)"
  using join_closes_row_windows [OF demoWindow_row, of 1 defaultConf demoRing 20 0 0 0] by auto

theorem join_stale_end_witness:
  "\<exists>d1 d2 t wb. createTask defaultConf listQueue True
       (demoJoin\<lparr>jd_secondStartIndex := 7, jd_secondNextIndex := 9, jd_secondEndIndex := 9,
          jd_secondToProcessCount := 3\<rparr>) = Inr d1
     \<and> assembleFirst defaultConf listQueue 0 4 d1 = Inr d2 \<and> jd_workerQueue d2 = jd_workerQueue d1 @ [Some t]
     \<and> tk_rightBatch t = Some wb \<and> wb_endPointer wb - wb_startPointer wb = 8"
proof -
  let ?d = "demoJoin\<lparr>jd_secondStartIndex := 7, jd_secondNextIndex := 9, jd_secondEndIndex := 9,
     jd_secondToProcessCount := 3\<rparr>"
  obtain d1 where d1: "createTask defaultConf listQueue True ?d = Inr d1"
    using createTask_ok [of defaultConf listQueue] listQueue_laws(3) by auto
  have m: "join_moved ?d d1" using createTask_effect [OF d1] by blast
  have c: "jd_firstWindow d1 = demoWindow ROW_BASED" "jd_firstTupleSize d1 = 1" "jd_secondTupleSize d1 = 1"
      "jd_batchSize d1 = 4" "\<not> jd_symmetric d1" "jd_firstStartIndex d1 = 0" "jd_secondToProcessCount d1 = 1"
    using m by (simp_all add: join_moved_def sdiv_nonneg)
  obtain n where n: "assembleFirst defaultConf listQueue 0 4 d1 = jd_tryTask defaultConf listQueue True
      (d1\<lparr>jd_firstEndIndex := 3, jd_firstToProcessCount := 4, jd_firstNextIndex := n\<rparr>)"
    using assembleFirst_row [of defaultConf d1 0 4 listQueue] demoWindow_row by (auto simp: c)
  let ?e = "d1\<lparr>jd_firstEndIndex := 3, jd_firstToProcessCount := 4, jd_firstNextIndex := n\<rparr>"
  obtain d2 where d2: "createTask defaultConf listQueue True ?e = Inr d2"
    using createTask_ok [of defaultConf listQueue] listQueue_laws(3) by auto
  have a: "assembleFirst defaultConf listQueue 0 4 d1 = Inr d2"
    using d2 by (simp add: n jd_tryTask_def c to_int32_id INT_MIN_def INT_MAX_def)
  have "jd_workerQueue d2 \<noteq> jd_workerQueue d1"
    using createTask_effect [OF d2] enqueue_log [OF listQueue_laws(1)] by fastforce
  moreover have "is_pow2 8" using is_pow2_def [of 8] by (auto intro: exI [of _ 3])
  ultimately show ?thesis
    using join_stale_end [OF d1 _ _ _ _ _ _ _ a listQueue_laws(1), of 8] d1 a by auto
qed

definition serialJoin :: "Task option list JoinTaskDispatcher" where
  "serialJoin = demoJoin\<lparr>
     jd_leftList := projr (push_back 0 0 1 (newCircularTaskList 2)),
     jd_rightList := projr (push_back 1 0 1 (newCircularTaskList 2))\<rparr>"

lemma serialJoin_lists:
  "jd_leftList serialJoin = \<lparr>ct_buffer = [\<lparr>st_id = 0, st_idx = 0, st_length = 1\<rparr>, newSerialTask], ct_size = 2,
     ct_readIdx = 0, ct_writeIdx = 0, ct_elements = 1\<rparr>"
  "jd_rightList serialJoin = \<lparr>ct_buffer = [\<lparr>st_id = 1, st_idx = 0, st_length = 1\<rparr>, newSerialTask], ct_size = 2,
     ct_readIdx = 0, ct_writeIdx = 0, ct_elements = 1\<rparr>"
  by (simp_all add: serialJoin_def push_back_def newCircularTaskList_def vset_def numeral_2_eq_2)

lemma serialJoin_tasks:
  "ct_inv (jd_leftList serialJoin)" "ct_inv (jd_rightList serialJoin)"
  "ct_tasks (jd_leftList serialJoin) = [\<lparr>st_id = 0, st_idx = 0, st_length = 1\<rparr>]"
  "ct_tasks (jd_rightList serialJoin) = [\<lparr>st_id = 1, st_idx = 0, st_length = 1\<rparr>]"
  by (simp_all add: serialJoin_lists ct_inv_def ct_tasks_def)

lemma serialJoin_step: "\<exists>d. assembleFirst defaultConf listQueue 0 1 serialJoin = Inr d"
  using assembleFirst_row [of defaultConf serialJoin 0 1 listQueue] demoWindow_row
  by (auto simp: serialJoin_def jd_tryTask_def)

theorem serial_in_order_witness:
  "\<exists>d'. tryAssembleTask defaultConf listQueue serialJoin = Inr d' \<and> ct_tasks (jd_leftList d') = []
     \<and> ct_tasks (jd_rightList d') = [\<lparr>st_id = 1, st_idx = 0, st_length = 1\<rparr>] \<and> jd_assembleId d' = 1"
proof -
  have i: "jd_assembleId serialJoin = 0" by (simp add: serialJoin_def)
  obtain d where d: "assembleFirst defaultConf listQueue 0 1 serialJoin = Inr d" using serialJoin_step by blast
  have k: "jd_assembleId d = 0" "jd_rightList d = jd_rightList serialJoin" using assembleFirst_lists [OF d] i by auto
  obtain d' where d': "tryAssembleTask defaultConf listQueue serialJoin = Inr d'"
    by (simp add: tryAssembleTask_def assembleLeft_eq [OF serialJoin_tasks(1)] assembleRight_eq [OF serialJoin_tasks(2)]
        admitted_def serialJoin_tasks i d k)
  from serial_in_order [OF serialJoin_tasks(1,2) d'] d' show ?thesis by (auto simp: serialJoin_tasks i)
qed

end
