(* ===== verification/PartialWindows.thy ===== *)
theory PartialWindows
  imports SystemUtils
begin

text \<open>
  The partial results of the windows of a batch (\<open>buffers/PartialWindowResults.h\<close>) and their pools
  (\<open>buffers/PartialWindowResultsFactory.h\<close>). An object of type 0 stores its windows one after the
  other in one byte array, an object of type 1 has one byte array per window, an object of type 2
  holds results without windows. The arrays of type 1 are reached by pointers that only move from
  one object to another, so the model stores the arrays themselves; memory that has not been
  written reads as zero. Start pointers count tuples.
\<close>

section \<open>State and construction\<close>

record PartialWindowResults =
  pw_capacity :: int
  pw_position :: int
  pw_buffer :: "byte list"
  pw_bufferPtrs :: "byte list list"
  pw_startPointers :: "int list"
  pw_partialWindows :: int
  pw_pid :: int
  pw_count :: int
  pw_type :: int

definition newPartialWindowResults :: "SystemConf \<Rightarrow> int \<Rightarrow> int \<Rightarrow> int \<Rightarrow> PartialWindowResults" where
  "newPartialWindowResults conf pid capacity type =
     \<lparr>pw_capacity = capacity, pw_position = 0,
      pw_buffer = replicate (if type \<noteq> 1 then nat capacity else 0) 0,
      pw_bufferPtrs = replicate (if type = 1 then nat (PARTIAL_WINDOWS conf) else 0) (replicate (nat capacity) 0),
      pw_startPointers = replicate (if type \<noteq> 2 then nat (PARTIAL_WINDOWS conf) else 2) 0,
      pw_partialWindows = PARTIAL_WINDOWS conf, pw_pid = pid, pw_count = 0, pw_type = type\<rparr>"

section \<open>Accessors\<close>

definition pw_getBuffer :: "PartialWindowResults \<Rightarrow> byte list res" where
  "pw_getBuffer p = (if pw_type p = 0 then Inr (pw_buffer p) else Inl RuntimeError)"

definition pw_getBufferPtrs :: "PartialWindowResults \<Rightarrow> byte list list res" where
  "pw_getBufferPtrs p = (if pw_type p = 1 then Inr (pw_bufferPtrs p) else Inl RuntimeError)"

definition pw_isEmpty :: "PartialWindowResults \<Rightarrow> bool" where
  "pw_isEmpty p \<longleftrightarrow> pw_count p = 0"

definition pw_clear :: "PartialWindowResults \<Rightarrow> PartialWindowResults" where
  "pw_clear p = (if pw_type p = 0 then p\<lparr>pw_position := 0\<rparr> else p)"

definition pw_reset :: "PartialWindowResults \<Rightarrow> PartialWindowResults res" where
  "pw_reset p =
     rbind (if pw_type p = 0 then Inr (p\<lparr>pw_startPointers := map (\<lambda>_. -1) (pw_startPointers p)\<rparr>)
            else if pw_type p = 2 then
              rbind (vset (pw_startPointers p) 0 (-1)) (\<lambda>ps. rbind (vset ps 1 (-1)) (\<lambda>ps. Inr (p\<lparr>pw_startPointers := ps\<rparr>)))
            else Inr p) (\<lambda>p. Inr (p\<lparr>pw_count := 0\<rparr>))"

definition pw_init :: "PartialWindowResults \<Rightarrow> PartialWindowResults" where
  "pw_init p = p\<lparr>pw_count := 0, pw_position := 0\<rparr>"

definition pw_nullify :: "PartialWindowResults \<Rightarrow> PartialWindowResults" where
  "pw_nullify p = p\<lparr>pw_count := 0\<rparr>"

definition pw_increment :: "PartialWindowResults \<Rightarrow> PartialWindowResults res" where
  "pw_increment p =
     (if pw_count p > pw_partialWindows p then Inl OutOfRange
      else rbind (vset (pw_startPointers p) (pw_count p) (to_int32 (pw_position p))) (\<lambda>ps.
             Inr (p\<lparr>pw_startPointers := ps, pw_count := pw_count p + 1\<rparr>)))"

definition pw_setCount :: "int \<Rightarrow> PartialWindowResults \<Rightarrow> PartialWindowResults res" where
  "pw_setCount cnt p = (if cnt > pw_partialWindows p then Inl OutOfRange else Inr (p\<lparr>pw_count := cnt\<rparr>))"

definition pw_incrementCount :: "int \<Rightarrow> PartialWindowResults \<Rightarrow> PartialWindowResults res" where
  "pw_incrementCount cnt p =
     (if pw_count p + cnt > pw_partialWindows p then Inl OutOfRange else Inr (p\<lparr>pw_count := pw_count p + cnt\<rparr>))"

definition pw_getStartPointer :: "int \<Rightarrow> PartialWindowResults \<Rightarrow> int res" where
  "pw_getStartPointer idx p =
     (if idx < 0 \<or> idx > pw_count p then Inl OutOfRange else vget (pw_startPointers p) idx)"

definition pw_setPosition :: "int \<Rightarrow> PartialWindowResults \<Rightarrow> PartialWindowResults res" where
  "pw_setPosition pos p =
     (let pos = pos mod 2 ^ 64 in
      if pos > (if pw_type p = 0 then int (length (pw_buffer p)) else pw_partialWindows p * pw_capacity p)
      then Inl OutOfRange else Inr (p\<lparr>pw_position := pos\<rparr>))"

definition pw_getLong :: "int \<Rightarrow> PartialWindowResults \<Rightarrow> int res" where
  "pw_getLong index p =
     (if pw_type p = 0 then rbind (memread (pw_buffer p) (8 * (index div 8)) 8) (\<lambda>bs. Inr (long_val bs))
      else Inl RuntimeError)"

definition pw_putLong :: "int \<Rightarrow> int \<Rightarrow> PartialWindowResults \<Rightarrow> PartialWindowResults res" where
  "pw_putLong index v p =
     (if pw_type p = 0
      then rbind (memcpy_to (pw_buffer p) (8 * (index div 8)) (long_bytes v)) (\<lambda>b. Inr (p\<lparr>pw_buffer := b\<rparr>))
      else Inl RuntimeError)"

text \<open>The array of one window changes places with the first array of another object.\<close>

definition pw_swap ::
  "int \<Rightarrow> PartialWindowResults \<Rightarrow> PartialWindowResults \<Rightarrow> (PartialWindowResults \<times> PartialWindowResults) res" where
  "pw_swap windowId p other =
     rbind (pw_getBufferPtrs p) (\<lambda>ps. rbind (pw_getBufferPtrs other) (\<lambda>os.
     rbind (vget ps windowId) (\<lambda>w. rbind (vget os 0) (\<lambda>e.
     rbind (vset ps windowId e) (\<lambda>ps. rbind (vset os 0 w) (\<lambda>os.
       Inr (p\<lparr>pw_bufferPtrs := ps\<rparr>, other\<lparr>pw_bufferPtrs := os\<rparr>)))))))"

section \<open>Adding windows at the end\<close>

definition pw_append :: "byte list \<Rightarrow> int \<Rightarrow> PartialWindowResults \<Rightarrow> PartialWindowResults res" where
  "pw_append windowBuffer len p =
     (if pw_type p = 0 then
        if pw_count p \<ge> pw_partialWindows p then Inl OutOfRange
        else
          rbind (vset (pw_startPointers p) (pw_count p) (to_int32 (pw_position p))) (\<lambda>ps.
          rbind (memread windowBuffer 0 len) (\<lambda>vs.
          rbind (memcpy_to (pw_buffer p) (pw_position p) vs) (\<lambda>b.
            Inr (p\<lparr>pw_startPointers := ps, pw_count := pw_count p + 1, pw_buffer := b\<rparr>))))
      else Inl RuntimeError)"

definition pw_appendWindows :: "PartialWindowResults \<Rightarrow> PartialWindowResults \<Rightarrow> PartialWindowResults res" where
  "pw_appendWindows closing p =
     (if pw_type p = 0 then
        let offset = to_int32 (pw_position p) in
        rbind (rfold (\<lambda>wid p.
            if pw_count p \<ge> pw_partialWindows p then Inl OutOfRange
            else rbind (pw_getStartPointer wid closing) (\<lambda>s.
                 rbind (vset (pw_startPointers p) (pw_count p) (offset + s)) (\<lambda>ps.
                   Inr (p\<lparr>pw_startPointers := ps, pw_count := pw_count p + 1\<rparr>))))
          [0..pw_count closing - 1] p) (\<lambda>p.
        rbind (pw_getBuffer closing) (\<lambda>src.
        rbind (memread src 0 (pw_position closing)) (\<lambda>vs.
        rbind (memcpy_to (pw_buffer p) (pw_position p) vs) (\<lambda>b. Inr (p\<lparr>pw_buffer := b\<rparr>)))))
      else Inl RuntimeError)"

section \<open>Adding windows at the front\<close>

text \<open>\<open>memcpy\<close> inside one array: overlapping regions are undefined behaviour.\<close>

definition memcpy_within :: "byte list \<Rightarrow> int \<Rightarrow> int \<Rightarrow> int \<Rightarrow> byte list res" where
  "memcpy_within b dst src n =
     (if 0 < n \<and> \<bar>dst - src\<bar> < n then Inl Undefined
      else rbind (memread b src n) (memcpy_to b dst))"

text \<open>One iteration of the loop that moves the windows of the object out of the way.\<close>

definition shiftDownSeq :: "int \<Rightarrow> int \<Rightarrow> int \<Rightarrow> int \<Rightarrow> int \<Rightarrow> PartialWindowResults \<Rightarrow> PartialWindowResults res" where
  "shiftDownSeq added offset windowSize tupleSize i p =
     rbind (vget (pw_startPointers p) i) (\<lambda>s.
     rbind (vset (pw_startPointers p) (i + added) (s + offset)) (\<lambda>ps.
     rbind (vget ps i) (\<lambda>src.
     rbind (pw_setPosition ((s + offset) * tupleSize) p) (\<lambda>p.
     rbind (memcpy_within (pw_buffer p) (pw_position p) (src * tupleSize) (windowSize * tupleSize)) (\<lambda>b.
       Inr (p\<lparr>pw_startPointers := ps, pw_buffer := b\<rparr>))))))"

text \<open>One iteration of the loop that copies the windows of the other object in.\<close>

definition copyInSeq ::
  "PartialWindowResults \<Rightarrow> int \<Rightarrow> int \<Rightarrow> int \<Rightarrow> int \<Rightarrow> int \<Rightarrow> PartialWindowResults \<Rightarrow> PartialWindowResults res" where
  "copyInSeq opening startP norm windowSize tupleSize i p =
     rbind (pw_getStartPointer (startP + i) opening) (\<lambda>s.
     rbind (vset (pw_startPointers p) i (s - norm)) (\<lambda>ps.
     rbind (pw_setPosition ((s - norm) * tupleSize) p) (\<lambda>p.
     rbind (pw_getBuffer opening) (\<lambda>src.
     rbind (memread src (s * tupleSize) (windowSize * tupleSize)) (\<lambda>vs.
     rbind (memcpy_to (pw_buffer p) (pw_position p) vs) (\<lambda>b.
       Inr (p\<lparr>pw_startPointers := ps, pw_buffer := b\<rparr>)))))))"

definition shiftDownPtrs :: "int \<Rightarrow> int \<Rightarrow> int \<Rightarrow> int \<Rightarrow> PartialWindowResults \<Rightarrow> PartialWindowResults res" where
  "shiftDownPtrs added offset tupleSize i p =
     rbind (vget (pw_startPointers p) i) (\<lambda>s.
     rbind (vset (pw_startPointers p) (i + added) (s + offset)) (\<lambda>ps.
     rbind (pw_setPosition ((s + offset) * tupleSize) p) (\<lambda>p.
     rbind (vget (pw_bufferPtrs p) i) (\<lambda>x. rbind (vget (pw_bufferPtrs p) (i + added)) (\<lambda>y.
     rbind (vset (pw_bufferPtrs p) i y) (\<lambda>bs. rbind (vset bs (i + added) x) (\<lambda>bs.
       Inr (p\<lparr>pw_startPointers := ps, pw_bufferPtrs := bs\<rparr>))))))))"

definition swapInPtrs ::
  "int \<Rightarrow> int \<Rightarrow> int \<Rightarrow> int \<Rightarrow> PartialWindowResults \<times> PartialWindowResults \<Rightarrow>
   (PartialWindowResults \<times> PartialWindowResults) res" where
  "swapInPtrs startP norm tupleSize i s =
     (case s of (p, opening) \<Rightarrow>
        rbind (pw_getStartPointer (startP + i) opening) (\<lambda>s.
        rbind (vset (pw_startPointers p) i (s - norm)) (\<lambda>ps.
        rbind (pw_setPosition ((s - norm) * tupleSize) p) (\<lambda>p.
        rbind (pw_getBufferPtrs opening) (\<lambda>os.
        rbind (vget os i) (\<lambda>x. rbind (vget (pw_bufferPtrs p) i) (\<lambda>y.
        rbind (vset os i y) (\<lambda>os. rbind (vset (pw_bufferPtrs p) i x) (\<lambda>bs.
          Inr (p\<lparr>pw_startPointers := ps, pw_bufferPtrs := bs\<rparr>, opening\<lparr>pw_bufferPtrs := os\<rparr>))))))))))"

text \<open>
  \<open>prepend\<close> puts \<open>added\<close> windows of \<open>opening\<close>, from \<open>startP\<close> on, in front of the windows of \<open>p\<close>; with
  arrays per window it takes them out of \<open>opening\<close>.
\<close>

definition pw_prepend ::
  "int \<Rightarrow> int \<Rightarrow> int \<Rightarrow> int \<Rightarrow> PartialWindowResults \<Rightarrow> PartialWindowResults \<Rightarrow>
   (PartialWindowResults \<times> PartialWindowResults) res" where
  "pw_prepend startP added windowSize tupleSize opening p =
     (let count = pw_count p + added in
      if count \<ge> pw_partialWindows p then Inl OutOfRange
      else if count * windowSize * tupleSize
              > (if pw_type p = 0 then int (length (pw_buffer p)) else pw_partialWindows p * pw_capacity p)
      then Inl OutOfRange
      else
        rbind (pw_getStartPointer startP opening) (\<lambda>norm.
        rbind (pw_getStartPointer (startP + added - 1) opening) (\<lambda>last.
        let offset = to_int32 (last - norm + windowSize); downward = rev [0..pw_count p - 1] in
        rbind (if pw_type p = 0 then
                 rbind (rfold (shiftDownSeq added offset windowSize tupleSize) downward p) (\<lambda>p.
                 rbind (rfold (copyInSeq opening startP norm windowSize tupleSize) [0..added - 1] p) (\<lambda>p.
                   Inr (p, opening)))
               else
                 rbind (rfold (shiftDownPtrs added offset tupleSize) downward p) (\<lambda>p.
                   rfold (swapInPtrs startP norm tupleSize) [0..added - 1] (p, opening))) (\<lambda>(p, opening).
        rbind (pw_setPosition (count * windowSize) (p\<lparr>pw_count := count\<rparr>)) (\<lambda>p.
        rbind (vset (pw_startPointers p) count (to_int32 (count * windowSize))) (\<lambda>ps.
          Inr (p\<lparr>pw_startPointers := ps\<rparr>, opening)))))))"

section \<open>The pools\<close>

text \<open>One pool per worker and type; objects of a pool are reused after \<open>init\<close>.\<close>

record PartialWindowResultsFactory =
  pf_count :: int
  pf_poolSeqMem :: "PartialWindowResults list list"
  pf_poolPtrs :: "PartialWindowResults list list"
  pf_poolSeqMemResults :: "PartialWindowResults list list"

definition newPartialFactory :: "SystemConf \<Rightarrow> PartialWindowResultsFactory" where
  "newPartialFactory conf =
     (let pools = replicate (nat (WORKER_THREADS conf)) []
      in \<lparr>pf_count = 0, pf_poolSeqMem = pools, pf_poolPtrs = pools, pf_poolSeqMemResults = pools\<rparr>)"

definition popPool ::
  "PartialWindowResults \<Rightarrow> int \<Rightarrow> PartialWindowResults list list \<Rightarrow>
   (bool \<times> PartialWindowResults \<times> PartialWindowResults list list) res" where
  "popPool fresh pid pools =
     rbind (vget pools pid) (\<lambda>pool.
       case pool of
         [] \<Rightarrow> Inr (True, pw_init fresh, pools)
       | p # rest \<Rightarrow> rbind (vset pools pid rest) (\<lambda>pools. Inr (False, pw_init p, pools)))"

definition pf_newInstance ::
  "SystemConf \<Rightarrow> int \<Rightarrow> PartialWindowResultsFactory \<Rightarrow> (PartialWindowResults \<times> PartialWindowResultsFactory) res" where
  "pf_newInstance conf pid f =
     rbind (popPool (newPartialWindowResults conf pid (UNBOUNDED_BUFFER_SIZE conf) 0) pid (pf_poolSeqMem f))
       (\<lambda>(new, p, pools). Inr (p, f\<lparr>pf_count := pf_count f + (if new then 1 else 0), pf_poolSeqMem := pools\<rparr>))"

definition pf_newTyped ::
  "SystemConf \<Rightarrow> int \<Rightarrow> int \<Rightarrow> int \<Rightarrow> PartialWindowResultsFactory \<Rightarrow>
   (PartialWindowResults \<times> PartialWindowResultsFactory) res" where
  "pf_newTyped conf pid capacity type f =
     (if type = 1 then
        rbind (popPool (newPartialWindowResults conf pid capacity 1) pid (pf_poolPtrs f))
          (\<lambda>(new, p, pools). Inr (p, f\<lparr>pf_count := pf_count f + (if new then 1 else 0), pf_poolPtrs := pools\<rparr>))
      else if type = 2 then
        rbind (popPool (newPartialWindowResults conf pid capacity 2) pid (pf_poolSeqMemResults f))
          (\<lambda>(new, p, pools). Inr (p, f\<lparr>pf_count := pf_count f + (if new then 1 else 0), pf_poolSeqMemResults := pools\<rparr>))
      else Inl RuntimeError)"

definition pushPool :: "int \<Rightarrow> 'a \<Rightarrow> 'a list list \<Rightarrow> 'a list list res" where
  "pushPool pid p pools = rbind (vget pools pid) (\<lambda>pool. vset pools pid (pool @ [p]))"

definition pf_free ::
  "SystemConf \<Rightarrow> int \<Rightarrow> PartialWindowResults \<Rightarrow> PartialWindowResultsFactory \<Rightarrow> PartialWindowResultsFactory res" where
  "pf_free conf pid p f =
     (if pid \<ge> WORKER_THREADS conf then Inl RuntimeError
      else if pw_type p = 0 then rbind (pushPool pid p (pf_poolSeqMem f)) (\<lambda>ps. Inr (f\<lparr>pf_poolSeqMem := ps\<rparr>))
      else if pw_type p = 1 then rbind (pushPool pid p (pf_poolPtrs f)) (\<lambda>ps. Inr (f\<lparr>pf_poolPtrs := ps\<rparr>))
      else rbind (pushPool pid p (pf_poolSeqMemResults f)) (\<lambda>ps. Inr (f\<lparr>pf_poolSeqMemResults := ps\<rparr>)))"

section \<open>Windows after \<open>prepend\<close>\<close>

lemma write_at_before:
  "i + length r + length l \<le> length b \<Longrightarrow> write_at i r (write_at (i + length r) l b) = write_at i (r @ l) b"
  by (simp add: write_at_def ac_simps)

lemma list_update_write_at: "i < length b \<Longrightarrow> b[i := x] = write_at i [x] b"
  by (simp add: write_at_def upd_conv_take_nth_drop)

lemma write_at_Nil [simp]: "write_at i [] b = b"
  by (simp add: write_at_def)

lemma take_drop_write_at_before:
  "j + m \<le> i \<Longrightarrow> i + length vs \<le> length b \<Longrightarrow> take m (drop j (write_at i vs b)) = take m (drop j b)"
  by (simp add: write_at_def take_drop)

text \<open>The windows are stored one after the other, \<open>ws\<close> tuples each.\<close>

definition pw_regular :: "nat \<Rightarrow> PartialWindowResults \<Rightarrow> bool" where
  "pw_regular ws p \<longleftrightarrow> (\<forall>i. int i < pw_count p \<longrightarrow> pw_startPointers p ! i = int (i * ws))"

text \<open>The start pointers and the buffer after the windows \<open>k, \<dots>, n - 1\<close> have moved by \<open>a\<close> windows.\<close>

definition movedStarts :: "nat \<Rightarrow> nat \<Rightarrow> nat \<Rightarrow> nat \<Rightarrow> int list \<Rightarrow> int list" where
  "movedStarts ws a n k xs = write_at (k + a) (map (\<lambda>j. int ((j + a) * ws)) [k..<n]) xs"

definition movedBuffer :: "nat \<Rightarrow> nat \<Rightarrow> nat \<Rightarrow> nat \<Rightarrow> 'a list \<Rightarrow> 'a list" where
  "movedBuffer w a n k b = write_at ((k + a) * w) (take ((n - k) * w) (drop (k * w) b)) b"

lemma movedStarts_step:
  assumes "k < n" and "n + a \<le> length xs"
  shows "(movedStarts ws a n (Suc k) xs)[k + a := int ((k + a) * ws)] = movedStarts ws a n k xs"
proof -
  let ?m = "map (\<lambda>j. int ((j + a) * ws)) [Suc k..<n]"
  have "length (write_at (Suc k + a) ?m xs) = length xs" using assms by simp
  then have "(write_at (Suc k + a) ?m xs)[k + a := int ((k + a) * ws)]
      = write_at (k + a) [int ((k + a) * ws)] (write_at (k + a + length [int ((k + a) * ws)]) ?m xs)"
    using assms by (simp add: list_update_write_at)
  also have "\<dots> = write_at (k + a) ([int ((k + a) * ws)] @ ?m) xs"
    using assms by (intro write_at_before) simp
  finally show ?thesis using assms(1) by (simp add: movedStarts_def upt_conv_Cons)
qed

lemma movedBuffer_step:
  assumes "k < n" and "(n + a) * w \<le> length b"
  shows "write_at ((k + a) * w) (take w (drop (k * w) (movedBuffer w a n (Suc k) b))) (movedBuffer w a n (Suc k) b)
    = movedBuffer w a n k b"
proof -
  let ?m = "take ((n - Suc k) * w) (drop (Suc k * w) b)" and ?r = "take w (drop (k * w) b)"
  have n: "n * w = Suc k * w + (n - Suc k) * w" by (metis Suc_leI add_mult_distrib assms(1) le_add_diff_inverse)
  have len: "length ?m = (n - Suc k) * w" "length ?r = w"
    using assms(2) n by (auto simp: add_mult_distrib)
  have fit: "(Suc k + a) * w + length ?m \<le> length b"
    using assms(2) n by (simp add: add_mult_distrib len)
  have read: "take w (drop (k * w) (movedBuffer w a n (Suc k) b)) = ?r"
    using fit unfolding movedBuffer_def by (intro take_drop_write_at_before) (simp_all add: add_mult_distrib)
  have "write_at ((k + a) * w) ?r (write_at ((k + a) * w + w) ?m b) = write_at ((k + a) * w) (?r @ ?m) b"
    using fit write_at_before [of "(k + a) * w" ?r ?m b] by (simp only: len) (simp add: add_mult_distrib)
  moreover have "?r @ ?m = take ((n - k) * w) (drop (k * w) b)"
  proof -
    have "(n - k) * w = w + (n - Suc k) * w" using assms(1) by (simp flip: add_mult_distrib Suc_diff_Suc)
    then show ?thesis by (simp add: take_add add.commute)
  qed
  ultimately show ?thesis by (simp only: read) (simp add: movedBuffer_def add_mult_distrib ac_simps)
qed

lemma memread_nat: "i + n \<le> length b \<Longrightarrow> memread b (int i) (int n) = Inr (take n (drop i b))"
  by (simp add: memread_def)

lemma memcpy_to_nat: "i + length vs \<le> length b \<Longrightarrow> memcpy_to b (int i) vs = Inr (write_at i vs b)"
  by (simp add: memcpy_to_def)

lemma mod_64_small: "0 \<le> x \<Longrightarrow> x \<le> INT_MAX \<Longrightarrow> x mod 2 ^ 64 = (x :: int)"
  by (simp add: INT_MAX_def)

lemma pw_setPosition_seq:
  assumes "pw_type p = 0" and "0 \<le> pos" and "pos \<le> int (length (pw_buffer p))" and "int (length (pw_buffer p)) \<le> INT_MAX"
  shows "pw_setPosition pos p = Inr (p\<lparr>pw_position := pos\<rparr>)"
  using assms mod_64_small [of pos] by (simp add: pw_setPosition_def)

lemma length_moved:
  "k \<le> n \<Longrightarrow> n + a \<le> length xs \<Longrightarrow> length (movedStarts ws a n k xs) = length xs"
  "k \<le> n \<Longrightarrow> (n + a) * w \<le> length b \<Longrightarrow> length (movedBuffer w a n k b) = length b"
proof -
  show "length (movedStarts ws a n k xs) = length xs" if "k \<le> n" "n + a \<le> length xs"
    using that by (simp add: movedStarts_def)
  assume k: "k \<le> n" and fit: "(n + a) * w \<le> length b"
  have "(n - k) * w + k * w = n * w" using k by (simp flip: add_mult_distrib)
  then show "length (movedBuffer w a n k b) = length b"
    using fit by (simp add: movedBuffer_def add_mult_distrib)
qed

lemma shiftDown_step:
  fixes ws ts a n k :: nat
  defines "w \<equiv> ws * ts"
  assumes p: "pw_type p = 0" "pw_count p = int n" "pw_regular ws p"
    and fit: "n + a \<le> length (pw_startPointers p)" "(n + a) * w \<le> length (pw_buffer p)"
      "int (length (pw_buffer p)) \<le> INT_MAX"
    and k: "k < n" "0 < a"
  shows "shiftDownSeq (int a) (int (a * ws)) (int ws) (int ts) (int k)
      (p\<lparr>pw_startPointers := movedStarts ws a n (Suc k) (pw_startPointers p),
         pw_buffer := movedBuffer w a n (Suc k) (pw_buffer p), pw_position := x\<rparr>)
    = Inr (p\<lparr>pw_startPointers := movedStarts ws a n k (pw_startPointers p),
             pw_buffer := movedBuffer w a n k (pw_buffer p), pw_position := int ((k + a) * w)\<rparr>)"
proof -
  let ?ps = "movedStarts ws a n (Suc k) (pw_startPointers p)" and ?b = "movedBuffer w a n (Suc k) (pw_buffer p)"
  have len: "length ?ps = length (pw_startPointers p)" "length ?b = length (pw_buffer p)"
    using k fit by (simp_all add: length_moved)
  have s: "?ps ! k = int (k * ws)"
    using k fit p(2,3) by (auto simp: movedStarts_def write_at_def nth_append pw_regular_def)
  have upd: "?ps[k + a := int ((k + a) * ws)] = movedStarts ws a n k (pw_startPointers p)"
    using movedStarts_step [OF k(1) fit(1)] .
  then have s': "movedStarts ws a n k (pw_startPointers p) ! k = int (k * ws)"
    using s k(2) by (simp flip: upd)
  have inside: "(k + a) * w + w \<le> length (pw_buffer p)"
  proof -
    have "Suc (k + a) * w \<le> (n + a) * w" using k(1) by (intro mult_right_mono) auto
    then show ?thesis using fit(2) by simp
  qed
  have pos: "pw_setPosition (int ((k + a) * w)) (p\<lparr>pw_startPointers := ?ps, pw_buffer := ?b, pw_position := x\<rparr>)
      = Inr (p\<lparr>pw_startPointers := ?ps, pw_buffer := ?b, pw_position := int ((k + a) * w)\<rparr>)"
    using inside fit(3) p(1) by (subst pw_setPosition_seq) (simp_all add: len del: of_nat_mult of_nat_add)
  have far: "\<not> \<bar>int ((k + a) * w) - int (k * w)\<bar> < int w"
  proof -
    have "w \<le> a * w" using k(2) by simp
    then have "int w \<le> int (a * w)" by (rule of_nat_mono)
    then show ?thesis by (simp add: add_mult_distrib)
  qed
  have read: "memread ?b (int (k * w)) (int w) = Inr (take w (drop (k * w) ?b))"
    using inside by (intro memread_nat) (simp add: len add_mult_distrib)
  have "memcpy_to ?b (int ((k + a) * w)) (take w (drop (k * w) ?b)) = Inr (movedBuffer w a n k (pw_buffer p))"
    unfolding movedBuffer_step [OF k(1) fit(2), symmetric]
    by (rule memcpy_to_nat) (use inside in \<open>simp add: len add_mult_distrib\<close>)
  then have copy: "memcpy_within ?b (int ((k + a) * w)) (int (k * w)) (int w) = Inr (movedBuffer w a n k (pw_buffer p))"
    using far read by (simp add: memcpy_within_def)
  have idx: "int (k * ws) + int (a * ws) = int ((k + a) * ws)" "int ((k + a) * ws) * int ts = int ((k + a) * w)"
      "int (k * ws) * int ts = int (k * w)" "int ws * int ts = int w" "int k + int a = int (k + a)"
    by (simp_all add: w_def algebra_simps)
  show ?thesis
    using k fit(1) pos copy s s' upd
    by (simp add: shiftDownSeq_def vget_def vset_def len idx del: of_nat_add of_nat_mult)
qed

lemma shiftDown_loop:
  fixes ws ts a n k :: nat
  defines "w \<equiv> ws * ts"
  assumes "pw_type p = 0" "pw_count p = int n" "pw_regular ws p"
    and "n + a \<le> length (pw_startPointers p)" "(n + a) * w \<le> length (pw_buffer p)"
      "int (length (pw_buffer p)) \<le> INT_MAX"
    and "k \<le> n" "0 < a"
  shows "\<exists>y. rfold (shiftDownSeq (int a) (int (a * ws)) (int ws) (int ts)) (rev (map int [0..<k]))
      (p\<lparr>pw_startPointers := movedStarts ws a n k (pw_startPointers p),
         pw_buffer := movedBuffer w a n k (pw_buffer p), pw_position := x\<rparr>)
    = Inr (p\<lparr>pw_startPointers := movedStarts ws a n 0 (pw_startPointers p),
             pw_buffer := movedBuffer w a n 0 (pw_buffer p), pw_position := y\<rparr>)"
  using assms(8)
proof (induction k arbitrary: x)
  case 0
  then show ?case by auto
next
  case (Suc k)
  note step = shiftDown_step [of p n ws a ts k x, folded w_def, OF assms(2-7) _ assms(9)]
  show ?case using Suc.IH [of "int ((k + a) * w)"] Suc.prems step by simp
qed

text \<open>The start pointers and the buffer after \<open>i\<close> windows have been copied to the front.\<close>

definition filledStarts :: "nat \<Rightarrow> nat \<Rightarrow> int list \<Rightarrow> int list" where
  "filledStarts ws i xs = write_at 0 (map (\<lambda>j. int (j * ws)) [0..<i]) xs"

definition filledBuffer :: "nat \<Rightarrow> nat \<Rightarrow> nat \<Rightarrow> 'a list \<Rightarrow> 'a list \<Rightarrow> 'a list" where
  "filledBuffer w s i src b = write_at 0 (take (i * w) (drop (s * w) src)) b"

lemma filledStarts_step:
  assumes "i < length xs"
  shows "(filledStarts ws i xs)[i := int (i * ws)] = filledStarts ws (Suc i) xs"
proof -
  let ?m = "map (\<lambda>j. int (j * ws)) [0..<i]"
  have "(write_at 0 ?m xs)[i := int (i * ws)] = write_at (0 + length ?m) [int (i * ws)] (write_at 0 ?m xs)"
    using assms by (subst list_update_write_at) simp_all
  also have "\<dots> = write_at 0 (?m @ [int (i * ws)]) xs" using assms by (intro write_at_adjacent) simp
  finally show ?thesis by (simp add: filledStarts_def)
qed

lemma filledBuffer_step:
  assumes "Suc i * w \<le> length b" and "(s + Suc i) * w \<le> length src"
  shows "write_at (i * w) (take w (drop ((s + i) * w) src)) (filledBuffer w s i src b) = filledBuffer w s (Suc i) src b"
proof -
  let ?m = "take (i * w) (drop (s * w) src)" and ?r = "take w (drop ((s + i) * w) src)"
  have len: "length ?m = i * w" "length ?r = w" using assms(2) by (auto simp: add_mult_distrib)
  have "write_at (0 + length ?m) ?r (write_at 0 ?m b) = write_at 0 (?m @ ?r) b"
    by (rule write_at_adjacent) (use assms(1) len in simp)
  moreover have "?m @ ?r = take (Suc i * w) (drop (s * w) src)"
    using take_add [of "i * w" w "drop (s * w) src"] by (simp add: distrib_right add.commute)
  ultimately show ?thesis using len by (simp add: filledBuffer_def)
qed

lemma length_filled:
  "i \<le> length xs \<Longrightarrow> length (filledStarts ws i xs) = length xs"
  "i * w \<le> length b \<Longrightarrow> length (filledBuffer w s i src b) = length b"
  by (simp_all add: filledStarts_def filledBuffer_def min_def)

lemma copyIn_step:
  fixes ws ts a s i :: nat
  defines "w \<equiv> ws * ts"
  assumes p: "pw_type p = 0" and o: "pw_type q = 0" "pw_regular ws q"
    and fit: "a \<le> length (pw_startPointers p)" "a * w \<le> length (pw_buffer p)"
      "int (length (pw_buffer p)) \<le> INT_MAX" "int (s + a) \<le> pw_count q" "pw_count q \<le> int (length (pw_startPointers q))"
      "(s + a) * w \<le> length (pw_buffer q)"
    and i: "i < a"
  shows "copyInSeq q (int s) (int (s * ws)) (int ws) (int ts) (int i)
      (p\<lparr>pw_startPointers := filledStarts ws i (pw_startPointers p),
         pw_buffer := filledBuffer w s i (pw_buffer q) (pw_buffer p), pw_position := x\<rparr>)
    = Inr (p\<lparr>pw_startPointers := filledStarts ws (Suc i) (pw_startPointers p),
             pw_buffer := filledBuffer w s (Suc i) (pw_buffer q) (pw_buffer p), pw_position := int (i * w)\<rparr>)"
proof -
  let ?ps = "filledStarts ws i (pw_startPointers p)" and ?b = "filledBuffer w s i (pw_buffer q) (pw_buffer p)"
  have le: "Suc i * w \<le> a * w" "(s + Suc i) * w \<le> (s + a) * w" using i by (intro mult_right_mono; simp)+
  then have le': "i * w \<le> length (pw_buffer p)" using fit(2) by simp
  have len: "length ?ps = length (pw_startPointers p)" "length ?b = length (pw_buffer p)"
    using i fit(1) le' by (simp_all add: length_filled)
  have st: "pw_getStartPointer (int (s + i)) q = Inr (int ((s + i) * ws))"
    using i fit(4,5) o(2) by (simp add: pw_getStartPointer_def vget_def pw_regular_def nat_add_distrib)
  have pos: "pw_setPosition (int (i * w)) (p\<lparr>pw_startPointers := ?ps, pw_buffer := ?b, pw_position := x\<rparr>)
      = Inr (p\<lparr>pw_startPointers := ?ps, pw_buffer := ?b, pw_position := int (i * w)\<rparr>)"
    using le' fit(3) p by (subst pw_setPosition_seq) (simp_all add: len del: of_nat_mult)
  have src: "(s + i) * w + w \<le> length (pw_buffer q)" using le(2) fit(6) by simp
  then have read: "memread (pw_buffer q) (int ((s + i) * w)) (int w) = Inr (take w (drop ((s + i) * w) (pw_buffer q)))"
    by (rule memread_nat)
  have "Suc i * w \<le> length (pw_buffer p)" "(s + Suc i) * w \<le> length (pw_buffer q)" using le fit(2,6) by linarith+
  note step = filledBuffer_step [OF this]
  have copy: "memcpy_to ?b (int (i * w)) (take w (drop ((s + i) * w) (pw_buffer q)))
      = Inr (filledBuffer w s (Suc i) (pw_buffer q) (pw_buffer p))"
    unfolding step [symmetric] by (rule memcpy_to_nat) (use le(1) fit(2) src in \<open>simp add: len\<close>)
  have idx: "int s + int i = int (s + i)" "int ((s + i) * ws) - int (s * ws) = int (i * ws)"
      "int (i * ws) * int ts = int (i * w)" "int ws * int ts = int w" "int ((s + i) * ws) * int ts = int ((s + i) * w)"
    by (simp_all add: w_def algebra_simps)
  have upd: "vset ?ps (int i) (int (i * ws)) = Inr (filledStarts ws (Suc i) (pw_startPointers p))"
    using i fit(1) by (simp add: vset_def len filledStarts_step del: of_nat_mult)
  show ?thesis
    using st upd pos read copy o(1) by (simp add: copyInSeq_def pw_getBuffer_def idx del: of_nat_add of_nat_mult)
qed

lemma copyIn_loop:
  fixes ws ts a s i :: nat
  defines "w \<equiv> ws * ts"
  assumes "pw_type p = 0" and "pw_type q = 0" "pw_regular ws q"
    and "a \<le> length (pw_startPointers p)" "a * w \<le> length (pw_buffer p)"
      "int (length (pw_buffer p)) \<le> INT_MAX" "int (s + a) \<le> pw_count q" "pw_count q \<le> int (length (pw_startPointers q))"
      "(s + a) * w \<le> length (pw_buffer q)"
    and "i \<le> a"
  shows "\<exists>y. rfold (copyInSeq q (int s) (int (s * ws)) (int ws) (int ts)) (map int [0..<i]) p
    = Inr (p\<lparr>pw_startPointers := filledStarts ws i (pw_startPointers p),
             pw_buffer := filledBuffer w s i (pw_buffer q) (pw_buffer p), pw_position := y\<rparr>)"
  using assms(11)
proof (induction i)
  case 0
  show ?case by (rule exI [of _ "pw_position p"]) (simp add: filledStarts_def filledBuffer_def)
next
  case (Suc i)
  then obtain y where "rfold (copyInSeq q (int s) (int (s * ws)) (int ws) (int ts)) (map int [0..<i]) p
    = Inr (p\<lparr>pw_startPointers := filledStarts ws i (pw_startPointers p),
             pw_buffer := filledBuffer w s i (pw_buffer q) (pw_buffer p), pw_position := y\<rparr>)" by auto
  moreover note copyIn_step [of p q ws a ts s i y, folded w_def, OF assms(2-10)]
  ultimately have "rfold (copyInSeq q (int s) (int (s * ws)) (int ws) (int ts)) (map int [0..<Suc i]) p
    = Inr (p\<lparr>pw_startPointers := filledStarts ws (Suc i) (pw_startPointers p),
             pw_buffer := filledBuffer w s (Suc i) (pw_buffer q) (pw_buffer p), pw_position := int (i * w)\<rparr>)"
    using Suc.prems by (simp add: rfold_append)
  then show ?case by (rule exI)
qed

lemma moved_all [simp]: "movedStarts ws a n n xs = xs" "movedBuffer w a n n b = b"
  by (simp_all add: movedStarts_def movedBuffer_def)

lemma prepended_buffer:
  assumes "(n + a) * w \<le> length b" and "(s + a) * w \<le> length src"
  shows "filledBuffer w s a src (movedBuffer w a n 0 b)
    = take (a * w) (drop (s * w) src) @ take (n * w) b @ drop ((n + a) * w) b"
proof -
  have "length (take (a * w) (drop (s * w) src)) = a * w" using assms(2) by (simp add: add_mult_distrib)
  then show ?thesis
    using assms(1) by (simp add: filledBuffer_def movedBuffer_def write_at_def add_mult_distrib add.commute)
qed

lemma prepended_starts:
  assumes "n + a < length xs" and "i \<le> n + a"
  shows "(filledStarts ws a (movedStarts ws a n 0 xs))[n + a := int ((n + a) * ws)] ! i = int (i * ws)"
proof (cases "i = n + a")
  case True
  then show ?thesis using assms by (simp add: length_filled length_moved del: of_nat_mult)
next
  case False
  then have "filledStarts ws a (movedStarts ws a n 0 xs) ! i = int (i * ws)"
    using assms
    by (auto simp: filledStarts_def movedStarts_def nth_write_at length_moved simp del: of_nat_mult upt_Suc)
  with False show ?thesis by simp
qed

lemma pw_getStartPointer_regular:
  assumes "pw_regular ws q" and "int i < pw_count q" and "pw_count q \<le> int (length (pw_startPointers q))"
  shows "pw_getStartPointer (int i) q = Inr (int (i * ws))"
  using assms by (simp add: pw_getStartPointer_def vget_def pw_regular_def)

lemma prepend_offset:
  assumes "0 < a" and "int (a * ws) \<le> INT_MAX"
  shows "to_int32 (int ((s + a - 1) * ws) - int (s * ws) + int ws) = int (a * ws)"
proof -
  have "(s + a - 1) * ws + ws = s * ws + a * ws" using assms(1) by (cases a) (simp_all add: add_mult_distrib)
  then have "int ((s + a - 1) * ws) - int (s * ws) + int ws = int (a * ws)"
    by linarith
  then show ?thesis using assms(2) by (simp add: to_int32_id INT_MIN_def del: of_nat_mult)
qed

lemma prepend_windows_ok:
  fixes ws ts a n s :: nat
  defines "w \<equiv> ws * ts"
  assumes p: "pw_type p = 0" "pw_count p = int n" "pw_regular ws p"
    and q: "pw_type q = 0" "pw_regular ws q" "int (s + a) \<le> pw_count q" "pw_count q \<le> int (length (pw_startPointers q))"
      "(s + a) * w \<le> length (pw_buffer q)"
    and fit: "int (n + a) < pw_partialWindows p" "pw_partialWindows p \<le> int (length (pw_startPointers p))"
      "(n + a) * w \<le> length (pw_buffer p)" "int (length (pw_buffer p)) \<le> INT_MAX"
    and pos: "0 < a" "0 < ts"
  shows "\<exists>p'. pw_prepend (int s) (int a) (int ws) (int ts) q p = Inr (p', q)
    \<and> pw_count p' = int (n + a)
    \<and> pw_buffer p' = take (a * w) (drop (s * w) (pw_buffer q)) @ take (n * w) (pw_buffer p) @ drop ((n + a) * w) (pw_buffer p)
    \<and> (\<forall>i \<le> n + a. pw_startPointers p' ! i = int (i * ws))
    \<and> length (pw_startPointers p') = length (pw_startPointers p) \<and> pw_type p' = 0
    \<and> pw_partialWindows p' = pw_partialWindows p \<and> pw_pid p' = pw_pid p \<and> pw_position p' = int ((n + a) * ws)"
proof -
  let ?xs = "pw_startPointers p" and ?b = "pw_buffer p"
  have lens: "n + a < length ?xs" "a * w \<le> length ?b" "a \<le> length ?xs" "n + a \<le> length ?xs"
    using fit by (auto simp: add_mult_distrib)
  have small: "(n + a) * ws \<le> length ?b"
  proof -
    have "(n + a) * ws \<le> (n + a) * w" using pos(2) by (simp add: w_def)
    then show ?thesis using fit(3) by linarith
  qed
  have st: "pw_getStartPointer (int s) q = Inr (int (s * ws))"
      "pw_getStartPointer (int s + int a - 1) q = Inr (int ((s + a - 1) * ws))"
    using pw_getStartPointer_regular [OF q(2) _ q(4), of s] pw_getStartPointer_regular [OF q(2) _ q(4), of "s + a - 1"]
      q(3) pos(1) by (simp_all add: of_nat_diff)
  have off: "to_int32 (int ((s + a - 1) * ws) - int (s * ws) + int ws) = int (a * ws)"
    using prepend_offset [OF pos(1), of ws s] small fit(4) by (simp add: add_mult_distrib del: of_nat_mult)
  obtain y where one: "rfold (shiftDownSeq (int a) (int (a * ws)) (int ws) (int ts)) (rev (map int [0..<n])) p
      = Inr (p\<lparr>pw_startPointers := movedStarts ws a n 0 ?xs, pw_buffer := movedBuffer w a n 0 ?b, pw_position := y\<rparr>)"
    using shiftDown_loop [of p n ws a ts n "pw_position p", folded w_def, OF p lens(4) fit(3,4) _ pos(1)] by auto
  let ?p1 = "p\<lparr>pw_startPointers := movedStarts ws a n 0 ?xs, pw_buffer := movedBuffer w a n 0 ?b, pw_position := y\<rparr>"
  have lens1: "length (movedStarts ws a n 0 ?xs) = length ?xs" "length (movedBuffer w a n 0 ?b) = length ?b"
    using lens(4) fit(3) by (simp_all add: length_moved)
  let ?ps = "filledStarts ws a (movedStarts ws a n 0 ?xs)"
  let ?b' = "filledBuffer w s a (pw_buffer q) (movedBuffer w a n 0 ?b)"
  obtain z where two: "rfold (copyInSeq q (int s) (int (s * ws)) (int ws) (int ts)) (map int [0..<a]) ?p1
      = Inr (?p1\<lparr>pw_startPointers := ?ps, pw_buffer := ?b', pw_position := z\<rparr>)"
    using copyIn_loop [of ?p1 q ws a ts s a, folded w_def] p(1) q lens fit(4) lens1 by auto
  let ?p2 = "p\<lparr>pw_startPointers := ?ps, pw_buffer := ?b', pw_position := z, pw_count := int (n + a)\<rparr>"
  have len2: "length ?ps = length ?xs" "length ?b' = length ?b"
    using lens lens1 by (simp_all add: length_filled)
  have set: "pw_setPosition (int ((n + a) * ws)) ?p2 = Inr (?p2\<lparr>pw_position := int ((n + a) * ws)\<rparr>)"
    using small fit(4) p(1) len2 by (intro pw_setPosition_seq) (simp_all del: of_nat_mult of_nat_add)
  have "int ((n + a) * ws) \<le> INT_MAX" using small fit(4) by linarith
  then have "to_int32 (int ((n + a) * ws)) = int ((n + a) * ws)"
    by (intro to_int32_id) (simp_all add: INT_MIN_def del: of_nat_mult of_nat_add)
  then have last: "vset ?ps (int (n + a)) (to_int32 (int ((n + a) * ws))) = Inr (?ps[n + a := int ((n + a) * ws)])"
    using lens(1) len2 by (simp add: vset_def del: of_nat_mult of_nat_add)
  have guard: "int ((n + a) * ws) * int ts = int ((n + a) * w)" "int (n + a) * int ws = int ((n + a) * ws)"
      "int n + int a = int (n + a)"
    by (simp_all add: w_def)
  have "pw_prepend (int s) (int a) (int ws) (int ts) q p
      = Inr (?p2\<lparr>pw_position := int ((n + a) * ws), pw_startPointers := ?ps[n + a := int ((n + a) * ws)]\<rparr>, q)"
    using fit(1,3) one two set last
    by (simp add: pw_prepend_def p(1,2) st off upto_nat guard rev_map Let_def
        del: of_nat_mult of_nat_add One_nat_def)
  then show ?thesis
    using prepended_buffer [OF fit(3) q(5)] prepended_starts [OF lens(1)] len2(1) p(1) by auto
qed

text \<open>Two windows of one tuple of eight bytes each, in front of one window.\<close>

definition demoPartial :: "int \<Rightarrow> byte list \<Rightarrow> int list \<Rightarrow> PartialWindowResults" where
  "demoPartial count buffer starts = \<lparr>pw_capacity = 32, pw_position = 0, pw_buffer = buffer, pw_bufferPtrs = [],
     pw_startPointers = starts, pw_partialWindows = 4, pw_pid = 0, pw_count = count, pw_type = 0\<rparr>"

text \<open>
  C24. With windows stored one after the other, \<open>prepend\<close> puts exactly the windows \<open>s, \<dots>, s + a - 1\<close>
  of the other object in front of the windows of this one, keeps those and everything behind them,
  and the start pointers of all windows are those of the new order.
\<close>

theorem prepend_windows:
  fixes ws ts a n s :: nat
  defines "w \<equiv> ws * ts"
  assumes p: "pw_type p = 0" "pw_count p = int n" "pw_regular ws p"
    and q: "pw_type q = 0" "pw_regular ws q" "int (s + a) \<le> pw_count q" "pw_count q \<le> int (length (pw_startPointers q))"
      "(s + a) * w \<le> length (pw_buffer q)"
    and fit: "int (n + a) < pw_partialWindows p" "pw_partialWindows p \<le> int (length (pw_startPointers p))"
      "(n + a) * w \<le> length (pw_buffer p)" "int (length (pw_buffer p)) \<le> INT_MAX"
    and pos: "0 < a" "0 < ts"
  shows "\<exists>p'. pw_prepend (int s) (int a) (int ws) (int ts) q p = Inr (p', q)
    \<and> pw_count p' = int (n + a)
    \<and> pw_buffer p' = take (a * w) (drop (s * w) (pw_buffer q)) @ take (n * w) (pw_buffer p) @ drop ((n + a) * w) (pw_buffer p)
    \<and> (\<forall>i \<le> n + a. pw_startPointers p' ! i = int (i * ws))"
  using prepend_windows_ok [where ws = ws and ts = ts, folded w_def, OF assms(2-)] by blast

theorem prepend_windows_witness:
  "\<exists>p'. pw_prepend 1 2 1 2 (demoPartial 3 [1, 1, 2, 2, 3, 3] [0, 1, 2, 3]) (demoPartial 1 [7, 7, 0, 0, 0, 0, 0, 0] [0, 0, 0, 0])
       = Inr (p', demoPartial 3 [1, 1, 2, 2, 3, 3] [0, 1, 2, 3])
     \<and> pw_buffer p' = [2, 2, 3, 3, 7, 7, 0, 0] \<and> pw_count p' = 3"
  using prepend_windows [of "demoPartial 1 [7, 7, 0, 0, 0, 0, 0, 0] [0, 0, 0, 0]" 1 1
      "demoPartial 3 [1, 1, 2, 2, 3, 3] [0, 1, 2, 3]" 1 2 2]
  by (auto simp add: demoPartial_def pw_regular_def INT_MAX_def less_Suc_eq eval_nat_numeral zless_nat_eq_int_zless)

section \<open>Arrays per window\<close>

lemma write_at_take_step:
  assumes "i < length xs" and "i < length ys"
  shows "(write_at 0 (take i ys) xs)[i := ys ! i] = write_at 0 (take (Suc i) ys) xs"
proof -
  have "(write_at 0 (take i ys) xs)[i := ys ! i] = write_at (0 + length (take i ys)) [ys ! i] (write_at 0 (take i ys) xs)"
    using assms by (subst list_update_write_at) simp_all
  also have "\<dots> = write_at 0 (take i ys @ [ys ! i]) xs" using assms by (intro write_at_adjacent) simp
  finally show ?thesis using assms(2) by (simp add: take_Suc_conv_app_nth)
qed

lemma swapIn_loop:
  fixes ws ts a s i :: nat
  assumes p: "pw_type p = 1" and q: "pw_type q = 1" "pw_regular ws q"
    and fit: "a \<le> length (pw_startPointers p)" "a \<le> length (pw_bufferPtrs p)" "a \<le> length (pw_bufferPtrs q)"
      "int (s + a) \<le> pw_count q" "pw_count q \<le> int (length (pw_startPointers q))"
      "int (a * (ws * ts)) \<le> pw_partialWindows p * pw_capacity p" "pw_partialWindows p * pw_capacity p \<le> INT_MAX"
    and i: "i \<le> a"
  shows "\<exists>y. rfold (swapInPtrs (int s) (int (s * ws)) (int ts)) (map int [0..<i]) (p, q)
    = Inr (p\<lparr>pw_startPointers := filledStarts ws i (pw_startPointers p),
             pw_bufferPtrs := write_at 0 (take i (pw_bufferPtrs q)) (pw_bufferPtrs p), pw_position := y\<rparr>,
           q\<lparr>pw_bufferPtrs := write_at 0 (take i (pw_bufferPtrs p)) (pw_bufferPtrs q)\<rparr>)"
  using i
proof (induction i)
  case 0
  show ?case by (rule exI [of _ "pw_position p"]) (simp add: filledStarts_def)
next
  case (Suc i)
  let ?p = "\<lambda>i y. p\<lparr>pw_startPointers := filledStarts ws i (pw_startPointers p),
             pw_bufferPtrs := write_at 0 (take i (pw_bufferPtrs q)) (pw_bufferPtrs p), pw_position := y\<rparr>"
  let ?q = "\<lambda>i. q\<lparr>pw_bufferPtrs := write_at 0 (take i (pw_bufferPtrs p)) (pw_bufferPtrs q)\<rparr>"
  have i: "i < a" using Suc.prems by simp
  obtain y where y: "rfold (swapInPtrs (int s) (int (s * ws)) (int ts)) (map int [0..<i]) (p, q) = Inr (?p i y, ?q i)"
    using Suc by auto
  have st: "pw_getStartPointer (int (s + i)) (?q i) = Inr (int ((s + i) * ws))"
    using i fit(4,5) q(2) by (intro pw_getStartPointer_regular) (simp_all add: pw_regular_def)
  have "i * (ws * ts) \<le> a * (ws * ts)" using i by (intro mult_right_mono) simp_all
  then have "int (i * (ws * ts)) \<le> pw_partialWindows p * pw_capacity p" using fit(6) by linarith
  then have pos: "pw_setPosition (int (i * (ws * ts))) (?p i y) = Inr (?p i (int (i * (ws * ts))))"
    using p fit(7) mod_64_small [of "int (i * (ws * ts))"] by (simp add: pw_setPosition_def del: of_nat_mult)
  have idx: "int s + int i = int (s + i)" "int ((s + i) * ws) - int (s * ws) = int (i * ws)"
      "int (i * ws) * int ts = int (i * (ws * ts))"
    by (simp_all add: algebra_simps)
  have nth: "write_at 0 (take i ys) xs ! i = xs ! i" if "i < length xs" "i < length ys" for xs ys :: "byte list list"
    using that by (simp add: nth_write_at)
  have "swapInPtrs (int s) (int (s * ws)) (int ts) (int i) (?p i y, ?q i) = Inr (?p (Suc i) (int (i * (ws * ts))), ?q (Suc i))"
    using st pos i fit(1-3) q(1)
    by (simp add: swapInPtrs_def pw_getBufferPtrs_def vget_def vset_def idx nth write_at_take_step
        length_filled filledStarts_step
        del: of_nat_mult of_nat_add)
  then show ?case using y by (auto simp: rfold_append)
qed

text \<open>
  With arrays per window, \<open>prepend\<close> does not take the windows \<open>s, \<dots>, s + a - 1\<close> of the other
  object: it always takes the arrays of its first \<open>a\<close> windows, whatever \<open>s\<close> is, while the start
  pointers are those of the windows from \<open>s\<close> on.
\<close>

theorem prepend_ptrs_takes_first:
  fixes ws ts a s :: nat
  assumes p: "pw_type p = 1" "pw_count p = 0" and q: "pw_type q = 1" "pw_regular ws q"
    and fit: "int a < pw_partialWindows p" "pw_partialWindows p \<le> int (length (pw_startPointers p))"
      "a \<le> length (pw_bufferPtrs p)" "a \<le> length (pw_bufferPtrs q)"
      "int (s + a) \<le> pw_count q" "pw_count q \<le> int (length (pw_startPointers q))"
      "int (a * (ws * ts)) \<le> pw_partialWindows p * pw_capacity p" "pw_partialWindows p * pw_capacity p \<le> INT_MAX"
    and pos: "0 < a" "0 < ts"
  shows "\<exists>p' q'. pw_prepend (int s) (int a) (int ws) (int ts) q p = Inr (p', q')
    \<and> (\<forall>i < a. pw_bufferPtrs p' ! i = pw_bufferPtrs q ! i)"
proof -
  have st: "pw_getStartPointer (int s) q = Inr (int (s * ws))"
      "pw_getStartPointer (int s + int a - 1) q = Inr (int ((s + a - 1) * ws))"
    using pw_getStartPointer_regular [OF q(2) _ fit(6), of s] pw_getStartPointer_regular [OF q(2) _ fit(6), of "s + a - 1"]
      fit(5) pos(1) by (simp_all add: of_nat_diff)
  have lens: "a < length (pw_startPointers p)" using fit(1,2) by linarith
  obtain y p1 q1 where loop: "rfold (swapInPtrs (int s) (int (s * ws)) (int ts)) (map int [0..<a]) (p, q) = Inr (p1, q1)"
    and p1: "p1 = p\<lparr>pw_startPointers := filledStarts ws a (pw_startPointers p),
             pw_bufferPtrs := write_at 0 (take a (pw_bufferPtrs q)) (pw_bufferPtrs p), pw_position := y\<rparr>"
    using swapIn_loop [OF p(1) q _ fit(3,4,5,6,7,8), of a] lens by auto
  have "a * ws \<le> a * (ws * ts)" using pos(2) by simp
  then have small: "int (a * ws) \<le> pw_partialWindows p * pw_capacity p" using fit(7) by linarith
  then have set: "pw_setPosition (int (a * ws)) (p1\<lparr>pw_count := int a\<rparr>) = Inr (p1\<lparr>pw_count := int a, pw_position := int (a * ws)\<rparr>)"
    using p(1) fit(8) mod_64_small [of "int (a * ws)"] by (simp add: pw_setPosition_def p1 del: of_nat_mult)
  obtain ps where last: "vset (pw_startPointers p1) (int a) (to_int32 (int (a * ws))) = Inr ps"
    using lens by (simp add: vset_def p1 length_filled)
  have guard: "int (a * ws) * int ts = int (a * (ws * ts))" "int a * int ws = int (a * ws)"
    by simp_all
  have "pw_prepend (int s) (int a) (int ws) (int ts) q p
      = Inr (p1\<lparr>pw_count := int a, pw_position := int (a * ws), pw_startPointers := ps\<rparr>, q1)"
    using fit(1,7) loop set last p
    by (simp add: pw_prepend_def st upto_nat guard Let_def del: of_nat_mult One_nat_def)
  then show ?thesis using fit(3,4) by (simp add: p1 nth_write_at)
qed

definition demoPtrs :: "int \<Rightarrow> byte list list \<Rightarrow> PartialWindowResults" where
  "demoPtrs count arrays = \<lparr>pw_capacity = 8, pw_position = 0, pw_buffer = [], pw_bufferPtrs = arrays,
     pw_startPointers = [0, 1, 2, 3], pw_partialWindows = 4, pw_pid = 0, pw_count = count, pw_type = 1\<rparr>"

theorem prepend_ptrs_takes_first_witness:
  "\<exists>p' q'. pw_prepend 2 1 1 8 (demoPtrs 3 [[1], [2], [3], [4]]) (demoPtrs 0 [[0], [0], [0], [0]]) = Inr (p', q')
     \<and> pw_bufferPtrs p' ! 0 = [1]"
  using prepend_ptrs_takes_first [of "demoPtrs 0 [[0], [0], [0], [0]]" "demoPtrs 3 [[1], [2], [3], [4]]" 1 1 2 8]
  by (auto simp: demoPtrs_def pw_regular_def INT_MAX_def less_Suc_eq eval_nat_numeral zless_nat_eq_int_zless)

lemma pw_increment_out_of_bounds:
  assumes "pw_count p = pw_partialWindows p" and "pw_partialWindows p = int (length (pw_startPointers p))"
  shows "pw_increment p = Inl Undefined"
  using assms by (simp add: pw_increment_def vset_def)

end
