(* ===== verification/FragmentSlots.thy ===== *)
theory FragmentSlots
  imports Tasks PartialWindows
begin

text \<open>
  The slot in which the result handler keeps the window fragments of a task (the struct
  \<open>PartialResultSlot\<close> of \<open>result/PartialResultSlot.h\<close>), and the merging of two neighbouring slots. The
  pointer \<open>m_next\<close> is the index of the next slot. The merge routine of the operator is generated at
  run time and is an argument: it gets the opening windows, the closing or pending windows, the complete
  windows and the two reference arguments, and returns their new values.
\<close>

section \<open>State\<close>

record FragmentSlot =
  fs_closingWindows :: "PartialWindowResults option"
  fs_pendingWindows :: "PartialWindowResults option"
  fs_openingWindows :: "PartialWindowResults option"
  fs_completeWindows :: "PartialWindowResults option"
  fs_slot :: int
  fs_index :: int
  fs_freePointer :: int
  fs_freeOffset :: int
  fs_clearCheckpoint :: bool
  fs_latch :: int
  fs_latencyMark :: int
  fs_numberOfFragments :: int
  fs_numberOfWindows :: int
  fs_numberOfCompleteWindows :: int
  fs_previousSlot :: int
  fs_taskId :: int
  fs_next :: "int option"
  fs_graph :: "(LineageGraph \<times> nat) option"

definition newFragmentSlot :: "int \<Rightarrow> FragmentSlot" where
  "newFragmentSlot index = \<lparr>fs_closingWindows = None, fs_pendingWindows = None, fs_openingWindows = None,
     fs_completeWindows = None, fs_slot = -1, fs_index = index, fs_freePointer = INT_MIN, fs_freeOffset = INT_MIN,
     fs_clearCheckpoint = False, fs_latch = 0, fs_latencyMark = -1, fs_numberOfFragments = 0, fs_numberOfWindows = 0,
     fs_numberOfCompleteWindows = 0, fs_previousSlot = -1, fs_taskId = -1, fs_next = None, fs_graph = None\<rparr>"

definition connectTo :: "int \<Rightarrow> FragmentSlot \<Rightarrow> FragmentSlot" where
  "connectTo nextSlot s = s\<lparr>fs_next := Some nextSlot\<rparr>"

section \<open>Initialisation and release\<close>

text \<open>
  The four objects the batch points to are passed along with it, in the order closing, pending,
  opening, complete.
\<close>

type_synonym window_objects =
  "PartialWindowResults option \<times> PartialWindowResults option \<times> PartialWindowResults option \<times> PartialWindowResults option"

definition fs_init :: "WindowBatch \<Rightarrow> window_objects \<Rightarrow> FragmentSlot \<Rightarrow> WindowBatch \<times> FragmentSlot" where
  "fs_init wb ws s =
     (case ws of (closing, pending, opening, complete) \<Rightarrow>
        (wb_clear wb,
         s\<lparr>fs_freePointer := wb_freePointer1 wb, fs_freeOffset := wb_streamEndPointer wb, fs_clearCheckpoint := False,
           fs_latencyMark := wb_latencyMark wb, fs_latch := 0, fs_taskId := wb_taskId wb,
           fs_closingWindows := closing, fs_openingWindows := opening, fs_pendingWindows := pending,
           fs_completeWindows := complete\<rparr>))"

definition fs_initWindow :: "WindowBatch \<Rightarrow> FragmentSlot \<Rightarrow> WindowBatch \<times> FragmentSlot" where
  "fs_initWindow wb s =
     (wb_clear wb,
      s\<lparr>fs_freePointer := wb_freePointer1 wb, fs_freeOffset := wb_streamEndPointer wb,
        fs_latencyMark := wb_latencyMark wb, fs_latch := 0, fs_taskId := wb_taskId wb, fs_clearCheckpoint := False\<rparr>)"

definition releaseWindows ::
  "SystemConf \<Rightarrow> (PartialWindowResults \<Rightarrow> bool) \<Rightarrow> PartialWindowResults option \<Rightarrow> PartialWindowResultsFactory \<Rightarrow>
   (PartialWindowResults option \<times> PartialWindowResultsFactory) res" where
  "releaseWindows conf P w f =
     (case w of
        None \<Rightarrow> Inr (None, f)
      | Some p \<Rightarrow> if P p then rbind (pf_free conf (pw_pid p) p f) (\<lambda>f. Inr (None, f)) else Inr (Some p, f))"

definition releaseAll ::
  "SystemConf \<Rightarrow> (PartialWindowResults \<Rightarrow> bool) \<Rightarrow> FragmentSlot \<Rightarrow> PartialWindowResultsFactory \<Rightarrow>
   (FragmentSlot \<times> PartialWindowResultsFactory) res" where
  "releaseAll conf P s f =
     rbind (releaseWindows conf P (fs_closingWindows s) f) (\<lambda>(closing, f).
     rbind (releaseWindows conf P (fs_openingWindows s) f) (\<lambda>(opening, f).
     rbind (releaseWindows conf P (fs_pendingWindows s) f) (\<lambda>(pending, f).
     rbind (releaseWindows conf P (fs_completeWindows s) f) (\<lambda>(complete, f).
       Inr (s\<lparr>fs_closingWindows := closing, fs_openingWindows := opening, fs_pendingWindows := pending,
              fs_completeWindows := complete\<rparr>, f)))))"

definition fs_freeGraph :: "FragmentSlot \<Rightarrow> LineageGraphFactory \<Rightarrow> (FragmentSlot \<times> LineageGraphFactory) res" where
  "fs_freeGraph s f =
     (case fs_graph s of
        None \<Rightarrow> Inr (s, f)
      | Some (g, others) \<Rightarrow>
          rbind (if others = 0 then freeGraph g 0 f else Inr f) (\<lambda>f. Inr (s\<lparr>fs_graph := None\<rparr>, f)))"

definition fs_release ::
  "SystemConf \<Rightarrow> FragmentSlot \<Rightarrow> PartialWindowResultsFactory \<Rightarrow> LineageGraphFactory \<Rightarrow>
   (FragmentSlot \<times> PartialWindowResultsFactory \<times> LineageGraphFactory) res" where
  "fs_release conf s f graphs =
     rbind (releaseAll conf (\<lambda>_. True) s f) (\<lambda>(s, f).
     rbind (fs_freeGraph s graphs) (\<lambda>(s, graphs). Inr (s, f, graphs)))"

definition releaseEmptyPartials ::
  "SystemConf \<Rightarrow> FragmentSlot \<Rightarrow> PartialWindowResultsFactory \<Rightarrow> (FragmentSlot \<times> PartialWindowResultsFactory) res" where
  "releaseEmptyPartials conf = releaseAll conf (\<lambda>p. pw_count p = 0)"

text \<open>\<open>tryRelease\<close> reads how many others own the three objects; the first component is its result.\<close>

definition tryReleaseOne ::
  "SystemConf \<Rightarrow> nat \<Rightarrow> PartialWindowResults option \<Rightarrow> PartialWindowResultsFactory \<Rightarrow>
   (int \<times> PartialWindowResults option \<times> PartialWindowResultsFactory) res" where
  "tryReleaseOne conf others w f =
     rbind (releaseWindows conf (\<lambda>p. pw_count p = 0 \<or> others = 0) w f) (\<lambda>(w, f).
       Inr (if w = None then 1 else 0, w, f))"

definition tryRelease ::
  "SystemConf \<Rightarrow> nat \<Rightarrow> nat \<Rightarrow> nat \<Rightarrow> FragmentSlot \<Rightarrow> PartialWindowResultsFactory \<Rightarrow>
   (bool \<times> FragmentSlot \<times> PartialWindowResultsFactory) res" where
  "tryRelease conf closingOwners openingOwners pendingOwners s f =
     rbind (tryReleaseOne conf closingOwners (fs_closingWindows s) f) (\<lambda>(c1, closing, f).
     rbind (tryReleaseOne conf openingOwners (fs_openingWindows s) f) (\<lambda>(c2, opening, f).
     rbind (tryReleaseOne conf pendingOwners (fs_pendingWindows s) f) (\<lambda>(c3, pending, f).
       Inr (c1 + c2 + c3 = 3,
            s\<lparr>fs_closingWindows := closing, fs_openingWindows := opening, fs_pendingWindows := pending,
              fs_completeWindows := None\<rparr>, f))))"

section \<open>Counters\<close>

definition windowsOf :: "PartialWindowResults option \<Rightarrow> int" where
  "windowsOf w = (case w of None \<Rightarrow> 0 | Some p \<Rightarrow> pw_count p)"

definition anyWindow :: "PartialWindowResults option \<Rightarrow> int" where
  "anyWindow w = (if windowsOf w > 0 then 1 else 0)"

definition getNumberOfWindowFragments :: "bool \<Rightarrow> FragmentSlot \<Rightarrow> int \<times> FragmentSlot" where
  "getNumberOfWindowFragments hasPtrs s =
     (let c = fs_closingWindows s; p = fs_pendingWindows s; o' = fs_openingWindows s; k = fs_completeWindows s;
          fragments = (if hasPtrs
                       then (if windowsOf c + windowsOf p + windowsOf o' + anyWindow k \<ge> 1 then 1 else 0)
                       else anyWindow c + anyWindow p + anyWindow o' + anyWindow k)
      in (fragments,
          s\<lparr>fs_numberOfCompleteWindows := windowsOf k,
            fs_numberOfWindows := windowsOf c + windowsOf p + windowsOf o' + windowsOf k,
            fs_numberOfFragments := fragments\<rparr>))"

definition fs_setPreviousSlot :: "int \<Rightarrow> FragmentSlot \<Rightarrow> FragmentSlot res" where
  "fs_setPreviousSlot prev s = (if prev \<noteq> 1 \<and> prev \<noteq> 3 then Inl RuntimeError else Inr (s\<lparr>fs_previousSlot := prev\<rparr>))"

definition fs_getPreviousSlot :: "FragmentSlot \<Rightarrow> int res" where
  "fs_getPreviousSlot s =
     (if fs_previousSlot s \<noteq> 1 \<and> fs_previousSlot s \<noteq> 3 then Inl RuntimeError else Inr (fs_previousSlot s))"

text \<open>A null pointer that is dereferenced is undefined behaviour.\<close>

definition isReady :: "FragmentSlot \<Rightarrow> bool res" where
  "isReady s =
     (case fs_closingWindows s of
        None \<Rightarrow> Inl Undefined
      | Some c \<Rightarrow>
          if pw_count c > 0 then Inr False
          else case fs_openingWindows s of
            None \<Rightarrow> Inl Undefined
          | Some o' \<Rightarrow>
              if pw_count o' > 0 then Inr False
              else case fs_pendingWindows s of None \<Rightarrow> Inl Undefined | Some p \<Rightarrow> Inr (\<not> pw_count p > 0))"

section \<open>Merging two slots\<close>

text \<open>
  A slot that was filled by a task has all four objects; \<open>aggregate\<close> is undefined behaviour on others.
\<close>

record aggr_ops =
  ag_hasGroupBy :: bool
  ag_aggregatePartials ::
    "PartialWindowResults \<Rightarrow> PartialWindowResults \<Rightarrow> PartialWindowResults \<Rightarrow> int \<Rightarrow> int \<Rightarrow> int \<Rightarrow> bool \<Rightarrow>
     (PartialWindowResults \<times> PartialWindowResults \<times> PartialWindowResults \<times> int \<times> int) res"

text \<open>The windows of the next slot that close: the opening ones are completed with them.\<close>

definition mergeClosing ::
  "aggr_ops \<Rightarrow> PartialWindowResults \<Rightarrow> PartialWindowResults \<Rightarrow> PartialWindowResults \<Rightarrow>
   (PartialWindowResults \<times> PartialWindowResults \<times> PartialWindowResults \<times> int \<times> int) res" where
  "mergeClosing aggr opening closing complete =
     (let k = pw_count closing in
      if k > 0 then
        if pw_count opening < k then Inl RuntimeError
        else
          rbind (ag_aggregatePartials aggr opening closing complete k 0 0 True)
            (\<lambda>(opening, closing, complete, pos, tupleSize).
          rbind (pw_setPosition pos complete) (\<lambda>complete.
          rbind (pw_incrementCount k complete) (\<lambda>complete.
            Inr (opening, pw_nullify closing, complete, pos, tupleSize))))
      else Inr (opening, closing, complete, 0, 0))"

text \<open>The windows that stay open take in the pending fragment and move to the next slot.\<close>

definition mergePending ::
  "SystemConf \<Rightarrow> aggr_ops \<Rightarrow> int \<Rightarrow> int \<Rightarrow> int \<Rightarrow> int \<Rightarrow> PartialWindowResults \<Rightarrow> PartialWindowResults \<Rightarrow> PartialWindowResults \<Rightarrow>
   PartialWindowResults \<Rightarrow>
   (PartialWindowResults \<times> PartialWindowResults \<times> PartialWindowResults \<times> PartialWindowResults) res" where
  "mergePending conf aggr next remaining pos tupleSize opening pending complete nextOpening =
     (if remaining \<noteq> 0 then
        if pw_count pending \<noteq> 1 then Inl RuntimeError
        else
          rbind (ag_aggregatePartials aggr opening pending complete remaining pos tupleSize False)
            (\<lambda>(opening, pending, complete, pos, tupleSize).
          let windowSize = (if ag_hasGroupBy aggr then HASH_TABLE_SIZE conf else 1) in
          rbind (pw_prepend next remaining windowSize tupleSize opening nextOpening) (\<lambda>(nextOpening, opening).
            Inr (opening, pw_nullify pending, complete, nextOpening)))
      else Inr (opening, pending, complete, nextOpening))"

definition aggregate ::
  "SystemConf \<Rightarrow> aggr_ops \<Rightarrow> FragmentSlot \<Rightarrow> FragmentSlot \<Rightarrow> (FragmentSlot \<times> FragmentSlot) res" where
  "aggregate conf aggr s n =
     (case (fs_openingWindows s, fs_completeWindows s, fs_closingWindows n, fs_pendingWindows n, fs_openingWindows n) of
        (Some opening, Some complete, Some closing, Some pending, Some nextOpening) \<Rightarrow>
          if pw_isEmpty opening then
            if \<not> pw_isEmpty closing \<or> \<not> pw_isEmpty pending then Inl RuntimeError
            else Inr (s\<lparr>fs_openingWindows := Some (pw_nullify opening)\<rparr>,
                      n\<lparr>fs_closingWindows := Some (pw_nullify closing), fs_pendingWindows := Some (pw_nullify pending)\<rparr>)
          else if pw_isEmpty closing \<and> pw_isEmpty pending then Inl RuntimeError
          else
            let k = pw_count closing; m = pw_count opening in
              rbind (mergeClosing aggr opening closing complete) (\<lambda>(opening, closing, complete, pos, tupleSize).
              rbind (mergePending conf aggr k (m - k) pos tupleSize opening pending complete nextOpening)
                (\<lambda>(opening, pending, complete, nextOpening).
                Inr (s\<lparr>fs_openingWindows := Some (pw_nullify opening), fs_completeWindows := Some complete\<rparr>,
                     n\<lparr>fs_closingWindows := Some closing, fs_pendingWindows := Some pending,
                       fs_openingWindows := Some nextOpening\<rparr>)))
      | _ \<Rightarrow> Inl Undefined)"

end
