(* ===== verification/ResultHandler.thy ===== *)
theory ResultHandler
  imports FragmentSlots QueryOps
begin

text \<open>
  The reordering of results (\<open>result/ResultHandler.cpp\<close>, \<open>result/PartialResultSlot.h\<close>) for
  operators without window fragments. The workers store the results of their tasks in a ring of
  slots, at the index of the task; whoever holds the forward lock passes the results on in the order
  of the ring. The value \<open>m_slot\<close> of a slot is -1 when it is free, 0 while it is filled, 1 when it
  waits and 2 while it is forwarded.

  The model covers a build without network output and a configuration without checkpoints. An
  exception inside the operation is a value \<open>Inl\<close>; the code catches it there and prints it, and when
  it was raised in the forwarding section the forward lock stays taken. The
  section that fills a slot and the section under the forward lock are one step each. The object an
  output pointer of a batch refers to is passed along with the batch. The dispatchers of the
  downstream queries are an argument: \<open>send\<close> gives the result of one of their \<open>tryDispatch\<close> calls
  on their state.
\<close>

section \<open>State and construction\<close>

record ResultSlot =
  rs_result :: "PartialWindowResults option"
  rs_index :: int
  rs_numberOfResults :: int
  rs_slot :: int
  rs_freePointer1 :: int
  rs_freePointer2 :: int
  rs_prevFreePointer1 :: int
  rs_prevFreePointer2 :: int
  rs_freeOffset1 :: int
  rs_freeOffset2 :: int
  rs_clearCheckpoint :: bool
  rs_latch :: int
  rs_latencyMark :: int
  rs_taskId :: int
  rs_previousSlot :: int
  rs_graph :: "(LineageGraph \<times> nat) option"

definition newResultSlot :: "int \<Rightarrow> ResultSlot" where
  "newResultSlot index = \<lparr>rs_result = None, rs_index = index, rs_numberOfResults = 0, rs_slot = -1,
     rs_freePointer1 = INT_MIN, rs_freePointer2 = INT_MIN, rs_prevFreePointer1 = INT_MIN,
     rs_prevFreePointer2 = INT_MIN, rs_freeOffset1 = INT_MIN, rs_freeOffset2 = INT_MIN,
     rs_clearCheckpoint = False, rs_latch = 0, rs_latencyMark = -1, rs_taskId = -1, rs_previousSlot = -1,
     rs_graph = None\<rparr>"

definition rs_getNumberOfResults :: "ResultSlot \<Rightarrow> int \<times> ResultSlot" where
  "rs_getNumberOfResults s = (1, s\<lparr>rs_numberOfResults := 1\<rparr>)"

definition rs_setPreviousSlot :: "int \<Rightarrow> ResultSlot \<Rightarrow> ResultSlot res" where
  "rs_setPreviousSlot prev s =
     (if prev \<noteq> 1 \<and> prev \<noteq> 3 then Inl RuntimeError else Inr (s\<lparr>rs_previousSlot := prev\<rparr>))"

definition rs_getPreviousSlot :: "ResultSlot \<Rightarrow> int res" where
  "rs_getPreviousSlot s = (if rs_previousSlot s \<noteq> 1 then Inl RuntimeError else Inr (rs_previousSlot s))"

definition rs_freeGraph :: "ResultSlot \<Rightarrow> LineageGraphFactory \<Rightarrow> (ResultSlot \<times> LineageGraphFactory) res" where
  "rs_freeGraph s f =
     (case rs_graph s of
        None \<Rightarrow> Inr (s, f)
      | Some (g, others) \<Rightarrow>
          rbind (if others = 0 then freeGraph g 0 f else Inr f) (\<lambda>f. Inr (s\<lparr>rs_graph := None\<rparr>, f)))"

text \<open>
  The calls of a downstream dispatcher, and the operations of the downstream queries. A downstream
  query is given by its number of upstream queries; \<open>None\<close> is a null pointer.
\<close>

datatype dispatch_call = ToFirstStream | SerialToFirstStream nat | SerialToSecondStream nat

type_synonym 'w sink_ops =
  "int \<Rightarrow> dispatch_call \<Rightarrow> byte list \<Rightarrow> int \<Rightarrow> int \<Rightarrow> (LineageGraph \<times> nat) option \<Rightarrow> 'w \<Rightarrow> (bool \<times> 'w) res"

record 'w ResultHandler =
  rh_queryId :: nat
  rh_operators :: "QueryOperator list"
  rh_isLeft :: bool
  rh_numberOfDownstreamQueries :: int
  rh_downstreamQueries :: "int option list"
  rh_downstream :: 'w
  rh_freeBuffer1 :: QueryBuffer
  rh_freeBuffer2 :: QueryBuffer
  rh_hasWindowFragments :: bool
  rh_maxTaskId :: int
  rh_nextToForward :: int
  rh_nextToAggregate :: int
  rh_totalOutputBytes :: int
  rh_numberOfSlots :: int
  rh_forwardId :: nat
  rh_hasRestored :: bool
  rh_graph :: "(LineageGraph \<times> nat) option"
  rh_resultsWithoutFrags :: "ResultSlot list"
  rh_results :: "FragmentSlot list"
  rh_graphs :: LineageGraphFactory
  rh_partials :: PartialWindowResultsFactory
  rh_latencies :: "int list"
  rh_freed :: "free_call list"

definition isMostDownstream :: "'w ResultHandler \<Rightarrow> bool" where
  "isMostDownstream h \<longleftrightarrow> rh_numberOfDownstreamQueries h = 0"

definition rh_getOperator :: "'w ResultHandler \<Rightarrow> QueryOperator res" where
  "rh_getOperator h = (case rh_operators h of [op] \<Rightarrow> Inr op | _ \<Rightarrow> Inl RuntimeError)"

definition newResultHandler ::
  "SystemConf \<Rightarrow> nat \<Rightarrow> QueryOperator list \<Rightarrow> bool \<Rightarrow> int option list \<Rightarrow> 'w \<Rightarrow> int option \<Rightarrow>
   QueryBuffer \<Rightarrow> QueryBuffer \<Rightarrow> bool \<Rightarrow> LineageGraphFactory \<Rightarrow> PartialWindowResultsFactory \<Rightarrow> 'w ResultHandler" where
  "newResultHandler conf queryId operators isLeft downstreamQueries downstream configSlots freeBuffer1 freeBuffer2
     hasWindowFragments graphs partials =
     (let n = (case configSlots of None \<Rightarrow> SLOTS conf | Some k \<Rightarrow> k)
      in \<lparr>rh_queryId = queryId, rh_operators = operators, rh_isLeft = isLeft,
          rh_numberOfDownstreamQueries = int (length (takeWhile (\<lambda>x. x \<noteq> None) downstreamQueries)),
          rh_downstreamQueries = downstreamQueries, rh_downstream = downstream,
          rh_freeBuffer1 = freeBuffer1, rh_freeBuffer2 = freeBuffer2, rh_hasWindowFragments = hasWindowFragments,
          rh_maxTaskId = 0, rh_nextToForward = 0, rh_nextToAggregate = 0, rh_totalOutputBytes = 0,
          rh_numberOfSlots = n, rh_forwardId = 0, rh_hasRestored = False, rh_graph = None,
          rh_resultsWithoutFrags = (if hasWindowFragments then [] else map newResultSlot [0..n - 1]),
          rh_results = (if hasWindowFragments
                        then map (\<lambda>i. connectTo (if i = n - 1 then 0 else i + 1) (newFragmentSlot i)) [0..n - 1] else []),
          rh_graphs = graphs, rh_partials = partials,
          rh_latencies = [], rh_freed = []\<rparr>)"

definition incTotalOutputBytes :: "int \<Rightarrow> 'w ResultHandler \<Rightarrow> 'w ResultHandler" where
  "incTotalOutputBytes bytes h = h\<lparr>rh_totalOutputBytes := rh_totalOutputBytes h + bytes\<rparr>"

definition updateMaximumTaskId :: "int \<Rightarrow> 'w ResultHandler \<Rightarrow> 'w ResultHandler" where
  "updateMaximumTaskId v h = h\<lparr>rh_maxTaskId := (if rh_maxTaskId h < v then v else rh_maxTaskId h)\<rparr>"

definition restorePtrs :: "int \<Rightarrow> 'w ResultHandler \<Rightarrow> 'w ResultHandler res" where
  "restorePtrs taskId h =
     (if rh_hasRestored h then Inr h
      else if rh_numberOfSlots h = 0 then Inl Undefined
      else let taskIdx = (taskId - 1) smod rh_numberOfSlots h
           in Inr (h\<lparr>rh_nextToForward := taskIdx, rh_nextToAggregate := taskIdx, rh_hasRestored := True\<rparr>))"

section \<open>Storing a result\<close>

abbreviation slots :: "'w ResultHandler \<Rightarrow> ResultSlot list" where
  "slots h \<equiv> rh_resultsWithoutFrags h"

definition setSlot :: "int \<Rightarrow> (ResultSlot \<Rightarrow> ResultSlot) \<Rightarrow> 'w ResultHandler \<Rightarrow> 'w ResultHandler res" where
  "setSlot i f h =
     rbind (vget (slots h) i) (\<lambda>s. rbind (vset (slots h) i (f s)) (\<lambda>ss. Inr (h\<lparr>rh_resultsWithoutFrags := ss\<rparr>)))"

text \<open>
  The waiting loop over \<open>compare_exchange_weak(oldVal, 0)\<close>. A failed exchange stores the value it
  has found into \<open>oldVal\<close>. Between two attempts the other threads act on the handler.
\<close>

partial_function (option) reserveSlot ::
  "(nat \<Rightarrow> 'w ResultHandler \<Rightarrow> 'w ResultHandler) \<Rightarrow> int \<Rightarrow> int \<Rightarrow> nat \<Rightarrow> 'w ResultHandler \<Rightarrow>
   'w ResultHandler res option" where
  "reserveSlot others idx oldVal n h =
     (case vget (slots h) idx of
        Inl e \<Rightarrow> Some (Inl e)
      | Inr s \<Rightarrow>
          if rs_slot s = oldVal then Some (setSlot idx (\<lambda>s. s\<lparr>rs_slot := 0\<rparr>) h)
          else reserveSlot others idx (rs_slot s) (Suc n) (others n h))"

text \<open>Filling the reserved slot with the result of a batch.\<close>

definition fillSlot ::
  "SystemConf \<Rightarrow> WindowBatch \<Rightarrow> PartialWindowResults option \<Rightarrow> ResultSlot \<Rightarrow> ResultSlot" where
  "fillSlot conf wb result s =
     (let s = s\<lparr>rs_freePointer1 := wb_freePointer1 wb, rs_freePointer2 := wb_freePointer2 wb,
                rs_prevFreePointer1 := wb_prevFreePointer1 wb, rs_prevFreePointer2 := wb_prevFreePointer2 wb,
                rs_result := result, rs_latch := 0, rs_latencyMark := wb_latencyMark wb\<rparr>;
          s = (if LINEAGE_ON conf then s\<lparr>rs_graph := wb_graph wb, rs_freeOffset1 := wb_streamEndPointer wb\<rparr> else s)
      in s\<lparr>rs_taskId := wb_taskId wb, rs_slot := 1\<rparr>)"

definition storeResult ::
  "SystemConf \<Rightarrow> (nat \<Rightarrow> 'w ResultHandler \<Rightarrow> 'w ResultHandler) \<Rightarrow> WindowBatch \<Rightarrow> PartialWindowResults option \<Rightarrow>
   'w ResultHandler \<Rightarrow> (WindowBatch \<times> 'w ResultHandler) res option" where
  "storeResult conf others wb result h =
     (if rh_numberOfSlots h = 0 then Some (Inl Undefined)
      else
        let idx = (wb_taskId wb - 1) smod rh_numberOfSlots h in
        map_option (\<lambda>r. rbind r (\<lambda>h. rbind (setSlot idx (fillSlot conf wb result) h) (\<lambda>h.
            Inr (if LINEAGE_ON conf then setLineageGraph None wb else wb, updateMaximumTaskId (wb_taskId wb) h))))
          (reserveSlot others idx (-1) 0 h))"

section \<open>Forwarding results\<close>

text \<open>The call a result is passed on with.\<close>

definition dispatchCall :: "int \<Rightarrow> 'w ResultHandler \<Rightarrow> dispatch_call" where
  "dispatchCall ups h =
     (if rh_isLeft h then (if ups = 1 then ToFirstStream else SerialToFirstStream (rh_forwardId h))
      else SerialToSecondStream (rh_forwardId h))"

text \<open>
  The loop over the downstream queries, from the latch of the slot on. When a query does not accept
  the result, its number becomes the latch and the result is kept.
\<close>

fun sendAll ::
  "'w sink_ops \<Rightarrow> byte list \<Rightarrow> int \<Rightarrow> int list \<Rightarrow> ResultSlot \<Rightarrow> 'w ResultHandler \<Rightarrow>
   (bool \<times> ResultSlot \<times> 'w ResultHandler) res" where
  "sendAll send data len [] s h = Inr (True, s, h)"
| "sendAll send data len (q # qs) s h =
     rbind (vget (rh_downstreamQueries h) q) (\<lambda>query.
       case query of
         None \<Rightarrow> sendAll send data len qs s h
       | Some ups \<Rightarrow>
           rbind (send q (dispatchCall ups h) data len (rs_latencyMark s) (rs_graph s) (rh_downstream h)) (\<lambda>(success, w).
             if success
             then sendAll send data len qs (s\<lparr>rs_graph := None\<rparr>)
                    (h\<lparr>rh_downstream := w, rh_forwardId := rh_forwardId h + 1\<rparr>)
             else Inr (False, s\<lparr>rs_latch := q\<rparr>, h\<lparr>rh_downstream := w\<rparr>)))"

definition markLatency :: "SystemConf \<Rightarrow> ResultSlot \<Rightarrow> PartialWindowResults \<Rightarrow> PartialWindowResults res" where
  "markLatency conf s p =
     (if LATENCY_ON conf \<and> rs_latencyMark s \<noteq> -1
      then rbind (pw_getLong 0 p) (\<lambda>v. pw_putLong 0 (packLong (rs_latencyMark s) (tupleTimestampLong v)) p)
      else Inr p)"

text \<open>The graph that is forwarded: that of the slot, merged with the one the handler has kept.\<close>

definition forwardGraph ::
  "SystemConf \<Rightarrow> int \<Rightarrow> ResultSlot \<Rightarrow> 'w ResultHandler \<Rightarrow> (ResultSlot \<times> 'w ResultHandler) res" where
  "forwardGraph conf len s h =
     (if LINEAGE_ON conf \<and> (rs_graph s \<noteq> None \<or> rh_graph h \<noteq> None) then
        rbind (case (rh_graph h, rs_graph s) of
                 (Some hg, Some (g, others)) \<Rightarrow>
                   rbind (mergeGraphsRelease g hg (rh_graphs h)) (\<lambda>(g, f). Inr ((g, others), f))
               | (Some hg, None) \<Rightarrow> Inr (hg, rh_graphs h)
               | (None, Some g) \<Rightarrow> Inr (g, rh_graphs h)
               | (None, None) \<Rightarrow> Inl Undefined) (\<lambda>((g, others), f).
        rbind (setOutputPtr g (rh_queryId h) (rh_totalOutputBytes h + len)) (\<lambda>g.
          Inr (s\<lparr>rs_graph := Some (g, others)\<rparr>, h\<lparr>rh_graph := None, rh_graphs := f\<rparr>)))
      else Inr (s, h))"

text \<open>With lineage on, results below the persisted output offset have been sent before a failure.\<close>

definition isDuplicate :: "SystemConf \<Rightarrow> int \<Rightarrow> 'w ResultHandler \<Rightarrow> bool res" where
  "isDuplicate conf len h =
     (if LINEAGE_ON conf
      then rbind (rh_getOperator h) (\<lambda>op. rbind (getOutputPtr op) (\<lambda>ptr. Inr (len + rh_totalOutputBytes h \<le> ptr)))
      else Inr False)"

definition sendResult ::
  "SystemConf \<Rightarrow> 'w sink_ops \<Rightarrow> ResultSlot \<Rightarrow> PartialWindowResults \<Rightarrow> 'w ResultHandler \<Rightarrow>
   (bool \<times> PartialWindowResults \<times> ResultSlot \<times> 'w ResultHandler) res" where
  "sendResult conf send s p h =
     (let len = to_int32 (pw_position p) in
      if len > 0 \<and> rh_numberOfDownstreamQueries h > 0 then
        rbind (isDuplicate conf len h) (\<lambda>duplicate.
          if duplicate then Inr (True, p, s, h)
          else
            rbind (markLatency conf s p) (\<lambda>p.
            rbind (forwardGraph conf len s h) (\<lambda>(s, h).
            rbind (pw_getBuffer p) (\<lambda>data.
            rbind (sendAll send data len [rs_latch s..rh_numberOfDownstreamQueries h - 1] s h) (\<lambda>(ok, s, h).
              Inr (ok, p, s, h))))))
      else if len > 0 \<and> isMostDownstream h \<and> LINEAGE_ON conf then
        rbind (case rs_graph s of
                 None \<Rightarrow> Inr s
               | Some (g, others) \<Rightarrow> rbind (setOutputPtr g (rh_queryId h) (rh_totalOutputBytes h + len)) (\<lambda>g.
                   Inr (s\<lparr>rs_graph := Some (g, others)\<rparr>))) (\<lambda>s.
        rbind (isDuplicate conf len h) (\<lambda>_. Inr (True, p, s, h)))
      else Inr (True, p, s, h))"

definition monitorLatency :: "SystemConf \<Rightarrow> ResultSlot \<Rightarrow> 'w ResultHandler \<Rightarrow> 'w ResultHandler" where
  "monitorLatency conf s h =
     (if isMostDownstream h \<and> LATENCY_ON conf \<and> rs_latencyMark s \<noteq> -1 \<and> rs_latencyMark s \<noteq> 0
      then h\<lparr>rh_latencies := rh_latencies h @ [rs_latencyMark s]\<rparr> else h)"

definition freeInput :: "int \<Rightarrow> QueryBuffer \<Rightarrow> QueryBuffer res" where
  "freeInput pointer b = (if pointer \<noteq> INT_MIN then freeOffset pointer b else Inr b)"

text \<open>What happens to a graph that was not passed on.\<close>

definition finishLineage ::
  "SystemConf \<Rightarrow> ResultSlot \<Rightarrow> 'w ResultHandler \<Rightarrow> (ResultSlot \<times> 'w ResultHandler) res" where
  "finishLineage conf s h =
     (if \<not> LINEAGE_ON conf then Inr (s, h)
      else case rs_graph s of
        None \<Rightarrow> Inr (s, h)
      | Some (g, others) \<Rightarrow>
          if isMostDownstream h then
            rbind (freePersistentState g (rh_queryId h)) (\<lambda>calls.
            rbind (rs_freeGraph s (rh_graphs h)) (\<lambda>(s, f).
              Inr (s, h\<lparr>rh_freed := rh_freed h @ calls, rh_graphs := f\<rparr>)))
          else if others = 0 then
            rbind (case rh_graph h of
                     Some (hg, m) \<Rightarrow> rbind (mergeGraphsRelease hg (g, 0) (rh_graphs h)) (\<lambda>(hg, f). Inr ((hg, m), f))
                   | None \<Rightarrow> Inr ((g, others), rh_graphs h)) (\<lambda>(hg, f).
              Inr (s\<lparr>rs_graph := None\<rparr>, h\<lparr>rh_graph := Some hg, rh_graphs := f\<rparr>))
          else Inr (s, h))"

text \<open>After a result was passed on, its buffer returns to the pool and its input is freed.\<close>

definition releaseResult ::
  "SystemConf \<Rightarrow> ResultSlot \<Rightarrow> PartialWindowResults \<Rightarrow> 'w ResultHandler \<Rightarrow> (ResultSlot \<times> 'w ResultHandler) res" where
  "releaseResult conf s p h =
     (let h = incTotalOutputBytes (to_int32 (pw_position p)) (monitorLatency conf s h); p = pw_clear p in
      rbind (pf_free conf (pw_pid p) p (rh_partials h)) (\<lambda>partials.
      rbind (freeInput (rs_freePointer1 s) (rh_freeBuffer1 h)) (\<lambda>b1.
      rbind (freeInput (rs_freePointer2 s) (rh_freeBuffer2 h)) (\<lambda>b2.
        finishLineage conf s (h\<lparr>rh_partials := partials, rh_freeBuffer1 := b1, rh_freeBuffer2 := b2\<rparr>)))))"

text \<open>
  One round of the loop, for the slot next to forward, which has the value 2. The first component of
  the result says whether the result was passed on.
\<close>

definition forwardSlot :: "SystemConf \<Rightarrow> 'w sink_ops \<Rightarrow> 'w ResultHandler \<Rightarrow> (bool \<times> 'w ResultHandler) res" where
  "forwardSlot conf send h =
     (let next = rh_nextToForward h in
      rbind (vget (slots h) next) (\<lambda>s.
        case rs_result s of
          None \<Rightarrow> Inl Undefined
        | Some p \<Rightarrow>
            rbind (sendResult conf send s p h) (\<lambda>(ok, p, s, h).
              if \<not> ok then
                rbind (setSlot next (\<lambda>_. s\<lparr>rs_result := Some p, rs_slot := 1\<rparr>) h) (\<lambda>h. Inr (False, h))
              else
                rbind (releaseResult conf s p h) (\<lambda>(s, h).
                rbind (setSlot next (\<lambda>_. s\<lparr>rs_result := Some (pw_clear p), rs_slot := -1\<rparr>) h) (\<lambda>h.
                  Inr (True, h\<lparr>rh_nextToForward := (if next + 1 = rh_numberOfSlots h then 0 else next + 1)\<rparr>))))))"

text \<open>\<open>compare_exchange_strong\<close> on the slot next to forward.\<close>

definition claimNext :: "'w ResultHandler \<Rightarrow> (bool \<times> 'w ResultHandler) res" where
  "claimNext h =
     rbind (vget (slots h) (rh_nextToForward h)) (\<lambda>s.
       if rs_slot s = 1
       then rbind (setSlot (rh_nextToForward h) (\<lambda>s. s\<lparr>rs_slot := 2\<rparr>) h) (\<lambda>h. Inr (True, h))
       else Inr (False, h))"

definition waiting :: "'w ResultHandler \<Rightarrow> nat" where
  "waiting h = length (filter (\<lambda>s. rs_slot s = 1) (slots h))"

text \<open>What forwarding one result leaves alone.\<close>

definition rh_frame :: "'w ResultHandler \<Rightarrow> 'w ResultHandler \<Rightarrow> bool" where
  "rh_frame h h' \<longleftrightarrow> slots h' = slots h \<and> rh_results h' = rh_results h \<and> rh_nextToAggregate h' = rh_nextToAggregate h
     \<and> rh_nextToForward h' = rh_nextToForward h
     \<and> rh_numberOfSlots h' = rh_numberOfSlots h \<and> rh_isLeft h' = rh_isLeft h
     \<and> rh_numberOfDownstreamQueries h' = rh_numberOfDownstreamQueries h
     \<and> rh_downstreamQueries h' = rh_downstreamQueries h \<and> rh_maxTaskId h' = rh_maxTaskId h"

lemma rh_frame_refl [simp]: "rh_frame h h"
  by (simp add: rh_frame_def)

lemma rh_frame_trans [trans]: "rh_frame a b \<Longrightarrow> rh_frame b c \<Longrightarrow> rh_frame a c"
  by (simp add: rh_frame_def)

lemma sendAll_frame: "sendAll send data len qs s h = Inr (ok, s', h') \<Longrightarrow> rh_frame h h'"
proof (induction qs arbitrary: s h)
  case (Cons q qs)
  then obtain query where query: "vget (rh_downstreamQueries h) q = Inr query" by auto
  show ?case
  proof (cases query)
    case None
    then show ?thesis using Cons query by auto
  next
    case (Some ups)
    with Cons.prems query obtain success w where
      "send q (dispatchCall ups h) data len (rs_latencyMark s) (rs_graph s) (rh_downstream h) = Inr (success, w)"
      "(if success then sendAll send data len qs (s\<lparr>rs_graph := None\<rparr>)
                    (h\<lparr>rh_downstream := w, rh_forwardId := rh_forwardId h + 1\<rparr>)
             else Inr (False, s\<lparr>rs_latch := q\<rparr>, h\<lparr>rh_downstream := w\<rparr>)) = Inr (ok, s', h')"
      by (auto elim!: rbind_pairE)
    then show ?thesis using Cons.IH by (auto simp: rh_frame_def split: if_splits)
  qed
qed simp

lemma forwardGraph_frame: "forwardGraph conf len s h = Inr (s', h') \<Longrightarrow> rh_frame h h'"
  by (auto simp: forwardGraph_def rh_frame_def split: if_splits prod.splits)

lemma sendResult_frame:
  assumes "sendResult conf send s p h = Inr (ok, p', s', h')"
  shows "rh_frame h h'"
proof -
  let ?len = "to_int32 (pw_position p)"
  show ?thesis
  proof (cases "?len > 0 \<and> rh_numberOfDownstreamQueries h > 0")
    case True
    then obtain dup where dup: "isDuplicate conf ?len h = Inr dup" using assms by (auto simp: sendResult_def Let_def)
    show ?thesis
    proof (cases dup)
      case True': True
      then show ?thesis using assms True dup by (auto simp: sendResult_def Let_def)
    next
      case False
      then obtain data s1 h1 where g: "forwardGraph conf ?len s h = Inr (s1, h1)"
          "sendAll send data ?len [rs_latch s1..rh_numberOfDownstreamQueries h1 - 1] s1 h1 = Inr (ok, s', h')"
        using assms True dup by (auto simp: sendResult_def Let_def elim!: rbind_pairE)
      with forwardGraph_frame [OF g(1)] sendAll_frame [OF g(2)] show ?thesis by (blast intro: rh_frame_trans)
    qed
  next
    case False
    then show ?thesis using assms by (auto simp: sendResult_def Let_def split: if_splits)
  qed
qed

lemma finishLineage_frame: "finishLineage conf s h = Inr (s', h') \<Longrightarrow> rh_frame h h'"
  by (auto simp: finishLineage_def rh_frame_def split: if_splits option.splits prod.splits)

lemma releaseResult_frame:
  assumes "releaseResult conf s p h = Inr (s', h')"
  shows "rh_frame h h'"
proof -
  obtain partials b1 b2 where "finishLineage conf s ((incTotalOutputBytes (to_int32 (pw_position p)) (monitorLatency conf s h))
      \<lparr>rh_partials := partials, rh_freeBuffer1 := b1, rh_freeBuffer2 := b2\<rparr>) = Inr (s', h')"
    using assms by (auto simp: releaseResult_def Let_def)
  from finishLineage_frame [OF this] show ?thesis
    by (auto simp: rh_frame_def incTotalOutputBytes_def monitorLatency_def split: if_splits)
qed

lemma forwardSlot_slots:
  assumes "forwardSlot conf send h = Inr (ok, h')"
  obtains s' where "slots h' = (slots h)[nat (rh_nextToForward h) := s']" and "rs_slot s' = (if ok then -1 else 1)"
    and "0 \<le> rh_nextToForward h" and "rh_nextToForward h < int (length (slots h))"
proof -
  let ?next = "rh_nextToForward h"
  obtain s p where s: "vget (slots h) ?next = Inr s" "rs_result s = Some p"
    using assms by (auto simp: forwardSlot_def Let_def split: option.splits)
  obtain ok1 p1 s1 h1 where send: "sendResult conf send s p h = Inr (ok1, p1, s1, h1)"
    using assms s by (cases "sendResult conf send s p h") (auto simp: forwardSlot_def Let_def)
  note frame = sendResult_frame [OF send]
  show ?thesis
  proof (cases ok1)
    case False
    then have "slots h' = (slots h1)[nat ?next := s1\<lparr>rs_result := Some p1, rs_slot := 1\<rparr>]" "\<not> ok"
      using assms s send by (auto simp: forwardSlot_def Let_def setSlot_def vset_def split: if_splits)
    with s(1) frame show ?thesis
      by (intro that [of "s1\<lparr>rs_result := Some p1, rs_slot := 1\<rparr>"]) (auto simp: rh_frame_def vget_def split: if_splits)
  next
    case True
    then obtain s2 h2 where rel: "releaseResult conf s1 p1 h1 = Inr (s2, h2)"
      and "slots h' = (slots h2)[nat ?next := s2\<lparr>rs_result := Some (pw_clear p1), rs_slot := -1\<rparr>]" "ok"
      using assms s send by (auto simp: forwardSlot_def Let_def setSlot_def vset_def split: if_splits elim!: rbind_pairE)
    with s(1) frame releaseResult_frame [OF rel] show ?thesis
      by (intro that [of "s2\<lparr>rs_result := Some (pw_clear p1), rs_slot := -1\<rparr>"]) (auto simp: rh_frame_def vget_def split: if_splits)
  qed
qed

lemma filter_update_length:
  assumes "i < length xs"
  shows "length (filter P (xs[i := y])) + (if P (xs ! i) then 1 else 0) = length (filter P xs) + (if P y then 1 else 0)"
proof -
  have "filter P xs = filter P (take i xs) @ filter P [xs ! i] @ filter P (drop (Suc i) xs)"
    using assms by (metis append_Cons append_Nil filter_append id_take_nth_drop)
  moreover have "filter P (xs[i := y]) = filter P (take i xs) @ filter P [y] @ filter P (drop (Suc i) xs)"
    using assms by (simp add: upd_conv_take_nth_drop)
  ultimately show ?thesis by simp
qed

lemma forwardSlot_waiting:
  assumes "forwardSlot conf send h = Inr (True, h')"
  shows "waiting h' \<le> waiting h"
proof -
  obtain s' where "slots h' = (slots h)[nat (rh_nextToForward h) := s']" "rs_slot s' = -1"
      "0 \<le> rh_nextToForward h" "rh_nextToForward h < int (length (slots h))"
    using assms by (rule forwardSlot_slots) auto
  moreover from this have "nat (rh_nextToForward h) < length (slots h)" by linarith
  ultimately show ?thesis
    using filter_update_length [of "nat (rh_nextToForward h)" "slots h" "\<lambda>s. rs_slot s = 1" s'] by (simp add: waiting_def)
qed

lemma claimNext_waiting:
  assumes "claimNext h = Inr (True, h')"
  shows "waiting h' < waiting h"
proof -
  let ?n = "rh_nextToForward h"
  have n: "0 \<le> ?n" "?n < int (length (slots h))" and s: "rs_slot (slots h ! nat ?n) = 1"
    and h': "slots h' = (slots h)[nat ?n := (slots h ! nat ?n)\<lparr>rs_slot := 2\<rparr>]"
    using assms by (auto simp: claimNext_def setSlot_def vget_def vset_def split: if_splits)
  have "nat ?n < length (slots h)" using n by linarith
  then show ?thesis
    using filter_update_length [of "nat ?n" "slots h" "\<lambda>s. rs_slot s = 1" "(slots h ! nat ?n)\<lparr>rs_slot := 2\<rparr>"] s
    by (simp add: waiting_def h')
qed

text \<open>
  The loop of the forwarding section. It ends because every round after the first claims a waiting
  slot.
\<close>

function forwardLoop :: "SystemConf \<Rightarrow> 'w sink_ops \<Rightarrow> 'w ResultHandler \<Rightarrow> 'w ResultHandler res" where
  "forwardLoop conf send h =
     (case forwardSlot conf send h of
        Inl e \<Rightarrow> Inl e
      | Inr (False, h1) \<Rightarrow> Inr h1
      | Inr (True, h1) \<Rightarrow>
          (case claimNext h1 of
             Inl e \<Rightarrow> Inl e
           | Inr (False, h2) \<Rightarrow> Inr h2
           | Inr (True, h2) \<Rightarrow> forwardLoop conf send h2))"
  by pat_completeness auto
termination
proof (relation "measure (\<lambda>(conf, send, h). waiting h)")
  fix conf and send :: "'w sink_ops" and h h1 h2 :: "'w ResultHandler" and r r' b b'
  assume "forwardSlot conf send h = Inr r" "(b, h1) = r" "b = True" "claimNext h1 = Inr r'" "(b', h2) = r'" "b' = True"
  then have "forwardSlot conf send h = Inr (True, h1)" "claimNext h1 = Inr (True, h2)" by auto
  then show "((conf, send, h2), conf, send, h) \<in> measure (\<lambda>(conf, send, h). waiting h)"
    using forwardSlot_waiting [of conf send h h1] claimNext_waiting [of h1 h2] by simp
qed simp

declare forwardLoop.simps [simp del]

text \<open>The section under the forward lock, and the whole operation.\<close>

definition forwardResults :: "SystemConf \<Rightarrow> 'w sink_ops \<Rightarrow> 'w ResultHandler \<Rightarrow> 'w ResultHandler res" where
  "forwardResults conf send h =
     rbind (claimNext h) (\<lambda>(busy, h). if busy then forwardLoop conf send h else Inr h)"

text \<open>
  \<open>locked\<close> says that another thread holds the forward lock. The middle component of \<open>others\<close> is what
  other threads do between the two sections.
\<close>

definition forwardAndFreeWithoutFrags ::
  "SystemConf \<Rightarrow> 'w sink_ops \<Rightarrow> (nat \<Rightarrow> 'w ResultHandler \<Rightarrow> 'w ResultHandler) \<Rightarrow>
   ('w ResultHandler \<Rightarrow> 'w ResultHandler) \<Rightarrow> bool \<Rightarrow> WindowBatch \<Rightarrow> PartialWindowResults option \<Rightarrow>
   'w ResultHandler \<Rightarrow> (WindowBatch \<times> 'w ResultHandler) res option" where
  "forwardAndFreeWithoutFrags conf send others between locked wb result h =
     (if wb_taskId wb < 0 then Some (Inr (wb, h))
      else
        let type = wb_type wb;
            stored = (if type = PROCESS \<or> type = ONLY_PROCESS then storeResult conf others wb result h
                      else Some (Inr (wb, h))) in
        map_option (\<lambda>r. rbind r (\<lambda>(wb, h).
          if (type = PROCESS \<or> type = FORWARD \<or> type = MERGE_FORWARD) \<and> \<not> locked
          then rbind (forwardResults conf send (between h)) (\<lambda>h. Inr (wb, h))
          else Inr (wb, h))) stored)"

end
