(* ===== verification/Reordering.thy ===== *)
theory Reordering
  imports ResultHandler
begin

text \<open>
  Correctness of the reordering of results. The workers store results and the threads forward them in
  any interleaving; as long as no stored task is more than a ring ahead of the forwarded ones, each
  downstream query gets the results of the tasks in task order, each once. A task that runs further
  ahead meets a slot that is still occupied, and the result that waits there is lost.
\<close>

section \<open>Downstream queries\<close>

text \<open>
  What the handler relies on: a call returns, and an accepted result is appended to what the query
  has received; a refused one is not. \<open>log w q\<close> is what query \<open>q\<close> has received in the state \<open>w\<close>.
\<close>

definition sink_ok :: "'w sink_ops \<Rightarrow> ('w \<Rightarrow> int \<Rightarrow> byte list list) \<Rightarrow> bool" where
  "sink_ok send log \<longleftrightarrow> (\<forall>q call data len lat g w. \<exists>ok w'. send q call data len lat g w = Inr (ok, w')
     \<and> log w' = (if ok then (log w)(q := log w q @ [take (nat len) data]) else log w))"

section \<open>The invariant\<close>

text \<open>A result buffer that holds the output \<open>d\<close> of a task and can return to its pool.\<close>

definition result_ok :: "SystemConf \<Rightarrow> byte list \<Rightarrow> PartialWindowResults \<Rightarrow> bool" where
  "result_ok conf d p \<longleftrightarrow> pw_type p = 0 \<and> 0 \<le> pw_position p \<and> pw_position p \<le> int (length (pw_buffer p))
     \<and> int (length (pw_buffer p)) \<le> INT_MAX \<and> take (nat (pw_position p)) (pw_buffer p) = d
     \<and> 0 \<le> pw_pid p \<and> pw_pid p < WORKER_THREADS conf"

definition slot_ok :: "SystemConf \<Rightarrow> nat \<Rightarrow> (nat \<Rightarrow> byte list) \<Rightarrow> nat \<Rightarrow> ResultSlot \<Rightarrow> bool" where
  "slot_ok conf D out t s \<longleftrightarrow> 0 \<le> rs_latch s \<and> rs_latch s \<le> int D \<and> (\<exists>p. rs_result s = Some p \<and> result_ok conf (out t) p)"

text \<open>
  Tasks 1 to \<open>k\<close> have been forwarded, the tasks of \<open>P\<close> are stored and not yet forwarded. The next
  task may have reached the first queries already.
\<close>

definition sends :: "(nat \<Rightarrow> byte list) \<Rightarrow> nat \<Rightarrow> byte list list" where
  "sends out k = filter (\<lambda>d. d \<noteq> []) (map out [1..<Suc k])"

definition rh_env :: "SystemConf \<Rightarrow> nat \<Rightarrow> nat \<Rightarrow> 'w ResultHandler \<Rightarrow> bool" where
  "rh_env conf N D h \<longleftrightarrow> 0 < N \<and> rh_numberOfSlots h = int N \<and> length (slots h) = N
     \<and> rh_numberOfDownstreamQueries h = int D \<and> D \<le> length (rh_downstreamQueries h)
     \<and> (\<forall>q < D. rh_downstreamQueries h ! q \<noteq> None)
     \<and> length (pf_poolSeqMem (rh_partials h)) = nat (WORKER_THREADS conf)
     \<and> qb_tupleSize (rh_freeBuffer1 h) \<noteq> 0 \<and> qb_tupleSize (rh_freeBuffer2 h) \<noteq> 0"

definition ring :: "nat \<Rightarrow> nat \<Rightarrow> nat" where
  "ring N t = (t - 1) mod N"

definition rh_at ::
  "SystemConf \<Rightarrow> nat \<Rightarrow> nat \<Rightarrow> (nat \<Rightarrow> byte list) \<Rightarrow> nat \<Rightarrow> nat set \<Rightarrow> 'w ResultHandler \<Rightarrow> bool" where
  "rh_at conf N D out k P h \<longleftrightarrow> rh_env conf N D h \<and> rh_nextToForward h = int (k mod N) \<and> P \<subseteq> {k<..k + N}
     \<and> (\<forall>t. k < t \<and> t \<le> k + N \<and> t \<notin> P \<longrightarrow> rs_slot (slots h ! ring N t) = -1)
     \<and> (\<forall>t \<in> P. slot_ok conf D out t (slots h ! ring N t))
     \<and> (\<forall>t \<in> P. t \<noteq> Suc k \<longrightarrow> rs_slot (slots h ! ring N t) = 1 \<and> rs_latch (slots h ! ring N t) = 0)"

definition received ::
  "('w \<Rightarrow> int \<Rightarrow> byte list list) \<Rightarrow> nat \<Rightarrow> nat \<Rightarrow> (nat \<Rightarrow> byte list) \<Rightarrow> nat \<Rightarrow> nat set \<Rightarrow> 'w ResultHandler \<Rightarrow> bool" where
  "received log N D out k P h \<longleftrightarrow> (\<forall>q < D. log (rh_downstream h) (int q) =
     sends out k @ (if Suc k \<in> P \<and> int q < rs_latch (slots h ! (k mod N)) \<and> out (Suc k) \<noteq> [] then [out (Suc k)] else []))"

lemma ring_Suc [simp]: "ring N (Suc k) = k mod N"
  by (simp add: ring_def)

lemma sends_Suc: "sends out (Suc k) = sends out k @ (if out (Suc k) \<noteq> [] then [out (Suc k)] else [])"
  by (simp add: sends_def)

lemma ring_inj:
  assumes "k < t" "t \<le> k + N" "k < u" "u \<le> k + N" "ring N t = ring N u"
  shows "t = u"
proof -
  have "t - 1 = u - 1 \<or> \<bar>int (t - 1) - int (u - 1)\<bar> \<ge> int N"
  proof (cases "t - 1 = u - 1")
    case False
    have "int N dvd int (t - 1) - int (u - 1)"
      using assms(5) by (simp add: ring_def mod_eq_dvd_iff flip: of_nat_mod) (metis mod_eq_dvd_iff of_nat_mod)
    then show ?thesis using False dvd_imp_le_int [of "int (t - 1) - int (u - 1)" "int N"] by auto
  qed simp
  with assms(1-4) show ?thesis by auto
qed

lemma ring_less: "0 < N \<Longrightarrow> ring N t < N"
  by (simp add: ring_def)

section \<open>Sending one result\<close>

lemma sendAll_ok:
  assumes "sink_ok send log" and "rh_downstreamQueries h = ds" and "D \<le> length ds" and "\<forall>q < D. ds ! q \<noteq> None"
    and "a \<le> D" and "\<forall>q < D. log (rh_downstream h) (int q) = base q @ (if q < a then [take (nat len) data] else [])"
  shows "\<exists>ok s' h'. sendAll send data len [int a..int D - 1] s h = Inr (ok, s', h')
    \<and> rs_result s' = rs_result s \<and> rs_freePointer1 s' = rs_freePointer1 s \<and> rs_freePointer2 s' = rs_freePointer2 s
    \<and> rh_partials h' = rh_partials h \<and> rh_freeBuffer1 h' = rh_freeBuffer1 h \<and> rh_freeBuffer2 h' = rh_freeBuffer2 h
    \<and> (if ok then \<forall>q < D. log (rh_downstream h') (int q) = base q @ [take (nat len) data]
       else \<exists>b. a \<le> b \<and> b < D \<and> rs_latch s' = int b
         \<and> (\<forall>q < D. log (rh_downstream h') (int q) = base q @ (if q < b then [take (nat len) data] else [])))"
  using assms
proof (induction "D - a" arbitrary: a s h)
  case 0
  then have "a = D" by simp
  with 0 show ?case by auto
next
  case (Suc n)
  then have a: "a < D" by simp
  obtain ups where ups: "vget ds (int a) = Inr (Some ups)"
    using a Suc.prems(3,4) by (auto simp: vget_def)
  obtain ok w where send: "send (int a) (dispatchCall ups h) data len (rs_latencyMark s) (rs_graph s) (rh_downstream h) = Inr (ok, w)"
    and log: "log w = (if ok then (log (rh_downstream h))(int a := log (rh_downstream h) (int a) @ [take (nat len) data])
                       else log (rh_downstream h))"
    using Suc.prems(1) unfolding sink_ok_def by blast
  have list: "[int a..int D - 1] = int a # [int (Suc a)..int D - 1]"
    using a by (simp add: upto_rec1 add.commute)
  show ?case
  proof (cases ok)
    case False
    then show ?thesis
      using Suc.prems(2,6) a ups send log by (auto simp: list intro!: exI [of _ a])
  next
    case True
    let ?h = "h\<lparr>rh_downstream := w, rh_forwardId := rh_forwardId h + 1\<rparr>"
    have log': "\<forall>q < D. log (rh_downstream ?h) (int q) = base q @ (if q < Suc a then [take (nat len) data] else [])"
      using Suc.prems(6) log True by (auto simp: less_Suc_eq)
    obtain ok' s' h' where IH: "sendAll send data len [int (Suc a)..int D - 1] (s\<lparr>rs_graph := None\<rparr>) ?h = Inr (ok', s', h')"
        "rs_result s' = rs_result s \<and> rs_freePointer1 s' = rs_freePointer1 s \<and> rs_freePointer2 s' = rs_freePointer2 s
         \<and> rh_partials h' = rh_partials h \<and> rh_freeBuffer1 h' = rh_freeBuffer1 h \<and> rh_freeBuffer2 h' = rh_freeBuffer2 h"
        "if ok' then \<forall>q < D. log (rh_downstream h') (int q) = base q @ [take (nat len) data]
         else \<exists>b. Suc a \<le> b \<and> b < D \<and> rs_latch s' = int b
           \<and> (\<forall>q < D. log (rh_downstream h') (int q) = base q @ (if q < b then [take (nat len) data] else []))"
    proof -
      have "n = D - Suc a" "Suc a \<le> D" "rh_downstreamQueries ?h = ds" using Suc.hyps(2) Suc.prems(2) a by auto
      from Suc.hyps(1) [OF this(1) Suc.prems(1) this(3) Suc.prems(3,4) this(2) log', of "s\<lparr>rs_graph := None\<rparr>"]
      show ?thesis by (elim exE conjE) (rule that, simp_all)
    qed
    have "sendAll send data len [int a..int D - 1] s h = Inr (ok', s', h')"
      using IH(1) True send ups Suc.prems(2) by (simp add: list)
    then show ?thesis using IH(2,3) by (auto split: if_splits dest: Suc_leD)
  qed
qed

lemma result_ok_len:
  assumes "result_ok conf d p"
  shows "to_int32 (pw_position p) = pw_position p" and "pw_position p > 0 \<longleftrightarrow> d \<noteq> []"
    and "take (nat (pw_position p)) (pw_buffer p) = d" and "pw_getBuffer p = Inr (pw_buffer p)"
proof -
  have b: "0 \<le> pw_position p" "pw_position p \<le> int (length (pw_buffer p))" "int (length (pw_buffer p)) \<le> INT_MAX"
    "take (nat (pw_position p)) (pw_buffer p) = d"
    using assms by (auto simp: result_ok_def)
  have "pw_position p \<le> INT_MAX" using b(2,3) by (rule order_trans)
  then show "to_int32 (pw_position p) = pw_position p"
    using b(1) by (simp add: to_int32_id INT_MIN_def)
  show "pw_position p > 0 \<longleftrightarrow> d \<noteq> []" using b by (cases "pw_buffer p") (auto simp flip: b(4))
  show "take (nat (pw_position p)) (pw_buffer p) = d" "pw_getBuffer p = Inr (pw_buffer p)"
    using b(4) assms by (simp_all add: result_ok_def pw_getBuffer_def)
qed

lemma sendResult_ok:
  assumes conf: "\<not> LINEAGE_ON conf" "\<not> LATENCY_ON conf" and sink: "sink_ok send log" and env: "rh_env conf N D h"
    and p: "result_ok conf d p" and latch: "0 \<le> rs_latch s" "rs_latch s \<le> int D"
    and log: "\<forall>q < D. log (rh_downstream h) (int q) = base @ (if int q < rs_latch s \<and> d \<noteq> [] then [d] else [])"
  shows "\<exists>ok s' h'. sendResult conf send s p h = Inr (ok, p, s', h')
    \<and> rs_result s' = rs_result s \<and> rs_freePointer1 s' = rs_freePointer1 s \<and> rs_freePointer2 s' = rs_freePointer2 s
    \<and> rh_partials h' = rh_partials h \<and> rh_freeBuffer1 h' = rh_freeBuffer1 h \<and> rh_freeBuffer2 h' = rh_freeBuffer2 h
    \<and> (if ok then \<forall>q < D. log (rh_downstream h') (int q) = base @ (if d \<noteq> [] then [d] else [])
       else 0 \<le> rs_latch s' \<and> rs_latch s' \<le> int D
         \<and> (\<forall>q < D. log (rh_downstream h') (int q) = base @ (if int q < rs_latch s' \<and> d \<noteq> [] then [d] else [])))"
proof (cases "d = [] \<or> D = 0")
  case True
  then have "sendResult conf send s p h = Inr (True, p, s, h)"
    using conf result_ok_len [OF p] env by (auto simp: sendResult_def rh_env_def)
  then show ?thesis using True log by auto
next
  case False
  let ?a = "nat (rs_latch s)" and ?len = "pw_position p"
  have l: "rs_latch s = int ?a" "?a \<le> D" using latch by auto
  have "\<forall>q < D. log (rh_downstream h) (int q) = base @ (if q < ?a then [take (nat ?len) (pw_buffer p)] else [])"
    using log False result_ok_len(3) [OF p] l(1) by (auto simp: zless_nat_eq_int_zless)
  from sendAll_ok [where base = "\<lambda>_. base", OF sink refl _ _ l(2) this, of s] env obtain ok s' h' where r:
    "sendAll send (pw_buffer p) ?len [int ?a..int D - 1] s h = Inr (ok, s', h')"
    "rs_result s' = rs_result s \<and> rs_freePointer1 s' = rs_freePointer1 s \<and> rs_freePointer2 s' = rs_freePointer2 s
     \<and> rh_partials h' = rh_partials h \<and> rh_freeBuffer1 h' = rh_freeBuffer1 h \<and> rh_freeBuffer2 h' = rh_freeBuffer2 h"
    "if ok then \<forall>q < D. log (rh_downstream h') (int q) = base @ [d]
     else \<exists>b. ?a \<le> b \<and> b < D \<and> rs_latch s' = int b
       \<and> (\<forall>q < D. log (rh_downstream h') (int q) = base @ (if q < b then [d] else []))"
    unfolding rh_env_def result_ok_len(3) [OF p] by blast
  have "sendResult conf send s p h = Inr (ok, p, s', h')"
    using False conf result_ok_len [OF p] env r(1) l(1)
    by (simp add: sendResult_def isDuplicate_def markLatency_def forwardGraph_def rh_env_def)
  then show ?thesis using r(2,3) False by (auto split: if_splits)
qed

lemma freeInput_ok:
  assumes "qb_tupleSize b \<noteq> 0"
  shows "\<exists>b'. freeInput x b = Inr b' \<and> qb_tupleSize b' \<noteq> 0"
  using assms by (auto simp: freeInput_def freeOffset_def account_def)

lemma releaseResult_ok:
  assumes "\<not> LINEAGE_ON conf" "\<not> LATENCY_ON conf" and env: "rh_env conf N D h" and p: "result_ok conf d p"
  shows "\<exists>h'. releaseResult conf s p h = Inr (s, h') \<and> rh_env conf N D h' \<and> rh_downstream h' = rh_downstream h"
proof -
  have pid: "0 \<le> pw_pid p" "pw_pid p < WORKER_THREADS conf" "pw_type p = 0" using p by (auto simp: result_ok_def)
  have len: "pw_pid p < int (length (pf_poolSeqMem (rh_partials h)))" using env pid(2) pid(1) by (simp add: rh_env_def)
  let ?pool = "(pf_poolSeqMem (rh_partials h))[nat (pw_pid p) := pf_poolSeqMem (rh_partials h) ! nat (pw_pid p) @ [pw_clear p]]"
  have free: "pf_free conf (pw_pid p) (pw_clear p) (rh_partials h) = Inr ((rh_partials h)\<lparr>pf_poolSeqMem := ?pool\<rparr>)"
    using pid len by (simp add: pf_free_def pw_clear_def pushPool_def vget_def vset_def)
  obtain b1 b2 where b: "freeInput (rs_freePointer1 s) (rh_freeBuffer1 h) = Inr b1" "qb_tupleSize b1 \<noteq> 0"
      "freeInput (rs_freePointer2 s) (rh_freeBuffer2 h) = Inr b2" "qb_tupleSize b2 \<noteq> 0"
    using freeInput_ok env unfolding rh_env_def by metis
  have "pw_pid (pw_clear p) = pw_pid p" by (simp add: pw_clear_def)
  then have "releaseResult conf s p h = Inr (s, (incTotalOutputBytes (to_int32 (pw_position p)) h)
      \<lparr>rh_partials := (rh_partials h)\<lparr>pf_poolSeqMem := ?pool\<rparr>, rh_freeBuffer1 := b1, rh_freeBuffer2 := b2\<rparr>)"
    using assms(1,2) free b by (simp add: releaseResult_def monitorLatency_def incTotalOutputBytes_def finishLineage_def)
  then show ?thesis using env b by (simp add: rh_env_def incTotalOutputBytes_def)
qed

section \<open>The steps of the threads\<close>

text \<open>
  A worker stores the result of a task at any time, however far ahead of the forwarded ones; each
  task is stored once. The thread with the forward lock claims the next slot and then forwards it. The
  state is the handler, whether a slot is claimed, the number of forwarded slots, the tasks stored so
  far, and whether some task was stored while it was more than the \<open>N\<close> slots of the ring ahead of the
  forwarded ones. The last three are ghosts: no step depends on them but that a task is stored once.
\<close>

type_synonym 'w handler_state = "'w ResultHandler \<times> bool \<times> nat \<times> nat set \<times> bool"

inductive handler_step ::
  "SystemConf \<Rightarrow> 'w sink_ops \<Rightarrow> nat \<Rightarrow> (nat \<Rightarrow> byte list) \<Rightarrow> 'w handler_state \<Rightarrow> 'w handler_state \<Rightarrow> bool"
  for conf :: SystemConf and send :: "'w sink_ops" and N :: nat and out :: "nat \<Rightarrow> byte list" where
  store_step: "0 < t \<Longrightarrow> t \<notin> P \<Longrightarrow> wb_taskId wb = int t \<Longrightarrow> result_ok conf (out t) p \<Longrightarrow>
     storeResult conf others wb (Some p) h = Some (Inr (wb', h')) \<Longrightarrow>
     handler_step conf send N out (h, b, k, P, ahead) (h', b, k, insert t P, ahead \<or> k + N < t)"
| claim_step: "claimNext h = Inr (b, h') \<Longrightarrow>
     handler_step conf send N out (h, False, k, P, ahead) (h', b, k, P, ahead)"
| refused_step: "forwardSlot conf send h = Inr (False, h') \<Longrightarrow>
     handler_step conf send N out (h, True, k, P, ahead) (h', False, k, P, ahead)"
| forward_step: "forwardSlot conf send h = Inr (True, h') \<Longrightarrow>
     handler_step conf send N out (h, True, k, P, ahead) (h', False, Suc k, P, ahead)"

text \<open>The invariant of the ring, where \<open>P\<close> is the set of the tasks that are stored and not yet forwarded.\<close>

definition handler_inv ::
  "SystemConf \<Rightarrow> ('w \<Rightarrow> int \<Rightarrow> byte list list) \<Rightarrow> nat \<Rightarrow> nat \<Rightarrow> (nat \<Rightarrow> byte list) \<Rightarrow> 'w ResultHandler \<times> bool \<times> nat \<times> nat set \<Rightarrow> bool" where
  "handler_inv conf log N D out = (\<lambda>(h, b, k, P). rh_at conf N D out k P h \<and> received log N D out k P h
     \<and> (Suc k \<in> P \<longrightarrow> rs_slot (slots h ! (k mod N)) = (if b then 2 else 1)) \<and> (b \<longrightarrow> Suc k \<in> P))"

lemma rh_at_indexD:
  assumes "rh_at conf N D out k P h"
  shows "0 < N" and "length (slots h) = N" and "rh_nextToForward h = int (k mod N)" and "rh_numberOfSlots h = int N"
    and "k mod N < length (slots h)" and "rh_env conf N D h"
  using assms by (auto simp: rh_at_def rh_env_def)

lemma rh_atI:
  assumes "rh_env conf N D h" "rh_nextToForward h = int (k mod N)" "P \<subseteq> {k<..k + N}"
    and "\<And>t. k < t \<Longrightarrow> t \<le> k + N \<Longrightarrow> t \<notin> P \<Longrightarrow> rs_slot (slots h ! ring N t) = -1"
    and "\<And>t. t \<in> P \<Longrightarrow> slot_ok conf D out t (slots h ! ring N t)"
    and "\<And>t. t \<in> P \<Longrightarrow> t \<noteq> Suc k \<Longrightarrow> rs_slot (slots h ! ring N t) = 1 \<and> rs_latch (slots h ! ring N t) = 0"
  shows "rh_at conf N D out k P h"
  unfolding rh_at_def using assms by (intro conjI allI impI ballI) auto

lemma setSlot_nth:
  assumes "i < length (slots h)"
  shows "setSlot (int i) f h = Inr (h\<lparr>rh_resultsWithoutFrags := (slots h)[i := f (slots h ! i)]\<rparr>)"
  using assms by (simp add: setSlot_def vget_def vset_def)

lemma ring_other:
  assumes "rh_at conf N D out k P h" and "k < t" "t \<le> k + N" "t \<noteq> Suc k"
  shows "ring N t \<noteq> k mod N"
  using ring_inj [of k t N "Suc k"] assms rh_at_indexD(1) [OF assms(1)] by auto

text \<open>Replacing the slot at the head.\<close>

lemma rh_at_head:
  assumes at: "rh_at conf N D out k P h" and "Suc k \<in> P" and s: "slot_ok conf D out (Suc k) s"
    and env: "rh_env conf N D h'" and h': "slots h' = (slots h)[k mod N := s]" "rh_nextToForward h' = rh_nextToForward h"
  shows "rh_at conf N D out k P h'"
proof -
  have other: "slots h' ! ring N t = slots h ! ring N t" if "k < t" "t \<le> k + N" "t \<noteq> Suc k" for t
    using ring_other [OF at that] h'(1) by simp
  have head: "slots h' ! ring N (Suc k) = s" using rh_at_indexD(5) [OF at] h'(1) by simp
  have P: "P \<subseteq> {k<..k + N}" using at by (simp add: rh_at_def)
  have free: "rs_slot (slots h' ! ring N t) = -1" if "k < t" "t \<le> k + N" "t \<notin> P" for t
    using that other [of t] at assms(2) by (cases "t = Suc k") (auto simp: rh_at_def)
  have "slot_ok conf D out t (slots h' ! ring N t)" if "t \<in> P" for t
    using that P other [of t] head s at by (cases "t = Suc k") (auto simp: rh_at_def subset_iff)
  moreover have "rs_slot (slots h' ! ring N t) = 1 \<and> rs_latch (slots h' ! ring N t) = 0" if "t \<in> P" "t \<noteq> Suc k" for t
    using that P other [of t] at by (auto simp: rh_at_def subset_iff)
  ultimately show ?thesis
    using P free env h'(2) rh_at_indexD(3) [OF at] by (intro rh_atI) auto
qed

text \<open>Releasing the slot at the head.\<close>

lemma rh_at_release:
  assumes at: "rh_at conf N D out k P h" and "Suc k \<in> P" and s: "rs_slot s = -1"
    and env: "rh_env conf N D h'" and h': "slots h' = (slots h)[k mod N := s]" "rh_nextToForward h' = int (Suc k mod N)"
  shows "rh_at conf N D out (Suc k) (P - {Suc k}) h'"
proof -
  have other: "slots h' ! ring N t = slots h ! ring N t" if "k < t" "t \<le> k + N" "t \<noteq> Suc k" for t
    using ring_other [OF at that] h'(1) by simp
  have P: "P - {Suc k} \<subseteq> {Suc k<..k + N}" using at by (auto simp: rh_at_def)
  have free: "rs_slot (slots h' ! ring N t) = -1" if "Suc k < t" "t \<le> Suc k + N" "t \<notin> P - {Suc k}" for t
  proof (cases "t = Suc k + N")
    case True
    then have "slots h' ! ring N t = s" using rh_at_indexD(5) [OF at] h'(1) by (simp add: ring_def)
    then show ?thesis using s by simp
  next
    case False
    then show ?thesis using that other [of t] at by (auto simp: rh_at_def)
  qed
  have "slot_ok conf D out t (slots h' ! ring N t) \<and> rs_slot (slots h' ! ring N t) = 1 \<and> rs_latch (slots h' ! ring N t) = 0"
    if "t \<in> P - {Suc k}" for t
    using that P other [of t] at by (auto simp: rh_at_def subset_iff)
  then show ?thesis using P free env h'(2) by (intro rh_atI) auto
qed

section \<open>Every step keeps the invariant\<close>

lemma smod_pred:
  assumes "0 < N" "0 < t"
  shows "(int t - 1) smod int N = int (ring N t)"
proof -
  have "int (t - 1) smod int N = int (t - 1) mod int N" using assms(1) by (simp only: smod_mod_positive of_nat_0_le_iff of_nat_0_less_iff)
  moreover have "int t - 1 = int (t - 1)" using assms(2) by simp
  ultimately show ?thesis by (simp only: ring_def of_nat_mod)
qed

lemma storeResult_free:
  assumes at: "rh_at conf N D out k P h" and t: "k < t" "t \<le> k + N" "t \<notin> P" and wb: "wb_taskId wb = int t"
  shows "\<exists>wb'. storeResult conf others wb result h = Some (Inr (wb', updateMaximumTaskId (int t)
    (h\<lparr>rh_resultsWithoutFrags := (slots h)[ring N t := fillSlot conf wb result ((slots h ! ring N t)\<lparr>rs_slot := 0\<rparr>)]\<rparr>)))"
proof -
  have idx: "(int t - 1) smod int N = int (ring N t)" and l: "ring N t < length (slots h)"
    using smod_pred [of N t] t ring_less [of N t] rh_at_indexD(1,2) [OF at] by auto
  have "rs_slot (slots h ! ring N t) = -1" using at t by (auto simp: rh_at_def)
  then have "reserveSlot others (int (ring N t)) (-1) 0 h
      = Some (Inr (h\<lparr>rh_resultsWithoutFrags := (slots h)[ring N t := (slots h ! ring N t)\<lparr>rs_slot := 0\<rparr>]\<rparr>))"
    using l by (subst reserveSlot.simps) (simp add: vget_def setSlot_nth)
  then show ?thesis
    using l wb idx rh_at_indexD(1,4) [OF at] by (auto simp: storeResult_def setSlot_nth)
qed

lemma fillSlot_fields [simp]:
  "rs_slot (fillSlot conf wb result s) = 1" "rs_latch (fillSlot conf wb result s) = 0"
  "rs_result (fillSlot conf wb result s) = result"
  by (simp_all add: fillSlot_def Let_def)

lemma store_inv:
  assumes inv: "handler_inv conf log N D out (h, b, k, P)" and t: "k < t" "t \<le> k + N" "t \<notin> P"
    and p: "result_ok conf (out t) p" and f: "rs_slot f = 1" "rs_latch f = 0" "rs_result f = Some p"
  shows "handler_inv conf log N D out
    (updateMaximumTaskId m (h\<lparr>rh_resultsWithoutFrags := (slots h)[ring N t := f]\<rparr>), b, k, insert t P)"
proof -
  let ?h = "updateMaximumTaskId m (h\<lparr>rh_resultsWithoutFrags := (slots h)[ring N t := f]\<rparr>)"
  have at: "rh_at conf N D out k P h" using inv by (simp add: handler_inv_def)
  have l: "ring N t < length (slots h)" using ring_less rh_at_indexD(1,2) [OF at] by simp
  have sl: "slots ?h = (slots h)[ring N t := f]" by (simp add: updateMaximumTaskId_def)
  have other: "slots ?h ! ring N u = slots h ! ring N u" if "k < u" "u \<le> k + N" "u \<noteq> t" for u
    using ring_inj [of k u N t] that t sl by (metis nth_list_update_neq)
  have new: "slots ?h ! ring N t = f" using l sl by simp
  have ok: "slot_ok conf D out t f" using p f by (simp add: slot_ok_def)
  have env: "rh_env conf N D ?h" using rh_at_indexD(6) [OF at] by (simp add: rh_env_def updateMaximumTaskId_def)
  have P: "P \<subseteq> {k<..k + N}" using at by (simp add: rh_at_def)
  have "slot_ok conf D out u (slots ?h ! ring N u)" if "u \<in> insert t P" for u
    using that P other [of u] new ok at by (cases "u = t") (auto simp: rh_at_def subset_iff)
  moreover have "rs_slot (slots ?h ! ring N u) = 1 \<and> rs_latch (slots ?h ! ring N u) = 0" if "u \<in> insert t P" "u \<noteq> Suc k" for u
    using that P other [of u] new f at by (cases "u = t") (auto simp: rh_at_def subset_iff)
  moreover have "rs_slot (slots ?h ! ring N u) = -1" if "k < u" "u \<le> k + N" "u \<notin> insert t P" for u
    using that other [of u] at by (auto simp: rh_at_def)
  moreover have "rh_nextToForward ?h = int (k mod N)"
    using rh_at_indexD(3) [OF at] by (simp add: updateMaximumTaskId_def)
  ultimately have at': "rh_at conf N D out k (insert t P) ?h"
    using P t env by (intro rh_atI) auto
  have head: "slots ?h ! (k mod N) = (if t = Suc k then f else slots h ! (k mod N))"
    using other [of "Suc k"] new rh_at_indexD(1) [OF at] by auto
  have ds: "rh_downstream ?h = rh_downstream h" by (simp add: updateMaximumTaskId_def)
  have "received log N D out k (insert t P) ?h"
    using inv t(3) f(2) unfolding handler_inv_def received_def head ds by auto
  moreover have "Suc k \<in> insert t P \<longrightarrow> rs_slot (slots ?h ! (k mod N)) = (if b then 2 else 1)" "b \<longrightarrow> Suc k \<in> insert t P"
    using inv t(3) f(1) unfolding handler_inv_def head by auto
  ultimately show ?thesis using at' by (simp add: handler_inv_def)
qed

lemma claim_inv:
  assumes inv: "handler_inv conf log N D out (h, False, k, P)"
  shows "\<exists>h'. claimNext h = Inr (Suc k \<in> P, h') \<and> handler_inv conf log N D out (h', Suc k \<in> P, k, P)"
proof -
  let ?s = "slots h ! (k mod N)"
  have at: "rh_at conf N D out k P h" and rec: "received log N D out k P h"
    and head: "Suc k \<in> P \<longrightarrow> rs_slot ?s = 1" using inv by (auto simp: handler_inv_def)
  note idx = rh_at_indexD [OF at]
  have get: "vget (slots h) (rh_nextToForward h) = Inr ?s" using idx(3,5) by (simp add: vget_def)
  show ?thesis
  proof (cases "Suc k \<in> P")
    case True
    let ?h = "h\<lparr>rh_resultsWithoutFrags := (slots h)[k mod N := ?s\<lparr>rs_slot := 2\<rparr>]\<rparr>"
    have c: "claimNext h = Inr (True, ?h)" using get head True idx(3,5) by (simp add: claimNext_def setSlot_nth)
    have "slot_ok conf D out (Suc k) (?s\<lparr>rs_slot := 2\<rparr>)" using at True by (auto simp: rh_at_def slot_ok_def)
    from rh_at_head [OF at True this, of ?h] have "rh_at conf N D out k P ?h" using idx(6) by (simp add: rh_env_def)
    moreover have "received log N D out k P ?h" using rec idx(5) by (simp add: received_def)
    ultimately show ?thesis using c True idx(5) by (simp add: handler_inv_def)
  next
    case False
    then have "rs_slot ?s = -1" using at idx(1) by (auto simp: rh_at_def dest: spec [of _ "Suc k"])
    then have "claimNext h = Inr (False, h)" using get by (simp add: claimNext_def)
    then show ?thesis using False inv by simp
  qed
qed

lemma rh_env_frame:
  assumes "rh_env conf N D h" "rh_frame h h'" "rh_partials h' = rh_partials h"
    "rh_freeBuffer1 h' = rh_freeBuffer1 h" "rh_freeBuffer2 h' = rh_freeBuffer2 h"
  shows "rh_env conf N D h'"
  using assms by (simp add: rh_env_def rh_frame_def)

lemma next_slot:
  assumes "0 < N"
  shows "(if int (k mod N) + 1 = int N then 0 else int (k mod N) + 1) = int (Suc k mod N)"
  using assms mod_Suc [of k N] by auto

lemma forward_inv:
  assumes conf: "\<not> LINEAGE_ON conf" "\<not> LATENCY_ON conf" and sink: "sink_ok send log"
    and inv: "handler_inv conf log N D out (h, True, k, P)"
  shows "\<exists>ok h'. forwardSlot conf send h = Inr (ok, h')
    \<and> handler_inv conf log N D out (if ok then (h', False, Suc k, P - {Suc k}) else (h', False, k, P))"
proof -
  let ?s = "slots h ! (k mod N)"
  have at: "rh_at conf N D out k P h" and rec: "received log N D out k P h" and P: "Suc k \<in> P"
    using inv by (auto simp: handler_inv_def)
  note idx = rh_at_indexD [OF at]
  have "slot_ok conf D out (Suc k) ?s" using at P by (auto simp: rh_at_def)
  then obtain p where s: "rs_result ?s = Some p" "0 \<le> rs_latch ?s" "rs_latch ?s \<le> int D"
    and p: "result_ok conf (out (Suc k)) p" by (auto simp: slot_ok_def)
  have get: "vget (slots h) (rh_nextToForward h) = Inr ?s" using idx(3,5) by (simp add: vget_def)
  have "\<forall>q < D. log (rh_downstream h) (int q)
      = sends out k @ (if int q < rs_latch ?s \<and> out (Suc k) \<noteq> [] then [out (Suc k)] else [])"
    using rec P by (simp add: received_def)
  from sendResult_ok [OF conf sink idx(6) p s(2,3) this] obtain ok s1 h1 where
    send: "sendResult conf send ?s p h = Inr (ok, p, s1, h1)" and res: "rs_result s1 = rs_result ?s"
    and keep: "rh_partials h1 = rh_partials h" "rh_freeBuffer1 h1 = rh_freeBuffer1 h" "rh_freeBuffer2 h1 = rh_freeBuffer2 h"
    and r: "if ok then \<forall>q < D. log (rh_downstream h1) (int q) = sends out k @ (if out (Suc k) \<noteq> [] then [out (Suc k)] else [])
       else 0 \<le> rs_latch s1 \<and> rs_latch s1 \<le> int D \<and> (\<forall>q < D. log (rh_downstream h1) (int q)
         = sends out k @ (if int q < rs_latch s1 \<and> out (Suc k) \<noteq> [] then [out (Suc k)] else []))"
    by blast
  have f1: "slots h1 = slots h" "rh_nextToForward h1 = rh_nextToForward h" and env1: "rh_env conf N D h1"
    using sendResult_frame [OF send] rh_env_frame [OF idx(6) _ keep] by (auto simp: rh_frame_def)
  show ?thesis
  proof (cases ok)
    case False
    let ?s' = "s1\<lparr>rs_result := Some p, rs_slot := 1\<rparr>"
    let ?h = "h1\<lparr>rh_resultsWithoutFrags := (slots h)[k mod N := ?s']\<rparr>"
    have c: "forwardSlot conf send h = Inr (False, ?h)"
      using get s(1) send False idx(3,5) f1 by (simp add: forwardSlot_def setSlot_nth)
    have "slot_ok conf D out (Suc k) ?s'" using r False p by (simp add: slot_ok_def)
    from rh_at_head [OF at P this, of ?h] have "rh_at conf N D out k P ?h" using env1 f1 idx(2) by (simp add: rh_env_def)
    moreover have "received log N D out k P ?h" using r False P idx(5) by (simp add: received_def)
    ultimately show ?thesis using c P idx(5) by (auto simp: handler_inv_def)
  next
    case True
    from releaseResult_ok [OF conf env1 p, of s1] obtain h2 where
      rel: "releaseResult conf s1 p h1 = Inr (s1, h2)" and env2: "rh_env conf N D h2"
      and ds: "rh_downstream h2 = rh_downstream h1" by blast
    have f2: "slots h2 = slots h" using releaseResult_frame [OF rel] f1 by (simp add: rh_frame_def)
    let ?s' = "s1\<lparr>rs_result := Some (pw_clear p), rs_slot := -1\<rparr>"
    let ?h = "h2\<lparr>rh_resultsWithoutFrags := (slots h)[k mod N := ?s'], rh_nextToForward := int (Suc k mod N)\<rparr>"
    have n2: "rh_numberOfSlots h2 = int N" using env2 by (simp add: rh_env_def)
    have c: "forwardSlot conf send h = Inr (True, ?h)"
      using get s(1) send True rel idx(3,5) f1 f2 n2 next_slot [OF idx(1), of k] by (simp add: forwardSlot_def setSlot_nth)
    have at': "rh_at conf N D out (Suc k) (P - {Suc k}) ?h"
      by (rule rh_at_release [OF at P, of ?s']) (use env2 idx(2) in \<open>simp_all add: rh_env_def\<close>)
    have two: "rs_slot (slots ?h ! (Suc k mod N)) = 1 \<and> rs_latch (slots ?h ! (Suc k mod N)) = 0"
      if "Suc (Suc k) \<in> P"
    proof -
      have t: "k < Suc (Suc k)" "Suc (Suc k) \<le> k + N" "Suc (Suc k) \<noteq> Suc k" using that at by (auto simp: rh_at_def)
      have "slots ?h ! (Suc k mod N) = slots h ! (Suc k mod N)" using ring_other [OF at t] by simp
      then show ?thesis using that at by (auto simp: rh_at_def dest: bspec [of _ _ "Suc (Suc k)"])
    qed
    then have "received log N D out (Suc k) (P - {Suc k}) ?h"
      using r True ds by (auto simp: received_def sends_Suc)
    then show ?thesis using c at' True two by (auto simp: handler_inv_def)
  qed
qed

text \<open>The invariant of the runs: no task has been ahead of the ring, or the ring holds the stored tasks.\<close>

definition run_inv ::
  "SystemConf \<Rightarrow> ('w \<Rightarrow> int \<Rightarrow> byte list list) \<Rightarrow> nat \<Rightarrow> nat \<Rightarrow> (nat \<Rightarrow> byte list) \<Rightarrow> 'w handler_state \<Rightarrow> bool" where
  "run_inv conf log N D out = (\<lambda>(h, b, k, P, ahead).
     ahead \<or> handler_inv conf log N D out (h, b, k, P - {..k}) \<and> {1..k} \<subseteq> P)"

lemma handler_step_inv:
  assumes "handler_step conf send N out x y" and "\<not> LINEAGE_ON conf" "\<not> LATENCY_ON conf" and "sink_ok send log"
    and "run_inv conf log N D out x"
  shows "run_inv conf log N D out y"
  using assms
proof (induction rule: handler_step.induct)
  case (store_step t P wb p others h wb' h' b k ahead)
  show ?case
  proof (cases "ahead \<or> k + N < t")
    case True
    then show ?thesis by (simp add: run_inv_def)
  next
    case False
    then have inv: "handler_inv conf log N D out (h, b, k, P - {..k})" and P: "{1..k} \<subseteq> P" and t: "t \<le> k + N"
      using store_step.prems(4) by (auto simp: run_inv_def)
    have "t \<notin> {1..k}" using P store_step.hyps(2) by blast
    then have new: "k < t" using store_step.hyps(1) by simp
    have unstored: "t \<notin> P - {..k}" using store_step.hyps(2) by simp
    have "rh_at conf N D out k (P - {..k}) h" using inv by (simp add: handler_inv_def)
    from storeResult_free [OF this new t unstored store_step.hyps(3), of others "Some p"] store_step.hyps(5) have
      h': "h' = updateMaximumTaskId (int t) (h\<lparr>rh_resultsWithoutFrags :=
         (slots h)[ring N t := fillSlot conf wb (Some p) ((slots h ! ring N t)\<lparr>rs_slot := 0\<rparr>)]\<rparr>)" by auto
    have "insert t P - {..k} = insert t (P - {..k})" using new by auto
    then show ?thesis
      using h' P store_inv [OF inv new t unstored store_step.hyps(4)] by (auto simp: run_inv_def)
  qed
next
  case (claim_step h b h' k P ahead)
  then show ?case using claim_inv [of conf log N D out h k "P - {..k}"] by (auto simp: run_inv_def)
next
  case (refused_step h h' k P ahead)
  then show ?case using forward_inv [of conf send log N D out h k "P - {..k}"] by (auto simp: run_inv_def)
next
  case (forward_step h h' k P ahead)
  show ?case
  proof (cases ahead)
    case False
    then have inv: "handler_inv conf log N D out (h, True, k, P - {..k})" and P: "{1..k} \<subseteq> P"
      using forward_step.prems(4) by (auto simp: run_inv_def)
    have head: "Suc k \<in> P" using inv by (simp add: handler_inv_def)
    have rest: "P - {..Suc k} = P - {..k} - {Suc k}" by auto
    have "handler_inv conf log N D out (h', False, Suc k, P - {..Suc k})"
      using forward_inv [OF forward_step.prems(1-3) inv] forward_step.hyps unfolding rest by auto
    moreover have "{1..Suc k} \<subseteq> P" using P head by (simp add: atLeastAtMostSuc_conv)
    ultimately show ?thesis by (simp add: run_inv_def)
  qed (simp add: run_inv_def)
qed

lemma handler_steps_inv:
  assumes "(handler_step conf send N out)\<^sup>*\<^sup>* x y" and "\<not> LINEAGE_ON conf" "\<not> LATENCY_ON conf" and "sink_ok send log"
    and "run_inv conf log N D out x"
  shows "run_inv conf log N D out y"
  using assms by (induction rule: rtranclp_induct) (auto dest: handler_step_inv)

lemma handler_inv_new:
  assumes h: "h = newResultHandler conf qid ops isLeft ds w (Some (int N)) fb1 fb2 False graphs (newPartialFactory conf)"
    and "0 < N" and "qb_tupleSize fb1 \<noteq> 0" "qb_tupleSize fb2 \<noteq> 0"
    and D: "D = length (takeWhile (\<lambda>x. x \<noteq> None) ds)" and "\<forall>q. log w q = []"
  shows "handler_inv conf log N D out (h, False, 0, {})"
proof -
  have ds: "D \<le> length ds" "\<forall>q < D. ds ! q \<noteq> None"
    using D set_takeWhileD [OF nth_mem] by (auto simp: length_takeWhile_le takeWhile_nth [symmetric] simp del: not_None_eq)
  have slots: "slots h = map newResultSlot [0..int N - 1]" by (simp add: h newResultHandler_def Let_def)
  have env: "rh_env conf N D h"
    using assms ds by (simp add: rh_env_def newResultHandler_def newPartialFactory_def Let_def)
  have "rs_slot (slots h ! i) = -1" if "i < N" for i
    using that unfolding slots by (simp add: newResultSlot_def)
  then have "rh_at conf N D out 0 {} h"
    using env assms(2) by (intro rh_atI) (auto simp: h newResultHandler_def Let_def ring_less)
  then show ?thesis using assms by (simp add: handler_inv_def received_def sends_def newResultHandler_def Let_def)
qed

lemma run_inv_reached:
  assumes "\<not> LINEAGE_ON conf" "\<not> LATENCY_ON conf" and "sink_ok send log"
    and "h0 = newResultHandler conf qid ops isLeft ds w (Some (int N)) fb1 fb2 False graphs (newPartialFactory conf)"
    and "0 < N" and "qb_tupleSize fb1 \<noteq> 0" "qb_tupleSize fb2 \<noteq> 0" and "\<forall>q. log w q = []"
    and "(handler_step conf send N out)\<^sup>*\<^sup>* (h0, False, 0, {}, False) (h, b, k, P, False)"
  shows "handler_inv conf log N (length (takeWhile (\<lambda>x. x \<noteq> None) ds)) out (h, b, k, P - {..k})" and "{1..k} \<subseteq> P"
proof -
  let ?D = "length (takeWhile (\<lambda>x. x \<noteq> None) ds)"
  have "run_inv conf log N ?D out (h0, False, 0, {}, False)"
    using handler_inv_new [where log = log, OF assms(4-7) refl assms(8)] by (simp add: run_inv_def)
  from handler_steps_inv [OF assms(9,1-3) this]
  show "handler_inv conf log N ?D out (h, b, k, P - {..k})" "{1..k} \<subseteq> P" by (simp_all add: run_inv_def)
qed

section \<open>Downstream queries that accept\<close>

definition accepts :: "'w sink_ops \<Rightarrow> bool" where
  "accepts send \<longleftrightarrow> (\<forall>q call data len lat g w ok w'. send q call data len lat g w = Inr (ok, w') \<longrightarrow> ok)"

lemma sendAll_accepts: "accepts send \<Longrightarrow> sendAll send data len qs s h = Inr (ok, s', h') \<Longrightarrow> ok"
proof (induction qs arbitrary: s h)
  case (Cons q qs)
  then obtain query where query: "vget (rh_downstreamQueries h) q = Inr query" by auto
  show ?case
  proof (cases query)
    case None
    then show ?thesis using Cons query by auto
  next
    case (Some ups)
    with Cons.prems query obtain success w where
      "send q (dispatchCall ups h) data len (rs_latencyMark s) (rs_graph s) (rh_downstream h) = Inr (success, w)"
      "(if success then sendAll send data len qs (s\<lparr>rs_graph := None\<rparr>)
                    (h\<lparr>rh_downstream := w, rh_forwardId := rh_forwardId h + 1\<rparr>)
             else Inr (False, s\<lparr>rs_latch := q\<rparr>, h\<lparr>rh_downstream := w\<rparr>)) = Inr (ok, s', h')"
      by (auto elim!: rbind_pairE)
    moreover from this(1) have success using Cons.prems(1) unfolding accepts_def by blast
    ultimately show ?thesis using Cons.IH Cons.prems(1) by simp
  qed
qed simp

lemma sendResult_accepts:
  assumes "accepts send" and "sendResult conf send s p h = Inr (ok, p', s', h')"
  shows ok
proof -
  let ?len = "to_int32 (pw_position p)"
  show ?thesis
  proof (cases "?len > 0 \<and> rh_numberOfDownstreamQueries h > 0")
    case True
    then obtain dup where dup: "isDuplicate conf ?len h = Inr dup" using assms by (auto simp: sendResult_def Let_def)
    show ?thesis
    proof (cases dup)
      case True': True
      then show ?thesis using assms True dup by (auto simp: sendResult_def Let_def)
    next
      case False
      then obtain data s1 h1 where
          "sendAll send data ?len [rs_latch s1..rh_numberOfDownstreamQueries h1 - 1] s1 h1 = Inr (ok, s', h')"
        using assms True dup by (auto simp: sendResult_def Let_def elim!: rbind_pairE)
      then show ?thesis by (rule sendAll_accepts [OF assms(1)])
    qed
  next
    case False
    then show ?thesis using assms(2) by (auto simp: sendResult_def Let_def split: if_splits)
  qed
qed

lemma forwardSlot_accepts:
  assumes "accepts send" and "forwardSlot conf send h = Inr (ok, h')"
  shows ok
proof -
  obtain s p where s: "vget (slots h) (rh_nextToForward h) = Inr s" "rs_result s = Some p"
    using assms by (auto simp: forwardSlot_def Let_def split: option.splits)
  obtain ok1 p1 s1 h1 where send: "sendResult conf send s p h = Inr (ok1, p1, s1, h1)"
    using assms s by (cases "sendResult conf send s p h") (auto simp: forwardSlot_def Let_def)
  then have ok1 using sendResult_accepts [OF assms(1)] by blast
  then show ?thesis using assms(2) s send by (auto simp: forwardSlot_def Let_def elim!: rbind_pairE)
qed

lemma forwardLoop_drains:
  assumes "\<not> LINEAGE_ON conf" "\<not> LATENCY_ON conf" and "sink_ok send log" and "accepts send"
    and "handler_inv conf log N D out (h, True, k, P)"
  shows "\<exists>h' k'. forwardLoop conf send h = Inr h' \<and> k < k' \<and> {k<..k'} \<subseteq> P \<and> Suc k' \<notin> P
    \<and> handler_inv conf log N D out (h', False, k', P - {k<..k'})"
  using assms
proof (induction "waiting h" arbitrary: h k P rule: less_induct)
  case less
  have P: "Suc k \<in> P" using less.prems(5) by (simp add: handler_inv_def)
  obtain ok h1 where f: "forwardSlot conf send h = Inr (ok, h1)"
    and i1: "handler_inv conf log N D out (if ok then (h1, False, Suc k, P - {Suc k}) else (h1, False, k, P))"
    using forward_inv [OF less.prems(1-3,5)] by blast
  have ok using forwardSlot_accepts [OF less.prems(4) f] .
  note f = f [unfolded eqTrueI [OF this]] and i1 = i1 [unfolded eqTrueI [OF this] if_True]
  obtain h2 where c: "claimNext h1 = Inr (Suc (Suc k) \<in> P - {Suc k}, h2)"
    and i2: "handler_inv conf log N D out (h2, Suc (Suc k) \<in> P - {Suc k}, Suc k, P - {Suc k})"
    using claim_inv [OF i1] by blast
  show ?case
  proof (cases "Suc (Suc k) \<in> P")
    case False
    then have "forwardLoop conf send h = Inr h2" using f c by (subst forwardLoop.simps) simp
    moreover have "{k<..Suc k} = {Suc k}" by auto
    ultimately show ?thesis using False i2 P by (intro exI [of _ h2] exI [of _ "Suc k"]) simp
  next
    case True
    have "waiting h2 < waiting h"
      using forwardSlot_waiting [OF f] claimNext_waiting [of h1 h2] c True by simp
    from less.hyps [OF this less.prems(1-4), of "Suc k" "P - {Suc k}"] i2 True obtain h' k' where
      IH: "forwardLoop conf send h2 = Inr h'" "Suc k < k'" "{Suc k<..k'} \<subseteq> P - {Suc k}" "Suc k' \<notin> P - {Suc k}"
        "handler_inv conf log N D out (h', False, k', P - {Suc k} - {Suc k<..k'})" by auto
    have "forwardLoop conf send h = Inr h'" using f c True IH(1) by (subst forwardLoop.simps) simp
    moreover have "{k<..k'} = insert (Suc k) {Suc k<..k'}" using IH(2) by auto
    moreover have "P - {Suc k} - {Suc k<..k'} = P - insert (Suc k) {Suc k<..k'}" by auto
    ultimately show ?thesis using IH P by (intro exI [of _ h'] exI [of _ k']) auto
  qed
qed

section \<open>Properties\<close>

text \<open>
  C3. Workers store the results of tasks and threads claim and forward slots, in any interleaving. As
  long as no task was stored more than the \<open>N\<close> slots of the ring ahead of the forwarded ones (the last
  component of the state is False), the forwarded tasks are the tasks 1 to \<open>k\<close>, all of which were
  stored, and each downstream query has received their non-empty results in task order, each exactly
  once, and at most the result of task \<open>k + 1\<close> after them, whatever the queries refuse in between.
  Beyond a ring a waiting result is replaced (\<open>reserve_overwrites\<close>).
\<close>

theorem results_in_order:
  assumes "\<not> LINEAGE_ON conf" "\<not> LATENCY_ON conf" and "sink_ok send log"
    and "h0 = newResultHandler conf qid ops isLeft ds w (Some (int N)) fb1 fb2 False graphs (newPartialFactory conf)"
    and "0 < N" and "qb_tupleSize fb1 \<noteq> 0" "qb_tupleSize fb2 \<noteq> 0" and "\<forall>q. log w q = []"
    and "(handler_step conf send N out)\<^sup>*\<^sup>* (h0, False, 0, {}, False) (h, b, k, P, False)"
    and "q < length (takeWhile (\<lambda>x. x \<noteq> None) ds)"
  shows "{1..k} \<subseteq> P \<and> (log (rh_downstream h) (int q) = filter (\<lambda>d. d \<noteq> []) (map out [1..<Suc k])
    \<or> Suc k \<in> P \<and> log (rh_downstream h) (int q) = filter (\<lambda>d. d \<noteq> []) (map out [1..<Suc (Suc k)]))"
proof -
  note inv = run_inv_reached [OF assms(1-9)]
  have "log (rh_downstream h) (int q) = sends out k
    \<or> Suc k \<in> P \<and> log (rh_downstream h) (int q) = sends out (Suc k)"
    using inv(1) assms(10) by (auto simp: handler_inv_def received_def sends_Suc)
  then show ?thesis using inv(2) unfolding sends_def by blast
qed

text \<open>
  C10. When the downstream queries accept, one pass under the forward lock returns, and it forwards
  every stored result up to the first missing task: nothing that can be forwarded is left behind. As
  in \<open>results_in_order\<close> no task was stored more than a ring ahead of the forwarded ones.
\<close>

theorem forwardResults_drains:
  assumes "\<not> LINEAGE_ON conf" "\<not> LATENCY_ON conf" and "sink_ok send log" and "accepts send"
    and "h0 = newResultHandler conf qid ops isLeft ds w (Some (int N)) fb1 fb2 False graphs (newPartialFactory conf)"
    and "0 < N" and "qb_tupleSize fb1 \<noteq> 0" "qb_tupleSize fb2 \<noteq> 0" and "\<forall>q. log w q = []"
    and "(handler_step conf send N out)\<^sup>*\<^sup>* (h0, False, 0, {}, False) (h, False, k, P, False)"
  shows "\<exists>h' k'. forwardResults conf send h = Inr h' \<and> k \<le> k' \<and> {k<..k'} \<subseteq> P \<and> Suc k' \<notin> P
    \<and> (\<forall>q < length (takeWhile (\<lambda>x. x \<noteq> None) ds). log (rh_downstream h') (int q) = sends out k')"
proof -
  let ?D = "length (takeWhile (\<lambda>x. x \<noteq> None) ds)" and ?Q = "P - {..k}"
  note inv = run_inv_reached(1) [OF assms(1-3,5-10)]
  obtain h1 where c: "claimNext h = Inr (Suc k \<in> ?Q, h1)" and i1: "handler_inv conf log N ?D out (h1, Suc k \<in> ?Q, k, ?Q)"
    using claim_inv [OF inv] by blast
  have log: "log (rh_downstream h') (int q) = sends out k'"
    if "handler_inv conf log N ?D out (h', False, k', Q)" "Suc k' \<notin> Q" "q < ?D" for h' k' Q q
    using that by (auto simp: handler_inv_def received_def)
  show ?thesis
  proof (cases "Suc k \<in> ?Q")
    case True
    with i1 obtain h' k' where l: "forwardLoop conf send h1 = Inr h'" "k < k'" "{k<..k'} \<subseteq> ?Q" "Suc k' \<notin> ?Q"
        "handler_inv conf log N ?D out (h', False, k', ?Q - {k<..k'})"
      using forwardLoop_drains [OF assms(1-4), of N ?D out h1 k ?Q] by auto
    then show ?thesis using c True log [OF l(5)]
      by (intro exI [of _ h'] exI [of _ k']) (auto simp: forwardResults_def)
  next
    case False
    have "handler_inv conf log N ?D out (h1, False, k, ?Q)" using i1 False by simp
    from log [OF this False] show ?thesis using c False
      by (intro exI [of _ h1] exI [of _ k]) (auto simp: forwardResults_def)
  qed
qed

text \<open>
  C21. A task whose slot is still occupied does not wait for it: the failed exchange has stored the
  value of the slot in \<open>oldVal\<close>, and the second attempt, with the value unchanged, succeeds. The
  result that was waiting there is replaced by the new one and is never forwarded.
\<close>

theorem reserve_overwrites:
  assumes "0 < N" "rh_numberOfSlots h = int N" and "wb_taskId wb = int t" "0 < t" and "ring N t < length (slots h)"
    and "rs_slot (slots h ! ring N t) = v" "v \<noteq> -1"
    and "slots (others 0 h) ! ring N t = slots h ! ring N t" "length (slots (others 0 h)) = length (slots h)"
  shows "\<exists>wb' h'. storeResult conf others wb result h = Some (Inr (wb', h'))
    \<and> slots h' = (slots (others 0 h))[ring N t := fillSlot conf wb result ((slots h ! ring N t)\<lparr>rs_slot := 0\<rparr>)]
    \<and> rs_result (slots h' ! ring N t) = result"
proof -
  let ?i = "ring N t" and ?h = "others 0 h"
  have idx: "(int t - 1) smod int N = int ?i" using smod_pred assms by simp
  have "reserveSlot others (int ?i) (-1) 0 h = reserveSlot others (int ?i) v 1 ?h"
    using assms by (subst reserveSlot.simps) (simp add: vget_def)
  also have "\<dots> = Some (Inr (?h\<lparr>rh_resultsWithoutFrags := (slots ?h)[?i := (slots h ! ?i)\<lparr>rs_slot := 0\<rparr>]\<rparr>))"
    using assms by (subst reserveSlot.simps) (simp add: vget_def setSlot_nth)
  finally show ?thesis
    using assms idx by (auto simp: storeResult_def setSlot_nth updateMaximumTaskId_def)
qed

section \<open>Witnesses\<close>

definition logSink :: "(int \<Rightarrow> byte list list) sink_ops" where
  "logSink q call data len lat g w = Inr (True, w(q := w q @ [take (nat len) data]))"

lemma logSink_ok: "sink_ok logSink (\<lambda>w. w)" "accepts logSink"
  by (auto simp: sink_ok_def accepts_def logSink_def)

definition demoHandler :: "(int \<Rightarrow> byte list list) ResultHandler" where
  "demoHandler = newResultHandler defaultConf 0 [] True [Some 1] (\<lambda>_. []) (Some (int 2)) demoBuffer demoBuffer
     False emptyFactory (newPartialFactory defaultConf)"

definition demoOutput :: "nat \<Rightarrow> byte list" where
  "demoOutput t = [word_of_nat t]"

definition demoResult :: "nat \<Rightarrow> PartialWindowResults" where
  "demoResult t = \<lparr>pw_capacity = 1, pw_position = 1, pw_buffer = demoOutput t, pw_bufferPtrs = [], pw_startPointers = [],
     pw_partialWindows = 0, pw_pid = 0, pw_count = 0, pw_type = 0\<rparr>"

definition resultBatch :: "nat \<Rightarrow> WindowBatch" where
  "resultBatch t = newWindowBatch defaultConf 1 (int t) INT_MIN INT_MIN None None None None (-1) INT_MIN INT_MIN"

lemma demoConf: "\<not> LINEAGE_ON defaultConf" "\<not> LATENCY_ON defaultConf"
  by (simp_all add: defaultConf_def)

lemma demoResult_ok: "result_ok defaultConf (demoOutput t) (demoResult t)"
  by (simp add: result_ok_def demoResult_def demoOutput_def defaultConf_def INT_MAX_def)

text \<open>Task 2 is stored before task 1, and then both are forwarded.\<close>

lemma reorder_store:
  assumes "handler_inv defaultConf (\<lambda>w. w) 2 1 demoOutput (h, False, 0, P)" "0 < t" "t \<le> 2" "t \<notin> P"
  shows "\<exists>h'. handler_step defaultConf logSink 2 demoOutput (h, False, 0, P, False) (h', False, 0, insert t P, False)
    \<and> handler_inv defaultConf (\<lambda>w. w) 2 1 demoOutput (h', False, 0, insert t P)"
proof -
  have at: "rh_at defaultConf 2 1 demoOutput 0 P h" using assms(1) by (simp add: handler_inv_def)
  have wb: "wb_taskId (resultBatch t) = int t" by (simp add: resultBatch_def newWindowBatch_def)
  obtain wb' where "storeResult defaultConf (\<lambda>_ h. h) (resultBatch t) (Some (demoResult t)) h
      = Some (Inr (wb', updateMaximumTaskId (int t) (h\<lparr>rh_resultsWithoutFrags :=
          (slots h)[ring 2 t := fillSlot defaultConf (resultBatch t) (Some (demoResult t)) ((slots h ! ring 2 t)\<lparr>rs_slot := 0\<rparr>)]\<rparr>)))"
    (is "_ = Some (Inr (_, ?h))")
    using storeResult_free [OF at assms(2) _ assms(4) wb, of "\<lambda>_ h. h" "Some (demoResult t)"] assms(3) by auto
  from store_step [where out = demoOutput and send = logSink and N = 2 and k = 0 and b = False and ahead = False,
      OF assms(2,4) wb demoResult_ok this]
  have "handler_step defaultConf logSink 2 demoOutput (h, False, 0, P, False) (?h, False, 0, insert t P, False)"
    using assms(3) by simp
  then show ?thesis using store_inv [OF assms(1,2) _ assms(4) demoResult_ok] assms(3) by auto
qed

lemma reorder_forward:
  assumes "handler_inv defaultConf (\<lambda>w. w) 2 1 demoOutput (h, False, k, Q)" "Suc k \<in> Q"
  shows "\<exists>h'. (handler_step defaultConf logSink 2 demoOutput)\<^sup>*\<^sup>* (h, False, k, P, False) (h', False, Suc k, P, False)
    \<and> handler_inv defaultConf (\<lambda>w. w) 2 1 demoOutput (h', False, Suc k, Q - {Suc k})"
proof -
  obtain h1 where c: "claimNext h = Inr (True, h1)" and i: "handler_inv defaultConf (\<lambda>w. w) 2 1 demoOutput (h1, True, k, Q)"
    using claim_inv [OF assms(1)] assms(2) by auto
  obtain h2 where f: "forwardSlot defaultConf logSink h1 = Inr (True, h2)"
    and i2: "handler_inv defaultConf (\<lambda>w. w) 2 1 demoOutput (h2, False, Suc k, Q - {Suc k})"
  proof -
    obtain ok h2 where *: "forwardSlot defaultConf logSink h1 = Inr (ok, h2)"
        "handler_inv defaultConf (\<lambda>w. w) 2 1 demoOutput (if ok then (h2, False, Suc k, Q - {Suc k}) else (h2, False, k, Q))"
      using forward_inv [OF demoConf logSink_ok(1) i] by blast
    have ok using forwardSlot_accepts [OF logSink_ok(2) *(1)] .
    with * show thesis by (intro that [of h2]) simp_all
  qed
  have "handler_step defaultConf logSink 2 demoOutput (h, False, k, P, False) (h1, True, k, P, False)"
    using c by (rule claim_step)
  moreover have "handler_step defaultConf logSink 2 demoOutput (h1, True, k, P, False) (h2, False, Suc k, P, False)"
    using f by (rule forward_step)
  ultimately show ?thesis using i2 by (blast intro: converse_rtranclp_into_rtranclp)
qed

lemma reorder_run:
  "\<exists>h. (handler_step defaultConf logSink 2 demoOutput)\<^sup>*\<^sup>* (demoHandler, False, 0, {}, False) (h, False, 0, {1, 2}, False)
    \<and> handler_inv defaultConf (\<lambda>w. w) 2 1 demoOutput (h, False, 0, {1, 2})"
proof -
  have inv: "handler_inv defaultConf (\<lambda>w. w) 2 1 demoOutput (demoHandler, False, 0, {})"
    by (rule handler_inv_new [OF demoHandler_def]) (simp_all add: demoBuffer_def)
  from reorder_store [OF this, of 2] obtain h1 where
    1: "handler_step defaultConf logSink 2 demoOutput (demoHandler, False, 0, {}, False) (h1, False, 0, {2}, False)"
      "handler_inv defaultConf (\<lambda>w. w) 2 1 demoOutput (h1, False, 0, {2})" by auto
  from reorder_store [OF 1(2), of 1] obtain h2 where
    2: "handler_step defaultConf logSink 2 demoOutput (h1, False, 0, {2}, False) (h2, False, 0, {1, 2}, False)"
      "handler_inv defaultConf (\<lambda>w. w) 2 1 demoOutput (h2, False, 0, {1, 2})" by auto
  show ?thesis using 1(1) 2 by (blast intro: converse_rtranclp_into_rtranclp)
qed

lemma reorder_forwarded:
  "\<exists>h. (handler_step defaultConf logSink 2 demoOutput)\<^sup>*\<^sup>* (demoHandler, False, 0, {}, False) (h, False, 2, {1, 2}, False)"
proof -
  obtain h where h: "(handler_step defaultConf logSink 2 demoOutput)\<^sup>*\<^sup>* (demoHandler, False, 0, {}, False) (h, False, 0, {1, 2}, False)"
      "handler_inv defaultConf (\<lambda>w. w) 2 1 demoOutput (h, False, 0, {1, 2})" using reorder_run by blast
  obtain h1 where 1: "(handler_step defaultConf logSink 2 demoOutput)\<^sup>*\<^sup>* (h, False, 0, {1, 2}, False) (h1, False, 1, {1, 2}, False)"
      "handler_inv defaultConf (\<lambda>w. w) 2 1 demoOutput (h1, False, 1, {2})"
    using reorder_forward [OF h(2), of "{1, 2}"] by auto
  obtain h2 where "(handler_step defaultConf logSink 2 demoOutput)\<^sup>*\<^sup>* (h1, False, 1, {1, 2}, False) (h2, False, 2, {1, 2}, False)"
    using reorder_forward [OF 1(2), of "{1, 2}"] by (auto simp: numeral_2_eq_2)
  from rtranclp_trans [OF rtranclp_trans [OF h(1) 1(1)] this] show ?thesis by blast
qed

theorem results_in_order_witness:
  "\<exists>h. (handler_step defaultConf logSink 2 demoOutput)\<^sup>*\<^sup>* (demoHandler, False, 0, {}, False) (h, False, 2, {1, 2}, False)
    \<and> rh_downstream h 0 = [[1], [2]]"
proof -
  obtain h where "(handler_step defaultConf logSink 2 demoOutput)\<^sup>*\<^sup>* (demoHandler, False, 0, {}, False) (h, False, 2, {1, 2}, False)"
    using reorder_forwarded by blast
  with results_in_order [OF demoConf logSink_ok(1) demoHandler_def _ _ _ _ this, of 0] show ?thesis
    by (auto simp: demoBuffer_def demoOutput_def upt_rec)
qed

theorem forwardResults_drains_witness:
  "\<exists>h h'. (handler_step defaultConf logSink 2 demoOutput)\<^sup>*\<^sup>* (demoHandler, False, 0, {}, False) (h, False, 0, {1, 2}, False)
    \<and> forwardResults defaultConf logSink h = Inr h' \<and> rh_downstream h' 0 = [[1], [2]]"
proof -
  obtain h where run: "(handler_step defaultConf logSink 2 demoOutput)\<^sup>*\<^sup>* (demoHandler, False, 0, {}, False) (h, False, 0, {1, 2}, False)"
    using reorder_run by blast
  obtain h' k' where r: "forwardResults defaultConf logSink h = Inr h'" "{0<..k'} \<subseteq> {1, 2}" "Suc k' \<notin> {1, 2}"
      "rh_downstream h' 0 = sends demoOutput k'"
    using forwardResults_drains [OF demoConf logSink_ok demoHandler_def _ _ _ _ run] by (auto simp: demoBuffer_def)
  have "k' = 2"
  proof -
    have "k' \<noteq> 0" "k' \<noteq> 1" using r(3) by auto
    moreover have "k' \<in> {0<..k'}" if "k' \<noteq> 0" using that by simp
    ultimately show ?thesis using r(2) by blast
  qed
  then show ?thesis using run r(1,4) by (auto simp: sends_def demoOutput_def upt_rec)
qed

theorem reserve_overwrites_witness:
  "\<exists>(h :: (int \<Rightarrow> byte list list) ResultHandler) wb' h'. rs_result (slots h ! 0) = Some (demoResult 1) \<and> rs_slot (slots h ! 0) = 1
    \<and> storeResult defaultConf (\<lambda>_ h. h) (resultBatch 3) (Some (demoResult 3)) h = Some (Inr (wb', h'))
    \<and> rs_result (slots h' ! 0) = Some (demoResult 3)"
proof -
  let ?h = "demoHandler\<lparr>rh_resultsWithoutFrags := [(newResultSlot 0)\<lparr>rs_result := Some (demoResult 1), rs_slot := 1\<rparr>, newResultSlot 1]\<rparr>"
  have n: "rh_numberOfSlots ?h = int 2" by (simp add: demoHandler_def newResultHandler_def Let_def)
  have wb: "wb_taskId (resultBatch 3) = int 3" by (simp add: resultBatch_def newWindowBatch_def)
  have ring: "ring 2 3 = 0" by (simp add: ring_def)
  from reserve_overwrites [OF _ n wb, where v = 1 and others = "\<lambda>_ h. h" and conf = defaultConf and result = "Some (demoResult 3)"]
  have "\<exists>wb' h'. storeResult defaultConf (\<lambda>_ h. h) (resultBatch 3) (Some (demoResult 3)) ?h = Some (Inr (wb', h'))
    \<and> rs_result (slots h' ! 0) = Some (demoResult 3)" by (auto simp: ring)
  then show ?thesis by (intro exI [of _ ?h]) simp
qed

end
