(* ===== verification/SingleKeyMerge.thy ===== *)
theory SingleKeyMerge
  imports FragmentSlots
begin

text \<open>
  The merge routine of aggregations without grouping: the method \<open>aggregatePartials\<close> of
  \<open>cql/operators/codeGeneration/OperatorKernel.h\<close>, for partial results in sequential memory, and the
  routine it calls, whose text is written out by \<open>getSingleKeyMergeString\<close>. The layout of the tuples and
  the expressions that depend on the aggregates of the query are parts of the generated text and are an
  argument: the sizes of a partial result and of an output tuple, the combination of an opening fragment
  with a later one into a fragment and into an output tuple, and the HAVING condition.
\<close>

section \<open>The generated routine\<close>

record single_key =
  sk_intermSize :: int
  sk_outputSize :: int
  sk_combine :: "byte list \<Rightarrow> byte list \<Rightarrow> byte list"
  sk_complete :: "byte list \<Rightarrow> byte list \<Rightarrow> byte list"
  sk_having :: "byte list \<Rightarrow> bool"

text \<open>The end of a fragment, which is only compared with its start.\<close>

definition fragmentEnd :: "single_key \<Rightarrow> int list \<Rightarrow> int \<Rightarrow> int \<Rightarrow> int res" where
  "fragmentEnd sk starts wid endPointer =
     rbind (vget starts (wid + 1)) (\<lambda>e. Inr (if e < 0 then endPointer sdiv sk_intermSize sk else e))"

text \<open>
  One iteration. The state is the opening buffer, the complete buffer and the index of the next
  output tuple.
\<close>

definition mergeWindow ::
  "single_key \<Rightarrow> bool \<Rightarrow> int list \<Rightarrow> int \<Rightarrow> byte list \<Rightarrow> int list \<Rightarrow> int \<Rightarrow> int \<Rightarrow> byte list \<times> byte list \<times> int \<Rightarrow>
   (byte list \<times> byte list \<times> int) res" where
  "mergeWindow sk packing openingStarts openingEnd copBuffer copStarts copEnd wid st =
     (case st of (openingBuffer, completeBuffer, resultIndex) \<Rightarrow>
        rbind (vget openingStarts wid) (\<lambda>start1.
        rbind (if packing then vget copStarts wid else Inr 0) (\<lambda>start2.
        rbind (fragmentEnd sk openingStarts wid openingEnd) (\<lambda>end1.
        rbind (if packing then fragmentEnd sk copStarts wid copEnd else Inr (copEnd sdiv sk_intermSize sk)) (\<lambda>end2.
          if start1 = end1 \<or> start2 = end2 then Inl Exit
          else
            rbind (memread openingBuffer (start1 * sk_intermSize sk) (sk_intermSize sk)) (\<lambda>x.
            rbind (memread copBuffer (start2 * sk_intermSize sk) (sk_intermSize sk)) (\<lambda>y.
              if packing then
                rbind (memcpy_to completeBuffer (resultIndex * sk_outputSize sk) (sk_complete sk x y)) (\<lambda>completeBuffer.
                  Inr (openingBuffer, completeBuffer,
                       if sk_having sk (sk_complete sk x y) then resultIndex + 1 else resultIndex))
              else
                rbind (memcpy_to openingBuffer (start1 * sk_intermSize sk) (sk_combine sk x y)) (\<lambda>openingBuffer.
                  Inr (openingBuffer, completeBuffer, resultIndex)))))))))"

text \<open>The routine returns the new buffers and the position it reports.\<close>

definition mergeRoutine ::
  "single_key \<Rightarrow> byte list \<Rightarrow> int list \<Rightarrow> int \<Rightarrow> byte list \<Rightarrow> int list \<Rightarrow> int \<Rightarrow> int \<Rightarrow> int \<Rightarrow> bool \<Rightarrow> byte list \<Rightarrow> int \<Rightarrow>
   (byte list \<times> byte list \<times> int) res" where
  "mergeRoutine sk openingBuffer openingStarts openingEnd copBuffer copStarts copEnd startingWindow numOfWindows packing
     completeBuffer completePtr =
     rbind (rfold (mergeWindow sk packing openingStarts openingEnd copBuffer copStarts copEnd)
              [startingWindow..numOfWindows - 1]
              (openingBuffer, completeBuffer, if packing then completePtr sdiv sk_outputSize sk else startingWindow))
       (\<lambda>(openingBuffer, completeBuffer, resultIndex).
         Inr (openingBuffer, completeBuffer,
              if packing then resultIndex * sk_outputSize sk else numOfWindows * sk_intermSize sk))"

section \<open>The method of the kernel\<close>

definition aggregatePartials ::
  "single_key \<Rightarrow> PartialWindowResults \<Rightarrow> PartialWindowResults \<Rightarrow> PartialWindowResults \<Rightarrow> int \<Rightarrow> int \<Rightarrow> int \<Rightarrow> bool \<Rightarrow>
   (PartialWindowResults \<times> PartialWindowResults \<times> PartialWindowResults \<times> int \<times> int) res" where
  "aggregatePartials sk opening cop complete numOfWindows windowsPos tupleSize packing =
     rbind (pw_getBuffer opening) (\<lambda>ob.
     rbind (pw_getBuffer cop) (\<lambda>pb.
     rbind (pw_getBuffer complete) (\<lambda>cb.
     rbind (mergeRoutine sk ob (pw_startPointers opening) (to_int32 (pw_position opening))
              pb (pw_startPointers cop) (to_int32 (pw_position cop))
              (if packing then 0 else pw_count opening - numOfWindows) numOfWindows packing cb (pw_position complete))
       (\<lambda>(ob, cb, pos).
         Inr (opening\<lparr>pw_buffer := ob\<rparr>, cop, complete\<lparr>pw_buffer := cb\<rparr>, pos, sk_intermSize sk)))))"

definition singleKeyOps :: "single_key \<Rightarrow> aggr_ops" where
  "singleKeyOps sk = \<lparr>ag_hasGroupBy = False, ag_aggregatePartials = aggregatePartials sk\<rparr>"

section \<open>Fragments in a buffer\<close>

definition frag :: "nat \<Rightarrow> byte list \<Rightarrow> nat \<Rightarrow> byte list" where
  "frag T b i = take T (drop (i * T) b)"

definition frags :: "nat \<Rightarrow> PartialWindowResults \<Rightarrow> byte list list" where
  "frags T p = map (frag T (pw_buffer p)) [0..<nat (pw_count p)]"

definition packed :: "PartialWindowResults \<Rightarrow> byte list" where
  "packed p = take (nat (pw_position p)) (pw_buffer p)"

text \<open>
  The fragments are stored one after the other, and what the routine takes for the end of the last one
  differs from its start.
\<close>

definition frags_ok :: "nat \<Rightarrow> PartialWindowResults \<Rightarrow> bool" where
  "frags_ok T p \<longleftrightarrow> pw_type p = 0 \<and> 0 \<le> pw_count p \<and> pw_regular 1 p \<and> pw_count p < int (length (pw_startPointers p))
     \<and> nat (pw_count p) * T \<le> length (pw_buffer p)
     \<and> (0 < pw_count p \<longrightarrow>
          (let e = pw_startPointers p ! nat (pw_count p)
           in (if e < 0 then to_int32 (pw_position p) sdiv int T else e) \<noteq> pw_count p - 1))"

lemma frag_write:
  assumes "length v = T" and "Suc j * T \<le> length b"
  shows "frag T (write_at (j * T) v b) i = (if i = j then v else frag T b i)"
proof -
  consider "i = j" | "i < j" | "j < i" by linarith
  then show ?thesis
  proof cases
    case 1
    then show ?thesis using assms by (simp add: frag_def write_at_def)
  next
    case 2
    then have "i * T + T \<le> j * T" using mult_le_mono1 [of "Suc i" j T] by simp
    then show ?thesis using 2 assms by (simp add: frag_def take_drop_write_at_before)
  next
    case 3
    then have "j * T + T \<le> i * T" using mult_le_mono1 [of "Suc j" i T] by simp
    then have "drop (i * T) (write_at (j * T) v b) = drop (i * T) b"
      using 3 assms by (simp add: write_at_def)
    then show ?thesis using 3 by (simp add: frag_def)
  qed
qed

lemma length_frag: "Suc i * T \<le> length b \<Longrightarrow> length (frag T b i) = T"
  by (simp add: frag_def)

lemma memread_frag:
  assumes "Suc i * T \<le> length b"
  shows "memread b (int i * int T) (int T) = Inr (frag T b i)"
  using assms memread_nat [of "i * T" T b] by (simp add: frag_def)

lemma memcpy_frag:
  assumes "length v = T" "Suc i * T \<le> length b"
  shows "memcpy_to b (int i * int T) v = Inr (write_at (i * T) v b)"
  using assms memcpy_to_nat [of "i * T" v b] by simp

lemma frags_ok_starts:
  assumes "frags_ok T p" and "int i < pw_count p"
  shows "vget (pw_startPointers p) (int i) = Inr (int i)" and "Suc i * T \<le> length (pw_buffer p)"
    and "\<exists>e. fragmentEnd sk (pw_startPointers p) (int i) (to_int32 (pw_position p)) = Inr e
      \<and> (sk_intermSize sk = int T \<longrightarrow> e \<noteq> int i)"
proof -
  have r: "pw_startPointers p ! j = int j" if "int j < pw_count p" for j
    using assms(1) that by (simp add: frags_ok_def pw_regular_def)
  have len: "pw_count p < int (length (pw_startPointers p))" using assms(1) by (simp add: frags_ok_def)
  show "vget (pw_startPointers p) (int i) = Inr (int i)" using len assms(2) r by (simp add: vget_def)
  have "Suc i * T \<le> nat (pw_count p) * T" using assms(2) by (intro mult_le_mono1) linarith
  then show "Suc i * T \<le> length (pw_buffer p)" using assms(1) by (simp add: frags_ok_def)
  let ?e = "pw_startPointers p ! Suc i"
  have "vget (pw_startPointers p) (int i + 1) = Inr ?e" using len assms(2) by (simp add: vget_def nat_add_distrib)
  moreover have "(if ?e < 0 then to_int32 (pw_position p) sdiv int T else ?e) \<noteq> int i"
  proof (cases "int (Suc i) < pw_count p")
    case True
    then show ?thesis using r by simp
  next
    case False
    then have "nat (pw_count p) = Suc i" "pw_count p = int i + 1" using assms(2) by auto
    then show ?thesis using assms unfolding frags_ok_def Let_def by auto
  qed
  ultimately show "\<exists>e. fragmentEnd sk (pw_startPointers p) (int i) (to_int32 (pw_position p)) = Inr e
      \<and> (sk_intermSize sk = int T \<longrightarrow> e \<noteq> int i)"
    by (auto simp: fragmentEnd_def)
qed

section \<open>The loop\<close>

text \<open>The sizes of the generated code.\<close>

definition sk_ok :: "nat \<Rightarrow> nat \<Rightarrow> single_key \<Rightarrow> bool" where
  "sk_ok T S sk \<longleftrightarrow> 0 < T \<and> 0 < S \<and> sk_intermSize sk = int T \<and> sk_outputSize sk = int S
     \<and> (\<forall>x y. length (sk_complete sk x y) = S) \<and> (\<forall>x y. length (sk_combine sk x y) = T)"

text \<open>The output tuples of the closed windows.\<close>

definition closed :: "single_key \<Rightarrow> byte list list \<Rightarrow> byte list list \<Rightarrow> byte list list" where
  "closed sk xs ys = filter (sk_having sk) (map2 (sk_complete sk) xs ys)"

lemma closed_snoc:
  "length xs = length ys \<Longrightarrow>
   closed sk (xs @ [x]) (ys @ [y]) = closed sk xs ys @ (if sk_having sk (sk_complete sk x y) then [sk_complete sk x y] else [])"
  by (simp add: closed_def)

lemma upto_Suc_nat: "[0..int (Suc k) - 1] = [0..int k - 1] @ [int k]"
  by (simp add: upto_rec2)

lemma rfold_snoc: "rfold f (xs @ [x]) s = rbind (rfold f xs s) (f x)"
proof -
  have "rfold f [x] = f x"
  proof
    show "rfold f [x] t = f x t" for t by (cases "f x t") simp_all
  qed
  then show ?thesis by (simp only: rfold_append)
qed

lemma take_write_at:
  "i + length v \<le> length b \<Longrightarrow> take (i + length v) (write_at i v b) = take i b @ v"
  by (simp add: write_at_def)

lemma merge_closing_loop:
  assumes sk: "sk_ok T S sk" and "frags_ok T p" "frags_ok T c" and "int k \<le> pw_count p" "int k \<le> pw_count c"
    and "(ri + k) * S \<le> length cb"
  shows "\<exists>cb' ri'. rfold (mergeWindow sk True (pw_startPointers p) (to_int32 (pw_position p)) (pw_buffer c)
        (pw_startPointers c) (to_int32 (pw_position c))) [0..int k - 1] (pw_buffer p, cb, int ri) = Inr (pw_buffer p, cb', int ri')
    \<and> ri' = ri + length (closed sk (map (frag T (pw_buffer p)) [0..<k]) (map (frag T (pw_buffer c)) [0..<k]))
    \<and> ri' \<le> ri + k \<and> length cb' = length cb
    \<and> take (ri' * S) cb' = take (ri * S) cb @ concat (closed sk (map (frag T (pw_buffer p)) [0..<k]) (map (frag T (pw_buffer c)) [0..<k]))"
  using assms(4-)
proof (induction k)
  case 0
  then show ?case by (simp add: closed_def)
next
  case (Suc k)
  let ?f = "mergeWindow sk True (pw_startPointers p) (to_int32 (pw_position p)) (pw_buffer c) (pw_startPointers c) (to_int32 (pw_position c))"
  let ?xs = "map (frag T (pw_buffer p)) [0..<k]" and ?ys = "map (frag T (pw_buffer c)) [0..<k]"
  let ?v = "sk_complete sk (frag T (pw_buffer p) k) (frag T (pw_buffer c) k)"
  have k: "int k < pw_count p" "int k < pw_count c" using Suc.prems by auto
  obtain cb1 r1 where IH: "rfold ?f [0..int k - 1] (pw_buffer p, cb, int ri) = Inr (pw_buffer p, cb1, int r1)"
      "r1 = ri + length (closed sk ?xs ?ys)" "r1 \<le> ri + k" "length cb1 = length cb"
      "take (r1 * S) cb1 = take (ri * S) cb @ concat (closed sk ?xs ?ys)"
    using Suc.IH Suc.prems by (auto simp: algebra_simps)
  have v: "length ?v = S" using sk by (simp add: sk_ok_def)
  have "Suc r1 * S \<le> (ri + Suc k) * S" using IH(3) by (intro mult_le_mono1) simp
  then have room: "Suc r1 * S \<le> length cb1" using Suc.prems(3) IH(4) by linarith
  obtain e1 e2 where e: "fragmentEnd sk (pw_startPointers p) (int k) (to_int32 (pw_position p)) = Inr e1" "e1 \<noteq> int k"
      "fragmentEnd sk (pw_startPointers c) (int k) (to_int32 (pw_position c)) = Inr e2" "e2 \<noteq> int k"
    using frags_ok_starts(3) [OF assms(2) k(1), of sk] frags_ok_starts(3) [OF assms(3) k(2), of sk] sk
    by (auto simp: sk_ok_def)
  let ?r = "if sk_having sk ?v then Suc r1 else r1"
  have step: "?f (int k) (pw_buffer p, cb1, int r1) = Inr (pw_buffer p, write_at (r1 * S) ?v cb1, int ?r)"
    using e frags_ok_starts(1,2) [OF assms(2) k(1)] frags_ok_starts(1,2) [OF assms(3) k(2)] sk memcpy_frag [OF v room]
    by (simp add: mergeWindow_def sk_ok_def memread_frag)
  have w: "length (write_at (r1 * S) ?v cb1) = length cb" using room v IH(4) by simp
  have "take (r1 * S) (write_at (r1 * S) ?v cb1) = take (r1 * S) cb1" using room by (simp add: write_at_def)
  moreover have "take (Suc r1 * S) (write_at (r1 * S) ?v cb1) = take (r1 * S) cb1 @ ?v"
    using take_write_at [of "r1 * S" ?v cb1] room v by (simp add: add.commute)
  ultimately have t: "take (?r * S) (write_at (r1 * S) ?v cb1) = take (ri * S) cb
      @ concat (closed sk (?xs @ [frag T (pw_buffer p) k]) (?ys @ [frag T (pw_buffer c) k]))"
    using IH(5) by (simp add: closed_snoc)
  have r: "rfold ?f [0..int (Suc k) - 1] (pw_buffer p, cb, int ri) = Inr (pw_buffer p, write_at (r1 * S) ?v cb1, int ?r)"
    unfolding upto_Suc_nat rfold_snoc IH(1) using step by simp
  show ?case
    using r t w IH(2,3) by (intro exI [of _ "write_at (r1 * S) ?v cb1"] exI [of _ ?r]) (simp add: closed_snoc)
qed

text \<open>The pending fragment goes into the windows from \<open>a\<close> on, up to the bound of the loop.\<close>

lemma merge_pending_loop:
  assumes sk: "sk_ok T S sk" and p: "frags_ok T p" and d: "T \<le> length pb" "pe sdiv int T \<noteq> 0"
    and "b = a + n" "int b \<le> pw_count p"
  shows "\<exists>ob. rfold (mergeWindow sk False (pw_startPointers p) (to_int32 (pw_position p)) pb ps pe)
        [int a..int b - 1] (pw_buffer p, cb, ri) = Inr (ob, cb, ri)
    \<and> length ob = length (pw_buffer p)
    \<and> (\<forall>i. frag T ob i = (if a \<le> i \<and> i < b then sk_combine sk (frag T (pw_buffer p) i) (frag T pb 0) else frag T (pw_buffer p) i))"
  using assms(5-)
proof (induction n arbitrary: b)
  case 0
  then show ?case by auto
next
  case (Suc n)
  let ?f = "mergeWindow sk False (pw_startPointers p) (to_int32 (pw_position p)) pb ps pe"
  let ?b = "a + n"
  obtain ob where IH: "rfold ?f [int a..int ?b - 1] (pw_buffer p, cb, ri) = Inr (ob, cb, ri)" "length ob = length (pw_buffer p)"
      "\<forall>i. frag T ob i = (if a \<le> i \<and> i < ?b then sk_combine sk (frag T (pw_buffer p) i) (frag T pb 0) else frag T (pw_buffer p) i)"
    using Suc.IH [of ?b] Suc.prems by auto
  have k: "int ?b < pw_count p" using Suc.prems by simp
  let ?v = "sk_combine sk (frag T (pw_buffer p) ?b) (frag T pb 0)"
  have v: "length ?v = T" using sk by (simp add: sk_ok_def)
  have room: "Suc ?b * T \<le> length ob" using frags_ok_starts(2) [OF p k] IH(2) by simp
  obtain e1 where e: "fragmentEnd sk (pw_startPointers p) (int ?b) (to_int32 (pw_position p)) = Inr e1" "e1 \<noteq> int ?b"
    using frags_ok_starts(3) [OF p k, of sk] sk by (auto simp: sk_ok_def)
  have read: "memread ob (int ?b * int T) (int T) = Inr (frag T (pw_buffer p) ?b)" "memread pb 0 (int T) = Inr (frag T pb 0)"
    using memread_frag [OF room] IH(3) memread_frag [of 0 T pb] d(1) by simp_all
  have step: "?f (int ?b) (ob, cb, ri) = Inr (write_at (?b * T) ?v ob, cb, ri)"
    using e frags_ok_starts(1) [OF p k] read d(2) sk memcpy_frag [OF v room]
    by (simp add: mergeWindow_def sk_ok_def del: of_nat_add)
  have list: "[int a..int b - 1] = [int a..int ?b - 1] @ [int ?b]" using Suc.prems(1) by (simp add: upto_rec2)
  have "rfold ?f [int a..int b - 1] (pw_buffer p, cb, ri) = Inr (write_at (?b * T) ?v ob, cb, ri)"
    unfolding list rfold_snoc using IH(1) step by simp
  moreover have "length (write_at (?b * T) ?v ob) = length (pw_buffer p)" using room v IH(2) by simp
  moreover have "frag T (write_at (?b * T) ?v ob) i
      = (if a \<le> i \<and> i < b then sk_combine sk (frag T (pw_buffer p) i) (frag T pb 0) else frag T (pw_buffer p) i)" for i
    using frag_write [OF v room, of i] IH(3) Suc.prems(1) by (auto simp: less_Suc_eq)
  ultimately show ?case by blast
qed

end
