(* ===== verification/Merging.thy ===== *)
theory Merging
  imports SingleKeyMerge
begin

text \<open>
  What merging two neighbouring slots does to the windows of an aggregation without grouping: which
  windows are completed, which stay open, and which fragments each of them contains.
\<close>

section \<open>Completing windows\<close>

definition complete_ok :: "nat \<Rightarrow> nat \<Rightarrow> PartialWindowResults \<Rightarrow> bool" where
  "complete_ok S k p \<longleftrightarrow> pw_type p = 0 \<and> 0 \<le> pw_position p \<and> int S dvd pw_position p
     \<and> nat (pw_position p) + k * S \<le> length (pw_buffer p) \<and> int (length (pw_buffer p)) \<le> INT_MAX
     \<and> pw_count p + int k \<le> pw_partialWindows p"

lemma sdiv_dvd:
  assumes "0 < S" "0 \<le> x" "int S dvd x"
  obtains r where "x = int (r * S)" "x sdiv int S = int r"
proof -
  obtain r where r: "x = int S * r" using assms(3) by blast
  with assms have "0 \<le> r" by (simp add: zero_le_mult_iff)
  then have "x = int (nat r * S)" using r by simp
  moreover have "x sdiv int S = int (nat r)" using assms r \<open>0 \<le> r\<close> by (simp add: sdiv_nonneg)
  ultimately show ?thesis by (rule that)
qed

lemma frags_take:
  assumes "int k \<le> pw_count p"
  shows "take k (frags T p) = map (frag T (pw_buffer p)) [0..<k]"
  using assms by (auto simp: frags_def take_map)

lemma mergeClosing_ok:
  assumes sk: "sk_ok T S sk" and p: "frags_ok T p" "frags_ok T c" and k: "pw_count c = int k" "int k \<le> pw_count p"
    and cp: "complete_ok S k cp"
  shows "\<exists>cp' pos ts. mergeClosing (singleKeyOps sk) p c cp = Inr (p, pw_nullify c, cp', pos, ts)
    \<and> packed cp' = packed cp @ concat (closed sk (take k (frags T p)) (frags T c))
    \<and> pw_type cp' = 0 \<and> complete_ok S 0 cp' \<and> pw_pid cp' = pw_pid cp
    \<and> pw_count cp' = pw_count cp + int k"
proof (cases "k = 0")
  case True
  then have "mergeClosing (singleKeyOps sk) p c cp = Inr (p, c, cp, 0, 0)" using k by (simp add: mergeClosing_def)
  moreover have "pw_nullify c = c" using True k by (simp add: pw_nullify_def)
  ultimately show ?thesis using True cp by (simp add: closed_def complete_ok_def)
next
  case False
  obtain ri where ri: "pw_position cp = int (ri * S)" "pw_position cp sdiv int S = int ri"
    using sdiv_dvd [of S "pw_position cp"] cp sk unfolding complete_ok_def sk_ok_def by blast
  have room: "(ri + k) * S \<le> length (pw_buffer cp)"
    using cp ri(1) by (simp add: complete_ok_def add_mult_distrib del: of_nat_mult)
  have xs: "map (frag T (pw_buffer p)) [0..<k] = take k (frags T p)" "map (frag T (pw_buffer c)) [0..<k] = frags T c"
    using frags_take k by (simp_all add: frags_def)
  let ?cl = "closed sk (take k (frags T p)) (frags T c)"
  obtain cb' ri' where l: "rfold (mergeWindow sk True (pw_startPointers p) (to_int32 (pw_position p)) (pw_buffer c)
        (pw_startPointers c) (to_int32 (pw_position c))) [0..int k - 1] (pw_buffer p, pw_buffer cp, int ri)
      = Inr (pw_buffer p, cb', int ri')" "ri' \<le> ri + k" "length cb' = length (pw_buffer cp)"
      "take (ri' * S) cb' = take (ri * S) (pw_buffer cp) @ concat ?cl"
    using merge_closing_loop [OF sk p k(2) _ room, unfolded xs] k(1) by (metis order_refl)
  have types: "pw_type p = 0" "pw_type c = 0" "pw_type cp = 0" using p cp by (auto simp: frags_ok_def complete_ok_def)
  have agg: "aggregatePartials sk p c cp (int k) 0 0 True
      = Inr (p, c, cp\<lparr>pw_buffer := cb'\<rparr>, int (ri' * S), int T)"
    using l(1) types ri(2) sk by (simp add: aggregatePartials_def mergeRoutine_def pw_getBuffer_def sk_ok_def)
  have "ri' * S \<le> (ri + k) * S" using l(2) by (rule mult_le_mono1)
  then have le: "ri' * S \<le> length (pw_buffer cp)" using room by linarith
  let ?cp = "cp\<lparr>pw_buffer := cb', pw_position := int (ri' * S), pw_count := pw_count cp + int k\<rparr>"
  have "pw_setPosition (int (ri' * S)) (cp\<lparr>pw_buffer := cb'\<rparr>) = Inr (cp\<lparr>pw_buffer := cb', pw_position := int (ri' * S)\<rparr>)"
    using pw_setPosition_seq [of "cp\<lparr>pw_buffer := cb'\<rparr>" "int (ri' * S)"] le l(3) cp
    by (simp add: complete_ok_def del: of_nat_mult)
  then have "mergeClosing (singleKeyOps sk) p c cp = Inr (p, pw_nullify c, ?cp, int (ri' * S), int T)"
    using False k agg cp by (simp add: mergeClosing_def singleKeyOps_def pw_incrementCount_def pw_setCount_def complete_ok_def Let_def
        del: of_nat_mult)
  moreover have "packed ?cp = packed cp @ concat ?cl" using l(4) ri(1) by (simp add: packed_def del: of_nat_mult)
  moreover have "complete_ok S 0 ?cp" using cp l(3) le by (simp add: complete_ok_def del: of_nat_mult)
  ultimately show ?thesis using types by auto
qed
section \<open>Windows that stay open\<close>

text \<open>
  What the windows from \<open>k\<close> on are after the pending fragment was merged in: the bound of the loop is
  the number of these windows, not the index behind the last one.
\<close>

definition kept :: "single_key \<Rightarrow> nat \<Rightarrow> byte list list \<Rightarrow> byte list \<Rightarrow> byte list list" where
  "kept sk k xs p = map (\<lambda>i. if i < length xs - k then sk_combine sk (xs ! i) p else xs ! i) [k..<length xs]"

lemma frag_segment:
  assumes "i < r" "(k + r) * T \<le> length b"
  shows "frag T (take (r * T) (drop (k * T) b) @ c) i = frag T b (k + i)"
proof -
  have "Suc i * T \<le> r * T" using assms(1) by (intro mult_le_mono1) simp
  then have le: "i * T + T \<le> r * T" by simp
  have len: "r * T \<le> length b - k * T" using assms(2) by (simp add: add_mult_distrib)
  have "frag T (take (r * T) (drop (k * T) b) @ c) i = take T (drop (i * T) (take (r * T) (drop (k * T) b)))"
    using le len by (simp add: frag_def)
  also have "\<dots> = frag T b (k + i)" using le by (simp add: frag_def drop_take algebra_simps)
  finally show ?thesis .
qed

lemma frag_behind:
  assumes "length b = r * T"
  shows "frag T (b @ c) (r + i) = frag T c i"
  using assms by (simp add: frag_def add_mult_distrib)

definition room_for :: "nat \<Rightarrow> nat \<Rightarrow> PartialWindowResults \<Rightarrow> bool" where
  "room_for T r p \<longleftrightarrow> pw_count p + int r < pw_partialWindows p \<and> pw_partialWindows p \<le> int (length (pw_startPointers p))
     \<and> (nat (pw_count p) + r) * T \<le> length (pw_buffer p) \<and> int (length (pw_buffer p)) \<le> INT_MAX"

lemma frags_ok_buffer: "frags_ok T p \<Longrightarrow> length b = length (pw_buffer p) \<Longrightarrow> frags_ok T (p\<lparr>pw_buffer := b\<rparr>)"
  by (auto simp: frags_ok_def pw_regular_def Let_def)

lemma mergePending_ok:
  assumes sk: "sk_ok T S sk" and p: "frags_ok T p" "pw_count p = int m" and k: "k < m"
    and pd: "pw_count pd = 1" "pw_type pd = 0" "T \<le> length (pw_buffer pd)" "int T \<le> to_int32 (pw_position pd)"
    and cp: "pw_type cp = 0" and no: "frags_ok T no" "room_for T (m - k) no"
  shows "\<exists>p' no'. mergePending conf (singleKeyOps sk) (int k) (int (m - k)) pos ts p pd cp no = Inr (p', pw_nullify pd, cp, no')
    \<and> pw_pid p' = pw_pid p \<and> pw_type p' = 0 \<and> frags_ok T no' \<and> pw_pid no' = pw_pid no
    \<and> frags T no' = kept sk k (frags T p) (frag T (pw_buffer pd) 0) @ frags T no"
proof -
  let ?r = "m - k" and ?n = "nat (pw_count no)"
  have T: "0 < T" "sk_intermSize sk = int T" using sk by (auto simp: sk_ok_def)
  have le: "int (k + (?r - k)) \<le> pw_count p" using p(2) k by simp
  have "to_int32 (pw_position pd) sdiv int T \<noteq> 0"
    using pd(4) T(1) by (simp add: sdiv_nonneg zdiv_eq_0_iff)
  from merge_pending_loop [OF sk p(1) pd(3) this refl le, of "pw_startPointers pd" "pw_buffer cp" "int k"]
  obtain ob where ob: "rfold (mergeWindow sk False (pw_startPointers p) (to_int32 (pw_position p)) (pw_buffer pd)
        (pw_startPointers pd) (to_int32 (pw_position pd))) [int k..int (k + (?r - k)) - 1] (pw_buffer p, pw_buffer cp, int k)
      = Inr (ob, pw_buffer cp, int k)" "length ob = length (pw_buffer p)"
      "\<And>i. frag T ob i = (if k \<le> i \<and> i < k + (?r - k) then sk_combine sk (frag T (pw_buffer p) i) (frag T (pw_buffer pd) 0)
         else frag T (pw_buffer p) i)"
    by blast
  have list: "[int k..int (k + (?r - k)) - 1] = [int k..int m - int k - 1]" using k by (cases "k \<le> ?r") auto
  have type: "pw_type p = 0" "pw_type no = 0" "pw_count no = int ?n" using p no by (auto simp: frags_ok_def)
  let ?p = "p\<lparr>pw_buffer := ob\<rparr>"
  have agg: "aggregatePartials sk p pd cp (int ?r) pos ts False = Inr (?p, pd, cp, int ?r * int T, int T)"
    using ob(1) [unfolded list] type(1) pd(2) cp p(2) k T by (simp add: aggregatePartials_def mergeRoutine_def pw_getBuffer_def)
  have okp: "frags_ok T ?p" using frags_ok_buffer [OF p(1) ob(2)] .
  have lenob: "m * T \<le> length ob" using p ob(2) by (simp add: frags_ok_def)
  obtain no' where pre: "pw_prepend (int k) (int ?r) (int 1) (int T) ?p no = Inr (no', ?p)" "pw_count no' = int (?n + ?r)"
      "pw_buffer no' = take (?r * T) (drop (k * T) ob) @ take (?n * T) (pw_buffer no) @ drop ((?n + ?r) * T) (pw_buffer no)"
      "\<forall>i \<le> ?n + ?r. pw_startPointers no' ! i = int i" "length (pw_startPointers no') = length (pw_startPointers no)"
      "pw_type no' = 0" "pw_pid no' = pw_pid no"
    using prepend_windows_ok [of no ?n 1 ?p k ?r T] type no okp k T(1) lenob p(2)
    unfolding frags_ok_def room_for_def by auto
  have cnt: "nat (pw_count no') = ?n + ?r" unfolding pre(2) nat_int ..
  have "mergePending conf (singleKeyOps sk) (int k) (int ?r) pos ts p pd cp no = Inr (?p, pw_nullify pd, cp, no')"
    using pd(1) k agg pre(1) by (simp add: mergePending_def singleKeyOps_def Let_def)
  moreover have seg: "length (take (?r * T) (drop (k * T) ob)) = ?r * T"
    using lenob k by (simp add: diff_mult_distrib)
  moreover have "frags_ok T no'"
  proof -
    have "?n * T + ?r * T \<le> length (pw_buffer no)" using no(2) by (simp add: room_for_def add_mult_distrib)
    then have "length (pw_buffer no') = length (pw_buffer no)"
      unfolding pre(3) length_append seg by (simp add: add_mult_distrib)
    moreover have "pw_regular 1 no'" using pre(2,4) by (simp add: pw_regular_def)
    moreover have "pw_startPointers no' ! nat (pw_count no') = pw_count no'"
      unfolding pre(2) nat_int using pre(4) by blast
    moreover have "(?n + ?r) * T \<le> length (pw_buffer no)" "int (?n + ?r) < int (length (pw_startPointers no))"
      using no type(3) k by (auto simp: room_for_def)
    ultimately show ?thesis
      unfolding frags_ok_def Let_def pre(2,5,6) nat_int by (simp del: of_nat_add)
  qed
  moreover have "frags T no' = kept sk k (frags T p) (frag T (pw_buffer pd) 0) @ frags T no"
  proof (rule nth_equalityI)
    show len: "length (frags T no') = length (kept sk k (frags T p) (frag T (pw_buffer pd) 0) @ frags T no)"
      using cnt p(2) by (simp add: frags_def kept_def)
    fix i
    assume i: "i < length (frags T no')"
    show "frags T no' ! i = (kept sk k (frags T p) (frag T (pw_buffer pd) 0) @ frags T no) ! i"
    proof (cases "i < ?r")
      case True
      have "frag T (pw_buffer no') i = frag T ob (k + i)"
        unfolding pre(3) using True lenob k by (intro frag_segment) simp_all
      then show ?thesis using True i cnt p(2) ob(3) [of "k + i"] by (auto simp: frags_def kept_def nth_append)
    next
      case False
      then obtain j where j: "i = ?r + j" using le_Suc_ex by (meson leI)
      then have "j < ?n" using i cnt by (simp add: frags_def)
      moreover have "frag T (pw_buffer no') i = frag T (pw_buffer no) j"
        unfolding pre(3) j frag_behind [OF seg]
        using frag_segment [of j ?n 0 T "pw_buffer no"] calculation no(1) by (simp add: frags_ok_def)
      ultimately show ?thesis using j i cnt p(2) by (simp add: frags_def kept_def nth_append)
    qed
  qed
  ultimately show ?thesis using type pre(7) by auto
qed

section \<open>Merging two slots\<close>

text \<open>The windows of a slot.\<close>

definition windows_of :: "nat \<Rightarrow> PartialWindowResults option \<Rightarrow> byte list list" where
  "windows_of T w = (case w of None \<Rightarrow> [] | Some p \<Rightarrow> frags T p)"

abbreviation opened :: "nat \<Rightarrow> FragmentSlot \<Rightarrow> byte list list" where
  "opened T s \<equiv> windows_of T (fs_openingWindows s)"

abbreviation closing :: "nat \<Rightarrow> FragmentSlot \<Rightarrow> byte list list" where
  "closing T s \<equiv> windows_of T (fs_closingWindows s)"

abbreviation pending :: "nat \<Rightarrow> FragmentSlot \<Rightarrow> byte list list" where
  "pending T s \<equiv> windows_of T (fs_pendingWindows s)"

definition result_of :: "FragmentSlot \<Rightarrow> byte list" where
  "result_of s = (case fs_completeWindows s of None \<Rightarrow> [] | Some p \<Rightarrow> packed p)"

definition pending_ok :: "nat \<Rightarrow> PartialWindowResults \<Rightarrow> bool" where
  "pending_ok T p \<longleftrightarrow> pw_type p = 0 \<and> (pw_count p = 0 \<or> pw_count p = 1 \<and> T \<le> length (pw_buffer p)
     \<and> int T \<le> to_int32 (pw_position p))"

definition holds :: "(PartialWindowResults \<Rightarrow> bool) \<Rightarrow> PartialWindowResults option \<Rightarrow> bool" where
  "holds P w = (case w of None \<Rightarrow> False | Some p \<Rightarrow> P p)"

text \<open>A slot that was filled by a task, with room for the results of \<open>k\<close> windows and for \<open>r\<close> more open ones.\<close>

definition fragments_ok :: "nat \<Rightarrow> nat \<Rightarrow> nat \<Rightarrow> nat \<Rightarrow> FragmentSlot \<Rightarrow> bool" where
  "fragments_ok T S k r s \<longleftrightarrow> holds (\<lambda>p. frags_ok T p \<and> room_for T r p) (fs_openingWindows s)
     \<and> holds (frags_ok T) (fs_closingWindows s) \<and> holds (pending_ok T) (fs_pendingWindows s)
     \<and> holds (complete_ok S k) (fs_completeWindows s)"

lemma fragments_okE:
  assumes "fragments_ok T S k r s"
  obtains op cl pd cp where "fs_openingWindows s = Some op" "fs_closingWindows s = Some cl" "fs_pendingWindows s = Some pd"
    "fs_completeWindows s = Some cp" "frags_ok T op" "room_for T r op" "frags_ok T cl" "pending_ok T pd" "complete_ok S k cp"
  using assms by (auto simp: fragments_ok_def holds_def split: option.splits)

lemma length_frags: "length (frags T p) = nat (pw_count p)"
  by (simp add: frags_def)

lemma frags_nullify [simp]: "frags T (pw_nullify p) = []"
  by (simp add: frags_def pw_nullify_def)

lemma pw_nullify_sel [simp]:
  "pw_count (pw_nullify p) = 0" "pw_type (pw_nullify p) = pw_type p" "pw_pid (pw_nullify p) = pw_pid p"
  by (simp_all add: pw_nullify_def)

lemma frags_ok_nullify: "frags_ok T p \<Longrightarrow> frags_ok T (pw_nullify p)"
  by (auto simp: frags_ok_def pw_nullify_def pw_regular_def)

lemma aggregate_empty:
  assumes s: "holds (frags_ok T) (fs_openingWindows s)" "fs_completeWindows s \<noteq> None" and n: "fragments_ok T S k' r' n"
    and empty: "opened T s = []" "closing T n = []" "pending T n = []"
  shows "aggregate conf aggr s n = Inr (s, n)"
proof -
  obtain op cp where s': "fs_openingWindows s = Some op" "fs_completeWindows s = Some cp" "frags_ok T op"
    using s by (auto simp: holds_def split: option.splits)
  obtain cl pd no where n': "fs_closingWindows n = Some cl" "fs_pendingWindows n = Some pd" "fs_openingWindows n = Some no"
      "frags_ok T cl" "pending_ok T pd"
    using n by (rule fragments_okE)
  have "pw_count op = 0" "pw_count cl = 0" "pw_count pd = 0"
    using empty s' n' by (auto simp: windows_of_def frags_def frags_ok_def pending_ok_def)
  then have "pw_nullify op = op" "pw_nullify cl = cl" "pw_nullify pd = pd" "pw_isEmpty op" "pw_isEmpty cl" "pw_isEmpty pd"
    by (simp_all add: pw_nullify_def pw_isEmpty_def)
  then show ?thesis using s' n' by (simp add: aggregate_def)
qed

lemma aggregate_ok:
  assumes sk: "sk_ok T S sk" and s: "holds (frags_ok T) (fs_openingWindows s)" "holds (complete_ok S k) (fs_completeWindows s)"
    and n: "fragments_ok T S k' (m - k) n"
    and m: "length (opened T s) = m" "0 < m" and k: "length (closing T n) = k" "k \<le> m"
    and pd: "k < m \<Longrightarrow> pending T n \<noteq> []"
  shows "\<exists>op cl pd no cp. aggregate conf (singleKeyOps sk) s n
      = Inr (s\<lparr>fs_openingWindows := Some op, fs_completeWindows := Some cp\<rparr>,
             n\<lparr>fs_closingWindows := Some cl, fs_pendingWindows := Some pd, fs_openingWindows := Some no\<rparr>)
    \<and> frags T op = [] \<and> pw_count op = 0 \<and> frags T cl = [] \<and> pw_count cl = 0 \<and> frags_ok T cl \<and> frags_ok T no \<and> pending_ok T pd
    \<and> packed cp = result_of s @ concat (closed sk (take k (opened T s)) (closing T n)) \<and> complete_ok S 0 cp
    \<and> frags T pd = (if k < m then [] else pending T n)
    \<and> frags T no = (if k < m then kept sk k (opened T s) (hd (pending T n)) else []) @ opened T n"
proof -
  obtain op cp where s': "fs_openingWindows s = Some op" "fs_completeWindows s = Some cp" "frags_ok T op" "complete_ok S k cp"
    using s by (auto simp: holds_def split: option.splits)
  obtain cl pe no where n': "fs_closingWindows n = Some cl" "fs_pendingWindows n = Some pe" "fs_openingWindows n = Some no"
      "frags_ok T cl" "pending_ok T pe" "frags_ok T no" "room_for T (m - k) no"
    using n by (rule fragments_okE)
  have m': "pw_count op = int m" and k': "pw_count cl = int k"
    using m(1) k(1) s' n' by (auto simp: windows_of_def frags_def frags_ok_def)
  from mergeClosing_ok [OF sk s'(3) n'(4) k' _ s'(4)] k(2) m' obtain cp' pos ts where
    c: "mergeClosing (singleKeyOps sk) op cl cp = Inr (op, pw_nullify cl, cp', pos, ts)"
      "packed cp' = packed cp @ concat (closed sk (take k (frags T op)) (frags T cl))" "pw_type cp' = 0" "complete_ok S 0 cp'"
    by auto
  have e: "\<not> pw_isEmpty op" "\<not> (pw_isEmpty cl \<and> pw_isEmpty pe)"
    using m' m(2) k k' pd n'(2) by (auto simp: pw_isEmpty_def windows_of_def frags_def)
  have t: "windows_of T (fs_openingWindows s) = frags T op" "closing T n = frags T cl" "pending T n = frags T pe"
      "opened T n = frags T no" "result_of s = packed cp"
    using s' n' by (simp_all add: windows_of_def result_of_def)
  show ?thesis
  proof (cases "k < m")
    case True
    then have pe: "pw_count pe = 1" "pw_type pe = 0" "T \<le> length (pw_buffer pe)" "int T \<le> to_int32 (pw_position pe)"
      using pd n'(5) t(3) by (auto simp: pending_ok_def frags_def)
    from mergePending_ok [OF sk s'(3) m' True pe c(3) n'(6,7)] obtain op' no' where
      d: "mergePending conf (singleKeyOps sk) (int k) (int (m - k)) pos ts op pe cp' no = Inr (op', pw_nullify pe, cp', no')"
        "frags_ok T no'" "frags T no' = kept sk k (frags T op) (frag T (pw_buffer pe) 0) @ frags T no" by blast
    have "hd (frags T pe) = frag T (pw_buffer pe) 0" using pe(1) by (simp add: frags_def)
    moreover have "aggregate conf (singleKeyOps sk) s n
      = Inr (s\<lparr>fs_openingWindows := Some (pw_nullify op'), fs_completeWindows := Some cp'\<rparr>,
             n\<lparr>fs_closingWindows := Some (pw_nullify cl), fs_pendingWindows := Some (pw_nullify pe), fs_openingWindows := Some no'\<rparr>)"
      using s' n' e c(1) d(1) True m' k' by (simp add: aggregate_def Let_def of_nat_diff)
    moreover have "pending_ok T (pw_nullify pe)" using pe(2) by (simp add: pending_ok_def)
    ultimately show ?thesis using True c(2,4) d(2,3) frags_ok_nullify [OF n'(4)] unfolding t
      by - (rule exI [of _ "pw_nullify op'"], rule exI [of _ "pw_nullify cl"], rule exI [of _ "pw_nullify pe"],
            rule exI [of _ no'], rule exI [of _ cp'], simp)
  next
    case False
    then have "mergePending conf (singleKeyOps sk) (int k) (int m - int k) pos ts op pe cp' no = Inr (op, pe, cp', no)"
      using k(2) by (simp add: mergePending_def)
    then have "aggregate conf (singleKeyOps sk) s n
      = Inr (s\<lparr>fs_openingWindows := Some (pw_nullify op), fs_completeWindows := Some cp'\<rparr>,
             n\<lparr>fs_closingWindows := Some (pw_nullify cl), fs_pendingWindows := Some pe, fs_openingWindows := Some no\<rparr>)"
      using s' n' e c(1) m' k' by (simp add: aggregate_def Let_def)
    then show ?thesis using False c(2,4) n'(5,6) frags_ok_nullify [OF n'(4)] unfolding t
      by - (rule exI [of _ "pw_nullify op"], rule exI [of _ "pw_nullify cl"], rule exI [of _ pe],
            rule exI [of _ no], rule exI [of _ cp'], simp)
  qed
qed

end
