(* ===== verification/FragmentHandler.thy ===== *)
theory FragmentHandler
  imports ResultHandler
begin

text \<open>
  The result handler for operators with window fragments and one merging thread at a time
  (\<open>aggregateAndForwardAndFree\<close> in \<open>result/ResultHandler.cpp\<close>). A worker stores the fragments of its task in
  a slot; whoever holds the merge lock merges the slots pairwise in ring order; whoever holds the forward
  lock passes the complete windows on. The value \<open>m_slot\<close> of a slot is -1 when it is free, 0 while it is
  filled, 1 when it waits to be merged, 3 when it waits to be forwarded and 4 while it is forwarded.

  The model covers the same builds and configurations as \<open>ResultHandler\<close>, and rings of at least two slots.
\<close>

section \<open>Storing fragments\<close>

definition setFragment :: "int \<Rightarrow> FragmentSlot \<Rightarrow> 'w ResultHandler \<Rightarrow> 'w ResultHandler res" where
  "setFragment i s h = rbind (vset (rh_results h) i s) (\<lambda>ss. Inr (h\<lparr>rh_results := ss\<rparr>))"

partial_function (option) reserveFragment ::
  "(nat \<Rightarrow> 'w ResultHandler \<Rightarrow> 'w ResultHandler) \<Rightarrow> int \<Rightarrow> int \<Rightarrow> nat \<Rightarrow> 'w ResultHandler \<Rightarrow>
   'w ResultHandler res option" where
  "reserveFragment others idx oldVal n h =
     (case vget (rh_results h) idx of
        Inl e \<Rightarrow> Some (Inl e)
      | Inr s \<Rightarrow>
          if fs_slot s = oldVal then Some (setFragment idx (s\<lparr>fs_slot := 0\<rparr>) h)
          else reserveFragment others idx (fs_slot s) (Suc n) (others n h))"

definition fillFragment ::
  "SystemConf \<Rightarrow> WindowBatch \<Rightarrow> window_objects \<Rightarrow> FragmentSlot \<Rightarrow> WindowBatch \<times> FragmentSlot" where
  "fillFragment conf wb ws s =
     (let (wb', s) = (if LINEAGE_ON conf
            then (setLineageGraph None wb, s\<lparr>fs_graph := wb_graph wb, fs_freeOffset := wb_streamEndPointer wb\<rparr>) else (wb, s));
          (wb', s) = fs_init wb' ws s
      in (wb', s\<lparr>fs_slot := 1\<rparr>))"

definition storeFragments ::
  "SystemConf \<Rightarrow> (nat \<Rightarrow> 'w ResultHandler \<Rightarrow> 'w ResultHandler) \<Rightarrow> WindowBatch \<Rightarrow> window_objects \<Rightarrow> 'w ResultHandler \<Rightarrow>
   (WindowBatch \<times> 'w ResultHandler) res option" where
  "storeFragments conf others wb ws h =
     (if rh_numberOfSlots h = 0 then Some (Inl Undefined)
      else
        let idx = (wb_taskId wb - 1) smod rh_numberOfSlots h in
        map_option (\<lambda>r. rbind r (\<lambda>h. rbind (vget (rh_results h) idx) (\<lambda>s.
            case fillFragment conf wb ws s of (wb', s') \<Rightarrow>
              rbind (setFragment idx s' h) (\<lambda>h. Inr (wb', updateMaximumTaskId (wb_taskId wb) h)))))
          (reserveFragment others idx (-1) 0 h))"

section \<open>Merging\<close>

text \<open>
  One round of the loop under the merge lock. The first component is false when the loop ends. The
  second branch raises an error when the next slot holds a result that was not forwarded yet.
\<close>

definition mergeSlots ::
  "SystemConf \<Rightarrow> aggr_ops \<Rightarrow> int \<Rightarrow> FragmentSlot \<Rightarrow> int \<Rightarrow> FragmentSlot \<Rightarrow> 'w ResultHandler \<Rightarrow> 'w ResultHandler res" where
  "mergeSlots conf aggr i s j n h =
     rbind (aggregate conf aggr s n) (\<lambda>(s, n).
     rbind (isReady s) (\<lambda>ready.
       if \<not> ready then Inl RuntimeError
       else
         rbind (setFragment i (s\<lparr>fs_slot := 3\<rparr>) h) (\<lambda>h.
         rbind (setFragment j n h) (\<lambda>h.
         rbind (isReady n) (\<lambda>nextReady.
           if nextReady then
             (case fs_next n of
                None \<Rightarrow> Inl Undefined
              | Some l \<Rightarrow>
                  rbind (vget (rh_results h) l) (\<lambda>nn.
                  rbind (setFragment j (n\<lparr>fs_slot := 3\<rparr>) h) (\<lambda>h. Inr (h\<lparr>rh_nextToAggregate := fs_index nn\<rparr>))))
           else Inr (h\<lparr>rh_nextToAggregate := fs_index n\<rparr>))))))"

definition mergeStep :: "SystemConf \<Rightarrow> aggr_ops \<Rightarrow> 'w ResultHandler \<Rightarrow> (bool \<times> 'w ResultHandler) res" where
  "mergeStep conf aggr h =
     (let i = rh_nextToAggregate h in
      rbind (vget (rh_results h) i) (\<lambda>s.
        if fs_slot s > 1 \<and> fs_slot s \<noteq> 5 then Inl RuntimeError
        else if fs_slot s < 1 \<or> fs_slot s = 5 then Inr (False, h)
        else case fs_next s of
          None \<Rightarrow> Inl Undefined
        | Some j \<Rightarrow>
            rbind (vget (rh_results h) j) (\<lambda>n.
              if i = j then Inl Undefined
              else if fs_slot n > 1 \<and> fs_slot n \<noteq> 5 then (if fs_slot n = 4 then Inr (False, h) else Inl RuntimeError)
              else if fs_slot n < 1 \<or> fs_slot n = 5 then Inr (False, h)
              else rbind (mergeSlots conf aggr i s j n h) (\<lambda>h. Inr (True, h)))))"

definition unmerged :: "'w ResultHandler \<Rightarrow> nat" where
  "unmerged h = length (filter (\<lambda>s. fs_slot s = 1) (rh_results h))"

lemma aggregate_slot:
  assumes "aggregate conf aggr s n = Inr (s', n')"
  shows "fs_slot s' = fs_slot s" "fs_slot n' = fs_slot n" "fs_index s' = fs_index s" "fs_index n' = fs_index n"
    "fs_next s' = fs_next s" "fs_next n' = fs_next n"
  using assms by (auto simp: aggregate_def Let_def split: option.splits if_splits elim!: rbind_pairE)

lemma setFragment_eq:
  "setFragment i s h = Inr h' \<longleftrightarrow> 0 \<le> i \<and> i < int (length (rh_results h)) \<and> h' = h\<lparr>rh_results := (rh_results h)[nat i := s]\<rparr>"
  by (auto simp: setFragment_def vset_def)

lemma mergeSlotsE:
  assumes "mergeSlots conf aggr i s j n h = Inr h'"
  obtains s' n' f l where "aggregate conf aggr s n = Inr (s', n')" and "f = fs_slot n' \<or> f = 3"
    and "h' = h\<lparr>rh_results := (rh_results h)[nat i := s'\<lparr>fs_slot := 3\<rparr>, nat j := n'\<lparr>fs_slot := f\<rparr>], rh_nextToAggregate := l\<rparr>"
    and "0 \<le> i" "i < int (length (rh_results h))" "0 \<le> j" "j < int (length (rh_results h))"
proof -
  obtain s' n' where a: "aggregate conf aggr s n = Inr (s', n')"
    using assms by (cases "aggregate conf aggr s n") (auto simp: mergeSlots_def)
  obtain r where r: "isReady n' = Inr r" using assms a by (cases "isReady n'") (auto simp: mergeSlots_def split: if_splits)
  show ?thesis
  proof (cases r)
    case True
    then show ?thesis using assms a r
      by (intro that [OF a, of 3 "rh_nextToAggregate h'"]) (auto simp: mergeSlots_def setFragment_eq split: if_splits option.splits)
  next
    case False
    then show ?thesis using assms a r
      by (intro that [OF a, of "fs_slot n'" "rh_nextToAggregate h'"]) (auto simp: mergeSlots_def setFragment_eq split: if_splits)
  qed
qed

lemma mergeStep_unmerged:
  assumes "mergeStep conf aggr h = Inr (True, h')"
  shows "unmerged h' < unmerged h"
proof -
  let ?i = "rh_nextToAggregate h" and ?P = "\<lambda>s. fs_slot s = 1"
  obtain s j n where s: "vget (rh_results h) ?i = Inr s" "fs_slot s = 1"
      and n: "vget (rh_results h) j = Inr n" "?i \<noteq> j" "fs_slot n = 1" and m: "mergeSlots conf aggr ?i s j n h = Inr h'"
    using assms by (auto simp: mergeStep_def Let_def split: if_splits option.splits)
  from m obtain s' n' f l where a: "aggregate conf aggr s n = Inr (s', n')" and f: "f = fs_slot n' \<or> f = 3"
      and h': "h' = h\<lparr>rh_results := (rh_results h)[nat ?i := s'\<lparr>fs_slot := 3\<rparr>, nat j := n'\<lparr>fs_slot := f\<rparr>], rh_nextToAggregate := l\<rparr>"
      and b: "0 \<le> ?i" "?i < int (length (rh_results h))" "0 \<le> j" "j < int (length (rh_results h))"
    by (rule mergeSlotsE)
  let ?ss = "rh_results h" and ?s = "s'\<lparr>fs_slot := 3\<rparr>" and ?n = "n'\<lparr>fs_slot := f\<rparr>"
  have i: "nat ?i < length ?ss" "nat j < length ?ss" "nat ?i \<noteq> nat j" using b n(2) by auto
  have "?P (?ss ! nat ?i)" "?ss ! nat j = n" using s n b by (auto simp: vget_def)
  moreover have "length (filter ?P (?ss[nat ?i := ?s])) + (if ?P (?ss ! nat ?i) then 1 else 0) = length (filter ?P ?ss)"
    using filter_update_length [OF i(1), of ?P ?s] by simp
  moreover have "length (filter ?P (?ss[nat ?i := ?s, nat j := ?n])) + 1 = length (filter ?P (?ss[nat ?i := ?s])) + (if f = 1 then 1 else 0)"
    using filter_update_length [of "nat j" "?ss[nat ?i := ?s]" ?P ?n] i calculation n(3) by simp
  ultimately show ?thesis by (simp add: unmerged_def h' split: if_splits)
qed

text \<open>The loop under the merge lock ends because every round takes a waiting slot out.\<close>

function mergeLoop :: "SystemConf \<Rightarrow> aggr_ops \<Rightarrow> 'w ResultHandler \<Rightarrow> 'w ResultHandler res" where
  "mergeLoop conf aggr h =
     (case mergeStep conf aggr h of
        Inl e \<Rightarrow> Inl e
      | Inr (False, h') \<Rightarrow> Inr h'
      | Inr (True, h') \<Rightarrow> mergeLoop conf aggr h')"
  by pat_completeness auto
termination
  by (relation "measure (\<lambda>(conf, aggr, h). unmerged h)") (auto dest: mergeStep_unmerged)

declare mergeLoop.simps [simp del]

section \<open>Forwarding\<close>

text \<open>The members of a slot that the forwarding code reads and changes, as a slot without fragments.\<close>

definition slotView :: "FragmentSlot \<Rightarrow> ResultSlot" where
  "slotView s = (newResultSlot (fs_index s))\<lparr>rs_latch := fs_latch s, rs_latencyMark := fs_latencyMark s, rs_graph := fs_graph s\<rparr>"

definition forwardFragment :: "SystemConf \<Rightarrow> 'w sink_ops \<Rightarrow> 'w ResultHandler \<Rightarrow> (bool \<times> 'w ResultHandler) res" where
  "forwardFragment conf send h =
     (let next = rh_nextToForward h in
      rbind (vget (rh_results h) next) (\<lambda>s.
        case fs_completeWindows s of
          None \<Rightarrow> Inl Undefined
        | Some p \<Rightarrow>
            rbind (sendResult conf send (slotView s) p h) (\<lambda>(ok, p, v, h).
              let s = s\<lparr>fs_completeWindows := Some p, fs_latch := rs_latch v, fs_graph := rs_graph v\<rparr> in
              if \<not> ok then rbind (setFragment next (s\<lparr>fs_slot := 3\<rparr>) h) (\<lambda>h. Inr (False, h))
              else
                let h = incTotalOutputBytes (to_int32 (pw_position p)) (monitorLatency conf v h) in
                rbind (freeInput (fs_freePointer s) (rh_freeBuffer1 h)) (\<lambda>b.
                rbind (finishLineage conf v (h\<lparr>rh_freeBuffer1 := b\<rparr>)) (\<lambda>(v, h).
                rbind (fs_release conf (s\<lparr>fs_graph := rs_graph v\<rparr>) (rh_partials h) (rh_graphs h)) (\<lambda>(s, partials, graphs).
                rbind (setFragment next (s\<lparr>fs_slot := -1\<rparr>) (h\<lparr>rh_partials := partials, rh_graphs := graphs\<rparr>)) (\<lambda>h.
                  Inr (True, h\<lparr>rh_nextToForward := (if next + 1 = rh_numberOfSlots h then 0 else next + 1)\<rparr>))))))))"

definition claimFragment :: "'w ResultHandler \<Rightarrow> (bool \<times> 'w ResultHandler) res" where
  "claimFragment h =
     rbind (vget (rh_results h) (rh_nextToForward h)) (\<lambda>s.
       if fs_slot s = 3
       then rbind (setFragment (rh_nextToForward h) (s\<lparr>fs_slot := 4\<rparr>) h) (\<lambda>h. Inr (True, h))
       else Inr (False, h))"

definition merged :: "'w ResultHandler \<Rightarrow> nat" where
  "merged h = length (filter (\<lambda>s. fs_slot s = 3) (rh_results h))"

lemma fs_release_slot:
  assumes "fs_release conf s f g = Inr (s', f', g')"
  shows "fs_slot s' = fs_slot s" "fs_index s' = fs_index s" "fs_next s' = fs_next s"
  using assms by (auto simp: fs_release_def releaseAll_def fs_freeGraph_def split: option.splits prod.splits elim!: rbind_pairE)

lemma forwardFragment_slots:
  assumes "forwardFragment conf send h = Inr (ok, h')"
  obtains s' where "rh_results h' = (rh_results h)[nat (rh_nextToForward h) := s']" and "fs_slot s' = (if ok then -1 else 3)"
    and "0 \<le> rh_nextToForward h" and "rh_nextToForward h < int (length (rh_results h))"
proof -
  let ?next = "rh_nextToForward h"
  obtain s p where s: "vget (rh_results h) ?next = Inr s" "fs_completeWindows s = Some p"
    using assms by (auto simp: forwardFragment_def Let_def split: option.splits)
  obtain ok1 p1 v h1 where send: "sendResult conf send (slotView s) p h = Inr (ok1, p1, v, h1)"
    using assms s by (cases "sendResult conf send (slotView s) p h") (auto simp: forwardFragment_def Let_def)
  note frame = sendResult_frame [OF send]
  have b: "0 \<le> ?next" "?next < int (length (rh_results h))" using s(1) by (auto simp: vget_def split: if_splits)
  show ?thesis
  proof (cases ok1)
    case False
    then obtain t where "rh_results h' = (rh_results h1)[nat ?next := t]" "fs_slot t = 3" "\<not> ok"
      using assms s send by (auto simp: forwardFragment_def Let_def setFragment_eq)
    with b frame show ?thesis by (intro that [of t]) (auto simp: rh_frame_def)
  next
    case True
    let ?h1 = "incTotalOutputBytes (to_int32 (pw_position p1)) (monitorLatency conf v h1)"
    obtain b1 v2 h2 t where f: "finishLineage conf v (?h1\<lparr>rh_freeBuffer1 := b1\<rparr>) = Inr (v2, h2)"
        and r: "rh_results h' = (rh_results h2)[nat ?next := t]" "fs_slot t = -1" "ok"
      using assms s send True by (auto simp: forwardFragment_def Let_def setFragment_eq elim!: rbind_pairE)
    have "rh_results h2 = rh_results h"
      using finishLineage_frame [OF f] frame by (auto simp: rh_frame_def incTotalOutputBytes_def monitorLatency_def split: if_splits)
    with b r show ?thesis by (intro that [of t]) auto
  qed
qed

lemma forwardFragment_merged:
  assumes "forwardFragment conf send h = Inr (True, h')"
  shows "merged h' \<le> merged h"
proof -
  obtain s' where "rh_results h' = (rh_results h)[nat (rh_nextToForward h) := s']" "fs_slot s' = -1"
      "0 \<le> rh_nextToForward h" "rh_nextToForward h < int (length (rh_results h))"
    using assms by (rule forwardFragment_slots) auto
  moreover from this have "nat (rh_nextToForward h) < length (rh_results h)" by linarith
  ultimately show ?thesis
    using filter_update_length [of "nat (rh_nextToForward h)" "rh_results h" "\<lambda>s. fs_slot s = 3" s'] by (simp add: merged_def)
qed

lemma claimFragment_merged:
  assumes "claimFragment h = Inr (True, h')"
  shows "merged h' < merged h"
proof -
  let ?n = "nat (rh_nextToForward h)"
  obtain s where s: "vget (rh_results h) (rh_nextToForward h) = Inr s" "fs_slot s = 3"
      "rh_results h' = (rh_results h)[?n := s\<lparr>fs_slot := 4\<rparr>]"
    using assms by (auto simp: claimFragment_def setFragment_eq split: if_splits)
  then have "?n < length (rh_results h)" "rh_results h ! ?n = s" by (auto simp: vget_def split: if_splits)
  then show ?thesis
    using filter_update_length [of ?n "rh_results h" "\<lambda>s. fs_slot s = 3" "s\<lparr>fs_slot := 4\<rparr>"] s by (simp add: merged_def)
qed

function forwardFragments :: "SystemConf \<Rightarrow> 'w sink_ops \<Rightarrow> 'w ResultHandler \<Rightarrow> 'w ResultHandler res" where
  "forwardFragments conf send h =
     (case forwardFragment conf send h of
        Inl e \<Rightarrow> Inl e
      | Inr (False, h1) \<Rightarrow> Inr h1
      | Inr (True, h1) \<Rightarrow>
          (case claimFragment h1 of
             Inl e \<Rightarrow> Inl e
           | Inr (False, h2) \<Rightarrow> Inr h2
           | Inr (True, h2) \<Rightarrow> forwardFragments conf send h2))"
  by pat_completeness auto
termination
proof (relation "measure (\<lambda>(conf, send, h). merged h)")
  fix conf and send :: "'w sink_ops" and h h1 h2 :: "'w ResultHandler" and r r' b b'
  assume "forwardFragment conf send h = Inr r" "(b, h1) = r" "b = True" "claimFragment h1 = Inr r'" "(b', h2) = r'" "b' = True"
  then have "forwardFragment conf send h = Inr (True, h1)" "claimFragment h1 = Inr (True, h2)" by auto
  then show "((conf, send, h2), conf, send, h) \<in> measure (\<lambda>(conf, send, h). merged h)"
    using forwardFragment_merged [of conf send h h1] claimFragment_merged [of h1 h2] by simp
qed simp

declare forwardFragments.simps [simp del]

section \<open>The operation\<close>

text \<open>
  \<open>mergeLocked\<close> and \<open>forwardLocked\<close> say that another thread holds the lock; \<open>between\<close> and \<open>between'\<close> are what
  other threads do between the sections.
\<close>

definition aggregateAndForwardAndFree ::
  "SystemConf \<Rightarrow> 'w sink_ops \<Rightarrow> aggr_ops \<Rightarrow> (nat \<Rightarrow> 'w ResultHandler \<Rightarrow> 'w ResultHandler) \<Rightarrow>
   ('w ResultHandler \<Rightarrow> 'w ResultHandler) \<Rightarrow> ('w ResultHandler \<Rightarrow> 'w ResultHandler) \<Rightarrow> bool \<Rightarrow> bool \<Rightarrow> WindowBatch \<Rightarrow>
   window_objects \<Rightarrow> 'w ResultHandler \<Rightarrow> (WindowBatch \<times> 'w ResultHandler) res option" where
  "aggregateAndForwardAndFree conf send aggr others between between' mergeLocked forwardLocked wb ws h =
     (if wb_taskId wb < 0 then Some (Inr (wb, h))
      else
        let type = wb_type wb;
            stored = (if type = PROCESS \<or> type = ONLY_PROCESS then storeFragments conf others wb ws h else Some (Inr (wb, h))) in
        map_option (\<lambda>r. rbind r (\<lambda>(wb, h).
          rbind (if (type = PROCESS \<or> type = MERGE \<or> type = MERGE_FORWARD) \<and> \<not> mergeLocked
                 then mergeLoop conf aggr (between h) else Inr h) (\<lambda>h.
          if (type = PROCESS \<or> type = FORWARD \<or> type = MERGE_FORWARD) \<and> \<not> forwardLocked
          then rbind (claimFragment (between' h)) (\<lambda>(busy, h).
                 rbind (if busy then forwardFragments conf send h else Inr h) (\<lambda>h. Inr (wb, h)))
          else Inr (wb, h)))) stored)"

end
