(* ===== verification/FragmentMerging.thy ===== *)
theory FragmentMerging
  imports Merging FragmentHandler
begin

text \<open>
  Correctness of the merge phase of the result handler: the loop under the merge lock completes and
  extends the windows of a run of waiting slots as the fragments say, with the cases in which it does not.
\<close>

section \<open>What merging a run of slots means\<close>

text \<open>
  The windows that are open before a task, and for each task its closing fragments, its pending
  fragments and its opening fragments. Every closing fragment completes the oldest open window; the
  others take in the pending fragment; the opening fragments follow.
\<close>

type_synonym task_windows = "byte list list \<times> byte list list \<times> byte list list"

definition carried :: "(nat \<Rightarrow> byte list list \<Rightarrow> byte list \<Rightarrow> byte list list) \<Rightarrow> byte list list \<Rightarrow> task_windows \<Rightarrow> byte list list" where
  "carried keep ow t =
     (case t of (cl, pd, op) \<Rightarrow> (if length cl < length ow then keep (length cl) ow (hd pd) else []) @ op)"

definition completed :: "single_key \<Rightarrow> byte list list \<Rightarrow> task_windows \<Rightarrow> byte list" where
  "completed sk ow t = (case t of (cl, pd, op) \<Rightarrow> concat (closed sk (take (length cl) ow) cl))"

text \<open>The bytes each task but the last adds to its result, and the windows that are open at the end.\<close>

fun merged_run ::
  "single_key \<Rightarrow> (nat \<Rightarrow> byte list list \<Rightarrow> byte list \<Rightarrow> byte list list) \<Rightarrow> byte list list \<Rightarrow> task_windows list \<Rightarrow>
   byte list list \<times> byte list list" where
  "merged_run sk keep ow [] = ([], ow)"
| "merged_run sk keep ow (t # ts) =
     (case merged_run sk keep (carried keep ow t) ts of (outs, rest) \<Rightarrow> (completed sk ow t # outs, rest))"

text \<open>Extending every open window.\<close>

definition extended :: "single_key \<Rightarrow> nat \<Rightarrow> byte list list \<Rightarrow> byte list \<Rightarrow> byte list list" where
  "extended sk k xs p = map (\<lambda>x. sk_combine sk x p) (drop k xs)"

lemma kept_extended: "kept sk 0 xs p = extended sk 0 xs p"
  by (rule nth_equalityI) (simp_all add: kept_def extended_def)

text \<open>No task closes some of the open windows and keeps others.\<close>

fun unmixed :: "single_key \<Rightarrow> byte list list \<Rightarrow> task_windows list \<Rightarrow> bool" where
  "unmixed sk ow [] = True"
| "unmixed sk ow (t # ts) =
     ((fst t = [] \<or> length (fst t) = length ow) \<and> unmixed sk (carried (extended sk) ow t) ts)"

lemma carried_unmixed:
  assumes "fst t = [] \<or> length (fst t) = length ow"
  shows "carried (kept sk) ow t = carried (extended sk) ow t"
  using assms by (auto simp: carried_def kept_extended split: prod.splits)

lemma merged_run_unmixed: "unmixed sk ow ts \<Longrightarrow> merged_run sk (kept sk) ow ts = merged_run sk (extended sk) ow ts"
  by (induction ts arbitrary: ow) (simp_all add: carried_unmixed)

section \<open>A run of slots\<close>

abbreviation windows :: "nat \<Rightarrow> FragmentSlot \<Rightarrow> task_windows" where
  "windows T s \<equiv> (closing T s, pending T s, opened T s)"

text \<open>
  The slots of a run hold consistent fragments and have room for what is merged into them. The second
  argument is the windows that are open before the run.
\<close>

fun run_ok :: "nat \<Rightarrow> nat \<Rightarrow> single_key \<Rightarrow> FragmentSlot \<Rightarrow> byte list list \<Rightarrow> FragmentSlot list \<Rightarrow> bool" where
  "run_ok T S sk s ow [] \<longleftrightarrow> True"
| "run_ok T S sk s ow (n # ns) \<longleftrightarrow>
     (let k = length (closing T n); m = length ow in
      k \<le> m \<and> (k < m \<longrightarrow> pending T n \<noteq> []) \<and> (k = m \<longrightarrow> pending T n = [])
      \<and> holds (complete_ok S k) (fs_completeWindows s) \<and> fragments_ok T S 0 (m - k) n
      \<and> run_ok T S sk n (carried (kept sk) ow (windows T n)) ns)"

lemma windows_of_Some [simp]: "windows_of T (Some p) = frags T p"
  by (simp add: windows_of_def)

lemma holds_Some [simp]: "holds P (Some p) = P p" "\<not> holds P None"
  by (simp_all add: holds_def)

lemma frags_ok_count: "frags_ok T p \<Longrightarrow> pw_count p > 0 \<longleftrightarrow> frags T p \<noteq> []"
  by (auto simp: frags_def frags_ok_def)

lemma pending_ok_count: "pending_ok T p \<Longrightarrow> pw_count p > 0 \<longleftrightarrow> frags T p \<noteq> []"
  by (auto simp: frags_def pending_ok_def)

lemma isReady_windows:
  assumes "fs_closingWindows s = Some cl" "fs_openingWindows s = Some op" "fs_pendingWindows s = Some pd"
    and "frags_ok T cl" "pw_count op > 0 \<longleftrightarrow> frags T op \<noteq> []" "pending_ok T pd"
  shows "isReady s = Inr (windows T s = ([], [], []))"
  using assms frags_ok_count [OF assms(4)] pending_ok_count [OF assms(6)] by (auto simp: isReady_def)

text \<open>A slot whose own closing and pending fragments have been merged already.\<close>

definition slot_cur :: "nat \<Rightarrow> FragmentSlot \<Rightarrow> bool" where
  "slot_cur T s \<longleftrightarrow> holds (frags_ok T) (fs_openingWindows s)
     \<and> holds (\<lambda>p. frags_ok T p \<and> frags T p = []) (fs_closingWindows s)
     \<and> holds (\<lambda>p. pending_ok T p \<and> frags T p = []) (fs_pendingWindows s)"

lemma holdsE:
  assumes "holds P w"
  obtains p where "w = Some p" "P p"
  using assms by (cases w) auto

lemma isReady_cur:
  assumes "slot_cur T s"
  shows "isReady s = Inr (opened T s = [])"
proof -
  obtain op cl pd where "fs_openingWindows s = Some op" "frags_ok T op" "fs_closingWindows s = Some cl" "frags_ok T cl"
      "frags T cl = []" "fs_pendingWindows s = Some pd" "pending_ok T pd" "frags T pd = []"
    using assms unfolding slot_cur_def by (auto elim!: holdsE)
  then show ?thesis using isReady_windows [of s cl op pd T] frags_ok_count [of T op] by simp
qed

lemma fragments_ok_cur:
  assumes "fragments_ok T S k r n" "closing T n = []" "pending T n = []"
  shows "slot_cur T n"
  using assms by (auto simp: slot_cur_def elim!: fragments_okE)

lemma aggregate_pair:
  assumes sk: "sk_ok T S sk" and cur: "slot_cur T s" and step: "run_ok T S sk s (opened T s) (n # ns)"
  shows "\<exists>s' n'. aggregate conf (singleKeyOps sk) s n = Inr (s', n') \<and> isReady s' = Inr True
    \<and> result_of s' = result_of s @ completed sk (opened T s) (windows T n)
    \<and> fs_completeWindows n' = fs_completeWindows n \<and> slot_cur T n'
    \<and> opened T n' = carried (kept sk) (opened T s) (windows T n)"
proof -
  let ?O = "opened T s" and ?k = "length (closing T n)"
  have k: "?k \<le> length ?O" "?k < length ?O \<Longrightarrow> pending T n \<noteq> []" "?k = length ?O \<Longrightarrow> pending T n = []"
    and cp: "holds (complete_ok S ?k) (fs_completeWindows s)" and n: "fragments_ok T S 0 (length ?O - ?k) n"
    using step by (auto simp: Let_def)
  have op: "holds (frags_ok T) (fs_openingWindows s)" using cur by (simp add: slot_cur_def)
  show ?thesis
  proof (cases "?O = []")
    case True
    then have e: "closing T n = []" "pending T n = []" using k by auto
    have "aggregate conf (singleKeyOps sk) s n = Inr (s, n)"
      using aggregate_empty [OF op _ n True e] cp by (auto elim!: holdsE)
    then show ?thesis
      using True e isReady_cur [OF cur] fragments_ok_cur [OF n e] by (simp add: completed_def closed_def carried_def)
  next
    case False
    then have "0 < length ?O" by simp
    from aggregate_ok [OF sk op cp n refl this refl k(1,2), of conf] obtain op' cl pd no cp' where
      a: "aggregate conf (singleKeyOps sk) s n = Inr (s\<lparr>fs_openingWindows := Some op', fs_completeWindows := Some cp'\<rparr>,
             n\<lparr>fs_closingWindows := Some cl, fs_pendingWindows := Some pd, fs_openingWindows := Some no\<rparr>)"
      and w: "frags T op' = []" "pw_count op' = 0" "frags T cl = []" "frags_ok T cl" "frags_ok T no" "pending_ok T pd"
        "packed cp' = result_of s @ concat (closed sk (take ?k ?O) (closing T n))"
        "frags T pd = (if ?k < length ?O then [] else pending T n)"
        "frags T no = (if ?k < length ?O then kept sk ?k ?O (hd (pending T n)) else []) @ opened T n"
      by blast
    let ?s = "s\<lparr>fs_openingWindows := Some op', fs_completeWindows := Some cp'\<rparr>"
    obtain cl0 pd0 where s0: "fs_closingWindows s = Some cl0" "frags_ok T cl0" "frags T cl0 = []"
        "fs_pendingWindows s = Some pd0" "pending_ok T pd0" "frags T pd0 = []"
      using cur unfolding slot_cur_def by (auto elim!: holdsE)
    have "isReady ?s = Inr True"
      using isReady_windows [of ?s cl0 op' pd0 T] s0 w(1,2) by simp
    moreover have "frags T pd = []" using w(8) k by (cases "?k < length ?O") auto
    ultimately show ?thesis
      using a w by (simp add: result_of_def completed_def carried_def slot_cur_def)
  qed
qed

lemma run_ok_cong: "fs_completeWindows s = fs_completeWindows s' \<Longrightarrow> run_ok T S sk s ow ns = run_ok T S sk s' ow ns"
  by (cases ns) simp_all

section \<open>The loop over a run\<close>

text \<open>
  The slots \<open>is\<close> wait in ring order, and the slot behind them is free or being filled.
\<close>

fun linked :: "FragmentSlot list \<Rightarrow> nat list \<Rightarrow> nat \<Rightarrow> bool" where
  "linked ss [] stop \<longleftrightarrow> stop < length ss \<and> fs_slot (ss ! stop) < 1 \<and> fs_index (ss ! stop) = int stop"
| "linked ss (i # is) stop \<longleftrightarrow> i < length ss \<and> fs_slot (ss ! i) = 1 \<and> fs_index (ss ! i) = int i
     \<and> fs_next (ss ! i) = Some (int (hd (is @ [stop]))) \<and> i \<notin> set is \<and> i \<noteq> stop \<and> linked ss is stop"

lemma linked_cong:
  assumes "length ss' = length ss" and "\<And>j. j \<in> set is \<or> j = stop \<Longrightarrow> ss' ! j = ss ! j"
  shows "linked ss' is stop = linked ss is stop"
  using assms by (induction "is") auto

lemma linked_head: "linked ss is stop \<Longrightarrow> hd (is @ [stop]) < length ss \<and> fs_index (ss ! hd (is @ [stop])) = int (hd (is @ [stop]))"
  by (cases "is") auto

lemma linked_stop: "linked ss is stop \<Longrightarrow> linked ss [] stop"
  by (induction "is") auto

lemma mergeStep_stop:
  assumes "linked (rh_results h) [] stop" "rh_nextToAggregate h = int stop"
  shows "mergeLoop conf aggr h = Inr h"
proof -
  have "mergeStep conf aggr h = Inr (False, h)" using assms by (simp add: mergeStep_def vget_def)
  then show ?thesis by (subst mergeLoop.simps) simp
qed

lemma mergeStep_last:
  assumes "linked (rh_results h) [i] stop" "rh_nextToAggregate h = int i"
  shows "mergeLoop conf aggr h = Inr h"
proof -
  have "mergeStep conf aggr h = Inr (False, h)" using assms by (simp add: mergeStep_def vget_def)
  then show ?thesis by (subst mergeLoop.simps) simp
qed

lemma mergeStep_pair:
  assumes l: "linked (rh_results h) (i # j # js) stop" and i: "rh_nextToAggregate h = int i"
    and a: "aggregate conf aggr (rh_results h ! i) (rh_results h ! j) = Inr (s', n')" and s': "isReady s' = Inr True"
    and n': "isReady n' = Inr r"
  shows "mergeStep conf aggr h = Inr (True, h\<lparr>rh_results := (rh_results h)[i := s'\<lparr>fs_slot := 3\<rparr>,
      j := (if r then n'\<lparr>fs_slot := 3\<rparr> else n')], rh_nextToAggregate := int (if r then hd (js @ [stop]) else j)\<rparr>)"
proof -
  let ?ss = "rh_results h" and ?l = "hd (js @ [stop])"
  have lj: "linked ?ss js stop" "i \<noteq> j" "i < length ?ss" "j < length ?ss" using l by auto
  note hd = linked_head [OF lj(1)]
  have nx: "fs_next n' = Some (int ?l)" "fs_index n' = int j" using aggregate_slot [OF a] l by auto
  have "?l \<noteq> i" "?l \<noteq> j" using l by (cases js; auto)+
  then have get: "vget (?ss[i := s'\<lparr>fs_slot := 3\<rparr>, j := n']) (int ?l) = Inr (?ss ! ?l)"
    using hd by (simp add: vget_def)
  have "mergeSlots conf aggr (int i) (?ss ! i) (int j) (?ss ! j) h = Inr (h\<lparr>rh_results := ?ss[i := s'\<lparr>fs_slot := 3\<rparr>,
      j := (if r then n'\<lparr>fs_slot := 3\<rparr> else n')], rh_nextToAggregate := int (if r then ?l else j)\<rparr>)"
    using a s' n' nx get hd lj by (simp add: mergeSlots_def setFragment_def vset_def)
  then show ?thesis using l i lj by (simp add: mergeStep_def vget_def)
qed

text \<open>What a pass over a run leaves behind.\<close>

definition run_merged ::
  "nat \<Rightarrow> FragmentSlot list \<Rightarrow> nat list \<Rightarrow> byte list list \<Rightarrow> byte list list \<Rightarrow> FragmentSlot list \<Rightarrow> bool" where
  "run_merged T ss is outs rest ss' \<longleftrightarrow> length ss' = length ss
     \<and> (\<forall>q. Suc q < length is \<longrightarrow> result_of (ss' ! (is ! q)) = result_of (ss ! (is ! q)) @ outs ! q \<and> fs_slot (ss' ! (is ! q)) = 3)
     \<and> (is \<noteq> [] \<longrightarrow> opened T (ss' ! last is) = rest \<and> result_of (ss' ! last is) = result_of (ss ! last is))
     \<and> (\<forall>j. j \<notin> set is \<longrightarrow> ss' ! j = ss ! j)"

lemma result_of_slot [simp]: "result_of (s\<lparr>fs_slot := v\<rparr>) = result_of s"
  by (simp add: result_of_def)

lemma result_of_complete: "fs_completeWindows s = fs_completeWindows t \<Longrightarrow> result_of s = result_of t"
  by (simp add: result_of_def)

lemma run_merged_Cons:
  assumes "run_merged T ss1 (j # js) outs rest ss'" and ss1: "ss1 = ss[i := s, j := n]" "i < length ss" "j < length ss"
    and "i \<notin> set (j # js)" "j \<notin> set js" and "result_of s = result_of (ss ! i) @ out" "fs_slot s = 3" "result_of n = result_of (ss ! j)"
  shows "run_merged T ss (i # j # js) (out # outs) rest ss'"
proof -
  have i: "ss' ! i = s" using assms by (auto simp: run_merged_def)
  have eq: "result_of (ss1 ! ((j # js) ! q)) = result_of (ss ! ((j # js) ! q))" if "q < length (j # js)" for q
  proof -
    have "(j # js) ! q \<in> set (j # js)" using that by (rule nth_mem)
    then have "(j # js) ! q \<noteq> i" using assms(5) by metis
    then show ?thesis using ss1 assms(9) by (cases "(j # js) ! q = j") auto
  qed
  have "last (j # js) = (j # js) ! length js" by (simp add: last_conv_nth)
  then have last: "result_of (ss1 ! last (j # js)) = result_of (ss ! last (j # js))" using eq [of "length js"] by simp
  have "result_of (ss' ! ((i # j # js) ! q)) = result_of (ss ! ((i # j # js) ! q)) @ (out # outs) ! q
      \<and> fs_slot (ss' ! ((i # j # js) ! q)) = 3" if "Suc q < length (i # j # js)" for q
    using that i assms(1,7,8) eq [of "q - 1"] by (cases q) (auto simp: run_merged_def)
  then show ?thesis
    using assms(1,5) ss1 last unfolding run_merged_def by auto
qed

text \<open>One step of the loop: slot \<open>i\<close> is finished, and slot \<open>j\<close> has the open windows, or is finished as well if there are none.\<close>

lemma mergeLoop_pair:
  assumes sk: "sk_ok T S sk" and l: "linked (rh_results h) (i # j # js) stop" and i: "rh_nextToAggregate h = int i"
    and cur: "slot_cur T (rh_results h ! i)" and O': "O' = carried (kept sk) (opened T (rh_results h ! i)) (windows T (rh_results h ! j))"
    and run: "run_ok T S sk (rh_results h ! i) (opened T (rh_results h ! i)) (map ((!) (rh_results h)) (j # js))"
  obtains s n1 h1 where "mergeLoop conf (singleKeyOps sk) h = mergeLoop conf (singleKeyOps sk) h1"
    and "rh_results h1 = (rh_results h)[i := s, j := n1]" "rh_nextToAggregate h1 = int (if O' = [] then hd (js @ [stop]) else j)"
    and "result_of s = result_of (rh_results h ! i) @ completed sk (opened T (rh_results h ! i)) (windows T (rh_results h ! j))" "fs_slot s = 3"
    and "result_of n1 = result_of (rh_results h ! j)" "opened T n1 = O'" "O' = [] \<Longrightarrow> fs_slot n1 = 3"
    and "O' \<noteq> [] \<Longrightarrow> slot_cur T n1 \<and> linked (rh_results h1) (j # js) stop"
    and "run_ok T S sk n1 O' (map ((!) (rh_results h)) js)" "linked (rh_results h1) js stop"
proof -
  let ?ss = "rh_results h" and ?n = "rh_results h ! j" and ?O = "opened T (rh_results h ! i)" and ?w = "windows T (rh_results h ! j)"
  have run: "run_ok T S sk (?ss ! i) ?O (?n # map ((!) ?ss) js)" using run by simp
  from aggregate_pair [OF sk cur run] obtain s' n' where
    a: "aggregate conf (singleKeyOps sk) (?ss ! i) ?n = Inr (s', n')" "isReady s' = Inr True"
      "result_of s' = result_of (?ss ! i) @ completed sk ?O ?w" "fs_completeWindows n' = fs_completeWindows ?n"
      "slot_cur T n'" "opened T n' = O'" unfolding O' by blast
  have ready: "isReady n' = Inr (O' = [])" using isReady_cur [OF a(5)] a(6) by simp
  define n1 where "n1 = (if O' = [] then n'\<lparr>fs_slot := 3\<rparr> else n')"
  define ss1 where "ss1 = ?ss[i := s'\<lparr>fs_slot := 3\<rparr>, j := n1]"
  define h1 where "h1 = h\<lparr>rh_results := ss1, rh_nextToAggregate := int (if O' = [] then hd (js @ [stop]) else j)\<rparr>"
  have step: "mergeLoop conf (singleKeyOps sk) h = mergeLoop conf (singleKeyOps sk) h1"
    using mergeStep_pair [OF l i a(1,2) ready] by (subst mergeLoop.simps) (simp add: h1_def ss1_def n1_def)
  have keep: "ss1 ! q = ?ss ! q" if "q \<in> set js \<or> q = stop" for q
  proof -
    have "q \<noteq> i" "q \<noteq> j" using that l by auto
    then show ?thesis by (simp add: ss1_def)
  qed
  have len: "length ss1 = length ?ss" "ss1 ! j = n1" using l by (simp_all add: ss1_def)
  have lj: "linked ss1 js stop" using l linked_cong [OF len(1), of js stop] keep by simp
  moreover have "linked ss1 (j # js) stop" if "O' \<noteq> []"
    using l lj len that aggregate_slot [OF a(1)] by (simp add: n1_def)
  moreover have "result_of n1 = result_of ?n" using result_of_complete [OF a(4)] by (simp add: n1_def)
  moreover have "run_ok T S sk n1 O' (map ((!) ?ss) js)"
    using run run_ok_cong [of n1 ?n] a(4) by (simp add: O' n1_def Let_def)
  ultimately show ?thesis
    using a(3,5,6) by (intro that [OF step, of "s'\<lparr>fs_slot := 3\<rparr>" n1]) (auto simp: h1_def ss1_def n1_def)
qed

text \<open>When no window is open behind slot \<open>j\<close>, the next slot starts a run of its own.\<close>

lemma run_after_empty:
  assumes run: "run_ok T S sk n [] (map ((!) ss) (l # ls))" and m: "merged_run sk (kept sk) [] (map (\<lambda>j. windows T (ss ! j)) (l # ls)) = (outs, rest)"
  obtains outs2 where "outs = [] # outs2" "merged_run sk (kept sk) (opened T (ss ! l)) (map (\<lambda>j. windows T (ss ! j)) ls) = (outs2, rest)"
    and "run_ok T S sk (ss ! l) (opened T (ss ! l)) (map ((!) ss) ls)" "slot_cur T (ss ! l)"
proof -
  have fr: "closing T (ss ! l) = []" "pending T (ss ! l) = []" "fragments_ok T S 0 0 (ss ! l)" using run by (auto simp: Let_def)
  obtain outs2 where "outs = [] # outs2" "merged_run sk (kept sk) (opened T (ss ! l)) (map (\<lambda>j. windows T (ss ! j)) ls) = (outs2, rest)"
    using m fr by (auto simp: carried_def completed_def closed_def split: prod.splits)
  moreover have "run_ok T S sk (ss ! l) (opened T (ss ! l)) (map ((!) ss) ls)" using run fr by (auto simp: Let_def carried_def)
  ultimately show ?thesis using that fragments_ok_cur [OF fr(3,1,2)] by blast
qed

lemma mergeLoop_run:
  assumes sk: "sk_ok T S sk"
  shows "\<lbrakk>linked (rh_results h) (i # is) stop; rh_nextToAggregate h = int i; slot_cur T (rh_results h ! i);
    run_ok T S sk (rh_results h ! i) (opened T (rh_results h ! i)) (map ((!) (rh_results h)) is);
    merged_run sk (kept sk) (opened T (rh_results h ! i)) (map (\<lambda>j. windows T (rh_results h ! j)) is) = (outs, rest)\<rbrakk>
   \<Longrightarrow> \<exists>h'. mergeLoop conf (singleKeyOps sk) h = Inr h' \<and> run_merged T (rh_results h) (i # is) outs rest (rh_results h')"
proof (induction "length is" arbitrary: h i "is" outs rest rule: less_induct)
  case less
  let ?ss = "rh_results h" and ?O = "opened T (rh_results h ! i)"
  show ?case
  proof (cases "is")
    case Nil
    then have "mergeLoop conf (singleKeyOps sk) h = Inr h"
      using less.prems(1,2) by (intro mergeStep_last [of _ i stop]) simp_all
    then show ?thesis using Nil less.prems(5) by (simp add: run_merged_def)
  next
    case (Cons j js)
    define O' where "O' = carried (kept sk) ?O (windows T (?ss ! j))"
    have l: "linked ?ss (i # j # js) stop" using less.prems(1) Cons by simp
    obtain s n1 h1 where step: "mergeLoop conf (singleKeyOps sk) h = mergeLoop conf (singleKeyOps sk) h1"
      and h1: "rh_results h1 = ?ss[i := s, j := n1]" "rh_nextToAggregate h1 = int (if O' = [] then hd (js @ [stop]) else j)"
      and s: "result_of s = result_of (?ss ! i) @ completed sk ?O (windows T (?ss ! j))" "fs_slot s = 3"
      and n1: "result_of n1 = result_of (?ss ! j)" "opened T n1 = O'" "O' = [] \<Longrightarrow> fs_slot n1 = 3"
        "O' \<noteq> [] \<Longrightarrow> slot_cur T n1 \<and> linked (rh_results h1) (j # js) stop"
      and run': "run_ok T S sk n1 O' (map ((!) ?ss) js)" and lj: "linked (rh_results h1) js stop"
      using mergeLoop_pair [OF sk l less.prems(2,3) O'_def] less.prems(4) Cons by blast
    obtain outs' where outs: "outs = completed sk ?O (windows T (?ss ! j)) # outs'"
        "merged_run sk (kept sk) O' (map (\<lambda>j. windows T (?ss ! j)) js) = (outs', rest)"
      using less.prems(5) Cons by (auto simp: O'_def split: prod.splits)
    have at: "rh_results h1 ! j = n1" "\<And>q. q \<in> set js \<Longrightarrow> rh_results h1 ! q = ?ss ! q" using l by (auto simp: h1(1) nth_list_update)
    have maps: "map ((!) (rh_results h1)) js = map ((!) ?ss) js"
      "map (\<lambda>j. windows T (rh_results h1 ! j)) js = map (\<lambda>j. windows T (?ss ! j)) js" using at(2) by auto
    have "\<exists>h'. mergeLoop conf (singleKeyOps sk) h1 = Inr h' \<and> run_merged T (rh_results h1) (j # js) outs' rest (rh_results h')"
    proof (cases "O' = []")
      case False
      then show ?thesis using less.hyps [of js h1 j outs' rest] n1(2,4) run' outs(2) maps at(1) h1(2) Cons by simp
    next
      case True
      show ?thesis
      proof (cases js)
        case Nil
        then have "mergeLoop conf (singleKeyOps sk) h1 = Inr h1" using lj h1(2) True by (intro mergeStep_stop) simp_all
        then show ?thesis using Nil outs(2) True n1(2) at(1) by (simp add: run_merged_def)
      next
        case (Cons l ls)
        obtain outs2 where o2: "outs' = [] # outs2"
          "merged_run sk (kept sk) (opened T (rh_results h1 ! l)) (map (\<lambda>j. windows T (rh_results h1 ! j)) ls) = (outs2, rest)"
          "run_ok T S sk (rh_results h1 ! l) (opened T (rh_results h1 ! l)) (map ((!) (rh_results h1)) ls)" "slot_cur T (rh_results h1 ! l)"
          by (rule run_after_empty [OF run' [unfolded True maps(1) [symmetric], unfolded Cons]
              outs(2) [unfolded True maps(2) [symmetric], unfolded Cons]])
        obtain h' where h': "mergeLoop conf (singleKeyOps sk) h1 = Inr h'" "run_merged T (rh_results h1) (l # ls) outs2 rest (rh_results h')"
          using less.hyps [of ls h1 l outs2 rest] lj o2(2-4) h1(2) True Cons \<open>is = j # js\<close> by auto
        have "run_merged T (rh_results h1) (j # l # ls) ([] # outs2) rest (rh_results h')"
        proof (rule run_merged_Cons [OF h'(2)])
          show "rh_results h1 = (rh_results h1)[j := rh_results h1 ! j, l := rh_results h1 ! l]" by simp
        qed (use l lj Cons n1(3) True at(1) h1(1) in auto)
        then show ?thesis using h'(1) Cons o2(1) by auto
      qed
    qed
    then obtain h' where "mergeLoop conf (singleKeyOps sk) h1 = Inr h'" "run_merged T (rh_results h1) (j # js) outs' rest (rh_results h')" by blast
    then show ?thesis using step run_merged_Cons [OF _ h1(1) _ _ _ _ s n1(1)] l Cons outs(1) by auto
  qed
qed

section \<open>Properties\<close>

text \<open>
  C7. A pass under the merge lock over a run of waiting slots returns. If no task closes some of the
  open windows and keeps others, then every closing fragment completes the oldest open window with all
  its fragments, in task order, every pending fragment is merged into all open windows, the completed
  windows are appended to the result of the slot before, which is then ready to be forwarded, and all
  other slots stay as they are.
\<close>

theorem merge_completes_windows:
  assumes "sk_ok T S sk" and "linked (rh_results h) (i # is) stop" "rh_nextToAggregate h = int i"
    and "slot_cur T (rh_results h ! i)"
    and "run_ok T S sk (rh_results h ! i) (opened T (rh_results h ! i)) (map ((!) (rh_results h)) is)"
    and "unmixed sk (opened T (rh_results h ! i)) (map (\<lambda>j. windows T (rh_results h ! j)) is)"
    and "merged_run sk (extended sk) (opened T (rh_results h ! i)) (map (\<lambda>j. windows T (rh_results h ! j)) is) = (outs, rest)"
  shows "\<exists>h'. mergeLoop conf (singleKeyOps sk) h = Inr h' \<and> run_merged T (rh_results h) (i # is) outs rest (rh_results h')"
  using mergeLoop_run [OF assms(1-5)] merged_run_unmixed [OF assms(6)] assms(7) by simp

text \<open>
  C22. When a task closes some of the open windows and others stay open, the pending fragment of the
  task is not merged into the newest of these: the loop of the merge routine ends at the number of the
  remaining windows instead of the index behind the last one, and the window moves to the next slot
  without the fragment.
\<close>

theorem merge_skips_pending:
  assumes "sk_ok T S sk" and "slot_cur T s" and "run_ok T S sk s (opened T s) [n]"
    and "k = length (closing T n)" "m = length (opened T s)" and "0 < k" "k < m"
  shows "\<exists>s' n'. aggregate conf (singleKeyOps sk) s n = Inr (s', n')
    \<and> (\<forall>i. k \<le> i \<and> m - k \<le> i \<and> i < m \<longrightarrow> opened T n' ! (i - k) = opened T s ! i)
    \<and> opened T n' ! (m - k - 1) = last (opened T s)"
proof -
  from aggregate_pair [OF assms(1-3)] obtain s' n' where
    a: "aggregate conf (singleKeyOps sk) s n = Inr (s', n')" "opened T n' = carried (kept sk) (opened T s) (windows T n)" by blast
  have w: "opened T n' ! (i - k) = opened T s ! i" if "k \<le> i" "m - k \<le> i" "i < m" for i
  proof -
    have "i - k < m - k" using that by (intro diff_less_mono)
    then show ?thesis using that assms(4-) a(2) by (simp add: carried_def kept_def nth_append)
  qed
  moreover have "last (opened T s) = opened T s ! (m - 1)" using assms(5,7) last_conv_nth [of "opened T s"] by fastforce
  ultimately show ?thesis using a(1) w [of "m - 1"] assms(6,7) by (auto simp: diff_right_commute)
qed

text \<open>
  When the slot behind the last waiting one still holds a merged result that was not forwarded, the pass
  raises an error; the code catches it outside the section and the merge lock stays taken.
\<close>

lemma merge_full_ring:
  assumes "i < length (rh_results h)" "j < length (rh_results h)" "i \<noteq> j" "rh_nextToAggregate h = int i"
    and "fs_slot (rh_results h ! i) = 1" "fs_next (rh_results h ! i) = Some (int j)" "fs_slot (rh_results h ! j) = 3"
  shows "mergeLoop conf aggr h = Inl RuntimeError"
proof -
  have "mergeStep conf aggr h = Inl RuntimeError" using assms by (simp add: mergeStep_def vget_def)
  then show ?thesis by (subst mergeLoop.simps) simp
qed

section \<open>Witnesses\<close>

text \<open>Sums of single bytes. The first task opens a window, the second extends it, the third closes it.\<close>

definition sumKey :: single_key where
  "sumKey = \<lparr>sk_intermSize = 1, sk_outputSize = 1, sk_combine = \<lambda>x y. [hd x + hd y], sk_complete = \<lambda>x y. [hd x + hd y],
     sk_having = \<lambda>_. True\<rparr>"

definition byteWindows :: "byte list \<Rightarrow> PartialWindowResults" where
  "byteWindows vs = \<lparr>pw_capacity = 8, pw_position = int (length vs), pw_buffer = vs @ replicate (8 - length vs) 0, pw_bufferPtrs = [],
     pw_startPointers = [0, 1, 2, 3, 4, 5, 6, 7], pw_partialWindows = 8, pw_pid = 0, pw_count = int (length vs), pw_type = 0\<rparr>"

definition byteSlot :: "nat \<Rightarrow> byte list \<Rightarrow> byte list \<Rightarrow> byte list \<Rightarrow> FragmentSlot" where
  "byteSlot i cl pd op = (connectTo (int (Suc i)) (newFragmentSlot (int i)))
     \<lparr>fs_slot := 1, fs_closingWindows := Some (byteWindows cl), fs_pendingWindows := Some (byteWindows pd),
      fs_openingWindows := Some (byteWindows op), fs_completeWindows := Some (byteWindows [])\<rparr>"

lemma sumKey_ok: "sk_ok 1 1 sumKey"
  by (simp add: sk_ok_def sumKey_def)

lemma frags_byteWindows: "length vs \<le> 7 \<Longrightarrow> frags (Suc 0) (byteWindows vs) = map (\<lambda>v. [v]) vs"
  by (rule nth_equalityI) (simp_all add: frags_def byteWindows_def frag_def take_Suc hd_drop_conv_nth nth_append)

lemma byteWindows_ok:
  assumes "length vs \<le> 6"
  shows "frags_ok 1 (byteWindows vs)"
proof -
  define st :: "int list" where "st = [0, 1, 2, 3, 4, 5, 6, 7]"
  have r: "st ! i = int i" if "i \<le> 7" for i
    using that unfolding st_def by (auto simp: le_Suc_eq numeral_eq_Suc)
  have l: "length st = 8" by (simp add: st_def)
  show ?thesis using assms r [of "length vs"] r l
    by (auto simp: frags_ok_def byteWindows_def pw_regular_def Let_def simp flip: st_def)
qed

lemma byteSlot_sel [simp]:
  "fs_openingWindows (byteSlot i cl pd op) = Some (byteWindows op)" "fs_closingWindows (byteSlot i cl pd op) = Some (byteWindows cl)"
  "fs_pendingWindows (byteSlot i cl pd op) = Some (byteWindows pd)" "fs_completeWindows (byteSlot i cl pd op) = Some (byteWindows [])"
  "fs_slot (byteSlot i cl pd op) = 1" "fs_index (byteSlot i cl pd op) = int i" "fs_next (byteSlot i cl pd op) = Some (int (Suc i))"
  by (simp_all add: byteSlot_def connectTo_def newFragmentSlot_def)

lemma byteSlot_ok:
  assumes "length cl \<le> 3" "length pd \<le> 1" "length op \<le> 3" "r \<le> 3"
  shows "fragments_ok 1 1 0 r (byteSlot i cl pd op)" and "k \<le> 3 \<Longrightarrow> complete_ok 1 k (byteWindows [])"
  using assms byteWindows_ok [of cl] byteWindows_ok [of op]
  by (auto simp: fragments_ok_def pending_ok_def complete_ok_def room_for_def byteWindows_def to_int32_id INT_MAX_def INT_MIN_def le_Suc_eq)

definition byteHandler :: "(int \<Rightarrow> byte list list) ResultHandler" where
  "byteHandler = (newResultHandler defaultConf 0 [] True [] (\<lambda>_. []) (Some 4) demoBuffer demoBuffer True emptyFactory
     (newPartialFactory defaultConf))
     \<lparr>rh_results := [byteSlot 0 [] [] [1], byteSlot 1 [] [2] [], byteSlot 2 [3] [] [],
        connectTo 0 (newFragmentSlot 3)]\<rparr>"

lemma byteHandler_sel [simp]:
  "rh_results byteHandler = [byteSlot 0 [] [] [1], byteSlot 1 [] [2] [], byteSlot 2 [3] [] [], connectTo 0 (newFragmentSlot 3)]"
  "rh_nextToAggregate byteHandler = 0"
  by (simp_all add: byteHandler_def newResultHandler_def Let_def)

theorem merge_completes_windows_witness:
  "\<exists>h'. mergeLoop defaultConf (singleKeyOps sumKey) byteHandler = Inr h' \<and> result_of (rh_results h' ! 1) = [6]"
proof -
  let ?ss = "rh_results byteHandler"
  have w: "windows 1 (?ss ! 1) = ([], [[2]], [])" "windows 1 (?ss ! 2) = ([[3]], [], [])" "opened 1 (?ss ! 0) = [[1]]"
    by (simp_all add: frags_byteWindows)
  have cur: "slot_cur 1 (?ss ! 0)"
    using byteSlot_ok(1) [of "[]" "[]" "[1]" 0 0] frags_byteWindows [of "[]"] by (intro fragments_ok_cur) simp_all
  have c1: "carried (kept sumKey) [[1]] ([], [[2]], []) = [[3]]"
    by (simp add: carried_def kept_extended extended_def sumKey_def)
  have l: "linked ?ss [0, 1, 2] 3" by (simp add: connectTo_def newFragmentSlot_def)
  have run: "run_ok 1 1 sumKey (?ss ! 0) (opened 1 (?ss ! 0)) (map ((!) ?ss) [1, 2])"
    using byteSlot_ok [of "[]" "[2]" "[]" 1] byteSlot_ok [of "[3]" "[]" "[]" 0] w c1 by (simp add: frags_byteWindows)
  have m: "merged_run sumKey (extended sumKey) (opened 1 (?ss ! 0)) (map (\<lambda>j. windows 1 (?ss ! j)) [1, 2]) = ([[], [6]], [])"
    using w by (simp add: frags_byteWindows carried_def completed_def closed_def extended_def sumKey_def)
  have u: "unmixed sumKey (opened 1 (?ss ! 0)) (map (\<lambda>j. windows 1 (?ss ! j)) [1, 2])"
    using w by (simp add: frags_byteWindows carried_def extended_def)
  have "rh_nextToAggregate byteHandler = int 0" by simp
  from merge_completes_windows [OF sumKey_ok l this cur run u m, of defaultConf] obtain h' where
    h': "mergeLoop defaultConf (singleKeyOps sumKey) byteHandler = Inr h'" "run_merged 1 ?ss [0, 1, 2] [[], [6]] [] (rh_results h')" by blast
  have "result_of (rh_results h' ! ([0, 1, 2] ! 1)) = result_of (?ss ! ([0, 1, 2] ! 1)) @ [[], [6]] ! 1"
    using h'(2) unfolding run_merged_def by (auto dest: spec [of _ "Suc 0"])
  then show ?thesis using h'(1) by (simp add: result_of_def packed_def byteWindows_def)
qed

theorem merge_skips_pending_witness:
  "\<exists>s' n'. aggregate defaultConf (singleKeyOps sumKey) (byteSlot 0 [] [] [1, 2]) (byteSlot 1 [3] [4] []) = Inr (s', n')
    \<and> opened 1 n' ! 0 = [2]"
proof -
  let ?s = "byteSlot 0 [] [] [1, 2]" and ?n = "byteSlot 1 [3] [4] []"
  have w: "opened 1 ?s = [[1], [2]]" "closing 1 ?n = [[3]]" "pending 1 ?n = [[4]]" by (simp_all add: frags_byteWindows)
  have cur: "slot_cur 1 ?s"
    using byteSlot_ok(1) [of "[]" "[]" "[1, 2]" 0 0] frags_byteWindows [of "[]"] by (intro fragments_ok_cur) simp_all
  have run: "run_ok 1 1 sumKey ?s (opened 1 ?s) [?n]"
    using byteSlot_ok [of "[3]" "[4]" "[]" 1] w by simp
  from merge_skips_pending [OF sumKey_ok cur run refl refl, of defaultConf] w show ?thesis by auto
qed

end
