(* ===== verification/HashTable.thy ===== *)
theory HashTable
  imports Prelude
begin

text \<open>
  The open-addressing hash table and hash set of \<open>cql/operators/HashTable.h\<close>: linear probing
  from the masked hash to the end of the array and then from its start. The hash function, the
  aggregate's \<open>combine\<close> and the initialisation of an aggregator are template parameters of the
  class and arguments of the definitions. \<open>malloc\<close> leaves the buckets uninitialised: the
  constructor takes the previous contents of the memory as an argument.
\<close>

section \<open>Probing\<close>

text \<open>The loops \<open>for (; i < n; i++) if (P(buckets[i])) ...\<close>.\<close>

function scan :: "('b \<Rightarrow> bool) \<Rightarrow> 'b list \<Rightarrow> nat \<Rightarrow> nat \<Rightarrow> nat option" where
  "scan P bs i n = (if i < n then if P (bs ! i) then Some i else scan P bs (Suc i) n else None)"
  by pat_completeness auto
termination
  by (relation "measure (\<lambda>(P, bs, i, n). n - i)") auto

declare scan.simps [simp del]

definition probe :: "('b \<Rightarrow> bool) \<Rightarrow> 'b list \<Rightarrow> nat \<Rightarrow> nat option" where
  "probe P bs ind =
     (case scan P bs ind (length bs) of Some i \<Rightarrow> Some i | None \<Rightarrow> scan P bs 0 ind)"

definition isPowerOfTwoSize :: "nat \<Rightarrow> bool" where
  "isPowerOfTwoSize n \<longleftrightarrow> n \<noteq> 0 \<and> and n (n - 1) = 0"

section \<open>The hash table\<close>

record ('k, 'v) Bucket =
  bk_state :: nat
  bk_key :: 'k
  bk_value :: 'v
  bk_counter :: int

record ('k, 'v, 'a) HashTable =
  ht_buckets :: "('k, 'v) Bucket list"
  ht_aggrs :: "'a list option"
  ht_num_filled :: nat
  ht_mask :: nat

definition newHashTable :: "('k, 'v) Bucket list \<Rightarrow> 'a list \<Rightarrow> nat \<Rightarrow> ('k, 'v, 'a) HashTable res" where
  "newHashTable mem aggrs n =
     (if \<not> isPowerOfTwoSize n then Inl RuntimeError
      else Inr \<lparr>ht_buckets = map (\<lambda>b. b\<lparr>bk_state := 0\<rparr>) (take n mem), ht_aggrs = Some (take n aggrs),
                ht_num_filled = 0, ht_mask = n - 1\<rparr>)"

definition wrapHashTable :: "('k, 'v) Bucket list \<Rightarrow> nat \<Rightarrow> ('k, 'v, 'a) HashTable res" where
  "wrapHashTable nodes n =
     (if \<not> isPowerOfTwoSize n then Inl RuntimeError
      else Inr \<lparr>ht_buckets = take n nodes, ht_aggrs = None, ht_num_filled = 0, ht_mask = n - 1\<rparr>)"

definition ht_clear :: "('a \<Rightarrow> 'a) \<Rightarrow> ('k, 'v, 'a) HashTable \<Rightarrow> ('k, 'v, 'a) HashTable res" where
  "ht_clear initialise t =
     (case ht_aggrs t of
        None \<Rightarrow> Inl Undefined
      | Some as \<Rightarrow> Inr (t\<lparr>ht_buckets := map (\<lambda>b. b\<lparr>bk_state := 0\<rparr>) (ht_buckets t),
                          ht_aggrs := Some (map initialise as), ht_num_filled := 0\<rparr>))"

definition ht_insert :: "('k \<Rightarrow> nat) \<Rightarrow> 'k \<Rightarrow> 'v \<Rightarrow> ('k, 'v, 'a) HashTable \<Rightarrow> ('k, 'v, 'a) HashTable res" where
  "ht_insert hash k v t =
     (case probe (\<lambda>b. bk_state b = 0 \<or> bk_key b = k) (ht_buckets t) (and (hash k) (ht_mask t)) of
        Some i \<Rightarrow> Inr (t\<lparr>ht_buckets := (ht_buckets t)
                      [i := (ht_buckets t ! i)\<lparr>bk_state := 1, bk_key := k, bk_value := v\<rparr>]\<rparr>)
      | None \<Rightarrow> Inl RuntimeError)"

definition ht_insert_or_modify ::
  "('k \<Rightarrow> nat) \<Rightarrow> ('v \<Rightarrow> 'v \<Rightarrow> 'v) \<Rightarrow> 'k \<Rightarrow> 'v \<Rightarrow> ('k, 'v, 'a) HashTable \<Rightarrow> ('k, 'v, 'a) HashTable res" where
  "ht_insert_or_modify hash combine k v t =
     (case probe (\<lambda>b. bk_state b \<noteq> 0 \<and> bk_key b = k \<or> bk_state b = 0) (ht_buckets t)
             (and (hash k) (ht_mask t)) of
        Some i \<Rightarrow>
          let b = ht_buckets t ! i in
          Inr (t\<lparr>ht_buckets := (ht_buckets t)
            [i := if bk_state b \<noteq> 0
                  then b\<lparr>bk_value := combine (bk_value b) v, bk_counter := to_int32 (bk_counter b + 1)\<rparr>
                  else b\<lparr>bk_state := 1, bk_key := k, bk_value := v, bk_counter := 1\<rparr>]\<rparr>)
      | None \<Rightarrow> Inl RuntimeError)"

definition ht_erase :: "('k \<Rightarrow> nat) \<Rightarrow> 'k \<Rightarrow> ('k, 'v, 'a) HashTable \<Rightarrow> bool \<times> ('k, 'v, 'a) HashTable" where
  "ht_erase hash k t =
     (case probe (\<lambda>b. bk_state b \<noteq> 0 \<and> bk_key b = k) (ht_buckets t) (and (hash k) (ht_mask t)) of
        Some i \<Rightarrow> (True, t\<lparr>ht_buckets := (ht_buckets t)[i := (ht_buckets t ! i)\<lparr>bk_state := 0\<rparr>]\<rparr>)
      | None \<Rightarrow> (False, t))"

definition ht_find :: "('k \<Rightarrow> nat) \<Rightarrow> 'k \<Rightarrow> ('k, 'v, 'a) HashTable \<Rightarrow> 'v option" where
  "ht_find hash k t =
     map_option (\<lambda>i. bk_value (ht_buckets t ! i))
       (probe (\<lambda>b. bk_state b \<noteq> 0 \<and> bk_key b = k) (ht_buckets t) (and (hash k) (ht_mask t)))"

definition ht_find_index :: "('k \<Rightarrow> nat) \<Rightarrow> 'k \<Rightarrow> ('k, 'v, 'a) HashTable \<Rightarrow> nat option" where
  "ht_find_index hash k t =
     probe (\<lambda>b. bk_state b \<noteq> 0 \<and> bk_key b = k) (ht_buckets t) (and (hash k) (ht_mask t))"

definition ht_size :: "('k, 'v, 'a) HashTable \<Rightarrow> nat \<times> ('k, 'v, 'a) HashTable" where
  "ht_size t = (let n = sum_list (map bk_state (ht_buckets t)) in (n, t\<lparr>ht_num_filled := n\<rparr>))"

definition ht_empty :: "('k, 'v, 'a) HashTable \<Rightarrow> bool" where
  "ht_empty t \<longleftrightarrow> ht_num_filled t = 0"

section \<open>The hash set\<close>

record 'k SimpleBucket =
  sb_state :: nat
  sb_key :: 'k

record 'k HashSet =
  hs_buckets :: "'k SimpleBucket list"
  hs_num_filled :: nat
  hs_mask :: nat

definition newHashSet :: "'k SimpleBucket list \<Rightarrow> nat \<Rightarrow> 'k HashSet res" where
  "newHashSet mem n =
     (if \<not> isPowerOfTwoSize n then Inl RuntimeError
      else Inr \<lparr>hs_buckets = map (\<lambda>b. b\<lparr>sb_state := 0\<rparr>) (take n mem), hs_num_filled = 0, hs_mask = n - 1\<rparr>)"

definition wrapHashSet :: "'k SimpleBucket list \<Rightarrow> nat \<Rightarrow> 'k HashSet res" where
  "wrapHashSet nodes n =
     (if \<not> isPowerOfTwoSize n then Inl RuntimeError
      else Inr \<lparr>hs_buckets = take n nodes, hs_num_filled = 0, hs_mask = n - 1\<rparr>)"

definition hs_clear :: "'k HashSet \<Rightarrow> 'k HashSet" where
  "hs_clear s = s\<lparr>hs_buckets := map (\<lambda>b. b\<lparr>sb_state := 0\<rparr>) (hs_buckets s), hs_num_filled := 0\<rparr>"

definition hs_insert :: "('k \<Rightarrow> nat) \<Rightarrow> 'k \<Rightarrow> 'k HashSet \<Rightarrow> (nat \<times> 'k HashSet) res" where
  "hs_insert hash k s =
     (case probe (\<lambda>b. sb_state b = 0 \<or> sb_key b = k) (hs_buckets s) (and (hash k) (hs_mask s)) of
        Some i \<Rightarrow> Inr (i, s\<lparr>hs_buckets := (hs_buckets s)
                            [i := (hs_buckets s ! i)\<lparr>sb_state := 1, sb_key := k\<rparr>]\<rparr>)
      | None \<Rightarrow> Inl RuntimeError)"

definition hs_find :: "('k \<Rightarrow> nat) \<Rightarrow> 'k \<Rightarrow> 'k HashSet \<Rightarrow> nat option" where
  "hs_find hash k s =
     probe (\<lambda>b. sb_state b \<noteq> 0 \<and> sb_key b = k) (hs_buckets s) (and (hash k) (hs_mask s))"

definition hs_erase :: "('k \<Rightarrow> nat) \<Rightarrow> 'k \<Rightarrow> 'k HashSet \<Rightarrow> bool \<times> 'k HashSet" where
  "hs_erase hash k s =
     (case probe (\<lambda>b. sb_state b \<noteq> 0 \<and> sb_key b = k) (hs_buckets s) (and (hash k) (hs_mask s)) of
        Some i \<Rightarrow> (True, s\<lparr>hs_buckets := (hs_buckets s)[i := (hs_buckets s ! i)\<lparr>sb_state := 0\<rparr>]\<rparr>)
      | None \<Rightarrow> (False, s))"

definition hs_size :: "'k HashSet \<Rightarrow> nat \<times> 'k HashSet" where
  "hs_size s = (let n = sum_list (map sb_state (hs_buckets s)) in (n, s\<lparr>hs_num_filled := n\<rparr>))"

section \<open>The probe order\<close>

lemma isPowerOfTwoSize_iff: "isPowerOfTwoSize n \<longleftrightarrow> (\<exists>m. n = 2 ^ m)"
proof
  show "isPowerOfTwoSize n" if "\<exists>m. n = 2 ^ m"
  proof -
    obtain m where n: "n = 2 ^ m" using \<open>\<exists>m. n = 2 ^ m\<close> by blast
    then show ?thesis using and_mask_nat [of "2 ^ m" m] by (simp add: isPowerOfTwoSize_def)
  qed
  show "\<exists>m. n = 2 ^ m" if "isPowerOfTwoSize n"
    using that
  proof (induction n rule: less_induct)
    case (less n)
    then have n: "n \<noteq> 0" "and n (n - 1) = 0" by (auto simp: isPowerOfTwoSize_def)
    show ?case
    proof (cases "even n")
      case True
      then obtain k where k: "n = 2 * k" by blast
      have "(n - 1) div 2 = k - 1" using n(1) k by simp
      then have "and k (k - 1) = 0"
        using n(2) k by (subst (asm) and_rec) simp
      then have "\<exists>m. k = 2 ^ m" using less.IH [of k] k n(1) by (simp add: isPowerOfTwoSize_def)
      then show ?thesis using k by (metis power_Suc)
    next
      case False
      then obtain k where k: "n = 2 * k + 1" by (rule oddE)
      have "and k k = 0" using n(2) k by (subst (asm) and_rec) simp
      then show ?thesis using k by (auto intro: exI [of _ 0])
    qed
  qed
qed

lemma and_size_mask: "isPowerOfTwoSize n \<Longrightarrow> and (x :: nat) (n - 1) = x mod n"
  using and_mask_nat by (auto simp: isPowerOfTwoSize_iff simp del: One_nat_def)

definition order :: "nat \<Rightarrow> nat \<Rightarrow> nat list" where
  "order ind n = [ind..<n] @ [0..<ind]"

lemma scan_find: "scan P bs i n = List.find (\<lambda>i. P (bs ! i)) [i..<n]"
  by (induction P bs i n rule: scan.induct) (subst scan.simps, simp add: upt_rec)

lemma find_append: "List.find P (xs @ ys) = (case List.find P xs of Some x \<Rightarrow> Some x | None \<Rightarrow> List.find P ys)"
  by (induction xs) auto

lemma probe_find: "probe P bs ind = List.find (\<lambda>i. P (bs ! i)) (order ind (length bs))"
  by (simp add: probe_def scan_find order_def find_append cong: option.case_cong)

lemma set_order [simp]: "ind < n \<Longrightarrow> set (order ind n) = {..<n}"
  by (auto simp: order_def)

lemma distinct_order [simp]: "distinct (order ind n)"
  by (auto simp: order_def)


section \<open>Key layouts\<close>

text \<open>
  The layout of a table is the list of its filled keys by position. In a reachable layout every
  key sits at the first position of its own probe order that is free of other keys: the
  positions before it are filled with other keys.
\<close>

definition first_fit :: "('k \<Rightarrow> nat) \<Rightarrow> 'k option list \<Rightarrow> 'k \<Rightarrow> nat option" where
  "first_fit h ks k = List.find (\<lambda>i. ks ! i = None \<or> ks ! i = Some k) (order (h k) (length ks))"

definition position :: "('k \<Rightarrow> nat) \<Rightarrow> 'k option list \<Rightarrow> 'k \<Rightarrow> nat option" where
  "position h ks k = List.find (\<lambda>i. ks ! i = Some k) (order (h k) (length ks))"

definition layout_ok :: "('k \<Rightarrow> nat) \<Rightarrow> 'k option list \<Rightarrow> bool" where
  "layout_ok h ks \<longleftrightarrow> (\<forall>k. h k < length ks) \<and>
     (\<forall>j < length ks. \<forall>k. ks ! j = Some k \<longrightarrow> first_fit h ks k = Some j)"

lemma first_fitD: "first_fit h ks k = Some i \<Longrightarrow> h k < length ks \<Longrightarrow>
    i < length ks \<and> (ks ! i = None \<or> ks ! i = Some k)"
  using find_SomeD [of _ "order (h k) (length ks)" i] by (auto simp: first_fit_def)

lemma first_fit_None: "h k < length ks \<Longrightarrow> first_fit h ks k = None \<longleftrightarrow>
    (\<forall>i < length ks. ks ! i \<noteq> None \<and> ks ! i \<noteq> Some k)"
  using set_order [of "h k" "length ks"] by (auto simp: first_fit_def find_None_iff)

lemma layout_inj:
  assumes "layout_ok h ks" and "i < length ks" and "j < length ks" and "ks ! i = Some k" and "ks ! j = Some k"
  shows "i = j"
proof -
  have "first_fit h ks k = Some i" "first_fit h ks k = Some j"
    using assms unfolding layout_ok_def by blast+
  then show ?thesis by simp
qed

lemma position_Some:
  assumes ok: "layout_ok h ks" and j: "j < length ks" "ks ! j = Some k"
  shows "position h ks k = Some j"
proof -
  have "position h ks k \<noteq> None"
    using assms set_order [of "h k" "length ks"]
    by (auto simp: position_def find_None_iff layout_ok_def)
  then obtain i where i: "position h ks k = Some i" by auto
  then have "i < length ks \<and> ks ! i = Some k"
    using ok find_SomeD [of _ "order (h k) (length ks)" i] by (auto simp: position_def layout_ok_def)
  then show ?thesis using i layout_inj [OF ok _ j(1) _ j(2)] by auto
qed

lemma positionD: "position h ks k = Some j \<Longrightarrow> ks ! j = Some k"
  unfolding position_def by (drule find_SomeD) simp

lemma position_None:
  assumes "h k < length ks"
  shows "position h ks k = None \<longleftrightarrow> Some k \<notin> set ks"
  using assms set_order [of "h k" "length ks"]
  by (auto simp: position_def find_None_iff in_set_conv_nth)

text \<open>Filling the first fit of a key keeps the layout.\<close>

lemma find_update:
  assumes "List.find P xs = Some x" and "\<And>y. y \<in> set xs \<Longrightarrow> Q y \<Longrightarrow> P y" and "Q x"
  shows "List.find Q xs = Some x"
  using assms by (induction xs) (auto split: if_splits)

lemma layout_fill:
  assumes ok: "layout_ok h ks" and i: "first_fit h ks k = Some i"
  shows "layout_ok h (ks[i := Some k])"
proof -
  have h: "h l < length ks" for l using ok by (simp add: layout_ok_def)
  have il: "i < length ks" "ks ! i = None \<or> ks ! i = Some k" using first_fitD [OF i h] by auto
  have "first_fit h (ks[i := Some k]) l = Some j"
    if j: "j < length ks" "ks[i := Some k] ! j = Some l" for j l
  proof (cases "l = k")
    case True
    have "j = i"
    proof (rule ccontr)
      assume "j \<noteq> i"
      then have "ks ! j = Some k" using j True by simp
      then have "first_fit h ks k = Some j" using ok j(1) by (simp add: layout_ok_def)
      with i \<open>j \<noteq> i\<close> show False by simp
    qed
    have "first_fit h (ks[i := Some k]) k = Some i"
      using il h [of k] unfolding first_fit_def length_list_update
      by (intro find_update [OF i [unfolded first_fit_def]]) (auto simp: nth_list_update split: if_splits)
    then show ?thesis using True \<open>j = i\<close> by simp
  next
    case False
    then have "j \<noteq> i" "ks ! j = Some l" using j il by (auto simp: nth_list_update split: if_splits)
    then have "first_fit h ks l = Some j" using ok j(1) by (simp add: layout_ok_def)
    show ?thesis
      unfolding first_fit_def length_list_update
    proof (rule find_update [OF \<open>first_fit h ks l = Some j\<close> [unfolded first_fit_def]])
      fix y assume "y \<in> set (order (h l) (length ks))"
        "ks[i := Some k] ! y = None \<or> ks[i := Some k] ! y = Some l"
      then show "ks ! y = None \<or> ks ! y = Some l"
        using h [of l] False il by (auto simp: nth_list_update split: if_splits)
    qed (use \<open>j \<noteq> i\<close> \<open>ks ! j = Some l\<close> in simp)
  qed
  then show ?thesis using h by (simp add: layout_ok_def)
qed

lemma position_fill:
  assumes ok: "layout_ok h ks" and i: "first_fit h ks k = Some i"
  shows "position h (ks[i := Some k]) l = (if l = k then Some i else position h ks l)"
proof -
  have ok': "layout_ok h (ks[i := Some k])" by (rule layout_fill [OF ok i])
  have h: "h l < length ks" for l using ok by (simp add: layout_ok_def)
  have il: "i < length ks" "ks ! i = None \<or> ks ! i = Some k" using first_fitD [OF i h] by auto
  show ?thesis
  proof (cases "l = k")
    case True
    then show ?thesis using position_Some [OF ok', of i k] il by simp
  next
    case False
    then have "(ks[i := Some k] ! j = Some l) = (ks ! j = Some l)" if "j < length ks" for j
      using il that by (auto simp: nth_list_update)
    then have "List.find (\<lambda>j. ks[i := Some k] ! j = Some l) (order (h l) (length ks))
        = List.find (\<lambda>j. ks ! j = Some l) (order (h l) (length ks))"
      using h [of l] by (intro find_cong) auto
    then show ?thesis using False by (simp add: position_def)
  qed
qed


section \<open>The table as a map\<close>

definition ht_keys :: "('k, 'v, 'a) HashTable \<Rightarrow> 'k option list" where
  "ht_keys t = map (\<lambda>b. if bk_state b \<noteq> 0 then Some (bk_key b) else None) (ht_buckets t)"

definition ht_inv :: "('k \<Rightarrow> nat) \<Rightarrow> ('k, 'v, 'a) HashTable \<Rightarrow> bool" where
  "ht_inv hash t \<longleftrightarrow> isPowerOfTwoSize (length (ht_buckets t)) \<and> ht_mask t = length (ht_buckets t) - 1
     \<and> layout_ok (\<lambda>k. hash k mod length (ht_buckets t)) (ht_keys t)
     \<and> (\<forall>b \<in> set (ht_buckets t). bk_state b \<le> 1)"

text \<open>The bucket a key occupies.\<close>

definition ht_entry :: "('k \<Rightarrow> nat) \<Rightarrow> ('k, 'v, 'a) HashTable \<Rightarrow> 'k \<Rightarrow> ('k, 'v) Bucket option" where
  "ht_entry hash t k = map_option ((!) (ht_buckets t))
     (position (\<lambda>k. hash k mod length (ht_buckets t)) (ht_keys t) k)"

lemma length_ht_keys [simp]: "length (ht_keys t) = length (ht_buckets t)"
  by (simp add: ht_keys_def)

lemma ht_size_pos: "ht_inv hash t \<Longrightarrow> 0 < length (ht_buckets t)"
  by (auto simp: ht_inv_def isPowerOfTwoSize_def)

lemma ht_index: "ht_inv hash t \<Longrightarrow> and (hash k) (ht_mask t) = hash k mod length (ht_buckets t)"
  unfolding ht_inv_def using and_size_mask by metis

lemma nth_ht_keys: "i < length (ht_buckets t) \<Longrightarrow>
    ht_keys t ! i = (if bk_state (ht_buckets t ! i) \<noteq> 0 then Some (bk_key (ht_buckets t ! i)) else None)"
  by (simp add: ht_keys_def)

lemma probe_position:
  assumes "ht_inv hash t"
  shows "probe (\<lambda>b. bk_state b \<noteq> 0 \<and> bk_key b = k) (ht_buckets t) (and (hash k) (ht_mask t))
    = position (\<lambda>k. hash k mod length (ht_buckets t)) (ht_keys t) k"
  using ht_size_pos [OF assms]
  by (auto simp: probe_find position_def ht_index [OF assms] nth_ht_keys split: if_splits
      intro!: find_cong)

lemma probe_first_fit:
  assumes "ht_inv hash t"
  shows "probe (\<lambda>b. bk_state b = 0 \<or> bk_key b = k) (ht_buckets t) (and (hash k) (ht_mask t))
      = first_fit (\<lambda>k. hash k mod length (ht_buckets t)) (ht_keys t) k"
    and "probe (\<lambda>b. bk_state b \<noteq> 0 \<and> bk_key b = k \<or> bk_state b = 0) (ht_buckets t) (and (hash k) (ht_mask t))
      = first_fit (\<lambda>k. hash k mod length (ht_buckets t)) (ht_keys t) k"
  using ht_size_pos [OF assms]
  by (auto simp: probe_find first_fit_def ht_index [OF assms] nth_ht_keys split: if_splits
      intro!: find_cong)

lemma ht_find_entry: "ht_inv hash t \<Longrightarrow> ht_find hash k t = map_option bk_value (ht_entry hash t k)"
  unfolding ht_find_def ht_entry_def by (subst probe_position) (auto simp: option.map_comp comp_def)

text \<open>A write at the first fit of a key replaces the entry of that key only.\<close>

lemma ht_write:
  assumes inv: "ht_inv hash t"
    and i: "first_fit (\<lambda>k. hash k mod length (ht_buckets t)) (ht_keys t) k = Some i"
    and b: "bk_state b = 1" "bk_key b = k"
  shows "ht_inv hash (t\<lparr>ht_buckets := (ht_buckets t)[i := b]\<rparr>)"
    and "ht_entry hash (t\<lparr>ht_buckets := (ht_buckets t)[i := b]\<rparr>) = (ht_entry hash t)(k \<mapsto> b)"
    and "ht_entry hash t k = (if bk_state (ht_buckets t ! i) \<noteq> 0 then Some (ht_buckets t ! i) else None)"
proof -
  let ?h = "\<lambda>k. hash k mod length (ht_buckets t)"
  have ok: "layout_ok ?h (ht_keys t)" using inv by (simp add: ht_inv_def)
  have il: "i < length (ht_buckets t)" "ht_keys t ! i = None \<or> ht_keys t ! i = Some k"
    using first_fitD [OF i] ok by (auto simp: layout_ok_def)
  have keys: "ht_keys (t\<lparr>ht_buckets := (ht_buckets t)[i := b]\<rparr>) = (ht_keys t)[i := Some k]"
    using b by (simp add: ht_keys_def map_update)
  show "ht_inv hash (t\<lparr>ht_buckets := (ht_buckets t)[i := b]\<rparr>)"
    using inv layout_fill [OF ok i] b keys
    by (auto simp: ht_inv_def dest!: subsetD [OF set_update_subset_insert])
  have pos: "position ?h ((ht_keys t)[i := Some k]) l = (if l = k then Some i else position ?h (ht_keys t) l)" for l
    by (rule position_fill [OF ok i])
  have ne: "j \<noteq> i" if "position ?h (ht_keys t) l = Some j" "l \<noteq> k" for l j
    using that il positionD [of ?h "ht_keys t" l j] by auto
  show "ht_entry hash (t\<lparr>ht_buckets := (ht_buckets t)[i := b]\<rparr>) = (ht_entry hash t)(k \<mapsto> b)"
  proof
    fix l
    show "ht_entry hash (t\<lparr>ht_buckets := (ht_buckets t)[i := b]\<rparr>) l = ((ht_entry hash t)(k \<mapsto> b)) l"
      using il ne [of l] pos [of l]
      by (cases "position ?h (ht_keys t) l") (auto simp: ht_entry_def keys)
  qed
  show "ht_entry hash t k = (if bk_state (ht_buckets t ! i) \<noteq> 0 then Some (ht_buckets t ! i) else None)"
  proof (cases "ht_keys t ! i")
    case None
    then have "Some k \<notin> set (ht_keys t)"
      using ok i by (auto simp: layout_ok_def in_set_conv_nth)
    then have "position ?h (ht_keys t) k = None"
      using position_None [of ?h k "ht_keys t"] ok by (simp add: layout_ok_def)
    then show ?thesis using None il(1) by (simp add: ht_entry_def ht_keys_def split: if_splits)
  next
    case (Some l)
    then have "position ?h (ht_keys t) k = Some i"
      using position_Some [OF ok] il by simp
    then show ?thesis using Some il(1) by (simp add: ht_entry_def ht_keys_def split: if_splits)
  qed
qed

lemma ht_full:
  assumes inv: "ht_inv hash t"
    and "first_fit (\<lambda>k. hash k mod length (ht_buckets t)) (ht_keys t) k = None"
  shows "ht_entry hash t k = None \<and> (\<forall>b \<in> set (ht_buckets t). bk_state b = 1)"
proof -
  let ?h = "\<lambda>k. hash k mod length (ht_buckets t)"
  have n: "\<forall>i < length (ht_keys t). ht_keys t ! i \<noteq> None \<and> ht_keys t ! i \<noteq> Some k"
    using assms(2) first_fit_None [of ?h k "ht_keys t"] ht_size_pos [OF inv] by simp
  then have "Some k \<notin> set (ht_keys t)" by (auto simp: in_set_conv_nth)
  then have "ht_entry hash t k = None"
    using position_None [of ?h k "ht_keys t"] ht_size_pos [OF inv] by (simp add: ht_entry_def)
  moreover have "bk_state b = 1" if b: "b \<in> set (ht_buckets t)" for b
  proof -
    obtain i where i: "i < length (ht_buckets t)" "b = ht_buckets t ! i"
      using b unfolding in_set_conv_nth by blast
    then have "bk_state b \<noteq> 0" using n nth_ht_keys [of i t] by (auto split: if_splits)
    moreover have "bk_state b \<le> 1" using inv b by (auto simp: ht_inv_def)
    ultimately show ?thesis by simp
  qed
  ultimately show ?thesis by blast
qed


lemma ht_insert_correct:
  assumes "ht_inv hash t"
  shows "case ht_insert hash k v t of
      Inr t' \<Rightarrow> ht_inv hash t' \<and> (\<lambda>l. ht_find hash l t') = (\<lambda>l. ht_find hash l t)(k \<mapsto> v)
        \<and> length (ht_buckets t') = length (ht_buckets t)
    | Inl e \<Rightarrow> e = RuntimeError \<and> ht_find hash k t = None \<and> (\<forall>b \<in> set (ht_buckets t). bk_state b = 1)"
proof (cases "first_fit (\<lambda>k. hash k mod length (ht_buckets t)) (ht_keys t) k")
  case None
  then show ?thesis
    using ht_full [OF assms None] probe_first_fit(1) [OF assms, of k]
    by (simp add: ht_insert_def ht_find_entry [OF assms])
next
  case (Some i)
  let ?b = "(ht_buckets t ! i)\<lparr>bk_state := 1, bk_key := k, bk_value := v\<rparr>"
  have "ht_insert hash k v t = Inr (t\<lparr>ht_buckets := (ht_buckets t)[i := ?b]\<rparr>)"
    using Some probe_first_fit(1) [OF assms, of k] by (simp add: ht_insert_def)
  then show ?thesis
    using ht_write [OF assms Some, of ?b] by (auto simp: ht_find_entry assms fun_eq_iff)
qed

lemma ht_insert_or_modify_correct:
  assumes "ht_inv hash t"
  shows "case ht_insert_or_modify hash combine k v t of
      Inr t' \<Rightarrow> ht_inv hash t' \<and> length (ht_buckets t') = length (ht_buckets t)
        \<and> map_option (\<lambda>b. (bk_value b, bk_counter b)) \<circ> ht_entry hash t'
          = (map_option (\<lambda>b. (bk_value b, bk_counter b)) \<circ> ht_entry hash t)
            (k \<mapsto> (case ht_entry hash t k of None \<Rightarrow> (v, 1)
                    | Some b \<Rightarrow> (combine (bk_value b) v, to_int32 (bk_counter b + 1))))
    | Inl e \<Rightarrow> e = RuntimeError \<and> ht_entry hash t k = None \<and> (\<forall>b \<in> set (ht_buckets t). bk_state b = 1)"
proof (cases "first_fit (\<lambda>k. hash k mod length (ht_buckets t)) (ht_keys t) k")
  case None
  then show ?thesis
    using ht_full [OF assms None] probe_first_fit(2) [OF assms, of k]
    by (simp add: ht_insert_or_modify_def)
next
  case (Some i)
  let ?o = "ht_buckets t ! i"
  let ?b = "if bk_state ?o \<noteq> 0 then ?o\<lparr>bk_value := combine (bk_value ?o) v, bk_counter := to_int32 (bk_counter ?o + 1)\<rparr>
      else ?o\<lparr>bk_state := 1, bk_key := k, bk_value := v, bk_counter := 1\<rparr>"
  have ins: "ht_insert_or_modify hash combine k v t = Inr (t\<lparr>ht_buckets := (ht_buckets t)[i := ?b]\<rparr>)"
    using Some probe_first_fit(2) [OF assms, of k]
    by (simp add: ht_insert_or_modify_def Let_def cong: if_cong)
  have il: "i < length (ht_buckets t)" "ht_keys t ! i = None \<or> ht_keys t ! i = Some k"
    using first_fitD [OF Some] ht_size_pos [OF assms] by auto
  have "bk_state ?o \<le> 1" using assms il(1) by (auto simp: ht_inv_def)
  then have b: "bk_state ?b = 1" "bk_key ?b = k"
    using il by (auto simp: nth_ht_keys split: if_splits)
  note w = ht_write [OF assms Some b]
  show ?thesis
    unfolding ins sum.case w(2) using w(1,3) by (auto simp: fun_eq_iff)
qed

lemma ht_erase_correct:
  assumes "ht_inv hash t" and "ht_erase hash k t = (r, t')"
  shows "r \<longleftrightarrow> ht_find hash k t \<noteq> None" and "\<not> r \<Longrightarrow> t' = t"
  using assms probe_position [OF assms(1), of k]
  by (auto simp: ht_erase_def ht_find_def split: option.splits)

lemma newHashTable_inv:
  assumes "newHashTable mem aggrs n = Inr t" and "length mem = n"
  shows "ht_inv hash t \<and> (\<lambda>k. ht_find hash k t) = Map.empty \<and> ht_entry hash t = Map.empty
    \<and> length (ht_buckets t) = n"
proof -
  have t: "isPowerOfTwoSize n" "ht_buckets t = map (\<lambda>b. b\<lparr>bk_state := 0\<rparr>) mem" "ht_mask t = n - 1"
    using assms by (auto simp: newHashTable_def split: if_splits)
  then have keys: "ht_keys t = replicate n None"
    using assms(2) by (auto simp: ht_keys_def intro!: replicate_eqI)
  have n: "0 < n" using t(1) by (auto simp: isPowerOfTwoSize_def)
  have "layout_ok (\<lambda>k. hash k mod n) (replicate n None)" using n by (simp add: layout_ok_def)
  then have inv: "ht_inv hash t" using t keys assms(2) by (auto simp: ht_inv_def)
  moreover have "ht_entry hash t k = None" for k
    using n keys t(2) assms(2) position_None [of "\<lambda>k. hash k mod n" k "replicate n None"]
    by (simp add: ht_entry_def)
  ultimately show ?thesis
    using t assms(2) by (simp add: fun_eq_iff ht_find_entry)
qed


section \<open>The set as a dictionary\<close>

definition hs_keys :: "'k HashSet \<Rightarrow> 'k option list" where
  "hs_keys s = map (\<lambda>b. if sb_state b \<noteq> 0 then Some (sb_key b) else None) (hs_buckets s)"

definition hs_inv :: "('k \<Rightarrow> nat) \<Rightarrow> 'k HashSet \<Rightarrow> bool" where
  "hs_inv hash s \<longleftrightarrow> isPowerOfTwoSize (length (hs_buckets s)) \<and> hs_mask s = length (hs_buckets s) - 1
     \<and> layout_ok (\<lambda>k. hash k mod length (hs_buckets s)) (hs_keys s)"

lemma length_hs_keys [simp]: "length (hs_keys s) = length (hs_buckets s)"
  by (simp add: hs_keys_def)

lemma nth_hs_keys: "i < length (hs_buckets s) \<Longrightarrow>
    hs_keys s ! i = (if sb_state (hs_buckets s ! i) \<noteq> 0 then Some (sb_key (hs_buckets s ! i)) else None)"
  by (simp add: hs_keys_def)

lemma hs_index: "hs_inv hash s \<Longrightarrow> and (hash k) (hs_mask s) = hash k mod length (hs_buckets s)"
  unfolding hs_inv_def using and_size_mask by metis

lemma hs_size_pos: "hs_inv hash s \<Longrightarrow> 0 < length (hs_buckets s)"
  by (auto simp: hs_inv_def isPowerOfTwoSize_def)

lemma hs_find_position:
  assumes "hs_inv hash s"
  shows "hs_find hash k s = position (\<lambda>k. hash k mod length (hs_buckets s)) (hs_keys s) k"
  using hs_size_pos [OF assms]
  by (auto simp: hs_find_def probe_find position_def hs_index [OF assms] nth_hs_keys split: if_splits
      intro!: find_cong)

lemma hs_insert_first_fit:
  assumes "hs_inv hash s"
  shows "probe (\<lambda>b. sb_state b = 0 \<or> sb_key b = k) (hs_buckets s) (and (hash k) (hs_mask s))
    = first_fit (\<lambda>k. hash k mod length (hs_buckets s)) (hs_keys s) k"
  using hs_size_pos [OF assms]
  by (auto simp: probe_find first_fit_def hs_index [OF assms] nth_hs_keys split: if_splits
      intro!: find_cong)

lemma hs_find_iff:
  assumes "hs_inv hash s"
  shows "hs_find hash k s = Some i \<longleftrightarrow> i < length (hs_buckets s) \<and> hs_keys s ! i = Some k"
proof -
  have ok: "layout_ok (\<lambda>k. hash k mod length (hs_buckets s)) (hs_keys s)"
    using assms by (simp add: hs_inv_def)
  show ?thesis
    using position_Some [OF ok, of i k] hs_size_pos [OF assms]
      find_SomeD [of "\<lambda>i. hs_keys s ! i = Some k"
        "order (hash k mod length (hs_buckets s)) (length (hs_keys s))" i]
    by (auto simp: hs_find_position [OF assms] position_def)
qed

lemma hs_insert_correct:
  assumes "hs_inv hash s"
  shows "case hs_insert hash k s of
      Inr (i, s') \<Rightarrow> hs_inv hash s' \<and> i < length (hs_buckets s) \<and> hs_keys s' = (hs_keys s)[i := Some k]
        \<and> (hs_keys s ! i = None \<or> hs_keys s ! i = Some k)
    | Inl e \<Rightarrow> e = RuntimeError \<and> None \<notin> set (hs_keys s) \<and> Some k \<notin> set (hs_keys s)"
proof (cases "first_fit (\<lambda>k. hash k mod length (hs_buckets s)) (hs_keys s) k")
  case None
  then have "\<forall>i < length (hs_keys s). hs_keys s ! i \<noteq> None \<and> hs_keys s ! i \<noteq> Some k"
    using first_fit_None [of "\<lambda>k. hash k mod length (hs_buckets s)" k "hs_keys s"] hs_size_pos [OF assms]
    by simp
  then have "None \<notin> set (hs_keys s) \<and> Some k \<notin> set (hs_keys s)" unfolding in_set_conv_nth by metis
  then show ?thesis using None hs_insert_first_fit [OF assms, of k] by (simp add: hs_insert_def)
next
  case (Some i)
  let ?s = "s\<lparr>hs_buckets := (hs_buckets s)[i := (hs_buckets s ! i)\<lparr>sb_state := 1, sb_key := k\<rparr>]\<rparr>"
  have ins: "hs_insert hash k s = Inr (i, ?s)"
    using Some hs_insert_first_fit [OF assms, of k] by (simp add: hs_insert_def)
  have il: "i < length (hs_buckets s) \<and> (hs_keys s ! i = None \<or> hs_keys s ! i = Some k)"
    using first_fitD [OF Some] hs_size_pos [OF assms] by simp
  have keys: "hs_keys ?s = (hs_keys s)[i := Some k]" by (simp add: hs_keys_def map_update)
  have "hs_inv hash ?s"
    using assms layout_fill [OF _ Some] keys by (auto simp: hs_inv_def)
  then show ?thesis using ins il keys by simp
qed

lemma newHashSet_inv:
  assumes "newHashSet mem n = Inr s" and "length mem = n"
  shows "hs_inv hash s \<and> hs_keys s = replicate n None \<and> length (hs_buckets s) = n"
proof -
  have s: "isPowerOfTwoSize n" "hs_buckets s = map (\<lambda>b. b\<lparr>sb_state := 0\<rparr>) mem" "hs_mask s = n - 1"
    using assms by (auto simp: newHashSet_def split: if_splits)
  then have keys: "hs_keys s = replicate n None"
    using assms(2) by (auto simp: hs_keys_def intro!: replicate_eqI)
  have n: "0 < n" using s(1) by (auto simp: isPowerOfTwoSize_def)
  then have "layout_ok (\<lambda>k. hash k mod n) (replicate n None)" by (simp add: layout_ok_def)
  then show ?thesis using s keys assms(2) by (auto simp: hs_inv_def)
qed

section \<open>Tables that aggregate by key\<close>

text \<open>The values of a key, in order of arrival.\<close>

definition values_of :: "'k \<Rightarrow> ('k \<times> 'x) list \<Rightarrow> 'x list" where
  "values_of k kvs = map snd (filter (\<lambda>p. fst p = k) kvs)"

locale upsert_table =
  fixes upsert :: "'k \<Rightarrow> 'x \<Rightarrow> 't \<Rightarrow> 't res"
    and lookup :: "'t \<Rightarrow> 'k \<Rightarrow> 'v option"
    and upd :: "'v option \<Rightarrow> 'x \<Rightarrow> 'v"
    and cap :: "'t \<Rightarrow> nat"
    and invar :: "'t \<Rightarrow> bool"
  assumes upsert_ok: "invar t \<Longrightarrow> upsert k x t = Inr t' \<Longrightarrow>
      invar t' \<and> cap t' = cap t \<and> lookup t' = (lookup t)(k \<mapsto> upd (lookup t k) x)"
    and upsert_full: "invar t \<Longrightarrow> upsert k x t = Inl e \<Longrightarrow>
      lookup t k = None \<and> card (dom (lookup t)) = cap t"
    and dom_finite: "invar t \<Longrightarrow> finite (dom (lookup t))"
begin

definition run :: "('k \<times> 'x) list \<Rightarrow> 't \<Rightarrow> 't res" where
  "run kvs = rfold (\<lambda>(k, x). upsert k x) kvs"

lemma run_lookup:
  assumes "invar t" and "run kvs t = Inr t'"
  shows "invar t' \<and> lookup t' k = foldl (\<lambda>v x. Some (upd v x)) (lookup t k) (values_of k kvs)"
  using assms
proof (induction kvs arbitrary: t)
  case (Cons p kvs)
  obtain l x where p: "p = (l, x)" by (cases p)
  from Cons.prems(2) p obtain t1 where t1: "upsert l x t = Inr t1" "run kvs t1 = Inr t'"
    by (auto simp: run_def)
  have "invar t1" "lookup t1 = (lookup t)(l \<mapsto> upd (lookup t l) x)"
    using upsert_ok [OF Cons.prems(1) t1(1)] by auto
  then show ?case using Cons.IH [OF _ t1(2)] p by (auto simp: values_of_def)
qed (simp add: run_def values_of_def)

lemma run_succeeds:
  assumes "invar t" and "card (dom (lookup t) \<union> fst ` set kvs) \<le> cap t"
  shows "\<exists>t'. run kvs t = Inr t'"
  using assms
proof (induction kvs arbitrary: t)
  case (Cons p kvs)
  obtain l x where p: "p = (l, x)" by (cases p)
  have fin: "finite (dom (lookup t) \<union> fst ` set (p # kvs))"
    using dom_finite [OF Cons.prems(1)] by simp
  show ?case
  proof (cases "upsert l x t")
    case (Inl e)
    then have "lookup t l = None" "card (dom (lookup t)) = cap t"
      using upsert_full [OF Cons.prems(1)] by auto
    then have "dom (lookup t) \<subset> dom (lookup t) \<union> fst ` set (p # kvs)" using p by auto
    from psubset_card_mono [OF fin this] show ?thesis
      using Cons.prems(2) \<open>card (dom (lookup t)) = cap t\<close> by simp
  next
    case (Inr t1)
    then have "invar t1" "cap t1 = cap t" "dom (lookup t1) = insert l (dom (lookup t))"
      using upsert_ok [OF Cons.prems(1) Inr] by auto
    moreover have "insert l (dom (lookup t)) \<union> fst ` set kvs = dom (lookup t) \<union> fst ` set (p # kvs)"
      using p by auto
    ultimately have "\<exists>t'. run kvs t1 = Inr t'" using Cons.IH [of t1] Cons.prems(2) by simp
    then show ?thesis using Inr p by (auto simp: run_def)
  qed
qed (simp add: run_def)

lemma run_from_empty:
  assumes "invar t" and "lookup t = Map.empty" and "card (fst ` set kvs) \<le> cap t"
  shows "\<exists>t'. run kvs t = Inr t' \<and> invar t'
    \<and> (\<forall>k. lookup t' k = foldl (\<lambda>v x. Some (upd v x)) None (values_of k kvs))"
proof -
  obtain t' where t': "run kvs t = Inr t'" using run_succeeds [of t kvs] assms by auto
  then show ?thesis using run_lookup [OF assms(1) t'] assms(2) by simp
qed

end

lemma ht_entry_dom: "ht_inv hash t \<Longrightarrow> k \<in> dom (ht_entry hash t) \<longleftrightarrow> Some k \<in> set (ht_keys t)"
  using position_None [of "\<lambda>k. hash k mod length (ht_buckets t)" k "ht_keys t"] ht_size_pos [of hash t]
  by (auto simp: ht_entry_def)

lemma ht_dom_finite: "ht_inv hash t \<Longrightarrow> finite (dom (ht_entry hash t))"
  by (rule finite_subset [of _ "the ` set (ht_keys t)"]) (use ht_entry_dom in force)+

lemma ht_full_card:
  assumes inv: "ht_inv hash t" and full: "\<forall>b \<in> set (ht_buckets t). bk_state b = 1"
  shows "card (dom (ht_entry hash t)) = length (ht_buckets t)"
proof -
  have keys: "ht_keys t = map (Some \<circ> bk_key) (ht_buckets t)"
    using full by (simp add: ht_keys_def)
  have "distinct (map bk_key (ht_buckets t))"
    unfolding distinct_conv_nth
  proof (intro allI impI)
    fix i j assume "i < length (map bk_key (ht_buckets t))" "j < length (map bk_key (ht_buckets t))" "i \<noteq> j"
    then show "map bk_key (ht_buckets t) ! i \<noteq> map bk_key (ht_buckets t) ! j"
      using layout_inj [of "\<lambda>k. hash k mod length (ht_buckets t)" "ht_keys t" i j] inv keys
      by (auto simp: ht_inv_def)
  qed
  moreover have "dom (ht_entry hash t) = set (map bk_key (ht_buckets t))"
    using ht_entry_dom [OF inv] keys by auto
  ultimately show ?thesis using distinct_card by fastforce
qed

interpretation ins: upsert_table "ht_insert hash" "\<lambda>t k. ht_find hash k t" "\<lambda>_ v. v"
  "\<lambda>t. length (ht_buckets t)" "ht_inv hash"
proof
  fix t :: "('a, 'b, 'c) HashTable"
  assume inv: "ht_inv hash t"
  have dom: "dom (\<lambda>k. ht_find hash k t) = dom (ht_entry hash t)"
    by (auto simp: ht_find_entry [OF inv])
  show "finite (dom (\<lambda>k. ht_find hash k t))" using dom ht_dom_finite [OF inv] by simp
  fix k v
  show "ht_inv hash t' \<and> length (ht_buckets t') = length (ht_buckets t)
      \<and> (\<lambda>k. ht_find hash k t') = (\<lambda>k. ht_find hash k t)(k \<mapsto> v)"
    if "ht_insert hash k v t = Inr t'" for t'
    using ht_insert_correct [OF inv, of k v] that by simp
  show "ht_find hash k t = None \<and> card (dom (\<lambda>k. ht_find hash k t)) = length (ht_buckets t)"
    if "ht_insert hash k v t = Inl e" for e
    using ht_insert_correct [OF inv, of k v] that ht_full_card [OF inv] dom by simp
qed

definition ht_aggregate :: "('k \<Rightarrow> nat) \<Rightarrow> ('k, 'v, 'a) HashTable \<Rightarrow> 'k \<Rightarrow> ('v \<times> int) option" where
  "ht_aggregate hash t k = map_option (\<lambda>b. (bk_value b, bk_counter b)) (ht_entry hash t k)"

definition combine_count :: "('v \<Rightarrow> 'v \<Rightarrow> 'v) \<Rightarrow> ('v \<times> int) option \<Rightarrow> 'v \<Rightarrow> 'v \<times> int" where
  "combine_count combine old v = (case old of None \<Rightarrow> (v, 1) | Some (a, c) \<Rightarrow> (combine a v, to_int32 (c + 1)))"

interpretation agg: upsert_table "ht_insert_or_modify hash combine" "ht_aggregate hash"
  "combine_count combine" "\<lambda>t. length (ht_buckets t)" "ht_inv hash"
proof
  fix t :: "('a, 'b, 'c) HashTable"
  assume inv: "ht_inv hash t"
  have dom: "dom (ht_aggregate hash t) = dom (ht_entry hash t)"
    by (auto simp: ht_aggregate_def)
  show "finite (dom (ht_aggregate hash t))" using dom ht_dom_finite [OF inv] by simp
  fix k v
  have comp: "ht_aggregate hash u = map_option (\<lambda>b. (bk_value b, bk_counter b)) \<circ> ht_entry hash u"
    for u :: "('a, 'b, 'c) HashTable"
    by (simp add: fun_eq_iff ht_aggregate_def)
  show "ht_inv hash t' \<and> length (ht_buckets t') = length (ht_buckets t)
      \<and> ht_aggregate hash t' = (ht_aggregate hash t)(k \<mapsto> combine_count combine (ht_aggregate hash t k) v)"
    if "ht_insert_or_modify hash combine k v t = Inr t'" for t'
    using ht_insert_or_modify_correct [OF inv, where combine = combine and k = k and v = v] that
    by (cases "ht_entry hash t k") (auto simp: comp combine_count_def)
  show "ht_aggregate hash t k = None \<and> card (dom (ht_aggregate hash t)) = length (ht_buckets t)"
    if "ht_insert_or_modify hash combine k v t = Inl e" for e
    using ht_insert_or_modify_correct [OF inv, where combine = combine and k = k and v = v] that ht_full_card [OF inv] dom
    by (simp add: ht_aggregate_def)
qed


section \<open>Properties\<close>

lemma to_int32_one: "to_int32 1 = 1"
  by (simp add: to_int32_id INT_MIN_def INT_MAX_def)

lemma to_int32_step: "to_int32 (to_int32 x + y) = to_int32 (x + y)"
  unfolding to_int32_def by (metis signed_take_bit_add signed_take_bit_signed_take_bit min.idem)

lemma foldl_combine_count:
  "foldl (\<lambda>v x. Some (combine_count combine v x)) (Some (a, to_int32 c)) xs = Some (foldl combine a xs, to_int32 (c + int (length xs)))"
  by (induction xs arbitrary: a c) (simp_all add: combine_count_def to_int32_step add.assoc)

lemma foldl_last: "foldl (\<lambda>_ x. Some x) v xs = (if xs = [] then v else Some (last xs))"
  by (induction xs arbitrary: v) auto

text \<open>
  C30. Grouped aggregation: feed any sequence of key-value pairs into a new table, whatever the
  allocated memory held before. If the sequence has at most as many distinct keys as the table
  has buckets, every call returns, and afterwards a key holds the left fold of \<open>combine\<close> over
  its values in their order of arrival, with its counter equal to their number as a 32-bit
  integer; a key that did not occur is not found.
\<close>

theorem ht_groups_by_key:
  assumes "newHashTable mem aggrs n = Inr t" and "length mem = n" and "card (fst ` set kvs) \<le> n"
  shows "\<exists>t'. rfold (\<lambda>(k, v). ht_insert_or_modify hash combine k v) kvs t = Inr t' \<and>
    (\<forall>k. case values_of k kvs of
       [] \<Rightarrow> ht_find hash k t' = None
     | v # vs \<Rightarrow> ht_find hash k t' = Some (foldl combine v vs)
         \<and> map_option bk_counter (ht_entry hash t' k) = Some (to_int32 (1 + int (length vs))))"
proof -
  have t: "ht_inv hash t" "ht_aggregate hash t = Map.empty" "length (ht_buckets t) = n"
    using newHashTable_inv [OF assms(1,2), of hash] by (auto simp: fun_eq_iff ht_aggregate_def)
  then obtain t' where t': "rfold (\<lambda>(k, v). ht_insert_or_modify hash combine k v) kvs t = Inr t'"
      "ht_inv hash t'"
      "\<And>k. ht_aggregate hash t' k = foldl (\<lambda>v x. Some (combine_count combine v x)) None (values_of k kvs)"
    using agg.run_from_empty [of hash t kvs combine] assms(3) by (auto simp: agg.run_def)
  have "case values_of k kvs of [] \<Rightarrow> ht_find hash k t' = None
     | v # vs \<Rightarrow> ht_find hash k t' = Some (foldl combine v vs)
         \<and> map_option bk_counter (ht_entry hash t' k) = Some (to_int32 (1 + int (length vs)))" for k
    using t'(3) [of k] ht_find_entry [OF t'(2), of k] foldl_combine_count [of combine _ 1, unfolded to_int32_one]
    by (auto simp: ht_aggregate_def combine_count_def split: list.splits)
  then show ?thesis using t'(1) by blast
qed

abbreviation rawBucket :: "('k :: zero, 'v :: zero) Bucket" where
  "rawBucket \<equiv> \<lparr>bk_state = 17, bk_key = 0, bk_value = 0, bk_counter = 5\<rparr>"

definition demoTable :: "(int, int, unit) HashTable" where
  "demoTable = \<lparr>ht_buckets = replicate 2 (rawBucket\<lparr>bk_state := 0\<rparr>), ht_aggrs = Some [],
     ht_num_filled = 0, ht_mask = 1\<rparr>"

lemma demoTable_new: "newHashTable (replicate 2 rawBucket) [] 2 = Inr demoTable"
  by (simp add: newHashTable_def demoTable_def isPowerOfTwoSize_def numeral_2_eq_2)

theorem ht_groups_by_key_witness:
  "\<exists>t'. rfold (\<lambda>(k, v). ht_insert_or_modify nat (+) k v) [(7, 1), (8, 5), (7, 2)] demoTable = Inr t'
    \<and> ht_find nat 7 t' = Some 3 \<and> ht_find nat 8 t' = Some 5"
proof -
  have "card (fst ` set [(7 :: int, 1 :: int), (8, 5), (7, 2)]) \<le> 2" by (simp add: insert_commute)
  then obtain t' where t': "rfold (\<lambda>(k, v). ht_insert_or_modify nat (+) k v) [(7, 1), (8, 5), (7, 2)] demoTable = Inr t'"
    "\<forall>k. case values_of k [(7, 1), (8, 5), (7, 2)] of [] \<Rightarrow> ht_find nat k t' = None
     | v # vs \<Rightarrow> ht_find nat k t' = Some (foldl (+) v vs)
         \<and> map_option bk_counter (ht_entry nat t' k) = Some (to_int32 (1 + int (length vs)))"
    using ht_groups_by_key [OF demoTable_new] by fastforce
  then show ?thesis using spec [OF t'(2), of 7] spec [OF t'(2), of 8] by (auto simp: values_of_def)
qed

text \<open>
  A table filled by \<open>insert\<close> is a map: as long as the distinct keys fit into the buckets
  every call returns, and \<open>find\<close> returns for each key the value inserted last, and nothing for a
  key that was never inserted. A call fails only when the table is full and the key is new.
\<close>

theorem ht_insert_is_map:
  assumes "newHashTable mem aggrs n = Inr t" and "length mem = n" and "card (fst ` set kvs) \<le> n"
  shows "\<exists>t'. rfold (\<lambda>(k, v). ht_insert hash k v) kvs t = Inr t' \<and>
    (\<forall>k. ht_find hash k t' = map_of (rev kvs) k)"
proof -
  have t: "ht_inv hash t" "(\<lambda>k. ht_find hash k t) = Map.empty" "length (ht_buckets t) = n"
    using newHashTable_inv [OF assms(1,2), of hash] by auto
  then obtain t' where t': "rfold (\<lambda>(k, v). ht_insert hash k v) kvs t = Inr t'"
      "\<And>k. ht_find hash k t' = foldl (\<lambda>_ x. Some x) None (values_of k kvs)"
    using ins.run_from_empty [of hash t kvs] assms(3) by (auto simp: ins.run_def)
  have "foldl (\<lambda>_ x. Some x) None (values_of k kvs) = map_of (rev kvs) k" for k
    by (induction kvs rule: rev_induct) (auto simp: values_of_def foldl_last)
  then show ?thesis using t' by auto
qed

theorem ht_insert_is_map_witness:
  "\<exists>t'. rfold (\<lambda>(k, v). ht_insert nat k v) [(7, 1), (9, 5), (7, 2)] demoTable = Inr t'
    \<and> ht_find nat 7 t' = Some 2 \<and> ht_find nat 9 t' = Some 5 \<and> ht_find nat 3 t' = None"
proof -
  have "card (fst ` set [(7 :: int, 1 :: int), (9, 5), (7, 2)]) \<le> 2" by (simp add: insert_commute)
  then obtain t' where "rfold (\<lambda>(k, v). ht_insert nat k v) [(7, 1), (9, 5), (7, 2)] demoTable = Inr t'"
    "\<forall>k. ht_find nat k t' = map_of (rev [(7, 1), (9, 5), (7, 2)]) k"
    using ht_insert_is_map [OF demoTable_new] by fastforce
  then show ?thesis by simp
qed

text \<open>
  \<open>erase\<close> leaves a hole that \<open>insert\<close> fills without looking further along the probe order,
  so a key can be stored twice. Keys 0 and 2 collide in a table of two buckets: insert both, erase
  key 0, insert key 2 again with a new value, erase key 2. A map would no longer hold key 2, but
  \<open>find\<close> returns its first, overwritten value.
\<close>

theorem ht_erase_resurrects:
  "\<exists>t1 t2 t3. ht_insert nat 0 10 demoTable = Inr t1 \<and> ht_insert nat 2 20 t1 = Inr t2
    \<and> ht_insert nat 2 21 (snd (ht_erase nat 0 t2)) = Inr t3
    \<and> ht_find nat 2 t3 = Some 21
    \<and> ht_find nat 2 (snd (ht_erase nat 2 t3)) = Some 20"
  by (simp add: ht_insert_def ht_find_def ht_erase_def demoTable_def probe_def scan.simps numeral_2_eq_2)

end
