(* ===== verification/Compression.thy ===== *)
theory Compression
  imports HashTable
begin

text \<open>
  The compression algorithms of \<open>compression/Compressor.h\<close> and \<open>compression/Zigzag.h\<close>: zigzag
  coding, the dictionary, base-delta and bucket compressors, the two Gorilla encoders, variable
  byte coding and Simple8b block packing. 64-bit values are words or, where the code only packs
  and unpacks bit fields, natural numbers with the wrap-around written out.
\<close>

section \<open>Zigzag coding\<close>

definition zz_encode :: "64 word \<Rightarrow> 64 word" where
  "zz_encode i = signed_drop_bit 63 i XOR push_bit 1 i"

definition zz_decode :: "64 word \<Rightarrow> 64 word" where
  "zz_decode i = drop_bit 1 i XOR (- (i AND 1))"

section \<open>Dictionary, base-delta and bucket compressors\<close>

text \<open>
  The code of a key is its position in the hash set, converted to the unsigned output type of
  \<open>w\<close> bits.
\<close>

definition dict_compress :: "nat \<Rightarrow> ('k \<Rightarrow> nat) \<Rightarrow> 'k \<Rightarrow> 'k HashSet \<Rightarrow> (nat \<times> 'k HashSet) res" where
  "dict_compress w hash input table =
     (case hs_find hash input table of
        Some i \<Rightarrow> Inr (i mod 2 ^ w, table)
      | None \<Rightarrow> rbind (hs_insert hash input table) (\<lambda>(i, table). Inr (i mod 2 ^ w, table)))"

fun dict_compress_all :: "nat \<Rightarrow> ('k \<Rightarrow> nat) \<Rightarrow> 'k list \<Rightarrow> 'k HashSet \<Rightarrow> (nat list \<times> 'k HashSet) res" where
  "dict_compress_all w hash [] t = Inr ([], t)"
| "dict_compress_all w hash (x # xs) t =
     rbind (dict_compress w hash x t) (\<lambda>(c, t).
     rbind (dict_compress_all w hash xs t) (\<lambda>(cs, t). Inr (c # cs, t)))"

definition base_delta_compress :: "nat \<Rightarrow> int \<Rightarrow> int \<Rightarrow> int" where
  "base_delta_compress w base input = \<bar>base - input\<bar> mod 2 ^ w"

definition bucket_compress :: "nat \<Rightarrow> int \<Rightarrow> int \<Rightarrow> int res" where
  "bucket_compress w bucket input =
     (if bucket = 0 then Inl Undefined else Inr ((input sdiv bucket) mod 2 ^ w))"

section \<open>Gorilla encoders\<close>

text \<open>
  The encoded delta of deltas and its bit length. The last mask is the \<open>int\<close> constant
  \<open>0x0F << 28\<close>, which is negative and sign-extended when it is combined with the 64-bit value.
\<close>

definition gorilla_timestamp :: "64 word \<Rightarrow> 64 word \<Rightarrow> 64 word \<Rightarrow> 64 word \<times> int" where
  "gorilla_timestamp timestamp prevTimestamp doublePrevTimestamp =
     (let deltaOfDelta = (timestamp - prevTimestamp) - (prevTimestamp - doublePrevTimestamp);
          d = sint deltaOfDelta in
      if d = 0 then (0, 1)
      else if d < 65 \<and> d > -64 then (zz_encode deltaOfDelta OR push_bit 7 2, 9)
      else if d < 256 \<and> d > -255 then (zz_encode deltaOfDelta OR push_bit 9 6, 12)
      else if d < 2048 \<and> d > -2047 then (zz_encode deltaOfDelta OR push_bit 12 14, 16)
      else (zz_encode deltaOfDelta OR word_of_int (- (2 ^ 28)), 32))"

text \<open>\<open>__builtin_clzll\<close> and \<open>__builtin_ctzll\<close> on a non-zero value.\<close>

definition clz :: "64 word \<Rightarrow> nat" where
  "clz x = length (takeWhile (\<lambda>n. \<not> bit x n) (rev [0..<64]))"

definition ctz :: "64 word \<Rightarrow> nat" where
  "ctz x = length (takeWhile (\<lambda>n. \<not> bit x n) [0..<64])"

definition shift_left :: "nat \<Rightarrow> 64 word \<Rightarrow> 64 word res" where
  "shift_left n x = (if n < 64 then Inr (push_bit n x) else Inl Undefined)"

definition gorilla_value :: "64 word \<Rightarrow> nat \<Rightarrow> nat \<Rightarrow> (64 word \<times> int \<times> nat \<times> nat) res" where
  "gorilla_value xorValue prevLeadingZeros prevTrailingZeros =
     (if xorValue = 0 then Inr (0, 0, prevLeadingZeros, prevTrailingZeros)
      else
        let leadingZeros = (if clz xorValue \<ge> 32 then 31 else clz xorValue);
            same = (leadingZeros = ctz xorValue);
            trailingZeros = (if same then 1 else ctz xorValue);
            xorValue = (if same then push_bit 1 (drop_bit 1 xorValue) else xorValue) in
        if leadingZeros \<ge> prevLeadingZeros \<and> trailingZeros \<ge> prevTrailingZeros then
          let significantBits = 64 - int prevLeadingZeros - int prevTrailingZeros in
          if significantBits < 0 \<or> prevTrailingZeros \<ge> 64 then Inl Undefined
          else rbind (shift_left (nat significantBits) (push_bit 1 1)) (\<lambda>v.
            Inr (v OR drop_bit prevTrailingZeros xorValue, 2 + significantBits,
                 prevLeadingZeros, prevTrailingZeros))
        else
          let significantBits = 64 - leadingZeros - trailingZeros;
              header = push_bit 12 1 OR
                (push_bit 6 (32 XOR word_of_nat leadingZeros) XOR word_of_nat significantBits) in
          rbind (shift_left significantBits header) (\<lambda>v.
            Inr (v OR drop_bit trailingZeros xorValue, 13 + int significantBits,
                 prevLeadingZeros, prevTrailingZeros)))"

section \<open>Variable byte coding\<close>

function varbyte_bytes :: "nat \<Rightarrow> nat list" where
  "varbyte_bytes input =
     (if input > 127 then or (and input 127) 128 # varbyte_bytes (drop_bit 7 input)
      else [and input 127])"
  by pat_completeness auto
termination
  by (relation "measure id") (auto simp: drop_bit_eq_div)

declare varbyte_bytes.simps [simp del]

definition varbyte_compress :: "nat \<Rightarrow> nat list \<Rightarrow> nat \<Rightarrow> (nat \<times> nat list) res" where
  "varbyte_compress input buffer outputSize =
     rbind (memcpy_to buffer (int outputSize) (varbyte_bytes input))
       (\<lambda>buffer. Inr (outputSize + length (varbyte_bytes input), buffer))"

text \<open>A reader of the format: seven bits per byte, the eighth set on all but the last.\<close>

fun varbyte_decode :: "nat list \<Rightarrow> nat \<times> nat list" where
  "varbyte_decode [] = (0, [])"
| "varbyte_decode (b # bs) =
     (if b < 128 then (b, bs)
      else case varbyte_decode bs of (v, rest) \<Rightarrow> (b - 128 + 128 * v, rest))"

section \<open>Simple8b\<close>

definition bitLength :: "nat list" where
  "bitLength = [1, 1, 2, 3, 4, 5, 6, 7, 8, 10, 12, 15, 20, 30, 60, 32]"

text \<open>
  The loops of \<open>compress\<close>: pack \<open>intNum\<close> values with \<open>bitLen\<close> bits each while they fit; try
  the codes from the narrowest on; emit one block per iteration. \<open>vs\<close> holds the input values
  that are left, already divided and converted to \<open>uint64_t\<close>.
\<close>

function s8_pack :: "nat list \<Rightarrow> nat \<Rightarrow> nat \<Rightarrow> nat \<Rightarrow> nat \<Rightarrow> nat \<Rightarrow> nat \<times> nat" where
  "s8_pack vs maxVal bitLen intNum j val =
     (if j < intNum then
        if vs ! j > maxVal then (j, val)
        else s8_pack vs maxVal bitLen intNum (Suc j)
               (or val (take_bit 64 (push_bit (j * bitLen) (vs ! j))))
      else (j, val))"
  by pat_completeness auto
termination
  by (relation "measure (\<lambda>(vs, maxVal, bitLen, intNum, j, val). intNum - j)") auto

declare s8_pack.simps [simp del]

function s8_code :: "nat list \<Rightarrow> nat \<Rightarrow> nat \<times> nat" where
  "s8_code vs code =
     (if code < 15 then
        let intNum = min (bitLength ! (15 - code)) (length vs);
            bitLen = bitLength ! code in
        case s8_pack vs (2 ^ bitLen - 1) bitLen intNum 0 (push_bit 60 code) of
          (j, val) \<Rightarrow> if j = intNum then (val, intNum) else s8_code vs (Suc code)
      else (or (push_bit 60 code) (hd vs), 1))"
  by pat_completeness auto
termination
  by (relation "measure (\<lambda>(vs, code). 15 - code)") auto

declare s8_code.simps [simp del]

fun s8_blocks :: "nat \<Rightarrow> nat list \<Rightarrow> nat list" where
  "s8_blocks 0 vs = []"
| "s8_blocks (Suc fuel) vs =
     (if vs = [] then []
      else case s8_code vs 1 of (outVal, k) \<Rightarrow> outVal # s8_blocks fuel (drop k vs))"

definition s8_compress ::
  "(int \<Rightarrow> nat) \<Rightarrow> nat \<Rightarrow> nat \<Rightarrow> nat \<Rightarrow> int list \<Rightarrow> nat list \<Rightarrow> (nat \<times> nat list) res" where
  "s8_compress rd inOffset outOffset n st buf =
     (if length st < inOffset + n then Inl Undefined
      else let ws = s8_blocks n (map rd (take n (drop inOffset st))) in
        rbind (memcpy_to buf (int outOffset) ws) (\<lambda>buf. Inr (length ws, buf)))"

text \<open>The two overloads, which differ in how an input value is read.\<close>

definition s8_compress_plain ::
  "int \<Rightarrow> nat \<Rightarrow> nat \<Rightarrow> nat \<Rightarrow> int list \<Rightarrow> nat list \<Rightarrow> (nat \<times> nat list) res" where
  "s8_compress_plain numberForEquation inOffset outOffset n st buf =
     (if numberForEquation = 0 then Inl Undefined
      else s8_compress (\<lambda>x. nat ((x sdiv numberForEquation) mod 2 ^ 64)) inOffset outOffset n st buf)"

definition s8_compress_divided ::
  "int \<Rightarrow> int \<Rightarrow> nat \<Rightarrow> nat \<Rightarrow> nat \<Rightarrow> int list \<Rightarrow> nat list \<Rightarrow> (nat \<times> nat list) res" where
  "s8_compress_divided divider numberForEquation inOffset outOffset n st buf =
     (if numberForEquation = 0 \<or> divider = 0 then Inl Undefined
      else s8_compress (\<lambda>x. nat ((x sdiv divider sdiv numberForEquation) mod 2 ^ 64))
             inOffset outOffset n st buf)"

definition s8_unpack :: "nat \<Rightarrow> nat \<Rightarrow> nat \<Rightarrow> nat list" where
  "s8_unpack val bitLen intNum =
     map (\<lambda>inRow. and (drop_bit (inRow * bitLen) val) (2 ^ bitLen - 1)) [0..<intNum]"

text \<open>\<open>wr\<close> is what one decoded value is stored as.\<close>

fun s8_rows :: "(nat \<Rightarrow> int) \<Rightarrow> nat list \<Rightarrow> nat \<Rightarrow> nat \<Rightarrow> int list \<Rightarrow> (nat \<times> int list) res" where
  "s8_rows wr [] n outPos st = Inr (outPos, st)"
| "s8_rows wr (val # vals) n outPos st =
     (let code = drop_bit 60 val in
      if code = 0 then Inr (outPos, st)
      else
        let remainingCount = nat ((int n - int outPos) mod 2 ^ 32);
            intNum = min (bitLength ! (15 - code)) remainingCount in
        rbind (memcpy_to st (int outPos) (map wr (s8_unpack val (bitLength ! code) intNum)))
          (s8_rows wr vals n (outPos + intNum)))"

definition s8_decompress ::
  "(nat \<Rightarrow> int) \<Rightarrow> nat \<Rightarrow> nat \<Rightarrow> nat \<Rightarrow> int list \<Rightarrow> nat list \<Rightarrow> (nat \<times> int list) res" where
  "s8_decompress wr returnVal outOffset n st buf =
     (if length buf < returnVal then Inl Undefined
      else s8_rows wr (take returnVal buf) n outOffset st)"

definition s8_decompress_plain :: "nat \<Rightarrow> nat \<Rightarrow> nat \<Rightarrow> int list \<Rightarrow> nat list \<Rightarrow> (nat \<times> int list) res" where
  "s8_decompress_plain = s8_decompress int"

definition s8_decompress_multiplied ::
  "int \<Rightarrow> nat \<Rightarrow> nat \<Rightarrow> nat \<Rightarrow> int list \<Rightarrow> nat list \<Rightarrow> (nat \<times> int list) res" where
  "s8_decompress_multiplied multiplier = s8_decompress (\<lambda>v. int v * multiplier)"


section \<open>Zigzag and variable byte round trips\<close>

lemma zz_decode_encode: "zz_decode (zz_encode i) = i"
proof (rule bit_word_eqI)
  fix n assume n: "n < LENGTH(64)"
  have e: "bit (zz_encode i) m \<longleftrightarrow> m < 64 \<and> (bit i 63 \<noteq> (0 < m \<and> bit i (m - 1)))" for m
    unfolding zz_encode_def bit_xor_iff bit_push_bit_iff bit_signed_drop_bit_iff
    by (cases "m = 0"; cases "m < 64") (auto dest: bit_imp_le_length)
  have "odd (zz_encode i) \<longleftrightarrow> bit i 63"
    using e [of 0] by (simp add: bit_0)
  then have "- (zz_encode i AND 1) = (if bit i 63 then -1 else 0)"
    by (auto simp: and_one_eq mod2_eq_if)
  then show "bit (zz_decode (zz_encode i)) n = bit i n"
    using n e [of "Suc n"]
    by (cases "n = 63") (auto simp: zz_decode_def bit_xor_iff bit_drop_bit_eq)
qed

lemma varbyte_decode_bytes: "varbyte_decode (varbyte_bytes x @ rest) = (x, rest)"
proof (induction x rule: varbyte_bytes.induct)
  case (1 x)
  have m: "and x 127 = x mod 128" using and_mask_nat [of x 7] by simp
  show ?case
  proof (cases "x > 127")
    case True
    have "or (x mod 128) 128 = x mod 128 + 128"
    proof -
      have "or (take_bit 7 x) (2 ^ 7) = take_bit 7 x + 2 ^ 7"
        by (rule disjunctive_add [symmetric]) (simp only: bit_take_bit_iff bit_exp_iff, auto)
      then show ?thesis by (simp add: take_bit_eq_mod)
    qed
    moreover have "varbyte_decode (varbyte_bytes (drop_bit 7 x) @ rest) = (x div 128, rest)"
      using 1 True by (simp add: drop_bit_eq_div)
    ultimately show ?thesis
      using True m by (subst varbyte_bytes.simps) (simp add: drop_bit_eq_div mod_mult_div_eq)
  next
    case False
    then show ?thesis using m by (subst varbyte_bytes.simps) simp
  qed
qed

lemma length_varbyte_bytes: "x < 128 ^ Suc k \<Longrightarrow> length (varbyte_bytes x) \<le> Suc k"
proof (induction k arbitrary: x)
  case 0
  then show ?case by (subst varbyte_bytes.simps) simp
next
  case (Suc k)
  have "drop_bit 7 x < 128 ^ Suc k"
    using Suc.prems by (simp add: drop_bit_eq_div less_mult_imp_div_less mult.commute)
  then show ?case using Suc.IH [of "drop_bit 7 x"] by (subst varbyte_bytes.simps) simp
qed


section \<open>Simple8b blocks\<close>

lemma s8_pack_fits:
  assumes "\<forall>i. j \<le> i \<and> i < intNum \<longrightarrow> vs ! i \<le> maxVal" and "j \<le> intNum"
  shows "fst (s8_pack vs maxVal b intNum j val) = intNum"
  using assms
proof (induction vs maxVal b intNum j val rule: s8_pack.induct)
  case (1 vs maxVal b intNum j val)
  then show ?case by (subst s8_pack.simps) (auto simp: Suc_le_eq)
qed

lemma s8_pack_bits:
  assumes "s8_pack vs maxVal b intNum j val = (intNum, val')" and "j \<le> intNum"
  shows "(\<forall>i. j \<le> i \<and> i < intNum \<longrightarrow> vs ! i \<le> maxVal) \<and>
    (\<forall>m. bit val' m \<longleftrightarrow> bit val m \<or> (\<exists>i. j \<le> i \<and> i < intNum \<and> m < 64 \<and> i * b \<le> m \<and> bit (vs ! i) (m - i * b)))"
  using assms
proof (induction vs maxVal b intNum j val rule: s8_pack.induct)
  case (1 vs maxVal b intNum j val)
  show ?case
  proof (cases "j < intNum")
    case False
    then show ?thesis using 1(2,3) by (subst (asm) s8_pack.simps) auto
  next
    case True
    let ?val = "or val (take_bit 64 (push_bit (j * b) (vs ! j)))"
    have le: "\<not> vs ! j > maxVal"
      using 1(2) True by (subst (asm) s8_pack.simps) (auto split: if_splits)
    then have "s8_pack vs maxVal b intNum (Suc j) ?val = (intNum, val')"
      using 1(2) True by (subst (asm) s8_pack.simps) auto
    then have IH: "\<forall>i. Suc j \<le> i \<and> i < intNum \<longrightarrow> vs ! i \<le> maxVal"
      "\<And>m. bit val' m \<longleftrightarrow> bit ?val m \<or>
        (\<exists>i. Suc j \<le> i \<and> i < intNum \<and> m < 64 \<and> i * b \<le> m \<and> bit (vs ! i) (m - i * b))"
      using 1(1) [OF True le] True by auto
    have j: "bit ?val m \<longleftrightarrow> bit val m \<or> (m < 64 \<and> j * b \<le> m \<and> bit (vs ! j) (m - j * b))" for m
      by (auto simp: bit_or_iff bit_take_bit_iff bit_push_bit_iff)
    show ?thesis
    proof (intro conjI allI)
      show "j \<le> i \<and> i < intNum \<longrightarrow> vs ! i \<le> maxVal" for i
        using IH(1) le by (cases "i = j") auto
      fix m
      show "bit val' m \<longleftrightarrow> bit val m \<or>
          (\<exists>i. j \<le> i \<and> i < intNum \<and> m < 64 \<and> i * b \<le> m \<and> bit (vs ! i) (m - i * b))"
        unfolding IH(2) j using True by (metis Suc_leD le_antisym not_less_eq_eq order_refl)
    qed
  qed
qed

text \<open>A code whose fields fit: the layout of the block it makes from the first values.\<close>

definition s8_block :: "nat list \<Rightarrow> nat \<Rightarrow> nat \<Rightarrow> nat \<Rightarrow> bool" where
  "s8_block vs c val k \<longleftrightarrow> 1 \<le> c \<and> c \<le> 14 \<and> k = min (bitLength ! (15 - c)) (length vs)
     \<and> (\<forall>i < k. vs ! i < 2 ^ (bitLength ! c))
     \<and> (\<forall>m. bit val m \<longleftrightarrow> (60 \<le> m \<and> bit c (m - 60))
          \<or> (\<exists>i < k. m < 64 \<and> i * bitLength ! c \<le> m \<and> bit (vs ! i) (m - i * bitLength ! c)))"

lemma bitLength_fields:
  assumes "1 \<le> c" and "c \<le> 14"
  shows "bitLength ! (15 - c) * (bitLength ! c) \<le> 60 \<and> 1 \<le> bitLength ! (15 - c) \<and> 1 \<le> bitLength ! c"
proof -
  have "list_all (\<lambda>c. bitLength ! (15 - c) * (bitLength ! c) \<le> 60 \<and> 1 \<le> bitLength ! (15 - c)
      \<and> 1 \<le> bitLength ! c) [1..<15]"
    by code_simp
  moreover have "c \<in> set [1..<15]" using assms by simp
  ultimately show ?thesis unfolding list_all_iff by blast
qed

lemma le_pred: "(x :: nat) < n \<Longrightarrow> x \<le> n - 1"
  by simp

lemma s8_code_block:
  assumes "vs \<noteq> []" and "\<forall>v \<in> set vs. v < 2 ^ 60" and "1 \<le> code" and "code \<le> 14"
  shows "\<exists>c val k. s8_code vs code = (val, k) \<and> s8_block vs c val k"
  using assms
proof (induction vs code rule: s8_code.induct)
  case (1 vs code)
  let ?k = "min (bitLength ! (15 - code)) (length vs)" and ?b = "bitLength ! code"
  obtain j val where p: "s8_pack vs (2 ^ ?b - 1) ?b ?k 0 (push_bit 60 code) = (j, val)" by force
  show ?case
  proof (cases "j = ?k")
    case True
    have "s8_block vs code val ?k"
      using s8_pack_bits [OF p [unfolded True]] 1(4,5)
      by (auto simp: s8_block_def bit_push_bit_iff less_eq_Suc_le simp flip: One_nat_def)
        (auto simp: Suc_le_eq le_diff_conv2)
    moreover have "s8_code vs code = (val, ?k)"
      using p True 1(5) by (subst s8_code.simps) (simp add: Let_def)
    ultimately show ?thesis by blast
  next
    case False
    have "code \<noteq> 14"
    proof
      assume c: "code = 14"
      have b: "?b = 60" using c by (simp add: bitLength_def)
      have "vs ! i \<le> 2 ^ ?b - 1" if "i < ?k" for i
        unfolding b by (rule le_pred) (use 1(3) that in simp)
      then show False using False p s8_pack_fits [of 0 ?k vs "2 ^ ?b - 1"] by (metis fst_conv le0)
    qed
    then have "\<exists>c val k. s8_code vs (Suc code) = (val, k) \<and> s8_block vs c val k"
      using 1(1) [OF _ refl refl p [symmetric] False] 1(2-5) by auto
    moreover have "s8_code vs code = s8_code vs (Suc code)"
      using p False 1(5) by (subst s8_code.simps) (simp add: Let_def)
    ultimately show ?thesis by simp
  qed
qed


lemma s8_block_code:
  assumes blk: "s8_block vs c val k"
  shows "drop_bit 60 val = c"
proof (rule bit_eqI)
  fix m
  let ?b = "bitLength ! c"
  have "\<not> (i < k \<and> i * ?b \<le> 60 + m \<and> bit (vs ! i) (60 + m - i * ?b))" for i
  proof
    assume i: "i < k \<and> i * ?b \<le> 60 + m \<and> bit (vs ! i) (60 + m - i * ?b)"
    have "Suc i * ?b \<le> bitLength ! (15 - c) * ?b"
      using i blk by (intro mult_le_mono1) (auto simp: s8_block_def)
    then have "Suc i * ?b \<le> 60"
      using blk bitLength_fields [of c] by (auto simp: s8_block_def)
    moreover have "vs ! i < 2 ^ ?b" using i blk by (auto simp: s8_block_def)
    then have "60 + m - i * ?b < ?b"
      using i by (metis bit_take_bit_iff take_bit_nat_eq_self_iff)
    ultimately show False by simp
  qed
  then show "bit (drop_bit 60 val) m = bit c m"
    using blk by (auto simp: s8_block_def bit_drop_bit_eq)
qed

lemma s8_block_unpack:
  assumes blk: "s8_block vs c val k"
  shows "s8_unpack val (bitLength ! c) k = take k vs"
proof (rule nth_equalityI)
  have kl: "k \<le> length vs" using blk by (simp add: s8_block_def)
  then show "length (s8_unpack val (bitLength ! c) k) = length (take k vs)"
    by (simp add: s8_unpack_def)
  fix r assume "r < length (s8_unpack val (bitLength ! c) k)"
  then have r: "r < k" by (simp add: s8_unpack_def)
  let ?b = "bitLength ! c"
  have small: "n < ?b" if "i < k" "bit (vs ! i) n" for i n
    using that blk by (metis bit_take_bit_iff s8_block_def take_bit_nat_eq_self_iff)
  have "Suc r * ?b \<le> bitLength ! (15 - c) * ?b"
    using r blk by (intro mult_le_mono1) (auto simp: s8_block_def)
  then have r60: "Suc r * ?b \<le> 60"
    using blk bitLength_fields [of c] by (auto simp: s8_block_def)
  have "take_bit ?b (drop_bit (r * ?b) val) = vs ! r"
  proof (rule bit_eqI)
    fix n
    have same: "i = r" if "n < ?b" "i * ?b \<le> r * ?b + n" "r * ?b + n - i * ?b < ?b" for i
    proof -
      have "i * ?b < Suc r * ?b" "r * ?b < Suc i * ?b" using that by simp_all
      then have "i < Suc r" "r < Suc i" using mult_less_cancel2 by blast+
      then show ?thesis by simp
    qed
    have "bit val (r * ?b + n) \<longleftrightarrow> bit (vs ! r) n" if n: "n < ?b"
    proof -
      have lt: "r * ?b + n < 60" using r60 n by simp
      have "bit val (r * ?b + n) \<longleftrightarrow> (\<exists>i < k. i * ?b \<le> r * ?b + n \<and> bit (vs ! i) (r * ?b + n - i * ?b))"
        using blk lt by (auto simp: s8_block_def)
      also have "\<dots> \<longleftrightarrow> bit (vs ! r) n"
        using same n r small by (metis add_diff_cancel_left' le_add1)
      finally show ?thesis .
    qed
    then show "bit (take_bit ?b (drop_bit (r * ?b) val)) n = bit (vs ! r) n"
      using small [OF r] by (auto simp: bit_take_bit_iff bit_drop_bit_eq)
  qed
  then show "s8_unpack val ?b k ! r = take k vs ! r"
    using r kl by (simp add: s8_unpack_def and_mask_nat take_bit_eq_mod del: One_nat_def)
qed

lemma s8_rows_blocks:
  assumes "length vs \<le> fuel" and "\<forall>v \<in> set vs. v < 2 ^ 60"
    and "outPos + length vs = n" and "n < 2 ^ 32" and "n \<le> length st"
  shows "s8_rows wr (s8_blocks fuel vs) n outPos st = Inr (n, write_at outPos (map wr vs) st)"
  using assms
proof (induction fuel vs arbitrary: outPos st rule: s8_blocks.induct)
  case (1 vs)
  then show ?case by (simp add: write_at_def)
next
  case (2 fuel vs)
  show ?case
  proof (cases "vs = []")
    case True
    then show ?thesis using 2(4) by (simp add: write_at_def)
  next
    case False
    obtain c val k where code: "s8_code vs 1 = (val, k)" and blk: "s8_block vs c val k"
      using s8_code_block [OF False 2(3), of 1] by auto
    have k: "k = min (bitLength ! (15 - c)) (length vs)" "1 \<le> k" "k \<le> length vs" "c \<noteq> 0"
      using blk bitLength_fields [of c] False by (auto simp: s8_block_def Suc_le_eq)
    have rem: "nat ((int n - int outPos) mod 2 ^ 32) = length vs" using 2(4,5) by auto
    let ?w = "map wr (take k vs)"
    have len: "outPos + length ?w \<le> length st" using 2(4,6) k by simp
    then have copy: "memcpy_to st (int outPos) ?w = Inr (write_at outPos ?w st)"
      by (simp add: memcpy_to_def)
    have "s8_rows wr (s8_blocks fuel (drop k vs)) n (outPos + k) (write_at outPos ?w st)
        = Inr (n, write_at (outPos + k) (map wr (drop k vs)) (write_at outPos ?w st))"
      using 2(2,3,4,5,6) k len by (intro 2(1) [OF False code [symmetric]]) (auto dest: in_set_dropD)
    moreover have "write_at (outPos + k) (map wr (drop k vs)) (write_at outPos ?w st) = write_at outPos (map wr vs) st"
    proof -
      have "map wr vs = ?w @ map wr (drop k vs)" by (simp flip: map_append)
      moreover have "length ?w = k" using k(3) by simp
      moreover have "outPos + length ?w + length (map wr (drop k vs)) \<le> length st"
        using 2(4,6) k(3) by simp
      ultimately show ?thesis using write_at_adjacent [of outPos ?w "map wr (drop k vs)" st] by metis
    qed
    ultimately show ?thesis
      using False code copy s8_block_code [OF blk] s8_block_unpack [OF blk] rem k
      by (simp add: Let_def)
  qed
qed


lemma s8_escape:
  assumes "2 ^ 60 \<le> v" and "1 \<le> code" and "code \<le> 15"
  shows "s8_code [v] code = (or (push_bit 60 15) v, 1)"
  using assms
proof (induction "15 - code" arbitrary: code)
  case 0
  then show ?case by (subst s8_code.simps) simp
next
  case (Suc d)
  let ?b = "bitLength ! code"
  have c: "code \<le> 14" using Suc.hyps(2) by simp
  have f: "1 \<le> bitLength ! (15 - code)" "bitLength ! (15 - code) * ?b \<le> 60"
    using bitLength_fields [OF Suc.prems(2) c] by auto
  have "1 * ?b \<le> bitLength ! (15 - code) * ?b" by (rule mult_le_mono1 [OF f(1)])
  then have "?b \<le> 60" using f(2) by linarith
  then have "(2 :: nat) ^ ?b \<le> v" using Suc.prems(1) by (meson order_trans power_increasing one_le_numeral)
  then have big: "2 ^ ?b - 1 < v" using less_le_trans [of "2 ^ ?b - 1" "2 ^ ?b" v] by simp
  then have "s8_pack [v] (2 ^ ?b - 1) ?b 1 0 (push_bit 60 code) = (0, push_bit 60 code)"
    by (subst s8_pack.simps) simp
  then have "s8_code [v] code = s8_code [v] (Suc code)"
    using c f by (subst s8_code.simps) (simp add: Let_def min_def)
  also have "\<dots> = (or (push_bit 60 15) v, 1)"
    using Suc.hyps(2) c by (intro Suc.hyps(1)) (use Suc.prems in auto)
  finally show ?case .
qed

section \<open>The dictionary\<close>

lemma dict_compress_step:
  assumes inv: "hs_inv hash t" and w: "length (hs_buckets t) \<le> 2 ^ w"
    and c: "dict_compress w hash x t = Inr (c, t')"
  shows "hs_inv hash t' \<and> length (hs_buckets t') = length (hs_buckets t) \<and> c < length (hs_buckets t)
    \<and> hs_keys t' = (hs_keys t)[c := Some x] \<and> (hs_keys t ! c = None \<or> hs_keys t ! c = Some x)"
proof (cases "hs_find hash x t")
  case (Some i)
  then have "i < length (hs_buckets t)" "hs_keys t ! i = Some x"
    using hs_find_iff [OF inv] by auto
  then show ?thesis using c inv w Some
    by (auto simp: dict_compress_def list_update_same_conv [THEN iffD2])
next
  case None
  then obtain i where i: "hs_insert hash x t = Inr (i, t')" "c = i mod 2 ^ w"
    using c by (auto simp: dict_compress_def elim!: rbind_pairE)
  then show ?thesis
    using hs_insert_correct [OF inv, of x] w length_hs_keys [of t'] by (auto simp: less_le_trans)
qed

lemma dict_compress_all_decodes:
  assumes "hs_inv hash t" and "length (hs_buckets t) \<le> 2 ^ w"
    and "dict_compress_all w hash xs t = Inr (cs, t')"
  shows "hs_inv hash t' \<and> length (hs_buckets t') = length (hs_buckets t)
    \<and> (\<forall>i < length (hs_buckets t). \<forall>k. hs_keys t ! i = Some k \<longrightarrow> hs_keys t' ! i = Some k)
    \<and> list_all2 (\<lambda>c x. c < length (hs_buckets t) \<and> hs_keys t' ! c = Some x) cs xs"
  using assms
proof (induction xs arbitrary: t cs)
  case (Cons x xs)
  then obtain c t1 cs1 where c: "dict_compress w hash x t = Inr (c, t1)"
      "dict_compress_all w hash xs t1 = Inr (cs1, t')" "cs = c # cs1"
    by (auto elim!: rbind_pairE)
  have t1: "hs_inv hash t1" "length (hs_buckets t1) = length (hs_buckets t)" "c < length (hs_buckets t)"
    "hs_keys t1 = (hs_keys t)[c := Some x]" "hs_keys t ! c = None \<or> hs_keys t ! c = Some x"
    using dict_compress_step [OF Cons.prems(1,2) c(1)] by auto
  have keep: "hs_keys t1 ! i = Some k" if "hs_keys t ! i = Some k" "i < length (hs_buckets t)" for i k
    using that t1 by (cases "i = c") auto
  note IH = Cons.IH [OF t1(1) _ c(2)]
  show ?case
    using IH Cons.prems(2) t1 keep c(3) by (auto simp: length_hs_keys)
qed auto

text \<open>A call fails only when every bucket holds another key.\<close>

definition hs_keyset :: "'k HashSet \<Rightarrow> 'k set" where
  "hs_keyset t = {k. Some k \<in> set (hs_keys t)}"

lemma hs_keyset_finite: "finite (hs_keyset t)"
  by (rule finite_subset [of _ "the ` set (hs_keys t)"]) (auto simp: hs_keyset_def intro: image_eqI [of _ _ "Some _"])

lemma hs_keyset_full:
  assumes inv: "hs_inv hash t" and full: "None \<notin> set (hs_keys t)"
  shows "card (hs_keyset t) = length (hs_buckets t)"
proof -
  have some: "\<forall>x \<in> set (hs_keys t). Some (the x) = x"
    using full by (metis not_Some_eq option.sel)
  have keys: "map Some (map the (hs_keys t)) = hs_keys t"
    using some by (simp add: map_idI)
  have "distinct (hs_keys t)"
    unfolding distinct_conv_nth
  proof (intro allI impI)
    fix i j assume i: "i < length (hs_keys t)" and j: "j < length (hs_keys t)" and ij: "i \<noteq> j"
    obtain k where k: "hs_keys t ! i = Some k"
      using some i by (metis nth_mem)
    then show "hs_keys t ! i \<noteq> hs_keys t ! j"
      using layout_inj [of "\<lambda>k. hash k mod length (hs_buckets t)" "hs_keys t" i j k] inv i j ij
      by (auto simp: hs_inv_def)
  qed
  then have "distinct (map the (hs_keys t))" using keys by (metis distinct_map)
  moreover have "hs_keyset t = set (map the (hs_keys t))"
    using some by (force simp: hs_keyset_def)
  ultimately show ?thesis by (simp only: distinct_card length_map length_hs_keys)
qed

lemma dict_compress_all_succeeds:
  assumes "hs_inv hash t" and "length (hs_buckets t) \<le> 2 ^ w"
    and "card (hs_keyset t \<union> set xs) \<le> length (hs_buckets t)"
  shows "\<exists>cs t'. dict_compress_all w hash xs t = Inr (cs, t')"
  using assms
proof (induction xs arbitrary: t)
  case (Cons x xs)
  have "\<exists>c t1. dict_compress w hash x t = Inr (c, t1)"
  proof (rule ccontr)
    assume "\<nexists>c t1. dict_compress w hash x t = Inr (c, t1)"
    then obtain e where e: "hs_insert hash x t = Inl e"
      by (cases "hs_find hash x t"; cases "hs_insert hash x t") (auto simp: dict_compress_def)
    then have full: "None \<notin> set (hs_keys t)" and "x \<notin> hs_keyset t"
      using hs_insert_correct [OF Cons.prems(1), of x] by (auto simp: hs_keyset_def)
    then have "hs_keyset t \<subset> hs_keyset t \<union> set (x # xs)" by auto
    then have "card (hs_keyset t) < card (hs_keyset t \<union> set (x # xs))"
      by (intro psubset_card_mono) (auto simp: hs_keyset_finite)
    then show False using hs_keyset_full [OF Cons.prems(1) full] Cons.prems(3) by simp
  qed
  then obtain c t1 where c: "dict_compress w hash x t = Inr (c, t1)" by blast
  have t1: "hs_inv hash t1" "length (hs_buckets t1) = length (hs_buckets t)" "c < length (hs_buckets t)"
    "hs_keys t1 = (hs_keys t)[c := Some x]"
    using dict_compress_step [OF Cons.prems(1,2) c] by auto
  have "hs_keyset t1 \<union> set xs \<subseteq> hs_keyset t \<union> set (x # xs)"
    using t1(4) set_update_subset_insert [of "hs_keys t" c "Some x"] by (auto simp: hs_keyset_def)
  then have "card (hs_keyset t1 \<union> set xs) \<le> card (hs_keyset t \<union> set (x # xs))"
    by (intro card_mono) (auto simp: hs_keyset_finite)
  then have "\<exists>cs t'. dict_compress_all w hash xs t1 = Inr (cs, t')"
    using Cons.IH [OF t1(1)] Cons.prems(2,3) t1(2) by simp
  then show ?case using c by auto
qed simp


section \<open>Properties\<close>

lemma length_s8_blocks: "length (s8_blocks fuel vs) \<le> fuel"
  by (induction fuel vs rule: s8_blocks.induct) (auto split: prod.splits)

lemma s8_roundtrip_rows:
  assumes "n \<le> length st" and "n \<le> length buf" and "n \<le> length out" and "n < 2 ^ 32"
    and small: "\<forall>x \<in> set (take n st). rd x < 2 ^ 60"
  shows "\<exists>m buf'. s8_compress rd 0 0 n st buf = Inr (m, buf') \<and> m \<le> n
    \<and> s8_decompress wr m 0 n out buf' = Inr (n, map (wr \<circ> rd) (take n st) @ drop n out)"
proof -
  let ?vs = "map rd (take n st)"
  let ?ws = "s8_blocks n ?vs"
  have l: "length ?ws \<le> n" by (rule length_s8_blocks)
  have "s8_compress rd 0 0 n st buf = Inr (length ?ws, write_at 0 ?ws buf)"
    using assms(1,2) l by (simp add: s8_compress_def Let_def memcpy_to_def)
  moreover have "take (length ?ws) (write_at 0 ?ws buf) = ?ws" by (simp add: write_at_def)
  moreover have "s8_rows wr ?ws n 0 out = Inr (n, write_at 0 (map wr ?vs) out)"
    using assms by (intro s8_rows_blocks) auto
  moreover have "length ?ws \<le> length (write_at 0 ?ws buf)" by (simp add: write_at_def)
  ultimately show ?thesis
    using l assms(1) by (auto simp: s8_decompress_def write_at_def)
qed

text \<open>
  C33. Simple8b round trip: for any \<open>n\<close> values below \<open>2 ^ 60\<close>, \<open>compress\<close> returns with at most
  \<open>n\<close> blocks, and \<open>decompress\<close> of these blocks writes back exactly the \<open>n\<close> values and nothing
  behind them.
\<close>

theorem simple8_roundtrip:
  assumes "n \<le> length st" and "n \<le> length buf" and "n \<le> length out" and "n < 2 ^ 32"
    and "\<forall>x \<in> set (take n st). 0 \<le> x \<and> x < 2 ^ 60"
  shows "\<exists>m buf'. s8_compress_plain 1 0 0 n st buf = Inr (m, buf') \<and> m \<le> n
    \<and> s8_decompress_plain m 0 n out buf' = Inr (n, take n st @ drop n out)"
proof -
  let ?rd = "\<lambda>x :: int. nat ((x sdiv 1) mod 2 ^ 64)"
  have rd: "?rd x < 2 ^ 60 \<and> int (?rd x) = x" if "x \<in> set (take n st)" for x
    using assms(5) that by (auto simp: sdiv_nonneg)
  then have "map (int \<circ> ?rd) (take n st) = take n st" by (intro map_idI) (metis comp_apply)
  moreover have small: "\<forall>x \<in> set (take n st). ?rd x < 2 ^ 60" using rd by blast
  ultimately show ?thesis
    using s8_roundtrip_rows [OF assms(1-4) small, of int]
    unfolding s8_compress_plain_def s8_decompress_plain_def by simp
qed

theorem simple8_roundtrip_witness:
  "\<exists>m buf'. s8_compress_plain 1 0 0 3 [5, 1000, 2 ^ 59] [0, 0, 0] = Inr (m, buf')
    \<and> s8_decompress_plain m 0 3 [0, 0, 0, 8] buf' = Inr (3, [5, 1000, 2 ^ 59, 8])"
  using simple8_roundtrip [of 3 "[5, 1000, 2 ^ 59]" "[0, 0, 0]" "[0, 0, 0, 8]"] by auto

text \<open>
  With a divider on compression and the same multiplier on decompression the round trip
  rounds every non-negative value down to a multiple of the divider.
\<close>

theorem simple8_divided_roundtrip:
  assumes "n \<le> length st" and "n \<le> length buf" and "n \<le> length out" and "n < 2 ^ 32"
    and "0 < d" and "\<forall>x \<in> set (take n st). 0 \<le> x \<and> x < 2 ^ 60"
  shows "\<exists>m buf'. s8_compress_divided d 1 0 0 n st buf = Inr (m, buf')
    \<and> s8_decompress_multiplied d m 0 n out buf' = Inr (n, map (\<lambda>x. x - x mod d) (take n st) @ drop n out)"
proof -
  let ?rd = "\<lambda>x :: int. nat ((x sdiv d sdiv 1) mod 2 ^ 64)"
  have rd: "?rd x < 2 ^ 60 \<and> int (?rd x) * d = x - x mod d" if "x \<in> set (take n st)" for x
  proof -
    have x: "0 \<le> x" "x < 2 ^ 60" using assms(6) that by auto
    moreover have "x div d \<le> x" using zdiv_mono2 [of x 1 d] x(1) assms(5) by simp
    ultimately have "x sdiv d sdiv 1 = x div d" "0 \<le> x div d" "x div d < 2 ^ 60"
      using assms(5) by (simp_all add: sdiv_nonneg pos_imp_zdiv_nonneg_iff)
    then show ?thesis by (simp add: minus_mod_eq_div_mult)
  qed
  then have "map ((\<lambda>v. int v * d) \<circ> ?rd) (take n st) = map (\<lambda>x. x - x mod d) (take n st)" by simp
  then show ?thesis
    using s8_roundtrip_rows [OF assms(1-4), of ?rd "\<lambda>v. int v * d"] rd assms(5)
    unfolding s8_compress_divided_def s8_decompress_multiplied_def by auto
qed

theorem simple8_divided_roundtrip_witness:
  "\<exists>m buf'. s8_compress_divided 10 1 0 0 2 [57, 1009] [0, 0] = Inr (m, buf')
    \<and> s8_decompress_multiplied 10 m 0 2 [0, 0] buf' = Inr (2, [50, 1000])"
  using simple8_divided_roundtrip [of 2 "[57, 1009]" "[0, 0]" "[0, 0]" 10] by simp

text \<open>
  A value of \<open>2 ^ 60\<close> or more is not packable and falls through to the escape code, which
  has room for 32 bits on decompression: the value \<open>2 ^ 60\<close> is read back as 0.
\<close>

theorem simple8_large_lost:
  "s8_compress_plain 1 0 0 1 [2 ^ 60] [0] = Inr (1, [15 * 2 ^ 60])
   \<and> s8_decompress_plain 1 0 1 [7] [15 * 2 ^ 60] = Inr (1, [0])"
proof
  have or: "or (push_bit 60 15) (2 ^ 60) = (15 * 2 ^ 60 :: nat)"
  proof -
    have "or (push_bit 60 15) (push_bit 60 1) = (push_bit 60 (or 15 1) :: nat)"
      by (simp only: push_bit_or)
    then show ?thesis by (simp add: push_bit_eq_mult)
  qed
  show "s8_compress_plain 1 0 0 1 [2 ^ 60] [0] = Inr (1, [15 * 2 ^ 60])"
    using s8_escape [of "2 ^ 60" 1] or
    by (simp add: s8_compress_plain_def s8_compress_def Let_def memcpy_to_def write_at_def)
  show "s8_decompress_plain 1 0 1 [7] [15 * 2 ^ 60] = Inr (1, [0])"
    by (simp add: s8_decompress_plain_def s8_decompress_def s8_unpack_def bitLength_def drop_bit_eq_div
        memcpy_to_def write_at_def Let_def and_mask_nat [of _ 32, simplified])
qed


text \<open>Zigzag decoding inverts zigzag encoding on every 64-bit value.\<close>

theorem zigzag_roundtrip: "zz_decode (zz_encode i) = i"
  by (rule zz_decode_encode)

text \<open>
  Variable byte coding: for every 64-bit input and a buffer with ten free bytes the encoder
  returns, uses at most ten bytes, leaves the bytes before the write position alone, and a reader
  of the format gets the input back.
\<close>

theorem varbyte_roundtrip:
  assumes "x < 2 ^ 64" and "pos + 10 \<le> length buf"
  shows "\<exists>pos' buf'. varbyte_compress x buf pos = Inr (pos', buf') \<and> pos' \<le> pos + 10
    \<and> take pos buf' = take pos buf \<and> fst (varbyte_decode (drop pos buf')) = x"
proof -
  let ?bs = "varbyte_bytes x"
  have "x < 128 ^ Suc 9" by (rule less_le_trans [OF assms(1)]) simp
  then have l: "length ?bs \<le> 10" using length_varbyte_bytes [of x 9] by simp
  then have "varbyte_compress x buf pos = Inr (pos + length ?bs, write_at pos ?bs buf)"
    using assms(2) by (simp add: varbyte_compress_def memcpy_to_def)
  moreover have "drop pos (write_at pos ?bs buf) = ?bs @ drop (pos + length ?bs) buf"
    "take pos (write_at pos ?bs buf) = take pos buf"
    using assms(2) by (simp_all add: write_at_def)
  ultimately show ?thesis using l varbyte_decode_bytes [of x] by simp
qed

theorem varbyte_roundtrip_witness:
  "\<exists>pos' buf'. varbyte_compress 300 (replicate 12 0) 2 = Inr (pos', buf') \<and> pos' \<le> 12
    \<and> fst (varbyte_decode (drop 2 buf')) = 300"
  using varbyte_roundtrip [of 300 2 "replicate 12 0"] by auto

text \<open>
  C34. The dictionary is lossless: compress a sequence of values with at most as many distinct
  values as the table has buckets, into codes wide enough for a bucket index. Every call returns,
  and each code is the index of the bucket that holds its value in the final table, so the table
  decodes the whole sequence.
\<close>

theorem dictionary_lossless:
  assumes "newHashSet mem n = Inr t" and "length mem = n" and "n \<le> 2 ^ w" and "card (set xs) \<le> n"
  shows "\<exists>cs t'. dict_compress_all w hash xs t = Inr (cs, t')
    \<and> map (\<lambda>c. sb_key (hs_buckets t' ! c)) cs = xs"
proof -
  have t: "hs_inv hash t" "hs_keys t = replicate n None" "length (hs_buckets t) = n"
    using newHashSet_inv [OF assms(1,2), of hash] by auto
  then have "hs_keyset t = {}" by (auto simp: hs_keyset_def)
  then obtain cs t' where r: "dict_compress_all w hash xs t = Inr (cs, t')"
    using dict_compress_all_succeeds [OF t(1), of w xs] t(3) assms(3,4) by auto
  have "list_all2 (\<lambda>c x. c < n \<and> hs_keys t' ! c = Some x) cs xs" "length (hs_buckets t') = n"
    using dict_compress_all_decodes [OF t(1) _ r] t(3) assms(3) by auto
  then have "list_all2 (\<lambda>c x. sb_key (hs_buckets t' ! c) = x) cs xs"
    by (auto elim!: list_all2_mono simp: nth_hs_keys split: if_splits)
  then have "map (\<lambda>c. sb_key (hs_buckets t' ! c)) cs = xs"
    by (simp add: list_all2_conv_all_nth list_eq_iff_nth_eq)
  then show ?thesis using r by blast
qed

theorem dictionary_lossless_witness:
  "\<exists>t cs t'. newHashSet (replicate 4 \<lparr>sb_state = 1, sb_key = 5 :: nat\<rparr>) 4 = Inr t
    \<and> dict_compress_all 8 id [5, 9, 5, 6] t = Inr (cs, t')
    \<and> map (\<lambda>c. sb_key (hs_buckets t' ! c)) cs = [5, 9, 5, 6]"
proof -
  have "isPowerOfTwoSize 4" by (auto simp: isPowerOfTwoSize_iff intro: exI [of _ 2])
  then obtain t where t: "newHashSet (replicate 4 \<lparr>sb_state = 1, sb_key = 5 :: nat\<rparr>) 4 = Inr t"
    by (simp add: newHashSet_def)
  have "card (set [5, 9, 5, 6 :: nat]) \<le> 4" by (simp add: card_insert_if)
  then show ?thesis using t dictionary_lossless [OF t, of 8 "[5, 9, 5, 6]" id] by auto
qed

section \<open>Gorilla headers\<close>

lemma uint_zz_encode:
  "uint (zz_encode i) = (if 0 \<le> sint i then 2 * sint i else - 2 * sint i - 1)"
proof -
  have r: "- (2 ^ 63) \<le> sint i" "sint i < 2 ^ 63"
    using sint_greater_eq [of i] sint_less [of i] by simp_all
  have p: "push_bit 1 i = word_of_int (2 * sint i)"
    by (simp add: push_bit_eq_mult mult.commute)
  have s: "signed_drop_bit 63 i = (word_of_int (sint i div 2 ^ 63) :: 64 word)"
  proof -
    have "sint (signed_drop_bit 63 i) = sint i div 2 ^ 63"
      by (simp only: sint_signed_drop_bit_eq drop_bit_eq_div)
    then have "word_of_int (sint (signed_drop_bit 63 i)) = (word_of_int (sint i div 2 ^ 63) :: 64 word)"
      by (simp only:)
    then show ?thesis by (simp add: of_int_sint)
  qed
  show ?thesis
  proof (cases "0 \<le> sint i")
    case True
    then have "sint i div 2 ^ 63 = 0" using r by simp
    then have "zz_encode i = word_of_int (2 * sint i)" unfolding zz_encode_def p s by simp
    moreover have "uint (word_of_int (2 * sint i) :: 64 word) = 2 * sint i"
      unfolding uint_word_of_int using True r by simp
    ultimately show ?thesis using True by simp
  next
    case False
    then have "sint i div 2 ^ 63 = -1" using r by (intro int_div_pos_eq [of _ _ "-1" "sint i + 2 ^ 63"]) auto
    then have "zz_encode i = NOT (word_of_int (2 * sint i))" unfolding zz_encode_def p s by simp
    also have "\<dots> = word_of_int (- 2 * sint i - 1)" by (simp add: not_eq_complement)
    finally have "zz_encode i = word_of_int (- 2 * sint i - 1)" .
    moreover have "uint (word_of_int (- 2 * sint i - 1) :: 64 word) = - 2 * sint i - 1"
      unfolding uint_word_of_int using False r by simp
    ultimately show ?thesis using False by simp
  qed
qed


text \<open>A field of \<open>k\<close> bits below a prefix.\<close>

lemma prefix_field:
  fixes z p :: "64 word"
  assumes "uint z < 2 ^ k" and "uint p < 2 ^ (64 - k)" and "k \<le> 64"
  shows "drop_bit k (z OR push_bit k p) = p" and "take_bit k (z OR push_bit k p) = z"
proof -
  have field: "n < m" if "uint w < 2 ^ m" "bit w n" for w :: "64 word" and m n
  proof -
    have "take_bit m (uint w) = uint w" using that(1) by (simp add: take_bit_int_eq_self)
    moreover have "bit (uint w) n" using that(2) bit_imp_le_length [OF that(2)] by (simp add: bit_uint_iff)
    ultimately show ?thesis by (metis bit_take_bit_iff)
  qed
  have z: "\<not> bit z n" if "k \<le> n" for n using field [OF assms(1), of n] that by linarith
  have p: "n < 64 - k" if "bit p n" for n using field [OF assms(2) that] .
  show "drop_bit k (z OR push_bit k p) = p"
    using z p by (intro bit_word_eqI) (force simp: bit_drop_bit_eq bit_or_iff bit_push_bit_iff)
  show "take_bit k (z OR push_bit k p) = z"
    using z by (intro bit_word_eqI) (auto simp: bit_take_bit_iff bit_or_iff bit_push_bit_iff not_less)
qed

text \<open>
  The prefix and payload width of an encoded delta of deltas, by its length: prefixes
  \<open>10\<close>, \<open>110\<close> and \<open>1110\<close>.
\<close>

definition gorilla_class :: "int \<Rightarrow> 64 word \<times> nat" where
  "gorilla_class len = (if len = 9 then (2, 7) else if len = 12 then (6, 9) else (14, 12))"

text \<open>
  For deltas of deltas between -2046 and 2047 other than 0 and 64 the encoded timestamp is
  well formed: its upper bits are the prefix that belongs to its length, and zigzag decoding the
  payload below the prefix gives the delta of deltas back.
\<close>

theorem gorilla_timestamp_decodes:
  assumes "gorilla_timestamp t p q = (v, len)" and "d = (t - p) - (p - q)"
    and "sint d \<noteq> 0" and "sint d \<noteq> 64" and "-2047 < sint d" and "sint d < 2048"
    and "gorilla_class len = (prefix, k)"
  shows "drop_bit k v = prefix \<and> zz_decode (take_bit k v) = d"
proof -
  have u: "uint (zz_encode d) = (if 0 \<le> sint d then 2 * sint d else - 2 * sint d - 1)"
    by (rule uint_zz_encode)
  consider "-64 < sint d" "sint d < 64" "v = zz_encode d OR push_bit 7 2" "len = 9"
    | "-255 < sint d" "sint d < 256" "v = zz_encode d OR push_bit 9 6" "len = 12"
    | "v = zz_encode d OR push_bit 12 14" "len = 16"
    using assms(1,3-6) unfolding gorilla_timestamp_def Let_def assms(2) [symmetric]
    by (simp only: split: if_splits) auto
  then show ?thesis
  proof cases
    case 1
    then have "uint (zz_encode d) < 2 ^ 7" using u by (auto split: if_splits)
    then show ?thesis
      using prefix_field [of "zz_encode d" 7 2] 1 assms(7) by (auto simp: gorilla_class_def zz_decode_encode)
  next
    case 2
    then have "uint (zz_encode d) < 2 ^ 9" using u by (auto split: if_splits)
    then show ?thesis
      using prefix_field [of "zz_encode d" 9 6] 2 assms(7) by (auto simp: gorilla_class_def zz_decode_encode)
  next
    case 3
    then have "uint (zz_encode d) < 2 ^ 12" using u assms(5,6) by (auto split: if_splits)
    then show ?thesis
      using prefix_field [of "zz_encode d" 12 14] 3 assms(7) by (auto simp: gorilla_class_def zz_decode_encode)
  qed
qed

theorem gorilla_timestamp_decodes_witness:
  "drop_bit 7 (fst (gorilla_timestamp 1005 1000 998)) = 2
   \<and> zz_decode (take_bit 7 (fst (gorilla_timestamp 1005 1000 998))) = 3"
proof -
  have "gorilla_timestamp 1005 1000 998 = (fst (gorilla_timestamp 1005 1000 998), 9)"
    by (simp add: gorilla_timestamp_def Let_def)
  from gorilla_timestamp_decodes [OF this, of 3 2 7] show ?thesis
    by (simp add: gorilla_class_def)
qed

text \<open>
  The range of the first class is one too large: the delta of deltas 64 has the zigzag code
  128, which does not fit into seven bits, so its upper bits read \<open>11\<close> where the class has
  the prefix \<open>10\<close>, and the payload below reads 0.
\<close>

theorem gorilla_timestamp_64:
  "gorilla_timestamp 1064 1000 1000 = (384, 9) \<and> drop_bit 7 (384 :: 64 word) = 3
   \<and> zz_decode (take_bit 7 384) = 0"
proof -
  have "uint (zz_encode 64) = 128" using uint_zz_encode [of 64] by simp
  then have "zz_encode 64 = 128" by (metis word_of_int_uint of_int_numeral)
  then show ?thesis by (simp add: gorilla_timestamp_def Let_def zz_decode_def push_bit_eq_mult)
qed

text \<open>
  The value encoder is not injective: for every XOR value with its two lowest bits and its
  highest bit set, clearing the lowest bit gives a different XOR value with the same encoding.
\<close>

theorem gorilla_value_lossy:
  assumes "bit x 63" and "bit x 0" and "bit x 1"
  shows "x - 1 \<noteq> x \<and> gorilla_value (x - 1) pl pt = gorilla_value x pl pt"
proof -
  define y where "y = push_bit 1 (drop_bit 1 x)"
  have yb: "bit y n \<longleftrightarrow> n \<noteq> 0 \<and> bit x n" for n
    unfolding y_def bit_push_bit_iff bit_drop_bit_eq by (cases n) (auto dest: bit_imp_le_length)
  have odd: "odd x" using assms(2) by (simp add: bit_0)
  have xy: "x - 1 = y"
  proof -
    have "x = x div 2 * 2 + 1" using odd by (metis div_mult_mod_eq odd_iff_mod_2_eq_one)
    then have "x - 1 = x div 2 * 2" by (metis add_diff_cancel_right')
    then show ?thesis by (simp add: y_def push_bit_eq_mult drop_bit_eq_div)
  qed
  have up: "rev [0..<64] = 63 # rev [0..<63]" "[0..<64] = 0 # 1 # [2..<64]"
    by (simp_all add: upt_rec numeral_eq_Suc)
  have c: "clz x = 0" "clz y = 0" "ctz x = 0" "ctz y = 1"
    using assms yb unfolding clz_def ctz_def up by simp_all
  have "y \<noteq> 0" "x \<noteq> 0" using yb [of 63] assms(1) by auto
  moreover have "push_bit 1 (drop_bit 1 x) = y" by (simp only: y_def)
  moreover have "x - 1 \<noteq> x" by simp
  ultimately show ?thesis
    unfolding xy gorilla_value_def Let_def using c by (simp del: push_bit_Suc_numeral cong: if_cong)
qed

theorem gorilla_value_lossy_witness:
  "gorilla_value (2 ^ 63 + 2) 5 5 = gorilla_value (2 ^ 63 + 3) 5 5"
  using gorilla_value_lossy [of "2 ^ 63 + 3" 5 5] by (simp add: bit_simps)

end
