(* ===== verification/Schemas.thy ===== *)
theory Schemas
  imports Prelude
begin

text \<open>
  Tuple schemas (\<open>utils/TupleSchema.h\<close>, the widths of \<open>utils/AttributeType.h\<close>) and the schemas of
  operators (\<open>cql/expressions/Expression.cpp\<close>). A schema keeps the size of its tuples and the padding
  to the next power of two once they have been asked for. An attribute is its name and basic type; the
  bounds of an attribute type are not read by the engine.
\<close>

section \<open>Basic types\<close>

datatype BasicType = Integer | Long | StringType | Float | Double | CharType | Date | LongLong

definition BasicReferenceType :: BasicType where
  "BasicReferenceType = Integer"

primrec getWidth :: "BasicType \<Rightarrow> int" where
  "getWidth LongLong = 16"
| "getWidth Long = 8"
| "getWidth Float = 4"
| "getWidth CharType = 1"
| "getWidth Date = 4"
| "getWidth StringType = 8"
| "getWidth Double = 8"
| "getWidth Integer = 4"

definition getBitWidth :: "BasicType \<Rightarrow> int" where
  "getBitWidth t = getWidth t * 8"

text \<open>The static variant looks the type up in a table without strings and dates.\<close>

primrec getStaticWidth :: "BasicType \<Rightarrow> int res" where
  "getStaticWidth LongLong = Inr 16"
| "getStaticWidth Long = Inr 8"
| "getStaticWidth Float = Inr 4"
| "getStaticWidth CharType = Inr 1"
| "getStaticWidth Date = Inl OutOfRange"
| "getStaticWidth StringType = Inl OutOfRange"
| "getStaticWidth Double = Inr 8"
| "getStaticWidth Integer = Inr 4"

definition hasFixedPoint :: "BasicType \<Rightarrow> bool" where
  "hasFixedPoint t \<longleftrightarrow> t = Integer \<or> t = Long"

definition hasFloatingPoint :: "BasicType \<Rightarrow> bool" where
  "hasFloatingPoint t \<longleftrightarrow> t = Double \<or> t = Float"

section \<open>Decimal numbers\<close>

text \<open>\<open>std::to_string\<close> on integers.\<close>

fun digits :: "nat \<Rightarrow> string" where
  "digits n = (if n < 10 then [char_of (48 + n)] else digits (n div 10) @ [char_of (48 + n mod 10)])"

declare digits.simps [simp del]

definition to_string :: "int \<Rightarrow> string" where
  "to_string i = (if i < 0 then CHR ''-'' # digits (nat (- i)) else digits (nat i))"

section \<open>Schemas\<close>

record TupleSchema =
  ts_attributes :: "(string \<times> BasicType) list"
  ts_name :: string
  ts_size :: int
  ts_hasTimestamp :: bool
  ts_tupleSize :: int
  ts_padLength :: int

definition newTupleSchema :: "int \<Rightarrow> string \<Rightarrow> bool \<Rightarrow> TupleSchema res" where
  "newTupleSchema n name hasTime =
     (if n < 0 then Inl LengthError
      else Inr \<lparr>ts_attributes = map (\<lambda>i. (''atr_'' @ to_string i, BasicReferenceType)) [0..n - 1], ts_name = name,
             ts_size = n, ts_hasTimestamp = hasTime, ts_tupleSize = 0, ts_padLength = -1\<rparr>)"

definition setAttributeType :: "int \<Rightarrow> BasicType \<Rightarrow> TupleSchema \<Rightarrow> TupleSchema res" where
  "setAttributeType idx t s =
     rbind (vget (ts_attributes s) idx) (\<lambda>(n, _).
     rbind (vset (ts_attributes s) idx (n, t)) (\<lambda>as. Inr (s\<lparr>ts_attributes := as\<rparr>)))"

definition getAttributeType :: "TupleSchema \<Rightarrow> int \<Rightarrow> BasicType res" where
  "getAttributeType s idx = rbind (vget (ts_attributes s) idx) (\<lambda>(_, t). Inr t)"

definition setAttributeName :: "int \<Rightarrow> string \<Rightarrow> TupleSchema \<Rightarrow> TupleSchema res" where
  "setAttributeName idx n s =
     rbind (vget (ts_attributes s) idx) (\<lambda>(_, t).
     rbind (vset (ts_attributes s) idx (n, t)) (\<lambda>as. Inr (s\<lparr>ts_attributes := as\<rparr>)))"

definition getAttributeName :: "TupleSchema \<Rightarrow> int \<Rightarrow> string res" where
  "getAttributeName s idx = rbind (vget (ts_attributes s) idx) (\<lambda>(n, _). Inr n)"

definition setSchemaName :: "string \<Rightarrow> TupleSchema \<Rightarrow> TupleSchema" where
  "setSchemaName n s = s\<lparr>ts_name := n\<rparr>"

text \<open>The printed form; \<open>toSExpr\<close> of an attribute type is the empty string.\<close>

definition getSchema :: "TupleSchema \<Rightarrow> string res" where
  "getSchema s =
     rbind (rfold (\<lambda>i acc. rbind (vget (ts_attributes s) i) (\<lambda>(n, _). Inr (acc @ n @ '', '' @ [CHR 0x0A])))
              [0..ts_size s - 1] (ts_name s @ ''('' @ [CHR 0x0A]))
       (\<lambda>str. Inr (str @ '')''))"

definition getTupleSize :: "TupleSchema \<Rightarrow> (int \<times> TupleSchema) res" where
  "getTupleSize s =
     (if ts_tupleSize s = 0
      then rbind (rfold (\<lambda>i acc. rbind (getAttributeType s i) (\<lambda>t. Inr (acc + getWidth t))) [0..ts_size s - 1] 0)
             (\<lambda>n. Inr (n, s\<lparr>ts_tupleSize := n\<rparr>))
      else Inr (ts_tupleSize s, s))"

text \<open>The power of two is an \<open>int\<close>, whose overflow is undefined.\<close>

function growPow2 :: "int \<Rightarrow> int \<Rightarrow> int res" where
  "growPow2 tupleSize pow2 =
     (if tupleSize > pow2 \<and> 0 < pow2
      then (if pow2 * 2 > INT_MAX then Inl Undefined else growPow2 tupleSize (pow2 * 2)) else Inr pow2)"
  by pat_completeness auto
termination
  by (relation "measure (\<lambda>(t, p). nat (t - p))") auto

declare growPow2.simps [simp del]

definition getPadLength :: "TupleSchema \<Rightarrow> (int \<times> TupleSchema) res" where
  "getPadLength s =
     (if ts_padLength s = -1
      then rbind (getTupleSize s) (\<lambda>(tupleSize, s).
             if tupleSize AND (tupleSize - 1) \<noteq> 0
             then rbind (growPow2 tupleSize 1) (\<lambda>p. Inr (p - tupleSize, s\<lparr>ts_padLength := p - tupleSize\<rparr>))
             else Inr (0, s\<lparr>ts_padLength := 0\<rparr>))
      else Inr (ts_padLength s, s))"

section \<open>Schemas of operators\<close>

text \<open>The types \<open>setAttributeType\<close> is called for; an attribute of another type keeps the default.\<close>

definition copiedType :: "BasicType \<Rightarrow> bool" where
  "copiedType t \<longleftrightarrow> t = Integer \<or> t = Float \<or> t = Long \<or> t = LongLong"

definition getTupleSchemaFromTypes :: "BasicType list \<Rightarrow> string \<Rightarrow> TupleSchema res" where
  "getTupleSchemaFromTypes ts name =
     rbind (newTupleSchema (int (length ts)) name True) (\<lambda>s.
     rbind (rfold (\<lambda>t (idx, s).
              if copiedType t then rbind (setAttributeType idx t s) (\<lambda>s. Inr (idx + 1, s)) else Inr (idx + 1, s))
            ts (0, s)) (\<lambda>(_, s). Inr s))"

definition copyTypes :: "TupleSchema \<Rightarrow> int \<times> TupleSchema \<Rightarrow> (int \<times> TupleSchema) res" where
  "copyTypes x = rfold (\<lambda>i (idx, s).
     rbind (getAttributeType x i) (\<lambda>t. rbind (setAttributeType idx t s) (\<lambda>s. Inr (idx + 1, s)))) [0..ts_size x - 1]"

definition mergeTupleSchemas :: "TupleSchema \<Rightarrow> TupleSchema \<Rightarrow> TupleSchema res" where
  "mergeTupleSchemas x y =
     rbind (newTupleSchema (ts_size x + ts_size y) ''MergedSchema'' True) (\<lambda>s.
     rbind (copyTypes x (0, s)) (\<lambda>r. rbind (copyTypes y r) (\<lambda>(_, s). Inr s)))"

section \<open>Sizes and padding\<close>

text \<open>A schema whose kept sizes, where present, belong to its attributes.\<close>

definition types_of :: "TupleSchema \<Rightarrow> BasicType list" where
  "types_of s = map snd (ts_attributes s)"

definition width_of :: "TupleSchema \<Rightarrow> int" where
  "width_of s = sum_list (map getWidth (types_of s))"

definition schema_ok :: "TupleSchema \<Rightarrow> bool" where
  "schema_ok s \<longleftrightarrow> ts_size s = int (length (ts_attributes s)) \<and> ts_tupleSize s \<in> {0, width_of s}
     \<and> (ts_padLength s = -1 \<or> 0 \<le> ts_padLength s
          \<and> (0 < width_of s \<longrightarrow> (\<exists>k. width_of s + ts_padLength s = 2 ^ k) \<and> ts_padLength s < width_of s))"

lemma getWidth_pos: "0 < getWidth t"
  by (cases t) simp_all

lemma rfold_indices:
  assumes "\<And>i acc. i < length xs \<Longrightarrow> f (int i) acc = Inr (g (xs ! i) acc)"
  shows "rfold f [0..int (length xs) - 1] acc = Inr (fold g xs acc)"
  using assms
proof (induction xs rule: rev_induct)
  case (snoc x xs)
  have "rfold f [0..int (length xs) - 1] acc = Inr (fold g xs acc)"
    using snoc.prems by (intro snoc.IH) (metis butlast_snoc length_append_singleton less_SucI nth_butlast)
  moreover have "[0..int (length (xs @ [x])) - 1] = [0..int (length xs) - 1] @ [int (length xs)]"
    by (simp add: upto_rec2)
  moreover have "f (int (length xs)) (fold g xs acc) = Inr (g x (fold g xs acc))"
    using snoc.prems [of "length xs"] by simp
  ultimately show ?case by (simp add: rfold_append)
qed simp

lemma getAttributeType_nth:
  "i < length (ts_attributes s) \<Longrightarrow> getAttributeType s (int i) = Inr (types_of s ! i)"
  by (simp add: getAttributeType_def vget_def types_of_def split: prod.split)

lemma getTupleSize_ok:
  assumes "schema_ok s"
  shows "getTupleSize s = Inr (width_of s, s\<lparr>ts_tupleSize := width_of s\<rparr>)"
proof (cases "ts_tupleSize s = 0")
  case True
  have "rfold (\<lambda>i acc. rbind (getAttributeType s i) (\<lambda>t. Inr (acc + getWidth t))) [0..int (length (types_of s)) - 1] 0
      = Inr (fold (\<lambda>t acc. acc + getWidth t) (types_of s) 0)"
    by (rule rfold_indices) (simp add: getAttributeType_nth types_of_def)
  moreover have "fold (\<lambda>t acc. acc + getWidth t) ts a = a + sum_list (map getWidth ts)" for ts a
    by (induction ts arbitrary: a) simp_all
  ultimately show ?thesis using True assms
    by (simp add: getTupleSize_def schema_ok_def width_of_def types_of_def)
qed (use assms in \<open>auto simp: getTupleSize_def schema_ok_def\<close>)

lemma getTupleSize_preserves: "schema_ok s \<Longrightarrow> schema_ok (s\<lparr>ts_tupleSize := width_of s\<rparr>)"
  by (simp add: schema_ok_def width_of_def types_of_def)

lemma width_of_cached [simp]: "width_of (s\<lparr>ts_tupleSize := n\<rparr>) = width_of s" "width_of (s\<lparr>ts_padLength := n\<rparr>) = width_of s"
  by (simp_all add: width_of_def types_of_def)

lemma growPow2_least:
  "n \<le> 2 ^ 30 \<Longrightarrow> 2 ^ k < 2 * n \<Longrightarrow> \<exists>j. growPow2 n (2 ^ k) = Inr (2 ^ j) \<and> n \<le> 2 ^ j \<and> 2 ^ j < 2 * n"
proof (induction n "2 ^ k :: int" arbitrary: k rule: growPow2.induct)
  case (1 n)
  show ?case
  proof (cases "2 ^ k < n")
    case True
    then have "(2 :: int) ^ k < 2 ^ 30" using "1.prems"(1) by (rule less_le_trans)
    then have "k < 30" by (rule power_less_imp_less_exp [rotated]) simp
    then have "(2 :: int) ^ Suc k \<le> 2 ^ 30" by (intro power_increasing) auto
    then have l: "\<not> (2 :: int) ^ k * 2 > INT_MAX" by (simp add: INT_MAX_def)
    have "\<exists>j. growPow2 n (2 ^ Suc k) = Inr (2 ^ j) \<and> n \<le> 2 ^ j \<and> 2 ^ j < 2 * n"
      using "1.hyps" [of "Suc k"] "1.prems" True l by (simp add: mult.commute)
    then show ?thesis using True l by (subst growPow2.simps) (simp add: mult.commute)
  next
    case False
    then show ?thesis using "1.prems" by (subst growPow2.simps) (auto intro: exI [of _ k])
  qed
qed

lemma and_pred_zero: "0 < n \<Longrightarrow> and n (n - 1) = 0 \<Longrightarrow> \<exists>k. n = 2 ^ k" for n :: int
proof (induction "nat n" arbitrary: n rule: less_induct)
  case less
  show ?case
  proof (cases "even n")
    case True
    then obtain m where m: "n = 2 * m" by blast
    have "(2 * m - 1) div 2 = m - 1" by presburger
    then have "and n (n - 1) = 2 * and m (m - 1)" by (subst and_rec) (simp add: m)
    then have "\<exists>k. m = 2 ^ k" using less m by (intro less.hyps) auto
    then show ?thesis using m by (auto intro: exI [of _ "Suc _"])
  next
    case False
    then obtain m where m: "n = 2 * m + 1" by (auto elim: oddE)
    have "and n (n - 1) = 2 * m" by (subst and_rec) (simp add: m)
    then show ?thesis using less.prems m by (auto intro: exI [of _ 0])
  qed
qed

text \<open>
  The padding of a schema brings the size of its tuples to the least power of two that holds them,
  and asking for it keeps the schema well-formed.
\<close>

theorem padding_reaches_power_of_two:
  assumes "schema_ok s" and "0 < width_of s" "width_of s \<le> 2 ^ 30"
  shows "\<exists>p s' k. getPadLength s = Inr (p, s') \<and> 0 \<le> p \<and> width_of s + p = 2 ^ k \<and> p < width_of s
    \<and> types_of s' = types_of s \<and> schema_ok s'"
proof (cases "ts_padLength s = -1")
  case False
  then have "getPadLength s = Inr (ts_padLength s, s)" by (simp add: getPadLength_def)
  then show ?thesis using assms False unfolding schema_ok_def by blast
next
  case True
  let ?w = "width_of s" and ?s = "s\<lparr>ts_tupleSize := width_of s\<rparr>"
  have ok: "schema_ok (?s\<lparr>ts_padLength := p\<rparr>)" if "0 \<le> p" "?w + p = 2 ^ k" "p < ?w" for p k
    using that assms(1) by (auto simp: schema_ok_def types_of_def)
  show ?thesis
  proof (cases "and ?w (?w - 1) = 0")
    case c: True
    then have "getPadLength s = Inr (0, ?s\<lparr>ts_padLength := 0\<rparr>)"
      using True getTupleSize_ok [OF assms(1)] by (simp add: getPadLength_def)
    then show ?thesis using and_pred_zero [OF assms(2) c] ok [of 0] assms(2) by (auto simp: types_of_def)
  next
    case c: False
    obtain j where j: "growPow2 ?w 1 = Inr (2 ^ j)" "?w \<le> 2 ^ j" "2 ^ j < 2 * ?w"
      using growPow2_least [OF assms(3), of 0] assms(2) by auto
    then have "getPadLength s = Inr (2 ^ j - ?w, ?s\<lparr>ts_padLength := 2 ^ j - ?w\<rparr>)"
      using True c getTupleSize_ok [OF assms(1)] by (simp add: getPadLength_def)
    then show ?thesis using j ok [of "2 ^ j - ?w" j] by (auto simp: types_of_def)
  qed
qed

section \<open>Types of merged and projected tuples\<close>

lemma newTupleSchema_ok:
  assumes "0 \<le> n"
  shows "\<exists>s. newTupleSchema n name t = Inr s \<and> schema_ok s \<and> ts_size s = n \<and> types_of s = replicate (nat n) Integer
    \<and> ts_tupleSize s = 0 \<and> ts_padLength s = -1"
proof -
  have "map (\<lambda>_. Integer) [0..n - 1] = replicate (nat n) Integer" by (simp add: map_replicate_const)
  then show ?thesis using assms
    by (simp add: newTupleSchema_def schema_ok_def types_of_def BasicReferenceType_def comp_def)
qed

lemma setAttributeType_ok:
  assumes "i < length (ts_attributes s)"
  shows "setAttributeType (int i) t s = Inr (s\<lparr>ts_attributes := (ts_attributes s)[i := (fst (ts_attributes s ! i), t)]\<rparr>)"
  using assms by (simp add: setAttributeType_def vget_def vset_def split: prod.split)

text \<open>A schema that has not been asked for its sizes.\<close>

definition fresh_schema :: "TupleSchema \<Rightarrow> bool" where
  "fresh_schema s \<longleftrightarrow> ts_size s = int (length (ts_attributes s)) \<and> ts_tupleSize s = 0 \<and> ts_padLength s = -1"

lemma fresh_schema_ok: "fresh_schema s \<Longrightarrow> schema_ok s"
  by (simp add: fresh_schema_def schema_ok_def)

lemma set_next_type:
  assumes "fresh_schema s" and "types_of s = pre @ u # rest"
  shows "\<exists>s'. setAttributeType (int (length pre)) t s = Inr s' \<and> fresh_schema s' \<and> types_of s' = pre @ t # rest"
proof -
  have l: "length pre < length (ts_attributes s)"
    using arg_cong [OF assms(2), of length] by (simp add: types_of_def)
  have "map snd ((ts_attributes s)[length pre := (fst (ts_attributes s ! length pre), t)]) = pre @ t # rest"
    using assms(2) by (simp add: map_update types_of_def list_update_append)
  then show ?thesis using assms(1) setAttributeType_ok [OF l, of t]
    by (simp add: fresh_schema_def types_of_def)
qed

lemma copyTypes_run:
  assumes "schema_ok x" and "fresh_schema s" "types_of s = pre @ replicate (length (types_of x) + m) Integer"
  shows "\<exists>s'. copyTypes x (int (length pre), s) = Inr (int (length pre + length (types_of x)), s') \<and> fresh_schema s'
    \<and> types_of s' = pre @ types_of x @ replicate m Integer"
proof -
  let ?f = "\<lambda>i (idx, s). rbind (getAttributeType x i) (\<lambda>t. rbind (setAttributeType idx t s) (\<lambda>s. Inr (idx + 1, s)))"
  have run: "\<exists>s'. rfold ?f (map int [k..<length (types_of x)]) (int (length pre), s)
      = Inr (int (length pre + (length (types_of x) - k)), s') \<and> fresh_schema s'
      \<and> types_of s' = pre @ drop k (types_of x) @ replicate m Integer"
    if "k \<le> length (types_of x)" "fresh_schema s" "types_of s = pre @ replicate (length (types_of x) - k + m) Integer" for k pre s
    using that
  proof (induction "length (types_of x) - k" arbitrary: k pre s)
    case (Suc n)
    then have k: "k < length (types_of x)" "length (types_of x) - k + m = Suc (length (types_of x) - Suc k + m)" by auto
    obtain s1 where s1: "setAttributeType (int (length pre)) (types_of x ! k) s = Inr s1" "fresh_schema s1"
      "types_of s1 = (pre @ [types_of x ! k]) @ replicate (length (types_of x) - Suc k + m) Integer"
      using set_next_type [of s pre Integer "replicate (length (types_of x) - Suc k + m) Integer" "types_of x ! k"] Suc.prems k
      by auto
    have g: "getAttributeType x (int k) = Inr (types_of x ! k)" using k(1) by (intro getAttributeType_nth) (simp add: types_of_def)
    have d: "drop k (types_of x) = types_of x ! k # drop (Suc k) (types_of x)" using k(1) by (simp add: Cons_nth_drop_Suc)
    have "Suc (length pre + (length (types_of x) - Suc k)) = length pre + (length (types_of x) - k)" using k(1) by simp
    with Suc.hyps(1) [of "Suc k" s1 "pre @ [types_of x ! k]"] Suc.hyps(2) s1 k(1) g d show ?case
      by (simp add: upt_conv_Cons add.commute [of 1] add_diff_eq)
  qed simp
  have "[0..ts_size x - 1] = map int [0..<length (types_of x)]"
    using assms(1) by (simp add: schema_ok_def types_of_def upto_nat)
  with run [of 0 s pre] assms show ?thesis by (simp add: copyTypes_def)
qed


lemma mergeTupleSchemas_ok:
  assumes "schema_ok x" "schema_ok y"
  shows "\<exists>s. mergeTupleSchemas x y = Inr s \<and> fresh_schema s \<and> types_of s = types_of x @ types_of y"
proof -
  let ?n = "ts_size x + ts_size y"
  have n: "nat ?n = length (types_of x) + length (types_of y)" "0 \<le> ?n"
    using assms by (simp_all add: schema_ok_def types_of_def nat_add_distrib)
  obtain s where s: "newTupleSchema ?n ''MergedSchema'' True = Inr s" "fresh_schema s"
    "types_of s = replicate (length (types_of x) + length (types_of y)) Integer"
    using newTupleSchema_ok [OF n(2)] n by (auto simp: fresh_schema_def schema_ok_def)
  obtain s1 where s1: "copyTypes x (0, s) = Inr (int (length (types_of x)), s1)" "fresh_schema s1"
    "types_of s1 = types_of x @ replicate (length (types_of y)) Integer"
    using copyTypes_run [OF assms(1) s(2), of "[]" "length (types_of y)"] s(3) by auto
  obtain s2 where "copyTypes y (int (length (types_of x)), s1) = Inr (int (length (types_of x) + length (types_of y)), s2)"
    "fresh_schema s2" "types_of s2 = types_of x @ types_of y"
    using copyTypes_run [OF assms(2) s1(2), of "types_of x" 0] s1(3) by auto
  with s(1) s1(1) show ?thesis by (simp add: mergeTupleSchemas_def)
qed

text \<open>
  The schema of a join has the attributes of the first stream followed by those of the second, and
  its tuples are as long as two joined tuples.
\<close>

theorem merged_schema_width:
  assumes "schema_ok x" "schema_ok y"
  shows "\<exists>s s'. mergeTupleSchemas x y = Inr s \<and> types_of s = types_of x @ types_of y
    \<and> getTupleSize s = Inr (width_of x + width_of y, s')"
proof -
  obtain s where s: "mergeTupleSchemas x y = Inr s" "fresh_schema s" "types_of s = types_of x @ types_of y"
    using mergeTupleSchemas_ok [OF assms] by blast
  then show ?thesis using getTupleSize_ok [OF fresh_schema_ok [OF s(2)]] by (simp add: width_of_def)
qed

lemma fromTypes_run:
  assumes "fresh_schema s" and "types_of s = pre @ replicate (length ts) Integer"
  shows "\<exists>s'. rfold (\<lambda>t (idx, s). if copiedType t then rbind (setAttributeType idx t s) (\<lambda>s. Inr (idx + 1, s)) else Inr (idx + 1, s))
      ts (int (length pre), s) = Inr (int (length pre + length ts), s') \<and> fresh_schema s'
    \<and> types_of s' = pre @ map (\<lambda>t. if copiedType t then t else Integer) ts"
  using assms
proof (induction ts arbitrary: s pre)
  case (Cons t ts)
  let ?t = "if copiedType t then t else Integer"
  have "\<exists>s1. (if copiedType t then setAttributeType (int (length pre)) t s else Inr s) = Inr s1 \<and> fresh_schema s1
      \<and> types_of s1 = (pre @ [?t]) @ replicate (length ts) Integer"
    using set_next_type [OF Cons.prems(1), of pre Integer "replicate (length ts) Integer" t] Cons.prems by auto
  then obtain s1 where s1: "(if copiedType t then setAttributeType (int (length pre)) t s else Inr s) = Inr s1" "fresh_schema s1"
      "types_of s1 = (pre @ [?t]) @ replicate (length ts) Integer" by blast
  from Cons.IH [OF s1(2,3)] s1(1) show ?case by (auto simp: add.commute [of 1] split: if_splits)
qed simp

lemma getTupleSchemaFromTypes_ok:
  "\<exists>s. getTupleSchemaFromTypes ts name = Inr s \<and> fresh_schema s
    \<and> types_of s = map (\<lambda>t. if copiedType t then t else Integer) ts"
proof -
  obtain s where s: "newTupleSchema (int (length ts)) name True = Inr s" "fresh_schema s" "types_of s = replicate (length ts) Integer"
    using newTupleSchema_ok [of "int (length ts)" name True] by (auto simp: fresh_schema_def schema_ok_def)
  from fromTypes_run [OF s(2), of "[]" ts] s show ?thesis by (auto simp: getTupleSchemaFromTypes_def)
qed

text \<open>A type that is set after the size was asked for does not change the size.\<close>

lemma stale_tuple_size:
  assumes "setAttributeType i t s = Inr s'" and "ts_tupleSize s \<noteq> 0"
  shows "getTupleSize s' = Inr (ts_tupleSize s, s')"
  using assms by (auto simp: setAttributeType_def getTupleSize_def)

section \<open>Witnesses\<close>

definition demoSchema :: "BasicType list \<Rightarrow> TupleSchema" where
  "demoSchema ts = \<lparr>ts_attributes = map (\<lambda>t. (''a'', t)) ts, ts_name = ''s'', ts_size = int (length ts),
     ts_hasTimestamp = True, ts_tupleSize = 0, ts_padLength = -1\<rparr>"

lemma demoSchema_ok: "schema_ok (demoSchema ts)" "types_of (demoSchema ts) = ts" "width_of (demoSchema ts) = sum_list (map getWidth ts)"
  by (simp_all add: demoSchema_def schema_ok_def width_of_def types_of_def comp_def)

theorem padding_reaches_power_of_two_witness:
  "\<exists>s'. getPadLength (demoSchema [Long, Integer, Integer, Float]) = Inr (12, s')"
proof -
  let ?s = "demoSchema [Long, Integer, Integer, Float]"
  have w: "width_of ?s = 20" by (simp add: demoSchema_ok)
  obtain p s' k where r: "getPadLength ?s = Inr (p, s')" "0 \<le> p" "20 + p = 2 ^ k" "p < 20"
    using padding_reaches_power_of_two [of ?s] w by (auto simp: demoSchema_ok(1))
  have "k < 6"
  proof (rule ccontr)
    assume "\<not> k < 6"
    then have "(2 :: int) ^ 6 \<le> 2 ^ k" by (intro power_increasing) auto
    then show False using r by simp
  qed
  then have "k = 0 \<or> k = 1 \<or> k = 2 \<or> k = 3 \<or> k = 4 \<or> k = 5" by linarith
  then have "p = 12" using r(2,3) by auto
  then show ?thesis using r(1) by blast
qed

theorem merged_schema_width_witness:
  "\<exists>s s'. mergeTupleSchemas (demoSchema [Long, Integer]) (demoSchema [Long]) = Inr s \<and> getTupleSize s = Inr (20, s')"
  using merged_schema_width [OF demoSchema_ok(1) demoSchema_ok(1), of "[Long, Integer]" "[Long]"]
  by (auto simp: demoSchema_ok)

section \<open>Decimal numbers\<close>

text \<open>The text of a number determines it.\<close>

definition digit :: "char \<Rightarrow> bool" where
  "digit c \<longleftrightarrow> c \<in> set ''0123456789''"

lemma digit_char_of: "n < 10 \<Longrightarrow> digit (char_of (48 + n))" for n :: nat
proof -
  assume "n < 10"
  then have "n = 0 \<or> n = 1 \<or> n = 2 \<or> n = 3 \<or> n = 4 \<or> n = 5 \<or> n = 6 \<or> n = 7 \<or> n = 8 \<or> n = 9" by presburger
  then show ?thesis by (elim disjE) (simp_all add: digit_def char_of_def bit_0)
qed

lemma digits_chars: "c \<in> set (digits n) \<Longrightarrow> digit c"
proof (induction n rule: digits.induct)
  case (1 n)
  then show ?case by (cases "n < 10") (auto simp: digits.simps [of n] intro: digit_char_of)
qed

lemma digits_not_Nil: "digits n \<noteq> []"
  by (simp add: digits.simps [of n])

text \<open>Reading a decimal number back.\<close>

definition number_of :: "string \<Rightarrow> nat" where
  "number_of s = foldl (\<lambda>n c. 10 * n + (of_char c - 48)) 0 s"

lemma number_of_digits: "number_of (digits n) = n"
proof (induction n rule: digits.induct)
  case (1 n)
  have c: "of_char (char_of (48 + k) :: char) = (48 + k :: nat)" if "k < 10" for k :: nat
    using that by (simp add: of_char_of)
  show ?case
  proof (cases "n < 10")
    case True
    then show ?thesis by (simp add: digits.simps [of n] number_of_def c)
  next
    case False
    then have "number_of (digits n) = 10 * number_of (digits (n div 10)) + n mod 10"
      by (simp add: digits.simps [of n] number_of_def c)
    then show ?thesis using 1 False by simp
  qed
qed

lemma to_string_inj: "to_string i = to_string j \<longleftrightarrow> i = j"
proof
  assume eq: "to_string i = to_string j"
  have m: "digits k \<noteq> CHR ''-'' # s" for k s
    using digits_chars [of "CHR ''-''" k] by (auto simp: digit_def)
  have "digits a = digits b \<Longrightarrow> a = b" for a b using number_of_digits by metis
  then show "i = j" using eq m m [symmetric] by (auto simp: to_string_def eq_nat_nat_iff not_less split: if_splits) fastforce+
qed simp

end
