(* ===== verification/Expressions.thy ===== *)
theory Expressions
  imports Schemas
begin

text \<open>
  Expressions and predicates (\<open>cql/expressions\<close>, \<open>cql/predicates\<close>): the trees, their types and the two
  texts they are printed as, one for people and one for the generated code, and the schema of a
  projection. A float constant is a mantissa and a binary exponent.
\<close>

section \<open>Expressions\<close>

datatype Expression =
    ColumnReference int BasicType
  | IntConstant int
  | FloatConstant int int
  | LongConstant int
  | LongLongConstant int
  | Addition Expression Expression
  | Subtraction Expression Expression
  | Multiplication Expression Expression
  | Division Expression Expression

text \<open>The constructor takes a 128-bit value and keeps a \<open>long\<close>.\<close>

definition newLongLongConstant :: "int \<Rightarrow> Expression" where
  "newLongLongConstant v = LongLongConstant (signed_take_bit 63 v)"

text \<open>The operations do not pass a type to the base class, which takes the reference type.\<close>

primrec getBasicType :: "Expression \<Rightarrow> BasicType" where
  "getBasicType (ColumnReference c t) = t"
| "getBasicType (IntConstant v) = Integer"
| "getBasicType (FloatConstant m e) = Float"
| "getBasicType (LongConstant v) = Long"
| "getBasicType (LongLongConstant v) = LongLong"
| "getBasicType (Addition a b) = BasicReferenceType"
| "getBasicType (Subtraction a b) = BasicReferenceType"
| "getBasicType (Multiplication a b) = BasicReferenceType"
| "getBasicType (Division a b) = BasicReferenceType"

text \<open>\<open>std::to_string\<close> on a float prints six decimals, rounded to nearest, ties to even.\<close>

definition millionths :: "nat \<Rightarrow> int \<Rightarrow> nat" where
  "millionths m e =
     (if 0 \<le> e then m * 2 ^ nat e * 1000000
      else let n = m * 1000000; d = 2 ^ nat (- e); q = n div d; r = n mod d in
           if 2 * r > d \<or> 2 * r = d \<and> odd q then q + 1 else q)"

definition sixDigits :: "nat \<Rightarrow> string" where
  "sixDigits n = map (\<lambda>i. char_of (48 + n div 10 ^ i mod 10)) [5, 4, 3, 2, 1, 0]"

definition to_string_float :: "int \<Rightarrow> int \<Rightarrow> string" where
  "to_string_float m e =
     (let n = millionths (nat \<bar>m\<bar>) e
      in (if m < 0 then ''-'' else []) @ digits (n div 1000000) @ ''.'' @ sixDigits (n mod 1000000))"

primrec toSExpr :: "Expression \<Rightarrow> string" where
  "toSExpr (ColumnReference c t) = [CHR 0x22] @ to_string c @ [CHR 0x22]"
| "toSExpr (IntConstant v) = ''Constant '' @ to_string v"
| "toSExpr (FloatConstant m e) = ''Constant '' @ to_string_float m e"
| "toSExpr (LongConstant v) = ''Constant '' @ to_string v"
| "toSExpr (LongLongConstant v) = ''Constant '' @ to_string v"
| "toSExpr (Addition a b) = ''( '' @ toSExpr a @ '' + '' @ toSExpr b @ '' )''"
| "toSExpr (Subtraction a b) = ''( '' @ toSExpr a @ '' - '' @ toSExpr b @ '' )''"
| "toSExpr (Multiplication a b) = ''( '' @ toSExpr a @ '' * '' @ toSExpr b @ '' )''"
| "toSExpr (Division a b) = ''( '' @ toSExpr a @ '' / '' @ toSExpr b @ '' )''"

primrec toSExprForCodeGen :: "Expression \<Rightarrow> string" where
  "toSExprForCodeGen (ColumnReference c t) =
     (if c = 0 then ''data[bufferPtr].timestamp'' else ''data[bufferPtr]._'' @ to_string c)"
| "toSExprForCodeGen (IntConstant v) = to_string v"
| "toSExprForCodeGen (FloatConstant m e) = to_string_float m e"
| "toSExprForCodeGen (LongConstant v) = to_string v"
| "toSExprForCodeGen (LongLongConstant v) = to_string v"
| "toSExprForCodeGen (Addition a b) = ''( '' @ toSExprForCodeGen a @ '' + '' @ toSExprForCodeGen b @ '' )''"
| "toSExprForCodeGen (Subtraction a b) = ''( '' @ toSExprForCodeGen a @ '' - '' @ toSExprForCodeGen b @ '' )''"
| "toSExprForCodeGen (Multiplication a b) = ''( '' @ toSExprForCodeGen a @ '' * '' @ toSExprForCodeGen b @ '' )''"
| "toSExprForCodeGen (Division a b) = ''( '' @ toSExprForCodeGen a @ '' / '' @ toSExprForCodeGen b @ '' )''"

definition getTupleSchemaFromExpressions :: "Expression list \<Rightarrow> string \<Rightarrow> TupleSchema res" where
  "getTupleSchemaFromExpressions es name = getTupleSchemaFromTypes (map getBasicType es) name"

section \<open>Predicates\<close>

datatype Predicate =
    ComparisonPredicate int Expression Expression
  | ANDPredicate "Predicate list"
  | ORPredicate "Predicate list"

definition getComparisonString :: "int \<Rightarrow> string" where
  "getComparisonString m_op =
     (if m_op = 1 then '' != '' else if m_op = 2 then '' < '' else if m_op = 3 then '' >= ''
      else if m_op = 4 then '' > '' else if m_op = 5 then '' <= '' else '' == '')"

text \<open>The texts of the parts in parentheses, with a separator between them.\<close>

fun joined :: "string \<Rightarrow> string list \<Rightarrow> string" where
  "joined sep [] = []"
| "joined sep [s] = ''('' @ s @ '')''"
| "joined sep (s # ss) = ''('' @ s @ '')'' @ sep @ joined sep ss"

fun predSExpr :: "(Expression \<Rightarrow> string) \<Rightarrow> Predicate \<Rightarrow> string" where
  "predSExpr pr (ComparisonPredicate m_op a b) = pr a @ getComparisonString m_op @ pr b"
| "predSExpr pr (ANDPredicate ps) = joined '' AND '' (map (predSExpr pr) ps)"
| "predSExpr pr (ORPredicate ps) = joined '' OR '' (map (predSExpr pr) ps)"

fun getNumberOfPredicates :: "Predicate \<Rightarrow> int" where
  "getNumberOfPredicates (ComparisonPredicate m_op a b) = 1"
| "getNumberOfPredicates (ANDPredicate ps) = int (length ps)"
| "getNumberOfPredicates (ORPredicate ps) = int (length ps)"

definition pred_toSExpr :: "Predicate \<Rightarrow> string" where
  "pred_toSExpr = predSExpr toSExpr"

definition pred_toSExprForCodeGen :: "Predicate \<Rightarrow> string" where
  "pred_toSExprForCodeGen = predSExpr toSExprForCodeGen"

section \<open>The text determines the expression\<close>

text \<open>
  What the generated code can tell of an expression: columns, the texts of constants and the
  operations.
\<close>

datatype term_tree = Column int | Literal string | Apply char term_tree term_tree

primrec tree_of :: "Expression \<Rightarrow> term_tree" where
  "tree_of (ColumnReference c t) = Column c"
| "tree_of (IntConstant v) = Literal (to_string v)"
| "tree_of (FloatConstant m e) = Literal (to_string_float m e)"
| "tree_of (LongConstant v) = Literal (to_string v)"
| "tree_of (LongLongConstant v) = Literal (to_string v)"
| "tree_of (Addition a b) = Apply (CHR ''+'') (tree_of a) (tree_of b)"
| "tree_of (Subtraction a b) = Apply (CHR ''-'') (tree_of a) (tree_of b)"
| "tree_of (Multiplication a b) = Apply (CHR ''*'') (tree_of a) (tree_of b)"
| "tree_of (Division a b) = Apply (CHR ''/'') (tree_of a) (tree_of b)"

primrec tree_text :: "term_tree \<Rightarrow> string" where
  "tree_text (Column c) = (if c = 0 then ''data[bufferPtr].timestamp'' else ''data[bufferPtr]._'' @ to_string c)"
| "tree_text (Literal s) = s"
| "tree_text (Apply f a b) = ''( '' @ tree_text a @ ['' '' ! 0, f, '' '' ! 0] @ tree_text b @ '' )''"

text \<open>The texts of numbers: a digit or a sign first, no space.\<close>

definition number_text :: "string \<Rightarrow> bool" where
  "number_text s \<longleftrightarrow> s \<noteq> [] \<and> hd s \<noteq> CHR ''('' \<and> hd s \<noteq> CHR ''d'' \<and> CHR '' '' \<notin> set s"

primrec printed :: "term_tree \<Rightarrow> bool" where
  "printed (Column c) \<longleftrightarrow> True"
| "printed (Literal s) \<longleftrightarrow> number_text s"
| "printed (Apply f a b) \<longleftrightarrow> printed a \<and> printed b"

lemma digit_text: "(\<And>c. c \<in> set s \<Longrightarrow> digit c \<or> c \<in> {CHR ''-'', CHR ''.''}) \<Longrightarrow> s \<noteq> [] \<Longrightarrow> number_text s"
  by (cases s) (fastforce simp: number_text_def digit_def)+

lemma number_text_to_string: "number_text (to_string i)"
  using digits_chars digits_not_Nil by (intro digit_text) (auto simp: to_string_def split: if_splits)

lemma number_text_float: "number_text (to_string_float m e)"
proof (rule digit_text)
  have "digit c" if "c \<in> set (sixDigits n)" for c n using that digit_char_of by (auto simp: sixDigits_def)
  then show "digit c \<or> c \<in> {CHR ''-'', CHR ''.''}" if "c \<in> set (to_string_float m e)" for c
    using that digits_chars by (auto simp: to_string_float_def Let_def split: if_splits)
qed (simp add: to_string_float_def Let_def)

lemma tree_text_of: "tree_text (tree_of e) = toSExprForCodeGen e" and printed_tree_of: "printed (tree_of e)"
  by (induction e) (simp_all add: number_text_to_string number_text_float)


definition delimited :: "string \<Rightarrow> bool" where
  "delimited s \<longleftrightarrow> s = [] \<or> hd s = CHR '' ''"

lemma spaceless_prefix:
  assumes "s @ x = t @ y" and "CHR '' '' \<notin> set s" "CHR '' '' \<notin> set t" and "delimited x" "delimited y"
  shows "s = t \<and> x = y"
proof -
  let ?P = "\<lambda>c. c \<noteq> CHR '' ''"
  have "takeWhile ?P (u @ z) = u" if "CHR '' '' \<notin> set u" "delimited z" for u z
    using that by (cases z) (auto simp: delimited_def takeWhile_append)
  from this [OF assms(2,4)] this [OF assms(3,5)] have "s = t" using assms(1) by metis
  then show ?thesis using assms(1) by simp
qed

text \<open>The text of a leaf has no space and does not begin with a parenthesis.\<close>

definition leaf :: "term_tree \<Rightarrow> bool" where
  "leaf a \<longleftrightarrow> (\<forall>f l r. a \<noteq> Apply f l r)"

lemma leaf_text:
  assumes "printed a" "leaf a"
  shows "CHR '' '' \<notin> set (tree_text a)" "tree_text a \<noteq> []" "hd (tree_text a) \<noteq> CHR ''(''"
  using assms number_text_to_string by (cases a; auto simp: leaf_def number_text_def)+

lemma leaf_unique: "printed a \<Longrightarrow> printed b \<Longrightarrow> leaf a \<Longrightarrow> leaf b \<Longrightarrow> tree_text a = tree_text b \<Longrightarrow> a = b"
  by (cases a; cases b) (auto simp: leaf_def number_text_def to_string_inj split: if_splits)

lemma leaf_prefix:
  assumes "printed a" "printed b" "leaf a" and "tree_text a @ x = tree_text b @ y" "delimited x" "delimited y"
  shows "a = b \<and> x = y"
proof -
  have "leaf b"
  proof (rule ccontr)
    assume "\<not> leaf b"
    then have "hd (tree_text b @ y) = CHR ''(''" by (auto simp: leaf_def)
    moreover have "hd (tree_text a @ x) \<noteq> CHR ''(''" using leaf_text [OF assms(1,3)] by simp
    ultimately show False using assms(4) by simp
  qed
  then show ?thesis
    using spaceless_prefix [OF assms(4)] leaf_text(1) leaf_unique [OF assms(1,2,3)] assms by blast
qed

lemma tree_text_unique:
  "printed a \<Longrightarrow> printed b \<Longrightarrow> tree_text a @ x = tree_text b @ y \<Longrightarrow> delimited x \<Longrightarrow> delimited y \<Longrightarrow> a = b \<and> x = y"
proof (induction a arbitrary: b x y)
  case (Apply f l r)
  show ?case
  proof (cases "leaf b")
    case True
    then show ?thesis using leaf_prefix [of b "Apply f l r" y x] Apply.prems by auto
  next
    case False
    then obtain g l' r' where b: "b = Apply g l' r'" by (auto simp: leaf_def)
    have "l = l' \<and> '' '' @ [f] @ '' '' @ tree_text r @ '' )'' @ x = '' '' @ [g] @ '' '' @ tree_text r' @ '' )'' @ y"
      using Apply.prems b by (intro Apply.IH(1)) (auto simp: delimited_def)
    moreover from this have "r = r' \<and> '' )'' @ x = '' )'' @ y"
      using Apply.prems b by (intro Apply.IH(2)) (auto simp: delimited_def)
    ultimately show ?thesis using b by simp
  qed
qed (rule leaf_prefix; simp add: leaf_def)+

text \<open>
  The text an expression is printed as in the generated code determines its columns, the texts of its
  constants and its operations with their operands: two expressions with the same text are the same
  up to the types of columns and constants.
\<close>

theorem codegen_text_unambiguous:
  assumes "toSExprForCodeGen e1 = toSExprForCodeGen e2"
  shows "tree_of e1 = tree_of e2"
  using tree_text_unique [OF printed_tree_of printed_tree_of, of e1 "[]" e2 "[]"] assms
  by (simp add: tree_text_of delimited_def)

text \<open>
  C38. The schema of a projection has one attribute per expression. A column of type \<open>Long\<close>, \<open>Float\<close> or
  \<open>LongLong\<close> keeps its type, a column of any other type, \<open>Double\<close> too, becomes an \<open>Integer\<close>; a constant has
  the type of its class; a sum, difference, product or quotient is an \<open>Integer\<close> whatever its operands
  are.
\<close>

theorem projection_types:
  "\<exists>s. getTupleSchemaFromExpressions es name = Inr s \<and> schema_ok s \<and> length (ts_attributes s) = length es
    \<and> (\<forall>i < length es. getAttributeType s (int i) = Inr (case es ! i of
         ColumnReference c t \<Rightarrow> (case t of Long \<Rightarrow> Long | Float \<Rightarrow> Float | LongLong \<Rightarrow> LongLong | _ \<Rightarrow> Integer)
       | FloatConstant m x \<Rightarrow> Float | LongConstant v \<Rightarrow> Long | LongLongConstant v \<Rightarrow> LongLong | _ \<Rightarrow> Integer))"
proof -
  obtain s where s: "getTupleSchemaFromTypes (map getBasicType es) name = Inr s" "fresh_schema s"
    "types_of s = map (\<lambda>t. if copiedType t then t else Integer) (map getBasicType es)"
    using getTupleSchemaFromTypes_ok by blast
  have l: "length (ts_attributes s) = length es" using arg_cong [OF s(3), of length] by (simp add: types_of_def)
  have "getAttributeType s (int i) = Inr (case es ! i of
         ColumnReference c t \<Rightarrow> (case t of Long \<Rightarrow> Long | Float \<Rightarrow> Float | LongLong \<Rightarrow> LongLong | _ \<Rightarrow> Integer)
       | FloatConstant m x \<Rightarrow> Float | LongConstant v \<Rightarrow> Long | LongLongConstant v \<Rightarrow> LongLong | _ \<Rightarrow> Integer)"
    if "i < length es" for i
    using that getAttributeType_nth [of i s] l s(3)
    by (auto simp: copiedType_def BasicReferenceType_def split: Expression.split BasicType.split)
  then show ?thesis using s(1) l fresh_schema_ok [OF s(2)]
    by (auto simp: getTupleSchemaFromExpressions_def)
qed

text \<open>A conjunction is printed with the word of the query language, which the generated code does not define.\<close>

lemma and_text:
  "pred_toSExprForCodeGen (ANDPredicate [p, q])
    = ''('' @ pred_toSExprForCodeGen p @ '') AND ('' @ pred_toSExprForCodeGen q @ '')''"
  by (simp add: pred_toSExprForCodeGen_def)

theorem codegen_text_unambiguous_witness:
  "tree_of (Addition (ColumnReference 1 Long) (IntConstant 2)) = tree_of (Addition (ColumnReference 1 Float) (LongConstant 2))"
  by (rule codegen_text_unambiguous) simp

theorem projection_types_witness:
  "\<exists>s. getTupleSchemaFromExpressions [ColumnReference 0 Long, ColumnReference 1 Double, Addition (LongConstant 1) (LongConstant 2)]
       ''p'' = Inr s
     \<and> getAttributeType s 0 = Inr Long \<and> getAttributeType s 1 = Inr Integer \<and> getAttributeType s 2 = Inr Integer"
proof -
  let ?es = "[ColumnReference 0 Long, ColumnReference 1 Double, Addition (LongConstant 1) (LongConstant 2)]"
  obtain s where s: "getTupleSchemaFromExpressions ?es ''p'' = Inr s"
    and t: "\<forall>i < length ?es. getAttributeType s (int i) = Inr (case ?es ! i of
         ColumnReference c t \<Rightarrow> (case t of Long \<Rightarrow> Long | Float \<Rightarrow> Float | LongLong \<Rightarrow> LongLong | _ \<Rightarrow> Integer)
       | FloatConstant m x \<Rightarrow> Float | LongConstant v \<Rightarrow> Long | LongLongConstant v \<Rightarrow> LongLong | _ \<Rightarrow> Integer)"
    using projection_types [of ?es "''p''"] by blast
  from s t [rule_format, of 0] t [rule_format, of 1] t [rule_format, of 2] show ?thesis by simp
qed

end
