(* ===== verification/ThetaJoin.thy ===== *)
theory ThetaJoin
  imports Expressions Tasks PartialWindows
begin

text \<open>
  The join operator (\<open>cql/operators/ThetaJoin.h\<close>). \<open>setup\<close> writes the routine \<open>processJoin\<close> as C++ text with
  the window definitions, the padding and the mask of the input buffers as constants, and loads the
  compiled routine; the model has the constants in a record and the routine as a function of it. The
  truth value of the join predicate on two tuples, which the C++ compiler makes from the text of
  \<open>Expressions\<close>, is an argument. The routine walks over the two batches in the order of their timestamps
  and pairs each tuple with the tuples of the other batch that are in the window.
\<close>

section \<open>Layout of the generated tuples\<close>

text \<open>A member of the generated structs has its size as alignment; a struct is aligned to 16 bytes.\<close>

primrec memberSize :: "BasicType \<Rightarrow> int res" where
  "memberSize Integer = Inr 4"
| "memberSize Float = Inr 4"
| "memberSize Long = Inr 8"
| "memberSize LongLong = Inr 16"
| "memberSize StringType = Inl RuntimeError"
| "memberSize Double = Inl RuntimeError"
| "memberSize CharType = Inl RuntimeError"
| "memberSize Date = Inl RuntimeError"

definition alignTo :: "int \<Rightarrow> int \<Rightarrow> int" where
  "alignTo n off = (off + (n - 1)) div n * n"

fun memberEnd :: "int \<Rightarrow> BasicType list \<Rightarrow> int res" where
  "memberEnd off [] = Inr off"
| "memberEnd off (t # ts) = rbind (memberSize t) (\<lambda>n. memberEnd (alignTo n off + n) ts)"

text \<open>The first attribute is always declared as the timestamp, a \<open>long\<close>.\<close>

definition inputStructSize :: "TupleSchema \<Rightarrow> int res" where
  "inputStructSize s = rbind (memberEnd 8 (tl (map snd (ts_attributes s)))) (\<lambda>e. Inr (alignTo 16 e))"

section \<open>The generated routine\<close>

record join_code =
  jc_window1 :: WindowDefinition
  jc_window2 :: WindowDefinition
  jc_padLength :: int
  jc_mask :: int
  jc_unboundedSize :: int
  jc_tupleSize1 :: int
  jc_tupleSize2 :: int
  jc_match :: "byte list \<Rightarrow> byte list \<Rightarrow> bool"

record JoinState =
  js_index1 :: int
  js_index2 :: int
  js_start1 :: int
  js_end1 :: int
  js_start2 :: int
  js_end2 :: int
  js_output :: "byte list"
  js_writePos :: int
  js_invoked :: int
  js_matched :: int

text \<open>\<open>(int) b[index / tupleSize].timestamp\<close> and the struct itself.\<close>

definition tupleTime :: "byte list \<Rightarrow> int \<Rightarrow> int \<Rightarrow> int res" where
  "tupleTime b tupleSize index =
     rbind (memread b (index sdiv tupleSize * tupleSize) 8) (\<lambda>bs. Inr (to_int32 (long_val bs)))"

definition tupleAt :: "byte list \<Rightarrow> int \<Rightarrow> int \<Rightarrow> byte list res" where
  "tupleAt b tupleSize index = memread b (index sdiv tupleSize * tupleSize) tupleSize"

text \<open>The indices of a loop over a window.\<close>

function windowIndices :: "int \<Rightarrow> int \<Rightarrow> int \<Rightarrow> int list" where
  "windowIndices i limit step = (if i < limit \<and> 0 < step then i # windowIndices (i + step) limit step else [])"
  by pat_completeness auto
termination
  by (relation "measure (\<lambda>(i, limit, step). nat (limit - i))") auto

declare windowIndices.simps [simp del]

text \<open>The body of the scans: the tuples at two masked positions are compared and, if they match, written.\<close>

definition emitPair ::
  "join_code \<Rightarrow> byte list \<Rightarrow> byte list \<Rightarrow> bool \<Rightarrow> int \<Rightarrow> int \<Rightarrow> JoinState \<Rightarrow> JoinState res" where
  "emitPair jc lb rb monitor p1 p2 s =
     (let s = (if monitor then s\<lparr>js_invoked := js_invoked s + 1\<rparr> else s);
          n1 = jc_tupleSize1 jc; n2 = jc_tupleSize2 jc in
      rbind (tupleAt lb n1 p1) (\<lambda>x.
      rbind (tupleAt rb n2 p2) (\<lambda>y.
        if \<not> jc_match jc x y then Inr s
        else if js_writePos s + n1 + n2 \<ge> jc_unboundedSize jc then Inl RuntimeError
        else
          rbind (memread lb p1 n1) (\<lambda>xs.
          rbind (memcpy_to (js_output s) (js_writePos s) xs) (\<lambda>b.
          rbind (memread rb p2 n2) (\<lambda>ys.
          rbind (memcpy_to b (js_writePos s + n1) ys) (\<lambda>b.
            Inr (s\<lparr>js_output := b, js_writePos := js_writePos s + n1 + n2 + jc_padLength jc,
                   js_matched := (if monitor then js_matched s + 1 else js_matched s)\<rparr>))))))))"

text \<open>The loop that drops tuples older than a bound from a window; its reads are not masked.\<close>

function evictOld :: "byte list \<Rightarrow> int \<Rightarrow> int \<Rightarrow> int \<Rightarrow> int res" where
  "evictOld b tupleSize bound start =
     (case tupleTime b tupleSize start of
        Inl e \<Rightarrow> Inl e
      | Inr t \<Rightarrow> if t < bound \<and> 0 < tupleSize then evictOld b tupleSize bound (start + tupleSize) else Inr start)"
  by pat_completeness auto
termination
proof (relation "measure (\<lambda>(b, n, bound, start). nat (int (length b) + n - start))")
  fix b :: "byte list" and n bound start t :: int
  assume t: "tupleTime b n start = Inr t" and n: "t < bound \<and> 0 < n"
  have "start sdiv n * n + 8 \<le> int (length b)" using t by (auto simp: tupleTime_def memread_def split: if_splits)
  moreover have "start < start sdiv n * n + n" if "0 \<le> start"
  proof -
    have "start = start div n * n + start mod n" "start mod n < n" using n by auto
    then have "start < start div n * n + n" by linarith
    then show ?thesis using that n by (simp add: sdiv_nonneg)
  qed
  ultimately have "start < int (length b) + n" using n by (cases "0 \<le> start") auto
  then show "((b, n, bound, start + n), b, n, bound, start) \<in> measure (\<lambda>(b, n, bound, start). nat (int (length b) + n - start))"
    using n by auto
qed auto

declare evictOld.simps [simp del]


text \<open>\<open>getFirstWindowExpr\<close> and \<open>getSecondWindowExpr\<close>: the moves of the window starts after a step.\<close>

definition slideRows :: "WindowDefinition \<Rightarrow> int \<Rightarrow> int \<Rightarrow> int \<Rightarrow> int" where
  "slideRows w tupleSize start stop =
     (if (stop - start) sdiv tupleSize > wd_size w then start + wd_slide w * tupleSize else start)"

definition moveFirst :: "join_code \<Rightarrow> byte list \<Rightarrow> byte list \<Rightarrow> int \<Rightarrow> JoinState \<Rightarrow> JoinState res" where
  "moveFirst jc lb rb time1 s =
     rbind (if isRowBased (jc_window1 jc) then Inr (slideRows (jc_window1 jc) (jc_tupleSize1 jc) (js_start1 s) (js_end1 s))
            else evictOld lb (jc_tupleSize1 jc) (time1 - wd_size (jc_window1 jc)) (js_start1 s)) (\<lambda>st1.
     rbind (if isRangeBased (jc_window2 jc)
            then evictOld rb (jc_tupleSize2 jc) (time1 - wd_size (jc_window2 jc)) (js_start2 s)
            else Inr (js_start2 s)) (\<lambda>st2.
       Inr (s\<lparr>js_start1 := st1, js_start2 := st2\<rparr>)))"

definition moveSecond :: "join_code \<Rightarrow> byte list \<Rightarrow> byte list \<Rightarrow> int \<Rightarrow> JoinState \<Rightarrow> JoinState res" where
  "moveSecond jc lb rb time2 s =
     rbind (if isRowBased (jc_window2 jc) then Inr (slideRows (jc_window2 jc) (jc_tupleSize2 jc) (js_start2 s) (js_end2 s))
            else evictOld rb (jc_tupleSize2 jc) (time2 - wd_size (jc_window2 jc)) (js_start2 s)) (\<lambda>st2.
     rbind (if isRangeBased (jc_window1 jc)
            then evictOld lb (jc_tupleSize1 jc) (time2 - wd_size (jc_window1 jc)) (js_start1 s)
            else Inr (js_start1 s)) (\<lambda>st1.
       Inr (s\<lparr>js_start1 := st1, js_start2 := st2\<rparr>)))"

text \<open>One round of \<open>processJoin\<close>; a position is masked before it is read.\<close>

definition joinStep ::
  "join_code \<Rightarrow> byte list \<Rightarrow> byte list \<Rightarrow> bool \<Rightarrow> int \<Rightarrow> JoinState \<Rightarrow> JoinState res" where
  "joinStep jc lb rb monitor end2 s =
     (let c1 = and (js_index1 s) (jc_mask jc); c2 = and (js_index2 s) (jc_mask jc) in
      rbind (tupleTime lb (jc_tupleSize1 jc) c1) (\<lambda>time1.
      rbind (tupleTime rb (jc_tupleSize2 jc) c2) (\<lambda>time2.
        if time1 < time2 \<or> time1 = time2 \<and> js_index2 s \<ge> end2 then
          rbind (rfold (\<lambda>i. emitPair jc lb rb monitor c1 (and i (jc_mask jc)))
                   (windowIndices (js_start2 s) (js_end2 s) (jc_tupleSize2 jc)) s) (\<lambda>s.
          rbind (moveFirst jc lb rb time1 (s\<lparr>js_end1 := js_index1 s\<rparr>)) (\<lambda>s.
            Inr (s\<lparr>js_index1 := js_index1 s + jc_tupleSize1 jc\<rparr>)))
        else
          rbind (rfold (\<lambda>i. emitPair jc lb rb monitor (and i (jc_mask jc)) c2)
                   (windowIndices (js_start1 s) (js_end1 s) (jc_tupleSize1 jc)) s) (\<lambda>s.
          rbind (moveSecond jc lb rb time2 (s\<lparr>js_end2 := js_index2 s\<rparr>)) (\<lambda>s.
            Inr (s\<lparr>js_index2 := js_index2 s + jc_tupleSize2 jc\<rparr>))))))"

lemma emitPair_frame:
  "emitPair jc lb rb mo p q s = Inr s' \<Longrightarrow>
     js_index1 s' = js_index1 s \<and> js_index2 s' = js_index2 s \<and> js_start1 s' = js_start1 s \<and> js_start2 s' = js_start2 s
     \<and> js_end1 s' = js_end1 s \<and> js_end2 s' = js_end2 s"
  by (auto simp: emitPair_def Let_def split: if_splits)

lemma emitPairs_frame:
  assumes "rfold (\<lambda>i. emitPair jc lb rb mo (f i) (g i)) xs s = Inr s'"
  shows "js_index1 s' = js_index1 s \<and> js_index2 s' = js_index2 s \<and> js_start1 s' = js_start1 s \<and> js_start2 s' = js_start2 s
     \<and> js_end1 s' = js_end1 s \<and> js_end2 s' = js_end2 s"
  using assms by (induction xs arbitrary: s) (auto dest: emitPair_frame)

lemma joinStep_moves:
  assumes "joinStep jc lb rb mo end2 s = Inr s'"
  shows "(js_index1 s' = js_index1 s + jc_tupleSize1 jc \<and> js_index2 s' = js_index2 s)
    \<or> (js_index1 s' = js_index1 s \<and> js_index2 s' = js_index2 s + jc_tupleSize2 jc)"
  using assms by (auto simp: joinStep_def moveFirst_def moveSecond_def Let_def split: if_splits dest!: emitPairs_frame)

text \<open>The sizes of the structs are positive; a loop over empty structs would not end.\<close>

function joinLoop ::
  "join_code \<Rightarrow> byte list \<Rightarrow> byte list \<Rightarrow> bool \<Rightarrow> int \<Rightarrow> int \<Rightarrow> JoinState \<Rightarrow> JoinState res" where
  "joinLoop jc lb rb monitor end1 end2 s =
     (if js_index1 s < end1 \<and> js_index2 s < end2 \<and> 0 < jc_tupleSize1 jc \<and> 0 < jc_tupleSize2 jc
      then (case joinStep jc lb rb monitor end2 s of
              Inl e \<Rightarrow> Inl e
            | Inr s \<Rightarrow> joinLoop jc lb rb monitor end1 end2 s)
      else Inr s)"
  by pat_completeness auto
termination
  by (relation "measure (\<lambda>(jc, lb, rb, mo, end1, end2, s). nat (end1 - js_index1 s) + nat (end2 - js_index2 s))")
    (auto dest: joinStep_moves)

declare joinLoop.simps [simp del]

definition joinStart :: "int \<Rightarrow> int \<Rightarrow> byte list \<Rightarrow> int \<Rightarrow> int \<Rightarrow> int \<Rightarrow> JoinState" where
  "joinStart index1 index2 out writePos invoked matched =
     \<lparr>js_index1 = index1, js_index2 = index2, js_start1 = index1, js_end1 = index1, js_start2 = index2, js_end2 = index2,
      js_output = out, js_writePos = writePos, js_invoked = invoked, js_matched = matched\<rparr>"

definition processJoin ::
  "join_code \<Rightarrow> int \<Rightarrow> int \<Rightarrow> int \<Rightarrow> int \<Rightarrow> byte list \<Rightarrow> byte list \<Rightarrow> byte list \<Rightarrow> int \<Rightarrow> bool \<Rightarrow> int \<Rightarrow> int \<Rightarrow>
   (byte list \<times> int \<times> int \<times> int) res" where
  "processJoin jc index1 index2 end1 end2 lb rb out writePos monitor invoked matched =
     rbind (joinLoop jc lb rb monitor end1 end2 (joinStart index1 index2 out writePos invoked matched)) (\<lambda>s.
       Inr (js_output s, js_writePos s, js_invoked s, js_matched s))"

section \<open>The operator\<close>

record ThetaJoin =
  tj_isReady :: bool
  tj_monitorSelectivity :: bool
  tj_invoked :: "int list"
  tj_matched :: "int list"
  tj_predicate :: "Predicate option"
  tj_leftInputSchema :: TupleSchema
  tj_rightInputSchema :: TupleSchema
  tj_outputSchema :: TupleSchema
  tj_circularBufferSize :: int
  tj_id :: int
  tj_process :: "join_code option"

definition newThetaJoin :: "SystemConf \<Rightarrow> TupleSchema \<Rightarrow> TupleSchema \<Rightarrow> Predicate option \<Rightarrow> ThetaJoin res" where
  "newThetaJoin conf l r p =
     rbind (mergeTupleSchemas l r) (\<lambda>s.
       Inr \<lparr>tj_isReady = False, tj_monitorSelectivity = False,
         tj_invoked = replicate (nat (WORKER_THREADS conf)) 0, tj_matched = replicate (nat (WORKER_THREADS conf)) 0,
         tj_predicate = p, tj_leftInputSchema = l, tj_rightInputSchema = r, tj_outputSchema = s,
         tj_circularBufferSize = 0, tj_id = -1, tj_process = None\<rparr>)"

definition setQueryId :: "int \<Rightarrow> ThetaJoin \<Rightarrow> ThetaJoin" where
  "setQueryId qId tj = tj\<lparr>tj_id := qId\<rparr>"

definition tj_toSExpr :: "ThetaJoin \<Rightarrow> string res" where
  "tj_toSExpr tj =
     (case tj_predicate tj of None \<Rightarrow> Inl Undefined | Some p \<Rightarrow> Inr (''ThetaJoin ('' @ pred_toSExpr p @ '')''))"

text \<open>\<open>s.replace(s.find(str), str.length(), by)\<close>, which throws when the text does not occur.\<close>

fun replaceFirst :: "string \<Rightarrow> string \<Rightarrow> string \<Rightarrow> string res" where
  "replaceFirst pat by_str [] = (if pat = [] then Inr by_str else Inl OutOfRange)"
| "replaceFirst pat by_str (c # s) =
     (if take (length pat) (c # s) = pat then Inr (by_str @ drop (length pat) (c # s))
      else rbind (replaceFirst pat by_str s) (\<lambda>s. Inr (c # s)))"

definition getSelectionExpr :: "bool \<Rightarrow> ThetaJoin \<Rightarrow> string res" where
  "getSelectionExpr isFirst tj =
     (case tj_predicate tj of
        None \<Rightarrow> Inr ''if (true)''
      | Some p \<Rightarrow>
          let s = ''        auto maskedI = (i&MASK);'' @ [CHR 0x0A] @ ''        if ( '' @ pred_toSExprForCodeGen p @ '' )'' @ [CHR 0x0A];
              str = ''data[bufferPtr]'' in
          if isFirst then rbind (replaceFirst str ''leftB[maskedCI1/tupleSize1]'' s) (replaceFirst str ''rightB[maskedI/tupleSize2]'')
          else rbind (replaceFirst str ''leftB[maskedI/tupleSize1]'' s) (replaceFirst str ''rightB[maskedCI2/tupleSize2]''))"

text \<open>
  \<open>setup\<close>, when the program does not recover: the constants of the routine. The text is written only
  when every attribute has a type of the generated structs and both selections can be written. The
  C++ compiler is the argument \<open>compile\<close>: from the two selections it makes the truth value of the
  predicate, or nothing, which ends the program.
\<close>

definition tj_setup ::
  "SystemConf \<Rightarrow> (string \<Rightarrow> string \<Rightarrow> (byte list \<Rightarrow> byte list \<Rightarrow> bool) option) \<Rightarrow> WindowDefinition \<Rightarrow> WindowDefinition \<Rightarrow>
   int \<Rightarrow> ThetaJoin \<Rightarrow> ThetaJoin res" where
  "tj_setup conf compile w1 w2 circularBufferSize tj =
     (let bs = (if circularBufferSize \<noteq> 0 then circularBufferSize else CIRCULAR_BUFFER_SIZE conf) in
      rbind (getPadLength (tj_outputSchema tj)) (\<lambda>(pad, out).
      rbind (inputStructSize (tj_leftInputSchema tj)) (\<lambda>n1.
      rbind (inputStructSize (tj_rightInputSchema tj)) (\<lambda>n2.
      rbind (inputStructSize out) (\<lambda>_.
      rbind (getSelectionExpr True tj) (\<lambda>predicate1.
      rbind (getSelectionExpr False tj) (\<lambda>predicate2.
        case compile predicate1 predicate2 of
          None \<Rightarrow> Inl Exit
        | Some match \<Rightarrow>
            Inr (tj\<lparr>tj_circularBufferSize := bs, tj_outputSchema := out, tj_isReady := True,
              tj_process := Some \<lparr>jc_window1 = w1, jc_window2 = w2, jc_padLength = pad, jc_mask = bs - 1,
                jc_unboundedSize = UNBOUNDED_BUFFER_SIZE conf, jc_tupleSize1 = n1, jc_tupleSize2 = n2, jc_match = match\<rparr>\<rparr>))))))))"

text \<open>
  \<open>processCodeGen\<close>: the result of a task, with its output buffer named \<open>name\<close>. The batch is returned
  because it is the result of the task.
\<close>

definition processCodeGen ::
  "SystemConf \<Rightarrow> nat \<Rightarrow> int \<Rightarrow> QueryBuffer \<Rightarrow> QueryBuffer \<Rightarrow> WindowBatch \<Rightarrow> WindowBatch \<Rightarrow> ThetaJoin \<Rightarrow>
   PartialWindowResultsFactory \<Rightarrow> (WindowBatch \<times> PartialWindowResults \<times> ThetaJoin \<times> PartialWindowResultsFactory) res" where
  "processCodeGen conf name pid lb rb lBatch rBatch tj f =
     (let index1 = wb_startPointer lBatch; index2 = wb_startPointer rBatch in
      rbind (getTupleSize (tj_leftInputSchema tj)) (\<lambda>(n1, ls).
      rbind (getTupleSize (tj_rightInputSchema tj)) (\<lambda>(n2, rs).
      rbind (pf_newInstance conf pid f) (\<lambda>(out, f).
      rbind (getPadLength ls) (\<lambda>(_, ls).
      rbind (getPadLength rs) (\<lambda>(_, rs).
        let tj = tj\<lparr>tj_leftInputSchema := ls, tj_rightInputSchema := rs\<rparr>;
            end1 = wb_endPointer lBatch + n1; end2 = wb_endPointer rBatch + n2 in
        rbind (if tj_monitorSelectivity tj
               then rbind (vset (tj_invoked tj) pid 0) (\<lambda>is. rbind (vset (tj_matched tj) pid 0) (\<lambda>ms.
                      Inr (tj\<lparr>tj_invoked := is, tj_matched := ms\<rparr>)))
               else Inr tj) (\<lambda>tj.
        rbind (if index1 \<noteq> end1 \<and> index2 \<noteq> end2
               then (case tj_process tj of
                       None \<Rightarrow> Inl Undefined
                     | Some jc \<Rightarrow>
                         rbind (vget (tj_invoked tj) pid) (\<lambda>inv. rbind (vget (tj_matched tj) pid) (\<lambda>mat.
                         rbind (pw_getBuffer out) (\<lambda>b.
                         rbind (processJoin jc index1 index2 end1 end2 (qb_buffer lb) (qb_buffer rb) b (pw_position out)
                                  (tj_monitorSelectivity tj) inv mat) (\<lambda>(b, pos, inv, mat).
                         rbind (vset (tj_invoked tj) pid inv) (\<lambda>is. rbind (vset (tj_matched tj) pid mat) (\<lambda>ms.
                         rbind (pw_setPosition pos (out\<lparr>pw_buffer := b\<rparr>)) (\<lambda>out.
                           Inr (out, tj\<lparr>tj_invoked := is, tj_matched := ms\<rparr>)))))))))
               else Inr (out, tj)) (\<lambda>(out, tj).
        rbind (getTupleSize (tj_outputSchema tj)) (\<lambda>(n, _).
          Inr ((setOutputBuffer (Some name) lBatch)\<lparr>wb_tupleSize := Some n\<rparr>, out, tj, f))))))))))"

text \<open>\<open>m_debug\<close> is false and never set, so \<open>processData\<close> always takes the generated routine.\<close>

definition tj_processData ::
  "SystemConf \<Rightarrow> nat \<Rightarrow> int \<Rightarrow> QueryBuffer \<Rightarrow> QueryBuffer \<Rightarrow> WindowBatch \<Rightarrow> WindowBatch \<Rightarrow> ThetaJoin \<Rightarrow>
   PartialWindowResultsFactory \<Rightarrow> (WindowBatch \<times> PartialWindowResults \<times> ThetaJoin \<times> PartialWindowResultsFactory) res" where
  "tj_processData conf name pid lb rb lBatch rBatch tj f =
     (if \<not> tj_isReady tj then Inl RuntimeError else processCodeGen conf name pid lb rb lBatch rBatch tj f)"

end
