(* ===== verification/JoinOutput.thy ===== *)
theory JoinOutput
  imports ThetaJoin
begin

text \<open>
  Correctness of the join operator for range-based windows over batches in timestamp order: the pairs the
  generated routine writes are those of a merge of the two batches, with the windows given by bounds on
  timestamps instead of moving pointers, and these pairs in closed form.
\<close>

section \<open>The merge\<close>

text \<open>
  Tuples are numbered from the start of the buffers. The first batch has the tuples \<open>a\<close> to \<open>e - 1\<close>, the
  second \<open>c\<close> to \<open>g - 1\<close>. The last steps are the tuples before \<open>i\<close> and \<open>j\<close>; a tuple of timestamp \<open>t\<close> is
  live when neither is more than a window ahead of it.
\<close>

record join_view =
  jv_time1 :: "nat \<Rightarrow> int"
  jv_time2 :: "nat \<Rightarrow> int"
  jv_size1 :: int
  jv_size2 :: int
  jv_match :: "nat \<Rightarrow> nat \<Rightarrow> bool"
  jv_first1 :: nat
  jv_end1 :: nat
  jv_first2 :: nat
  jv_end2 :: nat

definition live :: "join_view \<Rightarrow> int \<Rightarrow> nat \<Rightarrow> nat \<Rightarrow> int \<Rightarrow> bool" where
  "live v w i j t \<longleftrightarrow> (jv_first1 v < i \<longrightarrow> jv_time1 v (i - 1) - w \<le> t) \<and> (jv_first2 v < j \<longrightarrow> jv_time2 v (j - 1) - w \<le> t)"

text \<open>The newest tuple of a window is left out, as in the code.\<close>

function merged_pairs :: "join_view \<Rightarrow> nat \<Rightarrow> nat \<Rightarrow> (nat \<times> nat) list" where
  "merged_pairs v i j =
     (if i < jv_end1 v \<and> j < jv_end2 v then
        if jv_time1 v i < jv_time2 v j
        then map (Pair i) (filter (\<lambda>k. live v (jv_size2 v) i j (jv_time2 v k) \<and> jv_match v i k) [jv_first2 v..<j - 1])
               @ merged_pairs v (Suc i) j
        else map (\<lambda>k. (k, j)) (filter (\<lambda>k. live v (jv_size1 v) i j (jv_time1 v k) \<and> jv_match v k j) [jv_first1 v..<i - 1])
               @ merged_pairs v i (Suc j)
      else [])"
  by pat_completeness auto
termination
  by (relation "measure (\<lambda>(v, i, j). (jv_end1 v - i) + (jv_end2 v - j))") auto

declare merged_pairs.simps [simp del]

definition in_order :: "join_view \<Rightarrow> bool" where
  "in_order v \<longleftrightarrow> (\<forall>i k. jv_first1 v \<le> i \<and> i \<le> k \<and> k < jv_end1 v \<longrightarrow> jv_time1 v i \<le> jv_time1 v k)
     \<and> (\<forall>i k. jv_first2 v \<le> i \<and> i \<le> k \<and> k < jv_end2 v \<longrightarrow> jv_time2 v i \<le> jv_time2 v k)"

text \<open>The order of the steps so far.\<close>

definition crossed :: "join_view \<Rightarrow> nat \<Rightarrow> nat \<Rightarrow> bool" where
  "crossed v i j \<longleftrightarrow> jv_first1 v \<le> i \<and> i \<le> jv_end1 v \<and> jv_first2 v \<le> j \<and> j \<le> jv_end2 v
     \<and> (jv_first2 v < j \<and> i < jv_end1 v \<longrightarrow> jv_time2 v (j - 1) \<le> jv_time1 v i)
     \<and> (jv_first1 v < i \<and> j < jv_end2 v \<longrightarrow> jv_time1 v (i - 1) < jv_time2 v j)"

lemma crossed_left:
  assumes "in_order v" "crossed v i j" "i < jv_end1 v" "j < jv_end2 v" "jv_time1 v i < jv_time2 v j"
  shows "crossed v (Suc i) j"
proof -
  have "jv_time1 v i \<le> jv_time1 v (Suc i)" if "Suc i < jv_end1 v" using assms(1,2) that by (auto simp: in_order_def crossed_def)
  then show ?thesis using assms by (auto simp: crossed_def)
qed

lemma crossed_right:
  assumes "in_order v" "crossed v i j" "i < jv_end1 v" "j < jv_end2 v" "\<not> jv_time1 v i < jv_time2 v j"
  shows "crossed v i (Suc j)"
proof -
  have "jv_time2 v j \<le> jv_time2 v (Suc j)" if "Suc j < jv_end2 v" using assms(1,2) that by (auto simp: in_order_def crossed_def)
  then show ?thesis using assms by (fastforce simp: crossed_def)
qed

text \<open>Only the last step bounds the window: its timestamp is the largest so far.\<close>

lemma live_left:
  assumes "in_order v" "crossed v i j" "i < jv_end1 v"
  shows "live v w (Suc i) j t \<longleftrightarrow> jv_time1 v i - w \<le> t"
  using assms by (fastforce simp: live_def crossed_def)

lemma live_right:
  assumes "in_order v" "crossed v i j" "i < jv_end1 v" "j < jv_end2 v" "\<not> jv_time1 v i < jv_time2 v j"
  shows "live v w i (Suc j) t \<longleftrightarrow> jv_time2 v j - w \<le> t"
  using assms by (fastforce simp: live_def crossed_def)

lemma live_mono_left:
  assumes "in_order v" "crossed v i j" "i < jv_end1 v" "live v w (Suc i) j t"
  shows "live v w i j t"
proof -
  have "jv_time1 v (i - 1) \<le> jv_time1 v i" if "jv_first1 v < i"
    using assms(1,3) that by (auto simp: in_order_def)
  then show ?thesis using assms live_left [OF assms(1-3), of w t] by (fastforce simp: live_def crossed_def)
qed

lemma live_mono_right:
  assumes "in_order v" "crossed v i j" "i < jv_end1 v" "j < jv_end2 v" "\<not> jv_time1 v i < jv_time2 v j" "live v w i (Suc j) t"
  shows "live v w i j t"
proof -
  have "jv_time2 v (j - 1) \<le> jv_time2 v j" if "jv_first2 v < j"
    using assms(1,4) that by (auto simp: in_order_def)
  then show ?thesis using assms live_right [OF assms(1-5), of w t] by (fastforce simp: live_def crossed_def)
qed


section \<open>Reading tuples\<close>

definition tupleNo :: "byte list \<Rightarrow> nat \<Rightarrow> nat \<Rightarrow> byte list" where
  "tupleNo b n k = take n (drop (k * n) b)"

definition timeNo :: "byte list \<Rightarrow> nat \<Rightarrow> nat \<Rightarrow> int" where
  "timeNo b n k = to_int32 (long_val (take 8 (drop (k * n) b)))"

lemma int_index_bound:
  assumes "Suc k * n \<le> length b"
  shows "int k * int n + int n \<le> int (length b)"
proof -
  have "int (Suc k * n) \<le> int (length b)" using assms by (simp only: of_nat_le_iff)
  then show ?thesis by (simp add: algebra_simps)
qed

lemma index_sdiv: "0 < n \<Longrightarrow> int k * int n sdiv int n * int n = int k * int n"
  by (simp add: sdiv_nonneg)

lemma memread_tuple:
  assumes "Suc k * n \<le> length b"
  shows "memread b (int k * int n) (int n) = Inr (tupleNo b n k)"
  using int_index_bound [OF assms] by (simp add: memread_def tupleNo_def nat_mult_distrib)

lemma tupleAt_no: "0 < n \<Longrightarrow> Suc k * n \<le> length b \<Longrightarrow> tupleAt b (int n) (int k * int n) = Inr (tupleNo b n k)"
  by (simp add: tupleAt_def index_sdiv memread_tuple)

lemma tupleTime_no:
  assumes "8 \<le> n" "Suc k * n \<le> length b"
  shows "tupleTime b (int n) (int k * int n) = Inr (timeNo b n k)"
proof -
  have "memread b (int k * int n) 8 = Inr (take 8 (drop (k * n) b))"
    using int_index_bound [OF assms(2)] assms(1) by (simp add: memread_def nat_mult_distrib)
  then show ?thesis using assms(1) index_sdiv [of n k] by (simp add: tupleTime_def timeNo_def)
qed

lemma windowIndices_no:
  assumes "0 < n"
  shows "windowIndices (int s * int n) (int e * int n) (int n) = map (\<lambda>k. int k * int n) [s..<e]"
proof (induction "e - s" arbitrary: s)
  case 0
  then have "int e * int n \<le> int s * int n" by (intro mult_right_mono) auto
  then show ?case using 0 by (subst windowIndices.simps) auto
next
  case (Suc d)
  then have "int s * int n < int e * int n" using assms by (intro mult_strict_right_mono) auto
  moreover have "windowIndices (int (Suc s) * int n) (int e * int n) (int n) = map (\<lambda>k. int k * int n) [Suc s..<e]"
    using Suc by (intro Suc.hyps) auto
  ultimately show ?case using Suc.hyps(2) assms
    by (subst windowIndices.simps) (simp add: upt_conv_Cons algebra_simps)
qed

lemma evictOld_stops:
  assumes "8 \<le> n" "Suc q * n \<le> length b" "bound \<le> timeNo b n q"
  shows "s \<le> q \<Longrightarrow> \<exists>s'. evictOld b (int n) bound (int s * int n) = Inr (int s' * int n) \<and> s \<le> s' \<and> s' \<le> q
    \<and> (\<forall>k. s \<le> k \<and> k < s' \<longrightarrow> timeNo b n k < bound) \<and> bound \<le> timeNo b n s'"
proof (induction "q - s" arbitrary: s)
  case 0
  then have "s = q" by simp
  then show ?case using tupleTime_no [OF assms(1,2)] assms(3)
    by (subst evictOld.simps) (auto intro: exI [of _ q])
next
  case (Suc d)
  have "Suc s * n \<le> Suc q * n" using Suc.prems by (intro mult_le_mono1) auto
  then have "Suc s * n \<le> length b" using assms(2) by (rule le_trans)
  then have t: "tupleTime b (int n) (int s * int n) = Inr (timeNo b n s)" by (rule tupleTime_no [OF assms(1)])
  show ?case
  proof (cases "timeNo b n s < bound")
    case True
    obtain s' where s': "evictOld b (int n) bound (int (Suc s) * int n) = Inr (int s' * int n)" "Suc s \<le> s'" "s' \<le> q"
      "\<forall>k. Suc s \<le> k \<and> k < s' \<longrightarrow> timeNo b n k < bound" "bound \<le> timeNo b n s'"
      using Suc.hyps(1) [of "Suc s"] Suc.hyps(2) Suc_le_eq [of s q] by (metis Suc_diff_Suc diff_is_0_eq diff_less_Suc linorder_not_le nat.inject zero_less_Suc zero_less_diff)
    have "evictOld b (int n) bound (int s * int n) = Inr (int s' * int n)"
      using t True s'(1) assms(1) by (subst evictOld.simps) (simp add: algebra_simps)
    moreover have "timeNo b n k < bound" if "s \<le> k" "k < s'" for k using s'(4) True that by (cases "k = s") auto
    ultimately show ?thesis using s' by (intro exI [of _ s']) auto
  next
    case False
    then show ?thesis using t Suc.prems by (subst evictOld.simps) (auto intro: exI [of _ s])
  qed
qed

section \<open>Writing pairs\<close>

text \<open>The result of a run without its counters.\<close>

definition written :: "JoinState \<Rightarrow> byte list \<times> int" where
  "written s = (js_output s, js_writePos s)"

fun rmapped :: "('a \<Rightarrow> 'b) \<Rightarrow> 'a res \<Rightarrow> 'b res" where
  "rmapped f (Inl e) = Inl e"
| "rmapped f (Inr x) = Inr (f x)"

abbreviation rwritten :: "JoinState res \<Rightarrow> (byte list \<times> int) res" where
  "rwritten \<equiv> rmapped written"

definition writePair :: "join_code \<Rightarrow> byte list \<Rightarrow> byte list \<Rightarrow> nat \<times> nat \<Rightarrow> byte list \<times> int \<Rightarrow> (byte list \<times> int) res" where
  "writePair jc lb rb ik op =
     (let n1 = nat (jc_tupleSize1 jc); n2 = nat (jc_tupleSize2 jc) in
      if snd op + int n1 + int n2 \<ge> jc_unboundedSize jc then Inl RuntimeError
      else rbind (memcpy_to (fst op) (snd op) (tupleNo lb n1 (fst ik))) (\<lambda>b.
           rbind (memcpy_to b (snd op + int n1) (tupleNo rb n2 (snd ik))) (\<lambda>b.
             Inr (b, snd op + int n1 + int n2 + jc_padLength jc))))"

lemma emitPair_writes:
  assumes n: "jc_tupleSize1 jc = int n1" "jc_tupleSize2 jc = int n2" "0 < n1" "0 < n2"
    and "Suc i * n1 \<le> length lb" "Suc k * n2 \<le> length rb"
  shows "rwritten (emitPair jc lb rb mo (int i * int n1) (int k * int n2) s)
    = (if jc_match jc (tupleNo lb n1 i) (tupleNo rb n2 k) then writePair jc lb rb (i, k) (written s) else Inr (written s))"
proof -
  let ?s = "if mo then s\<lparr>js_invoked := js_invoked s + 1\<rparr> else s"
  have s: "js_output ?s = js_output s" "js_writePos ?s = js_writePos s" by simp_all
  note r = tupleAt_no [OF n(3) assms(5)] tupleAt_no [OF n(4) assms(6)] memread_tuple [OF assms(5)] memread_tuple [OF assms(6)]
  show ?thesis
    by (cases "memcpy_to (js_output s) (js_writePos s) (tupleNo lb n1 i)";
        cases "memcpy_to (projr (memcpy_to (js_output s) (js_writePos s) (tupleNo lb n1 i))) (js_writePos s + int n1) (tupleNo rb n2 k)")
      (auto simp: emitPair_def Let_def n r writePair_def written_def)
qed

lemma rfold_simulation:
  assumes "\<And>x s. x \<in> set xs \<Longrightarrow> rmapped p (f x s) = (if P x then g x (p s) else Inr (p s))"
  shows "rmapped p (rfold f xs s) = rfold g (filter P xs) (p s)"
  using assms
proof (induction xs arbitrary: s)
  case (Cons x xs)
  have st: "rmapped p (f x s) = (if P x then g x (p s) else Inr (p s))" by (rule Cons.prems) simp
  have run: "rmapped p (rfold f xs t) = rfold g (filter P xs) (p t)" for t
    using Cons.prems by (intro Cons.IH) auto
  show ?case
  proof (cases "f x s")
    case (Inr t)
    then have "(if P x then g x (p s) else Inr (p s)) = Inr (p t)" using st by simp
    then show ?thesis using Inr run by (cases "P x") auto
  next
    case (Inl e)
    then have "(if P x then g x (p s) else Inr (p s)) = Inl e" using st by simp
    then show ?thesis using Inl by (cases "P x") auto
  qed
qed simp

lemma rfold_map: "rfold g (map h xs) s = rfold (\<lambda>x. g (h x)) xs s"
  by (induction xs arbitrary: s) (auto intro!: arg_cong2 [where f = rbind])


section \<open>The routine follows the merge\<close>

text \<open>Two batches inside buffers of the same size, a power of two, with range-based windows.\<close>

definition view_of :: "join_code \<Rightarrow> byte list \<Rightarrow> byte list \<Rightarrow> nat \<Rightarrow> nat \<Rightarrow> nat \<Rightarrow> nat \<Rightarrow> join_view" where
  "view_of jc lb rb a e c g =
     (let n1 = nat (jc_tupleSize1 jc); n2 = nat (jc_tupleSize2 jc) in
      \<lparr>jv_time1 = timeNo lb n1, jv_time2 = timeNo rb n2, jv_size1 = wd_size (jc_window1 jc), jv_size2 = wd_size (jc_window2 jc),
       jv_match = \<lambda>i k. jc_match jc (tupleNo lb n1 i) (tupleNo rb n2 k),
       jv_first1 = a, jv_end1 = e, jv_first2 = c, jv_end2 = g\<rparr>)"

definition join_ok :: "join_code \<Rightarrow> byte list \<Rightarrow> byte list \<Rightarrow> nat \<Rightarrow> nat \<Rightarrow> bool" where
  "join_ok jc lb rb e g \<longleftrightarrow> isRangeBased (jc_window1 jc) \<and> isRangeBased (jc_window2 jc)
     \<and> 0 \<le> wd_size (jc_window1 jc) \<and> 0 \<le> wd_size (jc_window2 jc) \<and> 8 \<le> jc_tupleSize1 jc \<and> 8 \<le> jc_tupleSize2 jc
     \<and> is_pow2 (jc_mask jc + 1) \<and> int (length lb) = jc_mask jc + 1 \<and> int (length rb) = jc_mask jc + 1
     \<and> e * nat (jc_tupleSize1 jc) \<le> length lb \<and> g * nat (jc_tupleSize2 jc) \<le> length rb"

text \<open>
  The pointers of a state between steps. The window of the first batch begins at tuple \<open>s1\<close>, the first
  live one, and ends before the newest tuple.
\<close>

definition windowed :: "nat \<Rightarrow> nat \<Rightarrow> nat \<Rightarrow> nat \<Rightarrow> (nat \<Rightarrow> bool) \<Rightarrow> int \<Rightarrow> int \<Rightarrow> bool" where
  "windowed n a e i alive st en \<longleftrightarrow> en = int (if i = a then a else i - 1) * int n
     \<and> (\<exists>s. st = int s * int n \<and> a \<le> s \<and> s \<le> i \<and> (\<forall>k. a \<le> k \<and> k < e \<longrightarrow> (k < s \<longleftrightarrow> \<not> alive k)))"

definition at_step :: "join_code \<Rightarrow> join_view \<Rightarrow> nat \<Rightarrow> nat \<Rightarrow> JoinState \<Rightarrow> bool" where
  "at_step jc v i j s \<longleftrightarrow> js_index1 s = int i * jc_tupleSize1 jc \<and> js_index2 s = int j * jc_tupleSize2 jc
     \<and> windowed (nat (jc_tupleSize1 jc)) (jv_first1 v) (jv_end1 v) i (\<lambda>k. live v (jv_size1 v) i j (jv_time1 v k)) (js_start1 s) (js_end1 s)
     \<and> windowed (nat (jc_tupleSize2 jc)) (jv_first2 v) (jv_end2 v) j (\<lambda>k. live v (jv_size2 v) i j (jv_time2 v k)) (js_start2 s) (js_end2 s)"

lemma filter_window:
  assumes "a \<le> s" and "\<And>k. a \<le> k \<Longrightarrow> k < m \<Longrightarrow> (k < s \<longleftrightarrow> \<not> alive k)"
  shows "filter (\<lambda>k. alive k \<and> P k) [a..<m] = filter P [s..<m]"
proof (cases "s \<le> m")
  case True
  have "[a..<m] = [a..<s] @ [s..<m]" using assms(1) True upt_add_eq_append [of a s "m - s"] by simp
  moreover have "filter (\<lambda>k. alive k \<and> P k) [a..<s] = []" using assms(2) True by (fastforce simp: filter_empty_conv)
  moreover have "filter (\<lambda>k. alive k \<and> P k) [s..<m] = filter P [s..<m]" using assms by (intro filter_cong) (auto, metis le_trans linorder_not_le)
  ultimately show ?thesis by simp
next
  case False
  then show ?thesis using assms(2) by (auto simp: filter_empty_conv)
qed

lemma windowed_indices:
  assumes "windowed n a e i alive st en" "0 < n" "a \<le> i" "i \<le> e"
  shows "\<exists>s. windowIndices st en (int n) = map (\<lambda>k. int k * int n) [s..<i - 1] \<and> a \<le> s
    \<and> (\<forall>P. filter (\<lambda>k. alive k \<and> P k) [a..<i - 1] = filter P [s..<i - 1])"
proof -
  obtain s where s: "st = int s * int n" "a \<le> s" "s \<le> i" "\<forall>k. a \<le> k \<and> k < e \<longrightarrow> (k < s \<longleftrightarrow> \<not> alive k)"
    using assms(1) by (auto simp: windowed_def)
  have "windowIndices st en (int n) = map (\<lambda>k. int k * int n) [s..<i - 1]"
  proof (cases "i = a")
    case True
    then show ?thesis using assms(1) s windowIndices_no [OF assms(2), of s a] by (simp add: windowed_def)
  next
    case False
    then show ?thesis using assms(1) s windowIndices_no [OF assms(2), of s "i - 1"] by (simp add: windowed_def)
  qed
  moreover have "filter (\<lambda>k. alive k \<and> P k) [a..<i - 1] = filter P [s..<i - 1]" for P
    using s(2,4) assms(4) by (intro filter_window) auto
  ultimately show ?thesis using s(2) by blast
qed

text \<open>Dropping the tuples that are too old keeps the window exact when the bound only grows.\<close>

lemma windowed_evict:
  assumes w: "windowed n a e i alive st en" and n: "8 \<le> n" and len: "e * n \<le> length b"
    and i: "i < e" "a \<le> i" and new: "\<And>k. a \<le> k \<Longrightarrow> k < e \<Longrightarrow> alive' k \<longleftrightarrow> bound \<le> timeNo b n k"
    and mono: "\<And>k. a \<le> k \<Longrightarrow> k < e \<Longrightarrow> alive' k \<Longrightarrow> alive k"
    and sorted: "\<And>k l. a \<le> k \<Longrightarrow> k \<le> l \<Longrightarrow> l < e \<Longrightarrow> timeNo b n k \<le> timeNo b n l" and q: "bound \<le> timeNo b n i"
  shows "\<exists>st'. evictOld b (int n) bound st = Inr st' \<and> windowed n a e i alive' st' en
    \<and> windowed n a e (Suc i) alive' st' (int i * int n)"
proof -
  obtain s where s: "st = int s * int n" "a \<le> s" "s \<le> i" "\<forall>k. a \<le> k \<and> k < e \<longrightarrow> (k < s \<longleftrightarrow> \<not> alive k)"
    using w by (auto simp: windowed_def)
  have "Suc i * n \<le> e * n" using i by (intro mult_le_mono1) auto
  then have "Suc i * n \<le> length b" using len by (rule le_trans)
  from evictOld_stops [OF n this q s(3)] obtain s' where s': "evictOld b (int n) bound st = Inr (int s' * int n)" "s \<le> s'" "s' \<le> i"
    "\<forall>k. s \<le> k \<and> k < s' \<longrightarrow> timeNo b n k < bound" "bound \<le> timeNo b n s'"
    using s(1) by auto
  have eq: "k < s' \<longleftrightarrow> \<not> alive' k" if "a \<le> k" "k < e" for k
  proof (cases "k < s'")
    case True
    show ?thesis
    proof (cases "s \<le> k")
      case False
      then have "\<not> alive k" using s(4) that by auto
      then show ?thesis using True mono that by blast
    qed (use s'(4) True new that in auto)
  next
    case False
    then have "timeNo b n s' \<le> timeNo b n k" using s(2) s'(2) that by (intro sorted) auto
    then show ?thesis using False s'(5) new [OF that] by auto
  qed
  have "windowed n a e i alive' (int s' * int n) en" "windowed n a e (Suc i) alive' (int s' * int n) (int i * int n)"
    using w s s' eq i unfolding windowed_def by (auto intro!: exI [of _ s'])
  then show ?thesis using s'(1) by blast
qed


lemma masked_index:
  assumes "join_ok jc lb rb e g"
  shows "i < e \<Longrightarrow> and (int i * jc_tupleSize1 jc) (jc_mask jc) = int i * jc_tupleSize1 jc"
    and "j < g \<Longrightarrow> and (int j * jc_tupleSize2 jc) (jc_mask jc) = int j * jc_tupleSize2 jc"
proof -
  have m: "and x (jc_mask jc) = x mod (jc_mask jc + 1)" for x
    using assms and_mask_pow2 [of "jc_mask jc + 1" x] by (simp add: join_ok_def)
  have lt: "int i * n mod int l = int i * n" if "i < e" "e * nat n \<le> l" "8 \<le> n" for i e l and n :: int
  proof -
    have "Suc i * nat n \<le> e * nat n" using that(1) by (intro mult_le_mono1) auto
    then have "Suc i * nat n \<le> l" using that(2) by (rule le_trans)
    then have "int (Suc i * nat n) \<le> int l" by (simp only: of_nat_le_iff)
    then have "int i * n < int l" using that(3) by (simp add: algebra_simps)
    then show ?thesis using that(3) by simp
  qed
  show "and (int i * jc_tupleSize1 jc) (jc_mask jc) = int i * jc_tupleSize1 jc" if "i < e"
    using lt [OF that, of "jc_tupleSize1 jc" "length lb"] assms by (simp add: m join_ok_def)
  show "and (int j * jc_tupleSize2 jc) (jc_mask jc) = int j * jc_tupleSize2 jc" if "j < g"
    using lt [OF that, of "jc_tupleSize2 jc" "length rb"] assms by (simp add: m join_ok_def)
qed

text \<open>What a step writes and where it leaves the pointers.\<close>

definition step_ok :: "join_code \<Rightarrow> byte list \<Rightarrow> byte list \<Rightarrow> join_view \<Rightarrow> (nat \<times> nat) list \<Rightarrow> nat \<Rightarrow> nat \<Rightarrow> JoinState \<Rightarrow> JoinState res \<Rightarrow> bool" where
  "step_ok jc lb rb v ps i j s r \<longleftrightarrow>
     (case r of Inl err \<Rightarrow> rfold (writePair jc lb rb) ps (written s) = Inl err
      | Inr s' \<Rightarrow> rfold (writePair jc lb rb) ps (written s) = Inr (written s') \<and> at_step jc v i j s')"

lemma written_updates [simp]:
  "written (s\<lparr>js_index1 := x\<rparr>) = written s" "written (s\<lparr>js_index2 := x\<rparr>) = written s" "written (s\<lparr>js_end1 := x\<rparr>) = written s"
  "written (s\<lparr>js_end2 := x\<rparr>) = written s" "written (s\<lparr>js_start1 := x\<rparr>) = written s" "written (s\<lparr>js_start2 := x\<rparr>) = written s"
  by (simp_all add: written_def)

lemma join_sizes:
  assumes "join_ok jc lb rb e g"
  obtains n1 n2 where "jc_tupleSize1 jc = int n1" "jc_tupleSize2 jc = int n2" "8 \<le> n1" "8 \<le> n2"
    "e * n1 \<le> length lb" "g * n2 \<le> length rb"
  using assms by (intro that [of "nat (jc_tupleSize1 jc)" "nat (jc_tupleSize2 jc)"]) (auto simp: join_ok_def)

lemma le_length_index: "e * n \<le> l \<Longrightarrow> i < e \<Longrightarrow> Suc i * n \<le> (l :: nat)"
  by (meson Suc_leI le_trans mult_le_mono1)

text \<open>A view with the sizes of its tuples as numbers.\<close>

definition sized_view :: "join_code \<Rightarrow> byte list \<Rightarrow> byte list \<Rightarrow> join_view \<Rightarrow> nat \<Rightarrow> nat \<Rightarrow> bool" where
  "sized_view jc lb rb v n1 n2 \<longleftrightarrow> join_ok jc lb rb (jv_end1 v) (jv_end2 v)
     \<and> jc_tupleSize1 jc = int n1 \<and> jc_tupleSize2 jc = int n2 \<and> jv_time1 v = timeNo lb n1 \<and> jv_time2 v = timeNo rb n2
     \<and> wd_size (jc_window1 jc) = jv_size1 v \<and> wd_size (jc_window2 jc) = jv_size2 v
     \<and> jv_match v = (\<lambda>i k. jc_match jc (tupleNo lb n1 i) (tupleNo rb n2 k))"

lemma sized_view_of:
  "join_ok jc lb rb e g \<Longrightarrow> sized_view jc lb rb (view_of jc lb rb a e c g) (nat (jc_tupleSize1 jc)) (nat (jc_tupleSize2 jc))"
  by (auto simp: sized_view_def view_of_def Let_def join_ok_def)

lemma sized_viewD:
  assumes "sized_view jc lb rb v n1 n2"
  shows "8 \<le> n1" "8 \<le> n2" "jv_end1 v * n1 \<le> length lb" "jv_end2 v * n2 \<le> length rb"
    "jc_tupleSize1 jc = int n1" "jc_tupleSize2 jc = int n2"
    "jv_time1 v = timeNo lb n1" "jv_time2 v = timeNo rb n2" "wd_size (jc_window1 jc) = jv_size1 v"
    "wd_size (jc_window2 jc) = jv_size2 v" "jv_match v = (\<lambda>i k. jc_match jc (tupleNo lb n1 i) (tupleNo rb n2 k))"
    "0 \<le> jv_size1 v" "0 \<le> jv_size2 v" "isRangeBased (jc_window1 jc)" "isRangeBased (jc_window2 jc)"
    "\<not> isRowBased (jc_window1 jc)" "\<not> isRowBased (jc_window2 jc)"
  using assms by (auto simp: sized_view_def join_ok_def isRangeBased_def isRowBased_def)

lemma sized_view_mask:
  assumes "sized_view jc lb rb v n1 n2"
  shows "i < jv_end1 v \<Longrightarrow> and (int i * int n1) (jc_mask jc) = int i * int n1"
    and "j < jv_end2 v \<Longrightarrow> and (int j * int n2) (jc_mask jc) = int j * int n2"
  using assms masked_index [of jc lb rb "jv_end1 v" "jv_end2 v"] by (auto simp: sized_view_def)

lemma emitPair_view:
  assumes "sized_view jc lb rb v n1 n2" and "i < jv_end1 v" "k < jv_end2 v"
  shows "rwritten (emitPair jc lb rb mo (int i * int n1) (int k * int n2) t)
    = (if jv_match v i k then writePair jc lb rb (i, k) (written t) else Inr (written t))"
proof -
  note d = sized_viewD [OF assms(1)]
  have "Suc i * n1 \<le> length lb" "Suc k * n2 \<le> length rb"
    by (rule le_length_index [OF d(3) assms(2)], rule le_length_index [OF d(4) assms(3)])
  then show ?thesis using emitPair_writes [OF d(5,6), of i lb k rb mo t] d by simp
qed

lemma emit_left:
  assumes v: "sized_view jc lb rb v n1 n2" and "i < jv_end1 v" "c \<le> j" "j \<le> jv_end2 v"
    and w: "windowed n2 c (jv_end2 v) j alive st en"
  shows "rwritten (rfold (\<lambda>p. emitPair jc lb rb mo (int i * int n1) (and p (jc_mask jc))) (windowIndices st en (int n2)) s)
    = rfold (writePair jc lb rb) (map (Pair i) (filter (\<lambda>k. alive k \<and> jv_match v i k) [c..<j - 1])) (written s)"
proof -
  note d = sized_viewD [OF v]
  obtain s2 where s2: "windowIndices st en (int n2) = map (\<lambda>k. int k * int n2) [s2..<j - 1]"
    "\<forall>P. filter (\<lambda>k. alive k \<and> P k) [c..<j - 1] = filter P [s2..<j - 1]"
    using windowed_indices [OF w] d(2) assms(3,4) by auto
  have "rwritten (rfold (\<lambda>k. emitPair jc lb rb mo (int i * int n1) (and (int k * int n2) (jc_mask jc))) [s2..<j - 1] s)
      = rfold (\<lambda>k. writePair jc lb rb (i, k)) (filter (jv_match v i) [s2..<j - 1]) (written s)"
  proof (rule rfold_simulation)
    fix k t assume "k \<in> set [s2..<j - 1]"
    then have "k < jv_end2 v" using assms(4) by auto
    then show "rwritten (emitPair jc lb rb mo (int i * int n1) (and (int k * int n2) (jc_mask jc)) t)
        = (if jv_match v i k then writePair jc lb rb (i, k) (written t) else Inr (written t))"
      using emitPair_view [OF v assms(2)] sized_view_mask(2) [OF v] by simp
  qed
  then show ?thesis using s2(1) s2(2) [rule_format, of "jv_match v i"] by (simp add: rfold_map)
qed

lemma emit_right:
  assumes v: "sized_view jc lb rb v n1 n2" and "j < jv_end2 v" "a \<le> i" "i \<le> jv_end1 v"
    and w: "windowed n1 a (jv_end1 v) i alive st en"
  shows "rwritten (rfold (\<lambda>p. emitPair jc lb rb mo (and p (jc_mask jc)) (int j * int n2)) (windowIndices st en (int n1)) s)
    = rfold (writePair jc lb rb) (map (\<lambda>k. (k, j)) (filter (\<lambda>k. alive k \<and> jv_match v k j) [a..<i - 1])) (written s)"
proof -
  note d = sized_viewD [OF v]
  obtain s1 where s1: "windowIndices st en (int n1) = map (\<lambda>k. int k * int n1) [s1..<i - 1]"
    "\<forall>P. filter (\<lambda>k. alive k \<and> P k) [a..<i - 1] = filter P [s1..<i - 1]"
    using windowed_indices [OF w] d(1) assms(3,4) by auto
  have "rwritten (rfold (\<lambda>k. emitPair jc lb rb mo (and (int k * int n1) (jc_mask jc)) (int j * int n2)) [s1..<i - 1] s)
      = rfold (\<lambda>k. writePair jc lb rb (k, j)) (filter (\<lambda>k. jv_match v k j) [s1..<i - 1]) (written s)"
  proof (rule rfold_simulation)
    fix k t assume "k \<in> set [s1..<i - 1]"
    then have "k < jv_end1 v" using assms(4) by auto
    then show "rwritten (emitPair jc lb rb mo (and (int k * int n1) (jc_mask jc)) (int j * int n2) t)
        = (if jv_match v k j then writePair jc lb rb (k, j) (written t) else Inr (written t))"
      using emitPair_view [OF v _ assms(2)] sized_view_mask(1) [OF v] by simp
  qed
  then show ?thesis using s1(1) s1(2) [rule_format, of "\<lambda>k. jv_match v k j"] by (simp add: rfold_map)
qed

text \<open>The windows after a step at time \<open>t\<close>, the largest so far.\<close>

lemma evict_first:
  assumes v: "sized_view jc lb rb v n1 n2" "in_order v" and ij: "i < jv_end1 v" "jv_first1 v \<le> i"
    and w: "windowed n1 (jv_first1 v) (jv_end1 v) i (\<lambda>k. live v (jv_size1 v) i j (jv_time1 v k)) st en"
    and new: "\<And>x. live v (jv_size1 v) i' j' x \<longleftrightarrow> t - jv_size1 v \<le> x"
    and mono: "\<And>x. live v (jv_size1 v) i' j' x \<Longrightarrow> live v (jv_size1 v) i j x" and t: "t \<le> jv_time1 v i"
  shows "\<exists>st'. evictOld lb (int n1) (t - jv_size1 v) st = Inr st'
    \<and> windowed n1 (jv_first1 v) (jv_end1 v) i (\<lambda>k. live v (jv_size1 v) i' j' (jv_time1 v k)) st' en
    \<and> windowed n1 (jv_first1 v) (jv_end1 v) (Suc i) (\<lambda>k. live v (jv_size1 v) i' j' (jv_time1 v k)) st' (int i * int n1)"
proof -
  note d = sized_viewD [OF v(1)]
  have "jv_time1 v k \<le> jv_time1 v l" if "jv_first1 v \<le> k" "k \<le> l" "l < jv_end1 v" for k l
    using v(2) that by (auto simp: in_order_def)
  then show ?thesis using d(7,12) new mono t by (intro windowed_evict [OF w d(1,3) ij]) auto
qed

lemma evict_second:
  assumes v: "sized_view jc lb rb v n1 n2" "in_order v" and ij: "j < jv_end2 v" "jv_first2 v \<le> j"
    and w: "windowed n2 (jv_first2 v) (jv_end2 v) j (\<lambda>k. live v (jv_size2 v) i j (jv_time2 v k)) st en"
    and new: "\<And>x. live v (jv_size2 v) i' j' x \<longleftrightarrow> t - jv_size2 v \<le> x"
    and mono: "\<And>x. live v (jv_size2 v) i' j' x \<Longrightarrow> live v (jv_size2 v) i j x" and t: "t \<le> jv_time2 v j"
  shows "\<exists>st'. evictOld rb (int n2) (t - jv_size2 v) st = Inr st'
    \<and> windowed n2 (jv_first2 v) (jv_end2 v) j (\<lambda>k. live v (jv_size2 v) i' j' (jv_time2 v k)) st' en
    \<and> windowed n2 (jv_first2 v) (jv_end2 v) (Suc j) (\<lambda>k. live v (jv_size2 v) i' j' (jv_time2 v k)) st' (int j * int n2)"
proof -
  note d = sized_viewD [OF v(1)]
  have "jv_time2 v k \<le> jv_time2 v l" if "jv_first2 v \<le> k" "k \<le> l" "l < jv_end2 v" for k l
    using v(2) that by (auto simp: in_order_def)
  then show ?thesis using d(8,13) new mono t by (intro windowed_evict [OF w d(2,4) ij]) auto
qed

lemma step_times:
  assumes v: "sized_view jc lb rb v n1 n2" and "i < jv_end1 v" "j < jv_end2 v" and "at_step jc v i j s"
  shows "and (js_index1 s) (jc_mask jc) = int i * int n1" "and (js_index2 s) (jc_mask jc) = int j * int n2"
    "tupleTime lb (int n1) (int i * int n1) = Inr (jv_time1 v i)" "tupleTime rb (int n2) (int j * int n2) = Inr (jv_time2 v j)"
    "js_index1 s = int i * int n1" "js_index2 s = int j * int n2"
proof -
  note d = sized_viewD [OF v]
  show "js_index1 s = int i * int n1" "js_index2 s = int j * int n2" using assms(4) d by (auto simp: at_step_def)
  then show "and (js_index1 s) (jc_mask jc) = int i * int n1" "and (js_index2 s) (jc_mask jc) = int j * int n2"
    using sized_view_mask [OF v] assms(2,3) by auto
  show "tupleTime lb (int n1) (int i * int n1) = Inr (jv_time1 v i)" "tupleTime rb (int n2) (int j * int n2) = Inr (jv_time2 v j)"
    using tupleTime_no [OF d(1) le_length_index [OF d(3) assms(2)]] tupleTime_no [OF d(2) le_length_index [OF d(4) assms(3)]] d by auto
qed

lemma step_left:
  assumes v: "sized_view jc lb rb v n1 n2" and ord: "in_order v" "crossed v i j"
    and ij: "i < jv_end1 v" "j < jv_end2 v" and st: "at_step jc v i j s" and less: "jv_time1 v i < jv_time2 v j"
  shows "step_ok jc lb rb v (map (Pair i) (filter (\<lambda>k. live v (jv_size2 v) i j (jv_time2 v k) \<and> jv_match v i k) [jv_first2 v..<j - 1]))
    (Suc i) j s (joinStep jc lb rb mo end2 s)"
proof -
  note d = sized_viewD [OF v] and t = step_times [OF v ij st]
  have c: "jv_first1 v \<le> i" "jv_first2 v \<le> j" using ord(2) by (auto simp: crossed_def)
  have w: "windowed n1 (jv_first1 v) (jv_end1 v) i (\<lambda>k. live v (jv_size1 v) i j (jv_time1 v k)) (js_start1 s) (js_end1 s)"
    "windowed n2 (jv_first2 v) (jv_end2 v) j (\<lambda>k. live v (jv_size2 v) i j (jv_time2 v k)) (js_start2 s) (js_end2 s)"
    using st d by (auto simp: at_step_def)
  let ?run = "rfold (\<lambda>p. emitPair jc lb rb mo (int i * int n1) (and p (jc_mask jc))) (windowIndices (js_start2 s) (js_end2 s) (int n2)) s"
  note emit = emit_left [OF v ij(1) c(2) less_imp_le [OF ij(2)] w(2), of mo s]
  show ?thesis
  proof (cases ?run)
    case (Inl err)
    then show ?thesis using emit t less d(5,6) by (simp add: step_ok_def joinStep_def)
  next
    case (Inr u)
    note f = emitPairs_frame [where f = "\<lambda>_. int i * int n1" and g = "\<lambda>p. and p (jc_mask jc)", OF Inr]
    note lv = live_left [OF ord ij(1)] and mono = live_mono_left [OF ord ij(1)]
    obtain st1 where st1: "evictOld lb (int n1) (jv_time1 v i - jv_size1 v) (js_start1 s) = Inr st1"
      "windowed n1 (jv_first1 v) (jv_end1 v) (Suc i) (\<lambda>k. live v (jv_size1 v) (Suc i) j (jv_time1 v k)) st1 (int i * int n1)"
      using evict_first [OF v ord(1) ij(1) c(1) w(1) lv mono] by blast
    obtain st2 where st2: "evictOld rb (int n2) (jv_time1 v i - jv_size2 v) (js_start2 s) = Inr st2"
      "windowed n2 (jv_first2 v) (jv_end2 v) j (\<lambda>k. live v (jv_size2 v) (Suc i) j (jv_time2 v k)) st2 (js_end2 s)"
      using evict_second [OF v ord(1) ij(2) c(2) w(2) lv mono] less by (meson less_imp_le)
    let ?s' = "u\<lparr>js_end1 := int i * int n1, js_start1 := st1, js_start2 := st2, js_index1 := int i * int n1 + int n1\<rparr>"
    have "joinStep jc lb rb mo end2 s = Inr ?s'"
      using Inr t less d f st1(1) st2(1) by (simp add: joinStep_def moveFirst_def Let_def)
    moreover have "at_step jc v (Suc i) j ?s'"
      using st1(2) st2(2) t d f by (simp add: at_step_def algebra_simps)
    moreover have "written ?s' = written u" by simp
    ultimately show ?thesis using emit Inr by (simp add: step_ok_def)
  qed
qed


lemma step_right:
  assumes v: "sized_view jc lb rb v n1 n2" and ord: "in_order v" "crossed v i j"
    and ij: "i < jv_end1 v" "j < jv_end2 v" and st: "at_step jc v i j s" and less: "\<not> jv_time1 v i < jv_time2 v j"
    and end2: "end2 = int (jv_end2 v) * int n2"
  shows "step_ok jc lb rb v (map (\<lambda>k. (k, j)) (filter (\<lambda>k. live v (jv_size1 v) i j (jv_time1 v k) \<and> jv_match v k j) [jv_first1 v..<i - 1]))
    i (Suc j) s (joinStep jc lb rb mo end2 s)"
proof -
  note d = sized_viewD [OF v] and t = step_times [OF v ij st]
  have c: "jv_first1 v \<le> i" "jv_first2 v \<le> j" using ord(2) by (auto simp: crossed_def)
  have "int j * int n2 < end2" unfolding end2 using ij(2) d(2) by (intro mult_strict_right_mono) auto
  then have br: "\<not> jv_time1 v i < jv_time2 v j" "\<not> end2 \<le> int j * int n2" using less by auto
  have w: "windowed n1 (jv_first1 v) (jv_end1 v) i (\<lambda>k. live v (jv_size1 v) i j (jv_time1 v k)) (js_start1 s) (js_end1 s)"
    "windowed n2 (jv_first2 v) (jv_end2 v) j (\<lambda>k. live v (jv_size2 v) i j (jv_time2 v k)) (js_start2 s) (js_end2 s)"
    using st d by (auto simp: at_step_def)
  let ?run = "rfold (\<lambda>p. emitPair jc lb rb mo (and p (jc_mask jc)) (int j * int n2)) (windowIndices (js_start1 s) (js_end1 s) (int n1)) s"
  note emit = emit_right [OF v ij(2) c(1) less_imp_le [OF ij(1)] w(1), of mo s]
  show ?thesis
  proof (cases ?run)
    case (Inl err)
    then show ?thesis using emit t br d(5,6) by (auto simp: step_ok_def joinStep_def Let_def)
  next
    case (Inr u)
    note f = emitPairs_frame [where f = "\<lambda>p. and p (jc_mask jc)" and g = "\<lambda>_. int j * int n2", OF Inr]
    note lv = live_right [OF ord ij less] and mono = live_mono_right [OF ord ij less]
    obtain st2 where st2: "evictOld rb (int n2) (jv_time2 v j - jv_size2 v) (js_start2 s) = Inr st2"
      "windowed n2 (jv_first2 v) (jv_end2 v) (Suc j) (\<lambda>k. live v (jv_size2 v) i (Suc j) (jv_time2 v k)) st2 (int j * int n2)"
      using evict_second [OF v ord(1) ij(2) c(2) w(2) lv mono] by blast
    obtain st1 where st1: "evictOld lb (int n1) (jv_time2 v j - jv_size1 v) (js_start1 s) = Inr st1"
      "windowed n1 (jv_first1 v) (jv_end1 v) i (\<lambda>k. live v (jv_size1 v) i (Suc j) (jv_time1 v k)) st1 (js_end1 s)"
      using evict_first [OF v ord(1) ij(1) c(1) w(1) lv mono] less by (meson not_less)
    let ?s' = "u\<lparr>js_end2 := int j * int n2, js_start1 := st1, js_start2 := st2, js_index2 := int j * int n2 + int n2\<rparr>"
    have "joinStep jc lb rb mo end2 s = Inr ?s'"
      using Inr t br d f st1(1) st2(1) by (simp add: joinStep_def moveSecond_def Let_def)
    moreover have "at_step jc v i (Suc j) ?s'"
      using st1(2) st2(2) t d f by (simp add: at_step_def algebra_simps)
    moreover have "written ?s' = written u" by simp
    ultimately show ?thesis using emit Inr by (simp add: step_ok_def)
  qed
qed

lemma joinLoop_step:
  assumes "js_index1 s < end1" "js_index2 s < end2" "0 < jc_tupleSize1 jc" "0 < jc_tupleSize2 jc"
    and step: "step_ok jc lb rb v ps i' j' s (joinStep jc lb rb mo end2 s)"
    and rest: "\<And>s'. at_step jc v i' j' s' \<Longrightarrow> rwritten (joinLoop jc lb rb mo end1 end2 s') = rfold (writePair jc lb rb) qs (written s')"
  shows "rwritten (joinLoop jc lb rb mo end1 end2 s) = rfold (writePair jc lb rb) (ps @ qs) (written s)"
  using assms by (subst joinLoop.simps) (auto simp: step_ok_def rfold_append split: sum.splits)

lemma joinLoop_merges:
  assumes v: "sized_view jc lb rb v n1 n2" and ord: "in_order v"
    and ends: "end1 = int (jv_end1 v) * int n1" "end2 = int (jv_end2 v) * int n2"
  shows "crossed v i j \<Longrightarrow> at_step jc v i j s \<Longrightarrow>
    rwritten (joinLoop jc lb rb mo end1 end2 s) = rfold (writePair jc lb rb) (merged_pairs v i j) (written s)"
proof (induction "jv_end1 v - i + (jv_end2 v - j)" arbitrary: i j s rule: less_induct)
  case less
  note d = sized_viewD [OF v]
  have idx: "js_index1 s = int i * int n1" "js_index2 s = int j * int n2" using less.prems(2) d by (auto simp: at_step_def)
  have lt: "js_index1 s < end1 \<longleftrightarrow> i < jv_end1 v" "js_index2 s < end2 \<longleftrightarrow> j < jv_end2 v"
    unfolding idx ends using d(1,2) by auto
  show ?case
  proof (cases "i < jv_end1 v \<and> j < jv_end2 v")
    case False
    then show ?thesis using lt by (subst joinLoop.simps, subst merged_pairs.simps) auto
  next
    case True
    then have ij: "i < jv_end1 v" "j < jv_end2 v" by auto
    note pos = lt(1) [THEN iffD2, OF ij(1)] lt(2) [THEN iffD2, OF ij(2)]
    have n: "0 < jc_tupleSize1 jc" "0 < jc_tupleSize2 jc" using d by auto
    show ?thesis
    proof (cases "jv_time1 v i < jv_time2 v j")
      case True
      have "rwritten (joinLoop jc lb rb mo end1 end2 s') = rfold (writePair jc lb rb) (merged_pairs v (Suc i) j) (written s')"
        if "at_step jc v (Suc i) j s'" for s'
        using crossed_left [OF ord less.prems(1) ij True] that ij by (intro less.hyps) auto
      from joinLoop_step [OF pos n step_left [OF v ord less.prems(1) ij less.prems(2) True] this] show ?thesis
        using ij True by (subst merged_pairs.simps) simp
    next
      case False
      have "rwritten (joinLoop jc lb rb mo end1 end2 s') = rfold (writePair jc lb rb) (merged_pairs v i (Suc j)) (written s')"
        if "at_step jc v i (Suc j) s'" for s'
        using crossed_right [OF ord less.prems(1) ij False] that ij by (intro less.hyps) auto
      from joinLoop_step [OF pos n step_right [OF v ord less.prems(1) ij less.prems(2) False ends(2)] this] show ?thesis
        using ij False by (subst merged_pairs.simps) simp
    qed
  qed
qed


lemma joinStart_at_step:
  assumes "sized_view jc lb rb v n1 n2"
  shows "at_step jc v (jv_first1 v) (jv_first2 v)
    (joinStart (int (jv_first1 v) * int n1) (int (jv_first2 v) * int n2) out pos ivk mtc)"
  using sized_viewD [OF assms] by (auto simp: at_step_def joinStart_def windowed_def live_def)

text \<open>A run of writes that fits, and where its pairs are.\<close>

lemma write_at_nth_other:
  assumes "i + length vs \<le> length b" "p + m \<le> i \<or> i + length vs \<le> p"
  shows "take m (drop p (write_at i vs b)) = take m (drop p b)"
proof (rule nth_equalityI)
  have "length (write_at i vs b) = length b" using assms(1) by (simp add: write_at_def)
  then show "length (take m (drop p (write_at i vs b))) = length (take m (drop p b))" by simp
  fix k assume "k < length (take m (drop p (write_at i vs b)))"
  then show "take m (drop p (write_at i vs b)) ! k = take m (drop p b) ! k"
    using assms by (auto simp: write_at_def nth_append)
qed

lemma writePair_ok:
  assumes "jc_tupleSize1 jc = int n1" "jc_tupleSize2 jc = int n2" "length (tupleNo lb n1 i) = n1" "length (tupleNo rb n2 k) = n2"
    and "int pos + int n1 + int n2 < jc_unboundedSize jc" "jc_unboundedSize jc \<le> int (length out)"
  shows "writePair jc lb rb (i, k) (out, int pos)
    = Inr (write_at (pos + n1) (tupleNo rb n2 k) (write_at pos (tupleNo lb n1 i) out), int pos + int n1 + int n2 + jc_padLength jc)"
proof -
  have "memcpy_to out (int pos) (tupleNo lb n1 i) = Inr (write_at pos (tupleNo lb n1 i) out)"
    using assms by (simp add: memcpy_to_def)
  moreover have "length (write_at pos (tupleNo lb n1 i) out) = length out" using assms by (simp add: write_at_def)
  then have "memcpy_to (write_at pos (tupleNo lb n1 i) out) (int pos + int n1) (tupleNo rb n2 k)
      = Inr (write_at (pos + n1) (tupleNo rb n2 k) (write_at pos (tupleNo lb n1 i) out))"
    using assms by (simp add: memcpy_to_def nat_add_distrib)
  ultimately show ?thesis using assms by (simp add: writePair_def)
qed

lemma writePair_bytes:
  assumes "length x = n1" "length y = n2" "pos + n1 + n2 \<le> length out"
  shows "take (n1 + n2) (drop pos (write_at (pos + n1) y (write_at pos x out))) = x @ y"
    and "length (write_at (pos + n1) y (write_at pos x out)) = length out"
    and "p + m \<le> pos \<or> pos + n1 + n2 \<le> p \<Longrightarrow>
      take m (drop p (write_at (pos + n1) y (write_at pos x out))) = take m (drop p out)"
proof -
  have l: "length (write_at pos x out) = length out" using assms by (simp add: write_at_def)
  show "length (write_at (pos + n1) y (write_at pos x out)) = length out" using assms l by (simp add: write_at_def)
  have "drop pos (write_at (pos + n1) y (write_at pos x out)) = x @ y @ drop (pos + n1 + n2) out"
    using assms by (simp add: write_at_def add.commute [of n2])
  then show "take (n1 + n2) (drop pos (write_at (pos + n1) y (write_at pos x out))) = x @ y" using assms by simp
  show "take m (drop p (write_at (pos + n1) y (write_at pos x out))) = take m (drop p out)"
    if "p + m \<le> pos \<or> pos + n1 + n2 \<le> p"
    using that assms l write_at_nth_other [of "pos + n1" y "write_at pos x out" p m] write_at_nth_other [of pos x out p m]
    by auto
qed


lemma writePairs_ok:
  assumes n: "jc_tupleSize1 jc = int n1" "jc_tupleSize2 jc = int n2" "jc_padLength jc = int p"
    and tuples: "\<forall>(i, k) \<in> set ps. length (tupleNo lb n1 i) = n1 \<and> length (tupleNo rb n2 k) = n2"
    and room: "int (pos + length ps * (n1 + n2 + p)) < jc_unboundedSize jc" "jc_unboundedSize jc \<le> int (length out)"
  shows "\<exists>out'. rfold (writePair jc lb rb) ps (out, int pos) = Inr (out', int (pos + length ps * (n1 + n2 + p)))
    \<and> length out' = length out \<and> (\<forall>q m. q + m \<le> pos \<longrightarrow> take m (drop q out') = take m (drop q out))
    \<and> (\<forall>x < length ps. take (n1 + n2) (drop (pos + x * (n1 + n2 + p)) out')
         = tupleNo lb n1 (fst (ps ! x)) @ tupleNo rb n2 (snd (ps ! x)))"
  using tuples room
proof (induction ps arbitrary: pos out)
  case (Cons ik ps)
  obtain i k where ik: "ik = (i, k)" by force
  have l: "length (tupleNo lb n1 i) = n1" "length (tupleNo rb n2 k) = n2" using Cons.prems(1) ik by auto
  let ?d = "n1 + n2 + p"
  let ?out = "write_at (pos + n1) (tupleNo rb n2 k) (write_at pos (tupleNo lb n1 i) out)"
  have r: "int (pos + ?d + length ps * ?d) < jc_unboundedSize jc" using Cons.prems(2) by (simp add: algebra_simps)
  have "int (pos + n1 + n2) \<le> int (pos + ?d + length ps * ?d)" by (simp only: of_nat_le_iff)
  then have "int (pos + n1 + n2) < jc_unboundedSize jc" using r by (rule le_less_trans)
  then have u: "int pos + int n1 + int n2 < jc_unboundedSize jc" by simp
  then have le: "pos + n1 + n2 \<le> length out" using Cons.prems(3) by linarith
  note b = writePair_bytes [OF l le]
  have w: "writePair jc lb rb (i, k) (out, int pos) = Inr (?out, int (pos + ?d))"
    using writePair_ok [OF n(1,2) l u Cons.prems(3)] n(3) by simp
  obtain out' where o: "rfold (writePair jc lb rb) ps (?out, int (pos + ?d)) = Inr (out', int (pos + ?d + length ps * ?d))"
    "length out' = length ?out" "\<forall>q m. q + m \<le> pos + ?d \<longrightarrow> take m (drop q out') = take m (drop q ?out)"
    "\<forall>x < length ps. take (n1 + n2) (drop (pos + ?d + x * ?d) out') = tupleNo lb n1 (fst (ps ! x)) @ tupleNo rb n2 (snd (ps ! x))"
    using Cons.IH [of "pos + ?d" ?out] Cons.prems r b(2) by auto
  have "take (n1 + n2) (drop (pos + x * ?d) out') = tupleNo lb n1 (fst ((ik # ps) ! x)) @ tupleNo rb n2 (snd ((ik # ps) ! x))"
    if "x < length (ik # ps)" for x
  proof (cases x)
    case 0
    then show ?thesis using o(3) [rule_format, of pos "n1 + n2"] b(1) ik by simp
  next
    case (Suc y)
    then show ?thesis using o(4) that by (simp add: add.assoc)
  qed
  moreover have "take m (drop q out') = take m (drop q out)" if "q + m \<le> pos" for q m
    using o(3) [rule_format, of q m] b(3) [of q m] that by simp
  ultimately show ?case using w o(1,2) b(2) ik by (auto simp: add.assoc)
qed simp

lemma merged_pairs_range:
  "(x, y) \<in> set (merged_pairs v i j) \<Longrightarrow> x < jv_end1 v \<and> y < jv_end2 v"
  by (induction v i j rule: merged_pairs.induct) (subst (asm) (3) merged_pairs.simps, auto split: if_splits)


section \<open>The output of the routine\<close>

lemma processJoin_written:
  assumes "join_ok jc lb rb e g" and v: "v = view_of jc lb rb a e c g" and "in_order v" "a \<le> e" "c \<le> g"
    and n: "jc_tupleSize1 jc = int n1" "jc_tupleSize2 jc = int n2"
  shows "rmapped (\<lambda>(out, pos, _). (out, pos))
      (processJoin jc (int a * int n1) (int c * int n2) (int e * int n1) (int g * int n2) lb rb out pos mo ivk mtc)
    = rfold (writePair jc lb rb) (merged_pairs v a c) (out, pos)"
proof -
  have sv: "sized_view jc lb rb v n1 n2" using sized_view_of [OF assms(1)] v n by simp
  have f: "jv_first1 v = a" "jv_end1 v = e" "jv_first2 v = c" "jv_end2 v = g" using v by (simp_all add: view_of_def Let_def)
  have "crossed v a c" using f assms(4,5) by (simp add: crossed_def)
  from joinLoop_merges [OF sv assms(3) refl refl this] joinStart_at_step [OF sv] f
  have "rwritten (joinLoop jc lb rb mo (int e * int n1) (int g * int n2) (joinStart (int a * int n1) (int c * int n2) out pos ivk mtc))
      = rfold (writePair jc lb rb) (merged_pairs v a c) (out, pos)" by (simp add: joinStart_def written_def)
  then show ?thesis
    by (cases "joinLoop jc lb rb mo (int e * int n1) (int g * int n2) (joinStart (int a * int n1) (int c * int n2) out pos ivk mtc)")
      (simp_all add: processJoin_def written_def)
qed

lemma view_tuples:
  assumes "join_ok jc lb rb e g" and n: "jc_tupleSize1 jc = int n1" "jc_tupleSize2 jc = int n2" and "i < e" "k < g"
  shows "length (tupleNo lb n1 i) = n1" "length (tupleNo rb n2 k) = n2"
proof -
  have "Suc i * n1 \<le> length lb" "Suc k * n2 \<le> length rb"
    using assms le_length_index [of e n1 "length lb" i] le_length_index [of g n2 "length rb" k] by (auto simp: join_ok_def)
  then show "length (tupleNo lb n1 i) = n1" "length (tupleNo rb n2 k) = n2" by (auto simp: tupleNo_def)
qed

lemma writePairs_overflow:
  assumes n: "jc_tupleSize1 jc = int n1" "jc_tupleSize2 jc = int n2" "jc_padLength jc = int p"
    and tuples: "\<forall>(i, k) \<in> set ps. length (tupleNo lb n1 i) = n1 \<and> length (tupleNo rb n2 k) = n2"
    and full: "ps \<noteq> []" "jc_unboundedSize jc \<le> int (pos + (length ps - 1) * (n1 + n2 + p) + n1 + n2)"
    and "jc_unboundedSize jc \<le> int (length out)"
  shows "rfold (writePair jc lb rb) ps (out, int pos) = Inl RuntimeError"
  using tuples full assms(7)
proof (induction ps arbitrary: pos out)
  case (Cons ik ps)
  obtain i k where ik: "ik = (i, k)" by force
  have l: "length (tupleNo lb n1 i) = n1" "length (tupleNo rb n2 k) = n2" using Cons.prems(1) ik by auto
  show ?case
  proof (cases "int pos + int n1 + int n2 < jc_unboundedSize jc")
    case True
    let ?out = "write_at (pos + n1) (tupleNo rb n2 k) (write_at pos (tupleNo lb n1 i) out)"
    have ne: "ps \<noteq> []" using True Cons.prems(3) by auto
    then obtain m where m: "length ps = Suc m" by (cases ps) auto
    have le: "pos + n1 + n2 \<le> length out" using True Cons.prems(4) by linarith
    have "int (pos + (n1 + n2 + p) + (length ps - 1) * (n1 + n2 + p) + n1 + n2) = int (pos + (length (ik # ps) - 1) * (n1 + n2 + p) + n1 + n2)"
      using m by simp
    then have "rfold (writePair jc lb rb) ps (?out, int (pos + (n1 + n2 + p))) = Inl RuntimeError"
      using Cons.prems ne writePair_bytes(2) [OF l le] by (intro Cons.IH) auto
    moreover have "writePair jc lb rb (i, k) (out, int pos) = Inr (?out, int (pos + (n1 + n2 + p)))"
      using writePair_ok [OF n(1,2) l True Cons.prems(4)] n(3) by simp
    ultimately show ?thesis using ik by simp
  qed (use ik n in \<open>simp add: writePair_def\<close>)
qed simp

text \<open>
  The routine writes the pairs of the merge one behind the other, with the padding between them, when they
  fit, and raises an error otherwise.
\<close>

lemma join_writes_merge:
  assumes "join_ok jc lb rb e g" and "v = view_of jc lb rb a e c g" and "in_order v" "a \<le> e" "c \<le> g"
    and n: "jc_tupleSize1 jc = int n1" "jc_tupleSize2 jc = int n2" "jc_padLength jc = int p"
    and ps: "ps = merged_pairs v a c" and out: "jc_unboundedSize jc \<le> int (length out)"
  shows "int (pos + length ps * (n1 + n2 + p)) < jc_unboundedSize jc \<Longrightarrow>
      \<exists>out' ivk' mtc'. processJoin jc (int a * int n1) (int c * int n2) (int e * int n1) (int g * int n2) lb rb out (int pos) mo ivk mtc
          = Inr (out', int (pos + length ps * (n1 + n2 + p)), ivk', mtc')
        \<and> (\<forall>x < length ps. take (n1 + n2) (drop (pos + x * (n1 + n2 + p)) out')
             = tupleNo lb n1 (fst (ps ! x)) @ tupleNo rb n2 (snd (ps ! x)))"
    and "ps \<noteq> [] \<Longrightarrow> jc_unboundedSize jc \<le> int (pos + (length ps - 1) * (n1 + n2 + p) + n1 + n2) \<Longrightarrow>
      processJoin jc (int a * int n1) (int c * int n2) (int e * int n1) (int g * int n2) lb rb out (int pos) mo ivk mtc = Inl RuntimeError"
proof -
  let ?r = "processJoin jc (int a * int n1) (int c * int n2) (int e * int n1) (int g * int n2) lb rb out (int pos) mo ivk mtc"
  note w = processJoin_written [OF assms(1-5) n(1,2), of out "int pos" mo ivk mtc, folded ps]
  have "jv_end1 v = e" "jv_end2 v = g" using assms(2) by (simp_all add: view_of_def Let_def)
  then have "i < e \<and> k < g" if "(i, k) \<in> set ps" for i k using merged_pairs_range [of i k v a c] that ps by simp
  then have t: "\<forall>(i, k) \<in> set ps. length (tupleNo lb n1 i) = n1 \<and> length (tupleNo rb n2 k) = n2"
    using view_tuples [OF assms(1) n(1,2)] by blast
  show "\<exists>out' ivk' mtc'. ?r = Inr (out', int (pos + length ps * (n1 + n2 + p)), ivk', mtc')
        \<and> (\<forall>x < length ps. take (n1 + n2) (drop (pos + x * (n1 + n2 + p)) out')
             = tupleNo lb n1 (fst (ps ! x)) @ tupleNo rb n2 (snd (ps ! x)))"
    if "int (pos + length ps * (n1 + n2 + p)) < jc_unboundedSize jc"
    using writePairs_ok [OF n t that out] w by (cases ?r) auto
  show "?r = Inl RuntimeError" if "ps \<noteq> []" "jc_unboundedSize jc \<le> int (pos + (length ps - 1) * (n1 + n2 + p) + n1 + n2)"
    using writePairs_overflow [OF n t that out] w by (cases ?r) auto
qed

end
