(* ===== verification/JoinPairs.thy ===== *)
theory JoinPairs
  imports JoinOutput
begin

text \<open>
  The pairs of tuples the join operator puts out, in closed form, what happens when they do not fit, the pairs
  that are missing, and the reads of a batch that wraps around.
\<close>

section \<open>The pairs in closed form\<close>

text \<open>
  The tuple \<open>i\<close> of the first batch is joined with the older tuple \<open>k\<close> of the second one: \<open>k\<close> is not the newest
  before \<open>i\<close>, the second batch has tuples behind \<open>i\<close>, and no earlier tuple is more than the window ahead of
  \<open>k\<close>. The same for a tuple of the second batch, which comes first when the timestamps are equal.
\<close>

definition joined_first :: "join_view \<Rightarrow> nat \<Rightarrow> nat \<Rightarrow> bool" where
  "joined_first v i k \<longleftrightarrow> jv_first2 v \<le> k \<and> Suc k < jv_end2 v \<and> jv_time2 v (Suc k) \<le> jv_time1 v i
     \<and> jv_time1 v i < jv_time2 v (jv_end2 v - 1) \<and> (jv_first1 v < i \<longrightarrow> jv_time1 v (i - 1) - jv_size2 v \<le> jv_time2 v k)
     \<and> (\<forall>l. jv_first2 v \<le> l \<and> l < jv_end2 v \<and> jv_time2 v l \<le> jv_time1 v i \<longrightarrow> jv_time2 v l - jv_size2 v \<le> jv_time2 v k)"

definition joined_second :: "join_view \<Rightarrow> nat \<Rightarrow> nat \<Rightarrow> bool" where
  "joined_second v k j \<longleftrightarrow> jv_first1 v \<le> k \<and> Suc k < jv_end1 v \<and> jv_time1 v (Suc k) < jv_time2 v j
     \<and> jv_time2 v j \<le> jv_time1 v (jv_end1 v - 1) \<and> (jv_first2 v < j \<longrightarrow> jv_time2 v (j - 1) - jv_size1 v \<le> jv_time1 v k)
     \<and> (\<forall>l. jv_first1 v \<le> l \<and> l < jv_end1 v \<and> jv_time1 v l < jv_time2 v j \<longrightarrow> jv_time1 v l - jv_size1 v \<le> jv_time1 v k)"

lemma in_orderD:
  assumes "in_order v"
  shows "jv_first1 v \<le> i \<Longrightarrow> i \<le> k \<Longrightarrow> k < jv_end1 v \<Longrightarrow> jv_time1 v i \<le> jv_time1 v k"
    and "jv_first2 v \<le> i \<Longrightarrow> i \<le> k \<Longrightarrow> k < jv_end2 v \<Longrightarrow> jv_time2 v i \<le> jv_time2 v k"
  using assms by (auto simp: in_order_def)

lemma joined_first_iff:
  assumes ord: "in_order v" "crossed v i j" and ij: "i < jv_end1 v" "j < jv_end2 v" and less: "jv_time1 v i < jv_time2 v j"
  shows "k \<in> set [jv_first2 v..<j - 1] \<and> live v (jv_size2 v) i j (jv_time2 v k) \<longleftrightarrow> joined_first v i k"
proof
  note o = in_orderD(2) [OF ord(1)]
  have c: "jv_first2 v \<le> j" "jv_first2 v < j \<Longrightarrow> jv_time2 v (j - 1) \<le> jv_time1 v i" using ord(2) ij by (auto simp: crossed_def)
  have late: "l < j" if "jv_first2 v \<le> l" "l < jv_end2 v" "jv_time2 v l \<le> jv_time1 v i" for l
    using o [of j l] c(1) that less by (cases "l < j") auto
  show "joined_first v i k" if h: "k \<in> set [jv_first2 v..<j - 1] \<and> live v (jv_size2 v) i j (jv_time2 v k)"
  proof -
    have k: "jv_first2 v \<le> k" "Suc k < j" using h by auto
    have "jv_time2 v (Suc k) \<le> jv_time2 v (j - 1)" using k ij by (intro o) auto
    moreover have "jv_time2 v j \<le> jv_time2 v (jv_end2 v - 1)" using c ij by (intro o) auto
    moreover have "jv_time2 v l \<le> jv_time2 v (j - 1)" if "jv_first2 v \<le> l" "l < jv_end2 v" "jv_time2 v l \<le> jv_time1 v i" for l
      using late [OF that] that(1) ij by (intro o) auto
    ultimately show ?thesis using k h c less ij unfolding joined_first_def live_def by fastforce
  qed
  show "k \<in> set [jv_first2 v..<j - 1] \<and> live v (jv_size2 v) i j (jv_time2 v k)" if h: "joined_first v i k"
  proof -
    have "Suc k < j" using late [of "Suc k"] h by (simp add: joined_first_def)
    moreover have "jv_time2 v (j - 1) - jv_size2 v \<le> jv_time2 v k"
      using h c ij \<open>Suc k < j\<close> unfolding joined_first_def by (elim conjE allE [of _ "j - 1"]) auto
    ultimately show ?thesis using h ij by (auto simp: joined_first_def live_def)
  qed
qed

lemma joined_second_iff:
  assumes ord: "in_order v" "crossed v i j" and ij: "i < jv_end1 v" "j < jv_end2 v" and less: "\<not> jv_time1 v i < jv_time2 v j"
  shows "k \<in> set [jv_first1 v..<i - 1] \<and> live v (jv_size1 v) i j (jv_time1 v k) \<longleftrightarrow> joined_second v k j"
proof
  note o = in_orderD(1) [OF ord(1)]
  have c: "jv_first1 v \<le> i" "jv_first1 v < i \<Longrightarrow> jv_time1 v (i - 1) < jv_time2 v j" using ord(2) ij by (auto simp: crossed_def)
  have late: "l < i" if "jv_first1 v \<le> l" "l < jv_end1 v" "jv_time1 v l < jv_time2 v j" for l
    using o [of i l] c(1) that less by (cases "l < i") auto
  show "joined_second v k j" if h: "k \<in> set [jv_first1 v..<i - 1] \<and> live v (jv_size1 v) i j (jv_time1 v k)"
  proof -
    have k: "jv_first1 v \<le> k" "Suc k < i" using h by auto
    have "jv_time1 v (Suc k) \<le> jv_time1 v (i - 1)" using k ij by (intro o) auto
    moreover have "jv_time1 v i \<le> jv_time1 v (jv_end1 v - 1)" using c ij by (intro o) auto
    moreover have "jv_time1 v l \<le> jv_time1 v (i - 1)" if "jv_first1 v \<le> l" "l < jv_end1 v" "jv_time1 v l < jv_time2 v j" for l
      using late [OF that] that(1) ij by (intro o) auto
    ultimately show ?thesis using k h c less ij unfolding joined_second_def live_def by fastforce
  qed
  show "k \<in> set [jv_first1 v..<i - 1] \<and> live v (jv_size1 v) i j (jv_time1 v k)" if h: "joined_second v k j"
  proof -
    have "Suc k < i" using late [of "Suc k"] h by (simp add: joined_second_def)
    moreover have "jv_time1 v (i - 1) - jv_size1 v \<le> jv_time1 v k"
      using h c ij \<open>Suc k < i\<close> unfolding joined_second_def by (elim conjE allE [of _ "i - 1"]) auto
    ultimately show ?thesis using h ij by (auto simp: joined_second_def live_def)
  qed
qed

lemma merged_pairs_iff:
  assumes "in_order v"
  shows "crossed v i j \<Longrightarrow> (x, y) \<in> set (merged_pairs v i j) \<longleftrightarrow> jv_match v x y \<and> x < jv_end1 v \<and> y < jv_end2 v
    \<and> (i \<le> x \<and> joined_first v x y \<or> j \<le> y \<and> joined_second v x y)"
proof (induction "jv_end1 v - i + (jv_end2 v - j)" arbitrary: i j rule: less_induct)
  case less
  note o = in_orderD [OF assms]
  have c: "jv_first1 v \<le> i" "jv_first2 v \<le> j" "i \<le> jv_end1 v" "j \<le> jv_end2 v" using less.prems by (auto simp: crossed_def)
  consider "i = jv_end1 v" | "i < jv_end1 v" "j = jv_end2 v" | "i < jv_end1 v" "j < jv_end2 v" using c by linarith
  then show ?case
  proof cases
    case 1
    have "\<not> joined_second v x y" if "j \<le> y" "y < jv_end2 v"
      using that o(2) [of j y] c less.prems 1 by (force simp: joined_second_def crossed_def)
    then show ?thesis using 1 by (subst merged_pairs.simps) auto
  next
    case 2
    have "\<not> joined_first v x y" if "i \<le> x" "x < jv_end1 v"
      using that o(1) [of i x] c less.prems 2 by (force simp: joined_first_def crossed_def)
    then show ?thesis using 2 by (subst merged_pairs.simps) auto
  next
    case 3
    show ?thesis
    proof (cases "jv_time1 v i < jv_time2 v j")
      case True
      have "(x, y) \<in> set (merged_pairs v (Suc i) j) \<longleftrightarrow> jv_match v x y \<and> x < jv_end1 v \<and> y < jv_end2 v
          \<and> (Suc i \<le> x \<and> joined_first v x y \<or> j \<le> y \<and> joined_second v x y)"
        using crossed_left [OF assms less.prems 3 True] 3 by (intro less.hyps) auto
      moreover have "(x, y) \<in> set (merged_pairs v i j) \<longleftrightarrow>
          x = i \<and> jv_match v i y \<and> joined_first v i y \<or> (x, y) \<in> set (merged_pairs v (Suc i) j)"
        using 3 True by (subst merged_pairs.simps) (auto simp flip: joined_first_iff [OF assms less.prems 3 True])
      moreover have "y < jv_end2 v" if "joined_first v i y" using that by (simp add: joined_first_def)
      ultimately show ?thesis using 3 by (cases "x = i") auto
    next
      case False
      have "(x, y) \<in> set (merged_pairs v i (Suc j)) \<longleftrightarrow> jv_match v x y \<and> x < jv_end1 v \<and> y < jv_end2 v
          \<and> (i \<le> x \<and> joined_first v x y \<or> Suc j \<le> y \<and> joined_second v x y)"
        using crossed_right [OF assms less.prems 3 False] 3 by (intro less.hyps) auto
      moreover have "(x, y) \<in> set (merged_pairs v i j) \<longleftrightarrow>
          y = j \<and> jv_match v x j \<and> joined_second v x j \<or> (x, y) \<in> set (merged_pairs v i (Suc j))"
        using 3 False by (subst merged_pairs.simps) (auto simp flip: joined_second_iff [OF assms less.prems 3 False])
      moreover have "x < jv_end1 v" if "joined_second v x j" using that by (simp add: joined_second_def)
      ultimately show ?thesis using 3 by (cases "y = j") auto
    qed
  qed
qed


lemma merged_pairs_distinct:
  assumes "in_order v"
  shows "crossed v i j \<Longrightarrow> distinct (merged_pairs v i j)"
proof (induction "jv_end1 v - i + (jv_end2 v - j)" arbitrary: i j rule: less_induct)
  case less
  note c = merged_pairs_iff [OF assms]
  consider "\<not> (i < jv_end1 v \<and> j < jv_end2 v)" | "i < jv_end1 v" "j < jv_end2 v" "jv_time1 v i < jv_time2 v j"
    | "i < jv_end1 v" "j < jv_end2 v" "\<not> jv_time1 v i < jv_time2 v j" by blast
  then show ?case
  proof cases
    case 1
    then show ?thesis by (subst merged_pairs.simps) auto
  next
    case 2
    note x = crossed_left [OF assms less.prems 2]
    have "(i, k) \<notin> set (merged_pairs v (Suc i) j)" if "k < j" for k using c [OF x] that by simp
    moreover have "distinct (merged_pairs v (Suc i) j)" using x 2 by (intro less.hyps) auto
    ultimately show ?thesis using 2 by (subst merged_pairs.simps) (auto simp: distinct_map inj_on_def)
  next
    case 3
    note x = crossed_right [OF assms less.prems 3]
    have "(k, j) \<notin> set (merged_pairs v i (Suc j))" if "k < i" for k using c [OF x] that by simp
    moreover have "distinct (merged_pairs v i (Suc j))" using x 3 by (intro less.hyps) auto
    ultimately show ?thesis using 3 by (subst merged_pairs.simps) (auto simp: distinct_map inj_on_def)
  qed
qed

lemma view_of_sel:
  "jv_first1 (view_of jc lb rb a e c g) = a" "jv_end1 (view_of jc lb rb a e c g) = e"
  "jv_first2 (view_of jc lb rb a e c g) = c" "jv_end2 (view_of jc lb rb a e c g) = g"
  "jv_match (view_of jc lb rb a e c g) = (\<lambda>i k. jc_match jc (tupleNo lb (nat (jc_tupleSize1 jc)) i) (tupleNo rb (nat (jc_tupleSize2 jc)) k))"
  by (simp_all add: view_of_def Let_def)

definition join_pairs :: "join_code \<Rightarrow> byte list \<Rightarrow> byte list \<Rightarrow> nat \<Rightarrow> nat \<Rightarrow> nat \<Rightarrow> nat \<Rightarrow> (nat \<times> nat) set" where
  "join_pairs jc lb rb a e c g = {(i, k). a \<le> i \<and> i < e \<and> c \<le> k \<and> k < g
     \<and> jc_match jc (tupleNo lb (nat (jc_tupleSize1 jc)) i) (tupleNo rb (nat (jc_tupleSize2 jc)) k)
     \<and> (joined_first (view_of jc lb rb a e c g) i k \<or> joined_second (view_of jc lb rb a e c g) i k)}"

lemma merged_pairs_set:
  assumes "in_order (view_of jc lb rb a e c g)" "a \<le> e" "c \<le> g"
  shows "set (merged_pairs (view_of jc lb rb a e c g) a c) = join_pairs jc lb rb a e c g"
    and "distinct (merged_pairs (view_of jc lb rb a e c g) a c)"
    and "length (merged_pairs (view_of jc lb rb a e c g) a c) \<le> (e - a) * (g - c)"
proof -
  let ?v = "view_of jc lb rb a e c g"
  have x: "crossed ?v a c" using assms(2,3) by (simp add: crossed_def view_of_sel)
  show s: "set (merged_pairs ?v a c) = join_pairs jc lb rb a e c g"
    using merged_pairs_iff [OF assms(1) x]
    by (auto simp: join_pairs_def view_of_sel joined_first_def joined_second_def)
  show d: "distinct (merged_pairs ?v a c)" by (rule merged_pairs_distinct [OF assms(1) x])
  have "set (merged_pairs ?v a c) \<subseteq> {a..<e} \<times> {c..<g}" unfolding s by (auto simp: join_pairs_def)
  then have "card (set (merged_pairs ?v a c)) \<le> card ({a..<e} \<times> {c..<g})" by (intro card_mono) auto
  then show "length (merged_pairs ?v a c) \<le> (e - a) * (g - c)" using distinct_card [OF d] by (simp add: card_cartesian_product)
qed

text \<open>
  C8. The join routine, with range-based windows, on two batches in timestamp order that do not wrap
  around, with room in the output for every pair. It returns, and its output holds, each once and with
  the padding between them, the matching pairs that satisfy \<open>joined_first\<close> or \<open>joined_second\<close>. That is, a tuple
  that arrives is paired with the tuples of the other batch that came before it, without the newest
  of them and without those that are older by more than the window than some tuple that came before.
  A tuple that arrives after the last one of the other batch is paired with none.
\<close>

theorem join_output_exact:
  assumes "join_ok jc lb rb e g" and "in_order (view_of jc lb rb a e c g)" "a \<le> e" "c \<le> g"
    and n: "jc_tupleSize1 jc = int n1" "jc_tupleSize2 jc = int n2" "jc_padLength jc = int p"
    and room: "int (pos + (e - a) * (g - c) * (n1 + n2 + p)) < jc_unboundedSize jc" "jc_unboundedSize jc \<le> int (length out)"
  shows "\<exists>ps out' ivk' mtc'. processJoin jc (int a * int n1) (int c * int n2) (int e * int n1) (int g * int n2) lb rb out (int pos) mo ivk mtc
      = Inr (out', int (pos + length ps * (n1 + n2 + p)), ivk', mtc')
    \<and> distinct ps \<and> set ps = join_pairs jc lb rb a e c g
    \<and> (\<forall>x < length ps. take (n1 + n2) (drop (pos + x * (n1 + n2 + p)) out')
         = tupleNo lb n1 (fst (ps ! x)) @ tupleNo rb n2 (snd (ps ! x)))"
proof -
  let ?ps = "merged_pairs (view_of jc lb rb a e c g) a c"
  note m = merged_pairs_set [OF assms(2-4)]
  have "pos + length ?ps * (n1 + n2 + p) \<le> pos + (e - a) * (g - c) * (n1 + n2 + p)"
    using m(3) by (intro add_left_mono mult_le_mono1)
  then have "int (pos + length ?ps * (n1 + n2 + p)) \<le> int (pos + (e - a) * (g - c) * (n1 + n2 + p))" by (simp only: of_nat_le_iff)
  then have "int (pos + length ?ps * (n1 + n2 + p)) < jc_unboundedSize jc" using room(1) by (rule le_less_trans)
  from join_writes_merge(1) [OF assms(1) refl assms(2-4) n refl room(2) this] m(1,2) show ?thesis by blast
qed

text \<open>
  When the pairs do not fit into the output, the routine raises an error.
\<close>

theorem join_output_overflow:
  assumes "join_ok jc lb rb e g" and "in_order (view_of jc lb rb a e c g)" "a \<le> e" "c \<le> g"
    and n: "jc_tupleSize1 jc = int n1" "jc_tupleSize2 jc = int n2" "jc_padLength jc = int p"
    and full: "join_pairs jc lb rb a e c g \<noteq> {}" "jc_unboundedSize jc \<le> int (length out)"
      "jc_unboundedSize jc \<le> int (pos + (card (join_pairs jc lb rb a e c g) - 1) * (n1 + n2 + p) + n1 + n2)"
  shows "processJoin jc (int a * int n1) (int c * int n2) (int e * int n1) (int g * int n2) lb rb out (int pos) mo ivk mtc = Inl RuntimeError"
proof -
  let ?ps = "merged_pairs (view_of jc lb rb a e c g) a c"
  note m = merged_pairs_set [OF assms(2-4)]
  have "card (join_pairs jc lb rb a e c g) = length ?ps" using distinct_card [OF m(2)] m(1) by simp
  then show ?thesis using join_writes_merge(2) [OF assms(1) refl assms(2-4) n refl full(2)] full m(1) by force
qed




text \<open>
  The windows are read without the mask: when all tuples of a window up to the end of the buffer are too
  old, as in a batch that wraps around, the loop that drops them reads outside the buffer.
\<close>

theorem evict_past_buffer:
  assumes "8 \<le> n" "length b = m * n"
  shows "s \<le> m \<Longrightarrow> \<forall>k. s \<le> k \<and> k < m \<longrightarrow> timeNo b n k < bound \<Longrightarrow> evictOld b (int n) bound (int s * int n) = Inl Undefined"
proof (induction "m - s" arbitrary: s)
  case 0
  then have "\<not> int s * int n + 8 \<le> int (length b)" using assms by simp
  then have "tupleTime b (int n) (int s * int n) = Inl Undefined"
    using assms(1) index_sdiv [of n s] by (simp add: tupleTime_def memread_def)
  then show ?case by (subst evictOld.simps) simp
next
  case (Suc d)
  then have "Suc s * n \<le> length b" using assms(2) mult_le_mono1 [of "Suc s" m n] by simp
  then have t: "tupleTime b (int n) (int s * int n) = Inr (timeNo b n s)" by (rule tupleTime_no [OF assms(1)])
  have "evictOld b (int n) bound (int (Suc s) * int n) = Inl Undefined" using Suc by (intro Suc.hyps) auto
  moreover have "timeNo b n s < bound" using Suc by auto
  ultimately show ?case using t assms(1) by (subst evictOld.simps) (simp add: algebra_simps)
qed

section \<open>Witnesses\<close>

text \<open>Tuples that are just a timestamp; the predicate always holds.\<close>

definition timeBytes :: "int list \<Rightarrow> byte list" where
  "timeBytes ts = concat (map long_bytes ts)"

definition timeJoin :: "int \<Rightarrow> join_code" where
  "timeJoin u = \<lparr>jc_window1 = demoWindow RANGE_BASED, jc_window2 = demoWindow RANGE_BASED, jc_padLength = 0, jc_mask = 31,
     jc_unboundedSize = u, jc_tupleSize1 = 8, jc_tupleSize2 = 8, jc_match = \<lambda>_ _. True\<rparr>"

lemma length_timeBytes: "length (timeBytes ts) = 8 * length ts"
  by (induction ts) (simp_all add: timeBytes_def long_bytes_def)

lemma drop_timeBytes: "k < length ts \<Longrightarrow> drop (8 * k) (timeBytes ts) = long_bytes (ts ! k) @ timeBytes (drop (Suc k) ts)"
  by (induction ts arbitrary: k) (auto simp: timeBytes_def long_bytes_def nth_Cons split: nat.splits)

lemma timeNo_timeBytes:
  assumes "k < length ts" "INT_MIN \<le> ts ! k" "ts ! k \<le> INT_MAX"
  shows "timeNo (timeBytes ts) 8 k = ts ! k"
proof -
  have "take 8 (drop (k * 8) (timeBytes ts)) = long_bytes (ts ! k)"
    using drop_timeBytes [OF assms(1)] by (simp add: mult.commute long_bytes_def)
  moreover have "- (2 ^ 63) \<le> ts ! k" "ts ! k < 2 ^ 63" using assms(2,3) by (simp_all add: INT_MIN_def INT_MAX_def numeral_2_eq_2)
  ultimately show ?thesis using assms(2,3) by (simp add: timeNo_def long_val_long_bytes to_int32_id)
qed


abbreviation demoLeft :: "byte list" where "demoLeft \<equiv> timeBytes [3, 0, 0, 0]"
abbreviation demoRight :: "byte list" where "demoRight \<equiv> timeBytes [1, 2, 9, 0]"

lemma demo_times:
  "timeNo demoLeft 8 0 = 3" "timeNo demoRight 8 0 = 1" "timeNo demoRight 8 (Suc 0) = 2" "timeNo demoRight 8 (Suc (Suc 0)) = 9"
  using timeNo_timeBytes [of 0 "[3, 0, 0, 0]"] timeNo_timeBytes [of 0 "[1, 2, 9, 0]"] timeNo_timeBytes [of 1 "[1, 2, 9, 0]"]
    timeNo_timeBytes [of "Suc (Suc 0)" "[1, 2, 9, 0]"] by (simp_all add: INT_MIN_def INT_MAX_def)

lemma timeJoin_sel [simp]:
  "jc_tupleSize1 (timeJoin u) = 8" "jc_tupleSize2 (timeJoin u) = 8" "jc_padLength (timeJoin u) = 0" "jc_unboundedSize (timeJoin u) = u"
  by (simp_all add: timeJoin_def)

lemma timeJoin_ok: "join_ok (timeJoin u) demoLeft demoRight (Suc 0) 3" "join_ok (timeJoin u) demoLeft demoRight (Suc 0) (Suc 0)"
  by (auto simp: join_ok_def timeJoin_def isRangeBased_def demoWindow_def is_pow2_def length_timeBytes intro: exI [of _ 5])

lemma demo_view:
  "jv_time1 (view_of (timeJoin u) demoLeft demoRight 0 (Suc 0) 0 3) 0 = 3" "jv_time2 (view_of (timeJoin u) demoLeft demoRight 0 (Suc 0) 0 3) 0 = 1"
  "jv_time2 (view_of (timeJoin u) demoLeft demoRight 0 (Suc 0) 0 3) (Suc 0) = 2"
  "jv_time2 (view_of (timeJoin u) demoLeft demoRight 0 (Suc 0) 0 3) (Suc (Suc 0)) = 9"
  "jv_size2 (view_of (timeJoin u) demoLeft demoRight 0 (Suc 0) 0 3) = 4"
  by (simp_all add: view_of_def demo_times) (simp add: timeJoin_def demoWindow_def)

lemma less_3: "l < (3 :: nat) \<longleftrightarrow> l = 0 \<or> l = Suc 0 \<or> l = Suc (Suc 0)"
  by auto

lemma demo_pair: "(0, 0) \<in> join_pairs (timeJoin u) demoLeft demoRight 0 (Suc 0) 0 3"
  by (auto simp: join_pairs_def joined_first_def demo_view view_of_sel less_3 numeral_2_eq_2) (simp add: timeJoin_def)

lemma demo_in_order: "in_order (view_of (timeJoin u) demoLeft demoRight 0 (Suc 0) 0 3)"
  by (auto simp: in_order_def demo_view view_of_sel less_3 le_Suc_eq numeral_2_eq_2)

theorem join_output_exact_witness:
  "\<exists>ps out' ivk' mtc'. processJoin (timeJoin 64) 0 0 8 24 demoLeft demoRight (replicate 64 0) 0 False 0 0
      = Inr (out', int (length ps * 16), ivk', mtc') \<and> (0 :: nat, 0 :: nat) \<in> set ps"
proof -
  obtain ps out' ivk' mtc' where
    "processJoin (timeJoin 64) (int 0 * int 8) (int 0 * int 8) (int (Suc 0) * int 8) (int 3 * int 8) demoLeft demoRight (replicate 64 0)
       (int 0) False 0 0 = Inr (out', int (0 + length ps * (8 + 8 + 0)), ivk', mtc')"
    "set ps = join_pairs (timeJoin 64) demoLeft demoRight 0 (Suc 0) 0 3"
    using join_output_exact [where ?n1.0 = 8 and ?n2.0 = 8 and p = 0 and pos = 0 and out = "replicate 64 0" and mo = False
      and ivk = 0 and mtc = 0, OF timeJoin_ok(1) [of 64] demo_in_order [of 64]] by (auto simp del: of_nat_mult of_nat_add)
  then show ?thesis using demo_pair [of 64] by (intro exI [of _ ps] exI [of _ out'] exI [of _ ivk'] exI [of _ mtc']) simp
qed

theorem join_output_overflow_witness:
  "processJoin (timeJoin 16) 0 0 8 24 demoLeft demoRight (replicate 64 0) 0 False 0 0 = Inl RuntimeError"
  using join_output_overflow [OF timeJoin_ok(1) demo_in_order, of 16 8 8 0 "replicate 64 0" 0 False 0 0] demo_pair [of 16]
  by (auto)


theorem evict_past_buffer_witness: "evictOld demoLeft 8 10 24 = Inl Undefined"
proof -
  have "timeNo demoLeft 8 3 = 0" using timeNo_timeBytes [of 3 "[3, 0, 0, 0]"] by (simp add: INT_MIN_def INT_MAX_def)
  moreover have "k = 3" if "3 \<le> k \<and> k < 4" for k :: nat using that by simp
  ultimately have "\<forall>k. 3 \<le> k \<and> k < 4 \<longrightarrow> timeNo demoLeft 8 k < 10" by fastforce
  with evict_past_buffer [of 8 demoLeft 4 3 10] show ?thesis by (simp add: length_timeBytes)
qed

end
