(* ===== verification/AggregationTree.thy ===== *)
theory AggregationTree
  imports Complex_Main WindowDef
begin

text \<open>
  Incremental aggregation (\<open>cql/operators/codeGeneration/AggregationTree.h\<close>, \<open>cql/operators/AggregationType.h\<close>).
  The generator writes the class \<open>Aggregator\<close>: a ring of leaves, one per pane of a window, a running
  aggregate in \<open>parents[0]\<close> and, for \<open>MIN\<close> and \<open>MAX\<close>, the aggregates of the suffixes of the ring, which
  \<open>flip\<close> computes when the ring wraps. The model has the constants of the text in a record and each
  generated member function as a function of it. The members are floats: their values are elements of an
  ordered field, and the addition, subtraction and division of floats, which round, and the limits
  \<open>FLT_MAX\<close> and \<open>FLT_MIN\<close> are members of the record.
\<close>

section \<open>Kinds of aggregates\<close>

datatype AggregationType = MaxAgg | MinAgg | CntAgg | SumAgg | AvgAgg | WAvgAgg

primrec agg_toString :: "AggregationType \<Rightarrow> string" where
  "agg_toString MaxAgg = ''MAX''"
| "agg_toString MinAgg = ''MIN''"
| "agg_toString CntAgg = ''CNT''"
| "agg_toString SumAgg = ''SUM''"
| "agg_toString AvgAgg = ''AVG''"
| "agg_toString WAvgAgg = ''W_AVG''"

definition isInvertible :: "AggregationType \<Rightarrow> bool" where
  "isInvertible t \<longleftrightarrow> t \<in> {CntAgg, SumAgg, AvgAgg, WAvgAgg}"

definition tolower :: "char \<Rightarrow> char" where
  "tolower c = (if 65 \<le> (of_char c :: nat) \<and> (of_char c :: nat) \<le> 90 then char_of (of_char c + 32 :: nat) else c)"

definition agg_fromString :: "string \<Rightarrow> AggregationType res" where
  "agg_fromString s =
     (let s = map tolower s in
      if s = ''avg'' then Inr AvgAgg
      else if s = ''sum'' then Inr SumAgg
      else if s = ''cnt'' then Inr CntAgg
      else if s = ''min'' then Inr MinAgg
      else if s = ''max'' then Inr MaxAgg
      else Inl RuntimeError)"

section \<open>The generated class\<close>

text \<open>A node has for each aggregate the members \<open>_i\<close> and, for averages, \<open>_ci\<close>.\<close>

type_synonym 'f cell = "'f \<times> 'f"
type_synonym 'f node = "'f cell list"

record 'f agg_code =
  ac_types :: "AggregationType list"
  ac_hasNonInvertible :: bool
  ac_numOfLeaves :: int
  ac_numOfParents :: int
  ac_bucketSize :: int
  ac_FLT_MAX :: 'f
  ac_FLT_MIN :: 'f
  ac_add :: "'f \<Rightarrow> 'f \<Rightarrow> 'f"
  ac_sub :: "'f \<Rightarrow> 'f \<Rightarrow> 'f"
  ac_div :: "'f \<Rightarrow> 'f \<Rightarrow> 'f"

record 'f Aggregator =
  ag_curPos :: int
  ag_addedElements :: "32 word"
  ag_removedElements :: "32 word"
  ag_parents :: "'f node list"
  ag_leaves :: "'f node list"

text \<open>The constructor of the generator and \<open>generateCode\<close>, which rejects weighted averages.\<close>

definition newAggregationCode ::
  "('f \<Rightarrow> 'f \<Rightarrow> 'f) \<Rightarrow> ('f \<Rightarrow> 'f \<Rightarrow> 'f) \<Rightarrow> ('f \<Rightarrow> 'f \<Rightarrow> 'f) \<Rightarrow> 'f \<Rightarrow> 'f \<Rightarrow> WindowDefinition \<Rightarrow>
   AggregationType list \<Rightarrow> bool \<Rightarrow> 'f agg_code res" where
  "newAggregationCode fadd fsub fdiv fmax fmin w types hasNonInvertible =
     rbind (numberOfPanes w) (\<lambda>n.
       if WAvgAgg \<in> set types then Inl RuntimeError
       else Inr \<lparr>ac_types = types, ac_hasNonInvertible = hasNonInvertible, ac_numOfLeaves = n,
              ac_numOfParents = (if hasNonInvertible then 1 + n else 1), ac_bucketSize = n,
              ac_FLT_MAX = fmax, ac_FLT_MIN = fmin, ac_add = fadd, ac_sub = fsub, ac_div = fdiv\<rparr>)"

text \<open>The members are set one by one; a cell without counter keeps its second part.\<close>

definition cellwise :: "(AggregationType \<Rightarrow> 'a \<Rightarrow> 'b \<Rightarrow> 'b) \<Rightarrow> AggregationType list \<Rightarrow> 'a list \<Rightarrow> 'b list \<Rightarrow> 'b list" where
  "cellwise f ts xs ys = map (\<lambda>(t, x, y). f t x y) (zip ts (zip xs ys))"

text \<open>\<open>initialise\<close> and \<open>reset\<close> of a node.\<close>

definition resetCell :: "('f :: linordered_field) agg_code \<Rightarrow> AggregationType \<Rightarrow> 'f cell \<Rightarrow> 'f cell" where
  "resetCell ac t = (\<lambda>(v, c).
     case t of SumAgg \<Rightarrow> (0, c) | CntAgg \<Rightarrow> (0, c) | AvgAgg \<Rightarrow> (0, 0) | MinAgg \<Rightarrow> (ac_FLT_MAX ac, c)
     | MaxAgg \<Rightarrow> (ac_FLT_MIN ac, c) | WAvgAgg \<Rightarrow> (v, c))"

definition resetNode :: "('f :: linordered_field) agg_code \<Rightarrow> 'f node \<Rightarrow> 'f node" where
  "resetNode ac n = map (\<lambda>(t, x). resetCell ac t x) (zip (ac_types ac) n)"

definition initialise :: "('f :: linordered_field) agg_code \<Rightarrow> 'f Aggregator \<Rightarrow> 'f Aggregator" where
  "initialise ac g = g\<lparr>ag_curPos := 0, ag_addedElements := 0, ag_removedElements := 0,
     ag_parents := map (resetNode ac) (ag_parents g)\<rparr>"

text \<open>\<open>getCombineFunction\<close> for \<open>MIN\<close> and \<open>MAX\<close>: the first argument if it is smaller (larger).\<close>

definition combineMin :: "'f :: linorder \<Rightarrow> 'f \<Rightarrow> 'f" where
  "combineMin a b = (if a < b then a else b)"

definition combineMax :: "'f :: linorder \<Rightarrow> 'f \<Rightarrow> 'f" where
  "combineMax a b = (if a > b then a else b)"

definition liftCell :: "AggregationType \<Rightarrow> 'f cell \<Rightarrow> 'f cell \<Rightarrow> 'f cell" where
  "liftCell t value leaf = (fst value, if t = AvgAgg then snd value else snd leaf)"

definition insertCell :: "('f :: linordered_field) agg_code \<Rightarrow> bool \<Rightarrow> AggregationType \<Rightarrow> 'f cell \<Rightarrow> 'f cell \<Rightarrow> 'f cell" where
  "insertCell ac atStart t = (\<lambda>(v, c) (pv, pc).
     case t of SumAgg \<Rightarrow> (ac_add ac v pv, pc) | CntAgg \<Rightarrow> (ac_add ac v pv, pc) | AvgAgg \<Rightarrow> (ac_add ac v pv, ac_add ac c pc)
     | MinAgg \<Rightarrow> (combineMin v (if atStart then ac_FLT_MAX ac else pv), pc)
     | MaxAgg \<Rightarrow> (combineMax v (if atStart then ac_FLT_MIN ac else pv), pc) | WAvgAgg \<Rightarrow> (pv, pc))"

definition ag_insert :: "('f :: linordered_field) agg_code \<Rightarrow> 'f node \<Rightarrow> 'f Aggregator \<Rightarrow> 'f Aggregator res" where
  "ag_insert ac value g =
     (let pos = ag_curPos g in
      rbind (vget (ag_leaves g) pos) (\<lambda>leaf.
      rbind (vset (ag_leaves g) pos (cellwise liftCell (ac_types ac) value leaf)) (\<lambda>ls.
      rbind (vget (ag_parents g) 0) (\<lambda>p.
      rbind (vset (ag_parents g) 0 (cellwise (insertCell ac (pos = 0)) (ac_types ac) value p)) (\<lambda>ps.
        Inr (g\<lparr>ag_leaves := ls, ag_parents := ps, ag_curPos := (if pos + 1 = ac_bucketSize ac then 0 else pos + 1),
               ag_addedElements := ag_addedElements g + 1\<rparr>))))))"

definition flipCell :: "AggregationType \<Rightarrow> ('f :: linordered_field) cell \<times> 'f cell \<Rightarrow> 'f cell \<Rightarrow> 'f cell" where
  "flipCell t = (\<lambda>(p, l) old.
     case t of MinAgg \<Rightarrow> (combineMin (fst p) (fst l), snd old) | MaxAgg \<Rightarrow> (combineMax (fst p) (fst l), snd old) | _ \<Rightarrow> old)"

definition flipStep :: "('f :: linordered_field) agg_code \<Rightarrow> int \<Rightarrow> 'f Aggregator \<Rightarrow> 'f Aggregator res" where
  "flipStep ac i g =
     rbind (vget (ag_parents g) i) (\<lambda>p.
     rbind (vget (ag_leaves g) (ac_bucketSize ac - i - 1)) (\<lambda>l.
     rbind (vget (ag_parents g) (i + 1)) (\<lambda>old.
     rbind (vset (ag_parents g) (i + 1) (cellwise flipCell (ac_types ac) (zip p l) old)) (\<lambda>ps.
       Inr (g\<lparr>ag_parents := ps\<rparr>)))))"

definition clearCell :: "('f :: linordered_field) agg_code \<Rightarrow> AggregationType \<Rightarrow> 'f cell \<Rightarrow> 'f cell" where
  "clearCell ac t x = (if t = MinAgg \<or> t = MaxAgg then resetCell ac t x else x)"

definition flip :: "('f :: linordered_field) agg_code \<Rightarrow> 'f Aggregator \<Rightarrow> 'f Aggregator res" where
  "flip ac g =
     rbind (vget (ag_leaves g) (ac_bucketSize ac - 1)) (\<lambda>l.
     rbind (vset (ag_parents g) 1 l) (\<lambda>ps.
     rbind (rfold (flipStep ac) [1..ac_bucketSize ac - 1] (g\<lparr>ag_parents := ps\<rparr>)) (\<lambda>g.
     rbind (vget (ag_parents g) 0) (\<lambda>p.
     rbind (vset (ag_parents g) 0 (map (\<lambda>(t, x). clearCell ac t x) (zip (ac_types ac) p))) (\<lambda>ps.
       Inr (g\<lparr>ag_parents := ps\<rparr>))))))"

definition evictCell :: "('f :: linordered_field) agg_code \<Rightarrow> AggregationType \<Rightarrow> 'f cell \<Rightarrow> 'f cell \<Rightarrow> 'f cell" where
  "evictCell ac t = (\<lambda>(v, c) (pv, pc).
     case t of SumAgg \<Rightarrow> (ac_sub ac pv v, pc) | CntAgg \<Rightarrow> (ac_sub ac pv v, pc)
     | AvgAgg \<Rightarrow> (ac_sub ac pv v, ac_sub ac pc c) | _ \<Rightarrow> (pv, pc))"

definition ag_evict :: "('f :: linordered_field) agg_code \<Rightarrow> 'f Aggregator \<Rightarrow> 'f Aggregator res" where
  "ag_evict ac g =
     (if ag_addedElements g < ag_removedElements g then Inl Exit
      else
        rbind (if ac_hasNonInvertible ac \<and> ag_curPos g = 0 then flip ac g else Inr g) (\<lambda>g.
        rbind (vget (ag_leaves g) (ag_curPos g)) (\<lambda>l.
        rbind (vget (ag_parents g) 0) (\<lambda>p.
        rbind (vset (ag_parents g) 0 (cellwise (evictCell ac) (ac_types ac) l p)) (\<lambda>ps.
        rbind (vset (ag_leaves g) (ag_curPos g) (resetNode ac l)) (\<lambda>ls.
          Inr (g\<lparr>ag_parents := ps, ag_leaves := ls, ag_removedElements := ag_removedElements g + 1\<rparr>)))))))"

text \<open>\<open>query\<close>; a counter that a kind of aggregate has not is not set in the result.\<close>

definition queryCell ::
  "('f :: linordered_field) agg_code \<Rightarrow> 'f Aggregator \<Rightarrow> AggregationType \<Rightarrow> nat \<Rightarrow> 'f node \<Rightarrow> 'f res" where
  "queryCell ac g t x p =
     (let v = fst (p ! x); c = snd (p ! x) in
      case t of
        AvgAgg \<Rightarrow> Inr (ac_div ac v c)
      | MinAgg \<Rightarrow> (if ag_curPos g = 0 then Inr v
                   else rbind (vget (ag_parents g) (ac_numOfParents ac - ag_curPos g - 1)) (\<lambda>s. Inr (combineMin v (fst (s ! x)))))
      | MaxAgg \<Rightarrow> (if ag_curPos g = 0 then Inr v
                   else rbind (vget (ag_parents g) (ac_numOfParents ac - ag_curPos g - 1)) (\<lambda>s. Inr (combineMax v (fst (s ! x)))))
      | _ \<Rightarrow> Inr v)"

definition ag_query :: "('f :: linordered_field) agg_code \<Rightarrow> 'f Aggregator \<Rightarrow> 'f list res" where
  "ag_query ac g =
     rbind (vget (ag_parents g) 0) (\<lambda>p.
       rfold (\<lambda>x r. rbind (queryCell ac g (ac_types ac ! x) x p) (\<lambda>v. Inr (r @ [v]))) [0..<length (ac_types ac)] [])"

text \<open>\<open>queryIntermediate\<close> also assigns the suffix aggregate it reads to \<open>parents[0]\<close>.\<close>

definition intermediateCell :: "AggregationType \<Rightarrow> 'f cell \<Rightarrow> 'f cell \<Rightarrow> 'f cell" where
  "intermediateCell t s p = (if t = MinAgg \<or> t = MaxAgg then (fst s, snd p) else p)"

definition queryIntermediate :: "('f :: linordered_field) agg_code \<Rightarrow> int \<Rightarrow> 'f Aggregator \<Rightarrow> ('f node \<times> 'f Aggregator) res" where
  "queryIntermediate ac pos g =
     rbind (vget (ag_parents g) 0) (\<lambda>p.
     rbind (if MinAgg \<in> set (ac_types ac) \<or> MaxAgg \<in> set (ac_types ac)
            then vget (ag_parents g) (ac_numOfParents ac - pos - 2) else Inr p) (\<lambda>s.
     let r = cellwise intermediateCell (ac_types ac) s p in
     rbind (vset (ag_parents g) 0 r) (\<lambda>ps. Inr (r, g\<lparr>ag_parents := ps\<rparr>))))"


lemma agg_string_roundtrip:
  "t \<noteq> WAvgAgg \<Longrightarrow> agg_fromString (agg_toString t) = Inr t" "agg_fromString (agg_toString WAvgAgg) = Inl RuntimeError"
  by (cases t; simp; code_simp) code_simp

end
