(* ===== verification/SlidingAggregates.thy ===== *)
theory SlidingAggregates
  imports AggregationTree
begin

text \<open>
  Correctness of incremental aggregation: after the ring is filled, every step that evicts the oldest pane and
  inserts a new one leaves a state whose query is the aggregate of the panes of the window, provided that
  the arithmetic of floats is exact on the sums of panes that occur.
\<close>

section \<open>Aggregates of sets of panes\<close>

text \<open>\<open>MIN\<close> and \<open>MAX\<close> together: the operation, the limit a running aggregate starts from, and the result.\<close>

definition extremal :: "AggregationType \<Rightarrow> bool" where
  "extremal t \<longleftrightarrow> t = MinAgg \<or> t = MaxAgg"

definition comb :: "AggregationType \<Rightarrow> 'f :: linordered_field \<Rightarrow> 'f \<Rightarrow> 'f" where
  "comb t = (if t = MinAgg then combineMin else combineMax)"

definition limit :: "('f :: linordered_field) agg_code \<Rightarrow> AggregationType \<Rightarrow> 'f" where
  "limit ac t = (if t = MinAgg then ac_FLT_MAX ac else ac_FLT_MIN ac)"

definition extreme :: "AggregationType \<Rightarrow> ('f :: linordered_field) set \<Rightarrow> 'f" where
  "extreme t S = (if t = MinAgg then Min S else Max S)"

lemma comb_min_max: "comb t a b = (if t = MinAgg then min a b else max a b)"
  by (auto simp: comb_def combineMin_def combineMax_def min_def max_def)

lemma extreme_insert: "finite S \<Longrightarrow> S \<noteq> {} \<Longrightarrow> extreme t (insert a S) = comb t a (extreme t S)"
  by (simp add: extreme_def comb_min_max)

lemma extreme_singleton [simp]: "extreme t {a} = a"
  by (simp add: extreme_def)

lemma extreme_union:
  "finite S \<Longrightarrow> S \<noteq> {} \<Longrightarrow> finite T \<Longrightarrow> T \<noteq> {} \<Longrightarrow> extreme t (S \<union> T) = comb t (extreme t S) (extreme t T)"
  by (simp add: extreme_def comb_min_max Min_Un Max_Un)

lemma comb_commute: "comb t a b = comb t b a"
  by (simp add: comb_min_max min.commute max.commute)

lemma cell_cases:
  assumes "t \<noteq> WAvgAgg"
  obtains "extremal t" | "t = AvgAgg" "\<not> extremal t" | "t = SumAgg \<or> t = CntAgg" "\<not> extremal t" "t \<noteq> AvgAgg"
  using assms by (cases t) (auto simp: extremal_def)

lemma cellwise_nth:
  "x < length ts \<Longrightarrow> length xs = length ts \<Longrightarrow> length ys = length ts \<Longrightarrow> cellwise f ts xs ys ! x = f (ts ! x) (xs ! x) (ys ! x)"
  by (simp add: cellwise_def)

lemma length_cellwise [simp]: "length (cellwise f ts xs ys) = min (length ts) (min (length xs) (length ys))"
  by (simp add: cellwise_def)

lemma insertCell_extremal:
  "extremal t \<Longrightarrow> fst (insertCell ac b t v p) = comb t (fst v) (if b then limit ac t else fst p)"
  by (auto simp: extremal_def insertCell_def comb_def limit_def split: prod.split)

lemma insertCell_additive:
  "t = SumAgg \<or> t = CntAgg \<or> t = AvgAgg \<Longrightarrow> fst (insertCell ac b t v p) = ac_add ac (fst v) (fst p)"
  "t = AvgAgg \<Longrightarrow> snd (insertCell ac b t v p) = ac_add ac (snd v) (snd p)"
  by (auto simp: insertCell_def split: prod.split)

lemma evictCell_sel:
  "extremal t \<Longrightarrow> fst (evictCell ac t l p) = fst p"
  "t = SumAgg \<or> t = CntAgg \<or> t = AvgAgg \<Longrightarrow> fst (evictCell ac t l p) = ac_sub ac (fst p) (fst l)"
  "t = AvgAgg \<Longrightarrow> snd (evictCell ac t l p) = ac_sub ac (snd p) (snd l)"
  by (auto simp: evictCell_def extremal_def split: prod.split)

section \<open>Exact sums\<close>

text \<open>
  Sums and differences of floats are exact on a set \<open>E\<close> of values, as on the integers up to \<open>2 ^ 24\<close>.
  \<open>summed\<close> has the members of a column that are running sums, \<open>exact_sums\<close> says that the sums of at most \<open>B\<close>
  consecutive panes are in \<open>E\<close>.
\<close>

definition float_exact :: "('f :: linordered_field) agg_code \<Rightarrow> 'f set \<Rightarrow> bool" where
  "float_exact ac E \<longleftrightarrow> (\<forall>a \<in> E. \<forall>b \<in> E. (a + b \<in> E \<longrightarrow> ac_add ac a b = a + b) \<and> (a - b \<in> E \<longrightarrow> ac_sub ac a b = a - b))"

definition summed :: "AggregationType \<Rightarrow> ('f cell \<Rightarrow> 'f) set" where
  "summed t = (if extremal t then {} else if t = AvgAgg then {fst, snd} else {fst})"

definition list_exact :: "('f :: linordered_field) agg_code \<Rightarrow> 'f set \<Rightarrow> 'f node list \<Rightarrow> bool" where
  "list_exact ac E ws \<longleftrightarrow> (\<forall>x < length (ac_types ac). \<forall>h \<in> summed (ac_types ac ! x). sum_list (map (\<lambda>n. h (n ! x)) ws) \<in> E)"

definition exact_sums :: "('f :: linordered_field) agg_code \<Rightarrow> 'f set \<Rightarrow> nat \<Rightarrow> 'f node list \<Rightarrow> bool" where
  "exact_sums ac E B ws \<longleftrightarrow> float_exact ac E \<and> (\<forall>i n. n \<le> B \<longrightarrow> list_exact ac E (take n (drop i ws)))"

text \<open>The same for the panes at the positions \<open>A\<close> of the ring.\<close>

definition sum_exact :: "('f :: linordered_field) agg_code \<Rightarrow> 'f set \<Rightarrow> 'f node list \<Rightarrow> nat set \<Rightarrow> bool" where
  "sum_exact ac E L A \<longleftrightarrow> (\<forall>x < length (ac_types ac). \<forall>h \<in> summed (ac_types ac ! x). (\<Sum>k \<in> A. h (L ! k ! x)) \<in> E)"

section \<open>The state\<close>

text \<open>
  \<open>L\<close> is the contents of the ring, \<open>m\<close> the number of panes in the running aggregate of \<open>MIN\<close> and \<open>MAX\<close>, \<open>A\<close> the
  positions of the panes that count. The suffix aggregates of the positions from \<open>m\<close> on are those of the
  ring when \<open>rear\<close> holds.
\<close>

definition shaped :: "'f agg_code \<Rightarrow> nat \<Rightarrow> ('f :: linordered_field) Aggregator \<Rightarrow> bool" where
  "shaped ac B g \<longleftrightarrow> 0 < B \<and> ac_bucketSize ac = int B \<and> length (ag_leaves g) = B
     \<and> ac_numOfParents ac = int (if ac_hasNonInvertible ac then Suc B else 1)
     \<and> length (ag_parents g) = (if ac_hasNonInvertible ac then Suc B else 1)
     \<and> (\<forall>n \<in> set (ag_leaves g) \<union> set (ag_parents g). length n = length (ac_types ac))
     \<and> WAvgAgg \<notin> set (ac_types ac) \<and> ((\<exists>t \<in> set (ac_types ac). extremal t) \<longrightarrow> ac_hasNonInvertible ac)"

definition vals :: "nat \<Rightarrow> ('f :: linordered_field) node list \<Rightarrow> 'f set" where
  "vals x L = set (map (\<lambda>n. fst (n ! x)) L)"

definition front_ok :: "('f :: linordered_field) agg_code \<Rightarrow> 'f node list \<Rightarrow> nat \<Rightarrow> nat set \<Rightarrow> 'f node \<Rightarrow> nat \<Rightarrow> bool" where
  "front_ok ac L m A p x \<longleftrightarrow> (let t = ac_types ac ! x in
     if extremal t then 0 < m \<longrightarrow> fst (p ! x) = extreme t (insert (limit ac t) (vals x (take m L)))
     else fst (p ! x) = (\<Sum>k \<in> A. fst (L ! k ! x)) \<and> (t = AvgAgg \<longrightarrow> snd (p ! x) = (\<Sum>k \<in> A. snd (L ! k ! x))))"

definition leaf_ok :: "('f :: linordered_field) agg_code \<Rightarrow> 'f node list \<Rightarrow> 'f node list \<Rightarrow> nat \<Rightarrow> nat \<Rightarrow> bool" where
  "leaf_ok ac L ls k x \<longleftrightarrow> fst (ls ! k ! x) = fst (L ! k ! x) \<and> (ac_types ac ! x = AvgAgg \<longrightarrow> snd (ls ! k ! x) = snd (L ! k ! x))"

definition back_ok :: "('f :: linordered_field) agg_code \<Rightarrow> nat \<Rightarrow> 'f node list \<Rightarrow> nat \<Rightarrow> 'f node list \<Rightarrow> nat \<Rightarrow> bool" where
  "back_ok ac B L m ps x \<longleftrightarrow> (extremal (ac_types ac ! x) \<longrightarrow> (\<forall>q. m \<le> q \<and> q < B \<longrightarrow>
     fst (ps ! (B - q) ! x) = extreme (ac_types ac ! x) (vals x (drop q L))))"

definition holds_panes ::
  "('f :: linordered_field) agg_code \<Rightarrow> nat \<Rightarrow> 'f node list \<Rightarrow> nat \<Rightarrow> nat set \<Rightarrow> bool \<Rightarrow> 'f Aggregator \<Rightarrow> bool" where
  "holds_panes ac B L m A rear g \<longleftrightarrow> shaped ac B g \<and> length L = B \<and> m \<le> B \<and> A \<subseteq> {..<B}
     \<and> ag_curPos g = int (if m = B then 0 else m)
     \<and> (\<forall>x < length (ac_types ac). front_ok ac L m A (ag_parents g ! 0) x \<and> (\<forall>k \<in> A. leaf_ok ac L (ag_leaves g) k x)
          \<and> (rear \<longrightarrow> back_ok ac B L m (ag_parents g) x))"

lemma shapedD:
  assumes "shaped ac B g"
  shows "0 < B" "ac_bucketSize ac = int B" "length (ag_leaves g) = B" "0 < length (ag_parents g)"
    "k < B \<Longrightarrow> length (ag_leaves g ! k) = length (ac_types ac)"
    "k < length (ag_parents g) \<Longrightarrow> length (ag_parents g ! k) = length (ac_types ac)"
  using assms by (auto simp: shaped_def)

lemma shaped_update:
  assumes "shaped ac B g" and "length l = length (ac_types ac)" "length p = length (ac_types ac)"
  shows "shaped ac B (g\<lparr>ag_leaves := (ag_leaves g)[k := l], ag_parents := (ag_parents g)[j := p], ag_curPos := c,
      ag_addedElements := a, ag_removedElements := r\<rparr>)"
  using assms by (auto simp: shaped_def dest!: set_update_subset_insert [THEN subsetD])

lemma vals_update: "m < length L \<Longrightarrow> vals x (take (Suc m) (L[m := v])) = insert (fst (v ! x)) (vals x (take m L))"
  by (simp add: vals_def take_Suc_conv_app_nth)

lemma insert_front:
  assumes f: "front_ok ac L m A p x" and "m < length L" "m \<notin> A" "finite A" and t: "ac_types ac ! x \<noteq> WAvgAgg"
    and px: "q ! x = insertCell ac (m = 0) (ac_types ac ! x) (v ! x) (p ! x)"
    and E: "float_exact ac E" "list_exact ac E [v]" "sum_exact ac E L A" "sum_exact ac E (L[m := v]) (insert m A)"
    and x: "x < length (ac_types ac)"
  shows "front_ok ac (L[m := v]) (Suc m) (insert m A) q x"
proof -
  let ?t = "ac_types ac ! x"
  have sm: "(\<Sum>k \<in> insert m A. h (L[m := v] ! k)) = h v + (\<Sum>k \<in> A. h (L ! k))" for h :: "'a node \<Rightarrow> 'a"
  proof -
    have "(\<Sum>k \<in> A. h (L[m := v] ! k)) = (\<Sum>k \<in> A. h (L ! k))" using assms(3)
      by (intro sum.cong refl arg_cong [where f = h] nth_list_update_neq) auto
    then show ?thesis using assms(2-4) by simp
  qed
  have exact: "ac_add ac (h (v ! x)) (\<Sum>k \<in> A. h (L ! k ! x)) = (\<Sum>k \<in> insert m A. h (L[m := v] ! k ! x))"
    if "h \<in> summed ?t" for h
  proof -
    have "h (v ! x) \<in> E" "(\<Sum>k \<in> A. h (L ! k ! x)) \<in> E" "(\<Sum>k \<in> insert m A. h (L[m := v] ! k ! x)) \<in> E"
      using E(2-4) x that by (auto simp: list_exact_def sum_exact_def)
    then show ?thesis using E(1) sm [of "\<lambda>n. h (n ! x)"] by (simp add: float_exact_def)
  qed
  show ?thesis
  proof (cases rule: cell_cases [OF t])
    case 1
    have "fst (q ! x) = comb ?t (fst (v ! x)) (extreme ?t (insert (limit ac ?t) (vals x (take m L))))"
      unfolding px insertCell_extremal [OF 1] using f 1 by (auto simp: front_ok_def Let_def vals_def)
    also have "\<dots> = extreme ?t (insert (fst (v ! x)) (insert (limit ac ?t) (vals x (take m L))))"
      by (subst extreme_insert) (auto simp: vals_def)
    finally show ?thesis using 1 assms(2) by (simp add: front_ok_def vals_update insert_commute)
  qed (use f px exact [of fst] exact [of snd] in \<open>auto simp: front_ok_def Let_def insertCell_additive summed_def\<close>)
qed

lemma insert_pane:
  assumes h: "holds_panes ac B L m A rear g" and "m < B" "m \<notin> A" and v: "length v = length (ac_types ac)"
    and E: "float_exact ac E" "list_exact ac E [v]" "sum_exact ac E L A" "sum_exact ac E (L[m := v]) (insert m A)"
  shows "\<exists>g'. ag_insert ac v g = Inr g' \<and> holds_panes ac B (L[m := v]) (Suc m) (insert m A) rear g'
    \<and> ag_addedElements g' = ag_addedElements g + 1 \<and> ag_removedElements g' = ag_removedElements g"
proof -
  have s: "shaped ac B g" and c: "ag_curPos g = int m" and A: "finite A" "length L = B" "A \<subseteq> {..<B}"
    using h assms(2) finite_subset [of A "{..<B}"] by (auto simp: holds_panes_def)
  note d = shapedD [OF s]
  let ?l = "cellwise liftCell (ac_types ac) v (ag_leaves g ! m)"
  let ?p = "cellwise (insertCell ac (m = 0)) (ac_types ac) v (ag_parents g ! 0)"
  let ?g = "g\<lparr>ag_leaves := (ag_leaves g)[m := ?l], ag_parents := (ag_parents g)[0 := ?p], ag_curPos := (if Suc m = B then 0 else int (Suc m)),
      ag_addedElements := ag_addedElements g + 1, ag_removedElements := ag_removedElements g\<rparr>"
  have g': "ag_insert ac v g = Inr ?g"
    using d c assms(2) by (simp add: ag_insert_def vget_def vset_def Let_def)
  have front: "front_ok ac (L[m := v]) (Suc m) (insert m A) ((ag_parents g)[0 := ?p] ! 0) x" if x: "x < length (ac_types ac)" for x
  proof -
    have "ac_types ac ! x \<noteq> WAvgAgg" using s x by (auto simp: shaped_def dest: nth_mem)
    moreover have "?p ! x = insertCell ac (m = 0) (ac_types ac ! x) (v ! x) (ag_parents g ! 0 ! x)"
      using x v d(4,6) by (intro cellwise_nth) auto
    ultimately show ?thesis using h x A assms(2,3) d(4) insert_front [OF _ _ _ _ _ _ E x] by (auto simp: holds_panes_def)
  qed
  have leaf: "leaf_ok ac (L[m := v]) ((ag_leaves g)[m := ?l]) k x" if x: "x < length (ac_types ac)" and k: "k \<in> insert m A" for x k
  proof (cases "k = m")
    case True
    have "?l ! x = liftCell (ac_types ac ! x) (v ! x) (ag_leaves g ! m ! x)" using x v d(5) assms(2) by (intro cellwise_nth) auto
    then show ?thesis using True A d(3) assms(2) by (simp add: leaf_ok_def liftCell_def)
  qed (use h k x in \<open>auto simp: leaf_ok_def holds_panes_def\<close>)
  have rear: "back_ok ac B (L[m := v]) (Suc m) ((ag_parents g)[0 := ?p]) x" if "x < length (ac_types ac)" rear for x
    using h that by (auto simp: back_ok_def holds_panes_def)
  have "shaped ac B ?g" using d(4-6) v assms(2) by (intro shaped_update [OF s]) auto
  then have "holds_panes ac B (L[m := v]) (Suc m) (insert m A) rear ?g"
    unfolding holds_panes_def using A assms(2) front leaf rear by simp
  then show ?thesis using g' by (intro exI [of _ ?g]) simp
qed

lemma flipCell_extremal: "extremal t \<Longrightarrow> fst (flipCell t (p, l) old) = comb t (fst p) (fst l)"
  by (auto simp: extremal_def flipCell_def comb_def)

text \<open>The state while \<open>flip\<close> runs: the suffixes from position \<open>q\<close> on are computed.\<close>

definition flipped :: "('f :: linordered_field) agg_code \<Rightarrow> nat \<Rightarrow> 'f node list \<Rightarrow> nat \<Rightarrow> 'f Aggregator \<Rightarrow> 'f Aggregator \<Rightarrow> bool" where
  "flipped ac B L q g g' \<longleftrightarrow> shaped ac B g' \<and> ag_leaves g' = ag_leaves g \<and> ag_curPos g' = ag_curPos g
     \<and> ag_addedElements g' = ag_addedElements g \<and> ag_removedElements g' = ag_removedElements g
     \<and> ag_parents g' ! 0 = ag_parents g ! 0 \<and> (\<forall>x < length (ac_types ac). back_ok ac B L q (ag_parents g') x)"

lemma flip_begin:
  assumes s: "shaped ac B g" and "ac_hasNonInvertible ac" "length L = B"
    and leaves: "\<And>k x. k < B \<Longrightarrow> x < length (ac_types ac) \<Longrightarrow> leaf_ok ac L (ag_leaves g) k x"
  shows "flipped ac B L (B - 1) g (g\<lparr>ag_parents := (ag_parents g)[1 := ag_leaves g ! (B - 1)]\<rparr>)"
proof -
  let ?g = "g\<lparr>ag_parents := (ag_parents g)[1 := ag_leaves g ! (B - 1)]\<rparr>"
  note d = shapedD [OF s]
  have "shaped ac B ?g" using s d(5) [of "B - 1"] d(1) by (auto simp: shaped_def dest!: set_update_subset_insert [THEN subsetD])
  moreover have "back_ok ac B L (B - 1) (ag_parents ?g) x" if "x < length (ac_types ac)" for x
  proof -
    have q: "q = B - 1" if "B - 1 \<le> q" "q < B" for q using that by simp
    have "drop (B - 1) L = [L ! (B - 1)]" using d(1) assms(3) Cons_nth_drop_Suc [of "B - 1" L] by simp
    moreover have "fst (ag_leaves g ! (B - 1) ! x) = fst (L ! (B - 1) ! x)" using leaves [of "B - 1" x] d(1) that by (simp add: leaf_ok_def)
    moreover have "length (ag_parents g) = Suc B" "B - (B - 1) = 1" using s assms(2) d(1) by (auto simp: shaped_def)
    ultimately show ?thesis using d(1) q unfolding back_ok_def by (fastforce simp: vals_def)
  qed
  ultimately show ?thesis by (simp add: flipped_def)
qed

lemma flip_step:
  assumes f: "flipped ac B L (B - i) g g'" and "ac_hasNonInvertible ac" "length L = B" "0 < i" "i < B"
    and leaves: "\<And>k x. k < B \<Longrightarrow> x < length (ac_types ac) \<Longrightarrow> leaf_ok ac L (ag_leaves g) k x"
  shows "\<exists>g''. flipStep ac (int i) g' = Inr g'' \<and> flipped ac B L (B - Suc i) g g''"
proof -
  have s: "shaped ac B g'" and ls: "ag_leaves g' = ag_leaves g" using f by (auto simp: flipped_def)
  note d = shapedD [OF s]
  have len: "length (ag_parents g') = Suc B" using s assms(2) by (simp add: shaped_def)
  let ?n = "cellwise flipCell (ac_types ac) (zip (ag_parents g' ! i) (ag_leaves g' ! (B - Suc i))) (ag_parents g' ! Suc i)"
  let ?g = "g'\<lparr>ag_parents := (ag_parents g')[Suc i := ?n]\<rparr>"
  have "nat (int i + 1) = Suc i" "nat (int B - int i - 1) = B - Suc i" by auto
  then have "flipStep ac (int i) g' = Inr ?g"
    using d(2,3) len assms(4,5) by (simp add: flipStep_def vget_def vset_def)
  moreover have "shaped ac B ?g"
    using s d(5) [of "B - Suc i"] d(6) [of i] d(6) [of "Suc i"] len assms(5)
    by (auto simp: shaped_def dest!: set_update_subset_insert [THEN subsetD])
  moreover have "back_ok ac B L (B - Suc i) (ag_parents ?g) x" if x: "x < length (ac_types ac)" for x
  proof -
    let ?t = "ac_types ac ! x"
    have b: "extremal ?t \<Longrightarrow> B - i \<le> q \<Longrightarrow> q < B \<Longrightarrow> fst (ag_parents g' ! (B - q) ! x) = extreme ?t (vals x (drop q L))" for q
      using f x by (auto simp: flipped_def back_ok_def)
    have n: "?n ! x = flipCell ?t (ag_parents g' ! i ! x, ag_leaves g' ! (B - Suc i) ! x) (ag_parents g' ! Suc i ! x)"
      using x d(5) [of "B - Suc i"] d(6) [of i] d(6) [of "Suc i"] len assms(5) by (subst cellwise_nth) auto
    have dr: "drop (B - Suc i) L = L ! (B - Suc i) # drop (B - i) L"
      using assms(3,5) Cons_nth_drop_Suc [of "B - Suc i" L] by (simp add: Suc_diff_Suc)
    have "fst (?n ! x) = extreme ?t (vals x (drop (B - Suc i) L))" if e: "extremal ?t"
    proof -
      have "fst (?n ! x) = comb ?t (extreme ?t (vals x (drop (B - i) L))) (fst (L ! (B - Suc i) ! x))"
        unfolding n flipCell_extremal [OF e] using b [OF e, of "B - i"] assms(4,5) leaves [of "B - Suc i" x] x ls
        by (simp add: leaf_ok_def)
      also have "\<dots> = extreme ?t (insert (fst (L ! (B - Suc i) ! x)) (vals x (drop (B - i) L)))"
        using assms(3,4,5) by (subst extreme_insert) (auto simp: vals_def comb_commute)
      finally show ?thesis by (simp add: dr vals_def)
    qed
    moreover have "B - q = Suc i \<longleftrightarrow> q = B - Suc i" if "q < B" for q using that assms(5) by auto
    ultimately show ?thesis using b len assms(5) by (auto simp: back_ok_def nth_list_update)
  qed
  ultimately show ?thesis using f by (auto simp: flipped_def)
qed


lemma flip_ok:
  assumes s: "shaped ac B g" and "ac_hasNonInvertible ac" "length L = B"
    and leaves: "\<And>k x. k < B \<Longrightarrow> x < length (ac_types ac) \<Longrightarrow> leaf_ok ac L (ag_leaves g) k x"
  shows "\<exists>g' p. flip ac g = Inr (g'\<lparr>ag_parents := (ag_parents g')[0 := p]\<rparr>) \<and> flipped ac B L 0 g g'
    \<and> p = map (\<lambda>(t, x). clearCell ac t x) (zip (ac_types ac) (ag_parents g ! 0))"
proof -
  note d = shapedD [OF s]
  let ?g0 = "g\<lparr>ag_parents := (ag_parents g)[1 := ag_leaves g ! (B - 1)]\<rparr>"
  have run: "\<exists>g'. rfold (flipStep ac) (map int [1..<i]) ?g0 = Inr g' \<and> flipped ac B L (B - i) g g'" if "0 < i" "i \<le> B" for i
    using that
  proof (induction i)
    case (Suc i)
    show ?case
    proof (cases "i = 0")
      case True
      then show ?thesis using flip_begin [OF assms(1-3) leaves] by simp
    next
      case False
      then obtain g' where g': "rfold (flipStep ac) (map int [1..<i]) ?g0 = Inr g'" "flipped ac B L (B - i) g g'" using Suc by auto
      obtain g'' where "flipStep ac (int i) g' = Inr g''" "flipped ac B L (B - Suc i) g g''"
        using flip_step [OF g'(2) assms(2,3) _ _ leaves] False Suc.prems by auto
      then show ?thesis using g'(1) False by (simp add: rfold_append)
    qed
  qed simp
  obtain g' where g': "rfold (flipStep ac) (map int [1..<B]) ?g0 = Inr g'" "flipped ac B L 0 g g'" using run [of B] d(1) by auto
  have idx: "[1..ac_bucketSize ac - 1] = map int [1..<B]"
  proof -
    have "[0..int B - 1] = 0 # [1..int B - 1]" using d(1) by (simp add: upto_rec1)
    moreover have "map int [0..<B] = 0 # map int [1..<B]" using d(1) by (simp add: upt_conv_Cons)
    ultimately show ?thesis using upto_nat [of B] d(2) by simp
  qed
  have s': "shaped ac B g'" "ag_parents g' ! 0 = ag_parents g ! 0" using g'(2) by (auto simp: flipped_def)
  have len: "length (ag_parents g) = Suc B" using s assms(2) by (simp add: shaped_def)
  have "nat (int B - 1) = B - 1" by simp
  then have "flip ac g = Inr (g'\<lparr>ag_parents := (ag_parents g')[0 := map (\<lambda>(t, x). clearCell ac t x) (zip (ac_types ac) (ag_parents g ! 0))]\<rparr>)"
    using idx g'(1) d(1-3) len shapedD(4) [OF s'(1)] s'(2) by (simp add: flip_def vget_def vset_def)
  then show ?thesis using g'(2) by blast
qed

text \<open>After the flip, where there is one, the suffixes of the position to evict are known.\<close>

lemma evict_flip:
  assumes h: "holds_panes ac B L m {..<B} True g" and p: "p = (if m = B then 0 else m)"
  shows "\<exists>g'. (if ac_hasNonInvertible ac \<and> ag_curPos g = 0 then flip ac g else Inr g) = Inr g' \<and> shaped ac B g'
      \<and> ag_leaves g' = ag_leaves g \<and> ag_curPos g' = int p
      \<and> ag_addedElements g' = ag_addedElements g \<and> ag_removedElements g' = ag_removedElements g
      \<and> (\<forall>x < length (ac_types ac). back_ok ac B L p (ag_parents g') x
          \<and> (extremal (ac_types ac ! x) \<longrightarrow> 0 < p \<longrightarrow> ag_parents g' ! 0 ! x = ag_parents g ! 0 ! x)
          \<and> (\<not> extremal (ac_types ac ! x) \<longrightarrow> ag_parents g' ! 0 ! x = ag_parents g ! 0 ! x))"
proof -
  have s: "shaped ac B g" and L: "length L = B" and pos: "ag_curPos g = int p" using h p by (auto simp: holds_panes_def)
  note d = shapedD [OF s]
  have cells: "k < B \<Longrightarrow> leaf_ok ac L (ag_leaves g) k x" "back_ok ac B L m (ag_parents g) x"
    if "x < length (ac_types ac)" for x k using h that by (auto simp: holds_panes_def)
  show ?thesis
  proof (cases "ac_hasNonInvertible ac \<and> ag_curPos g = 0")
    case True
    then have p0: "p = 0" using pos by simp
    obtain g' q where g': "flip ac g = Inr (g'\<lparr>ag_parents := (ag_parents g')[0 := q]\<rparr>)" "flipped ac B L 0 g g'"
      "q = map (\<lambda>(t, x). clearCell ac t x) (zip (ac_types ac) (ag_parents g ! 0))"
      using flip_ok [OF s _ L cells(1)] True by blast
    let ?g = "g'\<lparr>ag_parents := (ag_parents g')[0 := q]\<rparr>"
    have "length q = length (ac_types ac)" using g'(3) d(4,6) by simp
    moreover have s': "shaped ac B g'" using g'(2) by (simp add: flipped_def)
    ultimately have "shaped ac B ?g" by (auto simp: shaped_def dest!: set_update_subset_insert [THEN subsetD])
    moreover have "back_ok ac B L p (ag_parents ?g) x" if "x < length (ac_types ac)" for x
      using g'(2) that p0 by (auto simp: flipped_def back_ok_def)
    moreover have "q ! x = ag_parents g ! 0 ! x" if "x < length (ac_types ac)" "\<not> extremal (ac_types ac ! x)" for x
      using that g'(3) d(4) d(6) [of 0] by (simp add: clearCell_def extremal_def)
    ultimately show ?thesis using True g' p0 shapedD(4) [OF s'] by (auto simp: flipped_def)
  next
    case False
    have "back_ok ac B L p (ag_parents g) x" if "x < length (ac_types ac)" for x
    proof (cases "m = B")
      case True
      then have "\<not> ac_hasNonInvertible ac" using False pos p by simp
      then show ?thesis using s that by (auto simp: shaped_def back_ok_def)
    qed (use cells(2) [OF that] p in simp)
    then show ?thesis using False s pos by auto
  qed
qed

lemma evict_front:
  assumes f: "front_ok ac L m {..<B} p x" and "q < B" "q = (if m = B then 0 else m)" and t: "ac_types ac ! x \<noteq> WAvgAgg"
    and "extremal (ac_types ac ! x) \<Longrightarrow> 0 < q \<Longrightarrow> p' ! x = p ! x" "\<not> extremal (ac_types ac ! x) \<Longrightarrow> p' ! x = p ! x"
    and l: "leaf_ok ac L ls q x" and r: "r ! x = evictCell ac (ac_types ac ! x) (ls ! q ! x) (p' ! x)"
    and E: "float_exact ac E" "list_exact ac E [L ! q]" "sum_exact ac E L {..<B}" "sum_exact ac E L ({..<B} - {q})"
    and x: "x < length (ac_types ac)"
  shows "front_ok ac L q ({..<B} - {q}) r x"
proof -
  have exact: "ac_sub ac (\<Sum>k \<in> {..<B}. h (L ! k ! x)) (h (L ! q ! x)) = (\<Sum>k \<in> {..<B} - {q}. h (L ! k ! x))"
    if "h \<in> summed (ac_types ac ! x)" for h
  proof -
    have "h (L ! q ! x) \<in> E" "(\<Sum>k \<in> {..<B}. h (L ! k ! x)) \<in> E" "(\<Sum>k \<in> {..<B} - {q}. h (L ! k ! x)) \<in> E"
      using E(2-4) x that by (auto simp: list_exact_def sum_exact_def)
    then show ?thesis using E(1) assms(2) by (simp add: float_exact_def sum_diff1)
  qed
  show ?thesis
  proof (cases rule: cell_cases [OF t])
    case 1
    then show ?thesis using f r assms(3,5) by (auto simp: front_ok_def Let_def evictCell_sel)
  qed (use f r assms(6) l exact [of fst] exact [of snd] in
      \<open>auto simp: front_ok_def Let_def evictCell_sel leaf_ok_def summed_def\<close>)
qed

lemma evict_pane:
  assumes h: "holds_panes ac B L m {..<B} True g" and "\<not> ag_addedElements g < ag_removedElements g"
    and p: "p = (if m = B then 0 else m)"
    and E: "float_exact ac E" "list_exact ac E [L ! p]" "sum_exact ac E L {..<B}" "sum_exact ac E L ({..<B} - {p})"
  shows "\<exists>g'. ag_evict ac g = Inr g' \<and> holds_panes ac B L p ({..<B} - {p}) True g'
    \<and> ag_addedElements g' = ag_addedElements g \<and> ag_removedElements g' = ag_removedElements g + 1"
proof -
  obtain g1 where g1: "(if ac_hasNonInvertible ac \<and> ag_curPos g = 0 then flip ac g else Inr g) = Inr g1" "shaped ac B g1"
    "ag_leaves g1 = ag_leaves g" "ag_curPos g1 = int p" "ag_addedElements g1 = ag_addedElements g" "ag_removedElements g1 = ag_removedElements g"
    and c1: "\<And>x. x < length (ac_types ac) \<Longrightarrow> back_ok ac B L p (ag_parents g1) x
          \<and> (extremal (ac_types ac ! x) \<longrightarrow> 0 < p \<longrightarrow> ag_parents g1 ! 0 ! x = ag_parents g ! 0 ! x)
          \<and> (\<not> extremal (ac_types ac ! x) \<longrightarrow> ag_parents g1 ! 0 ! x = ag_parents g ! 0 ! x)"
    using evict_flip [OF h p] by blast
  have L: "length L = B" "p < B" using h p shapedD(1) by (auto simp: holds_panes_def)
  note d = shapedD [OF g1(2)]
  let ?r = "cellwise (evictCell ac) (ac_types ac) (ag_leaves g1 ! p) (ag_parents g1 ! 0)"
  let ?l = "resetNode ac (ag_leaves g1 ! p)"
  let ?g = "g1\<lparr>ag_leaves := (ag_leaves g1)[p := ?l], ag_parents := (ag_parents g1)[0 := ?r], ag_curPos := int p,
      ag_addedElements := ag_addedElements g1, ag_removedElements := ag_removedElements g1 + 1\<rparr>"
  have "ag_evict ac g = Inr ?g"
    using assms(2) g1 d(3,4) L by (simp add: ag_evict_def vget_def vset_def)
  moreover have "front_ok ac L p ({..<B} - {p}) ((ag_parents g1)[0 := ?r] ! 0) x" if x: "x < length (ac_types ac)" for x
  proof -
    have t: "ac_types ac ! x \<noteq> WAvgAgg" using g1(2) x by (auto simp: shaped_def dest: nth_mem)
    have r: "?r ! x = evictCell ac (ac_types ac ! x) (ag_leaves g1 ! p ! x) (ag_parents g1 ! 0 ! x)"
      using x d(4-6) L(2) by (intro cellwise_nth) auto
    have "front_ok ac L m {..<B} (ag_parents g ! 0) x" "leaf_ok ac L (ag_leaves g1) p x"
      using h x L(2) g1(3) by (auto simp: holds_panes_def)
    from evict_front [OF this(1) L(2) p t _ _ this(2) r E x] c1 [OF x] show ?thesis using d(4) by simp
  qed
  moreover have "leaf_ok ac L ((ag_leaves g1)[p := ?l]) k x" if "x < length (ac_types ac)" "k \<in> {..<B} - {p}" for x k
    using h g1(3) that by (auto simp: leaf_ok_def holds_panes_def)
  moreover have "back_ok ac B L p ((ag_parents g1)[0 := ?r]) x" if "x < length (ac_types ac)" for x
    using c1 [OF that] by (auto simp: back_ok_def)
  moreover have "shaped ac B ?g" using d(4-6) L(2) by (intro shaped_update [OF g1(2)]) (auto simp: resetNode_def)
  ultimately show ?thesis using L g1 by (intro exI [of _ ?g]) (auto simp: holds_panes_def)
qed


section \<open>Filling, sliding and querying\<close>

definition slidePane :: "('f :: linordered_field) agg_code \<Rightarrow> 'f node \<Rightarrow> 'f Aggregator \<Rightarrow> 'f Aggregator res" where
  "slidePane ac v g = rbind (ag_evict ac g) (ag_insert ac v)"

text \<open>The panes of the ring from the oldest to the newest.\<close>

definition window_of :: "nat \<Rightarrow> 'a list \<Rightarrow> nat \<Rightarrow> 'a list" where
  "window_of B L m = (let p = (if m = B then 0 else m) in drop p L @ take p L)"

lemma window_of_slide:
  assumes "length L = B" "p < B" "p = (if m = B then 0 else m)"
  shows "window_of B (L[p := v]) (Suc p) = tl (window_of B L m) @ [v]"
proof -
  have w: "window_of B L m = L ! p # drop (Suc p) L @ take p L"
    using assms Cons_nth_drop_Suc [of p L] by (simp add: window_of_def Let_def)
  have "take (Suc p) (L[p := v]) = take p L @ [v]" using assms by (simp add: take_Suc_conv_app_nth)
  moreover have "L[p := v] = take p L @ [v] @ drop (Suc p) L" using assms by (simp add: upd_conv_take_nth_drop)
  ultimately show ?thesis using w assms by (auto simp: window_of_def Let_def)
qed

lemma sum_window:
  fixes h :: "'a \<Rightarrow> 'b :: comm_monoid_add"
  assumes "length L = B"
  shows "(\<Sum>k < B. h (L ! k)) = sum_list (map h (window_of B L m))"
proof -
  have "sum_list (map h (drop p L @ take p L)) = sum_list (map h (take p L @ drop p L))" for p
    by (simp only: map_append sum_list_append add.commute)
  then have "sum_list (map h (window_of B L m)) = sum_list (map h L)" by (simp add: window_of_def Let_def)
  then show ?thesis using assms by (simp add: sum_list_sum_nth lessThan_atLeast0)
qed

lemma sum_exact_window:
  assumes "length L = B"
  shows "sum_exact ac E L {..<B} \<longleftrightarrow> list_exact ac E (window_of B L m)"
proof -
  have "(\<Sum>k<B. h (L ! k ! x)) = sum_list (map (\<lambda>n. h (n ! x)) (window_of B L m))" for h :: "'a cell \<Rightarrow> 'a" and x
    by (rule sum_window [OF assms])
  then show ?thesis by (simp add: sum_exact_def list_exact_def)
qed

lemma sum_exact_oldest:
  assumes "length L = B" "p < B" "p = (if m = B then 0 else m)"
  shows "sum_exact ac E L ({..<B} - {p}) \<longleftrightarrow> list_exact ac E (tl (window_of B L m))" and "hd (window_of B L m) = L ! p"
proof -
  have w: "window_of B L m = L ! p # drop (Suc p) L @ take p L"
    using assms Cons_nth_drop_Suc [of p L] by (simp add: window_of_def Let_def)
  then show "hd (window_of B L m) = L ! p" by simp
  have "(\<Sum>k \<in> {..<B} - {p}. h (L ! k ! x)) = sum_list (map (\<lambda>n. h (n ! x)) (tl (window_of B L m)))" for h :: "'a cell \<Rightarrow> 'a" and x
    using sum_window [OF assms(1), of "\<lambda>n. h (n ! x)" m] assms(2) w by (simp add: sum_diff1)
  then show "sum_exact ac E L ({..<B} - {p}) \<longleftrightarrow> list_exact ac E (tl (window_of B L m))"
    by (simp add: sum_exact_def list_exact_def)
qed

lemma sum_exact_prefix:
  assumes "k \<le> length vs"
  shows "sum_exact ac E (take k vs @ L) {..<k} \<longleftrightarrow> list_exact ac E (take k vs)"
proof -
  have "(\<Sum>i<k. h ((take k vs @ L) ! i ! x)) = sum_list (map (\<lambda>n. h (n ! x)) (take k vs))" for h :: "'a cell \<Rightarrow> 'a" and x
  proof -
    have "sum_list (map (\<lambda>n. h (n ! x)) (take k vs)) = (\<Sum>i<k. map (\<lambda>n. h (n ! x)) (take k vs) ! i)"
      using assms by (simp add: sum_list_sum_nth lessThan_atLeast0)
    also have "\<dots> = (\<Sum>i<k. h ((take k vs @ L) ! i ! x))"
      using assms by (intro sum.cong refl) (simp add: nth_append)
    finally show ?thesis by simp
  qed
  then show ?thesis by (simp add: sum_exact_def list_exact_def)
qed

lemma exact_sumsD:
  assumes "exact_sums ac E B ws"
  shows "float_exact ac E" and "n \<le> B \<Longrightarrow> list_exact ac E (take n (drop i ws))"
    and "exact_sums ac E B (drop i ws)" and "exact_sums ac E B (take i ws)"
  using assms by (auto simp: exact_sums_def drop_take)

lemma initialise_holds:
  assumes "shaped ac B g" "length L = B"
  shows "holds_panes ac B L 0 {} False (initialise ac g)"
proof -
  note d = shapedD [OF assms(1)]
  have n: "length (resetNode ac n) = length (ac_types ac)" if "n \<in> set (ag_parents g)" for n
    using that assms(1) by (simp add: resetNode_def shaped_def)
  then have "shaped ac B (initialise ac g)" using assms(1) by (auto simp: shaped_def initialise_def)
  moreover have "front_ok ac L 0 {} (map (resetNode ac) (ag_parents g) ! 0) x" if x: "x < length (ac_types ac)" for x
  proof -
    have "ac_types ac ! x \<noteq> WAvgAgg" using assms(1) x by (auto simp: shaped_def dest: nth_mem)
    moreover have "map (resetNode ac) (ag_parents g) ! 0 ! x = resetCell ac (ac_types ac ! x) (ag_parents g ! 0 ! x)"
      using d(4) d(6) [of 0] x by (simp add: resetNode_def)
    ultimately show ?thesis
      by (cases "ac_types ac ! x") (auto simp: front_ok_def resetCell_def extremal_def split: prod.split)
  qed
  ultimately show ?thesis using assms(2) d(1) by (simp add: holds_panes_def initialise_def)
qed

lemma fill_panes:
  assumes "holds_panes ac B (take k vs @ L) k {..<k} False g" and "length (take k vs @ L) = B" "length vs = B" "k \<le> B"
    and "\<forall>v \<in> set vs. length v = length (ac_types ac)" and "ag_addedElements g = of_nat k" "ag_removedElements g = 0"
    and E: "exact_sums ac E B vs"
  shows "\<exists>g'. rfold (ag_insert ac) (drop k vs) g = Inr g' \<and> holds_panes ac B vs B {..<B} True g'
    \<and> ag_addedElements g' = of_nat B \<and> ag_removedElements g' = 0"
  using assms(1-7)
proof (induction "B - k" arbitrary: k L g)
  case 0
  then have "k = B" "L = []" by auto
  then show ?case using 0 by (auto simp: holds_panes_def back_ok_def)
next
  case (Suc n)
  then have k: "k < B" by simp
  obtain l L' where L: "L = l # L'" using Suc.prems(2,3) k by (cases L) auto
  have v: "length (vs ! k) = length (ac_types ac)" using Suc.prems(3,5) k by simp
  have upd: "(take k vs @ L)[k := vs ! k] = take (Suc k) vs @ L'"
    using L k Suc.prems(3) by (simp add: list_update_append take_Suc_conv_app_nth)
  have "sum_exact ac E (take k vs @ L) {..<k}" "sum_exact ac E (take (Suc k) vs @ L') (insert k {..<k})"
    using sum_exact_prefix [of k vs ac E L] sum_exact_prefix [of "Suc k" vs ac E L'] exact_sumsD(2) [OF E, of _ 0] k Suc.prems(3)
    by (simp_all add: lessThan_Suc)
  moreover have "list_exact ac E [vs ! k]"
    using exact_sumsD(2) [OF E, of 1 k] k Suc.prems(3) by (simp add: take_Suc_conv_app_nth hd_drop_conv_nth take_Suc)
  ultimately obtain g1 where g1: "ag_insert ac (vs ! k) g = Inr g1"
    "holds_panes ac B ((take k vs @ L)[k := vs ! k]) (Suc k) (insert k {..<k}) False g1"
    "ag_addedElements g1 = ag_addedElements g + 1" "ag_removedElements g1 = ag_removedElements g"
    using insert_pane [OF Suc.prems(1) k _ v exact_sumsD(1) [OF E]] upd by auto
  have "\<exists>g'. rfold (ag_insert ac) (drop (Suc k) vs) g1 = Inr g' \<and> holds_panes ac B vs B {..<B} True g'
    \<and> ag_addedElements g' = of_nat B \<and> ag_removedElements g' = 0"
    using Suc.prems Suc.hyps(2) g1 upd L k by (intro Suc.hyps(1) [of "Suc k" L']) (auto simp: lessThan_Suc)
  then show ?case using g1(1) k Suc.prems(3) Cons_nth_drop_Suc [of k vs] by (auto simp flip: Cons_nth_drop_Suc)
qed

lemma slide_panes:
  assumes "holds_panes ac B L m {..<B} True g" and "0 < m" and "ag_addedElements g = of_nat (B + k)" "ag_removedElements g = of_nat k"
    and "B + k + length us < 2 ^ 32" "\<forall>v \<in> set us. length v = length (ac_types ac)"
    and "exact_sums ac E B (window_of B L m @ us)"
  shows "\<exists>g' L' m'. rfold (slidePane ac) us g = Inr g' \<and> holds_panes ac B L' m' {..<B} True g' \<and> 0 < m'
    \<and> window_of B L' m' = drop (length us) (window_of B L m @ us)"
  using assms
proof (induction us arbitrary: L m g k)
  case (Cons v us)
  let ?p = "if m = B then 0 else m"
  have L: "length L = B" "?p < B" using Cons.prems(1) shapedD(1) by (auto simp: holds_panes_def)
  have "\<not> (of_nat (B + k) :: 32 word) < of_nat k" using Cons.prems(5) unat_of_nat [where 'a = 32, of "B + k"] unat_of_nat [where 'a = 32, of k]
    by (simp add: word_less_nat_alt del: of_nat_add)
  then have live: "\<not> ag_addedElements g < ag_removedElements g" using Cons.prems(3,4) by simp
  note E = exact_sumsD [OF Cons.prems(7)]
  have len: "length (window_of B L m) = B" using L by (simp add: window_of_def Let_def)
  obtain o' ws where w: "window_of B L m = o' # ws" using len L by (cases "window_of B L m") auto
  then have ws: "length ws = B - 1" "0 < B" using len by auto
  have "take (B - Suc 0) ws = ws" "take B (ws @ v # us) = ws @ [v]" "drop B (o' # ws @ v # us) = v # us"
    using ws by (cases B; simp)+
  then have ex: "list_exact ac E [o']" "list_exact ac E ws" "list_exact ac E (o' # ws)" "list_exact ac E [v]" "list_exact ac E (ws @ [v])"
    using E(2) [of 1 0] E(2) [of "B - 1" 1] E(2) [of B 0] E(2) [of 1 B] E(2) [of B 1] ws len w
    by (simp_all add: take_Cons')
  have s0: "sum_exact ac E L {..<B}" using ex(3) w sum_exact_window [OF L(1), of ac E m] by simp
  have s1: "sum_exact ac E L ({..<B} - {?p})" and o: "o' = L ! ?p"
    using ex(2) w sum_exact_oldest(1) [OF L refl, of ac E] sum_exact_oldest(2) [OF L refl] by simp_all
  have s2: "sum_exact ac E (L[?p := v]) {..<B}"
    using ex(5) w window_of_slide [OF L refl, of v] L(1) sum_exact_window [of "L[?p := v]" B ac E "Suc ?p"] by simp
  have all: "insert ?p ({..<B} - {?p}) = {..<B}" using L(2) by auto
  from evict_pane [OF Cons.prems(1) live refl E(1) ex(1) [unfolded o] s0 s1] obtain g1 where g1: "ag_evict ac g = Inr g1"
    "holds_panes ac B L ?p ({..<B} - {?p}) True g1" "ag_addedElements g1 = of_nat (B + k)" "ag_removedElements g1 = of_nat (Suc k)"
    using Cons.prems(3,4) by auto
  from insert_pane [OF g1(2) L(2) _ _ E(1) ex(4) s1] s2 all Cons.prems(6) obtain g2 where g2: "ag_insert ac v g1 = Inr g2"
    "holds_panes ac B (L[?p := v]) (Suc ?p) (insert ?p ({..<B} - {?p})) True g2" "ag_addedElements g2 = of_nat (B + Suc k)"
    "ag_removedElements g2 = of_nat (Suc k)"
    using g1(3,4) by auto
  have "exact_sums ac E B (window_of B (L[?p := v]) (Suc ?p) @ us)"
    using E(3) [of 1] w window_of_slide [OF L refl, of v] by simp
  with all Cons.IH [of "L[?p := v]" "Suc ?p" g2 "Suc k"] g2 Cons.prems(5,6) obtain g' L' m' where
    r: "rfold (slidePane ac) us g2 = Inr g'" "holds_panes ac B L' m' {..<B} True g'" "0 < m'"
    "window_of B L' m' = drop (length us) (window_of B (L[?p := v]) (Suc ?p) @ us)" by auto
  moreover have "window_of B (L[?p := v]) (Suc ?p) = tl (window_of B L m) @ [v]" using window_of_slide [OF L refl] .
  moreover have "window_of B L m \<noteq> []" using L by (auto simp: window_of_def Let_def)
  ultimately have "window_of B L' m' = drop (length (v # us)) (window_of B L m @ v # us)"
    by (cases "window_of B L m") auto
  moreover have "rfold (slidePane ac) (v # us) g = Inr g'" using g1(1) g2(1) r(1) by (simp add: slidePane_def)
  ultimately show ?case using r(2,3) by blast
qed auto


text \<open>What a query should return for the panes of a window.\<close>

definition pane_aggregate :: "('f :: linordered_field) agg_code \<Rightarrow> AggregationType \<Rightarrow> nat \<Rightarrow> 'f node list \<Rightarrow> 'f" where
  "pane_aggregate ac t x ws =
     (if extremal t then extreme t (insert (limit ac t) (vals x ws))
      else if t = AvgAgg then ac_div ac (sum_list (map (\<lambda>n. fst (n ! x)) ws)) (sum_list (map (\<lambda>n. snd (n ! x)) ws))
      else sum_list (map (\<lambda>n. fst (n ! x)) ws))"

lemma vals_window: "vals x (window_of B L m) = vals x L"
proof -
  have "set (drop p L @ take p L) = set L" for p
    by (metis append_take_drop_id set_append Un_commute)
  then show ?thesis unfolding vals_def window_of_def Let_def set_map by blast
qed

lemma queryCell_ok:
  assumes h: "holds_panes ac B L m {..<B} True g" and m: "0 < m" and x: "x < length (ac_types ac)"
  shows "queryCell ac g (ac_types ac ! x) x (ag_parents g ! 0) = Inr (pane_aggregate ac (ac_types ac ! x) x (window_of B L m))"
proof -
  let ?t = "ac_types ac ! x" and ?p = "ag_parents g ! 0"
  have s: "shaped ac B g" and L: "length L = B" "m \<le> B" and pos: "ag_curPos g = int (if m = B then 0 else m)"
    using h by (auto simp: holds_panes_def)
  have f: "front_ok ac L m {..<B} ?p x" and b: "back_ok ac B L m (ag_parents g) x" using h x by (auto simp: holds_panes_def)
  have t: "?t \<noteq> WAvgAgg" using s x by (auto simp: shaped_def dest: nth_mem)
  show ?thesis
  proof (cases rule: cell_cases [OF t])
    case e: 1
    have fp: "fst (?p ! x) = extreme ?t (insert (limit ac ?t) (vals x (take m L)))" using f e m by (simp add: front_ok_def Let_def)
    have q: "queryCell ac g ?t x ?p = (if ag_curPos g = 0 then Inr (fst (?p ! x))
        else rbind (vget (ag_parents g) (ac_numOfParents ac - ag_curPos g - 1)) (\<lambda>s. Inr (comb ?t (fst (?p ! x)) (fst (s ! x)))))"
      using e by (auto simp: queryCell_def extremal_def comb_def)
    show ?thesis
    proof (cases "m = B")
      case True
      then show ?thesis using q pos fp e L vals_window [of x B L m] by (simp add: pane_aggregate_def)
    next
      case False
      then have mB: "m < B" using L(2) by simp
      have ni: "ac_hasNonInvertible ac" using s e x by (auto simp: shaped_def dest: nth_mem)
      then have "nat (ac_numOfParents ac - int m - 1) = B - m" "length (ag_parents g) = Suc B" using s by (auto simp: shaped_def)
      then have v: "vget (ag_parents g) (ac_numOfParents ac - int m - 1) = Inr (ag_parents g ! (B - m))"
        using s mB ni by (simp add: vget_def shaped_def)
      have "fst (ag_parents g ! (B - m) ! x) = extreme ?t (vals x (drop m L))" using b e mB by (simp add: back_ok_def)
      then have "comb ?t (fst (?p ! x)) (fst (ag_parents g ! (B - m) ! x))
          = extreme ?t (insert (limit ac ?t) (vals x (take m L)) \<union> vals x (drop m L))"
        using fp mB L by (subst extreme_union) (auto simp: vals_def)
      also have "insert (limit ac ?t) (vals x (take m L)) \<union> vals x (drop m L) = insert (limit ac ?t) (vals x L)"
        using set_append [of "take m L" "drop m L"] by (auto simp: vals_def simp flip: image_Un)
      finally show ?thesis using q pos False m v e vals_window [of x B L m] by (simp add: pane_aggregate_def)
    qed
  qed (use f sum_window [OF L(1), of "\<lambda>n. fst (n ! x)" m] sum_window [OF L(1), of "\<lambda>n. snd (n ! x)" m] in
      \<open>auto simp: queryCell_def Let_def front_ok_def pane_aggregate_def\<close>)
qed

lemma query_panes:
  assumes "holds_panes ac B L m {..<B} True g" and "0 < m"
  shows "ag_query ac g = Inr (map (\<lambda>x. pane_aggregate ac (ac_types ac ! x) x (window_of B L m)) [0..<length (ac_types ac)])"
proof -
  let ?v = "\<lambda>x. pane_aggregate ac (ac_types ac ! x) x (window_of B L m)"
  have "rfold (\<lambda>x r. rbind (queryCell ac g (ac_types ac ! x) x (ag_parents g ! 0)) (\<lambda>v. Inr (r @ [v]))) [0..<n] [] = Inr (map ?v [0..<n])"
    if "n \<le> length (ac_types ac)" for n
    using that queryCell_ok [OF assms] by (induction n) (simp_all add: rfold_append)
  moreover have "0 < length (ag_parents g)" using assms(1) by (auto simp: holds_panes_def dest: shapedD(4))
  ultimately show ?thesis by (simp add: ag_query_def vget_def)
qed

lemma slide_and_query:
  assumes s: "shaped ac B g" and "length vs = B" "B + length us < 2 ^ 32" and n: "\<forall>v \<in> set (vs @ us). length v = length (ac_types ac)"
    and E: "exact_sums ac E B (vs @ us)"
  shows "\<exists>g'. rbind (rfold (ag_insert ac) vs (initialise ac g)) (rfold (slidePane ac) us) = Inr g'
    \<and> ag_query ac g' = Inr (map (\<lambda>x. pane_aggregate ac (ac_types ac ! x) x (drop (length us) (vs @ us))) [0..<length (ac_types ac)])"
proof -
  have "holds_panes ac B (take 0 vs @ vs) 0 {..<0} False (initialise ac g)" using initialise_holds [OF s assms(2)] by simp
  moreover have "exact_sums ac E B vs" using exact_sumsD(4) [OF E, of B] assms(2) by simp
  ultimately obtain g1 where g1: "rfold (ag_insert ac) vs (initialise ac g) = Inr g1"
    "holds_panes ac B vs B {..<B} True g1" "ag_addedElements g1 = of_nat B" "ag_removedElements g1 = 0"
    using fill_panes [of ac B 0 vs vs "initialise ac g" E] assms(2) n by (auto simp: initialise_def)
  have w: "window_of B vs B = vs" by (simp add: window_of_def)
  from slide_panes [OF g1(2), of 0 us E] g1(3,4) assms(3) n shapedD(1) [OF s] w E obtain g' L' m' where
    "rfold (slidePane ac) us g1 = Inr g'" "holds_panes ac B L' m' {..<B} True g'" "0 < m'"
    "window_of B L' m' = drop (length us) (window_of B vs B @ us)" by auto
  then show ?thesis using w g1(1) query_panes [of ac B L' m' g'] by simp
qed

text \<open>
  C9. The ring has been filled with the first panes and every further pane evicts the oldest one. If the
  float additions and subtractions are exact on a set of values that contains the sums of consecutive
  panes of at most a window, a query returns for each aggregate the sum or count of the panes of the
  window, the quotient of the two sums as the float division rounds it, or the minimum of the panes
  and \<open>FLT_MAX\<close>, the maximum of the panes and \<open>FLT_MIN\<close>: the last two start from these limits.
\<close>

theorem sliding_aggregates:
  assumes "shaped ac B g" and "length vs = B" "B + length us < 2 ^ 32" and "\<forall>v \<in> set (vs @ us). length v = length (ac_types ac)"
    and "exact_sums ac E B (vs @ us)"
  shows "\<exists>g'. rbind (rfold (ag_insert ac) vs (initialise ac g)) (rfold (slidePane ac) us) = Inr g'
    \<and> ag_query ac g' = Inr (map (\<lambda>x. pane_aggregate ac (ac_types ac ! x) x (drop (length us) (vs @ us))) [0..<length (ac_types ac)])"
  using slide_and_query [OF assms] .

text \<open>
  \<open>FLT_MIN\<close> is the smallest positive float, so the maximum of panes whose values are all negative is
  reported as \<open>FLT_MIN\<close>.
\<close>

theorem max_of_negatives:
  assumes "shaped ac B g" and "length vs = B" "B + length us < 2 ^ 32" and "\<forall>v \<in> set (vs @ us). length v = length (ac_types ac)"
    and "x < length (ac_types ac)" "ac_types ac ! x = MaxAgg" and "exact_sums ac E B (vs @ us)"
    and "0 < ac_FLT_MIN ac" "\<forall>v \<in> set (vs @ us). fst (v ! x) < 0"
  shows "\<exists>g' r. rbind (rfold (ag_insert ac) vs (initialise ac g)) (rfold (slidePane ac) us) = Inr g'
    \<and> ag_query ac g' = Inr r \<and> r ! x = ac_FLT_MIN ac"
proof -
  have "extreme MaxAgg (insert (ac_FLT_MIN ac) (vals x (drop (length us) (vs @ us)))) = ac_FLT_MIN ac"
    unfolding extreme_def using assms(8,9) by (auto simp: vals_def dest!: in_set_dropD intro!: Max_eqI intro: less_imp_le less_trans)
  then have "pane_aggregate ac MaxAgg x (drop (length us) (vs @ us)) = ac_FLT_MIN ac"
    by (simp add: pane_aggregate_def extremal_def limit_def)
  then show ?thesis using slide_and_query [OF assms(1-4,7)] assms(5,6) by fastforce
qed


section \<open>Witnesses\<close>

text \<open>
  Windows of two panes, with a sum, a maximum and an average, over the reals; the operations round to
  integers.
\<close>

definition rounded :: "real \<Rightarrow> real" where
  "rounded r = real_of_int (round r)"

definition demoCode :: "real agg_code" where
  "demoCode = \<lparr>ac_types = [SumAgg, MaxAgg, AvgAgg], ac_hasNonInvertible = True, ac_numOfLeaves = 2, ac_numOfParents = 3, ac_bucketSize = 2,
     ac_FLT_MAX = 1000, ac_FLT_MIN = 1 / 1000, ac_add = \<lambda>a b. rounded (a + b), ac_sub = \<lambda>a b. rounded (a - b),
     ac_div = \<lambda>a b. rounded (a / b)\<rparr>"

definition demoAggregator :: "real Aggregator" where
  "demoAggregator = \<lparr>ag_curPos = 0, ag_addedElements = 0, ag_removedElements = 0,
     ag_parents = replicate 3 [(0, 0), (0, 0), (0, 0)], ag_leaves = replicate 2 [(0, 0), (0, 0), (0, 0)]\<rparr>"

lemma demoCode_shaped: "shaped demoCode 2 demoAggregator"
  by (simp add: shaped_def demoCode_def demoAggregator_def numeral_3_eq_3 numeral_2_eq_2)

lemma demoCode_new:
  "newAggregationCode (\<lambda>a b. rounded (a + b)) (\<lambda>a b. rounded (a - b)) (\<lambda>a b. rounded (a / b)) 1000 (1 / 1000)
     \<lparr>wd_size = 4, wd_slide = 2, wd_paneSize = 2, wd_gap = 0, wd_measure = ROW_BASED, wd_type = SLIDING\<rparr>
     [SumAgg, MaxAgg, AvgAgg] True = Inr demoCode"
  by (simp add: newAggregationCode_def numberOfPanes_def demoCode_def sdiv_nonneg)

lemma demoCode_exact:
  assumes "\<forall>v \<in> set ws. \<forall>x < 3. fst (v ! x) \<in> \<int> \<and> snd (v ! x) \<in> \<int>"
  shows "exact_sums demoCode \<int> B ws"
proof -
  have "rounded r = r" if "r \<in> \<int>" for r using that by (auto simp: rounded_def elim: Ints_cases)
  then have "float_exact demoCode \<int>" by (simp add: float_exact_def demoCode_def)
  moreover have "list_exact demoCode \<int> us" if "set us \<subseteq> set ws" for us
  proof -
    have "sum_list (map (\<lambda>v. h (v ! x)) us) \<in> \<int>" if "x < 3" "h = fst \<or> h = snd" for x h
      using that assms \<open>set us \<subseteq> set ws\<close> by (induction us) auto
    then show ?thesis by (auto simp: list_exact_def demoCode_def summed_def split: if_splits)
  qed
  moreover have "set (take n (drop i ws)) \<subseteq> set ws" for i n by (meson order_trans set_drop_subset set_take_subset)
  ultimately show ?thesis by (simp add: exact_sums_def)
qed

theorem sliding_aggregates_witness:
  "\<exists>g'. rbind (rfold (ag_insert demoCode) [[(1, 0), (1, 0), (1, 2)], [(2, 0), (2, 0), (2, 1)]] (initialise demoCode demoAggregator))
        (rfold (slidePane demoCode) [[(3, 0), (3, 0), (4, 1)]]) = Inr g' \<and> ag_query demoCode g' = Inr [5, 3, 3]"
  using sliding_aggregates [OF demoCode_shaped, of "[[(1, 0), (1, 0), (1, 2)], [(2, 0), (2, 0), (2, 1)]]" "[[(3, 0), (3, 0), (4, 1)]]" \<int>]
    demoCode_exact [of "[[(1, 0), (1, 0), (1, 2)], [(2, 0), (2, 0), (2, 1)], [(3, 0), (3, 0), (4, 1)]]" 2]
  by (simp add: demoCode_def pane_aggregate_def extremal_def limit_def extreme_def vals_def rounded_def less_Suc_eq numeral_3_eq_3)

theorem max_of_negatives_witness:
  "\<exists>g' r. rbind (rfold (ag_insert demoCode) [[(-1, 0), (-1, 0), (0, 0)], [(-2, 0), (-2, 0), (0, 0)]] (initialise demoCode demoAggregator))
        (rfold (slidePane demoCode) []) = Inr g' \<and> ag_query demoCode g' = Inr r \<and> r ! 1 = 1 / 1000"
  using max_of_negatives [OF demoCode_shaped, of "[[(-1, 0), (-1, 0), (0, 0)], [(-2, 0), (-2, 0), (0, 0)]]" "[]" 1 \<int>]
    demoCode_exact [of "[[(-1, 0), (-1, 0), (0, 0)], [(-2, 0), (-2, 0), (0, 0)]]" 2]
  by (simp add: demoCode_def less_Suc_eq numeral_3_eq_3)

end
