(* ===== verification/HashFunctions.thy ===== *)
theory HashFunctions
  imports Prelude
begin

text \<open>
  The hash functions of the generated code (\<open>cql/operators/HashFunctions.h\<close>). A key is the list of its
  bytes; machine words keep their width. The CRC instructions of the processor are given by what they
  compute: the remainder of the reflected polynomial \<open>0x82F63B78\<close>, bit by bit.
\<close>

section \<open>Words in memory and the CRC instructions\<close>

definition leWord :: "byte list \<Rightarrow> 'a :: len word" where
  "leWord bs = word_of_int (le_val bs)"

definition crcStep :: "32 word \<Rightarrow> 32 word \<Rightarrow> 32 word" where
  "crcStep poly c = (if bit c 0 then xor (drop_bit 1 c) poly else drop_bit 1 c)"

definition CRCPOLY :: "32 word" where
  "CRCPOLY = 0x82F63B78"

definition crc32_u8 :: "32 word \<Rightarrow> byte \<Rightarrow> 32 word" where
  "crc32_u8 crc v = (crcStep CRCPOLY ^^ 8) (xor crc (ucast v))"

definition crc32_u32 :: "32 word \<Rightarrow> 32 word \<Rightarrow> 32 word" where
  "crc32_u32 crc v = (crcStep CRCPOLY ^^ 32) (xor crc v)"

definition crc32_u64 :: "64 word \<Rightarrow> 64 word \<Rightarrow> 64 word" where
  "crc32_u64 crc v = ucast (crc32_u32 (crc32_u32 (ucast crc) (ucast v)) (ucast (drop_bit 32 v)))"

section \<open>\<open>Crc32Hash\<close>\<close>

definition Crc32Lookup :: "32 word list" where
  "Crc32Lookup =
    [0x00000000, 0x77073096, 0xEE0E612C, 0x990951BA, 0x076DC419, 0x706AF48F, 0xE963A535, 0x9E6495A3,
     0x0EDB8832, 0x79DCB8A4, 0xE0D5E91E, 0x97D2D988, 0x09B64C2B, 0x7EB17CBD, 0xE7B82D07, 0x90BF1D91,
     0x1DB71064, 0x6AB020F2, 0xF3B97148, 0x84BE41DE, 0x1ADAD47D, 0x6DDDE4EB, 0xF4D4B551, 0x83D385C7,
     0x136C9856, 0x646BA8C0, 0xFD62F97A, 0x8A65C9EC, 0x14015C4F, 0x63066CD9, 0xFA0F3D63, 0x8D080DF5,
     0x3B6E20C8, 0x4C69105E, 0xD56041E4, 0xA2677172, 0x3C03E4D1, 0x4B04D447, 0xD20D85FD, 0xA50AB56B,
     0x35B5A8FA, 0x42B2986C, 0xDBBBC9D6, 0xACBCF940, 0x32D86CE3, 0x45DF5C75, 0xDCD60DCF, 0xABD13D59,
     0x26D930AC, 0x51DE003A, 0xC8D75180, 0xBFD06116, 0x21B4F4B5, 0x56B3C423, 0xCFBA9599, 0xB8BDA50F,
     0x2802B89E, 0x5F058808, 0xC60CD9B2, 0xB10BE924, 0x2F6F7C87, 0x58684C11, 0xC1611DAB, 0xB6662D3D,
     0x76DC4190, 0x01DB7106, 0x98D220BC, 0xEFD5102A, 0x71B18589, 0x06B6B51F, 0x9FBFE4A5, 0xE8B8D433,
     0x7807C9A2, 0x0F00F934, 0x9609A88E, 0xE10E9818, 0x7F6A0DBB, 0x086D3D2D, 0x91646C97, 0xE6635C01,
     0x6B6B51F4, 0x1C6C6162, 0x856530D8, 0xF262004E, 0x6C0695ED, 0x1B01A57B, 0x8208F4C1, 0xF50FC457,
     0x65B0D9C6, 0x12B7E950, 0x8BBEB8EA, 0xFCB9887C, 0x62DD1DDF, 0x15DA2D49, 0x8CD37CF3, 0xFBD44C65,
     0x4DB26158, 0x3AB551CE, 0xA3BC0074, 0xD4BB30E2, 0x4ADFA541, 0x3DD895D7, 0xA4D1C46D, 0xD3D6F4FB,
     0x4369E96A, 0x346ED9FC, 0xAD678846, 0xDA60B8D0, 0x44042D73, 0x33031DE5, 0xAA0A4C5F, 0xDD0D7CC9,
     0x5005713C, 0x270241AA, 0xBE0B1010, 0xC90C2086, 0x5768B525, 0x206F85B3, 0xB966D409, 0xCE61E49F,
     0x5EDEF90E, 0x29D9C998, 0xB0D09822, 0xC7D7A8B4, 0x59B33D17, 0x2EB40D81, 0xB7BD5C3B, 0xC0BA6CAD,
     0xEDB88320, 0x9ABFB3B6, 0x03B6E20C, 0x74B1D29A, 0xEAD54739, 0x9DD277AF, 0x04DB2615, 0x73DC1683,
     0xE3630B12, 0x94643B84, 0x0D6D6A3E, 0x7A6A5AA8, 0xE40ECF0B, 0x9309FF9D, 0x0A00AE27, 0x7D079EB1,
     0xF00F9344, 0x8708A3D2, 0x1E01F268, 0x6906C2FE, 0xF762575D, 0x806567CB, 0x196C3671, 0x6E6B06E7,
     0xFED41B76, 0x89D32BE0, 0x10DA7A5A, 0x67DD4ACC, 0xF9B9DF6F, 0x8EBEEFF9, 0x17B7BE43, 0x60B08ED5,
     0xD6D6A3E8, 0xA1D1937E, 0x38D8C2C4, 0x4FDFF252, 0xD1BB67F1, 0xA6BC5767, 0x3FB506DD, 0x48B2364B,
     0xD80D2BDA, 0xAF0A1B4C, 0x36034AF6, 0x41047A60, 0xDF60EFC3, 0xA867DF55, 0x316E8EEF, 0x4669BE79,
     0xCB61B38C, 0xBC66831A, 0x256FD2A0, 0x5268E236, 0xCC0C7795, 0xBB0B4703, 0x220216B9, 0x5505262F,
     0xC5BA3BBE, 0xB2BD0B28, 0x2BB45A92, 0x5CB36A04, 0xC2D7FFA7, 0xB5D0CF31, 0x2CD99E8B, 0x5BDEAE1D,
     0x9B64C2B0, 0xEC63F226, 0x756AA39C, 0x026D930A, 0x9C0906A9, 0xEB0E363F, 0x72076785, 0x05005713,
     0x95BF4A82, 0xE2B87A14, 0x7BB12BAE, 0x0CB61B38, 0x92D28E9B, 0xE5D5BE0D, 0x7CDCEFB7, 0x0BDBDF21,
     0x86D3D2D4, 0xF1D4E242, 0x68DDB3F8, 0x1FDA836E, 0x81BE16CD, 0xF6B9265B, 0x6FB077E1, 0x18B74777,
     0x88085AE6, 0xFF0F6A70, 0x66063BCA, 0x11010B5C, 0x8F659EFF, 0xF862AE69, 0x616BFFD3, 0x166CCF45,
     0xA00AE278, 0xD70DD2EE, 0x4E048354, 0x3903B3C2, 0xA7672661, 0xD06016F7, 0x4969474D, 0x3E6E77DB,
     0xAED16A4A, 0xD9D65ADC, 0x40DF0B66, 0x37D83BF0, 0xA9BCAE53, 0xDEBB9EC5, 0x47B2CF7F, 0x30B5FFE9,
     0xBDBDF21C, 0xCABAC28A, 0x53B39330, 0x24B4A3A6, 0xBAD03605, 0xCDD70693, 0x54DE5729, 0x23D967BF,
     0xB3667A2E, 0xC4614AB8, 0x5D681B02, 0x2A6F2B94, 0xB40BBE37, 0xC30C8EA1, 0x5A05DF1B, 0x2D02EF8D]"

definition tableStep :: "64 word \<Rightarrow> byte \<Rightarrow> 64 word" where
  "tableStep crc b = xor (ucast (Crc32Lookup ! unat (and (xor crc (ucast b)) 0xFF))) (drop_bit 8 crc)"

fun dwords :: "byte list \<Rightarrow> 32 word list" where
  "dwords (a # b # c # d # bs) = leWord [a, b, c, d] # dwords bs"
| "dwords bs = []"

text \<open>The first bytes, up to the next multiple of four of the address, are hashed with the table.\<close>

definition CRC_Hardware :: "int \<Rightarrow> byte list \<Rightarrow> 64 word" where
  "CRC_Hardware address data =
     (let align = min (nat (and (4 - address) 3)) (length data);
          rest = drop align data;
          n = length rest div 4;
          crc = foldl tableStep 0xFFFFFFFF (take align data);
          crc = foldl (\<lambda>crc v. ucast (crc32_u32 (ucast crc) v)) crc (dwords (take (n * 4) rest));
          crc = foldl (\<lambda>crc b. ucast (crc32_u8 (ucast crc) b)) crc (drop (n * 4) rest)
      in not crc)"

section \<open>\<open>CRC32Hash\<close>\<close>

definition crcSeed :: "64 word" where
  "crcSeed = 902850234"

definition hashKey :: "64 word \<Rightarrow> 64 word" where
  "hashKey k =
     or (push_bit 32 (crc32_u64 0x04c11db7 k)) (crc32_u64 crcSeed k) * 0x2545F4914F6CDD1D"

text \<open>The blocks of eight bytes, then at most one of four bytes, then the rest.\<close>

function hashBlocks :: "64 word \<Rightarrow> byte list \<Rightarrow> 64 word \<times> byte list" where
  "hashBlocks s data =
     (if 8 \<le> length data then hashBlocks (hashKey (leWord (take 8 data))) (drop 8 data) else (s, data))"
  by pat_completeness auto
termination
  by (relation "measure (\<lambda>(s, data). length data)") auto

declare hashBlocks.simps [simp del]

definition crcTail :: "64 word \<Rightarrow> byte list \<Rightarrow> 64 word" where
  "crcTail s data =
     (let s = (if length data = 3 then xor s (push_bit 16 (ucast (data ! 2))) else s);
          s = (if length data \<in> {2, 3} then xor s (push_bit 8 (ucast (data ! 1))) else s)
      in if length data \<in> {1, 2, 3} then xor s (ucast (data ! 0)) else s)"

definition crcHashBytes :: "byte list \<Rightarrow> 64 word" where
  "crcHashBytes data =
     (let (s, data) = hashBlocks crcSeed data;
          (s, data) = (if 4 \<le> length data then (hashKey (ucast (leWord (take 4 data) :: 32 word)), drop 4 data) else (s, data))
      in crcTail s data)"

section \<open>\<open>MurmurHash\<close>\<close>

definition murmurM :: "64 word" where
  "murmurM = 0xc6a4a7935bd1e995"

definition xorShift :: "nat \<Rightarrow> 'a :: len word \<Rightarrow> 'a word" where
  "xorShift n x = xor x (drop_bit n x)"

definition murmurBlock :: "64 word \<Rightarrow> 64 word \<Rightarrow> 64 word" where
  "murmurBlock h k = xor h (xorShift 47 (k * murmurM) * murmurM) * murmurM"

fun qwords :: "byte list \<Rightarrow> 64 word list" where
  "qwords (a # b # c # d # e # f # g # h # bs) = leWord [a, b, c, d, e, f, g, h] # qwords bs"
| "qwords bs = []"

text \<open>The switch falls through from the last byte of the rest to the first one.\<close>

definition xorBytes :: "byte list \<Rightarrow> 'a :: len word \<Rightarrow> 'a word" where
  "xorBytes bs h = fold (\<lambda>i h. xor h (push_bit (8 * i) (ucast (bs ! i)))) (rev [0..<length bs]) h"

definition MurmurHash64 :: "byte list \<Rightarrow> 32 word \<Rightarrow> 64 word" where
  "MurmurHash64 key seed =
     (let n = length key div 8;
          h = xor (ucast seed) (of_nat (length key) * murmurM);
          h = foldl murmurBlock h (qwords (take (n * 8) key));
          h = (if length key mod 8 = 0 then h else xorBytes (drop (n * 8) key) h * murmurM)
      in xorShift 47 (xorShift 47 h * murmurM))"

section \<open>\<open>PythonHash\<close>\<close>

text \<open>
  The loop condition \<open>--length >= 0\<close> holds for every unsigned length, so the loop ends only at a byte
  that hashes to \<open>-1\<close>; a read behind the key is undefined. \<open>hasher\<close> is \<open>std::hash<char>\<close>.
\<close>

fun pythonLoop :: "(byte \<Rightarrow> 64 word) \<Rightarrow> 64 word \<Rightarrow> 64 word \<Rightarrow> 64 word \<Rightarrow> byte list \<Rightarrow> 64 word res" where
  "pythonLoop hasher x mult len [] = Inl Undefined"
| "pythonLoop hasher x mult len (b # bs) =
     (let len = len - 1; y = hasher b in
      if y = -1 then Inr (-1)
      else pythonLoop hasher (xor x y * mult) (mult + (82520 + len + len)) len bs)"

definition pythonHash :: "(byte \<Rightarrow> 64 word) \<Rightarrow> byte list \<Rightarrow> 64 word res" where
  "pythonHash hasher data = pythonLoop hasher 0x345678 1000003 (of_nat (length data)) data"

section \<open>\<open>JHash\<close>\<close>

definition rol32 :: "32 word \<Rightarrow> nat \<Rightarrow> 32 word" where
  "rol32 w shift = or (push_bit shift w) (drop_bit (32 - shift) w)"

definition jhash_mix :: "32 word \<times> 32 word \<times> 32 word \<Rightarrow> 32 word \<times> 32 word \<times> 32 word" where
  "jhash_mix = (\<lambda>(a, b, c).
     let a = xor (a - c) (rol32 c 4); c = c + b;
         b = xor (b - a) (rol32 a 6); a = a + c;
         c = xor (c - b) (rol32 b 8); b = b + a;
         a = xor (a - c) (rol32 c 16); c = c + b;
         b = xor (b - a) (rol32 a 19); a = a + c;
         c = xor (c - b) (rol32 b 4); b = b + a
     in (a, b, c))"

definition jhash_final :: "32 word \<times> 32 word \<times> 32 word \<Rightarrow> 32 word \<times> 32 word \<times> 32 word" where
  "jhash_final = (\<lambda>(a, b, c).
     let c = xor c b - rol32 b 14;
         a = xor a c - rol32 c 11;
         b = xor b a - rol32 a 25;
         c = xor c b - rol32 b 16;
         a = xor a c - rol32 c 4;
         b = xor b a - rol32 a 14;
         c = xor c b - rol32 b 24
     in (a, b, c))"

fun jhashLoop :: "32 word \<times> 32 word \<times> 32 word \<Rightarrow> 32 word list \<Rightarrow> (32 word \<times> 32 word \<times> 32 word) \<times> 32 word list" where
  "jhashLoop (a, b, c) (x # y # z # w # ks) = jhashLoop (jhash_mix (a + x, b + y, c + z)) (w # ks)"
| "jhashLoop s ks = (s, ks)"

definition jhashTail :: "32 word \<times> 32 word \<times> 32 word \<Rightarrow> 32 word list \<Rightarrow> 32 word \<times> 32 word \<times> 32 word" where
  "jhashTail = (\<lambda>(a, b, c) ks.
     if ks = [] then (a, b, c)
     else jhash_final (a + ks ! 0, if 2 \<le> length ks then b + ks ! 1 else b, if 3 \<le> length ks then c + ks ! 2 else c))"

definition jhash2 :: "32 word list \<Rightarrow> 32 word \<Rightarrow> 32 word" where
  "jhash2 k initval =
     (let i = 0xdeadbeef + push_bit 2 (of_nat (length k)) + initval;
          (s, ks) = jhashLoop (i, i, i) k
      in snd (snd (jhashTail s ks)))"

section \<open>\<open>MurmurHash3\<close>\<close>

definition rotl32 :: "32 word \<Rightarrow> nat \<Rightarrow> 32 word" where
  "rotl32 x r = or (push_bit r x) (drop_bit (32 - r) x)"

definition fmix32 :: "32 word \<Rightarrow> 32 word" where
  "fmix32 h = xorShift 16 (xorShift 13 (xorShift 16 h * 0x85ebca6b) * 0xc2b2ae35)"

definition fmix64 :: "64 word \<Rightarrow> 64 word" where
  "fmix64 k = xorShift 33 (xorShift 33 (xorShift 33 k * 0xff51afd7ed558ccd) * 0xc4ceb9fe1a85ec53)"

definition murmur3Key :: "32 word \<Rightarrow> 32 word" where
  "murmur3Key k = rotl32 (k * 0xcc9e2d51) 15 * 0x1b873593"

definition murmur3Block :: "32 word \<Rightarrow> 32 word \<Rightarrow> 32 word" where
  "murmur3Block h k = rotl32 (xor h (murmur3Key k)) 13 * 5 + 0xe6546b64"

definition MurmurHash3_x86_32 :: "byte list \<Rightarrow> 32 word \<Rightarrow> 32 word" where
  "MurmurHash3_x86_32 key seed =
     (let n = length key div 4;
          h = foldl murmur3Block seed (dwords (take (n * 4) key));
          tail = drop (n * 4) key;
          h = (if tail = [] then h else xor h (murmur3Key (xorBytes tail 0)))
      in fmix32 (xor h (of_nat (length key))))"

section \<open>\<open>UInt128Hash\<close>\<close>

definition rotate_by_at_least_1 :: "64 word \<Rightarrow> nat \<Rightarrow> 64 word" where
  "rotate_by_at_least_1 v shift = or (drop_bit shift v) (push_bit (64 - shift) v)"

definition hash_len_16 :: "64 word \<Rightarrow> 64 word \<Rightarrow> 64 word" where
  "hash_len_16 u v =
     (let mul = 0x9ddfea08eb382d69; a = xorShift 47 (xor u v * mul); b = xorShift 47 (xor v a * mul) in b * mul)"

definition uint128Hash :: "128 word \<Rightarrow> 64 word" where
  "uint128Hash data =
     (let a = ucast (and data 0xFFFFFFFFFFFFFFFF); b = ucast (drop_bit 64 (and data (push_bit 64 0xFFFFFFFFFFFFFFFF)))
      in xor (hash_len_16 a (rotate_by_at_least_1 (b + 16) 16)) b)"

end
