(* ===== verification/KeyHashing.thy ===== *)
theory KeyHashing
  imports HashFunctions
begin

text \<open>
  What the hash functions do to keys: which steps can be undone, on which keys they have no collisions, and
  where they have avoidable ones.
\<close>

section \<open>Reversible steps\<close>

lemma mult_right_injective:
  fixes m n :: "'a :: len word"
  assumes "m * n = 1" and "x * m = y * m"
  shows "x = y"
  using assms by (metis mult.assoc mult.right_neutral)

lemma xorShift_xor: "xorShift n (xor x y) = xor (xorShift n x) (xorShift n y)"
  by (rule bit_eqI) (auto simp: xorShift_def bit_simps)

lemma xor_eq_0: "xor x y = 0 \<longleftrightarrow> x = y" for x y :: "'a :: len word"
  by (metis bit.xor_self xor.right_neutral xor.assoc xor.left_neutral)

lemma xorShift_kernel:
  assumes "xorShift n x = 0" and "0 < n"
  shows "x = 0"
proof (rule ccontr)
  have b: "bit x i = bit x (n + i)" for i
  proof -
    have "x = drop_bit n x" using assms(1) by (simp add: xorShift_def xor_eq_0)
    then show ?thesis by (metis bit_drop_bit_eq comp_apply)
  qed
  have r: "bit x i = bit x (k * n + i)" for i k
  proof (induction k)
    case (Suc k)
    then show ?case using b [of "k * n + i"] by (simp add: ac_simps)
  qed simp
  assume "x \<noteq> 0"
  then obtain i where i: "bit x i" by (auto simp: bit_eq_iff)
  then have "bit x (LENGTH('a) * n + i)" using r by blast
  moreover have "LENGTH('a) \<le> LENGTH('a) * n + i" using assms(2) by (cases n) auto
  ultimately show False using bit_imp_le_length leD by blast
qed

lemma xorShift_inj: "0 < n \<Longrightarrow> xorShift n x = xorShift n y \<longleftrightarrow> x = y"
  using xorShift_kernel [of n "xor x y"] by (auto simp: xorShift_xor xor_eq_0)

lemma xor_left_cancel: "xor h x = xor h y \<longleftrightarrow> x = y" "xor x h = xor y h \<longleftrightarrow> x = y" for h x y :: "'a :: len word"
  by (metis bit.xor_self xor.assoc xor.left_neutral, metis bit.xor_self xor.assoc xor.right_neutral)

lemma rotl32_inj:
  assumes "0 < r" "r < 32"
  shows "rotl32 x r = rotl32 y r \<longleftrightarrow> x = y"
proof
  have "or (drop_bit r (rotl32 x r)) (push_bit (32 - r) (rotl32 x r)) = x" for x
  proof (rule bit_eqI)
    fix n
    have "32 + (n + r - 32) - r = n" if "32 \<le> n + r" using that by simp
    then show "bit (or (drop_bit r (rotl32 x r)) (push_bit (32 - r) (rotl32 x r))) n = bit x n" if "possible_bit TYPE(32 word) n"
      using assms that by (cases "n + r < 32") (auto simp: rotl32_def bit_simps)
  qed
  then show "x = y" if "rotl32 x r = rotl32 y r" using that by metis
qed simp

lemma odd_factors:
  "x * 0x85ebca6b = y * (0x85ebca6b :: 32 word) \<longleftrightarrow> x = y" "x * 0xc2b2ae35 = y * (0xc2b2ae35 :: 32 word) \<longleftrightarrow> x = y"
  "x * 0xcc9e2d51 = y * (0xcc9e2d51 :: 32 word) \<longleftrightarrow> x = y" "x * 0x1b873593 = y * (0x1b873593 :: 32 word) \<longleftrightarrow> x = y"
  "x * 5 = y * (5 :: 32 word) \<longleftrightarrow> x = y"
  using mult_right_injective [of "0x85ebca6b" "0xa5cb9243" x y] mult_right_injective [of "0xc2b2ae35" "0x7ed1b41d" x y]
    mult_right_injective [of "0xcc9e2d51" "0xdee13bb1" x y] mult_right_injective [of "0x1b873593" "0x56ed309b" x y]
    mult_right_injective [of "5" "0xcccccccd" x y] by auto

lemma odd_factors64:
  "z * 0x2545F4914F6CDD1D = w * (0x2545F4914F6CDD1D :: 64 word) \<longleftrightarrow> z = w" "z * 0xc6a4a7935bd1e995 = w * (0xc6a4a7935bd1e995 :: 64 word) \<longleftrightarrow> z = w"
  "z * 0xff51afd7ed558ccd = w * (0xff51afd7ed558ccd :: 64 word) \<longleftrightarrow> z = w" "z * 0xc4ceb9fe1a85ec53 = w * (0xc4ceb9fe1a85ec53 :: 64 word) \<longleftrightarrow> z = w"
  "z * 0x9ddfea08eb382d69 = w * (0x9ddfea08eb382d69 :: 64 word) \<longleftrightarrow> z = w"
  using mult_right_injective [of "0x2545F4914F6CDD1D" "0x59071d96d81ecd35" z w] mult_right_injective [of "0xc6a4a7935bd1e995" "0x5f7a0ea7e59b19bd" z w]
    mult_right_injective [of "0xff51afd7ed558ccd" "0x4f74430c22a54005" z w] mult_right_injective [of "0xc4ceb9fe1a85ec53" "0x9cb4b2f8129337db" z w]
    mult_right_injective [of "0x9ddfea08eb382d69" "0xdc56e6f5090b32d9" z w] by auto

lemmas reversible = odd_factors odd_factors64 xorShift_inj xor_left_cancel rotl32_inj

lemma fmix_inj: "fmix32 x = fmix32 y \<longleftrightarrow> x = y" "fmix64 z = fmix64 w \<longleftrightarrow> z = w"
  by (simp_all add: fmix32_def fmix64_def reversible)

lemma murmur3Key_inj: "murmur3Key x = murmur3Key y \<longleftrightarrow> x = y"
  by (simp add: murmur3Key_def reversible)

lemma murmur3Block_inj: "murmur3Block h x = murmur3Block h y \<longleftrightarrow> x = y"
  by (simp add: murmur3Block_def murmur3Key_inj reversible)

lemma murmurBlock_inj: "murmurBlock h x = murmurBlock h y \<longleftrightarrow> x = y"
  by (simp add: murmurBlock_def murmurM_def reversible)

lemma jhash_mix_inj: "jhash_mix s = jhash_mix t \<longleftrightarrow> s = t"
proof
  obtain a b c a' b' c' where s: "s = (a, b, c)" "t = (a', b', c')" by (metis prod_cases3)
  assume "jhash_mix s = jhash_mix t"
  then show "s = t" unfolding s jhash_mix_def Let_def prod.case by (auto simp: reversible)
qed simp

section \<open>The CRC instructions\<close>

lemma crcStep_xor: "crcStep p (xor c d) = xor (crcStep p c) (crcStep p d)"
  by (rule bit_eqI) (auto simp: crcStep_def bit_simps)

lemma crcSteps_xor: "(crcStep p ^^ n) (xor c d) = xor ((crcStep p ^^ n) c) ((crcStep p ^^ n) d)"
  by (induction n) (simp_all add: crcStep_xor)

lemma crcSteps_shift:
  assumes "\<And>i. bit v i \<Longrightarrow> i + n < 32"
  shows "(crcStep p ^^ n) (push_bit n v) = v"
  using assms
proof (induction n arbitrary: v)
  case (Suc n)
  have e: "crcStep p (push_bit (Suc n) v) = push_bit n v"
  proof (rule bit_eqI)
    fix i assume "possible_bit TYPE(32 word) i"
    moreover have "bit v (i - n) \<Longrightarrow> n \<le> i \<Longrightarrow> Suc i < 32" using Suc.prems [of "i - n"] by simp
    ultimately show "bit (crcStep p (push_bit (Suc n) v)) i = bit (push_bit n v) i"
      by (auto simp: crcStep_def bit_simps simp del: push_bit_Suc)
  qed
  have "(crcStep p ^^ n) (push_bit n v) = v"
  proof (rule Suc.IH)
    show "i + n < 32" if "bit v i" for i using Suc.prems [OF that] by simp
  qed
  then show ?case unfolding funpow_Suc_right comp_apply e .
qed simp

lemma crc32_u64_xor:
  "xor (crc32_u64 s k) (crc32_u64 s' k)
     = ucast ((crcStep CRCPOLY ^^ 64) (ucast (xor s s')))"
proof -
  let ?g = "crcStep CRCPOLY ^^ 32"
  have c: "xor (ucast a) (ucast b) = (ucast (xor a b) :: 64 word)" for a b :: "32 word"
    by (rule bit_eqI) (auto simp: bit_simps)
  have d: "xor (ucast a) (ucast b) = (ucast (xor a b) :: 32 word)" for a b :: "64 word"
    by (rule bit_eqI) (auto simp: bit_simps)
  have x: "xor (xor (?g (xor a l)) h) (xor (?g (xor b l)) h) = ?g (xor a b)" for a b l h
    by (simp add: crcSteps_xor ac_simps xor.left_commute)
  have "xor (crc32_u64 s k) (crc32_u64 s' k) = ucast (?g (?g (xor (ucast s) (ucast s'))))"
    unfolding crc32_u64_def crc32_u32_def c crcSteps_xor [symmetric] x ..
  moreover have "?g (?g v) = (crcStep CRCPOLY ^^ 64) v" for v
    by (metis comp_apply funpow_add numeral_Bit0)
  ultimately show ?thesis by (simp add: d)
qed

lemma leWord_Cons: "leWord (b # bs) = xor (ucast b) (push_bit 8 (leWord bs))"
proof -
  have "and (uint b) (push_bit 8 (le_val bs)) = 0"
  proof (rule bit_eqI)
    show "bit (and (uint b) (push_bit 8 (le_val bs))) n = bit 0 n" for n
      using bit_uint_iff [of b n] by (auto simp: bit_simps)
  qed
  then have v: "le_val (b # bs) = xor (uint b) (push_bit 8 (le_val bs))"
    using disjunctive_add_eq_xor [of "uint b" "push_bit 8 (le_val bs)"] by (simp add: push_bit_eq_mult mult.commute)
  show ?thesis
    unfolding leWord_def v by (rule bit_eqI) (auto simp: bit_simps)
qed

lemma crc32_byte_first:
  assumes "\<And>i. bit v i \<Longrightarrow> i < 24"
  shows "(crcStep CRCPOLY ^^ (m + 8)) (xor c (xor (ucast b) (push_bit 8 v))) = (crcStep CRCPOLY ^^ m) (xor (crc32_u8 c b) v)"
proof -
  have "(crcStep CRCPOLY ^^ 8) (push_bit 8 v) = v" using assms by (intro crcSteps_shift) force
  then have "(crcStep CRCPOLY ^^ 8) (xor c (xor (ucast b) (push_bit 8 v))) = xor (crc32_u8 c b) v"
    unfolding crc32_u8_def xor.assoc [symmetric] crcSteps_xor [of _ _ "xor c (ucast b)"] by simp
  then show ?thesis by (simp only: funpow_add comp_apply)
qed

lemma leWord_bound: "bit (leWord bs :: 32 word) i \<Longrightarrow> i < 8 * length bs"
proof (induction bs arbitrary: i)
  case Nil
  then show ?case by (simp add: leWord_def)
next
  case (Cons b bs)
  consider "bit b i" | "8 \<le> i" "bit (leWord bs :: 32 word) (i - 8)"
    using Cons.prems by (auto simp: leWord_Cons bit_simps)
  then show ?case
  proof cases
    case 1
    then show ?thesis using bit_imp_le_length [of b i] by simp
  next
    case 2
    then show ?thesis using Cons.IH [OF 2(2)] by simp
  qed
qed

lemma crc32_u32_bytes:
  "crc32_u32 c (leWord [a, b, d, e]) = foldl crc32_u8 c [a, b, d, e]"
proof -
  have n: "(32 :: nat) = ((8 + 8) + 8) + 8" "(24 :: nat) = (8 + 8) + 8" by simp_all
  have l: "bit (leWord bs :: 32 word) i \<Longrightarrow> length bs \<le> 3 \<Longrightarrow> i < 24" for bs i using leWord_bound [of bs i] by simp
  have z: "leWord [] = (0 :: 32 word)" by (simp add: leWord_def)
  have e: "(crcStep CRCPOLY ^^ 8) (xor f (leWord [x])) = crc32_u8 f x" for f x
    by (simp add: crc32_u8_def leWord_Cons z)
  show ?thesis
    unfolding crc32_u32_def n(1) leWord_Cons [of a] by (subst crc32_byte_first, erule l, simp,
      subst leWord_Cons, subst crc32_byte_first, erule l, simp, subst leWord_Cons, subst crc32_byte_first, erule l, simp) (simp add: e)
qed

section \<open>Keys without collisions\<close>

lemma low_digit:
  fixes a b p q :: int
  assumes "a + 256 * p = b + 256 * q" "0 \<le> a" "a < 256" "0 \<le> b" "b < 256"
  shows "a = b \<and> p = q"
proof -
  have "a = (a + 256 * p) mod 256" "b = (b + 256 * q) mod 256" using assms(2-5) by simp_all
  then show ?thesis using assms(1) by simp
qed

lemma leWord_inj:
  assumes "length bs = length cs" "8 * length bs \<le> LENGTH('a)" "(leWord bs :: 'a :: len word) = leWord cs"
  shows "bs = cs"
proof -
  have b: "le_val bs < 2 ^ (8 * length bs) \<and> 0 \<le> le_val bs" for bs
  proof (induction bs)
    case (Cons b bs)
    have "uint b < 256" "0 \<le> uint b" using uint_lt2p [of b] by simp_all
    then show ?case using Cons by (simp add: power_add)
  qed simp
  have s: "le_val ds < 2 ^ LENGTH('a)" if "length ds = length bs" for ds
    using b [of ds] that assms(2) power_increasing [of "8 * length ds" "LENGTH('a)" "2 :: int"] by linarith
  have "le_val bs mod 2 ^ LENGTH('a) = le_val cs mod 2 ^ LENGTH('a)"
    using assms(3) by (simp add: leWord_def word_of_int_eq_iff take_bit_eq_mod)
  then have "le_val bs = le_val cs" using b s assms(1) by simp
  with assms(1) show ?thesis
  proof (induction bs arbitrary: cs)
    case (Cons x bs)
    then obtain y cs' where c: "cs = y # cs'" by (cases cs) auto
    have u: "uint x < 256" "0 \<le> uint x" "uint y < 256" "0 \<le> uint y" using uint_lt2p [of x] uint_lt2p [of y] by simp_all
    have "uint x + 256 * le_val bs = uint y + 256 * le_val cs'" using Cons.prems c by simp
    from low_digit [OF this u(2,1,4,3)] have "x = y" "le_val bs = le_val cs'" by (simp_all add: word_uint_eqI)
    then show ?case using Cons.IH [of cs'] Cons.prems(1) c by simp
  qed simp
qed

lemma length_4E:
  assumes "length bs = 4"
  obtains a b c d where "bs = [a, b, c, d]"
  using assms by (auto simp: eval_nat_numeral length_Suc_conv)

lemma length_8E:
  assumes "length bs = 8"
  obtains a b c d e f g h where "bs = [a, b, c, d, e, f, g, h]"
  using assms by (auto simp: eval_nat_numeral length_Suc_conv)

lemma MurmurHash3_word: "length k = 4 \<Longrightarrow> MurmurHash3_x86_32 k seed = fmix32 (xor (murmur3Block seed (leWord k)) 4)"
  by (erule length_4E) (simp add: MurmurHash3_x86_32_def)

lemma MurmurHash64_word:
  "length k = 8 \<Longrightarrow> MurmurHash64 k seed
     = xorShift 47 (xorShift 47 (murmurBlock (xor (ucast seed) (8 * murmurM)) (leWord k)) * murmurM)"
  by (erule length_8E) (simp add: MurmurHash64_def)

lemma hash_len_16_inj: "hash_len_16 u v = hash_len_16 u' v \<longleftrightarrow> u = u'"
  by (simp add: hash_len_16_def Let_def reversible)

definition lowHalf :: "128 word \<Rightarrow> 64 word" where
  "lowHalf m = ucast m"

lemma uint128Hash_halves:
  "uint128Hash m = xor (hash_len_16 (lowHalf m) (rotate_by_at_least_1 (ucast (drop_bit 64 m) + 16) 16)) (ucast (drop_bit 64 m))"
proof -
  have m: "(0xFFFFFFFFFFFFFFFF :: 128 word) = mask 64" by (simp add: mask_eq_exp_minus_1)
  have "ucast (and m (mask 64)) = lowHalf m"
    "(ucast (drop_bit 64 (and m (push_bit 64 (mask 64)))) :: 64 word) = ucast (drop_bit 64 m)"
    by (auto intro!: bit_eqI simp: lowHalf_def bit_simps)
  then show ?thesis by (simp only: uint128Hash_def Let_def m)
qed

lemma halves_determine:
  assumes "drop_bit 64 m = drop_bit 64 m'" "lowHalf m = lowHalf m'"
  shows "m = m'"
proof (rule bit_eqI)
  fix i assume "possible_bit TYPE(128 word) i"
  show "bit m i = bit m' i"
  proof (cases "i < 64")
    case True
    then show ?thesis using arg_cong [OF assms(2), of "\<lambda>w. bit w i"] by (simp add: lowHalf_def bit_simps)
  next
    case False
    then show ?thesis using arg_cong [OF assms(1), of "\<lambda>w. bit w (i - 64)"] by (simp add: bit_simps)
  qed
qed

text \<open>
  C28. Keys of four bytes never collide under \<open>MurmurHash3\<close>, keys of eight bytes never under \<open>MurmurHash64\<close>, and
  128-bit keys with the same upper half never under \<open>UInt128Hash\<close>.
\<close>

theorem short_keys_distinct:
  "(length k = 4 \<and> length k' = 4 \<and> MurmurHash3_x86_32 k seed = MurmurHash3_x86_32 k' seed \<longrightarrow> k = k')
   \<and> (length l = 8 \<and> length l' = 8 \<and> MurmurHash64 l seed = MurmurHash64 l' seed \<longrightarrow> l = l')
   \<and> (drop_bit 64 m = drop_bit 64 m' \<and> uint128Hash m = uint128Hash m' \<longrightarrow> m = m')"
proof (intro conjI impI; (elim conjE)?)
  show "k = k'" if "length k = 4" "length k' = 4" "MurmurHash3_x86_32 k seed = MurmurHash3_x86_32 k' seed"
    using that leWord_inj [of k k', where ?'a = 32] by (simp add: MurmurHash3_word fmix_inj murmur3Block_inj reversible)
  show "l = l'" if "length l = 8" "length l' = 8" "MurmurHash64 l seed = MurmurHash64 l' seed"
    using that leWord_inj [of l l', where ?'a = 64] by (simp add: MurmurHash64_word murmurM_def murmurBlock_inj reversible)
  show "m = m'" if "drop_bit 64 m = drop_bit 64 m'" "uint128Hash m = uint128Hash m'"
    using that halves_determine [of m m'] by (simp add: uint128Hash_halves hash_len_16_inj xor_left_cancel)
qed

section \<open>The CRC hashes\<close>

lemma or_halves_inj:
  fixes a a' b b' :: "32 word"
  assumes "or (push_bit 32 (ucast a)) (ucast b) = (or (push_bit 32 (ucast a')) (ucast b') :: 64 word)"
  shows "b = b'"
proof (rule bit_eqI)
  fix i assume "possible_bit TYPE(32 word) i"
  then show "bit b i = bit b' i" using arg_cong [OF assms, of "\<lambda>w. bit w i"] by (simp add: bit_simps)
qed

text \<open>
  The second CRC of \<open>CRC32Hash\<close> adds nothing: two keys have the same hash exactly when their first CRCs,
  of 32 bits, are the same.
\<close>

theorem crc_hash_is_one_crc: "hashKey k = hashKey k' \<longleftrightarrow> crc32_u64 crcSeed k = crc32_u64 crcSeed k'"
proof
  assume "hashKey k = hashKey k'"
  then have "or (push_bit 32 (crc32_u64 0x04c11db7 k)) (crc32_u64 crcSeed k)
      = or (push_bit 32 (crc32_u64 0x04c11db7 k')) (crc32_u64 crcSeed k')"
    by (simp add: hashKey_def reversible)
  then show "crc32_u64 crcSeed k = crc32_u64 crcSeed k'"
    unfolding crc32_u64_def by (auto dest!: or_halves_inj)
next
  assume e: "crc32_u64 crcSeed k = crc32_u64 crcSeed k'"
  have "xor (crc32_u64 0x04c11db7 k) (crc32_u64 crcSeed k) = xor (crc32_u64 0x04c11db7 k') (crc32_u64 crcSeed k')"
    by (simp only: crc32_u64_xor)
  then have "crc32_u64 0x04c11db7 k = crc32_u64 0x04c11db7 k'" using e by (simp add: xor_left_cancel)
  then show "hashKey k = hashKey k'" using e by (simp add: hashKey_def)
qed

lemma hashBlocks_append:
  assumes "8 dvd length xs"
  shows "hashBlocks s (xs @ ys) = hashBlocks (fst (hashBlocks s xs)) ys"
  using assms
proof (induction s xs rule: hashBlocks.induct)
  case (1 s xs)
  show ?case
  proof (cases "8 \<le> length xs")
    case True
    then have "hashBlocks s (xs @ ys) = hashBlocks (hashKey (leWord (take 8 xs))) (drop 8 xs @ ys)"
      "hashBlocks s xs = hashBlocks (hashKey (leWord (take 8 xs))) (drop 8 xs)"
      by (simp_all add: hashBlocks.simps [of s "xs @ ys"] hashBlocks.simps [of s xs])
    then show ?thesis using 1 True by (simp add: dvd_minus_self)
  next
    case False
    then have "xs = []" using 1(2) by (auto dest: dvd_imp_le)
    then show ?thesis by (simp add: hashBlocks.simps [of s "[]"])
  qed
qed

lemma hashBlocks_seed: "8 \<le> length ys \<Longrightarrow> hashBlocks s ys = hashBlocks t ys"
  by (subst (1 2) hashBlocks.simps) simp

lemma hashBlocks_short: "length ys < 8 \<Longrightarrow> hashBlocks s ys = (s, ys)"
  by (subst hashBlocks.simps) simp

text \<open>
  The loop of \<open>CRC32Hash\<close> over the blocks of a key replaces the hash instead of combining it, so all blocks of
  eight bytes before the last four bytes are ignored: keys that end alike collide.
\<close>

theorem crc_hash_ignores_prefix:
  assumes "8 dvd length xs" "4 \<le> length ys"
  shows "crcHashBytes (xs @ ys) = crcHashBytes ys"
proof (cases "8 \<le> length ys")
  case True
  then have "hashBlocks crcSeed (xs @ ys) = hashBlocks crcSeed ys"
    unfolding hashBlocks_append [OF assms(1)] by (rule hashBlocks_seed)
  then show ?thesis by (simp add: crcHashBytes_def)
next
  case False
  then show ?thesis using assms by (simp add: crcHashBytes_def hashBlocks_append hashBlocks_short)
qed

lemma foldl_dwords:
  "4 dvd length bs \<Longrightarrow> foldl crc32_u32 c (dwords bs) = foldl crc32_u8 c bs"
proof (induction bs arbitrary: c rule: dwords.induct)
  case (1 a b d e bs)
  have "length (a # b # d # e # bs) = length bs + 4" by simp
  then have "4 dvd length bs" using 1(2) by (metis dvd_add_triv_right_iff)
  then show ?case using 1 by (simp add: crc32_u32_bytes)
qed (auto dest: dvd_imp_le)

lemma foldl_ucast:
  "foldl (\<lambda>crc v. ucast (f (ucast crc) v)) (ucast c) vs = (ucast (foldl f c vs) :: 64 word)" for c :: "32 word"
proof (induction vs arbitrary: c)
  case (Cons v vs)
  have "ucast (ucast c :: 64 word) = c" by (rule bit_eqI) (auto simp: bit_simps)
  then show ?case using Cons by simp
qed simp

lemma crc32c_zero: "crc32_u8 0xFFFFFFFF 0 = 0xad82acae"
proof -
  have "(f ^^ 8) x = f (f (f (f (f (f (f (f x)))))))" for f and x :: "32 word" by (simp add: eval_nat_numeral)
  then show ?thesis by (simp add: crc32_u8_def crcStep_def CRCPOLY_def)
qed

lemma tableStep_zero: "tableStep 0xFFFFFFFF 0 = 0x2dfd1072"
  by (simp add: tableStep_def Crc32Lookup_def)

text \<open>
  C29. At an address that is a multiple of four \<open>Crc32Hash\<close> is the CRC-32C of the bytes one by one, with the upper
  half of the result all ones. At other addresses the first bytes go through a table of another
  polynomial, so that the hash of a key can depend on its address: the key of one zero byte has
  different hashes at the addresses 0 and 1.
\<close>

theorem crc_hardware_is_crc32c:
  "(4 dvd address \<longrightarrow> CRC_Hardware address data = not (ucast (foldl crc32_u8 0xFFFFFFFF data)))
   \<and> CRC_Hardware 0 [0] \<noteq> CRC_Hardware 1 [0]"
proof (intro conjI impI)
  assume "4 dvd address"
  then have "and (4 - address) 3 = 0" using and_mask_pow2 [of 4 "4 - address"] is_pow2_def [of 4] by (auto simp: mod_eq_0_iff_dvd intro: exI [of _ 2])
  moreover have "foldl (\<lambda>crc v. ucast (crc32_u32 (ucast crc) v)) 0xFFFFFFFF ws = (ucast (foldl crc32_u32 0xFFFFFFFF ws) :: 64 word)" for ws
    using foldl_ucast [of crc32_u32 "0xFFFFFFFF" ws] by simp
  ultimately show "CRC_Hardware address data = not (ucast (foldl crc32_u8 0xFFFFFFFF data))"
    unfolding CRC_Hardware_def Let_def
    by (simp add: foldl_ucast foldl_dwords flip: foldl_append)
next
  show "CRC_Hardware 0 [0] \<noteq> CRC_Hardware 1 [0]"
    by (simp add: CRC_Hardware_def tableStep_zero crc32c_zero)
qed

text \<open>
  The loop of \<open>PythonHash\<close> never ends by itself: unless a byte of the key hashes to \<open>-1\<close> it reads behind the
  key.
\<close>

theorem python_hash_overruns:
  "pythonHash hasher data = (if \<exists>b \<in> set data. hasher b = -1 then Inr (-1) else Inl Undefined)"
proof -
  have "pythonLoop hasher x m n data = (if \<exists>b \<in> set data. hasher b = -1 then Inr (-1) else Inl Undefined)" for x m n
    by (induction data arbitrary: x m n) (simp_all add: Let_def)
  then show ?thesis by (simp add: pythonHash_def)
qed

section \<open>Witnesses\<close>

theorem short_keys_distinct_witness:
  "MurmurHash3_x86_32 [1, 2, 3, 4] 0 \<noteq> MurmurHash3_x86_32 [1, 2, 3, 5] 0
   \<and> MurmurHash64 [1, 2, 3, 4, 0, 0, 0, 0] 0 \<noteq> MurmurHash64 [1, 2, 3, 4, 0, 0, 0, 1] 0 \<and> uint128Hash 1 \<noteq> uint128Hash 2"
  using short_keys_distinct [of "[1, 2, 3, 4]" "[1, 2, 3, 5]" 0 "[1, 2, 3, 4, 0, 0, 0, 0]" "[1, 2, 3, 4, 0, 0, 0, 1]" 1 2] by auto

theorem crc_hash_ignores_prefix_witness:
  "crcHashBytes ([1, 0, 0, 0, 0, 0, 0, 0] @ [7, 0, 0, 0]) = crcHashBytes ([2, 0, 0, 0, 0, 0, 0, 0] @ [7, 0, 0, 0])"
proof -
  have "length ([x, 0, 0, 0, 0, 0, 0, 0] :: byte list) = 8" for x by simp
  then have "8 dvd length ([x, 0, 0, 0, 0, 0, 0, 0] :: byte list)" for x by (metis dvd_refl)
  then have "crcHashBytes ([x, 0, 0, 0, 0, 0, 0, 0] @ [7, 0, 0, 0]) = crcHashBytes [7, 0, 0, 0]" for x
    by (rule crc_hash_ignores_prefix) simp
  then show ?thesis by (simp only:)
qed

theorem crc_hardware_is_crc32c_witness: "CRC_Hardware 8 [0] = not (ucast (0xad82acae :: 32 word))"
  using crc_hardware_is_crc32c [of 8 "[0]"] by (simp add: crc32c_zero)


end
