(* ===== verification/BlockManager.thy ===== *)
theory BlockManager
  imports Schemas
begin

text \<open>
  The block manager (\<open>checkpoint/BlockManager.cpp\<close>, \<open>checkpoint/BlockManager.h\<close>): for each input buffer of a
  query a circular list of files, each for one capacity of the buffer, with the lookup of the file of a
  position and the release of files. A file pointer is the name of its file, since opening a name twice
  gives the same file of the operating system. Of a buffer the manager uses the capacity and the file
  pointers kept in persistent memory (\<open>updateFileEndPtr\<close>, \<open>updateFileStartPtr\<close> of
  \<open>buffers/PersistentCircularQueryBuffer.h\<close>).
\<close>

section \<open>The circular list of files\<close>

record FileHelper =
  fh_fileName :: "string option"
  fh_filePtr :: "string option"
  fh_start :: int
  fh_end :: int

definition newFileHelper :: FileHelper where
  "newFileHelper = \<lparr>fh_fileName = None, fh_filePtr = None, fh_start = INT_MIN, fh_end = INT_MIN\<rparr>"

record CircularFileList =
  fl_buffer :: "FileHelper list"
  fl_size :: int
  fl_readIdx :: int
  fl_writeIdx :: int
  fl_elements :: int
  fl_counter :: int

definition newCircularFileList :: "int \<Rightarrow> CircularFileList" where
  "newCircularFileList n =
     \<lparr>fl_buffer = replicate (nat n) newFileHelper, fl_size = n, fl_readIdx = 0, fl_writeIdx = n - 1,
      fl_elements = 0, fl_counter = 0\<rparr>"

definition set_capacity :: "int \<Rightarrow> CircularFileList \<Rightarrow> CircularFileList" where
  "set_capacity n l =
     l\<lparr>fl_buffer := take (nat n) (fl_buffer l) @ replicate (nat n - length (fl_buffer l)) newFileHelper,
       fl_size := n, fl_readIdx := 0, fl_writeIdx := n - 1\<rparr>"

definition nextIdx :: "CircularFileList \<Rightarrow> int \<Rightarrow> int" where
  "nextIdx l i = (if i + 1 = int (length (fl_buffer l)) then 0 else i + 1)"

definition fl_push_back :: "string \<Rightarrow> string \<Rightarrow> int \<Rightarrow> int \<Rightarrow> CircularFileList \<Rightarrow> CircularFileList res" where
  "fl_push_back fileName filePtr start stop l =
     (if fl_elements l = fl_size l then Inl RuntimeError
      else
        let w = nextIdx l (fl_writeIdx l) in
        rbind (vset (fl_buffer l) w \<lparr>fh_fileName = Some fileName, fh_filePtr = Some filePtr, fh_start = start, fh_end = stop\<rparr>)
          (\<lambda>b. Inr (l\<lparr>fl_buffer := b, fl_counter := fl_counter l + 1, fl_writeIdx := w, fl_elements := fl_elements l + 1\<rparr>)))"

text \<open>The file is read before the write index moves.\<close>

definition push_back_dummy :: "CircularFileList \<Rightarrow> (string option \<times> CircularFileList) res" where
  "push_back_dummy l =
     (if fl_elements l = fl_size l then Inl RuntimeError
      else
        rbind (vget (fl_buffer l) (fl_writeIdx l)) (\<lambda>f.
          Inr (fh_filePtr f, l\<lparr>fl_writeIdx := nextIdx l (fl_writeIdx l), fl_elements := fl_elements l + 1\<rparr>)))"

definition fl_front :: "CircularFileList \<Rightarrow> FileHelper option res" where
  "fl_front l =
     (if fl_elements l > 0 then rbind (vget (fl_buffer l) (fl_readIdx l)) (\<lambda>f. Inr (Some f)) else Inr None)"

definition secondFront :: "CircularFileList \<Rightarrow> FileHelper res" where
  "secondFront l =
     (if fl_elements l > 1 then vget (fl_buffer l) ((fl_readIdx l + 1) mod int (length (fl_buffer l))) else Inl RuntimeError)"

definition fl_pop_front :: "CircularFileList \<Rightarrow> CircularFileList" where
  "fl_pop_front l = l\<lparr>fl_elements := fl_elements l - 1, fl_readIdx := nextIdx l (fl_readIdx l)\<rparr>"

definition hasWrapped :: "CircularFileList \<Rightarrow> bool" where
  "hasWrapped l \<longleftrightarrow> fl_counter l \<ge> fl_size l"

section \<open>The manager\<close>

record FileRoot =
  fr_capacity :: int
  fr_startId :: int
  fr_endId :: int
  fr_startP :: int
  fr_prevFreeOffset :: int

definition updateFileEndPtr :: "int \<Rightarrow> FileRoot \<Rightarrow> FileRoot" where
  "updateFileEndPtr i r = r\<lparr>fr_endId := i\<rparr>"

definition updateFileStartPtr :: "int \<Rightarrow> int \<Rightarrow> FileRoot \<Rightarrow> FileRoot" where
  "updateFileStartPtr i offset r =
     (if offset < fr_prevFreeOffset r then r
      else r\<lparr>fr_prevFreeOffset := offset, fr_startId := i, fr_startP := offset\<rparr>)"

record QueryFiles =
  qf_files :: CircularFileList
  qf_filesystem :: bool
  qf_buffer :: FileRoot

record BlockManager =
  bm_numberOfQueries :: int
  bm_lFiles :: "QueryFiles list"
  bm_rFiles :: "QueryFiles list"

definition filesOf :: "BlockManager \<Rightarrow> int \<Rightarrow> int \<Rightarrow> QueryFiles res" where
  "filesOf m query bufferId =
     (if query \<ge> bm_numberOfQueries m \<or> bufferId \<ge> 2 then Inl RuntimeError
      else if bufferId = 0 then vget (bm_lFiles m) query else vget (bm_rFiles m) query)"

definition setFilesOf :: "int \<Rightarrow> int \<Rightarrow> QueryFiles \<Rightarrow> BlockManager \<Rightarrow> BlockManager res" where
  "setFilesOf query bufferId q m =
     (if bufferId = 0 then rbind (vset (bm_lFiles m) query q) (\<lambda>qs. Inr (m\<lparr>bm_lFiles := qs\<rparr>))
      else rbind (vset (bm_rFiles m) query q) (\<lambda>qs. Inr (m\<lparr>bm_rFiles := qs\<rparr>)))"

definition fileName :: "int \<Rightarrow> int \<Rightarrow> string" where
  "fileName bufferId i = ''scabbard/fs_queue_data_'' @ to_string bufferId @ ''_'' @ to_string i"

text \<open>A new file, or the next one of the list when all of them have been used.\<close>

definition allocateFile :: "int \<Rightarrow> int \<Rightarrow> QueryFiles \<Rightarrow> (string option \<times> QueryFiles) res" where
  "allocateFile bufferId index q =
     (let cap = fr_capacity (qf_buffer q) in
      if cap = 0 then Inl Undefined
      else
        let i = index div cap; name = fileName bufferId i in
        rbind (if \<not> hasWrapped (qf_files q)
               then (if \<not> qf_filesystem q then Inl RuntimeError
                     else rbind (fl_push_back name name (i * cap) ((i + 1) * cap) (qf_files q)) (\<lambda>l. Inr (Some name, l)))
               else push_back_dummy (qf_files q)) (\<lambda>(p, l).
          Inr (p, q\<lparr>qf_files := l, qf_buffer := updateFileEndPtr i (qf_buffer q)\<rparr>)))"

definition findFile :: "int \<Rightarrow> int \<Rightarrow> QueryFiles \<Rightarrow> (string option \<times> QueryFiles) res" where
  "findFile bufferId index q =
     rbind (fl_front (qf_files q)) (\<lambda>f.
       case f of
         None \<Rightarrow> allocateFile bufferId index q
       | Some f \<Rightarrow>
           if index < fh_end f then Inr (fh_filePtr f, q)
           else if fl_elements (qf_files q) > 1 then rbind (secondFront (qf_files q)) (\<lambda>f. Inr (fh_filePtr f, q))
           else allocateFile bufferId index q)"

definition getFilePtr :: "int \<Rightarrow> int \<Rightarrow> int \<Rightarrow> BlockManager \<Rightarrow> (string option \<times> BlockManager) res" where
  "getFilePtr query bufferId index m =
     rbind (filesOf m query bufferId) (\<lambda>q.
     rbind (findFile bufferId index q) (\<lambda>(p, q).
     rbind (setFilesOf query bufferId q m) (\<lambda>m. Inr (p, m))))"

text \<open>The condition of the search loop is always true, so the file of the given number is returned.\<close>

definition getUnsafeFilePtr :: "int \<Rightarrow> int \<Rightarrow> int \<Rightarrow> int \<Rightarrow> BlockManager \<Rightarrow> string option res" where
  "getUnsafeFilePtr query bufferId index fileId m =
     rbind (filesOf m query bufferId) (\<lambda>q.
     rbind (vget (fl_buffer (qf_files q)) fileId) (\<lambda>f. Inr (fh_filePtr f)))"

text \<open>The loop over the files that end at or before a position; a released file moves up by one capacity.\<close>

function freeFiles :: "int \<Rightarrow> QueryFiles \<Rightarrow> QueryFiles res" where
  "freeFiles index q =
     (if fl_elements (qf_files q) > 0 then
        (case vget (fl_buffer (qf_files q)) (fl_readIdx (qf_files q)) of
           Inl e \<Rightarrow> Inl e
         | Inr f \<Rightarrow>
             if index < fh_end f then Inr q
             else if \<not> qf_filesystem q then Inl RuntimeError
             else
               freeFiles index (q\<lparr>qf_files := fl_pop_front ((qf_files q)\<lparr>fl_buffer := (fl_buffer (qf_files q))
                 [nat (fl_readIdx (qf_files q)) := f\<lparr>fh_end := fh_end f + fr_capacity (qf_buffer q)\<rparr>]\<rparr>)\<rparr>))
      else Inr q)"
  by pat_completeness auto
termination
  by (relation "measure (\<lambda>(index, q). nat (fl_elements (qf_files q)))") (auto simp: fl_pop_front_def)

declare freeFiles.simps [simp del]

definition freePersistent :: "int \<Rightarrow> int \<Rightarrow> int \<Rightarrow> BlockManager \<Rightarrow> BlockManager res" where
  "freePersistent query bufferId index m =
     rbind (filesOf m query bufferId) (\<lambda>q.
       if fr_capacity (qf_buffer q) = 0 then Inl Undefined
       else
         rbind (freeFiles index q) (\<lambda>q.
           setFilesOf query bufferId (q\<lparr>qf_buffer := updateFileStartPtr (index div fr_capacity (qf_buffer q)) index (qf_buffer q)\<rparr>) m))"

definition bm_freeSlot :: "int \<Rightarrow> int \<Rightarrow> int \<Rightarrow> BlockManager \<Rightarrow> BlockManager res" where
  "bm_freeSlot query bufferId index m = Inl RuntimeError"

section \<open>Construction\<close>

text \<open>\<open>std::string::find\<close> as a test.\<close>

fun containsText :: "string \<Rightarrow> string \<Rightarrow> bool" where
  "containsText pat [] \<longleftrightarrow> pat = []"
| "containsText pat (c # s) \<longleftrightarrow> take (length pat) (c # s) = pat \<or> containsText pat s"

definition loadFiles :: "int \<Rightarrow> string list \<Rightarrow> QueryFiles \<Rightarrow> QueryFiles res" where
  "loadFiles bufferId names q =
     (if \<not> qf_filesystem q then Inl RuntimeError
      else
        rbind (rfold (\<lambda>f (i, l).
                 if containsText (''fs_queue_data_'' @ to_string bufferId) f
                 then rbind (fl_push_back (''scabbard/'' @ f) (''scabbard/'' @ f) (i * fr_capacity (qf_buffer q))
                               ((i + 1) * fr_capacity (qf_buffer q)) l) (\<lambda>l. Inr (i + 1, l))
                 else Inr (i, l)) names (0, qf_files q))
          (\<lambda>(_, l). Inr (q\<lparr>qf_files := l\<rparr>)))"

definition listSize :: int where
  "listSize = 10"

text \<open>
  \<open>names\<close> is the sorted directory; \<open>left\<close> and \<open>right\<close> say for each query whether its buffers have a file system,
  with their file pointers. A right buffer gets the file system of the left one.
\<close>

definition newQueryFiles :: "bool \<Rightarrow> string list \<Rightarrow> int \<Rightarrow> bool \<times> bool \<times> FileRoot \<Rightarrow> QueryFiles res" where
  "newQueryFiles clearFiles names bufferId = (\<lambda>(own, shared, r).
     let q = \<lparr>qf_files = newCircularFileList listSize, qf_filesystem = own \<and> shared, qf_buffer = r\<rparr>
     in if own \<and> \<not> clearFiles then loadFiles bufferId names q else Inr q)"

definition newBlockManager ::
  "bool \<Rightarrow> string list \<Rightarrow> (bool \<times> FileRoot) list \<Rightarrow> (bool \<times> FileRoot) list \<Rightarrow> BlockManager res" where
  "newBlockManager clearFiles names left right =
     rbind (rfold (\<lambda>(l, r) (ls, rs).
              rbind (newQueryFiles clearFiles names 0 (fst l, fst l, snd l)) (\<lambda>lq.
              rbind (newQueryFiles clearFiles names 1 (fst r, fst l, snd r)) (\<lambda>rq.
                Inr (ls @ [lq], rs @ [rq])))) (zip left right) ([], []))
       (\<lambda>(ls, rs). Inr \<lparr>bm_numberOfQueries = int (length left), bm_lFiles = ls, bm_rFiles = rs\<rparr>)"

end
