(* ===== verification/BlockFiles.thy ===== *)
theory BlockFiles
  imports BlockManager
begin

text \<open>
  The files the block manager returns. As long as the list has not wrapped and at most two blocks are in
  use, each position has the file of its block; with three blocks or after ten files it has not.
\<close>

section \<open>The state of a list of files\<close>

text \<open>Ten slots, of which the files \<open>lo\<close> to \<open>hi\<close> are in use and the earlier ones have been released.\<close>

definition blockEntry :: "int \<Rightarrow> int \<Rightarrow> bool \<Rightarrow> nat \<Rightarrow> FileHelper" where
  "blockEntry bufferId cap freed i =
     \<lparr>fh_fileName = Some (fileName bufferId (int i)), fh_filePtr = Some (fileName bufferId (int i)),
      fh_start = int i * cap, fh_end = (int i + (if freed then 2 else 1)) * cap\<rparr>"

definition files_ok :: "int \<Rightarrow> nat \<Rightarrow> nat \<Rightarrow> QueryFiles \<Rightarrow> bool" where
  "files_ok bufferId lo hi q \<longleftrightarrow>
     (let l = qf_files q; cap = fr_capacity (qf_buffer q) in
      0 < cap \<and> qf_filesystem q \<and> lo \<le> hi \<and> hi \<le> 10 \<and> length (fl_buffer l) = 10 \<and> fl_size l = 10 \<and> fl_counter l = int hi
      \<and> fl_elements l = int hi - int lo \<and> fl_readIdx l = int lo mod 10 \<and> fl_writeIdx l = (int hi + 9) mod 10
      \<and> (\<forall>i < hi. fl_buffer l ! i = blockEntry bufferId cap (i < lo) i))"

lemma files_okD:
  assumes "files_ok bufferId lo hi q"
  shows "0 < fr_capacity (qf_buffer q)" "qf_filesystem q" "lo \<le> hi" "hi \<le> 10" "length (fl_buffer (qf_files q)) = 10"
    "fl_size (qf_files q) = 10" "fl_counter (qf_files q) = int hi" "fl_elements (qf_files q) = int hi - int lo"
    "fl_readIdx (qf_files q) = int lo mod 10" "fl_writeIdx (qf_files q) = (int hi + 9) mod 10"
    "\<And>i. i < hi \<Longrightarrow> fl_buffer (qf_files q) ! i = blockEntry bufferId (fr_capacity (qf_buffer q)) (i < lo) i"
  using assms by (auto simp: files_ok_def Let_def)

lemma nextIdx_mod: "length (fl_buffer l) = 10 \<Longrightarrow> nextIdx l (k mod 10) = (k + 1) mod 10"
proof -
  assume l: "length (fl_buffer l) = 10"
  have "(k + 1) mod 10 = (k mod 10 + 1) mod 10" by (rule mod_add_left_eq [symmetric])
  moreover have "0 \<le> k mod 10" "k mod 10 < 10" by simp_all
  ultimately show ?thesis using l by (cases "k mod 10 = 9") (simp_all add: nextIdx_def)
qed

lemma new_files_ok:
  "0 < fr_capacity r \<Longrightarrow>
   files_ok bufferId 0 0 \<lparr>qf_files = newCircularFileList listSize, qf_filesystem = True, qf_buffer = r\<rparr>"
  by (simp add: files_ok_def newCircularFileList_def listSize_def)

lemma allocate_ok:
  assumes "files_ok bufferId lo hi q" "index div fr_capacity (qf_buffer q) = int hi" "hi < 10"
  shows "\<exists>q'. allocateFile bufferId index q = Inr (Some (fileName bufferId (int hi)), q') \<and> files_ok bufferId lo (Suc hi) q'
    \<and> fr_endId (qf_buffer q') = int hi \<and> fr_capacity (qf_buffer q') = fr_capacity (qf_buffer q)"
proof -
  note d = files_okD [OF assms(1)]
  have n: "nextIdx (qf_files q) (fl_writeIdx (qf_files q)) = int hi"
    unfolding d(10) nextIdx_mod [OF d(5)] using assms(3) by simp
  have "(int (Suc hi) + 9) mod 10 = int hi" using assms(3) by simp
  then show ?thesis
    using assms(2,3) d unfolding allocateFile_def fl_push_back_def hasWrapped_def Let_def n
    by (auto simp: files_ok_def Let_def vset_def updateFileEndPtr_def blockEntry_def nth_list_update)
qed

lemma front_entry:
  assumes "files_ok bufferId lo hi q" "lo < hi"
  shows "vget (fl_buffer (qf_files q)) (fl_readIdx (qf_files q)) = Inr (blockEntry bufferId (fr_capacity (qf_buffer q)) False lo)"
  using files_okD [OF assms(1)] assms(2) by (auto simp: vget_def)

lemma second_entry:
  assumes "files_ok bufferId lo hi q" "Suc lo < hi"
  shows "secondFront (qf_files q) = Inr (blockEntry bufferId (fr_capacity (qf_buffer q)) False (Suc lo))"
proof -
  note d = files_okD [OF assms(1)]
  have "(int lo mod 10 + 1) mod 10 = int (Suc lo)" using assms(2) d(4) by simp
  moreover have "nat (int lo + 1) = Suc lo" by simp
  ultimately show ?thesis using d assms(2) by (auto simp: secondFront_def vget_def)
qed

section \<open>Positions and files\<close>

lemma block_bounds:
  fixes cap :: int
  assumes "0 < cap"
  shows "index < (k + 1) * cap \<longleftrightarrow> index div cap \<le> k"
  using zdiv_less_iff [OF assms, of index "k + 1"] by linarith

lemma find_front:
  assumes "files_ok bufferId lo hi q" "lo < hi" "index div fr_capacity (qf_buffer q) \<le> int lo"
  shows "findFile bufferId index q = Inr (Some (fileName bufferId (int lo)), q)"
proof -
  note d = files_okD [OF assms(1)]
  have "index < fh_end (blockEntry bufferId (fr_capacity (qf_buffer q)) False lo)"
    using block_bounds [OF d(1)] assms(3) by (simp add: blockEntry_def)
  then show ?thesis
    using front_entry [OF assms(1,2)] d(8) assms(2) by (simp add: findFile_def fl_front_def) (simp add: blockEntry_def)
qed

lemma find_behind_front:
  assumes "files_ok bufferId lo hi q" "lo < hi" "int lo < index div fr_capacity (qf_buffer q)"
  shows "findFile bufferId index q =
    (if Suc lo < hi then Inr (Some (fileName bufferId (int (Suc lo))), q) else allocateFile bufferId index q)"
proof -
  note d = files_okD [OF assms(1)]
  have "\<not> index < fh_end (blockEntry bufferId (fr_capacity (qf_buffer q)) False lo)"
    using block_bounds [OF d(1), of index "int lo"] assms(3) by (simp add: blockEntry_def)
  then show ?thesis
    using front_entry [OF assms(1,2)] second_entry [OF assms(1)] d(8) assms(2)
    by (auto simp: findFile_def fl_front_def) (simp_all add: blockEntry_def)
qed

lemma find_empty:
  assumes "files_ok bufferId lo lo q"
  shows "findFile bufferId index q = allocateFile bufferId index q"
  using files_okD(8) [OF assms] by (simp add: findFile_def fl_front_def)

lemma find_block:
  assumes "files_ok bufferId lo hi q" "index div fr_capacity (qf_buffer q) = int i" "lo \<le> i" "i \<le> hi" "i \<le> Suc lo" "i < 10"
  shows "\<exists>q'. findFile bufferId index q = Inr (Some (fileName bufferId (int i)), q') \<and> files_ok bufferId lo (max hi (Suc i)) q'
    \<and> fr_capacity (qf_buffer q') = fr_capacity (qf_buffer q)"
proof -
  note a = allocate_ok [OF assms(1)]
  consider "i = lo" "lo < hi" | "i = lo" "lo = hi" | "i = Suc lo" "i < hi" | "i = Suc lo" "i = hi" using assms(3-5) by linarith
  then show ?thesis
  proof cases
    case 1
    then show ?thesis using find_front [OF assms(1)] assms(1,2) by (simp add: max_absorb1)
  next
    case 2
    then have "findFile bufferId index q = allocateFile bufferId index q" using find_empty assms(1) by blast
    then show ?thesis using a [of index] 2 assms(2,6) by (auto simp: max_absorb2)
  next
    case 3
    then show ?thesis using find_behind_front [OF assms(1), of index] assms(1,2) by (simp add: max_absorb1)
  next
    case 4
    then have "findFile bufferId index q = allocateFile bufferId index q" using find_behind_front [OF assms(1), of index] assms(2) by simp
    then show ?thesis using a [of index] 4 assms(2,6) by (auto simp: max_absorb2)
  qed
qed




text \<open>
  C27. With two blocks in use the position of any later block gets the file of the second one, so blocks
  overwrite each other.
\<close>

theorem third_block_shares_file:
  assumes "files_ok bufferId lo hi q" "Suc lo < hi" "int (Suc lo) < index div fr_capacity (qf_buffer q)"
  shows "findFile bufferId index q = Inr (Some (fileName bufferId (int (Suc lo))), q)"
  using find_behind_front [OF assms(1), of index] assms(2,3) by simp

lemma wrapped_calls:
  assumes "files_ok bufferId 10 10 q" "2 * fr_capacity (qf_buffer q) \<le> index"
  shows "\<exists>q1 q2. findFile bufferId index q = Inr (Some (fileName bufferId 9), q1)
    \<and> findFile bufferId index q1 = Inr (Some (fileName bufferId 0), q2)
    \<and> findFile bufferId index q2 = Inr (Some (fileName bufferId 1), q2)"
proof -
  note d = files_okD [OF assms(1)]
  let ?b = "fl_buffer (qf_files q)"
  let ?cap = "fr_capacity (qf_buffer q)"
  have b: "vget ?b 9 = Inr (blockEntry bufferId ?cap True 9)" "vget ?b 0 = Inr (blockEntry bufferId ?cap True 0)"
    "vget ?b 1 = Inr (blockEntry bufferId ?cap True 1)" using d(5,11) by (simp_all add: vget_def)
  have e: "\<not> index < fh_end (blockEntry bufferId ?cap True 0)" using assms(2) by (simp add: blockEntry_def)
  have p: "fh_filePtr (blockEntry bufferId ?cap True k) = Some (fileName bufferId (int k))" for k by (simp add: blockEntry_def)
  show ?thesis
    using d(1,5-10) b e p [of 9] p [of 0] p [of 1]
    by (simp add: findFile_def fl_front_def allocateFile_def Let_def hasWrapped_def push_back_dummy_def nextIdx_def
        secondFront_def updateFileEndPtr_def)
qed

text \<open>
  When ten files have been used and released, three lookups of the same position return three different
  files, the first one that of the block before.
\<close>

theorem wrapped_files_differ:
  assumes "files_ok bufferId 10 10 q" "index div fr_capacity (qf_buffer q) = 10"
  shows "\<exists>q1 q2. findFile bufferId index q = Inr (Some (fileName bufferId 9), q1)
    \<and> findFile bufferId index q1 = Inr (Some (fileName bufferId 0), q2)
    \<and> findFile bufferId index q2 = Inr (Some (fileName bufferId 1), q2)"
proof -
  have "2 \<le> index div fr_capacity (qf_buffer q)" using assms(2) by simp
  then show ?thesis using wrapped_calls [OF assms(1)] zdiv_ge_iff [OF files_okD(1) [OF assms(1)]] by blast
qed

text \<open>
  The names of the files do not mention the query: the first blocks of two queries are in the same file.
\<close>

theorem queries_share_files:
  assumes "newBlockManager True names [(True, r), (True, r)] [s, s] = Inr m" "0 < fr_capacity r"
  shows "\<exists>m1 m2. getFilePtr 0 0 0 m = Inr (Some (fileName 0 0), m1) \<and> getFilePtr 1 0 0 m1 = Inr (Some (fileName 0 0), m2)"
proof -
  let ?q = "\<lparr>qf_files = newCircularFileList listSize, qf_filesystem = True, qf_buffer = r\<rparr>"
  obtain rs where m: "m = \<lparr>bm_numberOfQueries = 2, bm_lFiles = [?q, ?q], bm_rFiles = rs\<rparr>"
    using assms(1) by (auto simp: newBlockManager_def newQueryFiles_def Let_def split: prod.splits)
  obtain q' where q: "findFile 0 0 ?q = Inr (Some (fileName 0 0), q')"
    using find_block [OF new_files_ok [OF assms(2)], of 0 0 0] by auto
  have "getFilePtr 0 0 0 m = Inr (Some (fileName 0 0), m\<lparr>bm_lFiles := [q', ?q]\<rparr>)"
    using q by (simp add: getFilePtr_def filesOf_def setFilesOf_def m vget_def vset_def)
  moreover have "getFilePtr 1 0 0 (m\<lparr>bm_lFiles := [q', ?q]\<rparr>) = Inr (Some (fileName 0 0), m\<lparr>bm_lFiles := [q', q']\<rparr>)"
    using q by (simp add: getFilePtr_def filesOf_def setFilesOf_def m vget_def vset_def)
  ultimately show ?thesis by blast
qed

section \<open>Witnesses\<close>

definition demoRoot :: FileRoot where
  "demoRoot = \<lparr>fr_capacity = 64, fr_startId = 0, fr_endId = 0, fr_startP = 0, fr_prevFreeOffset = -1\<rparr>"

definition demoFiles :: "nat \<Rightarrow> nat \<Rightarrow> QueryFiles" where
  "demoFiles lo hi = \<lparr>qf_files = \<lparr>fl_buffer = map (\<lambda>i. blockEntry 0 64 (i < lo) i) [0..<10], fl_size = 10, fl_readIdx = int lo mod 10,
     fl_writeIdx = (int hi + 9) mod 10, fl_elements = int hi - int lo, fl_counter = int hi\<rparr>, qf_filesystem = True, qf_buffer = demoRoot\<rparr>"

lemma demoFiles_ok: "lo \<le> hi \<Longrightarrow> hi \<le> 10 \<Longrightarrow> files_ok 0 lo hi (demoFiles lo hi)"
  by (auto simp: files_ok_def demoFiles_def demoRoot_def)


theorem third_block_shares_file_witness: "findFile 0 130 (demoFiles 0 2) = Inr (Some (fileName 0 1), demoFiles 0 2)"
  using third_block_shares_file [of 0 0 2 "demoFiles 0 2" 130] demoFiles_ok [of 0 2] by (simp add: demoFiles_def demoRoot_def)

theorem wrapped_files_differ_witness: "\<exists>q1. findFile 0 645 (demoFiles 10 10) = Inr (Some (fileName 0 9), q1)"
  using wrapped_files_differ [of 0 "demoFiles 10 10" 645] demoFiles_ok [of 10 10] by (auto simp: demoFiles_def demoRoot_def)

theorem queries_share_files_witness:
  "\<exists>m m1 m2. newBlockManager True [] [(True, demoRoot), (True, demoRoot)] [(False, demoRoot), (False, demoRoot)] = Inr m
     \<and> getFilePtr 0 0 0 m = Inr (Some (fileName 0 0), m1) \<and> getFilePtr 1 0 0 m1 = Inr (Some (fileName 0 0), m2)"
proof -
  obtain m where m: "newBlockManager True [] [(True, demoRoot), (True, demoRoot)] [(False, demoRoot), (False, demoRoot)] = Inr m"
    by (simp add: newBlockManager_def newQueryFiles_def Let_def)
  then show ?thesis using queries_share_files [OF m] by (auto simp: demoRoot_def)
qed

end
