(* ===== verification/PersistentBuffer.thy ===== *)
theory PersistentBuffer
  imports TaskDispatcher PartialWindows BlockManager
begin

text \<open>
  The input buffer that stores its data on disk (\<open>buffers/PersistentCircularQueryBuffer.h\<close>), for buffers
  without compression. The buffer is cut into slots of one batch. An insertion (\<open>put\<close>) creates a task; a
  worker that runs it (\<open>putRows\<close>) copies the batch into its slot and starts an asynchronous write; when the
  write completes, a callback marks the slot; \<open>tryToAcknowledge\<close> publishes the slots in order, and the
  dispatcher consumes them (\<open>tryConsumeNextSlot\<close>) and frees them later.

  The state of a slot is \<open>-1\<close> (free), \<open>0\<close> (task created), \<open>1\<close> (written), \<open>2\<close> (acknowledged) or \<open>3\<close> (consumed).
  Pending writes are part of the state; which of them a call of \<open>tryCompleteMultiple\<close> finds completed, and
  whether they succeeded, is an argument. The calls that start a write stand inside \<open>assert\<close>; the model is that of a
  build with assertions, in which a write that cannot be started ends the program. A file is named by its path and holds a list of bytes. Of the persistent memory of
  the buffer the file pointers are kept with the block manager (\<open>FileRoot\<close>).
\<close>

section \<open>State and construction\<close>

text \<open>\<open>Utils::getPowerOfTwo\<close>: the number of halvings until the value is at most one.\<close>

function halvings :: "int \<Rightarrow> int \<Rightarrow> nat" where
  "halvings v scale = (if v > scale \<and> 0 < scale then Suc (halvings v (2 * scale)) else 0)"
  by pat_completeness auto
termination
  by (relation "measure (\<lambda>(v, scale). nat (v - scale))") auto

declare halvings.simps [simp del]

definition getPowerOfTwo :: "int \<Rightarrow> int" where
  "getPowerOfTwo v = (if v \<noteq> 0 \<and> and v (v - 1) = 0 then v else 2 ^ halvings v 1)"

record BufferPMem =
  pm_endP :: int
  pm_bytesProcessed :: int
  pm_step :: int
  pm_offset :: int
  pm_blockSize :: int

record AsyncWrite =
  aw_slot :: int
  aw_file :: string
  aw_offset :: int
  aw_source :: int
  aw_length :: int
  aw_parW :: PartialWindowResults

record 'q PersistentBuffer =
  pb_base :: QueryBuffer
  pb_queryId :: int
  pb_window :: WindowDefinition
  pb_tupleSize :: int
  pb_nextFreeSlot :: int
  pb_nextPersistentSlot :: int
  pb_readerSlot :: int
  pb_root :: BufferPMem
  pb_fptrs :: "string option list"
  pb_asyncFile :: string
  pb_disk :: "string \<Rightarrow> byte list"
  pb_pending :: "AsyncWrite list"
  pb_store :: BlockManager
  pb_queue :: 'q
  pb_batches :: WindowBatchFactory
  pb_tasks :: TaskFactory
  pb_graphs :: LineageGraphFactory
  pb_results :: PartialWindowResultsFactory

abbreviation pb_slots :: "'q PersistentBuffer \<Rightarrow> Slot list" where
  "pb_slots b \<equiv> qb_slots (pb_base b)"

definition mapBase :: "(QueryBuffer \<Rightarrow> QueryBuffer) \<Rightarrow> 'q PersistentBuffer \<Rightarrow> 'q PersistentBuffer" where
  "mapBase f b = b\<lparr>pb_base := f (pb_base b)\<rparr>"

definition updateSlot :: "int \<Rightarrow> (Slot \<Rightarrow> Slot) \<Rightarrow> 'q PersistentBuffer \<Rightarrow> 'q PersistentBuffer res" where
  "updateSlot i f b =
     rbind (vget (pb_slots b) i) (\<lambda>s.
     rbind (vset (pb_slots b) i (f s)) (\<lambda>ss. Inr (mapBase (\<lambda>q. q\<lparr>qb_slots := ss\<rparr>) b)))"

text \<open>The file of the buffer is given its full size; \<open>filesystem\<close> is present from here on.\<close>

definition setupDisk :: "SystemConf \<Rightarrow> string \<Rightarrow> int \<Rightarrow> (string \<Rightarrow> byte list) \<Rightarrow> (string \<Rightarrow> byte list)" where
  "setupDisk conf name n disk =
     (if LINEAGE_ON conf then disk
      else disk(name := take (nat n) (disk name) @ replicate (nat n - length (disk name)) 0))"

text \<open>
  The persistent memory of an earlier run is opened again (\<open>old\<close>); a new one is allocated with the content
  \<open>fresh\<close>, of which the constructor sets only some members.
\<close>

definition openPMem :: "SystemConf \<Rightarrow> BufferPMem option \<Rightarrow> BufferPMem \<Rightarrow> BufferPMem" where
  "openPMem conf old fresh =
     (case old of None \<Rightarrow> fresh\<lparr>pm_endP := 0, pm_bytesProcessed := 0\<rparr> | Some r \<Rightarrow> r)\<lparr>pm_blockSize := BLOCK_SIZE conf\<rparr>"

definition newPersistentBuffer ::
  "SystemConf \<Rightarrow> int \<Rightarrow> nat \<Rightarrow> int \<Rightarrow> bool \<Rightarrow> nat \<Rightarrow> int \<Rightarrow> WindowDefinition \<Rightarrow> BufferPMem option \<Rightarrow> BufferPMem \<Rightarrow>
   (string \<Rightarrow> byte list) \<Rightarrow> BlockManager \<Rightarrow> 'q \<Rightarrow>
   WindowBatchFactory \<Rightarrow> TaskFactory \<Rightarrow> LineageGraphFactory \<Rightarrow> PartialWindowResultsFactory \<Rightarrow> 'q PersistentBuffer res" where
  "newPersistentBuffer conf i capacity tupleSize copyDataOnInsert batchSize queryId window old fresh disk store queue bf tf gf pf =
     rbind (newQueryBuffer i capacity False tupleSize copyDataOnInsert batchSize) (\<lambda>q.
       let n = qb_numberOfSlots q in
       if qb_capacity q mod qb_batchSize q \<noteq> 0 then Inl RuntimeError
       else if \<not> (n \<noteq> 0 \<and> and n (n - 1) = 0) then Inl RuntimeError
       else
         rbind (rfold (\<lambda>slotId ss. rbind (vget ss slotId) (\<lambda>s. vset ss slotId (sl_setId slotId (qb_batchSize q) None s)))
                  [0..n - 1] (qb_slots q)) (\<lambda>ss.
           let name = ''scabbard/queue_data_'' @ to_string i in
           Inr \<lparr>pb_base = q\<lparr>qb_buffer := replicate capacity 0, qb_slots := ss, qb_filesystem := True\<rparr>, pb_queryId = queryId,
             pb_window = window, pb_tupleSize = tupleSize, pb_nextFreeSlot = 0, pb_nextPersistentSlot = 0, pb_readerSlot = 0,
             pb_root = openPMem conf old fresh,
             pb_fptrs = replicate (length ss) None, pb_asyncFile = name,
             pb_disk = setupDisk conf name (n * qb_batchSize q) disk, pb_pending = [], pb_store = store, pb_queue = queue,
             pb_batches = bf, pb_tasks = tf, pb_graphs = gf, pb_results = pf\<rparr>))"

section \<open>Completion and acknowledgement of writes\<close>

text \<open>A write of the operating system: a file grows when it is written behind its end.\<close>

definition fileWrite :: "int \<Rightarrow> byte list \<Rightarrow> byte list \<Rightarrow> byte list" where
  "fileWrite off data f =
     take (nat off) (f @ replicate (nat off - length f) 0) @ data @ drop (nat off + length data) f"

text \<open>
  One completed write and its callback. A failed write is only reported; it is taken to leave the file as it was. The loop around the
  \<open>compare_exchange\<close> of the callback ends with the slot marked as written.
\<close>

definition completeWrite :: "SystemConf \<Rightarrow> nat \<times> bool \<Rightarrow> 'q PersistentBuffer \<Rightarrow> 'q PersistentBuffer res" where
  "completeWrite conf = (\<lambda>(n, ok) b.
     if \<not> n < length (pb_pending b) then Inr b
     else
       let w = pb_pending b ! n; b = b\<lparr>pb_pending := take n (pb_pending b) @ drop (Suc n) (pb_pending b)\<rparr> in
       rbind (if ok then rbind (memread (qb_buffer (pb_base b)) (aw_source w) (aw_length w)) (\<lambda>data.
                Inr (b\<lparr>pb_disk := (pb_disk b)(aw_file w := fileWrite (aw_offset w) data (pb_disk b (aw_file w)))\<rparr>))
              else Inr b) (\<lambda>b.
       rbind (updateSlot (aw_slot w) (\<lambda>s. s\<lparr>sl_slot := 1\<rparr>) b) (\<lambda>b.
       rbind (pf_free conf (pw_pid (aw_parW w)) (aw_parW w) (pb_results b)) (\<lambda>f. Inr (b\<lparr>pb_results := f\<rparr>)))))"

text \<open>At most ten completions are taken per call.\<close>

definition tryCompleteMultiple :: "SystemConf \<Rightarrow> (nat \<times> bool) list \<Rightarrow> 'q PersistentBuffer \<Rightarrow> 'q PersistentBuffer res" where
  "tryCompleteMultiple conf cs b = rfold (completeWrite conf) (take 10 cs) b"

text \<open>The number of slots that are writtenSlots but not acknowledged, which bounds the loop below.\<close>

definition writtenSlots :: "'q PersistentBuffer \<Rightarrow> nat" where
  "writtenSlots b = length (filter (\<lambda>s. sl_slot s = 1) (pb_slots b))"

definition acknowledgeSlot :: "'q PersistentBuffer \<Rightarrow> 'q PersistentBuffer res" where
  "acknowledgeSlot b =
     (let q = pb_base b; slotId = pb_nextPersistentSlot b;
          b = (if qb_numberOfSlotsToFree q = 0
               then b\<lparr>pb_root := (pb_root b)\<lparr>pm_endP := pm_endP (pb_root b) + qb_batchSize q\<rparr>\<rparr>
               else mapBase (\<lambda>q. q\<lparr>qb_numberOfSlotsToFree := qb_numberOfSlotsToFree q - 1\<rparr>) b);
          b = mapBase (\<lambda>q. q\<lparr>qb_endP := qb_endP q + qb_batchSize q\<rparr>) b in
      rbind (updateSlot slotId (\<lambda>s. s\<lparr>sl_slot := 2\<rparr>) b) (\<lambda>b.
        Inr (b\<lparr>pb_nextPersistentSlot := (if slotId + 1 = qb_numberOfSlots q then 0 else slotId + 1)\<rparr>)))"

lemma count_update:
  "i < length xs \<Longrightarrow> P (xs ! i) \<Longrightarrow> \<not> P x \<Longrightarrow> length (filter P (xs[i := x])) < length (filter P xs)"
  by (induction xs arbitrary: i) (auto split: nat.splits)

lemma acknowledgeSlot_less:
  assumes "acknowledgeSlot b = Inr b'" "vget (pb_slots b) (pb_nextPersistentSlot b) = Inr s" "sl_slot s = 1"
  shows "writtenSlots b' < writtenSlots b"
  using assms
  by (auto simp: acknowledgeSlot_def updateSlot_def mapBase_def Let_def writtenSlots_def vget_def vset_def
      split: if_splits intro!: count_update)

text \<open>
  Every round of \<open>tryToAcknowledge\<close> polls for completions; \<open>css\<close> has what each poll finds, and polls after its
  end find nothing. The calls are atomic here, so the lock is free. The exceptions that the function
  catches come from the decompression, or from the pool of a thread beyond the pools, which the
  insertion has already refused.
\<close>

lemma tryCompleteMultiple_Nil [simp]: "tryCompleteMultiple conf [] b = Inr b"
  by (simp add: tryCompleteMultiple_def)

function tryToAcknowledge :: "SystemConf \<Rightarrow> (nat \<times> bool) list list \<Rightarrow> 'q PersistentBuffer \<Rightarrow> 'q PersistentBuffer res" where
  "tryToAcknowledge conf css b =
     (case tryCompleteMultiple conf (case css of [] \<Rightarrow> [] | cs # _ \<Rightarrow> cs) b of
        Inl e \<Rightarrow> Inl e
      | Inr b \<Rightarrow>
          (case vget (pb_slots b) (pb_nextPersistentSlot b) of
             Inl e \<Rightarrow> Inl e
           | Inr s \<Rightarrow>
               if sl_slot s \<noteq> 1 then Inr b
               else (case acknowledgeSlot b of Inl e \<Rightarrow> Inl e | Inr b \<Rightarrow> tryToAcknowledge conf (drop 1 css) b)))"
  by pat_completeness auto
termination
  by (relation "measures [\<lambda>(conf, css, b). length css, \<lambda>(conf, css, b). writtenSlots b]")
    (auto intro: acknowledgeSlot_less split: list.splits)

declare tryToAcknowledge.simps [simp del]

definition progress :: "SystemConf \<Rightarrow> (nat \<times> bool) list list \<Rightarrow> 'q PersistentBuffer \<Rightarrow> 'q PersistentBuffer res" where
  "progress conf css b =
     rbind (tryCompleteMultiple conf (case css of [] \<Rightarrow> [] | cs # _ \<Rightarrow> cs) b) (tryToAcknowledge conf (drop 1 css))"

section \<open>Insertion\<close>

text \<open>
  The lineage of an insertion: the graph of the slot and the file the block manager has for it. The
  number of the buffer of the query is the parity of the identifier.
\<close>

definition insertionLineage ::
  "(LineageGraph \<times> nat) option \<Rightarrow> int \<Rightarrow> int \<Rightarrow> 'q PersistentBuffer \<Rightarrow> 'q PersistentBuffer res" where
  "insertionLineage graph slot slotId b =
     (let q = pb_base b in
      rbind (case graph of
               Some g \<Rightarrow> Inr (g, pb_graphs b)
             | None \<Rightarrow> rbind (newInstance (pb_graphs b)) (\<lambda>(g, f). Inr ((g, 0 :: nat), f))) (\<lambda>(g, f).
      rbind (vget (qb_slots q) slotId) (\<lambda>s.
      rbind (sl_setLineageGraph (Some g) f s) (\<lambda>(s, f).
      rbind (vset (qb_slots q) slotId s) (\<lambda>ss.
      rbind (getFilePtr (pb_queryId b) (if qb_id q mod 2 = 0 then 0 else 1) (slot * qb_batchSize q) (pb_store b)) (\<lambda>(p, st).
      rbind (vset (pb_fptrs b) slotId p) (\<lambda>ps.
        Inr (b\<lparr>pb_base := q\<lparr>qb_slots := ss\<rparr>, pb_graphs := f, pb_store := st, pb_fptrs := ps\<rparr>))))))))"

text \<open>
  The task is returned as well, for the statements about runs. The loop around the \<open>compare_exchange\<close> of
  the slot ends with the slot at \<open>0\<close>, whatever it was.
\<close>

definition createInsertionTask ::
  "SystemConf \<Rightarrow> 'q queue_ops \<Rightarrow> byte list \<Rightarrow> int \<Rightarrow> int \<Rightarrow> int \<Rightarrow> (LineageGraph \<times> nat) option \<Rightarrow> 'q PersistentBuffer \<Rightarrow>
   (Task \<times> 'q PersistentBuffer) res" where
  "createInsertionTask conf ops values bytes latencyMark retainMark graph b =
     (let (wb, bf) = wf_newInstance conf 0 0 (-1) (-1) (Some (pb_queryId b)) None (Some (pb_window b)) (Some (pb_tupleSize b))
            (-1) (-1) (-1) (pb_batches b) in
      rbind (tf_newInstance 0 (Some (setTaskType INSERT wb)) None INSERT (pb_tasks b)) (\<lambda>(t, tf).
      let n = qb_numberOfSlots (pb_base b); slot = qb_nextSlotToWrite (pb_base b) in
      if n = 0 then Inl Undefined
      else
        let slotId = slot mod n;
            b = mapBase (\<lambda>q. q\<lparr>qb_nextSlotToWrite := slot + 1, qb_wraps := (if slot \<ge> n then 1 else qb_wraps q)\<rparr>)
                  (b\<lparr>pb_batches := bf, pb_tasks := tf\<rparr>) in
        rbind (if LINEAGE_ON conf then insertionLineage graph slot slotId b else Inr b) (\<lambda>b.
        rbind (updateSlot slotId (\<lambda>s. s\<lparr>sl_slot := 0\<rparr>) b) (\<lambda>b.
        let t = setInsertion (Some values) bytes slot latencyMark retainMark (int (qb_wraps (pb_base b))) t in
        rbind (enqueue ops (Some t) (pb_queue b)) (\<lambda>q. Inr (t, b\<lparr>pb_queue := q\<rparr>))))))"

text \<open>
  The space check: behind the last acknowledged byte and, since that lags behind the insertions, in
  the number of free slots.
\<close>

definition pb_reserve :: "int \<Rightarrow> QueryBuffer \<Rightarrow> bool \<times> QueryBuffer" where
  "pb_reserve bytes q =
     (let hasEmptySlots = qb_emptySlots q > 0; wrapPoint = (qb_endP q + bytes - 1) - qb_capacity q in
      if qb_temp q \<le> wrapPoint \<or> \<not> hasEmptySlots
      then let q = q\<lparr>qb_temp := qb_startP q\<rparr> in (\<not> (qb_temp q \<le> wrapPoint \<or> \<not> hasEmptySlots), q)
      else (True, q))"

definition pb_put ::
  "SystemConf \<Rightarrow> 'q queue_ops \<Rightarrow> byte list option \<Rightarrow> int \<Rightarrow> int \<Rightarrow> int \<Rightarrow> (LineageGraph \<times> nat) option \<Rightarrow> (nat \<times> bool) list list \<Rightarrow>
   'q PersistentBuffer \<Rightarrow> (int \<times> Task option \<times> 'q PersistentBuffer) res" where
  "pb_put conf ops values bytes latencyMark retainMark graph css b =
     (case values of
        None \<Rightarrow> Inl InvalidArgument
      | Some vs \<Rightarrow>
          if bytes \<le> 0 then Inl InvalidArgument
          else if bytes \<noteq> qb_batchSize (pb_base b) then Inl InvalidArgument
          else case pb_reserve bytes (pb_base b) of
            (False, q) \<Rightarrow> rbind (progress conf css (b\<lparr>pb_base := q\<rparr>)) (\<lambda>b. Inr (-1, None, b))
          | (True, q) \<Rightarrow>
              rbind (createInsertionTask conf ops vs bytes latencyMark retainMark graph (b\<lparr>pb_base := q\<rparr>)) (\<lambda>(t, b).
              rbind (progress conf css (mapBase (\<lambda>q. q\<lparr>qb_emptySlots := qb_emptySlots q - 1\<rparr>) b)) (\<lambda>b.
                Inr (0, Some t, b))))"

section \<open>Running an insertion\<close>

definition updateBlockSize :: "int \<Rightarrow> BufferPMem \<Rightarrow> BufferPMem" where
  "updateBlockSize v r = (if pm_blockSize r < v then r\<lparr>pm_blockSize := v\<rparr> else r)"

text \<open>The file a slot is written to; \<open>getSectorSize\<close> is 512.\<close>

definition slotFile :: "SystemConf \<Rightarrow> int \<Rightarrow> 'q PersistentBuffer \<Rightarrow> string res" where
  "slotFile conf slotId b =
     (if \<not> LINEAGE_ON conf then Inr (pb_asyncFile b)
      else
        rbind (vget (pb_slots b) slotId) (\<lambda>s.
          if sl_graph s = None then Inl RuntimeError
          else rbind (vget (pb_fptrs b) slotId) (\<lambda>p. case p of None \<Rightarrow> Inl Undefined | Some p \<Rightarrow> Inr p)))"

text \<open>Without a retain mark nothing is copied or written, and the slot counts as written.\<close>

definition putNothing :: "SystemConf \<Rightarrow> int \<Rightarrow> (nat \<times> bool) list \<Rightarrow> 'q PersistentBuffer \<Rightarrow> 'q PersistentBuffer res" where
  "putNothing conf slotId cs b =
     rbind (vget (pb_slots b) slotId) (\<lambda>s.
       if LINEAGE_ON conf \<and> sl_graph s = None then Inl RuntimeError
       else rbind (updateSlot slotId (\<lambda>s. if sl_slot s = 0 then s\<lparr>sl_slot := 1\<rparr> else s) b) (tryCompleteMultiple conf cs))"

text \<open>The copy of the data and the start of the write. The write reads the buffer itself, not the data of the task.\<close>

definition writeSlot ::
  "SystemConf \<Rightarrow> int \<Rightarrow> byte list \<Rightarrow> int \<Rightarrow> int \<Rightarrow> int \<Rightarrow> int \<Rightarrow> 'q PersistentBuffer \<Rightarrow> 'q PersistentBuffer res" where
  "writeSlot conf pid vs bytes slotId latencyMark wraps b =
     (let index = slotId * qb_batchSize (pb_base b) in
      rbind (pf_newInstance conf pid (pb_results b)) (\<lambda>(p, f).
      rbind (if qb_copyDataOnInsert (pb_base b) \<or> wraps = 0
             then rbind (memread vs 0 bytes) (memcpy_to (qb_buffer (pb_base b)) index) else Inr (qb_buffer (pb_base b))) (\<lambda>m.
      rbind (stampLatency conf index latencyMark ((pb_base b)\<lparr>qb_buffer := m\<rparr>)) (\<lambda>q.
      rbind (updateSlot slotId (\<lambda>s. s\<lparr>sl_memcpyFinished := True\<rparr>) (b\<lparr>pb_base := q, pb_results := f\<rparr>)) (\<lambda>b.
      rbind (roundOffset (pb_base b) 512 (getPowerOfTwo (to_int32 bytes))) (\<lambda>diskBytes.
      let b = b\<lparr>pb_root := updateBlockSize diskBytes (pb_root b)\<rparr> in
      if diskBytes > qb_batchSize (pb_base b) then Inl RuntimeError
      else rbind (slotFile conf slotId b) (\<lambda>name.
        Inr (b\<lparr>pb_pending := pb_pending b @ [\<lparr>aw_slot = slotId, aw_file = name, aw_offset = index, aw_source = index,
               aw_length = diskBytes, aw_parW = p\<rparr>]\<rparr>))))))))"

definition pb_putRows ::
  "SystemConf \<Rightarrow> int \<Rightarrow> byte list option \<Rightarrow> int \<Rightarrow> int \<Rightarrow> int \<Rightarrow> int \<Rightarrow> int \<Rightarrow> (nat \<times> bool) list \<Rightarrow>
   'q PersistentBuffer \<Rightarrow> 'q PersistentBuffer res" where
  "pb_putRows conf pid values bytes slot latencyMark retainMark wraps cs b =
     (case values of
        None \<Rightarrow> Inl InvalidArgument
      | Some vs \<Rightarrow>
          if bytes \<le> 0 then Inl InvalidArgument
          else if qb_numberOfSlots (pb_base b) = 0 then Inl Undefined
          else
            let slotId = slot mod qb_numberOfSlots (pb_base b) in
            rbind (vget (pb_slots b) slotId) (\<lambda>s.
              if sl_slot s \<noteq> 0 then Inl Exit
              else if retainMark = 0 then putNothing conf slotId cs b
              else rbind (writeSlot conf pid vs bytes slotId latencyMark wraps b) (tryCompleteMultiple conf cs)))"

text \<open>
  The overloads for a staging buffer. The size is read before the pointer is checked. The buffer is returned to its
  pool only if the data is compressed, which is not modelled; here its worker keeps it.
\<close>

definition pb_putUnbounded ::
  "SystemConf \<Rightarrow> 'q queue_ops \<Rightarrow> UnboundedQueryBuffer option \<Rightarrow> int \<Rightarrow> int \<Rightarrow> (LineageGraph \<times> nat) option \<Rightarrow> (nat \<times> bool) list list \<Rightarrow>
   'q PersistentBuffer \<Rightarrow> (int \<times> Task option \<times> 'q PersistentBuffer) res" where
  "pb_putUnbounded conf ops values latencyMark retainMark graph css b =
     (case values of
        None \<Rightarrow> Inl Undefined
      | Some v \<Rightarrow> pb_put conf ops (Some (ub_buffer v)) (int (length (ub_buffer v))) latencyMark retainMark graph css b)"

definition pb_putRowsUnbounded ::
  "SystemConf \<Rightarrow> int \<Rightarrow> UnboundedQueryBuffer option \<Rightarrow> int \<Rightarrow> int \<Rightarrow> int \<Rightarrow> int \<Rightarrow> int \<Rightarrow> (nat \<times> bool) list \<Rightarrow>
   'q PersistentBuffer \<Rightarrow> 'q PersistentBuffer res" where
  "pb_putRowsUnbounded conf pid values bytes slot latencyMark retainMark wraps cs b =
     pb_putRows conf pid (map_option ub_buffer values) bytes slot latencyMark retainMark wraps cs b"

text \<open>
  The run of an insertion task by a worker (\<open>Task::run\<close>). The query must have a single operator. The batch goes back
  to its pool while the task still holds it.
\<close>

definition runInsertion :: "SystemConf \<Rightarrow> bool \<Rightarrow> int \<Rightarrow> (nat \<times> bool) list \<Rightarrow> Task \<Rightarrow> 'q PersistentBuffer \<Rightarrow> 'q PersistentBuffer res" where
  "runInsertion conf chained pid cs t b =
     (case tk_leftBatch t of
        None \<Rightarrow> Inl Undefined
      | Some wb \<Rightarrow>
          if chained then Inl RuntimeError
          else (case (tk_bytes t, tk_slot t, tk_latencyMark t, tk_retainMark t, tk_wraps t) of
              (Some bytes, Some slot, Some latencyMark, Some retainMark, Some wraps) \<Rightarrow>
                rbind (pb_putRows conf pid (tk_buffer t) bytes slot latencyMark retainMark wraps cs b) (\<lambda>b.
                rbind (wf_free (setPid pid wb) 1 (pb_batches b)) (\<lambda>bf. Inr (b\<lparr>pb_batches := bf\<rparr>)))
            | _ \<Rightarrow> Inl Undefined))"

section \<open>Consuming and freeing slots\<close>

definition isSlotReady :: "int \<Rightarrow> 'q PersistentBuffer \<Rightarrow> bool res" where
  "isSlotReady slotId b =
     (if slotId \<ge> qb_numberOfSlots (pb_base b) then Inl InvalidArgument
      else rbind (vget (pb_slots b) slotId) (\<lambda>s. Inr (sl_slot s = 2 \<and> sl_memcpyFinished s)))"

text \<open>The result is the start and the length of the consumed slot.\<close>

definition tryConsumeNextSlot ::
  "SystemConf \<Rightarrow> bool \<Rightarrow> (nat \<times> bool) list list \<Rightarrow> 'q PersistentBuffer \<Rightarrow> ((int \<times> int) option \<times> 'q PersistentBuffer) res" where
  "tryConsumeNextSlot conf recover css b =
     rbind (if recover then progress conf css b else Inr b) (\<lambda>b.
     let r = pb_readerSlot b; q = pb_base b in
     rbind (isSlotReady r b) (\<lambda>ready.
       if \<not> ready then Inr (None, b)
       else rbind (updateSlot r (\<lambda>s. s\<lparr>sl_slot := 3\<rparr>) b) (\<lambda>b.
         Inr (Some (r * qb_batchSize q, qb_batchSize q),
              b\<lparr>pb_readerSlot := (if r + 1 = qb_numberOfSlots q then 0 else r + 1)\<rparr>))))"

definition pb_free :: "SystemConf \<Rightarrow> int \<Rightarrow> bool \<Rightarrow> 'q PersistentBuffer \<Rightarrow> 'q PersistentBuffer res" where
  "pb_free conf offset isPersistent b =
     (if LINEAGE_ON conf \<and> \<not> isPersistent then Inr b
      else
        let bytes = freeBytes (pb_base b) offset; i = pb_nextFreeSlot b in
        rbind (account bytes (pb_base b)) (\<lambda>q.
        rbind (updateSlot i (\<lambda>s. s\<lparr>sl_memcpyFinished := False, sl_slot := -1\<rparr>) (b\<lparr>pb_base := q\<rparr>)) (\<lambda>b.
          Inr (mapBase (\<lambda>q. q\<lparr>qb_emptySlots := qb_emptySlots q + 1\<rparr>)
                 (b\<lparr>pb_nextFreeSlot := (if i + 1 = qb_numberOfSlots (pb_base b) then 0 else i + 1),
                    pb_root := (pb_root b)\<lparr>pm_bytesProcessed := pm_bytesProcessed (pb_root b) + bytes\<rparr>\<rparr>)))))"

section \<open>Pointers in persistent memory\<close>

definition updateStepAndOffset :: "int \<Rightarrow> int \<Rightarrow> 'q PersistentBuffer \<Rightarrow> 'q PersistentBuffer" where
  "updateStepAndOffset step offset b = b\<lparr>pb_root := (pb_root b)\<lparr>pm_step := step, pm_offset := offset\<rparr>\<rparr>"

text \<open>The offset that is read is the start pointer of the files, not the stored offset.\<close>

definition getStepAndOffset :: "'q PersistentBuffer \<Rightarrow> (int \<times> int) res" where
  "getStepAndOffset b =
     rbind (filesOf (pb_store b) (pb_queryId b) (if qb_id (pb_base b) mod 2 = 0 then 0 else 1)) (\<lambda>f.
       Inr (pm_step (pb_root b), fr_startP (qf_buffer f)))"

definition pb_incrementUnsafeStartPointer :: "int \<Rightarrow> 'q PersistentBuffer \<Rightarrow> 'q PersistentBuffer res" where
  "pb_incrementUnsafeStartPointer offset b =
     (let i = (if qb_id (pb_base b) mod 2 = 0 then 0 else 1) in
      rbind (filesOf (pb_store b) (pb_queryId b) i) (\<lambda>f.
      rbind (freePersistent (pb_queryId b) i (fr_startP (qf_buffer f) + offset) (pb_store b)) (\<lambda>st.
        Inr (b\<lparr>pb_store := st\<rparr>))))"

definition pb_getUnsafeRemainingBytes :: "'q PersistentBuffer \<Rightarrow> int res" where
  "pb_getUnsafeRemainingBytes b =
     rbind (filesOf (pb_store b) (pb_queryId b) (if qb_id (pb_base b) mod 2 = 0 then 0 else 1)) (\<lambda>f.
       Inr ((pm_endP (pb_root b) - fr_startP (qf_buffer f)) mod 2 ^ 64))"

definition getSlotId :: "int \<Rightarrow> 'q PersistentBuffer \<Rightarrow> int res" where
  "getSlotId index b =
     (if qb_batchSize (pb_base b) = 0 then Inl Undefined else Inr (index div qb_batchSize (pb_base b)))"

end
