(* ===== verification/PersistentStream.thy ===== *)
theory PersistentStream
  imports PersistentBuffer
begin

text \<open>
  Runs of the persistent input buffer. A run interleaves insertions, the tasks they create, the completions of
  the asynchronous writes, the consumption of slots by the dispatcher and the release of consumed slots.
  Workers run the waiting tasks in any order, writes complete in any order, and a completed write may have failed.
  The main result is that the dispatcher gets the accepted batches unchanged and in order, although they are
  copied and written out of order, and that a batch is in the file before it is consumed unless a write failed.
\<close>

section \<open>Steps\<close>

text \<open>
  Beside the buffer a run keeps the tasks that wait for a worker, the accepted batches, the consumed
  batches, the number of released slots and whether a write has failed. The insertions of a run have a
  retain mark: one without it is accepted, but its slot never becomes ready and blocks the stream
  (\<open>unretained_never_consumed\<close>).
\<close>

record 'q StreamRun =
  sr_buffer :: "'q PersistentBuffer"
  sr_waiting :: "Task list"
  sr_log :: "byte list list"
  sr_consumed :: "byte list list"
  sr_freed :: nat
  sr_failed :: bool

definition anyFailed :: "(nat \<times> bool) list \<Rightarrow> bool" where
  "anyFailed cs = list_ex (\<lambda>c. \<not> snd c) cs"

inductive streamStep :: "SystemConf \<Rightarrow> 'q queue_ops \<Rightarrow> 'q StreamRun \<Rightarrow> 'q StreamRun \<Rightarrow> bool" for conf ops where
  accept: "retainMark \<noteq> 0 \<Longrightarrow>
    pb_put conf ops (Some vs) (int (length vs)) latencyMark retainMark graph css (sr_buffer r) = Inr (0, Some t, b) \<Longrightarrow>
    streamStep conf ops r (r\<lparr>sr_buffer := b, sr_waiting := sr_waiting r @ [t], sr_log := sr_log r @ [vs],
      sr_failed := sr_failed r \<or> anyFailed (concat css)\<rparr>)"
| refuse: "pb_put conf ops (Some vs) bytes latencyMark retainMark graph css (sr_buffer r) = Inr (-1, None, b) \<Longrightarrow>
    streamStep conf ops r (r\<lparr>sr_buffer := b, sr_failed := sr_failed r \<or> anyFailed (concat css)\<rparr>)"
| insert: "sr_waiting r = ws @ t # us \<Longrightarrow> runInsertion conf chained pid cs t (sr_buffer r) = Inr b \<Longrightarrow>
    streamStep conf ops r (r\<lparr>sr_buffer := b, sr_waiting := ws @ us, sr_failed := sr_failed r \<or> anyFailed cs\<rparr>)"
| consume: "tryConsumeNextSlot conf recover css (sr_buffer r) = Inr (Some (i, n), b) \<Longrightarrow>
    memread (qb_buffer (pb_base b)) i n = Inr batch \<Longrightarrow>
    streamStep conf ops r (r\<lparr>sr_buffer := b, sr_consumed := sr_consumed r @ [batch],
      sr_failed := sr_failed r \<or> anyFailed (concat css)\<rparr>)"
| idle: "tryConsumeNextSlot conf recover css (sr_buffer r) = Inr (None, b) \<Longrightarrow>
    streamStep conf ops r (r\<lparr>sr_buffer := b, sr_failed := sr_failed r \<or> anyFailed (concat css)\<rparr>)"
| release: "sr_freed r < length (sr_consumed r) \<Longrightarrow> pb_free conf offset isPersistent (sr_buffer r) = Inr b \<Longrightarrow>
    streamStep conf ops r (r\<lparr>sr_buffer := b, sr_freed := Suc (sr_freed r)\<rparr>)"

inductive streamRun :: "SystemConf \<Rightarrow> 'q queue_ops \<Rightarrow> 'q PersistentBuffer \<Rightarrow> 'q StreamRun \<Rightarrow> bool" for conf ops b where
  start: "streamRun conf ops b \<lparr>sr_buffer = b, sr_waiting = [], sr_log = [], sr_consumed = [], sr_freed = 0, sr_failed = False\<rparr>"
| step: "streamRun conf ops b r \<Longrightarrow> streamStep conf ops r r' \<Longrightarrow> streamRun conf ops b r'"

section \<open>Segments\<close>

definition seg :: "nat \<Rightarrow> nat \<Rightarrow> 'a list \<Rightarrow> nat \<Rightarrow> 'a list" where
  "seg N B m k = take B (drop ((k mod N) * B) m)"

lemma seg_room:
  fixes N B k :: nat
  assumes "0 < N"
  shows "(k mod N) * B + B \<le> N * B"
proof -
  have "Suc (k mod N) * B \<le> N * B" using assms by (intro mult_right_mono) (auto simp: Suc_le_eq)
  then show ?thesis by simp
qed

lemma seg_nth:
  "0 < N \<Longrightarrow> length m = N * B \<Longrightarrow> i < B \<Longrightarrow> seg N B m k ! i = m ! ((k mod N) * B + i)"
  using seg_room [of N k B] by (simp add: seg_def)

lemma length_seg [simp]: "0 < N \<Longrightarrow> length m = N * B \<Longrightarrow> length (seg N B m k) = B"
  using seg_room [of N k B] by (simp add: seg_def)

lemma segments_apart:
  fixes B :: nat
  assumes "i < B" "a \<noteq> c"
  shows "\<not> (a * B \<le> c * B + i \<and> c * B + i < a * B + B)"
proof
  assume "a * B \<le> c * B + i \<and> c * B + i < a * B + B"
  then have "(c * B + i) div B = a" by (intro div_nat_eqI) (auto simp: ac_simps)
  moreover have "(c * B + i) div B = c" using assms by (intro div_nat_eqI) (auto simp: ac_simps)
  ultimately show False using assms by simp
qed

lemma seg_write:
  assumes "0 < N" "length m = N * B" "length v = B"
  shows "seg N B (write_at ((k mod N) * B) v m) l = (if l mod N = k mod N then v else seg N B m l)"
proof (rule nth_equalityI)
  have len: "length (write_at ((k mod N) * B) v m) = N * B" using assms seg_room [of N k B] by simp
  then show "length (seg N B (write_at ((k mod N) * B) v m) l) = length (if l mod N = k mod N then v else seg N B m l)"
    using assms by simp
  fix i
  assume "i < length (seg N B (write_at ((k mod N) * B) v m) l)"
  then have i: "i < B" using assms len by simp
  show "seg N B (write_at ((k mod N) * B) v m) l ! i = (if l mod N = k mod N then v else seg N B m l) ! i"
    using assms i len seg_room [of N k B] seg_room [of N l B] segments_apart [OF i, of "k mod N" "l mod N"]
    by (auto simp: seg_nth nth_write_at)
qed

lemma fileWrite_within:
  "nat off + length d \<le> length f \<Longrightarrow> fileWrite off d f = write_at (nat off) d f"
  by (simp add: fileWrite_def write_at_def)

lemma near_mod_eq:
  fixes k l F N :: nat
  assumes "F \<le> k" "k < F + N" "F \<le> l" "l < F + N" "k mod N = l mod N"
  shows "k = l"
proof -
  have aux: "a = c" if "a \<le> c" "F \<le> a" "c < F + N" "a mod N = c mod N" for a c :: nat
  proof -
    have "N dvd c - a" using that(1,4) by (metis mod_eq_dvd_iff_nat)
    then show ?thesis using that(1,2,3) by (auto dest!: dvd_imp_le)
  qed
  show ?thesis using aux [of k l] aux [of l k] assms by (cases "k \<le> l") auto
qed

section \<open>The invariant\<close>

text \<open>
  The shape of the buffer: a power of two of bytes per slot, of at least 8 KB since every write is rounded up to
  that, and a file of the size of the buffer.
\<close>

definition geometry :: "nat \<Rightarrow> nat \<Rightarrow> 'q PersistentBuffer \<Rightarrow> bool" where
  "geometry N B b \<longleftrightarrow>
     0 < N \<and> (\<exists>j. 13 \<le> j \<and> j \<le> 30 \<and> B = 2 ^ j) \<and> qb_numberOfSlots (pb_base b) = int N \<and> qb_batchSize (pb_base b) = int B \<and>
     qb_copyDataOnInsert (pb_base b) \<and> qb_filesystem (pb_base b) \<and> qb_numberOfSlotsToFree (pb_base b) = 0 \<and>
     N \<le> length (pb_slots b) \<and> length (qb_buffer (pb_base b)) = N * B \<and> length (pb_disk b (pb_asyncFile b)) = N * B"

definition waits :: "Task list \<Rightarrow> nat \<Rightarrow> bool" where
  "waits ws k \<longleftrightarrow> Some (int k) \<in> tk_slot ` set ws"

definition pends :: "nat \<Rightarrow> AsyncWrite list \<Rightarrow> nat \<Rightarrow> bool" where
  "pends N ps k \<longleftrightarrow> int (k mod N) \<in> aw_slot ` set ps"

definition taskFor :: "nat \<Rightarrow> byte list list \<Rightarrow> nat \<Rightarrow> Task \<Rightarrow> bool" where
  "taskFor B log k t \<longleftrightarrow>
     tk_slot t = Some (int k) \<and> tk_buffer t = Some (log ! k) \<and> tk_bytes t = Some (int B) \<and>
     (\<exists>m. tk_retainMark t = Some m \<and> m \<noteq> 0)"

definition writeFor :: "nat \<Rightarrow> nat \<Rightarrow> string \<Rightarrow> nat \<Rightarrow> AsyncWrite \<Rightarrow> bool" where
  "writeFor N B name k w \<longleftrightarrow>
     aw_slot w = int (k mod N) \<and> aw_offset w = int ((k mod N) * B) \<and> aw_source w = int ((k mod N) * B) \<and>
     aw_length w = int B \<and> aw_file w = name"

text \<open>
  The life of an accepted batch: its task waits; its write is under way, and it is in memory; or it is
  written, and in the file unless a write failed.
\<close>

definition life :: "bool \<Rightarrow> bool \<Rightarrow> bool \<Rightarrow> byte list \<Rightarrow> byte list \<Rightarrow> byte list \<Rightarrow> Slot \<Rightarrow> bool" where
  "life failed waiting writing m d v s \<longleftrightarrow>
     (if waiting then sl_slot s = 0 \<and> \<not> writing
      else m = v \<and> sl_memcpyFinished s \<and>
        (if writing then sl_slot s = 0 else sl_slot s \<in> {1, 2, 3} \<and> (failed \<or> d = v)))"

text \<open>The state of a slot by the number of its batch: consumed, acknowledged, or neither.\<close>

definition phase :: "nat \<Rightarrow> nat \<Rightarrow> nat \<Rightarrow> Slot \<Rightarrow> bool" where
  "phase R P k s \<longleftrightarrow>
     (if k < R then sl_slot s = 3 else if k < P then sl_slot s = 2 else sl_slot s = 0 \<or> sl_slot s = 1)"

definition counters :: "nat \<Rightarrow> nat \<Rightarrow> nat \<Rightarrow> nat \<Rightarrow> nat \<Rightarrow> 'q PersistentBuffer \<Rightarrow> bool" where
  "counters N F R P W b \<longleftrightarrow>
     F \<le> R \<and> R \<le> P \<and> P \<le> W \<and> W \<le> F + N \<and> pb_nextFreeSlot b = int (F mod N) \<and> pb_readerSlot b = int (R mod N) \<and>
     pb_nextPersistentSlot b = int (P mod N) \<and> qb_nextSlotToWrite (pb_base b) = int W \<and>
     qb_emptySlots (pb_base b) = int (F + N) - int W"

definition streamInv ::
  "nat \<Rightarrow> nat \<Rightarrow> nat \<Rightarrow> nat \<Rightarrow> nat \<Rightarrow> Task list \<Rightarrow> byte list list \<Rightarrow> bool \<Rightarrow> 'q PersistentBuffer \<Rightarrow> bool" where
  "streamInv N B F R P ws log failed b \<longleftrightarrow>
     geometry N B b \<and> counters N F R P (length log) b \<and> (\<forall>v \<in> set log. length v = B) \<and>
     distinct (map tk_slot ws) \<and> (\<forall>t \<in> set ws. \<exists>k. P \<le> k \<and> k < length log \<and> taskFor B log k t) \<and>
     distinct (map aw_slot (pb_pending b)) \<and>
     (\<forall>w \<in> set (pb_pending b). \<exists>k. P \<le> k \<and> k < length log \<and> writeFor N B (pb_asyncFile b) k w) \<and>
     (\<forall>k. F \<le> k \<longrightarrow> k < length log \<longrightarrow>
        phase R P k (pb_slots b ! (k mod N)) \<and>
        life failed (waits ws k) (pends N (pb_pending b) k) (seg N B (qb_buffer (pb_base b)) k)
          (seg N B (pb_disk b (pb_asyncFile b)) k) (log ! k) (pb_slots b ! (k mod N))) \<and>
     (\<forall>k. length log \<le> k \<longrightarrow> k < F + N \<longrightarrow> sl_slot (pb_slots b ! (k mod N)) = -1)"

lemma life_failed: "life f w p m d v s \<Longrightarrow> life (f \<or> g) w p m d v s"
  by (auto simp: life_def split: if_splits)

lemma updateSlot_Inr:
  "updateSlot i f b = Inr b' \<longleftrightarrow> 0 \<le> i \<and> i < int (length (pb_slots b)) \<and>
     b' = mapBase (\<lambda>q. q\<lparr>qb_slots := (pb_slots b)[nat i := f (pb_slots b ! nat i)]\<rparr>) b"
  by (auto simp: updateSlot_def res_simps mem_simps)

lemma nth_slot_update:
  "0 < N \<Longrightarrow> N \<le> length ss \<Longrightarrow> ss[k mod N := s] ! (l mod N) = (if l mod N = k mod N then s else ss ! (l mod N))"
  using less_le_trans [OF mod_less_divisor [of N k], of "length ss"] by simp

text \<open>A step that touches one batch \<open>k\<close> and leaves the others as they are.\<close>

lemma streamInv_one:
  assumes inv: "streamInv N B F R P ws log failed b" and k: "F \<le> k" "k < length log"
    and b': "geometry N B b'" "counters N F' R' P' (length log) b'" "pb_asyncFile b' = pb_asyncFile b"
    and slots: "pb_slots b' = (pb_slots b)[k mod N := s']"
    and same: "\<And>l. l mod N \<noteq> k mod N \<Longrightarrow> seg N B (qb_buffer (pb_base b')) l = seg N B (qb_buffer (pb_base b)) l \<and>
      seg N B (pb_disk b' (pb_asyncFile b)) l = seg N B (pb_disk b (pb_asyncFile b)) l \<and>
      waits ws' l = waits ws l \<and> pends N (pb_pending b') l = pends N (pb_pending b) l"
    and ws: "distinct (map tk_slot ws')" "\<forall>t \<in> set ws'. \<exists>l. P' \<le> l \<and> l < length log \<and> taskFor B log l t"
    and ps: "distinct (map aw_slot (pb_pending b'))"
      "\<forall>w \<in> set (pb_pending b'). \<exists>l. P' \<le> l \<and> l < length log \<and> writeFor N B (pb_asyncFile b) l w"
    and F': "F' = F \<or> F' = Suc F \<and> k = F \<and> sl_slot s' = -1"
    and phases: "\<And>l s. l \<noteq> k \<Longrightarrow> phase R P l s \<Longrightarrow> phase R' P' l s"
    and new: "F' \<le> k \<Longrightarrow> phase R' P' k s' \<and> life (failed \<or> g) (waits ws' k) (pends N (pb_pending b') k)
      (seg N B (qb_buffer (pb_base b')) k) (seg N B (pb_disk b' (pb_asyncFile b)) k) (log ! k) s'"
  shows "streamInv N B F' R' P' ws' log (failed \<or> g) b'"
proof -
  have N: "0 < N" "N \<le> length (pb_slots b)" and cnt: "counters N F R P (length log) b"
    using inv by (auto simp: streamInv_def geometry_def)
  have slot: "pb_slots b' ! (l mod N) = (if l mod N = k mod N then s' else pb_slots b ! (l mod N))" for l
    using N slots by (simp add: nth_slot_update)
  have W: "length log \<le> F + N" using cnt by (simp add: counters_def)
  have other: "l mod N \<noteq> k mod N" if "F \<le> l" "l < F + N" "l \<noteq> k" for l
    using near_mod_eq [of F l N k] that k W by auto
  have lives: "phase R' P' l (pb_slots b' ! (l mod N)) \<and> life (failed \<or> g) (waits ws' l) (pends N (pb_pending b') l)
      (seg N B (qb_buffer (pb_base b')) l) (seg N B (pb_disk b' (pb_asyncFile b)) l) (log ! l) (pb_slots b' ! (l mod N))"
    if l: "F' \<le> l" "l < length log" for l
  proof (cases "l = k")
    case True
    then show ?thesis using new l by (simp add: slot)
  next
    case False
    then have ne: "l mod N \<noteq> k mod N" using l W F' by (intro other) auto
    have "F \<le> l" using l F' by auto
    then have "phase R P l (pb_slots b ! (l mod N))"
      and "life failed (waits ws l) (pends N (pb_pending b) l) (seg N B (qb_buffer (pb_base b)) l)
        (seg N B (pb_disk b (pb_asyncFile b)) l) (log ! l) (pb_slots b ! (l mod N))"
      using inv l by (simp_all add: streamInv_def)
    then show ?thesis using ne by (simp add: slot same [OF ne] phases [OF False] life_failed)
  qed
  have "sl_slot (pb_slots b' ! (l mod N)) = -1" if l: "length log \<le> l" "l < F' + N" for l
  proof (cases "l < F + N")
    case True
    then have "l mod N \<noteq> k mod N" using l k by (intro other) auto
    then show ?thesis using inv l True by (simp add: slot streamInv_def)
  next
    case False
    then have "l = k + N" "sl_slot s' = -1" using l F' by auto
    then show ?thesis by (simp add: slot)
  qed
  then show ?thesis
    using inv b' lives ws ps by (simp add: streamInv_def)
qed

section \<open>Completions\<close>

lemma delete_nth_distinct:
  assumes "distinct (map f xs)" "n < length xs"
  shows "f ` set (take n xs @ drop (Suc n) xs) = f ` set xs - {f (xs ! n)}" "distinct (map f (take n xs @ drop (Suc n) xs))"
proof -
  have xs: "xs = take n xs @ xs ! n # drop (Suc n) xs" using assms(2) by (simp add: id_take_nth_drop)
  obtain ys y zs where e: "take n xs = ys" "xs ! n = y" "drop (Suc n) xs = zs" by blast
  have "distinct (map f (ys @ y # zs))" using assms(1) xs e by metis
  then show "f ` set (take n xs @ drop (Suc n) xs) = f ` set xs - {f (xs ! n)}"
    "distinct (map f (take n xs @ drop (Suc n) xs))"
    using xs e by (auto simp: image_Un)
qed

lemma completeWrite_eq:
  assumes c: "completeWrite conf (n, ok) b = Inr b'" and n: "n < length (pb_pending b)"
    and w: "writeFor N B name k (pb_pending b ! n)" and N: "0 < N" "length (qb_buffer (pb_base b)) = N * B"
    and d: "length (pb_disk b name) = N * B"
  shows "\<exists>f disk. b' = mapBase (\<lambda>q. q\<lparr>qb_slots := (pb_slots b)[k mod N := (pb_slots b ! (k mod N))\<lparr>sl_slot := 1\<rparr>]\<rparr>)
      (b\<lparr>pb_pending := take n (pb_pending b) @ drop (Suc n) (pb_pending b), pb_disk := disk, pb_results := f\<rparr>) \<and>
    disk name = (if ok then write_at ((k mod N) * B) (seg N B (qb_buffer (pb_base b)) k) (pb_disk b name) else pb_disk b name)"
proof -
  define b0 where "b0 = b\<lparr>pb_pending := take n (pb_pending b) @ drop (Suc n) (pb_pending b)\<rparr>"
  define disk where "disk = (if ok then (pb_disk b)(name := write_at ((k mod N) * B) (seg N B (qb_buffer (pb_base b)) k) (pb_disk b name))
    else pb_disk b)"
  have room: "int ((k mod N) * B) + int B \<le> int (N * B)" using seg_room [OF N(1), of k B] by linarith
  have rd: "memread (qb_buffer (pb_base b)) (int ((k mod N) * B)) (int B) = Inr (seg N B (qb_buffer (pb_base b)) k)"
    using room N by (simp add: memread_def seg_def del: of_nat_mult)
  have wr: "fileWrite (int ((k mod N) * B)) (seg N B (qb_buffer (pb_base b)) k) (pb_disk b name) =
      write_at ((k mod N) * B) (seg N B (qb_buffer (pb_base b)) k) (pb_disk b name)"
    using seg_room [OF N(1), of k B] N d by (subst fileWrite_within) (simp_all del: of_nat_mult)
  obtain b2 f where b2: "updateSlot (int (k mod N)) (\<lambda>s. s\<lparr>sl_slot := 1\<rparr>) (b0\<lparr>pb_disk := disk\<rparr>) = Inr b2"
    and b': "b' = b2\<lparr>pb_results := f\<rparr>"
    using c n w rd wr
    by (cases ok) (auto simp: completeWrite_def Let_def writeFor_def b0_def disk_def simp del: of_nat_mult)
  show ?thesis
    by (intro exI [of _ f] exI [of _ disk])
      (use b2 b' in \<open>auto simp: updateSlot_Inr mapBase_def b0_def disk_def\<close>)
qed

lemma completeWrite_inv:
  assumes inv: "streamInv N B F R P ws log failed b" and c: "completeWrite conf (n, ok) b = Inr b'"
  shows "streamInv N B F R P ws log (failed \<or> \<not> ok) b'"
proof (cases "n < length (pb_pending b)")
  case False
  then show ?thesis using c inv by (auto simp: completeWrite_def streamInv_def intro: life_failed)
next
  case True
  let ?w = "pb_pending b ! n" and ?name = "pb_asyncFile b" and ?m = "qb_buffer (pb_base b)"
  have geo: "geometry N B b" and cnt: "counters N F R P (length log) b" using inv by (auto simp: streamInv_def)
  then have N: "0 < N" "N \<le> length (pb_slots b)" "length ?m = N * B" "length (pb_disk b ?name) = N * B"
    by (auto simp: geometry_def)
  have "?w \<in> set (pb_pending b)" using True by simp
  then obtain k where k: "P \<le> k" "k < length log" and w: "writeFor N B ?name k ?w"
    using inv by (auto simp: streamInv_def)
  have Fk: "F \<le> k" "k < F + N" using k cnt by (auto simp: counters_def)
  have pk: "pends N (pb_pending b) k" using w \<open>?w \<in> set (pb_pending b)\<close> by (force simp: pends_def writeFor_def)
  then have lk: "\<not> waits ws k" "seg N B ?m k = log ! k" "sl_slot (pb_slots b ! (k mod N)) = 0"
    "sl_memcpyFinished (pb_slots b ! (k mod N))" "phase R P k (pb_slots b ! (k mod N))"
    using inv Fk k by (auto simp: streamInv_def life_def split: if_splits)
  define ps where "ps = take n (pb_pending b) @ drop (Suc n) (pb_pending b)"
  define disk where "disk = (if ok then write_at ((k mod N) * B) (seg N B ?m k) (pb_disk b ?name) else pb_disk b ?name)"
  have d: "distinct (map aw_slot (pb_pending b))" using inv by (simp add: streamInv_def)
  note ps = delete_nth_distinct [OF d True, folded ps_def]
  have pends: "pends N ps l \<longleftrightarrow> pends N (pb_pending b) l \<and> l mod N \<noteq> k mod N" for l
    using ps(1) w by (auto simp: pends_def writeFor_def)
  have dl: "length disk = N * B" using N seg_room [of N k B] by (simp add: disk_def)
  have sd: "seg N B disk l = (if ok \<and> l mod N = k mod N then seg N B ?m k else seg N B (pb_disk b ?name) l)" for l
    using seg_write [OF N(1,4), of "seg N B ?m k" k l] N by (simp add: disk_def)
  from completeWrite_eq [OF c True w N(1,3,4)] obtain f disk' where
    eq: "b' = mapBase (\<lambda>q. q\<lparr>qb_slots := (pb_slots b)[k mod N := (pb_slots b ! (k mod N))\<lparr>sl_slot := 1\<rparr>]\<rparr>)
      (b\<lparr>pb_pending := ps, pb_disk := disk', pb_results := f\<rparr>)" and "disk' ?name = disk"
    by (auto simp: ps_def disk_def)
  then have b': "geometry N B b'" "counters N F R P (length log) b'" "pb_pending b' = ps" "pb_asyncFile b' = ?name"
    "qb_buffer (pb_base b') = ?m" "pb_disk b' ?name = disk"
    "pb_slots b' = (pb_slots b)[k mod N := (pb_slots b ! (k mod N))\<lparr>sl_slot := 1\<rparr>]"
    using geo cnt dl by (simp_all add: mapBase_def geometry_def counters_def)
  show ?thesis
  proof (rule streamInv_one [OF inv Fk(1) k(2) b'(1,2,4,7)])
    show "\<forall>w \<in> set (pb_pending b'). \<exists>l. P \<le> l \<and> l < length log \<and> writeFor N B ?name l w"
      using inv by (auto simp: b' ps_def streamInv_def dest: in_set_takeD in_set_dropD)
  qed (use inv lk in \<open>auto simp: b' sd pends ps(2) phase_def life_def streamInv_def split: if_splits\<close>)
qed

lemma anyFailed_simps [simp]:
  "anyFailed [] = False" "anyFailed ((n, ok) # cs) = (\<not> ok \<or> anyFailed cs)" "anyFailed (cs @ ds) = (anyFailed cs \<or> anyFailed ds)"
  by (simp_all add: anyFailed_def)

lemma streamInv_failed: "streamInv N B F R P ws log f b \<Longrightarrow> streamInv N B F R P ws log (f \<or> g) b"
  by (simp add: streamInv_def life_failed)

lemma completions_inv:
  "streamInv N B F R P ws log failed b \<Longrightarrow> rfold (completeWrite conf) cs b = Inr b' \<Longrightarrow>
   streamInv N B F R P ws log (failed \<or> anyFailed cs) b'"
proof (induction cs arbitrary: b failed)
  case (Cons c cs)
  obtain n ok where c: "c = (n, ok)" by (cases c)
  obtain b1 where b1: "completeWrite conf (n, ok) b = Inr b1" "rfold (completeWrite conf) cs b1 = Inr b'"
    using Cons.prems(2) c by auto
  show ?case using Cons.IH [OF completeWrite_inv [OF Cons.prems(1) b1(1)] b1(2)] c by (simp add: disj_assoc)
qed simp

lemma tryCompleteMultiple_inv:
  assumes "streamInv N B F R P ws log failed b" "tryCompleteMultiple conf cs b = Inr b'"
  shows "streamInv N B F R P ws log (failed \<or> anyFailed cs) b'"
proof -
  have "streamInv N B F R P ws log ((failed \<or> anyFailed (take 10 cs)) \<or> anyFailed (drop 10 cs)) b'"
    using assms by (intro streamInv_failed completions_inv) (auto simp: tryCompleteMultiple_def)
  moreover have "anyFailed cs \<longleftrightarrow> anyFailed (take 10 cs) \<or> anyFailed (drop 10 cs)"
    using anyFailed_simps(3) [of "take 10 cs" "drop 10 cs"] by simp
  ultimately show ?thesis by (simp add: disj_assoc)
qed

section \<open>Acknowledgement\<close>

lemma int_mod_Suc: "0 < N \<Longrightarrow> (if int (k mod N) + 1 = int N then 0 else int (k mod N) + 1) = int (Suc k mod N)"
  by (auto simp: mod_Suc)

text \<open>Only a slot behind the last acknowledged batch can be written but not acknowledged.\<close>

lemma written_is_next:
  assumes inv: "streamInv N B F R P ws log failed b" and s: "sl_slot (pb_slots b ! (P mod N)) = 1"
  shows "P < length log"
proof (rule ccontr)
  assume "\<not> P < length log"
  then have P: "P = length log" and R: "R \<le> P" "F \<le> R" "P \<le> F + N" and N: "0 < N"
    using inv by (auto simp: streamInv_def counters_def geometry_def)
  show False
  proof (cases "P < F + N")
    case True
    then show False using inv s P by (auto simp: streamInv_def)
  next
    case False
    then have "F mod N = P mod N" "F < P" using R N by (auto simp: mod_add_self2)
    then have "phase R P F (pb_slots b ! (P mod N))" using inv P by (auto simp: streamInv_def)
    then show False using s \<open>F < P\<close> by (auto simp: phase_def split: if_splits)
  qed
qed

lemma acknowledgeSlot_inv:
  assumes inv: "streamInv N B F R P ws log failed b" and s: "sl_slot (pb_slots b ! (P mod N)) = 1"
    and a: "acknowledgeSlot b = Inr b'"
  shows "streamInv N B F R (Suc P) ws log failed b'"
proof -
  have P: "P < length log" by (rule written_is_next [OF inv s])
  have geo: "geometry N B b" and cnt: "counters N F R P (length log) b" using inv by (auto simp: streamInv_def)
  then have "F \<le> P" "0 < N" by (auto simp: counters_def geometry_def)
  have life: "life failed (waits ws P) (pends N (pb_pending b) P) (seg N B (qb_buffer (pb_base b)) P)
      (seg N B (pb_disk b (pb_asyncFile b)) P) (log ! P) (pb_slots b ! (P mod N))"
    using inv P \<open>F \<le> P\<close> by (auto simp: streamInv_def)
  have eq: "b' = (mapBase (\<lambda>q. q\<lparr>qb_endP := qb_endP q + int B, qb_slots := (pb_slots b)[P mod N := (pb_slots b ! (P mod N))\<lparr>sl_slot := 2\<rparr>]\<rparr>)
      (b\<lparr>pb_root := (pb_root b)\<lparr>pm_endP := pm_endP (pb_root b) + int B\<rparr>, pb_nextPersistentSlot := int (Suc P mod N)\<rparr>))"
    using a geo cnt int_mod_Suc [OF \<open>0 < N\<close>, of P]
    by (auto simp: acknowledgeSlot_def Let_def updateSlot_Inr mapBase_def geometry_def counters_def)
  have b': "geometry N B b'" "counters N F R (Suc P) (length log) b'" "pb_asyncFile b' = pb_asyncFile b"
    "pb_slots b' = (pb_slots b)[P mod N := (pb_slots b ! (P mod N))\<lparr>sl_slot := 2\<rparr>]" "pb_pending b' = pb_pending b"
    "qb_buffer (pb_base b') = qb_buffer (pb_base b)" "pb_disk b' = pb_disk b"
    using geo cnt P by (simp_all add: eq mapBase_def geometry_def counters_def)
  have late: "Suc P \<le> l" if "P \<le> l" "l \<noteq> P" for l using that by simp
  have nw: "\<not> waits ws P" "\<not> pends N (pb_pending b) P" using life s by (auto simp: life_def split: if_splits)
  have "streamInv N B F R (Suc P) ws log (failed \<or> False) b'"
  proof (rule streamInv_one [OF inv \<open>F \<le> P\<close> P b'(1-4)])
    show "\<forall>t \<in> set ws. \<exists>l. Suc P \<le> l \<and> l < length log \<and> taskFor B log l t"
    proof
      fix t
      assume t: "t \<in> set ws"
      then obtain l where l: "P \<le> l" "l < length log" "taskFor B log l t" using inv by (auto simp: streamInv_def)
      then have "waits ws l" using t by (force simp: waits_def taskFor_def)
      then have "l \<noteq> P" using nw by auto
      then show "\<exists>l. Suc P \<le> l \<and> l < length log \<and> taskFor B log l t" using l late [of l] by blast
    qed
    show "\<forall>w \<in> set (pb_pending b'). \<exists>l. Suc P \<le> l \<and> l < length log \<and> writeFor N B (pb_asyncFile b) l w"
    proof
      fix w
      assume w: "w \<in> set (pb_pending b')"
      then obtain l where l: "P \<le> l" "l < length log" "writeFor N B (pb_asyncFile b) l w"
        using inv b' by (auto simp: streamInv_def)
      then have "pends N (pb_pending b) l" using w b' by (force simp: pends_def writeFor_def)
      then have "l \<noteq> P" using nw by auto
      then show "\<exists>l. Suc P \<le> l \<and> l < length log \<and> writeFor N B (pb_asyncFile b) l w"
        using l late [of l] by blast
    qed
    show "phase R (Suc P) l s" if "l \<noteq> P" "phase R P l s" for l s
      using that cnt by (auto simp: phase_def counters_def split: if_splits)
  qed (use inv life nw cnt in \<open>auto simp: b' phase_def life_def streamInv_def counters_def split: if_splits\<close>)
  then show ?thesis by simp
qed

lemma tryToAcknowledge_inv:
  "streamInv N B F R P ws log failed b \<Longrightarrow> tryToAcknowledge conf css b = Inr b' \<Longrightarrow>
   \<exists>P'\<ge>P. streamInv N B F R P' ws log (failed \<or> anyFailed (concat css)) b'"
proof (induction conf css b arbitrary: P failed rule: tryToAcknowledge.induct)
  case (1 conf css b)
  let ?cs = "case css of [] \<Rightarrow> [] | cs # _ \<Rightarrow> cs"
  obtain b1 where b1: "tryCompleteMultiple conf ?cs b = Inr b1"
    using "1.prems"(2) by (cases "tryCompleteMultiple conf ?cs b") (auto simp: tryToAcknowledge.simps [of conf css b])
  have css: "anyFailed (concat css) \<longleftrightarrow> anyFailed ?cs \<or> anyFailed (concat (drop 1 css))" by (cases css) auto
  have inv: "streamInv N B F R P ws log (failed \<or> anyFailed ?cs) b1" by (rule tryCompleteMultiple_inv [OF "1.prems"(1) b1])
  then have N: "0 < N" "pb_nextPersistentSlot b1 = int (P mod N)" "N \<le> length (pb_slots b1)"
    by (auto simp: streamInv_def geometry_def counters_def)
  then have "P mod N < length (pb_slots b1)" by (meson less_le_trans mod_less_divisor)
  then have get: "vget (pb_slots b1) (pb_nextPersistentSlot b1) = Inr (pb_slots b1 ! (P mod N))"
    using N by (simp add: vget_def)
  show ?case
  proof (cases "sl_slot (pb_slots b1 ! (P mod N)) = 1")
    case False
    then have "b' = b1" using "1.prems"(2) b1 get by (simp add: tryToAcknowledge.simps [of conf css b])
    then show ?thesis using streamInv_failed [OF inv, of "anyFailed (concat (drop 1 css))"] css by (auto simp: disj_assoc)
  next
    case True
    then obtain b2 where b2: "acknowledgeSlot b1 = Inr b2" "tryToAcknowledge conf (drop 1 css) b2 = Inr b'"
      using "1.prems"(2) b1 get
      by (cases "acknowledgeSlot b1") (auto simp: tryToAcknowledge.simps [of conf css b])
    obtain P' where "P' \<ge> Suc P" "streamInv N B F R P' ws log ((failed \<or> anyFailed ?cs) \<or> anyFailed (concat (drop 1 css))) b'"
      using "1.IH" [OF b1 get _ b2(1) acknowledgeSlot_inv [OF inv True b2(1)] b2(2)] True by auto
    then show ?thesis using css by (intro exI [of _ P']) (auto simp: disj_assoc)
  qed
qed

lemma progress_inv:
  assumes inv: "streamInv N B F R P ws log failed b" and p: "progress conf css b = Inr b'"
  shows "\<exists>P'\<ge>P. streamInv N B F R P' ws log (failed \<or> anyFailed (concat css)) b'"
proof -
  let ?cs = "case css of [] \<Rightarrow> [] | cs # _ \<Rightarrow> cs"
  obtain b1 where b1: "tryCompleteMultiple conf ?cs b = Inr b1" "tryToAcknowledge conf (drop 1 css) b1 = Inr b'"
    using p by (auto simp: progress_def)
  have css: "anyFailed (concat css) \<longleftrightarrow> anyFailed ?cs \<or> anyFailed (concat (drop 1 css))" by (cases css) auto
  show ?thesis using tryToAcknowledge_inv [OF tryCompleteMultiple_inv [OF inv b1(1)] b1(2)] css by (simp add: disj_assoc)
qed

section \<open>Consuming and releasing\<close>

lemma streamInv_life:
  assumes "streamInv N B F R P ws log failed b" "F \<le> k" "k < length log"
  shows "phase R P k (pb_slots b ! (k mod N))"
    and "life failed (waits ws k) (pends N (pb_pending b) k) (seg N B (qb_buffer (pb_base b)) k)
      (seg N B (pb_disk b (pb_asyncFile b)) k) (log ! k) (pb_slots b ! (k mod N))"
  using assms by (auto simp: streamInv_def)

text \<open>A slot is ready only if it holds the next acknowledged batch.\<close>

lemma ready_is_next:
  assumes inv: "streamInv N B F R P ws log failed b" and s: "sl_slot (pb_slots b ! (R mod N)) = 2"
  shows "R < P"
proof (rule ccontr)
  assume "\<not> R < P"
  then have R: "R = P" "F \<le> R" "P \<le> length log" "length log \<le> F + N" and N: "0 < N"
    using inv by (auto simp: streamInv_def counters_def geometry_def)
  consider "R < length log" | "R = length log" "R < F + N" | "R = F + N" "R = length log" using R by linarith
  then show False
  proof cases
    case 1
    then show False using streamInv_life(1) [OF inv R(2)] s R by (auto simp: phase_def split: if_splits)
  next
    case 2
    then show False using inv s by (auto simp: streamInv_def)
  next
    case 3
    then have "F mod N = R mod N" "F < R" using N by auto
    then show False using streamInv_life(1) [OF inv, of F] 3 s by (auto simp: phase_def)
  qed
qed

lemma consume_inv:
  assumes inv: "streamInv N B F R P ws log failed b" and s: "sl_slot (pb_slots b ! (R mod N)) = 2"
  shows "streamInv N B F (Suc R) P ws log failed
    (mapBase (\<lambda>q. q\<lparr>qb_slots := (pb_slots b)[R mod N := (pb_slots b ! (R mod N))\<lparr>sl_slot := 3\<rparr>]\<rparr>)
      (b\<lparr>pb_readerSlot := int (Suc R mod N)\<rparr>))" (is "streamInv N B F (Suc R) P ws log failed ?b")
proof -
  have R: "R < P" by (rule ready_is_next [OF inv s])
  have geo: "geometry N B b" and cnt: "counters N F R P (length log) b" using inv by (auto simp: streamInv_def)
  then have W: "F \<le> R" "R < length log" using R by (auto simp: counters_def)
  have b': "geometry N B ?b" "counters N F (Suc R) P (length log) ?b"
    using geo cnt R by (auto simp: mapBase_def geometry_def counters_def)
  have "streamInv N B F (Suc R) P ws log (failed \<or> False) ?b"
  proof (rule streamInv_one [OF inv W b'(1,2)])
    show "phase (Suc R) P l s" if "l \<noteq> R" "phase R P l s" for l s
      using that cnt by (auto simp: phase_def counters_def split: if_splits)
  qed (use inv s streamInv_life(2) [OF inv W] in \<open>auto simp: mapBase_def phase_def life_def streamInv_def split: if_splits\<close>)
  then show ?thesis by simp
qed

lemma tryConsume_inv:
  assumes inv: "streamInv N B F R P ws log failed b" and c: "tryConsumeNextSlot conf recover css b = Inr (x, b')"
  shows "\<exists>P'\<ge>P. let failed' = failed \<or> anyFailed (concat css) in
    case x of
      None \<Rightarrow> streamInv N B F R P' ws log failed' b'
    | Some (i, n) \<Rightarrow> R < P' \<and> streamInv N B F (Suc R) P' ws log failed' b' \<and>
        memread (qb_buffer (pb_base b')) i n = Inr (log ! R)"
proof -
  obtain b1 where b1: "(if recover then progress conf css b else Inr b) = Inr b1"
    and c1: "rbind (isSlotReady (pb_readerSlot b1) b1) (\<lambda>ready.
       if \<not> ready then Inr (None, b1)
       else rbind (updateSlot (pb_readerSlot b1) (\<lambda>s. s\<lparr>sl_slot := 3\<rparr>) b1) (\<lambda>b.
         Inr (Some (pb_readerSlot b1 * qb_batchSize (pb_base b1), qb_batchSize (pb_base b1)),
              b\<lparr>pb_readerSlot := (if pb_readerSlot b1 + 1 = qb_numberOfSlots (pb_base b1) then 0 else pb_readerSlot b1 + 1)\<rparr>))) =
      Inr (x, b')"
    using c by (auto simp: tryConsumeNextSlot_def Let_def)
  obtain P' where P': "P \<le> P'" and inv1: "streamInv N B F R P' ws log (failed \<or> anyFailed (concat css)) b1"
    using b1 progress_inv [OF inv, of conf css b1] streamInv_failed [OF inv, of "anyFailed (concat css)"]
    by (auto split: if_splits)
  have N: "0 < N" "qb_numberOfSlots (pb_base b1) = int N" "qb_batchSize (pb_base b1) = int B" "N \<le> length (pb_slots b1)"
    "pb_readerSlot b1 = int (R mod N)" "length (qb_buffer (pb_base b1)) = N * B"
    using inv1 by (auto simp: streamInv_def geometry_def counters_def)
  then have Rl: "R mod N < length (pb_slots b1)" by (meson less_le_trans mod_less_divisor)
  then have ready: "isSlotReady (pb_readerSlot b1) b1 =
      Inr (sl_slot (pb_slots b1 ! (R mod N)) = 2 \<and> sl_memcpyFinished (pb_slots b1 ! (R mod N)))"
    using N mod_less_divisor [OF N(1), of R] by (simp add: isSlotReady_def vget_def not_le)
  show ?thesis
  proof (cases "sl_slot (pb_slots b1 ! (R mod N)) = 2 \<and> sl_memcpyFinished (pb_slots b1 ! (R mod N))")
    case False
    then have "x = None" "b' = b1" using c1 ready by auto
    then show ?thesis using inv1 P' by auto
  next
    case True
    let ?b = "mapBase (\<lambda>q. q\<lparr>qb_slots := (pb_slots b1)[R mod N := (pb_slots b1 ! (R mod N))\<lparr>sl_slot := 3\<rparr>]\<rparr>)
      (b1\<lparr>pb_readerSlot := int (Suc R mod N)\<rparr>)"
    have x: "x = Some (int (R mod N) * int B, int B)" and b': "b' = ?b"
      using c1 ready True N int_mod_Suc [OF N(1), of R] Rl by (auto simp: updateSlot_Inr mapBase_def)
    have R: "R < P'" using ready_is_next [OF inv1] True by simp
    moreover have "F \<le> R" "P' \<le> length log" using inv1 by (auto simp: streamInv_def counters_def)
    ultimately have "seg N B (qb_buffer (pb_base b1)) R = log ! R"
      using streamInv_life(2) [OF inv1, of R] True by (auto simp: life_def split: if_splits)
    moreover have "int (R mod N) * int B + int B \<le> int (N * B)"
      using seg_room [OF N(1), of R B] by (metis of_nat_add of_nat_le_iff of_nat_mult)
    ultimately have "memread (qb_buffer (pb_base b1)) (int (R mod N) * int B) (int B) = Inr (log ! R)"
      using N by (simp add: memread_def seg_def nat_mult_distrib)
    then show ?thesis using consume_inv [OF inv1] True x R P' by (intro exI [of _ P']) (simp add: b' mapBase_def)
  qed
qed

lemma free_inv:
  assumes inv: "streamInv N B F R P ws log failed b" and F: "F < R" and lin: "\<not> LINEAGE_ON conf"
    and f: "pb_free conf offset isPersistent b = Inr b'"
  shows "streamInv N B (Suc F) R P ws log failed b'"
proof -
  have geo: "geometry N B b" and cnt: "counters N F R P (length log) b" using inv by (auto simp: streamInv_def)
  then have N: "0 < N" and W: "F < length log" "F \<le> F" using F by (auto simp: counters_def geometry_def)
  let ?s = "(pb_slots b ! (F mod N))\<lparr>sl_memcpyFinished := False, sl_slot := -1\<rparr>"
  have b': "geometry N B b'" "counters N (Suc F) R P (length log) b'" "pb_asyncFile b' = pb_asyncFile b"
    "pb_slots b' = (pb_slots b)[F mod N := ?s]" "pb_pending b' = pb_pending b"
    "qb_buffer (pb_base b') = qb_buffer (pb_base b)" "pb_disk b' = pb_disk b"
    using f lin geo cnt F int_mod_Suc [OF N, of F]
    by (auto simp: pb_free_def account_def Let_def updateSlot_Inr mapBase_def geometry_def counters_def split: if_splits)
  have "streamInv N B (Suc F) R P ws log (failed \<or> False) b'"
    by (rule streamInv_one [OF inv W(2,1) b'(1-4)]) (use inv in \<open>auto simp: b' streamInv_def\<close>)
  then show ?thesis by simp
qed

section \<open>Insertion\<close>

lemma getPowerOfTwo_exp: "getPowerOfTwo (2 ^ j) = 2 ^ j"
proof -
  have "and (2 ^ j) (2 ^ j - 1) = (0 :: int)" by (simp add: mask_eq_exp_minus_1 [symmetric] take_bit_eq_mask [symmetric] take_bit_eq_mod)
  then show ?thesis by (simp add: getPowerOfTwo_def)
qed

lemma slot_bytes:
  assumes "geometry N B b"
  shows "roundOffset (pb_base b) 512 (getPowerOfTwo (to_int32 (int B))) = Inr (int B)"
proof -
  obtain j where j: "13 \<le> j" "j \<le> 30" "B = 2 ^ j" and fs: "qb_filesystem (pb_base b)" using assms by (auto simp: geometry_def)
  have "(2 :: int) ^ j \<le> 2 ^ 30" "(2 :: int) ^ 13 \<le> 2 ^ j" by (rule power_increasing; use j in simp)+
  then have B: "8192 \<le> int B" "to_int32 (int B) = 2 ^ j" "int B = 2 ^ j"
    using j by (auto simp: INT_MIN_def INT_MAX_def intro!: to_int32_id)
  have "(2 :: int) ^ (9 + (j - 9)) = 2 ^ 9 * 2 ^ (j - 9)" by (rule power_add)
  then have "int B = 512 * 2 ^ (j - 9)" using j by simp
  then have "int B mod 512 = 0" by simp
  then have "int B smod 512 = 0" using B(1) by (simp add: signed_modulo_int_def sgn_if)
  then show ?thesis using fs B by (simp add: roundOffset_def getPowerOfTwo_exp)
qed

lemma writeSlot_eq:
  assumes c: "writeSlot conf pid vs (int B) (int (k mod N)) latencyMark wraps b = Inr b'" and geo: "geometry N B b"
    and lin: "\<not> LINEAGE_ON conf" and vs: "length vs = B"
  shows "\<exists>f root w. writeFor N B (pb_asyncFile b) k w \<and> b' = mapBase (\<lambda>q. q\<lparr>qb_buffer := write_at ((k mod N) * B) vs (qb_buffer (pb_base b)),
      qb_slots := (pb_slots b)[k mod N := (pb_slots b ! (k mod N))\<lparr>sl_memcpyFinished := True\<rparr>]\<rparr>)
      (b\<lparr>pb_pending := pb_pending b @ [w], pb_results := f, pb_root := root\<rparr>)"
proof -
  define m where "m = write_at ((k mod N) * B) vs (qb_buffer (pb_base b))"
  have cp: "qb_copyDataOnInsert (pb_base b)" and bs: "qb_batchSize (pb_base b) = int B" using geo by (auto simp: geometry_def)
  have rd: "memread vs 0 (int B) = Inr vs" using vs by (simp add: memread_def)
  obtain p f where f: "pf_newInstance conf pid (pb_results b) = Inr (p, f)"
    using c by (auto simp: writeSlot_def Let_def)
  have "memcpy_to (qb_buffer (pb_base b)) (int (k mod N) * int B) vs = Inr m"
    using c f cp rd bs
    by (cases "memcpy_to (qb_buffer (pb_base b)) (int (k mod N) * int B) vs")
      (auto simp: writeSlot_def Let_def m_def mem_simps nat_mult_distrib)
  moreover have "stampLatency conf (int (k mod N) * int B) latencyMark (pb_base b\<lparr>qb_buffer := m\<rparr>) = Inr (pb_base b\<lparr>qb_buffer := m\<rparr>)"
    using cp by (simp add: stampLatency_def)
  moreover define b1 where "b1 = mapBase (\<lambda>q. q\<lparr>qb_buffer := m, qb_slots := (pb_slots b)[k mod N := (pb_slots b ! (k mod N))\<lparr>sl_memcpyFinished := True\<rparr>]\<rparr>)
      (b\<lparr>pb_results := f\<rparr>)"
  moreover have "roundOffset (pb_base b1) 512 (getPowerOfTwo (to_int32 (int B))) = Inr (int B)"
    using slot_bytes [OF geo] by (simp add: b1_def mapBase_def roundOffset_def)
  moreover define w where "w = \<lparr>aw_slot = int (k mod N), aw_file = pb_asyncFile b, aw_offset = int (k mod N) * int B,
    aw_source = int (k mod N) * int B, aw_length = int B, aw_parW = p\<rparr>"
  ultimately have "b' = b1\<lparr>pb_root := updateBlockSize (int B) (pb_root b1),
      pb_pending := pb_pending b @ [w]\<rparr>"
    using c f cp rd bs lin by (auto simp: writeSlot_def Let_def updateSlot_Inr mapBase_def slotFile_def)
  then show ?thesis
    by (intro exI [of _ f] exI [of _ "updateBlockSize (int B) (pb_root b1)"] exI [of _ w] conjI)
      (simp_all add: b1_def m_def w_def mapBase_def writeFor_def)
qed

lemma remove_waiting:
  assumes d: "distinct (map tk_slot (ws @ t # us))" and t: "tk_slot t = Some (int k)"
  shows "waits (ws @ us) l \<longleftrightarrow> waits (ws @ t # us) l \<and> l \<noteq> k"
  using d t by (auto simp: waits_def)

lemma writeSlot_inv:
  assumes inv: "streamInv N B F R P (ws @ t # us) log failed b" and k: "taskFor B log k t" "P \<le> k" "k < length log"
    and c: "writeSlot conf pid (log ! k) (int B) (int (k mod N)) latencyMark wraps b = Inr b'" and lin: "\<not> LINEAGE_ON conf"
  shows "streamInv N B F R P (ws @ us) log failed b'"
proof -
  let ?ws = "ws @ t # us" and ?m = "qb_buffer (pb_base b)"
  have geo: "geometry N B b" and cnt: "counters N F R P (length log) b" using inv by (auto simp: streamInv_def)
  then have N: "0 < N" "length ?m = N * B" and Fk: "F \<le> k" "k < F + N" and RP: "R \<le> P"
    using k by (auto simp: geometry_def counters_def)
  have v: "length (log ! k) = B" using inv k by (simp add: streamInv_def)
  obtain f root w where w: "writeFor N B (pb_asyncFile b) k w" and
    eq: "b' = mapBase (\<lambda>q. q\<lparr>qb_buffer := write_at ((k mod N) * B) (log ! k) ?m,
      qb_slots := (pb_slots b)[k mod N := (pb_slots b ! (k mod N))\<lparr>sl_memcpyFinished := True\<rparr>]\<rparr>)
      (b\<lparr>pb_pending := pb_pending b @ [w], pb_results := f, pb_root := root\<rparr>)"
    using writeSlot_eq [OF c geo lin v] by blast
  have tk: "tk_slot t = Some (int k)" using k by (simp add: taskFor_def)
  have "waits ?ws k" using tk by (auto simp: waits_def)
  then have lk: "\<not> pends N (pb_pending b) k" "sl_slot (pb_slots b ! (k mod N)) = 0"
    using streamInv_life(2) [OF inv Fk(1) k(3)] by (auto simp: life_def)
  have len: "length (write_at ((k mod N) * B) (log ! k) ?m) = N * B" using N v seg_room [OF N(1), of k B] by simp
  have b': "geometry N B b'" "counters N F R P (length log) b'" "pb_asyncFile b' = pb_asyncFile b"
    "pb_slots b' = (pb_slots b)[k mod N := (pb_slots b ! (k mod N))\<lparr>sl_memcpyFinished := True\<rparr>]"
    "pb_pending b' = pb_pending b @ [w]" "pb_disk b' = pb_disk b"
    "qb_buffer (pb_base b') = write_at ((k mod N) * B) (log ! k) ?m"
    using geo cnt len by (simp_all add: eq mapBase_def geometry_def counters_def)
  have sm: "seg N B (qb_buffer (pb_base b')) l = (if l mod N = k mod N then log ! k else seg N B ?m l)" for l
    using seg_write [OF N v] b' by simp
  have dist: "distinct (map tk_slot ?ws)" using inv by (simp add: streamInv_def)
  note ww = remove_waiting [OF dist tk]
  have pp: "pends N (pb_pending b @ [w]) l \<longleftrightarrow> pends N (pb_pending b) l \<or> l mod N = k mod N" for l
    using w by (auto simp: pends_def writeFor_def)
  have "streamInv N B F R P (ws @ us) log (failed \<or> False) b'"
  proof (rule streamInv_one [OF inv Fk(1) k(3) b'(1-4)])
    show "distinct (map aw_slot (pb_pending b'))"
      using inv lk(1) w by (auto simp: b' streamInv_def pends_def writeFor_def)
    show "\<forall>w \<in> set (pb_pending b'). \<exists>l. P \<le> l \<and> l < length log \<and> writeFor N B (pb_asyncFile b) l w"
      using inv w k by (auto simp: b' streamInv_def)
    show "distinct (map tk_slot (ws @ us))" using dist by auto
    show "\<forall>t \<in> set (ws @ us). \<exists>l. P \<le> l \<and> l < length log \<and> taskFor B log l t" using inv by (simp add: streamInv_def)
    show "phase R P k ((pb_slots b ! (k mod N))\<lparr>sl_memcpyFinished := True\<rparr>) \<and>
      life (failed \<or> False) (waits (ws @ us) k) (pends N (pb_pending b') k) (seg N B (qb_buffer (pb_base b')) k)
        (seg N B (pb_disk b' (pb_asyncFile b)) k) (log ! k) ((pb_slots b ! (k mod N))\<lparr>sl_memcpyFinished := True\<rparr>)"
      using lk k RP by (simp add: b'(5) sm ww pp phase_def life_def)
  qed (auto simp: b' sm [unfolded b'] ww pp)
  then show ?thesis by simp
qed

lemma runInsertion_inv:
  assumes inv: "streamInv N B F R P (ws @ t # us) log failed b" and lin: "\<not> LINEAGE_ON conf"
    and run: "runInsertion conf chained pid cs t b = Inr b'"
  shows "streamInv N B F R P (ws @ us) log (failed \<or> anyFailed cs) b'"
proof -
  obtain k where k: "taskFor B log k t" "P \<le> k" "k < length log" using inv by (auto simp: streamInv_def)
  obtain m where m: "tk_retainMark t = Some m" "m \<noteq> 0" and tk: "tk_slot t = Some (int k)" "tk_buffer t = Some (log ! k)"
    "tk_bytes t = Some (int B)" using k by (auto simp: taskFor_def)
  have N: "qb_numberOfSlots (pb_base b) = int N" using inv by (simp add: streamInv_def geometry_def)
  obtain b1 latencyMark wraps bf where "pb_putRows conf pid (Some (log ! k)) (int B) (int k) latencyMark m wraps cs b = Inr b1"
    and b': "b' = b1\<lparr>pb_batches := bf\<rparr>"
    using run tk m by (auto simp: runInsertion_def split: option.splits if_splits)
  then obtain b0 where b0: "writeSlot conf pid (log ! k) (int B) (int (k mod N)) latencyMark wraps b = Inr b0"
    and b1: "tryCompleteMultiple conf cs b0 = Inr b1"
    using N m by (auto simp: pb_putRows_def Let_def zmod_int split: if_splits)
  have "streamInv N B F R P (ws @ us) log (failed \<or> anyFailed cs) b1"
    by (rule tryCompleteMultiple_inv [OF writeSlot_inv [OF inv k b0 lin] b1])
  then show ?thesis by (simp add: b' streamInv_def geometry_def counters_def)
qed

lemma createInsertionTask_eq:
  assumes c: "createInsertionTask conf ops vs (int B) latencyMark retainMark graph b = Inr (t, b')" and lin: "\<not> LINEAGE_ON conf"
    and N: "0 < N" "qb_numberOfSlots (pb_base b) = int N" "qb_nextSlotToWrite (pb_base b) = int W"
  shows "tk_slot t = Some (int W) \<and> tk_buffer t = Some vs \<and> tk_bytes t = Some (int B) \<and> tk_retainMark t = Some retainMark"
    and "\<exists>wr bf tf q. b' = mapBase (\<lambda>q. q\<lparr>qb_nextSlotToWrite := int (Suc W), qb_wraps := wr,
      qb_slots := (pb_slots b)[W mod N := (pb_slots b ! (W mod N))\<lparr>sl_slot := 0\<rparr>]\<rparr>) (b\<lparr>pb_batches := bf, pb_tasks := tf, pb_queue := q\<rparr>)"
proof -
  obtain wb bf where wb: "wf_newInstance conf 0 0 (-1) (-1) (Some (pb_queryId b)) None (Some (pb_window b)) (Some (pb_tupleSize b))
      (-1) (-1) (-1) (pb_batches b) = (wb, bf)" by (cases rule: prod.exhaust) blast
  obtain t0 tf where t0: "tf_newInstance 0 (Some (setTaskType INSERT wb)) None INSERT (pb_tasks b) = Inr (t0, tf)"
    using c wb by (auto simp: createInsertionTask_def Let_def)
  obtain b1 q where b1: "updateSlot (int (W mod N)) (\<lambda>s. s\<lparr>sl_slot := 0\<rparr>)
      (mapBase (\<lambda>q. q\<lparr>qb_nextSlotToWrite := int W + 1, qb_wraps := (if int W \<ge> int N then 1 else qb_wraps q)\<rparr>)
        (b\<lparr>pb_batches := bf, pb_tasks := tf\<rparr>)) = Inr b1"
    and b': "b' = b1\<lparr>pb_queue := q\<rparr>"
    and t: "t = setInsertion (Some vs) (int B) (int W) latencyMark retainMark (int (qb_wraps (pb_base b1))) t0"
    using c wb t0 N lin by (auto simp: createInsertionTask_def Let_def zmod_int)
  show "tk_slot t = Some (int W) \<and> tk_buffer t = Some vs \<and> tk_bytes t = Some (int B) \<and> tk_retainMark t = Some retainMark"
    by (simp add: t setInsertion_def)
  show "\<exists>wr bf tf q. b' = mapBase (\<lambda>q. q\<lparr>qb_nextSlotToWrite := int (Suc W), qb_wraps := wr,
      qb_slots := (pb_slots b)[W mod N := (pb_slots b ! (W mod N))\<lparr>sl_slot := 0\<rparr>]\<rparr>) (b\<lparr>pb_batches := bf, pb_tasks := tf, pb_queue := q\<rparr>)"
    using b1 by (intro exI [of _ "if int W \<ge> int N then 1 else qb_wraps (pb_base b)"] exI [of _ bf] exI [of _ tf] exI [of _ q])
      (auto simp: b' updateSlot_Inr mapBase_def ac_simps)
qed

lemma create_inv:
  assumes inv: "streamInv N B F R P ws log failed b" and lin: "\<not> LINEAGE_ON conf" and room: "length log < F + N"
    and vs: "length vs = B" and ret: "retainMark \<noteq> 0"
    and c: "createInsertionTask conf ops vs (int B) latencyMark retainMark graph b = Inr (t, b1)"
  shows "streamInv N B F R P (ws @ [t]) (log @ [vs]) failed (mapBase (\<lambda>q. q\<lparr>qb_emptySlots := qb_emptySlots q - 1\<rparr>) b1)"
    (is "streamInv N B F R P ?ws ?log failed ?b")
proof -
  let ?W = "length log"
  have geo: "geometry N B b" and cnt: "counters N F R P ?W b" using inv by (auto simp: streamInv_def)
  then have N: "0 < N" "qb_numberOfSlots (pb_base b) = int N" "qb_nextSlotToWrite (pb_base b) = int ?W" "N \<le> length (pb_slots b)"
    and FW: "F \<le> ?W" "P \<le> ?W" "R \<le> P" "F \<le> P" by (auto simp: geometry_def counters_def)
  note eqs = createInsertionTask_eq [OF c lin N(1-3)]
  have t: "taskFor B ?log ?W t" using eqs(1) ret by (simp add: taskFor_def)
  obtain wr bf tf q where eq: "b1 = mapBase (\<lambda>q. q\<lparr>qb_nextSlotToWrite := int (Suc ?W), qb_wraps := wr,
      qb_slots := (pb_slots b)[?W mod N := (pb_slots b ! (?W mod N))\<lparr>sl_slot := 0\<rparr>]\<rparr>) (b\<lparr>pb_batches := bf, pb_tasks := tf, pb_queue := q\<rparr>)"
    using eqs(2) by blast
  have b': "geometry N B ?b" "counters N F R P (length ?log) ?b" "pb_asyncFile ?b = pb_asyncFile b" "pb_pending ?b = pb_pending b"
    "qb_buffer (pb_base ?b) = qb_buffer (pb_base b)" "pb_disk ?b = pb_disk b"
    using geo cnt room by (simp_all add: eq mapBase_def geometry_def counters_def)
  have slot: "pb_slots ?b ! (l mod N) = (if l mod N = ?W mod N then (pb_slots b ! (?W mod N))\<lparr>sl_slot := 0\<rparr> else pb_slots b ! (l mod N))" for l
    using N by (simp add: eq mapBase_def nth_slot_update)
  have other: "l mod N \<noteq> ?W mod N" if "F \<le> l" "l < F + N" "l \<noteq> ?W" for l
    using near_mod_eq [of F l N ?W] that FW room by auto
  have tasks: "\<exists>l. P \<le> l \<and> l < length ?log \<and> taskFor B ?log l u" if "u \<in> set ?ws" for u
  proof (cases "u = t")
    case True
    then show ?thesis using t FW by (intro exI [of _ ?W]) simp
  next
    case False
    then have "u \<in> set ws" using that by simp
    then obtain l where "P \<le> l" "l < ?W" "taskFor B log l u" using inv by (auto simp: streamInv_def)
    then show ?thesis by (intro exI [of _ l]) (auto simp: taskFor_def nth_append)
  qed
  have old: "tk_slot u \<noteq> Some (int ?W)" if u: "u \<in> set ws" for u
  proof -
    obtain l where "l < ?W" "taskFor B log l u" using u inv by (auto simp: streamInv_def)
    then show ?thesis by (auto simp: taskFor_def)
  qed
  have ww: "waits ?ws l \<longleftrightarrow> waits ws l \<or> l = ?W" for l using t by (auto simp: waits_def taskFor_def)
  have np: "\<not> pends N (pb_pending b) ?W"
  proof
    assume "pends N (pb_pending b) ?W"
    then obtain w where w: "w \<in> set (pb_pending b)" "int (?W mod N) = aw_slot w" by (auto simp: pends_def)
    obtain l where "P \<le> l" "l < ?W" "writeFor N B (pb_asyncFile b) l w" using w inv by (auto simp: streamInv_def)
    then show False using w other [of l] FW room by (auto simp: writeFor_def)
  qed
  have lives: "phase R P l (pb_slots ?b ! (l mod N)) \<and> life failed (waits ?ws l) (pends N (pb_pending b) l)
      (seg N B (qb_buffer (pb_base b)) l) (seg N B (pb_disk b (pb_asyncFile b)) l) (?log ! l) (pb_slots ?b ! (l mod N))"
    if l: "F \<le> l" "l < Suc ?W" for l
  proof (cases "l = ?W")
    case True
    then show ?thesis using np FW by (simp add: slot ww life_def phase_def)
  next
    case False
    then show ?thesis using streamInv_life [OF inv l(1)] l other [of l] room by (simp add: slot ww nth_append)
  qed
  have "sl_slot (pb_slots ?b ! (l mod N)) = -1" if "Suc ?W \<le> l" "l < F + N" for l
    using that other [of l] FW inv by (simp add: slot streamInv_def)
  moreover have "distinct (map tk_slot ?ws)" using inv old t by (force simp: streamInv_def taskFor_def)
  moreover have "\<forall>w \<in> set (pb_pending b). \<exists>k. P \<le> k \<and> k < length ?log \<and> writeFor N B (pb_asyncFile b) k w"
    using inv by (fastforce simp: streamInv_def)
  ultimately show ?thesis
    using inv b' lives tasks vs by (simp add: streamInv_def)
qed

lemma pb_reserve_temp: "\<exists>x. snd (pb_reserve bytes q) = q\<lparr>qb_temp := x\<rparr>"
proof (cases "qb_temp q \<le> qb_endP q + bytes - 1 - qb_capacity q \<or> \<not> qb_emptySlots q > 0")
  case True
  then show ?thesis by (auto simp: pb_reserve_def Let_def)
next
  case False
  then show ?thesis by (intro exI [of _ "qb_temp q"]) (simp add: pb_reserve_def Let_def)
qed

lemma pb_reserve_room: "fst (pb_reserve bytes q) \<Longrightarrow> 0 < qb_emptySlots q"
  by (auto simp: pb_reserve_def Let_def split: if_splits)

lemma reserve_inv:
  assumes "streamInv N B F R P ws log failed b" "pb_reserve bytes (pb_base b) = (ok, q)"
  shows "streamInv N B F R P ws log failed (b\<lparr>pb_base := q\<rparr>)" and "ok \<Longrightarrow> length log < F + N"
proof -
  obtain x where q: "q = (pb_base b)\<lparr>qb_temp := x\<rparr>" using pb_reserve_temp [of bytes "pb_base b"] assms(2) by auto
  show "streamInv N B F R P ws log failed (b\<lparr>pb_base := q\<rparr>)"
    using assms(1) by (simp add: q streamInv_def geometry_def counters_def)
  show "length log < F + N" if ok
    using pb_reserve_room [of bytes "pb_base b"] that assms by (auto simp: streamInv_def counters_def)
qed

lemma put_accept_inv:
  assumes inv: "streamInv N B F R P ws log failed b" and lin: "\<not> LINEAGE_ON conf" and ret: "retainMark \<noteq> 0"
    and p: "pb_put conf ops (Some vs) (int (length vs)) latencyMark retainMark graph css b = Inr (0, Some t, b')"
  shows "\<exists>P'. streamInv N B F R P' (ws @ [t]) (log @ [vs]) (failed \<or> anyFailed (concat css)) b'"
proof -
  have vs: "length vs = B" using p inv by (auto simp: pb_put_def streamInv_def geometry_def split: if_splits)
  obtain q where q: "pb_reserve (int B) (pb_base b) = (True, q)"
    using p vs by (auto simp: pb_put_def split: if_splits prod.splits bool.splits)
  obtain b1 where c: "createInsertionTask conf ops vs (int B) latencyMark retainMark graph (b\<lparr>pb_base := q\<rparr>) = Inr (t, b1)"
    and pr: "progress conf css (mapBase (\<lambda>q. q\<lparr>qb_emptySlots := qb_emptySlots q - 1\<rparr>) b1) = Inr b'"
    using p vs q by (auto simp: pb_put_def split: if_splits)
  show ?thesis
    using progress_inv [OF create_inv [OF reserve_inv(1) [OF inv q] lin reserve_inv(2) [OF inv q] vs ret c] pr] by auto
qed

lemma put_refuse_inv:
  assumes inv: "streamInv N B F R P ws log failed b"
    and p: "pb_put conf ops (Some vs) bytes latencyMark retainMark graph css b = Inr (-1, None, b')"
  shows "\<exists>P'. streamInv N B F R P' ws log (failed \<or> anyFailed (concat css)) b'"
proof -
  obtain q where q: "pb_reserve bytes (pb_base b) = (False, q)" and pr: "progress conf css (b\<lparr>pb_base := q\<rparr>) = Inr b'"
    using p by (auto simp: pb_put_def split: if_splits prod.splits bool.splits)
  show ?thesis using progress_inv [OF reserve_inv(1) [OF inv q] pr] by auto
qed

section \<open>The invariant along a run\<close>

definition runInv :: "nat \<Rightarrow> nat \<Rightarrow> 'q StreamRun \<Rightarrow> bool" where
  "runInv N B r \<longleftrightarrow>
     (\<exists>P. streamInv N B (sr_freed r) (length (sr_consumed r)) P (sr_waiting r) (sr_log r) (sr_failed r) (sr_buffer r)) \<and>
     sr_consumed r = take (length (sr_consumed r)) (sr_log r)"

lemma streamStep_inv:
  assumes "streamStep conf ops r r'" and inv: "runInv N B r" and lin: "\<not> LINEAGE_ON conf"
  shows "runInv N B r'"
proof -
  obtain P where P: "streamInv N B (sr_freed r) (length (sr_consumed r)) P (sr_waiting r) (sr_log r) (sr_failed r) (sr_buffer r)"
    and out: "sr_consumed r = take (length (sr_consumed r)) (sr_log r)" using inv by (auto simp: runInv_def)
  have le: "length (sr_consumed r) \<le> length (sr_log r)" using P by (auto simp: streamInv_def counters_def)
  from assms(1) show ?thesis
  proof cases
    case (accept retainMark vs latencyMark graph css t b)
    then show ?thesis using put_accept_inv [OF P lin accept(2,3)] out le by (auto simp: runInv_def)
  next
    case (refuse vs bytes latencyMark retainMark graph css b)
    then show ?thesis using put_refuse_inv [OF P refuse(2)] out by (auto simp: runInv_def)
  next
    case (insert ws t us chained pid cs b)
    then show ?thesis using runInsertion_inv [OF P [unfolded insert(2)] lin insert(3)] out by (auto simp: runInv_def)
  next
    case (consume recover css i n b batch)
    obtain P' where P': "length (sr_consumed r) < P'" "batch = sr_log r ! length (sr_consumed r)"
      "streamInv N B (sr_freed r) (Suc (length (sr_consumed r))) P' (sr_waiting r) (sr_log r) (sr_failed r \<or> anyFailed (concat css)) b"
      using tryConsume_inv [OF P consume(2)] consume(3) by auto
    then have lt: "length (sr_consumed r) < length (sr_log r)" by (auto simp: streamInv_def counters_def)
    then have "sr_consumed r @ [batch] = take (Suc (length (sr_consumed r))) (sr_log r)"
      using out P'(2) by (simp add: take_Suc_conv_app_nth)
    then show ?thesis using P'(3) consume(1) lt by (auto simp: runInv_def min_absorb2)
  next
    case (idle recover css b)
    then show ?thesis using tryConsume_inv [OF P idle(2)] out by (auto simp: runInv_def Let_def)
  next
    case (release offset isPersistent b)
    then show ?thesis using free_inv [OF P release(2) lin release(3)] out by (auto simp: runInv_def)
  qed
qed

section \<open>New buffers\<close>

lemma setId_slots:
  assumes "rfold (\<lambda>slotId ss. rbind (vget ss slotId) (\<lambda>s. vset ss slotId (sl_setId slotId bs None s))) is ss = Inr ss'"
    and "\<forall>s \<in> set ss. sl_slot s = -1"
  shows "length ss' = length ss \<and> (\<forall>s \<in> set ss'. sl_slot s = -1)"
  using assms(1)
proof (rule rfold_invariant [where P = "\<lambda>t. length t = length ss \<and> (\<forall>s \<in> set t. sl_slot s = -1)"])
  fix x :: int and s s' :: "Slot list"
  assume s: "length s = length ss \<and> (\<forall>s \<in> set s. sl_slot s = -1)"
    and c: "rbind (vget s x) (\<lambda>u. vset s x (sl_setId x bs None u)) = Inr s'"
  have x: "nat x < length s" and s': "s' = s[nat x := sl_setId x bs None (s ! nat x)]"
    using c by (auto simp: mem_simps)
  have "sl_slot (sl_setId x bs None (s ! nat x)) = -1" using s x by (simp add: sl_setId_def)
  then show "length s' = length ss \<and> (\<forall>s \<in> set s'. sl_slot s = -1)"
    using s by (auto simp: s' dest: set_update_subset_insert [THEN subsetD])
qed (use assms(2) in auto)

lemma newPersistentBuffer_inv:
  assumes lin: "\<not> LINEAGE_ON conf" and j: "13 \<le> j" "j \<le> 30" and N: "0 < N"
    and b: "newPersistentBuffer conf i (N * 2 ^ j) tupleSize True (2 ^ j) queryId window old fresh disk store queue bf tf gf pf = Inr b"
  shows "streamInv N (2 ^ j) 0 0 0 [] [] False b"
proof -
  let ?B = "2 ^ j :: nat"
  obtain q where q: "newQueryBuffer i (N * ?B) False tupleSize True ?B = Inr q" using b by (auto simp: newPersistentBuffer_def)
  then have q': "qb_numberOfSlots q = int N" "qb_emptySlots q = int N" "qb_batchSize q = int ?B" "qb_copyDataOnInsert q"
    "qb_numberOfSlotsToFree q = 0" "qb_nextSlotToWrite q = 0" "qb_slots q = replicate (2 * N) newSlot"
    by (auto simp: newQueryBuffer_def Let_def split: option.splits)
  obtain ss where ss: "rfold (\<lambda>slotId ss. rbind (vget ss slotId) (\<lambda>s. vset ss slotId (sl_setId slotId (int ?B) None s)))
      [0..int N - 1] (replicate (2 * N) newSlot) = Inr ss"
    and b': "b = \<lparr>pb_base = q\<lparr>qb_buffer := replicate (N * ?B) 0, qb_slots := ss, qb_filesystem := True\<rparr>, pb_queryId = queryId,
      pb_window = window, pb_tupleSize = tupleSize, pb_nextFreeSlot = 0, pb_nextPersistentSlot = 0, pb_readerSlot = 0,
      pb_root = openPMem conf old fresh, pb_fptrs = replicate (length ss) None, pb_asyncFile = ''scabbard/queue_data_'' @ to_string i,
      pb_disk = setupDisk conf (''scabbard/queue_data_'' @ to_string i) (int N * int ?B) disk, pb_pending = [], pb_store = store,
      pb_queue = queue, pb_batches = bf, pb_tasks = tf, pb_graphs = gf, pb_results = pf\<rparr>"
    using b q q' by (auto simp: newPersistentBuffer_def Let_def split: if_splits)
  have st: "length ss = 2 * N" "\<forall>s \<in> set ss. sl_slot s = -1"
    using setId_slots [OF ss] by (auto simp: newSlot_def)
  have "length (pb_disk b (pb_asyncFile b)) = N * ?B"
    using lin by (simp add: b' setupDisk_def nat_mult_distrib nat_power_eq)
  then have "geometry N ?B b" using q' j N st by (auto simp: b' geometry_def)
  moreover have "counters N 0 0 0 0 b" using q' by (simp add: b' counters_def)
  moreover have "sl_slot (pb_slots b ! k) = -1" if "k < N" for k using st that by (simp add: b')
  moreover have "pb_pending b = []" by (simp add: b')
  ultimately show ?thesis by (simp add: streamInv_def)
qed

lemma streamRun_inv:
  assumes "streamRun conf ops b r" and "\<not> LINEAGE_ON conf" and "streamInv N B 0 0 0 [] [] False b"
  shows "runInv N B r"
  using assms(1)
proof induction
  case start
  then show ?case using assms(3) by (auto simp: runInv_def)
next
  case (step r r')
  then show ?case using streamStep_inv assms(2) by blast
qed

section \<open>Acknowledging and consuming everything\<close>

lemma acknowledge_all:
  "streamInv N B F R P [] log failed b \<Longrightarrow> pb_pending b = [] \<Longrightarrow>
   \<exists>b'. tryToAcknowledge conf [] b = Inr b' \<and> streamInv N B F R (length log) [] log failed b'"
proof (induction "length log - P" arbitrary: P b)
  case 0
  then have P: "P = length log" by (auto simp: streamInv_def counters_def)
  have "sl_slot (pb_slots b ! (P mod N)) \<noteq> 1" using written_is_next [OF "0.prems"(1)] P by auto
  moreover have "vget (pb_slots b) (pb_nextPersistentSlot b) = Inr (pb_slots b ! (P mod N))"
    using "0.prems"(1) less_le_trans [OF mod_less_divisor [of N P]] by (auto simp: vget_def streamInv_def geometry_def counters_def)
  ultimately show ?case using "0.prems"(1) P by (simp add: tryToAcknowledge.simps [of conf "[]" b])
next
  case (Suc n)
  note inv = Suc.prems(1)
  have P: "P < length log" "F \<le> P" "R \<le> P" using Suc.hyps(2) inv by (auto simp: streamInv_def counters_def)
  then have s: "sl_slot (pb_slots b ! (P mod N)) = 1"
    using streamInv_life [OF inv P(2,1)] Suc.prems(2) by (auto simp: phase_def life_def waits_def pends_def)
  have N: "P mod N < length (pb_slots b)" "pb_nextPersistentSlot b = int (P mod N)" "qb_numberOfSlotsToFree (pb_base b) = 0"
    using inv less_le_trans [OF mod_less_divisor [of N P]] by (auto simp: streamInv_def geometry_def counters_def)
  then obtain b1 where b1: "acknowledgeSlot b = Inr b1" "pb_pending b1 = []"
    using Suc.prems(2) by (auto simp: acknowledgeSlot_def Let_def updateSlot_def vget_def vset_def mapBase_def)
  have "tryToAcknowledge conf [] b = tryToAcknowledge conf [] b1"
    using N s b1 by (simp add: tryToAcknowledge.simps [of conf "[]" b] vget_def)
  then show ?case
    using Suc.hyps(1) [OF _ acknowledgeSlot_inv [OF inv s b1(1)] b1(2)] Suc.hyps(2) by auto
qed

lemma consume_next:
  assumes inv: "streamInv N B F R P [] log failed b" and pend: "pb_pending b = []" and R: "R < length log"
  shows "\<exists>i n b'. tryConsumeNextSlot conf True [] b = Inr (Some (i, n), b')"
proof -
  obtain b1 where b1: "progress conf [] b = Inr b1" and inv1: "streamInv N B F R (length log) [] log failed b1"
    using acknowledge_all [OF inv pend] by (auto simp: progress_def)
  have N: "0 < N" "qb_numberOfSlots (pb_base b1) = int N" "N \<le> length (pb_slots b1)" "pb_readerSlot b1 = int (R mod N)" "F \<le> R"
    using inv1 by (auto simp: streamInv_def geometry_def counters_def)
  have "R mod N < length (pb_slots b1)" using N less_le_trans mod_less_divisor by blast
  moreover have "sl_slot (pb_slots b1 ! (R mod N)) = 2 \<and> sl_memcpyFinished (pb_slots b1 ! (R mod N))"
    using streamInv_life [OF inv1 N(5) R] R by (auto simp: phase_def life_def waits_def)
  ultimately show ?thesis
    using b1 N mod_less_divisor [OF N(1), of R]
    by (simp add: tryConsumeNextSlot_def Let_def isSlotReady_def updateSlot_def vget_def vset_def not_le)
qed

section \<open>Running an insertion\<close>

lemma writeSlot_returns:
  assumes geo: "geometry N B b" and lin: "\<not> LINEAGE_ON conf" and vs: "length vs = B"
    and pid: "0 \<le> pid" "pid < int (length (pf_poolSeqMem (pb_results b)))"
  shows "\<exists>b'. writeSlot conf pid vs (int B) (int (k mod N)) latencyMark wraps b = Inr b'"
proof -
  have N: "0 < N" "qb_copyDataOnInsert (pb_base b)" "qb_batchSize (pb_base b) = int B" "N \<le> length (pb_slots b)"
    "length (qb_buffer (pb_base b)) = N * B" using geo by (auto simp: geometry_def)
  obtain p f where f: "pf_newInstance conf pid (pb_results b) = Inr (p, f)"
    using pid by (cases "pf_poolSeqMem (pb_results b) ! nat pid") (auto simp: pf_newInstance_def popPool_def vget_def vset_def)
  have "int (k mod N) * int B + int B \<le> int (N * B)"
    using seg_room [OF N(1), of k B] by (metis of_nat_add of_nat_le_iff of_nat_mult)
  then have cp: "\<exists>m. memcpy_to (qb_buffer (pb_base b)) (int (k mod N) * int B) vs = Inr m"
    using N vs by (simp add: memcpy_to_def)
  have rd: "memread vs 0 (int B) = Inr vs" using vs by (simp add: memread_def)
  have kN: "k mod N < length (pb_slots b)" using N less_le_trans mod_less_divisor by blast
  have ro: "roundOffset (q :: QueryBuffer) 512 (getPowerOfTwo (to_int32 (int B))) = Inr (int B)"
    if "qb_filesystem q = qb_filesystem (pb_base b)" for q
    using slot_bytes [OF geo] that by (simp add: roundOffset_def)
  show ?thesis
    using f cp rd kN N lin
    by (auto simp: writeSlot_def Let_def stampLatency_def updateSlot_def vget_def vset_def mapBase_def slotFile_def ro)
qed

section \<open>An example run\<close>

text \<open>A buffer of two slots of 8 KB, one worker, and a queue that accepts every task.\<close>

definition exQueue :: "nat queue_ops" where
  "exQueue = \<lparr>try_enqueue = (\<lambda>t n. (True, Suc n)), size_approx = int\<rparr>"

definition exWindow :: WindowDefinition where
  "exWindow = \<lparr>wd_size = 1, wd_slide = 1, wd_paneSize = 1, wd_gap = 0, wd_measure = ROW_BASED, wd_type = TUMBLING\<rparr>"

definition exPMem :: BufferPMem where
  "exPMem = \<lparr>pm_endP = 0, pm_bytesProcessed = 0, pm_step = 0, pm_offset = 0, pm_blockSize = 0\<rparr>"

definition exStore :: BlockManager where
  "exStore = \<lparr>bm_numberOfQueries = 0, bm_lFiles = [], bm_rFiles = []\<rparr>"

definition exNew :: "nat PersistentBuffer res" where
  "exNew = newPersistentBuffer defaultConf 0 (2 * 2 ^ 13) 32 True (2 ^ 13) 0 exWindow None exPMem (\<lambda>_. []) exStore 0
     \<lparr>wf_count = 0, wf_pool = []\<rparr> \<lparr>tf_count = 0, tf_pool = []\<rparr> emptyFactory (newPartialFactory defaultConf)"

definition exBatch :: "byte list" where
  "exBatch = replicate (2 ^ 13) 7"

lemma exLineage: "\<not> LINEAGE_ON defaultConf"
  by (simp add: defaultConf_def)

lemma exNew_ok:
  "\<exists>b. exNew = Inr b \<and> qb_temp (pb_base b) = 0 \<and> qb_endP (pb_base b) = 0 \<and> qb_startP (pb_base b) = 0 \<and> qb_capacity (pb_base b) = 2 * 2 ^ 13 \<and>
     pb_batches b = \<lparr>wf_count = 0, wf_pool = []\<rparr> \<and> pb_tasks b = \<lparr>tf_count = 0, tf_pool = []\<rparr> \<and> pb_results b = newPartialFactory defaultConf"
  by (simp add: exNew_def newPersistentBuffer_def newQueryBuffer_def upper_power_of_two_def pow2_loop.simps Let_def
      upto_rec1 vget_def vset_def)

lemma exPut_ok:
  assumes inv: "streamInv 2 (2 ^ 13) 0 0 0 [] [] False b"
    and b: "qb_temp (pb_base b) = 0" "qb_endP (pb_base b) = 0" "qb_capacity (pb_base b) = 2 * 2 ^ 13"
      "pb_batches b = \<lparr>wf_count = 0, wf_pool = []\<rparr>" "pb_tasks b = \<lparr>tf_count = 0, tf_pool = []\<rparr>" "pb_results b = newPartialFactory defaultConf"
  shows "\<exists>t b'. pb_put defaultConf exQueue (Some exBatch) (int (length exBatch)) 0 (-1) None [] b = Inr (0, Some t, b') \<and>
    pb_results b' = newPartialFactory defaultConf \<and> pb_pending b' = [] \<and> (\<exists>wb. tk_leftBatch t = Some wb \<and> wb_graph wb = None) \<and>
    tk_latencyMark t = Some 0 \<and> tk_wraps t \<noteq> None \<and>
    tk_bytes t = Some (2 ^ 13) \<and> tk_slot t = Some 0 \<and> tk_retainMark t = Some (-1)"
proof -
  have g: "qb_numberOfSlots (pb_base b) = 2" "qb_batchSize (pb_base b) = 8192" "qb_nextSlotToWrite (pb_base b) = 0"
    "2 \<le> length (pb_slots b)" "qb_emptySlots (pb_base b) = 2" "pb_nextPersistentSlot b = 0"
    using inv by (auto simp: streamInv_def geometry_def counters_def)
  have ne: "pb_slots b \<noteq> []" "pb_pending b = []"
    using g(4) inv by (auto simp: streamInv_def intro!: ccontr [of "pb_pending b = []"] dest!: hd_in_set)
  have r: "pb_reserve 8192 (pb_base b) = (True, pb_base b)" using g b by (simp add: pb_reserve_def)
  have q: "enqueue exQueue t n = Inr (Suc n)" for t n by (simp add: enqueue_def enqueue_spin.simps exQueue_def)
  have ack: "progress conf [] c = Inr c" if "pb_nextPersistentSlot c = 0" "0 < length (pb_slots c)" "sl_slot (pb_slots c ! 0) = 0"
    for conf and c :: "nat PersistentBuffer"
    using that by (simp add: progress_def tryToAcknowledge.simps vget_def)
  have lin: "\<not> LINEAGE_ON defaultConf" by (simp add: defaultConf_def)
  show ?thesis
    using g b lin ne
    by (simp add: pb_put_def r createInsertionTask_def q wf_newInstance_def tf_newInstance_def newTask_def setTask_def batchQueryId_def
        setTaskType_def wb_set_def newWindowBatch_def Let_def updateSlot_def vget_def vset_def mapBase_def ack setInsertion_def exBatch_def)
qed

lemma exInsert_ok:
  assumes inv: "streamInv 2 (2 ^ 13) 0 0 P [t] [v] False b" and r: "pb_results b = newPartialFactory defaultConf" and p: "pb_pending b = []"
    and t: "tk_leftBatch t = Some wb" "wb_graph wb = None" "tk_latencyMark t = Some 0" "tk_wraps t \<noteq> None"
  shows "\<exists>b'. runInsertion defaultConf False 0 [(0, True)] t b = Inr b' \<and> pb_pending b' = []"
proof -
  obtain k where k: "P \<le> k" "k < 1" "taskFor (2 ^ 13) [v] k t" using inv by (auto simp: streamInv_def)
  then have k0: "P = 0" "k = 0" by auto
  then have tk: "tk_slot t = Some 0" "tk_buffer t = Some v" "tk_bytes t = Some 8192" "\<exists>m. tk_retainMark t = Some m \<and> m \<noteq> 0"
    using k by (auto simp: taskFor_def)
  have w0: "waits [t] 0" using tk by (simp add: waits_def)
  have "0 < length [v]" by simp
  then have s: "sl_slot (pb_slots b ! 0) = 0" using streamInv_life(2) [OF inv, of 0] w0 by (simp add: life_def)
  have v: "length v = 8192" using inv by (simp add: streamInv_def)
  have geo: "geometry 2 (2 ^ 13) b" using inv by (simp add: streamInv_def)
  then have g: "qb_numberOfSlots (pb_base b) = 2" "qb_batchSize (pb_base b) = 8192" "pb_slots b \<noteq> []" "qb_copyDataOnInsert (pb_base b)"
    "length (qb_buffer (pb_base b)) = 16384" by (auto simp: geometry_def)
  have ro: "roundOffset (q :: QueryBuffer) 512 (getPowerOfTwo (to_int32 8192)) = Inr 8192"
    if "qb_filesystem q = qb_filesystem (pb_base b)" for q
    using slot_bytes [OF geo] that by (simp add: roundOffset_def)
  have conf: "\<not> LINEAGE_ON defaultConf" "WORKER_THREADS defaultConf = 1" by (simp_all add: defaultConf_def)
  let ?f = "\<lparr>pf_count = 0, pf_poolSeqMem = [[]], pf_poolPtrs = [[]], pf_poolSeqMemResults = [[]]\<rparr>"
  have f: "pb_results b = ?f" using r conf by (simp add: newPartialFactory_def Let_def)
  have pool: "pf_newInstance defaultConf 0 ?f =
      Inr (pw_init (newPartialWindowResults defaultConf 0 (UNBOUNDED_BUFFER_SIZE defaultConf) 0), ?f\<lparr>pf_count := 1\<rparr>)"
    by (simp add: pf_newInstance_def popPool_def vget_def)
  have pw: "pw_pid (pw_init (newPartialWindowResults c i n 0)) = i" "pw_type (pw_init (newPartialWindowResults c i n 0)) = 0" for c i n
    by (simp_all add: pw_init_def newPartialWindowResults_def Let_def)
  obtain m wraps where m: "tk_retainMark t = Some m" "m \<noteq> 0" "tk_wraps t = Some wraps" using tk(4) t(4) by auto
  show ?thesis
    using t(1-3) tk(1-3) m s v g p f conf
    by (simp add: runInsertion_def pb_putRows_def vget_def vset_def writeSlot_def Let_def pool memread_def memcpy_to_def stampLatency_def
        updateSlot_def mapBase_def ro slotFile_def tryCompleteMultiple_def completeWrite_def pf_free_def pw pushPool_def
        wf_free_def setPid_def write_at_def)
qed

lemma exRun:
  obtains b r1 r2 r3 t where "exNew = Inr b"
    "streamRun defaultConf exQueue b r1" "sr_waiting r1 = [t]" "pb_results (sr_buffer r1) = newPartialFactory defaultConf"
    "tk_bytes t = Some (2 ^ 13)" "tk_slot t = Some 0" "tk_retainMark t = Some (-1)"
    "streamRun defaultConf exQueue b r2" "sr_waiting r2 = []" "pb_pending (sr_buffer r2) = []" "sr_log r2 = [exBatch]" "sr_consumed r2 = []"
    "streamRun defaultConf exQueue b r3" "sr_log r3 = [exBatch]" "sr_consumed r3 = [exBatch]" "sr_freed r3 = 0" "\<not> sr_failed r3"
proof -
  have lin: "\<not> LINEAGE_ON defaultConf" by (simp add: defaultConf_def)
  obtain b where b: "exNew = Inr b" "qb_temp (pb_base b) = 0" "qb_endP (pb_base b) = 0" "qb_capacity (pb_base b) = 2 * 2 ^ 13"
      "pb_batches b = \<lparr>wf_count = 0, wf_pool = []\<rparr>" "pb_tasks b = \<lparr>tf_count = 0, tf_pool = []\<rparr>" "pb_results b = newPartialFactory defaultConf"
    using exNew_ok by auto
  have inv: "streamInv 2 (2 ^ 13) 0 0 0 [] [] False b"
    by (rule newPersistentBuffer_inv [OF lin _ _ _ b(1) [unfolded exNew_def]]) simp_all
  obtain t b1 wb where put: "pb_put defaultConf exQueue (Some exBatch) (int (length exBatch)) 0 (-1) None [] b = Inr (0, Some t, b1)"
    and t: "pb_results b1 = newPartialFactory defaultConf" "pb_pending b1 = []" "tk_leftBatch t = Some wb" "wb_graph wb = None"
      "tk_latencyMark t = Some 0" "tk_wraps t \<noteq> None"
      "tk_bytes t = Some (2 ^ 13)" "tk_slot t = Some 0" "tk_retainMark t = Some (-1)" using exPut_ok [OF inv b(2-7)] by blast
  obtain P where P: "streamInv 2 (2 ^ 13) 0 0 P [t] [exBatch] False b1" using put_accept_inv [OF inv lin _ put] by auto
  obtain b2 where b2: "runInsertion defaultConf False 0 [(0, True)] t b1 = Inr b2" "pb_pending b2 = []"
    using exInsert_ok [OF P t(1,2,3,4,5,6)] by auto
  have P2: "streamInv 2 (2 ^ 13) 0 0 P [] [exBatch] False b2"
    using runInsertion_inv [of 2 "2 ^ 13" 0 0 P "[]" t "[]", OF _ lin b2(1)] P by simp
  obtain i n b3 where b3: "tryConsumeNextSlot defaultConf True [] b2 = Inr (Some (i, n), b3)"
    using consume_next [where conf = defaultConf, OF P2 b2(2)] by auto
  have rd: "memread (qb_buffer (pb_base b3)) i n = Inr exBatch" using tryConsume_inv [OF P2 b3] by (auto simp: Let_def)
  let ?r0 = "\<lparr>sr_buffer = b, sr_waiting = [], sr_log = [], sr_consumed = [], sr_freed = 0, sr_failed = False\<rparr>"
  let ?r1 = "?r0\<lparr>sr_buffer := b1, sr_waiting := [t], sr_log := [exBatch]\<rparr>"
  let ?r2 = "?r1\<lparr>sr_buffer := b2, sr_waiting := []\<rparr>"
  have "streamStep defaultConf exQueue ?r0 ?r1" using streamStep.accept [of "-1" defaultConf exQueue exBatch 0 None "[]" ?r0] put by simp
  then have r1: "streamRun defaultConf exQueue b ?r1" by (blast intro: streamRun.intros)
  moreover have "streamStep defaultConf exQueue ?r1 ?r2"
    using streamStep.insert [of ?r1 "[]" t "[]" defaultConf False 0 "[(0, True)]" b2 exQueue] b2 by simp
  ultimately have r2: "streamRun defaultConf exQueue b ?r2" by (blast intro: streamRun.intros)
  moreover have "streamStep defaultConf exQueue ?r2 (?r2\<lparr>sr_buffer := b3, sr_consumed := [exBatch]\<rparr>)"
    using streamStep.consume [of defaultConf True "[]" ?r2 i n b3 exBatch exQueue] b3 rd by simp
  ultimately have r3: "streamRun defaultConf exQueue b (?r2\<lparr>sr_buffer := b3, sr_consumed := [exBatch]\<rparr>)"
    by (blast intro: streamRun.intros)
  have "tk_bytes t = Some (2 ^ 13)" "tk_slot t = Some 0" "tk_retainMark t = Some (-1)" using t by simp_all
  then show thesis using r1 r2 r3 b(1) t(1) b2(2) by (intro that [of b ?r1 t ?r2 "?r2\<lparr>sr_buffer := b3, sr_consumed := [exBatch]\<rparr>"]) simp_all
qed

section \<open>The results\<close>

text \<open>
  C4. In every run of a new persistent buffer of \<open>N\<close> slots, with retain marks, the dispatcher consumes the accepted batches unchanged and in
  the order of their acceptance, although workers copy them and the disk writes them in any order. A
  consumed batch stays in memory until its slot is released, and it is in the file as well unless some
  write has failed.
\<close>

theorem batches_in_order:
  assumes lin: "\<not> LINEAGE_ON conf" and j: "13 \<le> j" "j \<le> 30" and N: "0 < N"
    and b: "newPersistentBuffer conf i (N * 2 ^ j) tupleSize True (2 ^ j) queryId window old fresh disk store queue bf tf gf pf = Inr b"
    and run: "streamRun conf ops b r"
  shows "sr_consumed r = take (length (sr_consumed r)) (sr_log r) \<and>
    (\<forall>k. sr_freed r \<le> k \<longrightarrow> k < length (sr_consumed r) \<longrightarrow>
       seg N (2 ^ j) (qb_buffer (pb_base (sr_buffer r))) k = sr_log r ! k \<and>
       (sr_failed r \<or> seg N (2 ^ j) (pb_disk (sr_buffer r) (pb_asyncFile (sr_buffer r))) k = sr_log r ! k))"
proof -
  obtain P where P: "streamInv N (2 ^ j) (sr_freed r) (length (sr_consumed r)) P (sr_waiting r) (sr_log r) (sr_failed r) (sr_buffer r)"
    and out: "sr_consumed r = take (length (sr_consumed r)) (sr_log r)"
    using streamRun_inv [OF run lin newPersistentBuffer_inv [OF lin j N b]] by (auto simp: runInv_def)
  have "length (sr_consumed r) \<le> length (sr_log r)" using P by (auto simp: streamInv_def counters_def)
  then have "seg N (2 ^ j) (qb_buffer (pb_base (sr_buffer r))) k = sr_log r ! k \<and>
       (sr_failed r \<or> seg N (2 ^ j) (pb_disk (sr_buffer r) (pb_asyncFile (sr_buffer r))) k = sr_log r ! k)"
    if "sr_freed r \<le> k" "k < length (sr_consumed r)" for k
    using streamInv_life [OF P that(1)] that by (auto simp: phase_def life_def split: if_splits)
  then show ?thesis using out by blast
qed

theorem batches_in_order_witness:
  "\<exists>b r. exNew = Inr b \<and> streamRun defaultConf exQueue b r \<and> sr_consumed r = [exBatch] \<and>
     seg 2 (2 ^ 13) (pb_disk (sr_buffer r) (pb_asyncFile (sr_buffer r))) 0 = exBatch"
proof (rule exRun)
  fix b r
  assume r: "exNew = Inr b" "streamRun defaultConf exQueue b r" "sr_log r = [exBatch]" "sr_consumed r = [exBatch]" "sr_freed r = 0"
    "\<not> sr_failed r"
  have "seg 2 (2 ^ 13) (pb_disk (sr_buffer r) (pb_asyncFile (sr_buffer r))) 0 = exBatch"
    using batches_in_order [OF exLineage _ _ _ r(1) [unfolded exNew_def] r(2)] r(3-6) by simp
  then show ?thesis using r by blast
qed

text \<open>
  C13. A worker that runs a waiting insertion never finds its slot blocked: in every state of a run the insertion of
  every waiting task returns, for every worker that has a pool. (The code ends the program when the slot is
  blocked.)
\<close>

theorem insertions_never_blocked:
  assumes lin: "\<not> LINEAGE_ON conf" and j: "13 \<le> j" "j \<le> 30" and N: "0 < N"
    and b: "newPersistentBuffer conf i (N * 2 ^ j) tupleSize True (2 ^ j) queryId window old fresh disk store queue bf tf gf pf = Inr b"
    and run: "streamRun conf ops b r"
    and t: "t \<in> set (sr_waiting r)" "tk_bytes t = Some bytes" "tk_slot t = Some slot" "tk_retainMark t = Some retainMark"
    and pid: "0 \<le> pid" "pid < int (length (pf_poolSeqMem (pb_results (sr_buffer r))))"
  shows "\<exists>b'. pb_putRows conf pid (tk_buffer t) bytes slot latencyMark retainMark wraps [] (sr_buffer r) = Inr b'"
proof -
  obtain P where P: "streamInv N (2 ^ j) (sr_freed r) (length (sr_consumed r)) P (sr_waiting r) (sr_log r) (sr_failed r) (sr_buffer r)"
    using streamRun_inv [OF run lin newPersistentBuffer_inv [OF lin j N b]] by (auto simp: runInv_def)
  then have geo: "geometry N (2 ^ j) (sr_buffer r)" and FP: "sr_freed r \<le> P" by (auto simp: streamInv_def counters_def)
  obtain k where k: "P \<le> k" "k < length (sr_log r)" "taskFor (2 ^ j) (sr_log r) k t" using P t(1) by (auto simp: streamInv_def)
  have v: "length (sr_log r ! k) = 2 ^ j" using P k by (simp add: streamInv_def)
  have "waits (sr_waiting r) k" using t(1) k by (force simp: waits_def taskFor_def)
  then have s: "sl_slot (pb_slots (sr_buffer r) ! (k mod N)) = 0"
    using streamInv_life(2) [OF P _ k(2)] k FP by (auto simp: life_def)
  have kN: "k mod N < length (pb_slots (sr_buffer r))" "qb_numberOfSlots (pb_base (sr_buffer r)) = int N"
    using geo less_le_trans [OF mod_less_divisor [OF N, of k]] by (auto simp: geometry_def)
  have tk: "bytes = int (2 ^ j)" "slot = int k" "retainMark \<noteq> 0" "tk_buffer t = Some (sr_log r ! k)"
    using k t by (auto simp: taskFor_def)
  show ?thesis
    using writeSlot_returns [OF geo lin v pid, of k latencyMark wraps] s kN N tk
    by (auto simp: pb_putRows_def Let_def vget_def simp flip: zmod_int)
qed

theorem insertions_never_blocked_witness:
  "\<exists>b r t b'. exNew = Inr b \<and> streamRun defaultConf exQueue b r \<and> t \<in> set (sr_waiting r) \<and>
     pb_putRows defaultConf 0 (tk_buffer t) (2 ^ 13) 0 0 (-1) 0 [] (sr_buffer r) = Inr b'"
proof (rule exRun)
  fix b r t
  assume r: "exNew = Inr b" "streamRun defaultConf exQueue b r" "sr_waiting r = [t]"
    "pb_results (sr_buffer r) = newPartialFactory defaultConf" "tk_bytes t = Some (2 ^ 13)" "tk_slot t = Some 0" "tk_retainMark t = Some (-1)"
  have "\<exists>b'. pb_putRows defaultConf 0 (tk_buffer t) (2 ^ 13) 0 0 (-1) 0 [] (sr_buffer r) = Inr b'"
    by (rule insertions_never_blocked [OF exLineage _ _ _ r(1) [unfolded exNew_def] r(2)])
      (use r in \<open>auto simp: newPartialFactory_def defaultConf_def Let_def\<close>)
  then obtain b' where "pb_putRows defaultConf 0 (tk_buffer t) (2 ^ 13) 0 0 (-1) 0 [] (sr_buffer r) = Inr b'" by blast
  then show ?thesis using r(1-3) by (intro exI [of _ b] exI [of _ r] exI [of _ t] exI [of _ b'] conjI) simp_all
qed

text \<open>
  C12. No accepted batch is stuck: in every state of a run in which the workers have run all tasks and all writes have
  completed, the dispatcher gets the next batch, as long as there is one that it has not consumed. All
  insertions of a run have a retain mark.
\<close>

theorem batches_not_stuck:
  assumes lin: "\<not> LINEAGE_ON conf" and j: "13 \<le> j" "j \<le> 30" and N: "0 < N"
    and b: "newPersistentBuffer conf i (N * 2 ^ j) tupleSize True (2 ^ j) queryId window old fresh disk store queue bf tf gf pf = Inr b"
    and run: "streamRun conf ops b r"
    and idle: "sr_waiting r = []" "pb_pending (sr_buffer r) = []" and left: "length (sr_consumed r) < length (sr_log r)"
  shows "\<exists>x n b'. tryConsumeNextSlot conf True [] (sr_buffer r) = Inr (Some (x, n), b') \<and>
    memread (qb_buffer (pb_base b')) x n = Inr (sr_log r ! length (sr_consumed r))"
proof -
  obtain P where P: "streamInv N (2 ^ j) (sr_freed r) (length (sr_consumed r)) P [] (sr_log r) (sr_failed r) (sr_buffer r)"
    using streamRun_inv [OF run lin newPersistentBuffer_inv [OF lin j N b]] idle(1) by (auto simp: runInv_def)
  obtain x n b' where c: "tryConsumeNextSlot conf True [] (sr_buffer r) = Inr (Some (x, n), b')"
    using consume_next [OF P idle(2) left] by blast
  then show ?thesis using tryConsume_inv [OF P c] by (auto simp: Let_def)
qed

theorem batches_not_stuck_witness:
  "\<exists>b r x n b'. exNew = Inr b \<and> streamRun defaultConf exQueue b r \<and>
     tryConsumeNextSlot defaultConf True [] (sr_buffer r) = Inr (Some (x, n), b') \<and> memread (qb_buffer (pb_base b')) x n = Inr exBatch"
proof (rule exRun)
  fix b r
  assume r: "exNew = Inr b" "streamRun defaultConf exQueue b r" "sr_waiting r = []" "pb_pending (sr_buffer r) = []"
    "sr_log r = [exBatch]" "sr_consumed r = []"
  obtain x n b' where "tryConsumeNextSlot defaultConf True [] (sr_buffer r) = Inr (Some (x, n), b')"
    "memread (qb_buffer (pb_base b')) x n = Inr exBatch"
    using batches_not_stuck [OF exLineage _ _ _ r(1) [unfolded exNew_def] r(2-4)] r(5,6) by auto
  then show ?thesis using r(1,2) by (intro exI [of _ b] exI [of _ r] exI [of _ x] exI [of _ n] exI [of _ b'] conjI)
qed

section \<open>Failed writes and insertions without a retain mark\<close>

text \<open>A write that failed marks its slot as written, like one that succeeded, although the file is unchanged.\<close>

lemma failed_write_acknowledged:
  assumes "completeWrite conf (n, False) b = Inr b'" and "n < length (pb_pending b)"
  shows "pb_disk b' = pb_disk b \<and> sl_slot (pb_slots b' ! nat (aw_slot (pb_pending b ! n))) = 1"
  using assms by (auto simp: completeWrite_def Let_def updateSlot_Inr mapBase_def)

definition flags :: "'q PersistentBuffer \<Rightarrow> bool list \<times> int \<times> int" where
  "flags b = (map sl_memcpyFinished (pb_slots b), pb_readerSlot b, qb_numberOfSlots (pb_base b))"

lemma acknowledgeSlot_flags: "acknowledgeSlot b = Inr b' \<Longrightarrow> flags b' = flags b"
  by (auto simp: acknowledgeSlot_def Let_def updateSlot_Inr mapBase_def flags_def map_update list_update_same_conv split: if_splits)

lemma tryToAcknowledge_flags: "tryToAcknowledge conf css b = Inr b' \<Longrightarrow> css = [] \<Longrightarrow> flags b' = flags b"
proof (induction conf css b rule: tryToAcknowledge.induct)
  case (1 conf css b)
  obtain s where s: "vget (pb_slots b) (pb_nextPersistentSlot b) = Inr s"
    using "1.prems" by (cases "vget (pb_slots b) (pb_nextPersistentSlot b)") (auto simp: tryToAcknowledge.simps [of conf "[]" b])
  show ?case
  proof (cases "sl_slot s = 1")
    case False
    then show ?thesis using "1.prems" s by (simp add: tryToAcknowledge.simps [of conf "[]" b])
  next
    case True
    then obtain b1 where b1: "acknowledgeSlot b = Inr b1" "tryToAcknowledge conf [] b1 = Inr b'"
      using "1.prems" s by (cases "acknowledgeSlot b") (auto simp: tryToAcknowledge.simps [of conf "[]" b])
    have "flags b' = flags b1" using "1.IH" [of b s b1] s b1 True "1.prems" by simp
    then show ?thesis using acknowledgeSlot_flags [OF b1(1)] by simp
  qed
qed

text \<open>
  An insertion without a retain mark copies nothing and does not mark its slot as copied. The slot is
  acknowledged, but the dispatcher never gets it, and with it none of the later ones.
\<close>

lemma unretained_never_consumed:
  assumes r: "0 \<le> pb_readerSlot b" "pb_readerSlot b < int (length (pb_slots b))"
    and s: "\<not> sl_memcpyFinished (pb_slots b ! nat (pb_readerSlot b))"
    and p: "putNothing conf (pb_readerSlot b) [] b = Inr b1" and c: "tryConsumeNextSlot conf recover [] b1 = Inr (x, b2)"
  shows "x = None"
proof -
  have f1: "flags b1 = flags b"
    using p by (auto simp: putNothing_def updateSlot_Inr mapBase_def flags_def map_update list_update_same_conv split: if_splits)
  obtain b3 where b3: "(if recover then progress conf [] b1 else Inr b1) = Inr b3"
    and rest: "rbind (isSlotReady (pb_readerSlot b3) b3) (\<lambda>ready. if \<not> ready then Inr (None, b3)
       else rbind (updateSlot (pb_readerSlot b3) (\<lambda>s. s\<lparr>sl_slot := 3\<rparr>) b3) (\<lambda>b.
         Inr (Some (pb_readerSlot b3 * qb_batchSize (pb_base b3), qb_batchSize (pb_base b3)),
              b\<lparr>pb_readerSlot := (if pb_readerSlot b3 + 1 = qb_numberOfSlots (pb_base b3) then 0 else pb_readerSlot b3 + 1)\<rparr>))) =
      Inr (x, b2)"
    using c by (auto simp: tryConsumeNextSlot_def Let_def)
  have "flags b3 = flags b"
    using b3 f1 tryToAcknowledge_flags [of conf "[]" b1 b3] by (auto simp: progress_def split: if_splits)
  then have f: "map sl_memcpyFinished (pb_slots b3) = map sl_memcpyFinished (pb_slots b)" "pb_readerSlot b3 = pb_readerSlot b"
    by (auto simp: flags_def)
  then have len: "length (pb_slots b3) = length (pb_slots b)" using map_eq_imp_length_eq by blast
  have "map sl_memcpyFinished (pb_slots b3) ! nat (pb_readerSlot b) = map sl_memcpyFinished (pb_slots b) ! nat (pb_readerSlot b)"
    using f by simp
  then have "\<not> sl_memcpyFinished (pb_slots b3 ! nat (pb_readerSlot b))" using r s len by (simp add: nat_less_iff)
  then show ?thesis using rest f r len by (auto simp: isSlotReady_def vget_def split: if_splits)
qed

end
