(* ===== verification/Checkpointing.thy ===== *)
theory Checkpointing
  imports ResultHandler PersistentBuffer Expressions
begin

text \<open>
  The checkpoint coordinator (\<open>checkpoint/FileBackedCheckpointCoordinator.cpp\<close>, \<open>checkpoint/Checkpoint.h\<close>,
  \<open>checkpoint/Recovery.h\<close>) for queries without window fragments whose input buffers are persistent, without
  compression. The coordinator marks the results that wait in the slots of a result handler (state 5); workers take
  the marked slots, copy them into staging buffers and start asynchronous writes; the callback of a
  write gives the slot back its state and counts it. When all queries have completed, the pointers of the checkpoint are
  stored as text in persistent memory and the checkpoint is valid.

  A loop that waits for another thread is passed when its condition holds, and is \<open>Blocked\<close> otherwise. Which
  writes complete, and whether they succeed, is an argument. Staging buffers come from the pools of the workers. The identifier
  of a query is its position.
\<close>

section \<open>Checkpoints and recoveries\<close>

datatype CheckpointState = COMPLETED | PENDING

record Checkpoint =
  cp_checkpointId :: int
  cp_pipelineId :: int
  cp_triggerTimestamp :: int
  cp_numberOfSlots :: int
  cp_inputQueueSlots :: int
  cp_counter :: int
  cp_workers :: int
  cp_lastTaskId :: int
  cp_state :: CheckpointState
  cp_checkpointSize :: int
  cp_checkpointDuration :: int

definition newCheckpoint :: "SystemConf \<Rightarrow> Checkpoint" where
  "newCheckpoint conf = \<lparr>cp_checkpointId = -1, cp_pipelineId = 0, cp_triggerTimestamp = -1, cp_numberOfSlots = -1,
     cp_inputQueueSlots = 0, cp_counter = 0, cp_workers = WORKER_THREADS conf, cp_lastTaskId = -1, cp_state = PENDING,
     cp_checkpointSize = 0, cp_checkpointDuration = 0\<rparr>"

text \<open>The counter of the completed checkpoints is shared by all queries.\<close>

definition cp_setComplete :: "Checkpoint \<times> int \<Rightarrow> Checkpoint \<times> int" where
  "cp_setComplete = (\<lambda>(c, n). if cp_state c \<noteq> COMPLETED then (c\<lparr>cp_state := COMPLETED\<rparr>, n + 1) else (c, n))"

definition cp_updateCounter :: "int \<Rightarrow> Checkpoint \<times> int \<Rightarrow> (Checkpoint \<times> int) res" where
  "cp_updateCounter bytes = (\<lambda>(c, n).
     let c = c\<lparr>cp_counter := cp_counter c + 1, cp_checkpointSize := cp_checkpointSize c + bytes\<rparr> in
     if cp_counter c = cp_numberOfSlots c
     then let r = cp_setComplete (c, n) in if cp_counter (fst r) > cp_numberOfSlots (fst r) then Inl RuntimeError else Inr r
     else Inr (c, n))"

definition cp_trySetComplete :: "Checkpoint \<times> int \<Rightarrow> Checkpoint \<times> int" where
  "cp_trySetComplete r = (if cp_counter (fst r) = cp_numberOfSlots (fst r) then cp_setComplete r else r)"

definition cp_increaseSlots :: "int \<Rightarrow> int \<Rightarrow> Checkpoint \<Rightarrow> Checkpoint" where
  "cp_increaseSlots k inputs c =
     c\<lparr>cp_numberOfSlots := cp_numberOfSlots c + k, cp_inputQueueSlots := cp_inputQueueSlots c + inputs\<rparr>"

definition cp_setCheckpointId :: "int \<Rightarrow> int \<Rightarrow> Checkpoint \<Rightarrow> Checkpoint" where
  "cp_setCheckpointId i pipeline c = c\<lparr>cp_checkpointId := i, cp_pipelineId := pipeline\<rparr>"

definition resetCheckpoint :: "SystemConf \<Rightarrow> Checkpoint \<Rightarrow> Checkpoint" where
  "resetCheckpoint conf c = c\<lparr>cp_checkpointId := -1, cp_triggerTimestamp := -1, cp_numberOfSlots := 0, cp_inputQueueSlots := 0,
     cp_counter := 0, cp_workers := WORKER_THREADS conf, cp_lastTaskId := -1, cp_state := PENDING, cp_checkpointSize := 0,
     cp_checkpointDuration := 0\<rparr>"

datatype RecoveryState = FINISHED | AWAITING

record Recovery =
  rv_pipelineId :: int
  rv_numberOfSlots :: int
  rv_inputQueueSlots :: int
  rv_counter :: int
  rv_state :: RecoveryState
  rv_recoverySize :: int

definition newRecovery :: Recovery where
  "newRecovery = \<lparr>rv_pipelineId = 0, rv_numberOfSlots = 0, rv_inputQueueSlots = 0, rv_counter = 0, rv_state = AWAITING, rv_recoverySize = 0\<rparr>"

definition rv_setComplete :: "Recovery \<times> int \<Rightarrow> Recovery \<times> int" where
  "rv_setComplete = (\<lambda>(r, n). if rv_state r \<noteq> FINISHED then (r\<lparr>rv_state := FINISHED\<rparr>, n + 1) else (r, n))"

definition rv_updateCounter :: "int \<Rightarrow> Recovery \<times> int \<Rightarrow> (Recovery \<times> int) res" where
  "rv_updateCounter bytes = (\<lambda>(r, n).
     let r = r\<lparr>rv_counter := rv_counter r + 1, rv_recoverySize := rv_recoverySize r + bytes\<rparr> in
     if rv_counter r = rv_numberOfSlots r
     then let x = rv_setComplete (r, n) in if rv_counter (fst x) > rv_numberOfSlots (fst x) then Inl RuntimeError else Inr x
     else Inr (r, n))"

definition rv_increaseSlots :: "int \<Rightarrow> int \<Rightarrow> Recovery \<Rightarrow> Recovery" where
  "rv_increaseSlots k inputs r =
     r\<lparr>rv_numberOfSlots := rv_numberOfSlots r + k, rv_inputQueueSlots := rv_inputQueueSlots r + inputs\<rparr>"

section \<open>The order of the queries\<close>

definition unvisited :: "bool list \<Rightarrow> nat" where
  "unvisited visited = length (filter Not visited)"

lemma unvisited_update: "q < length v \<Longrightarrow> \<not> v ! q \<Longrightarrow> unvisited (v[q := True]) < unvisited v"
  unfolding unvisited_def by (rule count_update) simp_all

text \<open>
  \<open>topologicalSort\<close> on a list of queries, with the stack as a list from its top: the test and the call for each, and in
  the call the upstream queries before the query itself is pushed. \<open>ups ! q\<close> are the upstream queries of \<open>q\<close>.
\<close>

function topologicalSort :: "nat list list \<Rightarrow> nat list \<Rightarrow> bool list \<Rightarrow> nat list \<Rightarrow> bool list \<times> nat list" where
  "topologicalSort ups [] visited stack = (visited, stack)"
| "topologicalSort ups (q # qs) visited stack =
     (if \<not> q < length visited \<or> visited ! q then topologicalSort ups qs visited stack
      else case topologicalSort ups (ups ! q) (visited[q := True]) stack of
        (visited, stack) \<Rightarrow> topologicalSort ups qs visited (q # stack))"
  by pat_completeness auto

termination
  apply (relation "measures [\<lambda>(ups, qs, visited, stack). unvisited visited, \<lambda>(ups, qs, visited, stack). length qs]")
     apply (simp_all add: unvisited_update)
  subgoal premises prems for ups q visited stack v s
  proof -
    have visits: "topologicalSort_dom (ups, qs, visited, stack) \<Longrightarrow> unvisited (fst (topologicalSort ups qs visited stack)) \<le> unvisited visited"
      for ups qs visited stack
    proof (induction rule: topologicalSort.pinduct)
      case (2 ups q qs visited stack)
      show ?case
      proof (cases "\<not> q < length visited \<or> visited ! q")
        case True
        then show ?thesis using 2 by (simp add: topologicalSort.psimps)
      next
        case False
        obtain v s where r: "topologicalSort ups (ups ! q) (visited[q := True]) stack = (v, s)" by fastforce
        have "unvisited (fst (topologicalSort ups qs v (q # s))) \<le> unvisited v" using "2.IH"(3) False r by simp
        moreover have "unvisited v \<le> unvisited (visited[q := True])" using "2.IH"(2) False r by simp
        ultimately show ?thesis using 2(1) False r unvisited_update [of q visited] by (simp add: topologicalSort.psimps)
      qed
    qed (simp add: topologicalSort.psimps)
    show ?thesis
      using visits [of ups "ups ! q" "visited[q := True]" stack] unvisited_update [of q visited] prems
      by (auto dest!: sym [of "(v, s)"])
  qed
  done

text \<open>The stack is emptied from its top and the list reversed.\<close>

definition sortedQueries :: "nat list list \<Rightarrow> nat list" where
  "sortedQueries ups = rev (snd (topologicalSort ups [0..<length ups] (replicate (length ups) False) []))"

section \<open>The coordinator\<close>

text \<open>A write that is under way: its slot, the state the slot had, the file, and the staging buffer with its bytes.\<close>

record CheckpointWrite =
  cw_query :: nat
  cw_slot :: int
  cw_previous :: int
  cw_file :: string
  cw_offset :: int
  cw_data :: "byte list"
  cw_buffer :: UnboundedQueryBuffer

text \<open>
  \<open>cc_ready\<close>, \<open>cc_readyInput1\<close> and \<open>cc_readyInput2\<close> are the queues \<open>m_readySlots[q][0]\<close> to \<open>m_readySlots[q][2]\<close>; \<open>cc_version\<close>, \<open>cc_metadata\<close> and \<open>cc_valid\<close> are in persistent memory.
\<close>

record 'w CheckpointCoordinator =
  cc_jobId :: int
  cc_path :: string
  cc_checkpointId :: int
  cc_checkpointCounter :: int
  cc_recoveryCounter :: int
  cc_ups :: "nat list list"
  cc_marked :: "bool list"
  cc_checkpoints :: "Checkpoint list list"
  cc_recoveries :: "Recovery list"
  cc_lastTaskId :: "int list"
  cc_ptrs :: "int list list"
  cc_handlers :: "'w ResultHandler list"
  cc_ready :: "int list list"
  cc_readyInput1 :: "int list list"
  cc_readyInput2 :: "int list list"
  cc_hasConcurrentCheckpoint :: bool
  cc_expectedBytes :: int
  cc_measuredBytes :: int
  cc_version :: int
  cc_metadata :: string
  cc_valid :: bool
  cc_disk :: "string \<Rightarrow> byte list"
  cc_pending :: "CheckpointWrite list"
  cc_unbounded :: UnboundedFactory

definition checkpointFile :: "'w CheckpointCoordinator \<Rightarrow> nat \<Rightarrow> int \<Rightarrow> string" where
  "checkpointFile c q version =
     cc_path c @ ''checkpoint_'' @ to_string (cc_jobId c) @ ''_'' @ to_string (int q) @ ''_v'' @ to_string version"

text \<open>The index of the file of the checkpoint of an input buffer, as the constructor assigns it and as \<open>checkpointBuffer\<close> uses it.\<close>

definition bufferFileCreated :: "int \<Rightarrow> int \<Rightarrow> int" where
  "bufferFileCreated bId checkpoint = (if bId = 0 then checkpoint + 2 else checkpoint + 4)"

definition bufferFileUsed :: "int \<Rightarrow> int \<Rightarrow> int" where
  "bufferFileUsed bId checkpointVersion = checkpointVersion + 2 + bId"

definition version :: "'w CheckpointCoordinator \<Rightarrow> int" where
  "version c = cc_checkpointId c mod 2"

definition setPtrs :: "nat \<Rightarrow> (nat \<times> int) list \<Rightarrow> 'w CheckpointCoordinator \<Rightarrow> 'w CheckpointCoordinator" where
  "setPtrs q vs c = c\<lparr>cc_ptrs := (cc_ptrs c)[q := fold (\<lambda>(i, v) p. p[i := to_int32 v]) vs (cc_ptrs c ! q)]\<rparr>"

definition setCheckpoint :: "nat \<Rightarrow> Checkpoint \<Rightarrow> 'w CheckpointCoordinator \<Rightarrow> 'w CheckpointCoordinator" where
  "setCheckpoint q cp c = c\<lparr>cc_checkpoints := (cc_checkpoints c)[q := (cc_checkpoints c ! q)[nat (version c) := cp]]\<rparr>"

abbreviation checkpointOf :: "'w CheckpointCoordinator \<Rightarrow> nat \<Rightarrow> Checkpoint" where
  "checkpointOf c q \<equiv> cc_checkpoints c ! q ! nat (version c)"

definition setHandler :: "nat \<Rightarrow> 'w ResultHandler \<Rightarrow> 'w CheckpointCoordinator \<Rightarrow> 'w CheckpointCoordinator" where
  "setHandler q h c = c\<lparr>cc_handlers := (cc_handlers c)[q := h]\<rparr>"

definition cc_roundOffset :: "int \<Rightarrow> int" where
  "cc_roundOffset offset =
     (if offset < 8 * 1024 \<and> offset \<noteq> 0 then 8 * 1024
      else if offset smod 512 \<noteq> 0 then (offset sdiv 512 + 1) * 512 else offset)"

section \<open>Preparation\<close>

text \<open>
  The number of slots to store: the tasks since the one before the first slot. The loop that waits while it exceeds
  the number of slots reads nothing that another thread changes.
\<close>

definition slotsToStore :: "int \<Rightarrow> int \<Rightarrow> int \<Rightarrow> int res" where
  "slotsToStore prevTaskId lastTaskId numOfSlots =
     (if prevTaskId \<ge> lastTaskId then Inr 0
      else let cnt = lastTaskId - (if prevTaskId < 0 then 0 else prevTaskId) in
        if cnt > numOfSlots then Inl Blocked else Inr cnt)"

text \<open>
  The marking of one slot. A slot without output is skipped. \<open>idxs\<close> are the slots marked so far.
\<close>

definition markSlot :: "nat \<Rightarrow> int \<Rightarrow> int list \<times> 'w CheckpointCoordinator \<Rightarrow> (int list \<times> 'w CheckpointCoordinator) res" where
  "markSlot q idx = (\<lambda>(idxs, c).
     let h = cc_handlers c ! q in
     rbind (vget (slots h) idx) (\<lambda>s.
       if rs_slot s \<noteq> 1 then Inl Blocked
       else case rs_result s of
         None \<Rightarrow> Inl Undefined
       | Some p \<Rightarrow>
           if pw_position p > 0 then
             rbind (rs_setPreviousSlot (rs_slot s) s) (\<lambda>s.
             case rs_getNumberOfResults s of (k, s) \<Rightarrow>
             rbind (vset (slots h) idx (s\<lparr>rs_slot := 5\<rparr>)) (\<lambda>ss.
               let c = setHandler q (h\<lparr>rh_resultsWithoutFrags := ss\<rparr>) (setCheckpoint q (cp_increaseSlots k 0 (checkpointOf c q)) c);
                   c = c\<lparr>cc_expectedBytes := cc_expectedBytes c + pw_position p, cc_ready := (cc_ready c)[q := cc_ready c ! q @ [idx]]\<rparr> in
               if idx \<in> set idxs then Inl RuntimeError else Inr (idxs @ [idx], c)))
           else Inr (idxs, c)))"

fun markSlots :: "nat \<Rightarrow> nat \<Rightarrow> int \<Rightarrow> int list \<times> 'w CheckpointCoordinator \<Rightarrow> (int \<times> int list \<times> 'w CheckpointCoordinator) res" where
  "markSlots q 0 idx s = Inr (idx, s)"
| "markSlots q (Suc cnt) idx s =
     rbind (markSlot q idx s) (\<lambda>s.
       markSlots q cnt (if idx + 1 = rh_numberOfSlots (cc_handlers (snd s) ! q) then 0 else idx + 1) s)"

text \<open>The pointers of the checkpoint after the marking; \<open>idx\<close> is the slot behind the last one.\<close>

definition storePtrs :: "SystemConf \<Rightarrow> nat \<Rightarrow> int \<Rightarrow> 'w CheckpointCoordinator \<Rightarrow> 'w CheckpointCoordinator res" where
  "storePtrs conf q idx c =
     (let h = cc_handlers c ! q; n = rh_numberOfSlots h; idx = (if idx - 1 = -1 then n - 1 else idx - 1) in
      rbind (vget (slots h) idx) (\<lambda>s.
        let c = setPtrs q [(1, idx), (2, rs_freePointer1 s), (3, rs_freePointer2 s)] c;
            c = (if LINEAGE_ON conf then setPtrs q [(10, rs_freeOffset1 s), (11, rs_freeOffset2 s)] c else c);
            a = cc_ptrs c ! q ! 0; e = cc_ptrs c ! q ! 1 in
        if a < 0 \<or> a \<ge> n \<or> e < 0 \<or> e \<ge> n then Inl RuntimeError else Inr c))"

text \<open>
  The preparation of one query. The first slot must be free or filled. When no task has finished since the
  last checkpoint, nothing is stored.
\<close>

definition prepareQuery :: "SystemConf \<Rightarrow> nat \<Rightarrow> 'w CheckpointCoordinator \<Rightarrow> 'w CheckpointCoordinator res" where
  "prepareQuery conf q c =
     (let c = setCheckpoint q (cp_setCheckpointId (cc_checkpointId c) (int q) (resetCheckpoint conf (checkpointOf c q))) c;
          c = setPtrs q [(0, -1), (1, -1), (10, INT_MIN), (11, INT_MIN)] c;
          h = cc_handlers c ! q; idx = rh_nextToForward h; n = rh_numberOfSlots h in
      if \<not> cc_marked c ! q then Inr c
      else if cc_lastTaskId c ! q = rh_maxTaskId h then Inr c
      else
        let c = setPtrs q [(0, idx), (1, idx)] c in
        rbind (vget (slots h) idx) (\<lambda>s.
          if rs_slot s = 5 then Inl RuntimeError
          else if rs_slot s \<noteq> -1 \<and> rs_slot s \<noteq> 1 then Inl Blocked
          else
            let c = c\<lparr>cc_lastTaskId := (cc_lastTaskId c)[q := rh_maxTaskId h]\<rparr> in
            rbind (vget (slots h) (if idx - 1 < 0 then n - 1 else idx - 1)) (\<lambda>prev.
            rbind (slotsToStore (rs_taskId prev) (rh_maxTaskId h) n) (\<lambda>cnt.
              if cnt < 0 \<or> cnt > n then Inl RuntimeError
              else
                let c = setPtrs q [(8, rs_taskId s), (9, rh_maxTaskId h)] c in
                if cnt > 0 then
                  rbind (markSlots q (nat cnt) idx ([], c)) (\<lambda>(idx, _, c). storePtrs conf q idx c)
                else Inr c))))"

text \<open>A query with nothing to store is complete at once; for the others the tasks of the workers are created.\<close>

definition startQuery :: "nat \<Rightarrow> 'w CheckpointCoordinator \<Rightarrow> 'w CheckpointCoordinator" where
  "startQuery q c =
     (if cp_numberOfSlots (checkpointOf c q) = 0 then
        (case cp_setComplete (checkpointOf c q, cc_checkpointCounter c) of
           (cp, n) \<Rightarrow> (setCheckpoint q cp c)\<lparr>cc_checkpointCounter := n\<rparr>)
      else c)"

definition cc_prepareCheckpoint :: "SystemConf \<Rightarrow> 'w CheckpointCoordinator \<Rightarrow> 'w CheckpointCoordinator res" where
  "cc_prepareCheckpoint conf c =
     rbind (rfold (prepareQuery conf) (sortedQueries (cc_ups c)) c) (\<lambda>c. Inr (fold startQuery (sortedQueries (cc_ups c)) c))"

section \<open>Storing the slots\<close>

definition textBytes :: "string \<Rightarrow> byte list" where
  "textBytes s = map (\<lambda>ch. word_of_nat (of_char ch)) s"

definition slotMetadata :: "ResultSlot \<Rightarrow> int \<Rightarrow> string" where
  "slotMetadata s offset =
     concat (map (\<lambda>v. to_string v @ '' '') [rs_freePointer1 s, rs_freePointer2 s, rs_prevFreePointer1 s, rs_prevFreePointer2 s,
       rs_latencyMark s, rs_taskId s, offset])"

definition checkBlockSize :: "int \<Rightarrow> int \<Rightarrow> unit res" where
  "checkBlockSize bytes capacity = guard_res (bytes \<le> capacity) RuntimeError"

text \<open>The content of the staging buffer: the text at its start and the output behind the first 512 bytes.\<close>

definition slotImage :: "ResultSlot \<Rightarrow> byte list \<Rightarrow> (int \<times> byte list) res" where
  "slotImage s buffer =
     (case rs_result s of
        None \<Rightarrow> Inl Undefined
      | Some p \<Rightarrow>
          let offset = pw_position p; metadata = slotMetadata s offset; capacity = int (length buffer) in
          rbind (checkBlockSize (offset + 512) capacity) (\<lambda>_.
          rbind (memread (pw_buffer p) 0 offset) (\<lambda>out.
          rbind (memcpy_to buffer 512 out) (\<lambda>buffer.
            if int (length metadata) > 512 then Inl RuntimeError
            else rbind (memcpy_to buffer 0 (textBytes metadata)) (\<lambda>buffer.
              let copyIdx = cc_roundOffset (getPowerOfTwo (offset + 512)) in
              rbind (checkBlockSize copyIdx capacity) (\<lambda>_. Inr (copyIdx, buffer)))))))"

text \<open>The body of the loop of a worker: the next marked slot is copied and its write started.\<close>

definition storeSlot :: "SystemConf \<Rightarrow> int \<Rightarrow> nat \<Rightarrow> 'w CheckpointCoordinator \<Rightarrow> 'w CheckpointCoordinator res" where
  "storeSlot conf pid q c =
     (case cc_ready c ! q of
        [] \<Rightarrow> Inr c
      | idx # rest \<Rightarrow>
          let c = c\<lparr>cc_ready := (cc_ready c)[q := rest]\<rparr> in
          rbind (vget (slots (cc_handlers c ! q)) idx) (\<lambda>s.
            if rs_slot s \<noteq> 5 then Inl RuntimeError
            else
              rbind (uf_newInstancePid conf pid (cc_unbounded c)) (\<lambda>(buffer, uf).
              rbind (slotImage s (ub_buffer buffer)) (\<lambda>(copyIdx, bs).
              rbind (rs_getPreviousSlot s) (\<lambda>prev.
                Inr (c\<lparr>cc_unbounded := uf, cc_measuredBytes := cc_measuredBytes c + copyIdx,
                       cc_pending := cc_pending c @ [\<lparr>cw_query = q, cw_slot = idx, cw_previous = prev,
                         cw_file = checkpointFile c q (version c), cw_offset = rs_index s * BLOCK_SIZE conf,
                         cw_data = take (nat copyIdx) bs, cw_buffer = buffer\<lparr>ub_buffer := bs\<rparr>\<rparr>]\<rparr>))))))"

text \<open>A completed write and its callback. A failed write is only reported; it is taken to leave the file as it was.\<close>

definition restoreSlot :: "int \<Rightarrow> ResultSlot \<Rightarrow> ResultSlot res" where
  "restoreSlot prev s =
     (let s = s\<lparr>rs_numberOfResults := rs_numberOfResults s - 1\<rparr> in
      if rs_numberOfResults s \<noteq> 0 then Inr s
      else if rs_slot s \<noteq> 5 then Inl RuntimeError
      else if prev \<noteq> 1 then Inl RuntimeError
      else Inr (s\<lparr>rs_slot := prev\<rparr>))"

definition completeSlot :: "nat \<times> bool \<Rightarrow> 'w CheckpointCoordinator \<Rightarrow> 'w CheckpointCoordinator res" where
  "completeSlot = (\<lambda>(n, ok) c.
     if \<not> n < length (cc_pending c) then Inr c
     else
       let w = cc_pending c ! n; q = cw_query w; h = cc_handlers c ! q;
           c = c\<lparr>cc_pending := take n (cc_pending c) @ drop (Suc n) (cc_pending c)\<rparr>;
           c = (if ok then c\<lparr>cc_disk := (cc_disk c)(cw_file w := fileWrite (cw_offset w) (cw_data w) (cc_disk c (cw_file w)))\<rparr> else c) in
       rbind (vget (slots h) (cw_slot w)) (\<lambda>s.
       rbind (restoreSlot (cw_previous w) s) (\<lambda>s.
       rbind (vset (slots h) (cw_slot w) s) (\<lambda>ss.
       rbind (uf_freePid (ub_id (cw_buffer w)) (cw_buffer w) (cc_unbounded c)) (\<lambda>uf.
       rbind (cp_updateCounter (if ok then int (length (cw_data w)) else 0) (checkpointOf c q, cc_checkpointCounter c)) (\<lambda>(cp, k).
         Inr ((setCheckpoint q cp (setHandler q (h\<lparr>rh_resultsWithoutFrags := ss\<rparr>) c))\<lparr>cc_unbounded := uf, cc_checkpointCounter := k\<rparr>)))))))"

section \<open>Finishing a checkpoint\<close>

text \<open>The indices of a ring of \<open>n\<close> slots from \<open>s\<close> up to, and without, \<open>e\<close>.\<close>

definition ringRange :: "int \<Rightarrow> int \<Rightarrow> int \<Rightarrow> int list" where
  "ringRange n s e = map (\<lambda>i. (s + int i) mod n) [0..<nat ((e - s) mod n)]"

text \<open>No slot of the checkpoint may still be marked; the last slot is not looked at.\<close>

definition validateQuery :: "nat \<Rightarrow> 'w CheckpointCoordinator \<Rightarrow> 'w CheckpointCoordinator res" where
  "validateQuery q c =
     (let h = cc_handlers c ! q; p = cc_ptrs c ! q in
      rfold (\<lambda>idx c. rbind (vget (slots h) idx) (\<lambda>s.
          if rs_slot s \<noteq> 5 then Inr c else if rs_previousSlot s = 5 then Inl RuntimeError else Inl Blocked))
        (ringRange (rh_numberOfSlots h) (p ! 0) (p ! 1)) c)"

definition queryMetadata :: "nat \<Rightarrow> int list \<Rightarrow> string" where
  "queryMetadata q p =
     '' q '' @ to_string (int q) @ concat (map (\<lambda>i. '' '' @ to_string (p ! i)) [4, 5, 6, 7, 0, 1, 8, 9])"

definition checkpointMetadata :: "int list list \<Rightarrow> string" where
  "checkpointMetadata ptrs = concat (map (\<lambda>q. queryMetadata q (ptrs ! q)) [0..<length ptrs])"

text \<open>
  The blocks of the persistent inputs that are released: the query is the one at a position of the sorted list, the
  offset that of the query with this number. A call is given by the query, the buffer and the offset.
\<close>

definition releaseInputs :: "nat list \<Rightarrow> (nat \<Rightarrow> bool) \<Rightarrow> (nat \<Rightarrow> bool) \<Rightarrow> int list list \<Rightarrow> (nat \<times> int \<times> int) list" where
  "releaseInputs order persistent1 persistent2 ptrs =
     concat (map (\<lambda>i. let q = order ! i; fo1 = ptrs ! i ! 10; fo2 = ptrs ! i ! 11 in
         (if persistent1 q \<and> fo1 \<noteq> INT_MIN then [(q, 0, fo1)] else []) @ (if persistent2 q \<and> fo2 \<noteq> INT_MIN then [(q, 1, fo2)] else []))
       [0..<length ptrs])"

text \<open>
  The end of a round, when all queries have completed. The merge tasks, the flags of the dispatchers, the statistics and
  the deletion of the files at the end of an experiment are left out.
\<close>

definition finishCheckpoint ::
  "SystemConf \<Rightarrow> (nat \<Rightarrow> bool) \<Rightarrow> (nat \<Rightarrow> bool) \<Rightarrow> 'w CheckpointCoordinator \<Rightarrow> ((nat \<times> int \<times> int) list \<times> 'w CheckpointCoordinator) res" where
  "finishCheckpoint conf persistent1 persistent2 c =
     (if cc_checkpointCounter c \<noteq> int (length (cc_handlers c)) then Inl Blocked
      else rbind (rfold validateQuery [0..<length (cc_handlers c)] c) (\<lambda>c.
        Inr (if LINEAGE_ON conf then releaseInputs (sortedQueries (cc_ups c)) persistent1 persistent2 (cc_ptrs c) else [],
             c\<lparr>cc_metadata := checkpointMetadata (cc_ptrs c), cc_version := cc_checkpointId c, cc_valid := True,
               cc_hasConcurrentCheckpoint := False, cc_checkpointCounter := 0, cc_expectedBytes := 0, cc_measuredBytes := 0,
               cc_checkpointId := cc_checkpointId c + 1\<rparr>)))"

text \<open>
  A checkpoint is invalid when a result has left the system that frees more of every input than the
  checkpoint; the graph of the result is given by its two offsets for each query. The call waits while a checkpoint is under way.
\<close>

definition tryToPurgeCheckpoint :: "SystemConf \<Rightarrow> (nat \<Rightarrow> bool) \<Rightarrow> (int \<times> int) list option \<Rightarrow> 'w CheckpointCoordinator \<Rightarrow> 'w CheckpointCoordinator res" where
  "tryToPurgeCheckpoint conf secondSchema graph c =
     (case graph of
        None \<Rightarrow> Inr c
      | Some g \<Rightarrow>
          if \<not> LINEAGE_ON conf \<or> \<not> cc_valid c then Inr c
          else if cc_hasConcurrentCheckpoint c then Inl Blocked
          else if \<exists>q \<in> set [0..<length (cc_handlers c)]. fst (g ! q) < cc_ptrs c ! q ! 10 \<or> secondSchema q \<and> snd (g ! q) < cc_ptrs c ! q ! 11
          then Inr c else Inr (c\<lparr>cc_valid := False\<rparr>))"

section \<open>Recovery\<close>

text \<open>The words of a text, as an input stream reads them.\<close>

definition blank :: "char \<Rightarrow> bool" where
  "blank ch \<longleftrightarrow> ch = CHR '' '' \<or> (9 \<le> (of_char ch :: nat) \<and> (of_char ch :: nat) \<le> 13)"

fun textWords :: "string \<Rightarrow> string \<Rightarrow> string list" where
  "textWords [] w = (if w = [] then [] else [rev w])"
| "textWords (ch # s) w = (if blank ch then (if w = [] then textWords s [] else rev w # textWords s []) else textWords s (ch # w))"

text \<open>\<open>std::stoi\<close> on a word.\<close>

definition stoi :: "string \<Rightarrow> int res" where
  "stoi s =
     (let (neg, r) = (case s of [] \<Rightarrow> (False, []) | ch # r \<Rightarrow> if ch = CHR ''-'' then (True, r) else if ch = CHR ''+'' then (False, r) else (False, s));
          ds = takeWhile digit r; v = (if neg then - int (number_of ds) else int (number_of ds)) in
      if ds = [] then Inl InvalidArgument else if v < INT_MIN \<or> v > INT_MAX then Inl OutOfRange else Inr v)"

text \<open>The ten words of a query and the pointers they set.\<close>

fun parseEntry :: "string list \<Rightarrow> int list list \<Rightarrow> (nat \<times> int list list) res" where
  "parseEntry [_, w1, w2, w3, w4, w5, w6, w7, w8, w9] ptrs =
     rbind (stoi w1) (\<lambda>q.
     rbind (stoi w6) (\<lambda>v0. rbind (stoi w7) (\<lambda>v1. rbind (stoi w2) (\<lambda>v4. rbind (stoi w3) (\<lambda>v5.
     rbind (stoi w4) (\<lambda>v6. rbind (stoi w5) (\<lambda>v7. rbind (stoi w8) (\<lambda>v8. rbind (stoi w9) (\<lambda>v9.
       if 0 \<le> q \<and> nat q < length ptrs
       then Inr (nat q, ptrs[nat q := fold (\<lambda>(i, v) p. p[i := v])
              [(0, v0), (1, v1), (4, v4), (5, v5), (6, v6), (7, v7), (8, v8), (9, v9)] (ptrs ! nat q)])
       else Inl Undefined)))))))))"
| "parseEntry _ ptrs = Inl Undefined"

fun entries :: "'a list \<Rightarrow> 'a list list" where
  "entries [] = []"
| "entries (x # xs) = take 10 (x # xs) # entries (drop 9 xs)"

text \<open>The pointers as the loop over the entries of the text leaves them.\<close>

definition parseMetadata :: "string \<Rightarrow> int list list \<Rightarrow> int list list res" where
  "parseMetadata metadata ptrs =
     rfold (\<lambda>ws ptrs. rbind (parseEntry ws ptrs) (\<lambda>(_, ptrs). Inr ptrs)) (entries (textWords metadata [])) ptrs"

text \<open>The slots of a ring that are restored, from the first to the last slot of the checkpoint.\<close>

definition restoredSlots :: "int \<Rightarrow> int \<Rightarrow> int \<Rightarrow> int list" where
  "restoredSlots n s e = (if s = -1 \<or> e = -1 then [] else ringRange n s ((e + 1) mod n))"

text \<open>The same for the slots of an input buffer, whose number may be zero.\<close>

definition restoredInput :: "int \<Rightarrow> int \<Rightarrow> int \<Rightarrow> int list res" where
  "restoredInput n s e = (if e \<noteq> -1 \<and> n = 0 then Inl Undefined else Inr (restoredSlots n s e))"

definition pushReady :: "nat \<Rightarrow> int list \<Rightarrow> int list list \<Rightarrow> int list list" where
  "pushReady q idxs ready = ready[q := ready ! q @ idxs]"

text \<open>
  The preparation of the recovery of one query. \<open>inputStart\<close> is the position of the first byte that the persistent input
  still has, if the input is persistent; \<open>inputSlots1\<close> and \<open>inputSlots2\<close> are the numbers of slots of the inputs. The results are the
  bytes by which the start of the input is moved and the task up to which tasks are dropped.
\<close>

definition recoverQuery ::
  "(nat \<Rightarrow> int option) \<Rightarrow> (nat \<Rightarrow> int) \<Rightarrow> (nat \<Rightarrow> int) \<Rightarrow> (nat \<Rightarrow> int) \<Rightarrow> nat \<Rightarrow> 'w CheckpointCoordinator \<Rightarrow>
   ((int \<times> int option) option \<times> 'w CheckpointCoordinator) res" where
  "recoverQuery inputStart batchSize inputSlots1 inputSlots2 q c =
     (let p = cc_ptrs c ! q; h = cc_handlers c ! q; n = rh_numberOfSlots h;
          lastTask = (case inputStart q of None \<Rightarrow> 0 | Some a \<Rightarrow> to_int32 (a div batchSize q) + 1) in
      if lastTask \<le> p ! 9 then
        let p = (if p ! 8 < lastTask then p[8 := lastTask, 0 := (p ! 0 + (lastTask - p ! 8)) smod n] else p);
            moved = (p ! 9 - lastTask + 1) * batchSize q; c = c\<lparr>cc_ptrs := (cc_ptrs c)[q := p]\<rparr> in
        rbind (if p ! 1 \<noteq> -1 then restorePtrs (p ! 8) h else Inr h) (\<lambda>h.
        rbind (restoredInput (inputSlots1 q) (p ! 4) (p ! 5)) (\<lambda>input1.
        rbind (restoredInput (inputSlots2 q) (p ! 6) (p ! 7)) (\<lambda>input2.
          let restored = restoredSlots n (p ! 0) (p ! 1); inputs = int (length input1) + int (length input2);
              c = (setHandler q h c)\<lparr>cc_ready := pushReady q restored (cc_ready c),
                cc_readyInput1 := pushReady q input1 (cc_readyInput1 c), cc_readyInput2 := pushReady q input2 (cc_readyInput2 c)\<rparr>;
              r = rv_increaseSlots (int (length restored) + inputs) inputs (cc_recoveries c ! q);
              (r, k) = (if rv_numberOfSlots r > 0 then (r, cc_recoveryCounter c) else rv_setComplete (r, cc_recoveryCounter c)) in
          Inr (Some (moved, if p ! 1 \<noteq> -1 then Some (p ! 9) else None),
               c\<lparr>cc_recoveries := (cc_recoveries c)[q := r], cc_recoveryCounter := k\<rparr>))))
      else
        let (r, k) = rv_setComplete (cc_recoveries c ! q, cc_recoveryCounter c) in
        Inr (None, c\<lparr>cc_recoveries := (cc_recoveries c)[q := r], cc_recoveryCounter := k\<rparr>))"

text \<open>The loop over the entries of the stored text; the wait for the recovery tasks that follows is left out.\<close>

definition cc_prepareRecovery ::
  "(nat \<Rightarrow> int option) \<Rightarrow> (nat \<Rightarrow> int) \<Rightarrow> (nat \<Rightarrow> int) \<Rightarrow> (nat \<Rightarrow> int) \<Rightarrow> 'w CheckpointCoordinator \<Rightarrow> (bool \<times> 'w CheckpointCoordinator) res" where
  "cc_prepareRecovery inputStart batchSize inputSlots1 inputSlots2 c =
     (let c = c\<lparr>cc_checkpointId := cc_version c\<rparr> in
      if \<not> cc_valid c then Inr (False, c)
      else rbind (rfold (\<lambda>ws c. rbind (parseEntry ws (cc_ptrs c)) (\<lambda>(q, ptrs).
             rbind (recoverQuery inputStart batchSize inputSlots1 inputSlots2 q (c\<lparr>cc_ptrs := ptrs\<rparr>)) (\<lambda>(_, c). Inr c)))
           (entries (textWords (cc_metadata c) [])) c) (\<lambda>c. Inr (True, c)))"

end
