(* ===== verification/CheckpointRuns.thy ===== *)
theory CheckpointRuns
  imports Checkpointing "HOL-Library.Multiset"
begin

text \<open>
  Correctness of checkpoints. In every run of the workers and of the completions of their writes, the counter for
  which the coordinator waits reaches the number of queries exactly when every marked slot has been stored, and then
  the files hold the slots as they were when the checkpoint was prepared, unless a write failed. Besides: the queries
  are prepared upstream first, the stored pointers are read back unchanged, and which slots are restored.
\<close>

section \<open>The order of the queries\<close>

text \<open>A stack in which the upstream queries of every query are below it.\<close>

fun upstreamBelow :: "nat list list \<Rightarrow> nat list \<Rightarrow> bool" where
  "upstreamBelow ups [] = True"
| "upstreamBelow ups (q # s) = (set (ups ! q) \<subseteq> set s \<and> upstreamBelow ups s)"

definition visitedSet :: "bool list \<Rightarrow> nat set" where
  "visitedSet v = {q. q < length v \<and> v ! q}"

lemma visitedSet_update: "q < length v \<Longrightarrow> visitedSet (v[q := True]) = insert q (visitedSet v)"
  by (auto simp: visitedSet_def nth_list_update)

lemma topologicalSort_order:
  assumes "topologicalSort ups qs v s = (v', s')"
    and "length v = length ups" "set qs \<subseteq> {..<length ups}" "\<forall>q < length ups. \<forall>u \<in> set (ups ! q). u < length ups \<and> rank u < (rank q :: nat)"
    and "set s \<subseteq> visitedSet v" "\<forall>x \<in> visitedSet v - set s. \<forall>q \<in> set qs. rank q < rank x"
    and "distinct s" "upstreamBelow ups s"
  shows "length v' = length ups \<and> set s \<subseteq> set s' \<and> set qs \<subseteq> set s' \<and> visitedSet v' - set s' = visitedSet v - set s \<and>
    set s' \<subseteq> visitedSet v' \<and> distinct s' \<and> upstreamBelow ups s'"
  using assms
proof (induction ups qs v s arbitrary: v' s' rule: topologicalSort.induct)
  case (2 ups q qs v s)
  have q: "q < length v" using "2.prems" by simp
  show ?case
  proof (cases "v ! q")
    case True
    then have "q \<in> set s" using "2.prems"(6) q by (auto simp: visitedSet_def)
    moreover have "topologicalSort ups qs v s = (v', s')" using True "2.prems"(1) by simp
    ultimately show ?thesis using "2.IH"(1) [of v' s'] True "2.prems" by auto
  next
    case False
    obtain v1 s1 where r: "topologicalSort ups (ups ! q) (v[q := True]) s = (v1, s1)" by fastforce
    have nq: "q \<notin> set s" using False "2.prems"(5) by (auto simp: visitedSet_def)
    have one: "length v1 = length ups \<and> set s \<subseteq> set s1 \<and> set (ups ! q) \<subseteq> set s1 \<and>
        visitedSet v1 - set s1 = visitedSet (v[q := True]) - set s \<and> set s1 \<subseteq> visitedSet v1 \<and> distinct s1 \<and> upstreamBelow ups s1"
    proof (rule "2.IH"(2) [OF _ r])
      show "\<forall>x \<in> visitedSet (v[q := True]) - set s. \<forall>u \<in> set (ups ! q). rank u < rank x"
      proof (intro ballI)
        fix x u
        assume x: "x \<in> visitedSet (v[q := True]) - set s" and u: "u \<in> set (ups ! q)"
        have "rank u < rank q" using "2.prems"(2,4) q u by simp
        moreover have "x = q \<or> rank q < rank x" using x "2.prems"(6) by (auto simp: visitedSet_update [OF q])
        ultimately show "rank u < rank x" by auto
      qed
    qed (use "2.prems" q False in \<open>auto simp: visitedSet_update [OF q]\<close>)
    have q1: "q \<notin> set s1" "q \<in> visitedSet v1" using one nq by (auto simp: visitedSet_update [OF q])
    have rest: "topologicalSort ups qs v1 (q # s1) = (v', s')" using "2.prems"(1) q False r by simp
    have gray: "visitedSet v1 - set (q # s1) = visitedSet v - set s"
      using one False by (auto simp: visitedSet_update [OF q]) (auto simp: visitedSet_def)
    have two: "length v' = length ups \<and> set (q # s1) \<subseteq> set s' \<and> set qs \<subseteq> set s' \<and> visitedSet v' - set s' = visitedSet v1 - set (q # s1) \<and>
        set s' \<subseteq> visitedSet v' \<and> distinct s' \<and> upstreamBelow ups s'"
      by (rule "2.IH"(3) [OF _ r [symmetric] rest])
        (use "2.prems" q False one q1 gray in auto)
    then show ?thesis using one gray by auto
  qed
qed auto

lemma upstreamBelow_rev:
  "upstreamBelow ups s \<Longrightarrow> i < length s \<Longrightarrow> set (ups ! (rev s ! i)) \<subseteq> set (take i (rev s))"
proof (induction s)
  case (Cons q s)
  then show ?case by (cases "i = length s") (auto simp: nth_append)
qed simp

lemma sortedQueries_order:
  assumes "\<forall>q < length ups. \<forall>u \<in> set (ups ! q). u < length ups \<and> rank u < (rank q :: nat)"
  shows "distinct (sortedQueries ups) \<and> set (sortedQueries ups) = {..<length ups} \<and>
    (\<forall>i < length (sortedQueries ups). set (ups ! (sortedQueries ups ! i)) \<subseteq> set (take i (sortedQueries ups)))"
proof -
  let ?n = "length ups"
  obtain v s where r: "topologicalSort ups [0..<?n] (replicate ?n False) [] = (v, s)" by fastforce
  have v0: "visitedSet (replicate ?n False) = {}" by (auto simp: visitedSet_def)
  have "length v = ?n \<and> set [] \<subseteq> set s \<and> set [0..<?n] \<subseteq> set s \<and> visitedSet v - set s = visitedSet (replicate ?n False) - set [] \<and>
      set s \<subseteq> visitedSet v \<and> distinct s \<and> upstreamBelow ups s"
    by (rule topologicalSort_order [OF r, where rank = rank]) (use assms v0 in auto)
  then have "{..<?n} \<subseteq> set s" "set s \<subseteq> {..<?n}" "distinct s" "upstreamBelow ups s" by (auto simp: visitedSet_def)
  moreover have "sortedQueries ups = rev s" by (simp add: sortedQueries_def r)
  ultimately show ?thesis using upstreamBelow_rev by auto
qed

text \<open>
  C32. The queries are prepared upstream first: if the queries do not feed each other in a cycle, which \<open>rank\<close> witnesses, the
  sorted list has every query once, and all upstream queries of a query are before it.
\<close>

theorem queries_upstream_first:
  assumes "\<forall>q < length ups. \<forall>u \<in> set (ups ! q). u < length ups \<and> rank u < (rank q :: nat)"
  shows "distinct (sortedQueries ups) \<and> set (sortedQueries ups) = {..<length ups} \<and>
    (\<forall>i < length (sortedQueries ups). set (ups ! (sortedQueries ups ! i)) \<subseteq> set (take i (sortedQueries ups)))"
  using assms by (rule sortedQueries_order)

definition exUps :: "nat list list" where
  "exUps = [[1, 2], [3], [3], []]"

theorem queries_upstream_first_witness:
  "sortedQueries exUps = [3, 1, 2, 0] \<and> set (exUps ! 0) \<subseteq> set (take 3 (sortedQueries exUps))"
proof -
  have s: "sortedQueries exUps = [3, 1, 2, 0]" by (simp add: sortedQueries_def exUps_def upt_rec)
  have "\<forall>q < length exUps. \<forall>u \<in> set (exUps ! q). u < length exUps \<and> 3 - u < 3 - q"
    by (auto simp: exUps_def less_Suc_eq nth_Cons')
  then have "\<forall>i < length (sortedQueries exUps). set (exUps ! (sortedQueries exUps ! i)) \<subseteq> set (take i (sortedQueries exUps))"
    using queries_upstream_first [of exUps "\<lambda>q. 3 - q"] by blast
  moreover have "3 < length (sortedQueries exUps)" by (simp add: s)
  ultimately have "set (exUps ! (sortedQueries exUps ! 3)) \<subseteq> set (take 3 (sortedQueries exUps))" by blast
  then show ?thesis by (simp add: s)
qed

section \<open>The stored pointers\<close>

definition plainWord :: "string \<Rightarrow> bool" where
  "plainWord w \<longleftrightarrow> w \<noteq> [] \<and> (\<forall>ch \<in> set w. \<not> blank ch)"

lemma textWords_word: "\<forall>ch \<in> set w. \<not> blank ch \<Longrightarrow> textWords (w @ s) a = textWords s (rev w @ a)"
  by (induction w arbitrary: a) auto

lemma textWords_spaced:
  "\<forall>w \<in> set ws. plainWord w \<Longrightarrow> textWords (concat (map ((#) (CHR '' '')) ws)) a = (if a = [] then [] else [rev a]) @ ws"
proof (induction ws arbitrary: a)
  case (Cons w ws)
  have "textWords (w @ concat (map ((#) (CHR '' '')) ws)) [] = textWords (concat (map ((#) (CHR '' '')) ws)) (rev w)"
    using Cons.prems by (simp add: textWords_word plainWord_def)
  moreover have "blank (CHR '' '')" "w \<noteq> []" using Cons.prems by (simp_all add: blank_def plainWord_def)
  ultimately show ?case using Cons.IH [of "rev w"] Cons.prems by simp
qed simp

lemma digit_not_blank: "digit ch \<Longrightarrow> \<not> blank ch"
  by (auto simp: digit_def blank_def)

lemma plainWord_to_string: "plainWord (to_string i)"
  using digits_not_Nil digits_chars digit_not_blank by (auto simp: plainWord_def to_string_def blank_def)

lemma stoi_to_string: "INT_MIN \<le> i \<Longrightarrow> i \<le> INT_MAX \<Longrightarrow> stoi (to_string i) = Inr i"
proof -
  assume i: "INT_MIN \<le> i" "i \<le> INT_MAX"
  have tw: "takeWhile digit (digits n) = digits n" for n using digits_chars by (simp add: takeWhile_eq_all_conv)
  obtain ch r where d: "digits (nat i) = ch # r" using digits_not_Nil by (cases "digits (nat i)") auto
  then have "digit ch" using digits_chars [of ch "nat i"] by simp
  then have "ch \<noteq> CHR ''-''" "ch \<noteq> CHR ''+''" by (auto simp: digit_def)
  then show ?thesis
    using i digits_not_Nil [of "nat (- i)"] number_of_digits [of "nat i"] tw [of "nat i", unfolded d] d
    by (cases "i < 0") (simp_all add: stoi_def to_string_def Let_def tw number_of_digits del: takeWhile_eq_all_conv)
qed

definition queryWords :: "nat \<Rightarrow> int list \<Rightarrow> string list" where
  "queryWords q p = ''q'' # to_string (int q) # map (\<lambda>i. to_string (p ! i)) [4, 5, 6, 7, 0, 1, 8, 9]"

lemma queryMetadata_words: "queryMetadata q p = concat (map ((#) (CHR '' '')) (queryWords q p))"
  by (simp add: queryMetadata_def queryWords_def)

lemma plain_queryWords: "w \<in> set (queryWords q p) \<Longrightarrow> plainWord w"
  by (auto simp: queryWords_def plainWord_to_string plainWord_def [of "''q''"] blank_def)

lemma concat_map_concat: "concat (map f (concat xss)) = concat (map (\<lambda>xs. concat (map f xs)) xss)"
  by (induction xss) simp_all

lemma checkpointMetadata_words:
  "textWords (checkpointMetadata ptrs) [] = concat (map (\<lambda>q. queryWords q (ptrs ! q)) [0..<length ptrs])"
proof -
  have "checkpointMetadata ptrs = concat (map ((#) (CHR '' '')) (concat (map (\<lambda>q. queryWords q (ptrs ! q)) [0..<length ptrs])))"
    by (simp add: checkpointMetadata_def queryMetadata_words concat_map_concat comp_def)
  then show ?thesis using plain_queryWords by (subst textWords_spaced [symmetric, where a = "[]", simplified]) auto
qed

lemma entries_concat: "\<forall>x \<in> set xss. length x = 10 \<Longrightarrow> entries (concat xss) = xss"
proof (induction xss)
  case (Cons x xss)
  then obtain a r where x: "x = a # r" "length r = 9" by (cases x) auto
  then show ?case using Cons by simp
qed simp

text \<open>The pointers that are stored.\<close>

definition stored_ptrs :: "nat list" where
  "stored_ptrs = [0, 1, 4, 5, 6, 7, 8, 9]"

definition sameStored :: "int list \<Rightarrow> int list \<Rightarrow> bool" where
  "sameStored p p' \<longleftrightarrow> list_all (\<lambda>i. p ! i = p' ! i) stored_ptrs"

definition fits :: "int list \<Rightarrow> bool" where
  "fits p \<longleftrightarrow> length p = 12 \<and> list_all (\<lambda>v. INT_MIN \<le> v \<and> v \<le> INT_MAX) p"

lemma parseEntry_queryWords:
  assumes p: "fits p" and q: "q < length ptrs" "int q \<le> INT_MAX" "length (ptrs ! q) = 12"
  shows "\<exists>p'. parseEntry (queryWords q p) ptrs = Inr (q, ptrs[q := p']) \<and> sameStored p' p \<and> length p' = 12"
proof -
  have st: "stoi (to_string (p ! i)) = Inr (p ! i)" if "i < 12" for i
    using p that by (auto simp: fits_def list_all_length intro!: stoi_to_string)
  have "stoi (to_string (int q)) = Inr (int q)" using q by (intro stoi_to_string) (auto simp: INT_MIN_def)
  then show ?thesis
    using q(1,3) by (auto simp: queryWords_def st sameStored_def stored_ptrs_def)
qed

lemma parse_entries:
  assumes "n \<le> length ptrs" "int (length ptrs) \<le> INT_MAX" "\<forall>p \<in> set ptrs. fits p" "length old = length ptrs" "\<forall>p \<in> set old. length p = 12"
  shows "\<exists>new. rfold (\<lambda>ws ptrs. rbind (parseEntry ws ptrs) (\<lambda>(_, ptrs). Inr ptrs)) (map (\<lambda>q. queryWords q (ptrs ! q)) [0..<n]) old = Inr new \<and>
    length new = length ptrs \<and> (\<forall>p \<in> set new. length p = 12) \<and> (\<forall>q < n. sameStored (new ! q) (ptrs ! q))"
  using assms(1)
proof (induction n)
  case (Suc n)
  then obtain new where new: "rfold (\<lambda>ws ptrs. rbind (parseEntry ws ptrs) (\<lambda>(_, ptrs). Inr ptrs)) (map (\<lambda>q. queryWords q (ptrs ! q)) [0..<n]) old = Inr new"
    "length new = length ptrs" "\<forall>p \<in> set new. length p = 12" "\<forall>q < n. sameStored (new ! q) (ptrs ! q)" by auto
  obtain p' where p': "parseEntry (queryWords n (ptrs ! n)) new = Inr (n, new[n := p'])" "sameStored p' (ptrs ! n)" "length p' = 12"
    using parseEntry_queryWords [of "ptrs ! n" n new] Suc.prems new(2,3) assms by auto
  have "\<forall>q < Suc n. sameStored (new[n := p'] ! q) (ptrs ! q)"
    using new(2,4) p'(2) Suc.prems by (auto simp: nth_list_update less_Suc_eq)
  moreover have "\<forall>p \<in> set (new[n := p']). length p = 12"
    using new(3) p'(3) by (auto dest: set_update_subset_insert [THEN subsetD])
  ultimately show ?case using new(1,2) p'(1) by (simp add: rfold_append)
qed (use assms in simp)

text \<open>
  C31. The pointers of a checkpoint survive a restart: the text that is stored when the checkpoint is complete is read back
  as the same pointers, for every query, whatever the pointers were before, as long as they fit into an \<open>int\<close>.
\<close>

theorem metadata_roundtrip:
  assumes "int (length ptrs) \<le> INT_MAX" "\<forall>p \<in> set ptrs. fits p" "length old = length ptrs" "\<forall>p \<in> set old. length p = 12"
  shows "\<exists>new. parseMetadata (checkpointMetadata ptrs) old = Inr new \<and> length new = length ptrs \<and>
    (\<forall>q < length ptrs. sameStored (new ! q) (ptrs ! q))"
proof -
  have "entries (textWords (checkpointMetadata ptrs) []) = map (\<lambda>q. queryWords q (ptrs ! q)) [0..<length ptrs]"
    by (simp add: checkpointMetadata_words entries_concat queryWords_def)
  then show ?thesis using parse_entries [OF order_refl assms] by (auto simp: parseMetadata_def)
qed

theorem metadata_roundtrip_witness:
  "\<exists>new. parseMetadata (checkpointMetadata [[3, 5, 0, 0, -1, -1, -1, -1, 17, 19, 0, 0]]) [replicate 12 (-1)] = Inr new \<and>
     new ! 0 ! 1 = 5 \<and> new ! 0 ! 9 = 19"
  using metadata_roundtrip [of "[[3, 5, 0, 0, -1, -1, -1, -1, 17, 19, 0, 0]]" "[replicate 12 (-1)]"]
  by (auto simp: fits_def INT_MIN_def INT_MAX_def sameStored_def stored_ptrs_def)

section \<open>Which slots are restored\<close>

lemma ringRange_Suc:
  fixes s e n :: int
  assumes "0 \<le> s" "s < n" "0 \<le> e" "e < n"
  shows "(e + 1 - s) mod n = (if (e + 1) mod n = s then 0 else (e - s) mod n + 1)"
proof -
  have "e + 1 - s = (e - s) + 1" by simp
  then have "(e + 1 - s) mod n = ((e - s) mod n + 1) mod n" by (metis mod_add_left_eq)
  moreover have "0 \<le> (e - s) mod n" "(e - s) mod n < n" using assms by auto
  moreover have "(e - s) mod n = (if e < s then e - s + n else e - s)"
    using assms mod_pos_pos_trivial [of "e - s + n" n] by (simp add: mod_pos_pos_trivial)
  then have "(e + 1) mod n = s \<longleftrightarrow> (e - s) mod n = n - 1"
    using assms by (cases "e + 1 = n") (auto simp: mod_pos_pos_trivial)
  ultimately show ?thesis by (cases "(e - s) mod n = n - 1") auto
qed

text \<open>
  A recovery restores the slots from the first to the last one of the checkpoint, except when the checkpoint
  has all slots of the ring, where it restores none.
\<close>

theorem restored_slots:
  assumes "0 \<le> s" "s < n" "0 \<le> e" "e < n"
  shows "restoredSlots n s e =
    (if (e + 1) mod n = s then [] else map (\<lambda>i. (s + int i) mod n) [0..<Suc (nat ((e - s) mod n))])"
proof -
  have "((e + 1) mod n - s) mod n = (e + 1 - s) mod n" by (simp add: mod_diff_left_eq)
  moreover have "nat ((e - s) mod n + 1) = Suc (nat ((e - s) mod n))" using assms by (simp add: Suc_nat_eq_nat_zadd1 add.commute)
  ultimately show ?thesis using assms ringRange_Suc [OF assms] by (simp add: restoredSlots_def ringRange_def)
qed

theorem restored_slots_witness:
  "restoredSlots 4 3 0 = [3, 0] \<and> restoredSlots 4 3 2 = []"
  using restored_slots [of 3 4 0] restored_slots [of 3 4 2] by (simp add: upt_rec)

text \<open>A preparation that marks nothing leaves a checkpoint of one slot, which a recovery restores although it was not stored.\<close>

lemma empty_checkpoint_restored: "0 \<le> s \<Longrightarrow> s < n \<Longrightarrow> 1 < n \<Longrightarrow> restoredSlots n s s = [s]"
  using ringRange_Suc [of s n s] mod_diff_left_eq [of "s + 1" n s] by (auto simp: restoredSlots_def ringRange_def split: if_splits)

text \<open>The file of the second input buffer of one version is that of the first one of the other version.\<close>

lemma buffer_files_collide: "bufferFileUsed 1 0 = bufferFileCreated 0 1"
  by (simp add: bufferFileUsed_def bufferFileCreated_def)

text \<open>With an order that differs from the numbers, the input of a query is released up to the offset of another one.\<close>

lemma released_with_wrong_offset:
  "releaseInputs (sortedQueries [[1], []]) (\<lambda>_. True) (\<lambda>_. False)
     [replicate 10 0 @ [100, INT_MIN], replicate 10 0 @ [700, INT_MIN]] = [(1, 0, 100), (0, 0, 700)]"
  by (simp add: releaseInputs_def sortedQueries_def upt_rec INT_MIN_def numeral_nat)

section \<open>Shape of the coordinator\<close>

definition shape :: "nat \<Rightarrow> 'w CheckpointCoordinator \<Rightarrow> bool" where
  "shape n c \<longleftrightarrow> length (cc_handlers c) = n \<and> length (cc_ready c) = n \<and> length (cc_checkpoints c) = n \<and>
     (\<forall>cs \<in> set (cc_checkpoints c). length cs = 2)"

lemma version_cases: "version c = 0 \<or> version c = 1"
  by (auto simp: version_def)

lemma checkpointOf_set:
  assumes "shape n c" "q < n"
  shows "checkpointOf (setCheckpoint q cp c) q' = (if q' = q then cp else checkpointOf c q')"
proof -
  have "length (cc_checkpoints c ! q) = 2" "q < length (cc_checkpoints c)" using assms by (auto simp: shape_def)
  moreover have "nat (version c) < 2" using version_cases [of c] by auto
  ultimately show ?thesis by (auto simp: setCheckpoint_def version_def nth_list_update)
qed

lemma shape_set [simp]:
  "q < n \<Longrightarrow> shape n c \<Longrightarrow> shape n (setCheckpoint q cp c)" "shape n c \<Longrightarrow> shape n (setHandler q h c)" "shape n (setPtrs q vs c) = shape n c"
  by (auto simp: shape_def setCheckpoint_def setHandler_def setPtrs_def dest: set_update_subset_insert [THEN subsetD])

text \<open>The marked slots of a query: each once, in the ring, at state 5 with one write to come, and counted.\<close>

definition slotMarked :: "ResultSlot \<Rightarrow> bool" where
  "slotMarked s \<longleftrightarrow> rs_slot s = 5 \<and> rs_previousSlot s = 1 \<and> rs_numberOfResults s = 1"

definition markedOk :: "ResultSlot list \<Rightarrow> int list \<Rightarrow> Checkpoint \<Rightarrow> bool" where
  "markedOk ss ready cp \<longleftrightarrow> distinct ready \<and> cp_numberOfSlots cp = int (length ready) \<and> cp_counter cp = 0 \<and> cp_state cp = PENDING \<and>
     (\<forall>idx \<in> set ready. 0 \<le> idx \<and> idx < int (length ss) \<and> slotMarked (ss ! nat idx))"

abbreviation slotsOf :: "'w CheckpointCoordinator \<Rightarrow> nat \<Rightarrow> ResultSlot list" where
  "slotsOf c q \<equiv> slots (cc_handlers c ! q)"

definition queryOk :: "'w CheckpointCoordinator \<Rightarrow> nat \<Rightarrow> bool" where
  "queryOk c q \<longleftrightarrow> markedOk (slotsOf c q) (cc_ready c ! q) (checkpointOf c q)"

text \<open>What a step on one query leaves as it is.\<close>

definition sameBesides :: "nat \<Rightarrow> 'w CheckpointCoordinator \<Rightarrow> 'w CheckpointCoordinator \<Rightarrow> bool" where
  "sameBesides q c c' \<longleftrightarrow>
     (\<forall>q'. q' \<noteq> q \<longrightarrow> cc_handlers c' ! q' = cc_handlers c ! q' \<and> cc_ready c' ! q' = cc_ready c ! q' \<and> checkpointOf c' q' = checkpointOf c q') \<and>
     cc_pending c' = cc_pending c \<and> cc_checkpointCounter c' = cc_checkpointCounter c \<and> cc_disk c' = cc_disk c \<and>
     cc_unbounded c' = cc_unbounded c \<and> cc_path c' = cc_path c \<and> cc_jobId c' = cc_jobId c \<and> cc_checkpointId c' = cc_checkpointId c \<and>
     cc_ups c' = cc_ups c \<and>
     map rs_index (slotsOf c' q) = map rs_index (slotsOf c q)"

lemma sameBesides_refl: "sameBesides q c c"
  by (simp add: sameBesides_def)

lemma sameBesides_trans: "sameBesides q c c1 \<Longrightarrow> sameBesides q c1 c2 \<Longrightarrow> sameBesides q c c2"
  by (auto simp: sameBesides_def)

lemma markSlot_ok:
  assumes m: "markSlot q idx (idxs, c) = Inr (idxs', c')" and sh: "shape n c" and q: "q < n" and ok: "queryOk c q"
  shows "shape n c' \<and> queryOk c' q \<and> sameBesides q c c'"
proof -
  let ?ss = "slotsOf c q"
  obtain s p where s: "0 \<le> idx" "idx < int (length ?ss)" "s = ?ss ! nat idx" and slot: "rs_slot s = 1" and p: "rs_result s = Some p"
    using m by (auto simp: markSlot_def Let_def mem_simps split: if_splits option.splits)
  show ?thesis
  proof (cases "pw_position p > 0")
    case False
    then have "c' = c" using m s slot p by (auto simp: markSlot_def Let_def vget_def)
    then show ?thesis using sh ok by (simp add: sameBesides_refl)
  next
    case True
    let ?s = "s\<lparr>rs_previousSlot := 1, rs_numberOfResults := 1, rs_slot := 5\<rparr>"
    let ?c1 = "setHandler q ((cc_handlers c ! q)\<lparr>rh_resultsWithoutFrags := ?ss[nat idx := ?s]\<rparr>)
      (setCheckpoint q (cp_increaseSlots 1 0 (checkpointOf c q)) c)"
    have c': "c' = ?c1\<lparr>cc_expectedBytes := cc_expectedBytes ?c1 + pw_position p, cc_ready := (cc_ready c)[q := cc_ready c ! q @ [idx]]\<rparr>"
      using m s slot p True
      by (auto simp: markSlot_def Let_def vget_def vset_def rs_setPreviousSlot_def rs_getNumberOfResults_def setHandler_def setCheckpoint_def
          split: if_splits)
    have len: "q < length (cc_handlers c)" "q < length (cc_ready c)" using sh q by (auto simp: shape_def)
    have cp: "checkpointOf c' q' = (if q' = q then cp_increaseSlots 1 0 (checkpointOf c q) else checkpointOf c q')" for q'
      using checkpointOf_set [OF sh q, of "cp_increaseSlots 1 0 (checkpointOf c q)" q'] by (simp add: c' setHandler_def version_def)
    have sl: "slotsOf c' q = ?ss[nat idx := ?s]" and rd: "cc_ready c' ! q = cc_ready c ! q @ [idx]"
      using len by (simp_all add: c' setHandler_def setCheckpoint_def)
    have new: "idx \<notin> set (cc_ready c ! q)" using ok s slot by (auto simp: queryOk_def markedOk_def slotMarked_def)
    have "queryOk c' q"
      unfolding queryOk_def sl rd cp using ok s new
      by (auto simp: queryOk_def markedOk_def cp_increaseSlots_def slotMarked_def nth_list_update)
    moreover have "shape n c'" using sh q shape_set(1) [OF q sh, of "cp_increaseSlots 1 0 (checkpointOf c q)"]
      by (simp add: c' shape_def setHandler_def)
    moreover have "sameBesides q c c'"
      using len s by (auto simp: sameBesides_def cp c' setHandler_def setCheckpoint_def version_def nth_list_update map_update list_update_same_conv)
    ultimately show ?thesis by blast
  qed
qed

lemma markSlots_ok:
  "markSlots q k idx (idxs, c) = Inr (idx', idxs', c') \<Longrightarrow> shape n c \<Longrightarrow> q < n \<Longrightarrow> queryOk c q \<Longrightarrow>
   shape n c' \<and> queryOk c' q \<and> sameBesides q c c'"
proof (induction k arbitrary: idx idxs c)
  case 0
  then show ?case by (simp add: sameBesides_refl)
next
  case (Suc k)
  obtain idxs1 c1 where one: "markSlot q idx (idxs, c) = Inr (idxs1, c1)"
    and rest: "markSlots q k (if idx + 1 = rh_numberOfSlots (cc_handlers c1 ! q) then 0 else idx + 1) (idxs1, c1) = Inr (idx', idxs', c')"
    using Suc.prems(1) by auto
  have "shape n c1 \<and> queryOk c1 q \<and> sameBesides q c c1" by (rule markSlot_ok [OF one Suc.prems(2-4)])
  then show ?case using Suc.IH [OF rest _ Suc.prems(3)] sameBesides_trans by blast
qed

section \<open>Preparation marks the slots of all queries\<close>

lemma sameBesides_ptrs [simp]: "sameBesides q c (setPtrs q vs c') = sameBesides q c c'"
  by (simp add: sameBesides_def setPtrs_def version_def)

lemma queryOk_ptrs [simp]: "queryOk (setPtrs q vs c) q = queryOk c q"
  by (simp add: queryOk_def setPtrs_def version_def)

lemma sameBesides_last [simp]: "sameBesides q c (c'\<lparr>cc_lastTaskId := l\<rparr>) = sameBesides q c c'"
  by (simp add: sameBesides_def version_def)

lemma queryOk_last [simp]: "queryOk (c\<lparr>cc_lastTaskId := l\<rparr>) q = queryOk c q" "shape n (c\<lparr>cc_lastTaskId := l\<rparr>) = shape n c"
  by (simp_all add: queryOk_def version_def shape_def)

lemma storePtrs_ok:
  "storePtrs conf q idx c = Inr c' \<Longrightarrow> shape n c' = shape n c \<and> queryOk c' q = queryOk c q \<and> sameBesides q c0 c' = sameBesides q c0 c"
  by (auto simp: storePtrs_def Let_def split: if_splits)

definition okFor :: "nat \<Rightarrow> 'w CheckpointCoordinator \<Rightarrow> nat \<Rightarrow> 'w CheckpointCoordinator \<Rightarrow> bool" where
  "okFor n c q d \<longleftrightarrow> shape n d \<and> queryOk d q \<and> sameBesides q c d"

lemma okFor_simps [simp]: "okFor n c q (setPtrs q vs d) = okFor n c q d" "okFor n c q (d\<lparr>cc_lastTaskId := l\<rparr>) = okFor n c q d"
  by (simp_all add: okFor_def)

lemma okFor_mark:
  "markSlots q k idx ([], d0) = Inr (idx', idxs, d) \<Longrightarrow> okFor n c q d0 \<Longrightarrow> q < n \<Longrightarrow> okFor n c q d"
  unfolding okFor_def using markSlots_ok sameBesides_trans by blast

lemma okFor_store: "storePtrs conf q idx d = Inr d' \<Longrightarrow> okFor n c q d \<Longrightarrow> okFor n c q d'"
  using storePtrs_ok [of conf q idx d d' n c] by (simp add: okFor_def)

lemma prepareQuery_ok:
  assumes p: "prepareQuery conf q c = Inr c'" and sh: "shape n c" and q: "q < n" and rd: "cc_ready c ! q = []"
  shows "shape n c' \<and> queryOk c' q \<and> sameBesides q c c'"
proof -
  define c1 where "c1 = setCheckpoint q (cp_setCheckpointId (cc_checkpointId c) (int q) (resetCheckpoint conf (checkpointOf c q))) c"
  have sh1: "shape n c1" using sh q by (simp add: c1_def)
  have cp1: "checkpointOf c1 q' = (if q' = q then cp_setCheckpointId (cc_checkpointId c) (int q) (resetCheckpoint conf (checkpointOf c q)) else checkpointOf c q')" for q'
    unfolding c1_def by (rule checkpointOf_set [OF sh q])
  have "cc_ready c1 = cc_ready c" by (simp add: c1_def setCheckpoint_def)
  then have q1: "queryOk c1 q" using rd by (simp add: queryOk_def cp1 markedOk_def cp_setCheckpointId_def resetCheckpoint_def)
  have s1: "sameBesides q c c1"
  proof -
    have "\<forall>q'. q' \<noteq> q \<longrightarrow> checkpointOf c1 q' = checkpointOf c q'" by (simp add: cp1)
    then show ?thesis by (simp add: sameBesides_def c1_def setCheckpoint_def)
  qed
  have "okFor n c q c1" using sh1 q1 s1 by (simp add: okFor_def)
  then have "okFor n c q c'"
    using p q
    by (auto simp: prepareQuery_def Let_def c1_def [symmetric] split: if_splits elim!: okFor_store dest!: okFor_mark [where n = n and c = c])
  then show ?thesis by (simp add: okFor_def)
qed

lemma sameBesides_keeps:
  assumes "sameBesides q c c'" "q' \<noteq> q"
  shows "queryOk c' q' = queryOk c q'" and "cc_ready c' ! q' = cc_ready c ! q'" and "slotsOf c' q' = slotsOf c q'"
  using assms by (auto simp: sameBesides_def queryOk_def)

definition globals :: "'w CheckpointCoordinator \<Rightarrow> CheckpointWrite list \<times> int \<times> (string \<Rightarrow> byte list) \<times> UnboundedFactory \<times> nat list list" where
  "globals c = (cc_pending c, cc_checkpointCounter c, cc_disk c, cc_unbounded c, cc_ups c)"

definition indexed :: "'w CheckpointCoordinator \<Rightarrow> nat \<Rightarrow> bool" where
  "indexed c q \<longleftrightarrow> map rs_index (slotsOf c q) = map int [0..<length (slotsOf c q)]"

lemma sameBesides_indexed: "sameBesides q c c' \<Longrightarrow> indexed c' q' = indexed c q'"
proof (cases "q' = q")
  case True
  assume s: "sameBesides q c c'"
  then have m: "map rs_index (slotsOf c' q) = map rs_index (slotsOf c q)" by (simp add: sameBesides_def)
  then show ?thesis using True map_eq_imp_length_eq [OF m] by (simp add: indexed_def)
qed (simp add: indexed_def sameBesides_keeps)

lemma prepareQueries_ok:
  assumes "rfold (prepareQuery conf) qs c = Inr c'" "shape n c" "set qs \<subseteq> {..<n}" "distinct qs" "\<forall>q \<in> set qs. cc_ready c ! q = []"
  shows "shape n c' \<and> (\<forall>q \<in> set qs. queryOk c' q) \<and> (\<forall>q. q \<notin> set qs \<longrightarrow> queryOk c' q = queryOk c q) \<and> globals c' = globals c \<and>
    (\<forall>q. indexed c' q = indexed c q)"
  using assms
proof (induction qs arbitrary: c)
  case (Cons q qs)
  obtain c1 where c1: "prepareQuery conf q c = Inr c1" "rfold (prepareQuery conf) qs c1 = Inr c'" using Cons.prems(1) by auto
  have ok: "shape n c1 \<and> queryOk c1 q \<and> sameBesides q c c1" using prepareQuery_ok [OF c1(1) Cons.prems(2)] Cons.prems by simp
  have IH: "shape n c' \<and> (\<forall>q \<in> set qs. queryOk c' q) \<and> (\<forall>q. q \<notin> set qs \<longrightarrow> queryOk c' q = queryOk c1 q) \<and> globals c' = globals c1 \<and>
      (\<forall>q. indexed c' q = indexed c1 q)"
  proof (rule Cons.IH [OF c1(2)])
    show "\<forall>q \<in> set qs. cc_ready c1 ! q = []"
    proof
      fix r
      assume r: "r \<in> set qs"
      then have "r \<noteq> q" using Cons.prems(4) by auto
      then show "cc_ready c1 ! r = []" using sameBesides_keeps(2) [of q c c1 r] ok r Cons.prems(5) by simp
    qed
  qed (use ok Cons.prems in auto)
  have "globals c1 = globals c" using ok by (simp add: globals_def sameBesides_def)
  then show ?case using IH ok Cons.prems(4) sameBesides_keeps(1) [of q c c1] sameBesides_indexed [of q c c1] by auto
qed simp

text \<open>The state after the preparation: a query without marked slots is complete at once.\<close>

definition startedOk :: "'w CheckpointCoordinator \<Rightarrow> nat \<Rightarrow> bool" where
  "startedOk c q \<longleftrightarrow> (let cp = checkpointOf c q; ready = cc_ready c ! q in
     distinct ready \<and> cp_numberOfSlots cp = int (length ready) \<and> cp_counter cp = 0 \<and> (cp_state cp = COMPLETED \<longleftrightarrow> ready = []) \<and>
     (\<forall>idx \<in> set ready. 0 \<le> idx \<and> idx < int (length (slotsOf c q)) \<and> slotMarked (slotsOf c q ! nat idx)))"

definition completed :: "nat \<Rightarrow> 'w CheckpointCoordinator \<Rightarrow> nat set" where
  "completed n c = {q. q < n \<and> cp_state (checkpointOf c q) = COMPLETED}"

lemma finite_completed [simp]: "finite (completed n c)"
  by (simp add: completed_def)

lemma startQuery_state:
  assumes sh: "shape n c" and q: "q < n" and ok: "queryOk c q"
  shows "shape n (startQuery q c) \<and> startedOk (startQuery q c) q \<and>
    (\<forall>q'. q' \<noteq> q \<longrightarrow> checkpointOf (startQuery q c) q' = checkpointOf c q') \<and>
    cc_ready (startQuery q c) = cc_ready c \<and> cc_handlers (startQuery q c) = cc_handlers c \<and>
    cc_checkpointCounter (startQuery q c) = cc_checkpointCounter c + (if cp_state (checkpointOf (startQuery q c) q) = COMPLETED then 1 else 0) \<and>
    cc_pending (startQuery q c) = cc_pending c \<and> cc_unbounded (startQuery q c) = cc_unbounded c"
proof (cases "cc_ready c ! q = []")
  case True
  let ?cp = "(checkpointOf c q)\<lparr>cp_state := COMPLETED\<rparr>"
  have eq: "startQuery q c = (setCheckpoint q ?cp c)\<lparr>cc_checkpointCounter := cc_checkpointCounter c + 1\<rparr>"
    using ok True by (simp add: startQuery_def cp_setComplete_def queryOk_def markedOk_def)
  have cp: "checkpointOf (startQuery q c) q' = (if q' = q then ?cp else checkpointOf c q')" for q'
    using checkpointOf_set [OF sh q, of ?cp q'] by (simp add: eq version_def)
  have rest: "shape n (startQuery q c)" "cc_ready (startQuery q c) = cc_ready c" "cc_handlers (startQuery q c) = cc_handlers c"
    "cc_checkpointCounter (startQuery q c) = cc_checkpointCounter c + 1" "cc_pending (startQuery q c) = cc_pending c"
    "cc_unbounded (startQuery q c) = cc_unbounded c"
    using shape_set(1) [OF q sh, of ?cp] by (simp_all add: eq setCheckpoint_def shape_def)
  show ?thesis using ok True unfolding startedOk_def Let_def cp rest by (simp add: rest queryOk_def markedOk_def)
next
  case False
  then have "startQuery q c = c" using ok by (simp add: startQuery_def queryOk_def markedOk_def)
  then show ?thesis using sh ok False by (auto simp: startedOk_def queryOk_def markedOk_def)
qed

lemma start_all:
  assumes "shape n c" "distinct qs" "set qs \<subseteq> {..<n}" "\<forall>q \<in> set qs. queryOk c q"
  shows "shape n (fold startQuery qs c) \<and> (\<forall>q \<in> set qs. startedOk (fold startQuery qs c) q) \<and>
    (\<forall>q. q \<notin> set qs \<longrightarrow> checkpointOf (fold startQuery qs c) q = checkpointOf c q) \<and>
    cc_ready (fold startQuery qs c) = cc_ready c \<and> cc_handlers (fold startQuery qs c) = cc_handlers c \<and>
    cc_checkpointCounter (fold startQuery qs c) = cc_checkpointCounter c + int (card (set qs \<inter> completed n (fold startQuery qs c))) \<and>
    cc_pending (fold startQuery qs c) = cc_pending c \<and> cc_unbounded (fold startQuery qs c) = cc_unbounded c"
  using assms
proof (induction qs arbitrary: c)
  case (Cons q qs)
  let ?c1 = "startQuery q c" and ?c2 = "fold startQuery qs (startQuery q c)"
  have q: "q < n" "q \<notin> set qs" using Cons.prems by auto
  note st = startQuery_state [OF Cons.prems(1) q(1)]
  have st: "shape n ?c1" "startedOk ?c1 q" "\<And>q'. q' \<noteq> q \<Longrightarrow> checkpointOf ?c1 q' = checkpointOf c q'"
    "cc_ready ?c1 = cc_ready c" "cc_handlers ?c1 = cc_handlers c"
    "cc_checkpointCounter ?c1 = cc_checkpointCounter c + (if cp_state (checkpointOf ?c1 q) = COMPLETED then 1 else 0)"
    "cc_pending ?c1 = cc_pending c" "cc_unbounded ?c1 = cc_unbounded c" using st Cons.prems(4) by simp_all
  have "\<forall>r \<in> set qs. queryOk ?c1 r"
  proof
    fix r
    assume r: "r \<in> set qs"
    then have "r \<noteq> q" using q(2) by auto
    then show "queryOk ?c1 r" using st(3) [of r] r Cons.prems(4) by (simp add: queryOk_def st(4,5))
  qed
  then have IH: "shape n ?c2 \<and> (\<forall>q \<in> set qs. startedOk ?c2 q) \<and> (\<forall>q. q \<notin> set qs \<longrightarrow> checkpointOf ?c2 q = checkpointOf ?c1 q) \<and>
      cc_ready ?c2 = cc_ready ?c1 \<and> cc_handlers ?c2 = cc_handlers ?c1 \<and>
      cc_checkpointCounter ?c2 = cc_checkpointCounter ?c1 + int (card (set qs \<inter> completed n ?c2)) \<and>
      cc_pending ?c2 = cc_pending ?c1 \<and> cc_unbounded ?c2 = cc_unbounded ?c1"
    using Cons.IH [of ?c1] st(1) Cons.prems by simp
  have cpq: "checkpointOf ?c2 q = checkpointOf ?c1 q" using IH q(2) by simp
  have "set (q # qs) \<inter> completed n ?c2 =
      (if cp_state (checkpointOf ?c1 q) = COMPLETED then insert q (set qs \<inter> completed n ?c2) else set qs \<inter> completed n ?c2)"
    using q(1) cpq by (auto simp: completed_def)
  then have "int (card (set (q # qs) \<inter> completed n ?c2)) =
      int (card (set qs \<inter> completed n ?c2)) + (if cp_state (checkpointOf ?c1 q) = COMPLETED then 1 else 0)"
    using q(2) by simp
  moreover have "startedOk ?c2 q" using st(2) cpq IH by (simp add: startedOk_def)
  ultimately show ?case using IH st by simp
qed simp

definition poolsOk :: "SystemConf \<Rightarrow> UnboundedFactory \<Rightarrow> bool" where
  "poolsOk conf f \<longleftrightarrow> (\<forall>pool \<in> set (uf_poolCB f). \<forall>b \<in> set pool. length (ub_buffer b) = nat (BLOCK_SIZE conf))"

definition prepared :: "SystemConf \<Rightarrow> nat \<Rightarrow> 'w CheckpointCoordinator \<Rightarrow> bool" where
  "prepared conf n c \<longleftrightarrow> shape n c \<and> (\<forall>q < n. startedOk c q \<and> indexed c q) \<and> cc_pending c = [] \<and>
     cc_checkpointCounter c = int (card (completed n c)) \<and> poolsOk conf (cc_unbounded c)"

lemma prepareCheckpoint_prepared:
  assumes p: "cc_prepareCheckpoint conf c = Inr c'" and sh: "shape n c" and n: "length (cc_ups c) = n"
    and dag: "\<forall>q < length (cc_ups c). \<forall>u \<in> set (cc_ups c ! q). u < length (cc_ups c) \<and> rank u < (rank q :: nat)"
    and clean: "\<forall>q < n. cc_ready c ! q = [] \<and> indexed c q" "cc_pending c = []" "cc_checkpointCounter c = 0" "poolsOk conf (cc_unbounded c)"
  shows "prepared conf n c'"
proof -
  obtain c1 where c1: "rfold (prepareQuery conf) (sortedQueries (cc_ups c)) c = Inr c1"
    and c': "c' = fold startQuery (sortedQueries (cc_ups c1)) c1" using p by (auto simp: cc_prepareCheckpoint_def)
  have s: "distinct (sortedQueries (cc_ups c))" "set (sortedQueries (cc_ups c)) = {..<n}"
    using sortedQueries_order [OF dag] n by auto
  have P: "shape n c1 \<and> (\<forall>q \<in> {..<n}. queryOk c1 q) \<and> globals c1 = globals c \<and> (\<forall>q. indexed c1 q = indexed c q)"
    using prepareQueries_ok [OF c1 sh] s clean(1) by auto
  then have ups: "cc_ups c1 = cc_ups c" by (simp add: globals_def)
  have "set (sortedQueries (cc_ups c)) \<inter> completed n c' = completed n c'" using s by (auto simp: completed_def)
  then show ?thesis
    using start_all [of n c1 "sortedQueries (cc_ups c)"] P s clean ups unfolding c'
    by (auto simp: prepared_def globals_def indexed_def)
qed

section \<open>What is in a file\<close>

definition bytesAt :: "byte list \<Rightarrow> nat \<Rightarrow> byte list \<Rightarrow> bool" where
  "bytesAt f off bs \<longleftrightarrow> off + length bs \<le> length f \<and> take (length bs) (drop off f) = bs"

lemma bytesAt_nth: "bytesAt f off bs \<longleftrightarrow> off + length bs \<le> length f \<and> (\<forall>i < length bs. f ! (off + i) = bs ! i)"
  by (auto simp: bytesAt_def list_eq_iff_nth_eq)

lemma nth_fileWrite:
  "k < a + length d \<or> k < length f \<Longrightarrow>
   fileWrite (int a) d f ! k = (if a \<le> k \<and> k < a + length d then d ! (k - a) else if k < length f then f ! k else 0)"
  by (auto simp: fileWrite_def nth_append min_def not_less)

lemma length_fileWrite: "length (fileWrite (int a) d f) = max (a + length d) (length f)"
  by (auto simp: fileWrite_def)

lemma bytesAt_written: "bytesAt d off bs \<Longrightarrow> bytesAt (fileWrite (int a) d f) (a + off) bs"
  by (auto simp: bytesAt_nth nth_fileWrite length_fileWrite ac_simps)

lemma bytesAt_kept:
  "bytesAt f off bs \<Longrightarrow> off + length bs \<le> a \<or> a + length d \<le> off \<Longrightarrow> bytesAt (fileWrite (int a) d f) off bs"
  by (auto simp: bytesAt_nth nth_fileWrite length_fileWrite)

lemma bytesAt_take: "bytesAt f off bs \<Longrightarrow> off + length bs \<le> k \<Longrightarrow> bytesAt (take k f) off bs"
  by (auto simp: bytesAt_nth)

text \<open>A slot in a block of \<open>B\<close> bytes: its pointers as text at the start, its output behind the first 512 bytes.\<close>

definition slotText :: "ResultSlot \<Rightarrow> int \<Rightarrow> string" where
  "slotText s offset =
     to_string (rs_freePointer1 s) @ '' '' @ to_string (rs_freePointer2 s) @ '' ''
     @ to_string (rs_prevFreePointer1 s) @ '' '' @ to_string (rs_prevFreePointer2 s) @ '' ''
     @ to_string (rs_latencyMark s) @ '' '' @ to_string (rs_taskId s) @ '' '' @ to_string offset @ '' ''"

lemma slotMetadata_text: "slotMetadata s offset = slotText s offset"
  by (simp add: slotMetadata_def slotText_def)

definition storedAt :: "nat \<Rightarrow> byte list \<Rightarrow> nat \<Rightarrow> ResultSlot \<Rightarrow> bool" where
  "storedAt B f off s \<longleftrightarrow>
     (case rs_result s of
        None \<Rightarrow> False
      | Some p \<Rightarrow>
          let metadata = textBytes (slotText s (pw_position p)); out = take (nat (pw_position p)) (pw_buffer p) in
          length metadata \<le> 512 \<and> length out + 512 \<le> B \<and> int (length out) = pw_position p \<and>
          bytesAt f off metadata \<and> bytesAt f (off + 512) out)"

lemma storedAt_written: "storedAt B d 0 s \<Longrightarrow> storedAt B (fileWrite (int a) d f) a s"
  using bytesAt_written [of d 0 _ a f] bytesAt_written [of d 512 _ a f] by (auto simp: storedAt_def Let_def split: option.splits)

lemma storedAt_kept:
  assumes "storedAt B f (i * B) s" "i \<noteq> j" "length d \<le> B"
  shows "storedAt B (fileWrite (int (j * B)) d f) (i * B) s"
proof -
  have "i * B + B \<le> j * B \<or> j * B + B \<le> i * B"
    using assms(2) mult_le_mono1 [of "Suc i" j B] mult_le_mono1 [of "Suc j" i B] by (cases "i < j") auto
  then show ?thesis using assms(1,3) by (auto simp: storedAt_def Let_def split: option.splits intro!: bytesAt_kept simp del: of_nat_mult)
qed

lemma halvings_bound: "0 < scale \<Longrightarrow> v \<le> scale * 2 ^ halvings v scale"
proof (induction v scale rule: halvings.induct)
  case (1 v scale)
  then show ?case by (subst halvings.simps) (auto simp: ac_simps)
qed

lemma rounded_bound: "0 < v \<Longrightarrow> v \<le> cc_roundOffset (getPowerOfTwo v)"
proof -
  assume v: "0 < v"
  have "v \<le> getPowerOfTwo v" using halvings_bound [of 1 v] by (auto simp: getPowerOfTwo_def)
  moreover have "x \<le> cc_roundOffset x" if "0 < x" for x
  proof (cases "x < 8 * 1024 \<or> x smod 512 = 0")
    case False
    have "x sdiv 512 = x div 512" using that by (simp add: signed_divide_int_def)
    moreover have "x \<le> (x div 512 + 1) * 512" using div_mult_mod_eq [of x 512] pos_mod_bound [of 512 x] by simp
    ultimately show ?thesis using False by (simp add: cc_roundOffset_def)
  qed (use that in \<open>auto simp: cc_roundOffset_def\<close>)
  ultimately show ?thesis using v by (meson order_trans order_less_le_trans)
qed

lemma slotImage_stored:
  assumes "slotImage s buf = Inr (k, bs)"
  shows "storedAt (length buf) (take (nat k) bs) 0 s \<and> length bs = length buf"
proof -
  obtain p out b1 where p: "rs_result s = Some p" and room: "pw_position p + 512 \<le> int (length buf)"
    and out: "memread (pw_buffer p) 0 (pw_position p) = Inr out" and b1: "memcpy_to buf 512 out = Inr b1"
    and md: "length (slotMetadata s (pw_position p)) \<le> 512" and bs: "memcpy_to b1 0 (textBytes (slotMetadata s (pw_position p))) = Inr bs"
    and k: "k = cc_roundOffset (getPowerOfTwo (pw_position p + 512))" "k \<le> int (length buf)"
    using assms by (auto simp: slotImage_def checkBlockSize_def Let_def split: option.splits if_splits)
  let ?md = "textBytes (slotMetadata s (pw_position p))"
  have pos: "0 \<le> pw_position p" and o: "out = take (nat (pw_position p)) (pw_buffer p)" "int (length out) = pw_position p"
    using out by (auto simp: memread_def split: if_splits)
  have b1': "b1 = write_at 512 out buf" "512 + length out \<le> length buf" using b1 by (auto simp: memcpy_to_def split: if_splits)
  have bs': "bs = write_at 0 ?md b1" "length ?md \<le> length b1" using bs by (auto simp: memcpy_to_def split: if_splits)
  have len: "length b1 = length buf" "length bs = length buf" using b1' bs' by simp_all
  have "bytesAt bs 0 ?md" using bs' len by (auto simp: bytesAt_nth nth_write_at)
  moreover have "bytesAt bs 512 out" using b1' bs' len md by (auto simp: bytesAt_nth nth_write_at textBytes_def)
  moreover have "nat k \<ge> 512 + length out" using rounded_bound [of "pw_position p + 512"] pos o k by linarith
  ultimately show ?thesis using p o b1'(2) md len by (auto simp: storedAt_def Let_def textBytes_def intro!: bytesAt_take simp flip: slotMetadata_text)
qed

lemma checkpointFile_inj: "checkpointFile c q v = checkpointFile c q' v \<longleftrightarrow> q = q'"
  by (simp add: checkpointFile_def to_string_inj)

section \<open>Runs\<close>

text \<open>
  A run after the preparation: the coordinator, the slots whose writes have completed, and whether a write has failed. Workers
  start writes, writes complete in any order, and other threads change slots that are not marked.
\<close>

definition keepsMarked :: "'w ResultHandler \<Rightarrow> 'w ResultHandler \<Rightarrow> bool" where
  "keepsMarked h h' \<longleftrightarrow> length (slots h') = length (slots h) \<and>
     (\<forall>i < length (slots h). rs_slot (slots h ! i) = 5 \<longrightarrow> slots h' ! i = slots h ! i)"

type_synonym 'w cp_run = "'w CheckpointCoordinator \<times> (nat \<times> int) list \<times> bool"

inductive cp_step :: "SystemConf \<Rightarrow> nat \<Rightarrow> 'w cp_run \<Rightarrow> 'w cp_run \<Rightarrow> bool" for conf n where
  step_store: "q < n \<Longrightarrow> storeSlot conf pid q c = Inr c' \<Longrightarrow> cp_step conf n (c, d, f) (c', d, f)"
| step_complete: "k < length (cc_pending c) \<Longrightarrow> completeSlot (k, ok) c = Inr c' \<Longrightarrow>
    cp_step conf n (c, d, f) (c', (cw_query (cc_pending c ! k), cw_slot (cc_pending c ! k)) # d, f \<or> \<not> ok)"
| step_other: "q < n \<Longrightarrow> keepsMarked (cc_handlers c ! q) h \<Longrightarrow> cp_step conf n (c, d, f) (setHandler q h c, d, f)"

text \<open>The threads that forward results are such threads.\<close>

lemma claimNext_keepsMarked: "claimNext h = Inr (ok, h') \<Longrightarrow> keepsMarked h h'"
  by (auto simp: claimNext_def setSlot_def keepsMarked_def vget_def vset_def nth_list_update split: if_splits)

lemma forwardSlot_keepsMarked:
  assumes "forwardSlot conf send h = Inr (ok, h')" and "rs_slot (slots h ! nat (rh_nextToForward h)) = 2"
  shows "keepsMarked h h'"
proof -
  obtain s' where "slots h' = (slots h)[nat (rh_nextToForward h) := s']" using forwardSlot_slots [OF assms(1)] by blast
  moreover have "(slots h)[nat (rh_nextToForward h) := s'] ! i = slots h ! i" if "rs_slot (slots h ! i) = 5" for i s'
    using that assms(2) by (cases "i = nat (rh_nextToForward h)") simp_all
  ultimately show ?thesis by (simp add: keepsMarked_def)
qed

definition pendingOf :: "nat \<Rightarrow> CheckpointWrite list \<Rightarrow> int multiset" where
  "pendingOf q ws = mset (map cw_slot (filter (\<lambda>w. cw_query w = q) ws))"

definition doneOf :: "nat \<Rightarrow> (nat \<times> int) list \<Rightarrow> int multiset" where
  "doneOf q d = mset (map snd (filter (\<lambda>x. fst x = q) d))"

definition queryInv :: "'w CheckpointCoordinator \<Rightarrow> 'w CheckpointCoordinator \<Rightarrow> (nat \<times> int) list \<Rightarrow> nat \<Rightarrow> bool" where
  "queryInv c0 c d q \<longleftrightarrow>
     mset (cc_ready c ! q) + pendingOf q (cc_pending c) + doneOf q d = mset (cc_ready c0 ! q) \<and>
     length (slotsOf c q) = length (slotsOf c0 q) \<and>
     (\<forall>idx. idx \<in># mset (cc_ready c ! q) + pendingOf q (cc_pending c) \<longrightarrow> slotsOf c q ! nat idx = slotsOf c0 q ! nat idx) \<and>
     cp_numberOfSlots (checkpointOf c q) = int (length (cc_ready c0 ! q)) \<and> cp_counter (checkpointOf c q) = int (size (doneOf q d)) \<and>
     (cp_state (checkpointOf c q) = COMPLETED \<longleftrightarrow> size (doneOf q d) = length (cc_ready c0 ! q))"

definition writeInv :: "SystemConf \<Rightarrow> nat \<Rightarrow> 'w CheckpointCoordinator \<Rightarrow> CheckpointWrite \<Rightarrow> bool" where
  "writeInv conf n c0 w \<longleftrightarrow> (let q = cw_query w; B = nat (BLOCK_SIZE conf) in
     q < n \<and> cw_previous w = 1 \<and> cw_file w = checkpointFile c0 q (version c0) \<and> 0 \<le> cw_slot w \<and>
     cw_offset w = int (nat (cw_slot w) * B) \<and> length (cw_data w) \<le> B \<and> storedAt B (cw_data w) 0 (slotsOf c0 q ! nat (cw_slot w)) \<and>
     length (ub_buffer (cw_buffer w)) = B)"

definition isStored :: "SystemConf \<Rightarrow> 'w CheckpointCoordinator \<Rightarrow> (string \<Rightarrow> byte list) \<Rightarrow> nat \<Rightarrow> int \<Rightarrow> bool" where
  "isStored conf c0 disk q idx \<longleftrightarrow>
     storedAt (nat (BLOCK_SIZE conf)) (disk (checkpointFile c0 q (version c0))) (nat idx * nat (BLOCK_SIZE conf)) (slotsOf c0 q ! nat idx)"

definition sameNames :: "'w CheckpointCoordinator \<Rightarrow> 'w CheckpointCoordinator \<Rightarrow> bool" where
  "sameNames c0 c \<longleftrightarrow> cc_path c = cc_path c0 \<and> cc_jobId c = cc_jobId c0 \<and> cc_checkpointId c = cc_checkpointId c0"

definition runInv :: "SystemConf \<Rightarrow> nat \<Rightarrow> 'w CheckpointCoordinator \<Rightarrow> 'w cp_run \<Rightarrow> bool" where
  "runInv conf n c0 = (\<lambda>(c, d, f).
     shape n c \<and> sameNames c0 c \<and> (\<forall>q < n. queryInv c0 c d q) \<and> (\<forall>w \<in> set (cc_pending c). writeInv conf n c0 w) \<and>
     (\<forall>x \<in> set d. 0 \<le> snd x \<and> (f \<or> isStored conf c0 (cc_disk c) (fst x) (snd x))) \<and>
     cc_checkpointCounter c = int (card (completed n c)) \<and> poolsOk conf (cc_unbounded c))"

lemma prepared_runInv: "prepared conf n c0 \<Longrightarrow> runInv conf n c0 (c0, [], False)"
  by (auto simp: prepared_def runInv_def sameNames_def queryInv_def startedOk_def pendingOf_def doneOf_def Let_def)

lemma sameNames_file: "sameNames c0 c \<Longrightarrow> checkpointFile c q (version c) = checkpointFile c0 q (version c0)"
  by (simp add: sameNames_def checkpointFile_def version_def)

lemma poolsOk_nth:
  "poolsOk conf f \<Longrightarrow> 0 \<le> pid \<Longrightarrow> pid < int (length (uf_poolCB f)) \<Longrightarrow> b \<in> set (uf_poolCB f ! nat pid) \<Longrightarrow>
   length (ub_buffer b) = nat (BLOCK_SIZE conf)"
  using nth_mem [of "nat pid" "uf_poolCB f"] by (auto simp: poolsOk_def)

lemma poolsOk_update:
  "poolsOk conf f \<Longrightarrow> (\<And>b. b \<in> set bs \<Longrightarrow> length (ub_buffer b) = nat (BLOCK_SIZE conf)) \<Longrightarrow>
   poolsOk conf (f\<lparr>uf_poolCB := (uf_poolCB f)[i := bs]\<rparr>)"
  by (auto simp: poolsOk_def dest!: set_update_subset_insert [THEN subsetD])

lemma newInstance_pools:
  "uf_newInstancePid conf pid f = Inr (b, f') \<Longrightarrow> poolsOk conf f \<Longrightarrow> length (ub_buffer b) = nat (BLOCK_SIZE conf) \<and> poolsOk conf f'"
  using poolsOk_nth [of conf f pid]
  by (auto simp: uf_newInstancePid_def vget_def newUnboundedBuffer_def Let_def split: if_splits list.splits intro!: poolsOk_update)
    (simp add: poolsOk_def)

lemma freePid_pools:
  "uf_freePid pid b f = Inr f' \<Longrightarrow> length (ub_buffer b) = nat (BLOCK_SIZE conf) \<Longrightarrow> poolsOk conf f \<Longrightarrow> poolsOk conf f'"
  using poolsOk_nth [of conf f pid]
  by (auto simp: uf_freePid_def vget_def ub_setPosition_def split: if_splits intro!: poolsOk_update)

section \<open>The invariant holds in all runs\<close>

lemma prepared_slot:
  assumes "prepared conf n c0" "q < n" "idx \<in> set (cc_ready c0 ! q)"
  shows "0 \<le> idx \<and> idx < int (length (slotsOf c0 q)) \<and> slotMarked (slotsOf c0 q ! nat idx) \<and> rs_index (slotsOf c0 q ! nat idx) = idx"
proof -
  have i: "0 \<le> idx" "idx < int (length (slotsOf c0 q))" "slotMarked (slotsOf c0 q ! nat idx)"
    using assms by (auto simp: prepared_def startedOk_def Let_def)
  have "map rs_index (slotsOf c0 q) ! nat idx = map int [0..<length (slotsOf c0 q)] ! nat idx"
    using assms(1,2) by (simp add: prepared_def indexed_def)
  then show ?thesis using i by simp
qed

lemma queryInv_slot:
  assumes I: "queryInv c0 c d q" and "idx \<in># mset (cc_ready c ! q) + pendingOf q (cc_pending c)"
  shows "idx \<in> set (cc_ready c0 ! q)" and "slotsOf c q ! nat idx = slotsOf c0 q ! nat idx" and "length (slotsOf c q) = length (slotsOf c0 q)"
proof -
  have eq: "mset (cc_ready c ! q) + pendingOf q (cc_pending c) + doneOf q d = mset (cc_ready c0 ! q)" using I by (simp add: queryInv_def)
  have "idx \<in># mset (cc_ready c ! q) + pendingOf q (cc_pending c) + doneOf q d" using assms(2) by auto
  then show "idx \<in> set (cc_ready c0 ! q)" unfolding eq by simp
  show "slotsOf c q ! nat idx = slotsOf c0 q ! nat idx" and "length (slotsOf c q) = length (slotsOf c0 q)"
    using assms by (auto simp: queryInv_def)
qed

lemma file_ready [simp]: "checkpointFile (c\<lparr>cc_ready := r\<rparr>) q v = checkpointFile c q v" "version (c\<lparr>cc_ready := r\<rparr>) = version c"
  by (simp_all add: checkpointFile_def version_def)

lemma store_runInv:
  assumes P: "prepared conf n c0" and I: "runInv conf n c0 (c, d, f)" and q: "q < n" and st: "storeSlot conf pid q c = Inr c'"
  shows "runInv conf n c0 (c', d, f)"
proof (cases "cc_ready c ! q")
  case Nil
  then show ?thesis using st I by (simp add: storeSlot_def)
next
  case (Cons idx rest)
  let ?B = "nat (BLOCK_SIZE conf)"
  obtain buffer uf k bs where s: "rs_slot (slotsOf c q ! nat idx) = 5" "rs_previousSlot (slotsOf c q ! nat idx) = 1"
    and new: "uf_newInstancePid conf pid (cc_unbounded c) = Inr (buffer, uf)"
    and img: "slotImage (slotsOf c q ! nat idx) (ub_buffer buffer) = Inr (k, bs)"
    and c': "c' = c\<lparr>cc_ready := (cc_ready c)[q := rest], cc_unbounded := uf, cc_measuredBytes := cc_measuredBytes c + k,
         cc_pending := cc_pending c @ [\<lparr>cw_query = q, cw_slot = idx, cw_previous = 1, cw_file = checkpointFile c q (version c),
           cw_offset = rs_index (slotsOf c q ! nat idx) * BLOCK_SIZE conf, cw_data = take (nat k) bs, cw_buffer = buffer\<lparr>ub_buffer := bs\<rparr>\<rparr>]\<rparr>"
    using st Cons by (auto simp: storeSlot_def vget_def rs_getPreviousSlot_def Let_def split: if_splits)
  have I1: "shape n c" "sameNames c0 c" "poolsOk conf (cc_unbounded c)" "\<And>q. q < n \<Longrightarrow> queryInv c0 c d q" using I by (auto simp: runInv_def)
  have "idx \<in># mset (cc_ready c ! q) + pendingOf q (cc_pending c)" using Cons by simp
  note sl = queryInv_slot [OF I1(4) [OF q] this]
  have pr: "0 \<le> idx" "rs_index (slotsOf c0 q ! nat idx) = idx" using prepared_slot [OF P q sl(1)] by auto
  have pool: "length (ub_buffer buffer) = ?B" "poolsOk conf uf" using newInstance_pools [OF new I1(3)] by auto
  have im: "storedAt ?B (take (nat k) bs) 0 (slotsOf c0 q ! nat idx)" "length bs = ?B" using slotImage_stored [OF img] pool sl(2) by auto
  then have B: "0 < ?B" by (auto simp: storedAt_def Let_def split: option.splits)
  let ?w = "\<lparr>cw_query = q, cw_slot = idx, cw_previous = 1, cw_file = checkpointFile c q (version c),
           cw_offset = rs_index (slotsOf c q ! nat idx) * BLOCK_SIZE conf, cw_data = take (nat k) bs, cw_buffer = buffer\<lparr>ub_buffer := bs\<rparr>\<rparr>"
  have "writeInv conf n c0 ?w" using q sl pr im B sameNames_file [OF I1(2)] by (simp add: writeInv_def Let_def)
  moreover have "queryInv c0 c' d r" if r: "r < n" for r
  proof (cases "r = q")
    case True
    have "q < length (cc_ready c)" using I1(1) q by (simp add: shape_def)
    then have rd: "cc_ready c' ! q = rest" "pendingOf q (cc_pending c') = pendingOf q (cc_pending c) + {#idx#}" by (simp_all add: c' pendingOf_def)
    then have "mset (cc_ready c' ! q) + pendingOf q (cc_pending c') = mset (cc_ready c ! q) + pendingOf q (cc_pending c)" by (simp add: Cons)
    moreover have "checkpointOf c' q = checkpointOf c q" "cc_handlers c' = cc_handlers c" by (simp_all add: c' version_def)
    ultimately show ?thesis using I1(4) [OF q] True by (simp add: queryInv_def)
  next
    case False
    then show ?thesis using I1(4) [OF r] by (simp add: queryInv_def c' pendingOf_def version_def)
  qed
  moreover have "completed n c' = completed n c" by (simp add: completed_def c' version_def)
  ultimately show ?thesis using I pool(2) by (auto simp: runInv_def c' shape_def sameNames_def version_def)
qed

lemma other_runInv:
  assumes I: "runInv conf n c0 (c, d, f)" and P: "prepared conf n c0" and q: "q < n" and h: "keepsMarked (cc_handlers c ! q) h"
  shows "runInv conf n c0 (setHandler q h c, d, f)"
proof -
  have I1: "shape n c" "\<And>q. q < n \<Longrightarrow> queryInv c0 c d q" using I by (auto simp: runInv_def)
  then have len: "q < length (cc_handlers c)" using q by (simp add: shape_def)
  have "queryInv c0 (setHandler q h c) d r" if r: "r < n" for r
  proof (cases "r = q")
    case True
    have "slots h ! nat idx = slotsOf c0 q ! nat idx" if "idx \<in># mset (cc_ready c ! q) + pendingOf q (cc_pending c)" for idx
    proof -
      note sl = queryInv_slot [OF I1(2) [OF q] that]
      have "0 \<le> idx \<and> idx < int (length (slotsOf c0 q)) \<and> slotMarked (slotsOf c0 q ! nat idx)" using prepared_slot [OF P q sl(1)] by simp
      then show ?thesis using h sl(2,3) by (auto simp: keepsMarked_def slotMarked_def)
    qed
    then show ?thesis using I1(2) [OF q] True len h by (simp add: queryInv_def setHandler_def version_def keepsMarked_def)
  qed (use I1(2) [OF r] in \<open>simp add: queryInv_def setHandler_def version_def\<close>)
  moreover have "completed n (setHandler q h c) = completed n c" by (simp add: completed_def setHandler_def version_def)
  ultimately show ?thesis using I by (auto simp: runInv_def setHandler_def shape_def sameNames_def)
qed

lemma pendingOf_remove:
  assumes "k < length ws"
  shows "pendingOf q ws = (if cw_query (ws ! k) = q then {#cw_slot (ws ! k)#} else {#}) + pendingOf q (take k ws @ drop (Suc k) ws)"
  using arg_cong [OF id_take_nth_drop [OF assms], of "pendingOf q"] by (simp add: pendingOf_def)

lemma updateCounter_ok:
  "cp_updateCounter bytes (cp, m) = Inr (cp', m') \<Longrightarrow> cp_state cp \<noteq> COMPLETED \<Longrightarrow>
   cp_counter cp' = cp_counter cp + 1 \<and> cp_numberOfSlots cp' = cp_numberOfSlots cp \<and>
   (cp_state cp' = COMPLETED \<longleftrightarrow> cp_counter cp + 1 = cp_numberOfSlots cp) \<and>
   m' = m + (if cp_state cp' = COMPLETED then 1 else 0)"
  by (auto simp: cp_updateCounter_def cp_setComplete_def Let_def split: if_splits)

text \<open>A completed write on the slots, the counters and the files of its query.\<close>

lemma completeSlot_cases:
  assumes "completeSlot (k, ok) c = Inr c'" "k < length (cc_pending c)" "w = cc_pending c ! k" "cw_previous w = 1"
    and "slotMarked (slotsOf c (cw_query w) ! nat (cw_slot w))" "shape n c" "cw_query w < n"
  obtains ss cp m uf bytes where
    "ss = (slotsOf c (cw_query w))[nat (cw_slot w) := (slotsOf c (cw_query w) ! nat (cw_slot w))\<lparr>rs_numberOfResults := 0, rs_slot := 1\<rparr>]"
    and "cp_updateCounter bytes (checkpointOf c (cw_query w), cc_checkpointCounter c) = Inr (cp, m)"
    and "uf_freePid (ub_id (cw_buffer w)) (cw_buffer w) (cc_unbounded c) = Inr uf"
    and "cc_pending c' = take k (cc_pending c) @ drop (Suc k) (cc_pending c)" "cc_checkpointCounter c' = m" "cc_unbounded c' = uf"
    and "cc_disk c' = (if ok then (cc_disk c)(cw_file w := fileWrite (cw_offset w) (cw_data w) (cc_disk c (cw_file w))) else cc_disk c)"
    and "\<And>q. slotsOf c' q = (if q = cw_query w then ss else slotsOf c q)" "cc_ready c' = cc_ready c"
    and "\<And>q. checkpointOf c' q = (if q = cw_query w then cp else checkpointOf c q)" "shape n c'" "sameNames c c'"
proof -
  let ?q = "cw_query w"
  let ?s = "(slotsOf c ?q ! nat (cw_slot w))\<lparr>rs_numberOfResults := 0, rs_slot := 1\<rparr>"
  let ?c1 = "c\<lparr>cc_pending := take k (cc_pending c) @ drop (Suc k) (cc_pending c),
     cc_disk := (if ok then (cc_disk c)(cw_file w := fileWrite (cw_offset w) (cw_data w) (cc_disk c (cw_file w))) else cc_disk c)\<rparr>"
  have rs: "restoreSlot (cw_previous w) (slotsOf c ?q ! nat (cw_slot w)) = Inr ?s"
    using assms(4,5) by (simp add: restoreSlot_def slotMarked_def)
  have cp1: "checkpointOf ?c1 r = checkpointOf c r" for r by (simp add: version_def)
  obtain cp m uf bytes where u: "cp_updateCounter bytes (checkpointOf c ?q, cc_checkpointCounter c) = Inr (cp, m)"
    and f: "uf_freePid (ub_id (cw_buffer w)) (cw_buffer w) (cc_unbounded c) = Inr uf"
    and c': "c' = (setCheckpoint ?q cp (setHandler ?q ((cc_handlers c ! ?q)\<lparr>rh_resultsWithoutFrags := (slotsOf c ?q)[nat (cw_slot w) := ?s]\<rparr>) ?c1))
       \<lparr>cc_unbounded := uf, cc_checkpointCounter := m\<rparr>"
    using assms(1,2)
    by (cases ok) (auto simp: completeSlot_def Let_def assms(3) [symmetric] vget_def vset_def rs version_def split: if_splits)
  let ?c2 = "setHandler ?q ((cc_handlers c ! ?q)\<lparr>rh_resultsWithoutFrags := (slotsOf c ?q)[nat (cw_slot w) := ?s]\<rparr>) ?c1"
  have sh1: "shape n ?c2" using assms(6) by (simp add: shape_def setHandler_def)
  have "checkpointOf c' r = (if r = ?q then cp else checkpointOf c r)" for r
    using checkpointOf_set [OF sh1 assms(7), of cp r] by (simp add: c' version_def setHandler_def)
  moreover have "shape n c'" using shape_set(1) [OF assms(7) sh1, of cp] by (simp add: c' shape_def)
  moreover have "?q < length (cc_handlers c)" using assms(6,7) by (simp add: shape_def)
  ultimately show ?thesis
    by (intro that [OF refl u f]) (simp_all add: c' setCheckpoint_def setHandler_def sameNames_def)
qed

lemma pending_slot:
  assumes "k < length (cc_pending c)"
  shows "cw_slot (cc_pending c ! k) \<in># pendingOf (cw_query (cc_pending c ! k)) (cc_pending c)"
  using assms by (auto simp: pendingOf_def)

lemma done_slot: "x \<in> set d \<Longrightarrow> snd x \<in># doneOf (fst x) d"
  by (auto simp: doneOf_def)

text \<open>A completed write leaves the other slots in the files.\<close>

lemma stored_kept:
  assumes "isStored conf c0 disk q idx" and w: "writeInv conf n c0 w" and "0 \<le> idx" and "q = cw_query w \<longrightarrow> idx \<noteq> cw_slot w"
  shows "isStored conf c0 (disk(cw_file w := fileWrite (cw_offset w) (cw_data w) (disk (cw_file w)))) q idx"
proof (cases "q = cw_query w")
  case True
  then have "nat idx \<noteq> nat (cw_slot w)" using assms by (auto simp: writeInv_def Let_def)
  then show ?thesis
    using storedAt_kept [of "nat (BLOCK_SIZE conf)" "disk (cw_file w)" "nat idx" _ "nat (cw_slot w)" "cw_data w"] assms(1) w True
    by (simp add: isStored_def writeInv_def Let_def del: of_nat_mult)
next
  case False
  then have "checkpointFile c0 q (version c0) \<noteq> cw_file w" using w checkpointFile_inj [of c0] by (simp add: writeInv_def Let_def)
  then show ?thesis using assms(1) by (simp add: isStored_def)
qed

lemma stored_written:
  assumes "writeInv conf n c0 w"
  shows "isStored conf c0 (disk(cw_file w := fileWrite (cw_offset w) (cw_data w) (disk (cw_file w)))) (cw_query w) (cw_slot w)"
  using assms storedAt_written by (simp add: isStored_def writeInv_def Let_def del: of_nat_mult)

lemma stored_all:
  assumes w: "writeInv conf n c0 w" and old: "\<And>x. x \<in> set d \<Longrightarrow> 0 \<le> snd x \<and> (f \<or> isStored conf c0 disk (fst x) (snd x))"
    and new: "disk' = (if ok then disk(cw_file w := fileWrite (cw_offset w) (cw_data w) (disk (cw_file w))) else disk)"
  shows "\<forall>x \<in> set ((cw_query w, cw_slot w) # d). 0 \<le> snd x \<and> ((f \<or> \<not> ok) \<or> isStored conf c0 disk' (fst x) (snd x))"
proof
  fix x
  assume x: "x \<in> set ((cw_query w, cw_slot w) # d)"
  show "0 \<le> snd x \<and> ((f \<or> \<not> ok) \<or> isStored conf c0 disk' (fst x) (snd x))"
  proof (cases "x = (cw_query w, cw_slot w)")
    case True
    then show ?thesis using stored_written [OF w, of disk] w by (auto simp: new writeInv_def Let_def)
  next
    case False
    then have "x \<in> set d" using x by simp
    moreover have "fst x = cw_query w \<longrightarrow> snd x \<noteq> cw_slot w" using False by (auto simp: prod_eq_iff)
    ultimately show ?thesis using old [of x] stored_kept [OF _ w] by (auto simp: new)
  qed
qed

lemma completed_query:
  assumes S: "queryInv c0 c d q" and dist: "distinct (cc_ready c0 ! q)" and k: "k < length (cc_pending c)" and w: "w = cc_pending c ! k" "cw_query w = q"
    and bounds: "\<And>i. i \<in> set (cc_ready c0 ! q) \<Longrightarrow> 0 \<le> i"
    and u: "cp_updateCounter bytes (checkpointOf c q, m) = Inr (cp, m')"
    and pend: "cc_pending c' = take k (cc_pending c) @ drop (Suc k) (cc_pending c)" and rd: "cc_ready c' = cc_ready c"
    and sl: "slotsOf c' q = (slotsOf c q)[nat (cw_slot w) := s]" and cp: "checkpointOf c' q = cp"
  shows "queryInv c0 c' ((q, cw_slot w) # d) q \<and> cp_state (checkpointOf c q) \<noteq> COMPLETED \<and> m' = m + (if cp_state cp = COMPLETED then 1 else 0)"
proof -
  let ?i = "cw_slot w"
  have rem: "pendingOf q (cc_pending c) = {#?i#} + pendingOf q (cc_pending c')" using pendingOf_remove [OF k, of q] w pend by simp
  have dn: "doneOf q ((q, ?i) # d) = {#?i#} + doneOf q d" by (simp add: doneOf_def)
  have eq: "mset (cc_ready c ! q) + ({#?i#} + pendingOf q (cc_pending c')) + doneOf q d = mset (cc_ready c0 ! q)"
    using S by (simp add: queryInv_def rem)
  have "size (mset (cc_ready c ! q) + ({#?i#} + pendingOf q (cc_pending c')) + doneOf q d) = length (cc_ready c0 ! q)" unfolding eq by simp
  then have "size (doneOf q d) < length (cc_ready c0 ! q)" by simp
  then have st: "cp_state (checkpointOf c q) \<noteq> COMPLETED" using S by (auto simp: queryInv_def)
  note uc = updateCounter_ok [OF u st]
  have "count (mset (cc_ready c0 ! q)) ?i \<le> 1" using dist by (simp add: distinct_count_atmost_1)
  then have nin: "?i \<notin># mset (cc_ready c ! q) + pendingOf q (cc_pending c')" unfolding eq [symmetric] by (auto simp flip: count_greater_zero_iff)
  have pos: "0 \<le> ?i" using queryInv_slot(1) [OF S, of ?i] bounds by (simp add: rem)
  have "slotsOf c' q ! nat idx = slotsOf c0 q ! nat idx" if i: "idx \<in># mset (cc_ready c ! q) + pendingOf q (cc_pending c')" for idx
  proof -
    have i': "idx \<in># mset (cc_ready c ! q) + pendingOf q (cc_pending c)" using i by (auto simp: rem)
    have "0 \<le> idx" using bounds queryInv_slot(1) [OF S i'] by simp
    then have "nat ?i \<noteq> nat idx" using i nin pos by (auto simp: eq_nat_nat_iff)
    then show ?thesis using queryInv_slot(2) [OF S i'] by (simp add: sl)
  qed
  moreover have "mset (cc_ready c' ! q) + pendingOf q (cc_pending c') + doneOf q ((q, ?i) # d) = mset (cc_ready c0 ! q)"
    using eq by (simp add: dn rd ac_simps)
  ultimately show ?thesis using S uc st by (auto simp: queryInv_def sl cp dn rd)
qed

lemma complete_runInv:
  assumes P: "prepared conf n c0" and I: "runInv conf n c0 (c, d, f)" and k: "k < length (cc_pending c)" and st: "completeSlot (k, ok) c = Inr c'"
  shows "runInv conf n c0 (c', (cw_query (cc_pending c ! k), cw_slot (cc_pending c ! k)) # d, f \<or> \<not> ok)"
proof -
  define w where "w = cc_pending c ! k"
  define q where "q = cw_query w"
  have I1: "shape n c" "sameNames c0 c" "poolsOk conf (cc_unbounded c)" "\<And>q. q < n \<Longrightarrow> queryInv c0 c d q"
    "\<And>x. x \<in> set d \<Longrightarrow> 0 \<le> snd x \<and> (f \<or> isStored conf c0 (cc_disk c) (fst x) (snd x))" "cc_checkpointCounter c = int (card (completed n c))"
    using I by (auto simp: runInv_def)
  have W: "\<And>w. w \<in> set (cc_pending c) \<Longrightarrow> writeInv conf n c0 w" using I by (simp add: runInv_def)
  have w: "writeInv conf n c0 w" using W k by (simp add: w_def)
  then have q: "q < n" and prev: "cw_previous w = 1" and len: "length (ub_buffer (cw_buffer w)) = nat (BLOCK_SIZE conf)"
    by (auto simp: writeInv_def q_def Let_def)
  have pd: "cw_slot w \<in># pendingOf q (cc_pending c)" using pending_slot [of k c] k by (simp add: w_def q_def)
  then have pd': "cw_slot w \<in># mset (cc_ready c ! q) + pendingOf q (cc_pending c)" by simp
  note sl = queryInv_slot [OF I1(4) [OF q] pd']
  have mk: "slotMarked (slotsOf c q ! nat (cw_slot w))" using prepared_slot [OF P q sl(1)] sl(2) by simp
  obtain ss cp m uf bytes where c': "ss = (slotsOf c q)[nat (cw_slot w) := (slotsOf c q ! nat (cw_slot w))\<lparr>rs_numberOfResults := 0, rs_slot := 1\<rparr>]"
    and u: "cp_updateCounter bytes (checkpointOf c q, cc_checkpointCounter c) = Inr (cp, m)"
    and free: "uf_freePid (ub_id (cw_buffer w)) (cw_buffer w) (cc_unbounded c) = Inr uf"
    and pend: "cc_pending c' = take k (cc_pending c) @ drop (Suc k) (cc_pending c)" and cnt: "cc_checkpointCounter c' = m" and uf: "cc_unbounded c' = uf"
    and disk: "cc_disk c' = (if ok then (cc_disk c)(cw_file w := fileWrite (cw_offset w) (cw_data w) (cc_disk c (cw_file w))) else cc_disk c)"
    and slots': "\<And>r. slotsOf c' r = (if r = q then ss else slotsOf c r)" and rd: "cc_ready c' = cc_ready c"
    and cps: "\<And>r. checkpointOf c' r = (if r = q then cp else checkpointOf c r)" and sh: "shape n c'" and nm: "sameNames c c'"
    by (rule completeSlot_cases [OF st k w_def prev mk [unfolded q_def] I1(1) q [unfolded q_def], folded q_def]) (rule that)
  have dist: "distinct (cc_ready c0 ! q)" using P q by (auto simp: prepared_def startedOk_def Let_def)
  have D: "queryInv c0 c' ((q, cw_slot w) # d) q \<and> cp_state (checkpointOf c q) \<noteq> COMPLETED \<and>
      m = cc_checkpointCounter c + (if cp_state cp = COMPLETED then 1 else 0)"
    by (rule completed_query [OF I1(4) [OF q] dist k w_def q_def [symmetric] _ u pend rd])
      (use prepared_slot [OF P q] in \<open>auto simp: slots' c' cps\<close>)
  have "queryInv c0 c' ((q, cw_slot w) # d) r" if r: "r < n" for r
  proof (cases "r = q")
    case False
    then have "pendingOf r (cc_pending c') = pendingOf r (cc_pending c)" using pendingOf_remove [OF k, of r] by (simp add: pend w_def q_def)
    then show ?thesis using I1(4) [OF r] False by (simp add: queryInv_def rd slots' cps doneOf_def)
  qed (use D in simp)
  moreover have "cc_checkpointCounter c' = int (card (completed n c'))"
  proof -
    have "completed n c' = (if cp_state cp = COMPLETED then insert q (completed n c) else completed n c)" "q \<notin> completed n c"
      using q D by (auto simp: completed_def cps)
    then show ?thesis using D I1(6) by (simp add: cnt)
  qed
  moreover have "\<forall>x \<in> set ((q, cw_slot w) # d). 0 \<le> snd x \<and> ((f \<or> \<not> ok) \<or> isStored conf c0 (cc_disk c') (fst x) (snd x))"
    unfolding q_def by (rule stored_all [OF w I1(5) disk])
  moreover have "\<forall>v \<in> set (cc_pending c'). writeInv conf n c0 v" using W by (auto simp: pend dest: in_set_takeD in_set_dropD)
  moreover have "poolsOk conf (cc_unbounded c')" using freePid_pools [OF free len I1(3)] by (simp add: uf)
  ultimately show ?thesis
    using sh nm I1(2) unfolding w_def [symmetric] q_def [symmetric] by (auto simp: runInv_def sameNames_def)
qed

section \<open>When all queries have completed\<close>

lemma run_runInv:
  assumes "(cp_step conf n)\<^sup>*\<^sup>* (c0, [], False) r" "prepared conf n c0"
  shows "runInv conf n c0 r"
  using assms(1)
proof (induction rule: rtranclp_induct)
  case base
  then show ?case using prepared_runInv [OF assms(2)] by simp
next
  case (step r r')
  from step.hyps(2) step.IH show ?case
    by (cases rule: cp_step.cases)
      (simp_all add: store_runInv [OF assms(2)] complete_runInv [OF assms(2)] other_runInv [OF _ assms(2)])
qed

lemma query_finished:
  assumes "queryInv c0 c d q"
  shows "cp_state (checkpointOf c q) = COMPLETED \<longleftrightarrow> cc_ready c ! q = [] \<and> pendingOf q (cc_pending c) = {#}"
    and "cp_state (checkpointOf c q) = COMPLETED \<Longrightarrow> set_mset (doneOf q d) = set (cc_ready c0 ! q)"
proof -
  have eq: "mset (cc_ready c ! q) + pendingOf q (cc_pending c) + doneOf q d = mset (cc_ready c0 ! q)"
    and st: "cp_state (checkpointOf c q) = COMPLETED \<longleftrightarrow> size (doneOf q d) = length (cc_ready c0 ! q)"
    using assms by (auto simp: queryInv_def)
  have "size (mset (cc_ready c ! q) + pendingOf q (cc_pending c) + doneOf q d) = length (cc_ready c0 ! q)" unfolding eq by simp
  then show i: "cp_state (checkpointOf c q) = COMPLETED \<longleftrightarrow> cc_ready c ! q = [] \<and> pendingOf q (cc_pending c) = {#}"
    unfolding st by auto
  show "set_mset (doneOf q d) = set (cc_ready c0 ! q)" if "cp_state (checkpointOf c q) = COMPLETED"
  proof -
    have "mset (cc_ready c0 ! q) = doneOf q d" using eq that i by simp
    then show ?thesis by (metis set_mset_mset)
  qed
qed

lemma pending_Nil: "\<forall>w \<in> set ws. cw_query w < n \<Longrightarrow> ws = [] \<longleftrightarrow> (\<forall>q < n. pendingOf q ws = {#})"
  by (cases ws) (auto simp: pendingOf_def)

lemma counter_all:
  assumes "runInv conf n c0 (c, d, f)"
  shows "cc_checkpointCounter c = int n \<longleftrightarrow> (\<forall>q < n. cp_state (checkpointOf c q) = COMPLETED)"
proof -
  have "card (completed n c) = n \<longleftrightarrow> completed n c = {..<n}"
  proof
    assume "card (completed n c) = n"
    then show "completed n c = {..<n}" by (intro card_subset_eq) (auto simp: completed_def)
  qed simp
  moreover have "completed n c = {..<n} \<longleftrightarrow> (\<forall>q < n. cp_state (checkpointOf c q) = COMPLETED)" by (auto simp: completed_def)
  moreover have "cc_checkpointCounter c = int (card (completed n c))" using assms by (simp add: runInv_def)
  ultimately show ?thesis by simp
qed

lemma counter_exact:
  assumes I: "runInv conf n c0 (c, d, f)"
  shows "cc_checkpointCounter c = int n \<longleftrightarrow> (\<forall>q < n. cc_ready c ! q = []) \<and> cc_pending c = []"
proof -
  have q: "\<And>q. q < n \<Longrightarrow> queryInv c0 c d q" and w: "\<forall>w \<in> set (cc_pending c). cw_query w < n"
    using I by (auto simp: runInv_def writeInv_def Let_def)
  show ?thesis unfolding counter_all [OF I] pending_Nil [OF w] using query_finished(1) [OF q] by blast
qed

lemma counter_stored:
  assumes I: "runInv conf n c0 (c, d, False)" and "cc_checkpointCounter c = int n" "q < n" "idx \<in> set (cc_ready c0 ! q)"
  shows "isStored conf c0 (cc_disk c) q idx"
proof -
  have Q: "queryInv c0 c d q" "cp_state (checkpointOf c q) = COMPLETED" using I assms(2,3) counter_all [OF I] by (auto simp: runInv_def)
  then have "idx \<in># doneOf q d" using query_finished(2) [OF Q] assms(4) by simp
  then have "(q, idx) \<in> set d" by (auto simp: doneOf_def)
  then show ?thesis using I by (auto simp: runInv_def)
qed

lemma rfold_same: "rfold f xs c = Inr c' \<Longrightarrow> (\<And>x c c'. f x c = Inr c' \<Longrightarrow> c' = c) \<Longrightarrow> c' = c"
proof (induction xs arbitrary: c)
  case (Cons x xs)
  then show ?case by fastforce
qed simp

lemma validate_same: "rfold validateQuery qs c = Inr c' \<Longrightarrow> c' = c"
  by (erule rfold_same) (auto simp: validateQuery_def Let_def split: if_splits elim!: rfold_same)

text \<open>A coordinator between two checkpoints. The queries do not feed each other in a cycle, which \<open>rank\<close> witnesses.\<close>

definition idle :: "SystemConf \<Rightarrow> (nat \<Rightarrow> nat) \<Rightarrow> nat \<Rightarrow> 'w CheckpointCoordinator \<Rightarrow> bool" where
  "idle conf rank n c \<longleftrightarrow> shape n c \<and> length (cc_ups c) = n \<and>
     (\<forall>q < n. \<forall>u \<in> set (cc_ups c ! q). u < n \<and> rank u < rank q) \<and> (\<forall>q < n. cc_ready c ! q = [] \<and> indexed c q) \<and>
     cc_pending c = [] \<and> cc_checkpointCounter c = 0 \<and> poolsOk conf (cc_unbounded c)"

lemma idle_prepared: "cc_prepareCheckpoint conf c = Inr c0 \<Longrightarrow> idle conf rank n c \<Longrightarrow> prepared conf n c0"
  by (rule prepareCheckpoint_prepared [where rank = rank]) (auto simp: idle_def)

text \<open>
  C14. The counter for which the coordinator waits is exact: after a preparation, whatever the order in which workers
  take slots, writes complete and other threads change slots that are not marked, the counter is the number of
  queries if and only if no marked slot waits and no write is under way.
\<close>

theorem checkpoint_counter_exact:
  assumes "idle conf rank n c" "cc_prepareCheckpoint conf c = Inr c0" "(cp_step conf n)\<^sup>*\<^sup>* (c0, [], False) (c1, d, failed)"
  shows "cc_checkpointCounter c1 = int n \<longleftrightarrow> (\<forall>q < n. cc_ready c1 ! q = []) \<and> cc_pending c1 = []"
  using counter_exact [OF run_runInv [OF assms(3) idle_prepared [OF assms(2,1)]]] .

text \<open>
  C5. A valid checkpoint is complete: if no write failed, then when the coordinator sets the checkpoint valid, every
  slot that was marked is in the file of its query, at the block of the slot, with the pointers and the output it had
  when it was marked.
\<close>

theorem finished_checkpoint_stored:
  assumes "idle conf rank n c" "cc_prepareCheckpoint conf c = Inr c0" "(cp_step conf n)\<^sup>*\<^sup>* (c0, [], False) (c1, d, False)"
    and "finishCheckpoint conf persistent1 persistent2 c1 = Inr (r, c2)" "q < n" "idx \<in> set (cc_ready c0 ! q)"
  shows "cc_valid c2 \<and> isStored conf c0 (cc_disk c2) q idx"
proof -
  have I: "runInv conf n c0 (c1, d, False)" by (rule run_runInv [OF assms(3) idle_prepared [OF assms(2,1)]])
  have "length (cc_handlers c1) = n" using I by (simp add: runInv_def shape_def)
  then have cnt: "cc_checkpointCounter c1 = int n" using assms(4) by (auto simp: finishCheckpoint_def split: if_splits)
  have "cc_disk c2 = cc_disk c1 \<and> cc_valid c2" using assms(4) by (auto simp: finishCheckpoint_def split: if_splits dest!: validate_same)
  then show ?thesis using counter_stored [OF I cnt assms(5,6)] by simp
qed

section \<open>A checkpoint of one query with one result\<close>

definition exSlot :: ResultSlot where
  "exSlot = (newResultSlot 0)\<lparr>rs_slot := 1, rs_taskId := 1, rs_result := Some \<lparr>pw_capacity = 2, pw_position = 2, pw_buffer = [7, 9],
     pw_bufferPtrs = [], pw_startPointers = [], pw_partialWindows = 0, pw_pid = 0, pw_count = 0, pw_type = 0\<rparr>\<rparr>"

definition exHandler :: "unit ResultHandler" where
  "exHandler = (newResultHandler defaultConf 0 [] True [] () (Some 2) demoBuffer demoBuffer False emptyFactory (newPartialFactory defaultConf))
     \<lparr>rh_maxTaskId := 1, rh_resultsWithoutFrags := [exSlot, newResultSlot 1]\<rparr>"

definition exCoord :: "unit CheckpointCoordinator" where
  "exCoord = \<lparr>cc_jobId = 0, cc_path = '''', cc_checkpointId = 1, cc_checkpointCounter = 0, cc_recoveryCounter = 0, cc_ups = [[]],
     cc_marked = [True], cc_checkpoints = [[newCheckpoint defaultConf, newCheckpoint defaultConf]], cc_recoveries = [newRecovery],
     cc_lastTaskId = [-1], cc_ptrs = [replicate 12 (-1)], cc_handlers = [exHandler], cc_ready = [[]], cc_readyInput1 = [[]], cc_readyInput2 = [[]], cc_hasConcurrentCheckpoint = True,
     cc_expectedBytes = 0, cc_measuredBytes = 0, cc_version = 0, cc_metadata = '''', cc_valid = False, cc_disk = (\<lambda>_. []),
     cc_pending = [], cc_unbounded = \<lparr>uf_numberOfThreads = 1, uf_count = 0, uf_pool = [], uf_poolCB = [[]], uf_poolNB = [[]]\<rparr>\<rparr>"

lemma exCoord_idle: "idle defaultConf id 1 exCoord"
  by (simp add: idle_def shape_def exCoord_def exHandler_def exSlot_def newResultSlot_def indexed_def poolsOk_def)

lemma ckSorted: "sortedQueries [[]] = [0]"
  by (simp add: sortedQueries_def)

definition exMarked :: ResultSlot where
  "exMarked = exSlot\<lparr>rs_previousSlot := 1, rs_numberOfResults := 1, rs_slot := 5\<rparr>"

definition exStarted :: "unit CheckpointCoordinator" where
  "exStarted = exCoord\<lparr>cc_checkpoints := [[newCheckpoint defaultConf, (resetCheckpoint defaultConf (newCheckpoint defaultConf))
       \<lparr>cp_checkpointId := 1, cp_numberOfSlots := 1\<rparr>]], cc_lastTaskId := [1],
     cc_ptrs := [[0, 0, INT_MIN, INT_MIN, -1, -1, -1, -1, 1, 1, INT_MIN, INT_MIN]],
     cc_handlers := [exHandler\<lparr>rh_resultsWithoutFrags := [exMarked, newResultSlot 1]\<rparr>], cc_ready := [[0]], cc_expectedBytes := 2\<rparr>"

lemma ckPrepare: "cc_prepareCheckpoint defaultConf exCoord = Inr exStarted"
proof -
  have m: "to_int32 INT_MIN = INT_MIN" by (simp add: INT_MIN_def to_int32_def)
  have t: "to_int32 (-1) = -1" "to_int32 0 = 0" "to_int32 1 = 1" by (simp_all add: to_int32_def)
  have ss: "rh_resultsWithoutFrags exHandler = [exSlot, newResultSlot 1]" "rh_maxTaskId exHandler = 1" "rh_nextToForward exHandler = 0"
    "rh_numberOfSlots exHandler = 2" by (simp_all add: exHandler_def newResultHandler_def Let_def)
  have sl: "rs_slot exSlot = 1" "rs_taskId exSlot = 1" "rs_freePointer1 exSlot = INT_MIN" "rs_freePointer2 exSlot = INT_MIN"
    "rs_taskId (newResultSlot 1) = -1" by (simp_all add: exSlot_def newResultSlot_def)
  obtain p where p: "rs_result exSlot = Some p" "pw_position p = 2" by (simp add: exSlot_def)
  have l: "\<not> LINEAGE_ON defaultConf" by (simp add: defaultConf_def)
  have one: "prepareQuery defaultConf 0 exCoord = Inr exStarted"
    by (simp add: exCoord_def exStarted_def prepareQuery_def version_def setCheckpoint_def setPtrs_def Let_def m t ss sl l p vget_def vset_def
        slotsToStore_def markSlot_def rs_setPreviousSlot_def rs_getNumberOfResults_def setHandler_def storePtrs_def cp_increaseSlots_def
        cp_setCheckpointId_def resetCheckpoint_def newCheckpoint_def numeral_nat exMarked_def)
  have "startQuery 0 exStarted = exStarted" by (simp add: startQuery_def exStarted_def exCoord_def version_def)
  moreover have "cc_ups exCoord = [[]]" "cc_ups exStarted = [[]]" by (simp_all add: exStarted_def exCoord_def)
  ultimately show ?thesis by (simp add: cc_prepareCheckpoint_def ckSorted one)
qed

definition exImage :: "byte list" where
  "exImage = write_at 0 (textBytes (slotMetadata exMarked 2)) (write_at 512 [7, 9] (replicate 16384 0))"

lemma slotImage_ex: "slotImage exMarked (replicate 16384 0) = Inr (8192, exImage)"
proof -
  have md: "length (slotMetadata exMarked 2) \<le> 512"
    by (simp add: slotMetadata_def exMarked_def exSlot_def newResultSlot_def INT_MIN_def to_string_def digits.simps)
  have k: "cc_roundOffset (getPowerOfTwo 514) = 8192" by (simp add: getPowerOfTwo_def halvings.simps cc_roundOffset_def)
  have r: "rs_result exMarked = Some \<lparr>pw_capacity = 2, pw_position = 2, pw_buffer = [7, 9],
     pw_bufferPtrs = [], pw_startPointers = [], pw_partialWindows = 0, pw_pid = 0, pw_count = 0, pw_type = 0\<rparr>"
    by (simp add: exMarked_def exSlot_def)
  have out: "memread [7, 9 :: byte] 0 2 = Inr [7, 9]" by (simp add: memread_def)
  have b: "memcpy_to (replicate 16384 0) 512 [7, 9 :: byte] = Inr (write_at 512 [7, 9] (replicate 16384 0))"
    by (simp add: memcpy_to_def)
  have l: "length (write_at 512 [7, 9 :: byte] (replicate 16384 0)) = 16384" by (subst length_write_at) (simp_all)
  have "memcpy_to (write_at 512 [7, 9] (replicate 16384 0)) 0 (textBytes (slotMetadata exMarked 2)) = Inr exImage"
    using md by (simp add: memcpy_to_def l exImage_def textBytes_def)
  then show ?thesis using md
    by (simp add: slotImage_def r out b k checkBlockSize_def guard_res_def)
qed

definition exStored :: "unit CheckpointCoordinator" where
  "exStored = exStarted\<lparr>cc_ready := [[]], cc_measuredBytes := 8192,
     cc_pending := [\<lparr>cw_query = 0, cw_slot = 0, cw_previous = 1, cw_file = checkpointFile exStarted 0 1, cw_offset = 0,
       cw_data = take 8192 exImage, cw_buffer = \<lparr>ub_id = 0, ub_capacity = 16384, ub_position = 0, ub_buffer = exImage\<rparr>\<rparr>],
     cc_unbounded := \<lparr>uf_numberOfThreads = 1, uf_count = 1, uf_pool = [], uf_poolCB = [[]], uf_poolNB = [[]]\<rparr>\<rparr>"

lemma ckStore: "storeSlot defaultConf 0 0 exStarted = Inr exStored"
proof -
  have m: "rs_slot exMarked = 5" "rs_previousSlot exMarked = 1" "rs_index exMarked = 0" by (simp_all add: exMarked_def exSlot_def newResultSlot_def)
  have c: "cc_ready exStarted = [[0]]" "cc_handlers exStarted = [exHandler\<lparr>rh_resultsWithoutFrags := [exMarked, newResultSlot 1]\<rparr>]"
    "cc_unbounded exStarted = \<lparr>uf_numberOfThreads = 1, uf_count = 0, uf_pool = [], uf_poolCB = [[]], uf_poolNB = [[]]\<rparr>" "version exStarted = 1"
    "cc_measuredBytes exStarted = 0" "cc_pending exStarted = []"
    by (simp_all add: exStarted_def exCoord_def version_def)
  have new: "uf_newInstancePid defaultConf 0 (cc_unbounded exStarted) =
      Inr (\<lparr>ub_id = 0, ub_capacity = 16384, ub_position = 0, ub_buffer = replicate 16384 0\<rparr>, (cc_unbounded exStarted)\<lparr>uf_count := 1\<rparr>)"
    by (simp add: uf_newInstancePid_def c vget_def newUnboundedBuffer_def defaultConf_def)
  show ?thesis
    by (simp add: storeSlot_def Let_def c m new [unfolded c] vget_def slotImage_ex rs_getPreviousSlot_def exStored_def)
qed

lemma ckComplete:
  "\<exists>c1. completeSlot (0, True) exStored = Inr c1 \<and> cc_checkpointCounter c1 = 1 \<and> length (cc_handlers c1) = 1 \<and> cc_ready c1 = [[]] \<and> cc_pending c1 = [] \<and>
     cc_ptrs c1 = cc_ptrs exStarted \<and> rh_numberOfSlots (cc_handlers c1 ! 0) = 2"
proof -
  have n: "rh_numberOfSlots exHandler = 2" by (simp add: exHandler_def newResultHandler_def Let_def)
  have m: "slotMarked exMarked" by (simp add: slotMarked_def exMarked_def)
  show ?thesis using m
    by (simp add: completeSlot_def exStored_def exStarted_def exCoord_def vget_def vset_def restoreSlot_def slotMarked_def uf_freePid_def
        ub_setPosition_def cp_updateCounter_def cp_setComplete_def version_def resetCheckpoint_def setCheckpoint_def setHandler_def Let_def n)
qed

lemma ckRun:
  obtains c1 where "(cp_step defaultConf 1)\<^sup>*\<^sup>* (exStarted, [], False) (c1, [(0, 0)], False)" "cc_checkpointCounter c1 = 1"
    and "\<exists>r c2. finishCheckpoint defaultConf (\<lambda>_. False) (\<lambda>_. False) c1 = Inr (r, c2)"
proof -
  obtain c1 where c1: "completeSlot (0, True) exStored = Inr c1" "cc_checkpointCounter c1 = 1" "length (cc_handlers c1) = 1"
    "cc_ptrs c1 = cc_ptrs exStarted" "rh_numberOfSlots (cc_handlers c1 ! 0) = 2" using ckComplete by blast
  have "cp_step defaultConf 1 (exStarted, [], False) (exStored, [], False)" by (rule step_store [OF _ ckStore]) simp
  moreover have "cp_step defaultConf 1 (exStored, [], False) (c1, [(0, 0)], False)"
    using step_complete [of 0 exStored True c1 defaultConf 1 "[]" False] c1(1) by (simp add: exStored_def)
  moreover have "validateQuery 0 c1 = Inr c1" using c1(4,5) by (simp add: validateQuery_def ringRange_def exStarted_def)
  then have "\<exists>r c2. finishCheckpoint defaultConf (\<lambda>_. False) (\<lambda>_. False) c1 = Inr (r, c2)"
    using c1(2,3) by (simp add: finishCheckpoint_def)
  ultimately show ?thesis using that c1(2) by (meson converse_rtranclp_into_rtranclp rtranclp.rtrancl_refl)
qed

theorem checkpoint_counter_exact_witness:
  "\<exists>c1 d. (cp_step defaultConf 1)\<^sup>*\<^sup>* (exStarted, [], False) (c1, d, False) \<and> cc_checkpointCounter c1 = 1 \<and> cc_pending c1 = []"
proof -
  obtain c1 where c1: "(cp_step defaultConf 1)\<^sup>*\<^sup>* (exStarted, [], False) (c1, [(0, 0)], False)" "cc_checkpointCounter c1 = 1" using ckRun by blast
  then show ?thesis using checkpoint_counter_exact [OF exCoord_idle ckPrepare c1(1)] by auto
qed

theorem finished_checkpoint_stored_witness:
  "\<exists>c1 c2 r. (cp_step defaultConf 1)\<^sup>*\<^sup>* (exStarted, [], False) (c1, [(0, 0)], False) \<and>
     finishCheckpoint defaultConf (\<lambda>_. False) (\<lambda>_. False) c1 = Inr (r, c2) \<and> isStored defaultConf exStarted (cc_disk c2) 0 0"
proof -
  obtain c1 r c2 where c1: "(cp_step defaultConf 1)\<^sup>*\<^sup>* (exStarted, [], False) (c1, [(0, 0)], False)"
    "finishCheckpoint defaultConf (\<lambda>_. False) (\<lambda>_. False) c1 = Inr (r, c2)" using ckRun by metis
  moreover have "0 \<in> set (cc_ready exStarted ! 0)" by (simp add: exStarted_def)
  ultimately show ?thesis using finished_checkpoint_stored [OF exCoord_idle ckPrepare c1, of 0 0] by auto
qed

end
