(* ===== verification/Spec2Isabelle.thy ===== *)
theory Spec2Isabelle
  imports Dispatching Joining Reordering FragmentMerging Compression JoinPairs SlidingAggregates
    KeyHashing BlockFiles PersistentStream CheckpointRuns
begin

text \<open>
  A verification of the core of the LightSaber stream processing engine
  (\<open>src/lightsaber/LightSaber/src\<close>). Paths below are relative to that directory.

  \<^bold>\<open>The program.\<close> A query reads one or two streams of bytes. The dispatcher of the query
  (\<open>dispatcher/TaskDispatcher.cpp\<close>, \<open>dispatcher/JoinTaskDispatcher.cpp\<close>) inserts the bytes into a
  circular input buffer (\<open>buffers/CircularQueryBuffer.h\<close>), cuts the stream into batches and enqueues a
  task per batch. A worker takes a task, slices its batch into window fragments
  (\<open>tasks/WindowBatch.cpp\<close>), runs the operator, which keeps groups in a hash table
  (\<open>cql/operators/HashTable.h\<close>), and stores its output (\<open>buffers/PartialWindowResults.h\<close>) in a slot of
  the result handler (\<open>result/ResultHandler.cpp\<close>). The handler puts the results back into task order,
  passes them on to the dispatchers of the downstream queries and frees the input. Lineage graphs
  (\<open>checkpoint/LineageGraph.cpp\<close>) travel with the data and record what may be freed after a failure.
  A persistent input buffer (\<open>buffers/PersistentCircularQueryBuffer.h\<close>) stores each batch in a file before it is
  processed: workers copy and write the batches, and completed writes are acknowledged in order.
  The checkpoint coordinator (\<open>checkpoint/FileBackedCheckpointCoordinator.cpp\<close>) marks the results that wait in the slots of
  the handlers; workers write them to files, and when all queries have completed their pointers are stored and the
  checkpoint is valid.
  Inputs and results can be compressed (\<open>compression/Compressor.h\<close>).

  \<^bold>\<open>The theories.\<close>
  \<^item> \<open>Prelude\<close>: errors as values (\<open>res\<close>, with \<open>Undefined\<close> for undefined behaviour of C++, \<open>Exit\<close> for
    \<open>exit\<close> and a value per exception), checked array access (\<open>vget\<close>, \<open>vset\<close>), memory copies, 32-bit
    conversion, little-endian numbers.
  \<^item> \<open>WindowDef\<close> (\<open>utils/WindowDefinition.h\<close>), \<open>SystemUtils\<close> (\<open>utils/SystemConf.cpp\<close>, \<open>utils/Utils.cpp\<close>),
    \<open>QueryOps\<close> (the progress vector of \<open>utils/QueryOperator.h\<close>).
  \<^item> \<open>LineageGraph\<close> (\<open>checkpoint/LineageGraph.cpp\<close>, \<open>LineageGraphFactory.h\<close>) and \<open>QuerySlot\<close> (the slots of
    \<open>buffers/QueryBuffer.h\<close>).
  \<^item> \<open>UnboundedBuffer\<close> (\<open>buffers/UnboundedQueryBuffer.h\<close> and its factory) and \<open>CircularBuffer\<close>
    (\<open>buffers/QueryBuffer.h\<close>, \<open>buffers/CircularQueryBuffer.h\<close>). \<open>ByteQueue\<close> is the interface of an input
    buffer, a locale, and \<open>CircularBuffer\<close> interprets it.
  \<^item> \<open>PaneSlicing\<close> and \<open>WindowBatch\<close> (\<open>tasks/WindowBatch.cpp\<close>): the loops that find the window fragments of
    a batch. \<open>Tasks\<close> (\<open>tasks/Task.h\<close> and the pools of batches and tasks).
  \<^item> \<open>TaskDispatcher\<close> and \<open>Dispatching\<close>: the dispatcher for one stream, and its correctness.
  \<^item> \<open>SerialTasks\<close>, \<open>JoinTaskDispatcher\<close> and \<open>Joining\<close>: the list of waiting insertions with its interface as
    a locale, the dispatcher for two streams, and its correctness.
  \<^item> \<open>PartialWindows\<close> (\<open>buffers/PartialWindowResults.h\<close> and its factory), \<open>ResultHandler\<close>
    (\<open>result/ResultHandler.cpp\<close>, \<open>result/PartialResultSlot.h\<close>) and \<open>Reordering\<close>: the results of operators
    without window fragments, and the correctness of their order.
  \<^item> \<open>FragmentSlots\<close> (\<open>result/PartialResultSlot.h\<close>), \<open>SingleKeyMerge\<close> (\<open>aggregatePartials\<close> of
    \<open>cql/operators/codeGeneration/OperatorKernel.h\<close> with the merge routine for aggregates without groups, whose
    initialisation, merge and evaluation expressions are arguments), \<open>Merging\<close>, \<open>FragmentHandler\<close>
    (\<open>aggregateAndForwardAndFree\<close> of \<open>result/ResultHandler.cpp\<close>) and \<open>FragmentMerging\<close>: the windows that span tasks,
    and that merging completes them.
  \<^item> \<open>Schemas\<close> (\<open>utils/TupleSchema.h\<close>, \<open>utils/AttributeType.h\<close>) and \<open>Expressions\<close> (\<open>cql/expressions\<close>,
    \<open>cql/predicates\<close>).
  \<^item> \<open>ThetaJoin\<close> (\<open>cql/operators/ThetaJoin.h\<close>), \<open>JoinOutput\<close> and \<open>JoinPairs\<close>: the join operator with the routine its
    generated code runs, and the pairs it writes.
  \<^item> \<open>AggregationTree\<close> (\<open>cql/operators/codeGeneration/AggregationTree.h\<close>, \<open>cql/operators/AggregationType.h\<close>) and
    \<open>SlidingAggregates\<close>: the ring of panes of the generated code, and that it aggregates windows.
  \<^item> \<open>HashFunctions\<close> (\<open>cql/operators/HashFunctions.h\<close>) and \<open>KeyHashing\<close>; \<open>BlockManager\<close>
    (\<open>checkpoint/BlockManager.cpp\<close>) and \<open>BlockFiles\<close>: the files that hold the blocks of a persistent input.
  \<^item> \<open>PersistentBuffer\<close> (\<open>buffers/PersistentCircularQueryBuffer.h\<close>, with the insertion branch of \<open>Task::run\<close>) and
    \<open>PersistentStream\<close>: the persistent input buffer, and its correctness as a step relation.
  \<^item> \<open>Checkpointing\<close> (\<open>checkpoint/FileBackedCheckpointCoordinator.cpp\<close>, \<open>Checkpoint.h\<close>, \<open>Recovery.h\<close>) and \<open>CheckpointRuns\<close>:
    the checkpoint coordinator, and its correctness as a step relation.
  \<^item> \<open>HashTable\<close> (\<open>cql/operators/HashTable.h\<close>) and \<open>Compression\<close> (\<open>compression/Compressor.h\<close>, \<open>Zigzag.h\<close>).

  \<^bold>\<open>State and operations.\<close> A class is a record, with the names of the members behind a prefix per
  class (\<open>td_\<close>, \<open>jd_\<close>, \<open>qb_\<close>, \<open>rh_\<close> and so on); a method is a function on the record with the name of the
  method. Buffers are lists of bytes, positions and pointers are integers, read at their width where
  the code narrows them (\<open>to_int32\<close>) and as words where it works on bits. A shared pointer to a
  lineage graph or batch is the object with the number of its other owners. The object pools, which
  are singletons of the program, are part of the state of the operations that use them.

  \<^bold>\<open>What is shown.\<close>
  \<^item> Dispatching: in every run of a dispatcher and the consumers of its buffer, the enqueued tasks are
    the complete batches of the accepted bytes, in order, and the bytes of a batch stay in the buffer
    until it is freed; an attempt returns, and a waiting one returns when consumers make room.
  \<^item> Joining: until a buffer is full for the first time, every pair of tuples of open windows is in the
    batches of exactly one task or is one of the pairs that a task leaves out; which pairs these are,
    the order of serial insertions, the moving of windows, and what goes wrong when a pointer wraps.
  \<^item> Join operator: on batches in timestamp order that do not wrap around, with room for the output, the
    join routine returns and writes, each once, the matching pairs of an arriving tuple with the older
    tuples of the other batch in the window, without the newest of them and without the tuples that
    arrive after the other batch is exhausted; a window that wraps around is read past the buffer.
  \<^item> Incremental aggregation: inserting and evicting panes equals aggregating the panes of the window
    anew, where float sums of panes are exact; minima and maxima include the limit they start from, so
    that maxima of negative values are wrong.
  \<^item> Schemas and expressions: padding, the types of projections, and that the text of an expression in
    the generated code determines the expression.
  \<^item> Results: in every interleaving of storing and forwarding threads in which no task is stored more
    than a ring ahead of the forwarded ones, each downstream query gets the results in task order, each
    once, and a pass under the lock forwards all that is ready; a task further ahead meets an occupied
    slot and overwrites it.
  \<^item> Fragments: a pass of the merge section completes every window with all its fragments in task order,
    unless a task closes some windows and leaves others open, where the newest ones lose its fragment.
  \<^item> Windows: the slicing loops store the position of the first tuple of each window and of the first one
    behind it; \<open>prepend\<close> keeps the bytes of all windows.
  \<^item> Buffers: the circular buffer refines a bounded FIFO queue of bytes, as long as no release is of a
    single byte.
  \<^item> Persistent input: in every interleaving of insertions with a retain mark, workers, write
    completions, consumption and release, batches are handed out unchanged and in order, are in memory until released and in the
    file unless a write failed; no insertion finds its slot blocked, and no batch is stuck once the
    tasks have run and the writes completed. Failed writes are acknowledged, and an insertion without a
    retain mark blocks the stream.
  \<^item> Checkpoints: in every interleaving of workers, completions of writes and threads that leave marked
    slots alone, the counter of the coordinator is the number of queries exactly when every marked slot
    has been stored, and a valid checkpoint has every marked slot in its file as it was, unless a write
    failed; queries are prepared upstream first, and the stored pointers are read back unchanged. A
    thread that overwrites an occupied slot (see Results) is outside this guarantee. Full and empty
    checkpoints are restored wrongly.
  \<^item> Hash functions: the keys on which the Murmur hashes and the hash of 128-bit keys have no collisions,
    the hardware CRC as CRC-32C, and what the other CRC hash ignores.
  \<^item> Block manager: each position has the file of its block while two blocks and ten files are enough,
    and the wrong ones returned beyond that.
  \<^item> Hash table, lineage and compression: grouping equals a fold per key, a table filled by insertions is
    a map, merging graphs joins vector clocks, freeing makes the calls of a query and its upstream
    queries, and the encoders are inverted on the stated ranges.

  \<^bold>\<open>Loops and fuel.\<close> Loops that end are functions with a termination proof. Loops that wait for other
  threads are partial functions to option: \<open>pow2_loop\<close>, \<open>enqueue_spin\<close>, \<open>mergeSpin\<close>, \<open>dispatch_spin\<close>,
  \<open>jd_spin\<close>, \<open>reserveSlot\<close>, \<open>reserveFragment\<close>; what the other threads do between two attempts is an argument (\<open>others\<close>), and
  for \<open>pow2_loop\<close> and \<open>dispatch_spin\<close> it is proved when they return. \<open>s8_blocks\<close> consumes at least one value per
  block, so the number of values bounds its rounds.

  \<^bold>\<open>Code outside the repository.\<close> The task queue (the third-party class of \<open>tasks/ConcurrentQueue.h\<close>), the
  hash function and the aggregate of the generated code, and the dispatchers of downstream queries as
  seen by the result handler, the C++ compiler with the truth value of a join predicate it makes from
  its text, and the arithmetic and the limits of floats are arguments of the definitions. The hypotheses
  about them are \<open>queue_ok\<close>, \<open>queue_accepts\<close>, \<open>queue_live\<close>, \<open>sink_ok\<close>, \<open>accepts\<close> and \<open>float_exact\<close>; the witnesses
  instantiate them.

  \<^bold>\<open>Not modelled.\<close> The parallel merge of the result handler (\<open>aggregateWindowsAndForwardAndFree\<close>) and
  the merge of grouped windows walk hash tables laid out by generated code. The recovery and the compression
  of the persistent buffer, NUMA and RDMA buffers, checkpoints of slots with window fragments and of inputs that are not
  persistent, the reading of slots in a recovery and most of the file system are left out; of asynchronous I/O the model has the requests under way and takes their completions as arguments. Of
  the code generators the merge of single windows, the join routine and the aggregation ring are modelled
  by what the text they write does; the rest of the operator kernel is C++ text assembled from
  fragments. \<open>processInDebug\<close> of the join is never called, since \<open>m_debug\<close> is never set. Monitors, query wiring and thread
  loops are glue. The other baselines of the repository (\<open>hardcoded_cpp\<close>, \<open>handcoded_java\<close>, Flink and Kafka
  jobs) share no code with the engine.
\<close>

end
